(* ===== verification/Prelude.thy ===== *)
theory Prelude
  imports Main "HOL-Library.Word"
begin

text \<open>
  Shared material: the names of the machine types, the error codes the library returns,
  and the generic lemmas on words, lists and options that several components use.
\<close>

unbundle bit_operations_syntax

type_synonym u8 = "8 word"
type_synonym u16 = "16 word"
type_synonym u32 = "32 word"
type_synonym u64 = "64 word"

text \<open>An address of an object in memory; a C pointer is an optional address (NULL is None).\<close>

type_synonym addr = nat
type_synonym ptr = "addr option"

named_theorems mem_simps "reading a store after the elementary writes"

subsection \<open>Words\<close>

lemma unat_div2 [simp]: "unat ((n :: u32) div 2) = unat n div 2"
  by (simp add: unat_div)

lemma unat_and1 [simp]: "unat ((n :: u32) AND 1) = unat n mod 2"
  by (simp add: and_one_eq unat_mod)

lemma unat_shiftr1: "unat (drop_bit 1 (n :: u32)) = unat n div 2"
  by (simp add: unat_drop_bit_eq drop_bit_Suc)

lemma word32_ge2: "(2 :: u32) \<le> n \<longleftrightarrow> 2 \<le> unat n"
  by (simp add: word_le_nat_alt)

lemma word32_gt0: "(0 :: u32) < n \<longleftrightarrow> 0 < unat n"
  by (simp add: word_less_nat_alt)

lemma unat_inc: "unat (n :: u32) + 1 < 2 ^ 32 \<Longrightarrow> unat (n + 1) = unat n + 1"
  by (simp add: unat_word_ariths)

lemma unat_dec: "0 < unat (n :: u32) \<Longrightarrow> unat (n - 1) = unat n - 1"
  by (rule unat_minus_one) auto

lemma unat_shiftl1_or_bit:
  fixes p n :: u32
  assumes "unat p < 2 ^ 31"
  shows "unat (push_bit 1 p OR (n AND 1)) = 2 * unat p + unat n mod 2"
proof -
  have disj: "push_bit 1 p AND (n AND 1) = 0"
    by (rule bit_word_eqI) (auto simp: bit_simps bit_double_iff mult.commute [of p])
  have "push_bit 1 p OR (n AND 1) = push_bit 1 p + (n AND 1)"
    using disj by (simp add: disjunctive_add_eq_or)
  moreover have "unat (push_bit 1 p) = 2 * unat p"
    using assms by (simp add: push_bit_eq_mult unat_word_ariths)
  ultimately show ?thesis
    using assms by (simp add: unat_word_ariths)
qed

lemma unat_lt32: "unat (n :: u32) < 2 ^ 32"
proof -
  have "unat n < 2 ^ LENGTH(32)" by (rule unsigned_less)
  then show ?thesis by simp
qed

subsection \<open>Assertions\<close>

text \<open>A failing assertion is \<open>None\<close> in the option monad.\<close>

definition ASSERT :: "bool \<Rightarrow> unit option" where
  "ASSERT b = (if b then Some () else None)"

lemma ASSERT_simps [simp]: "ASSERT True = Some ()" "ASSERT False = None"
    "Option.bind (ASSERT b) f = (if b then f () else None)"
  by (simp_all add: ASSERT_def)

end
