(* ===== verification/HeapInl.thy ===== *)
theory HeapInl
  imports Prelude
begin

text \<open>
  The binary min-heap of \<open>src/src/libuv/src/heap-inl.h\<close>, at the level of its node
  pointers.  \<open>hmem\<close> is the memory the nodes live in; every assignment of the C code
  through a pointer is one update of it.
\<close>

section \<open>Data\<close>

record hnode =
  left :: ptr
  right :: ptr
  parent :: ptr

record heap =
  hmin :: ptr
  nelts :: u32
  hmem :: "addr \<Rightarrow> hnode"

text \<open>A \<open>struct heap_node **\<close>: the places that hold a child pointer.\<close>

datatype slot = RootSlot | LeftSlot addr | RightSlot addr

type_synonym compare_fn = "addr \<Rightarrow> addr \<Rightarrow> bool"

section \<open>Elementary memory accesses\<close>

definition put_node :: "addr \<Rightarrow> hnode \<Rightarrow> heap \<Rightarrow> heap" where
  "put_node a nd h = h\<lparr>hmem := (hmem h)(a := nd)\<rparr>"

definition set_left :: "addr \<Rightarrow> ptr \<Rightarrow> heap \<Rightarrow> heap" where
  "set_left a v h = h\<lparr>hmem := (hmem h)(a := (hmem h a)\<lparr>left := v\<rparr>)\<rparr>"

definition set_right :: "addr \<Rightarrow> ptr \<Rightarrow> heap \<Rightarrow> heap" where
  "set_right a v h = h\<lparr>hmem := (hmem h)(a := (hmem h a)\<lparr>right := v\<rparr>)\<rparr>"

definition set_parent :: "addr \<Rightarrow> ptr \<Rightarrow> heap \<Rightarrow> heap" where
  "set_parent a v h = h\<lparr>hmem := (hmem h)(a := (hmem h a)\<lparr>parent := v\<rparr>)\<rparr>"

text \<open>\<open>if (q != NULL) q->parent = v\<close>\<close>

definition set_parent_opt :: "ptr \<Rightarrow> ptr \<Rightarrow> heap \<Rightarrow> heap" where
  "set_parent_opt q v h = (case q of None \<Rightarrow> h | Some a \<Rightarrow> set_parent a v h)"

fun read_slot :: "heap \<Rightarrow> slot \<Rightarrow> ptr" where
  "read_slot h RootSlot = hmin h"
| "read_slot h (LeftSlot a) = left (hmem h a)"
| "read_slot h (RightSlot a) = right (hmem h a)"

fun write_slot :: "slot \<Rightarrow> ptr \<Rightarrow> heap \<Rightarrow> heap" where
  "write_slot RootSlot v h = h\<lparr>hmin := v\<rparr>"
| "write_slot (LeftSlot a) v h = set_left a v h"
| "write_slot (RightSlot a) v h = set_right a v h"

section \<open>The operations\<close>

definition heap_init :: "heap \<Rightarrow> heap" where
  "heap_init h = h\<lparr>hmin := None, nelts := 0\<rparr>"

definition heap_min :: "heap \<Rightarrow> ptr" where
  "heap_min h = hmin h"

definition heap_node_swap :: "addr \<Rightarrow> addr \<Rightarrow> heap \<Rightarrow> heap" where
  "heap_node_swap p c h0 =
     (let t = hmem h0 p;
          h1 = put_node p (hmem h0 c) h0;
          h2 = put_node c t h1;
          h3 = set_parent p (Some c) h2;
          (h4, sibling) =
            (if left (hmem h3 c) = Some c
             then (set_left c (Some p) h3, right (hmem h3 c))
             else (set_right c (Some p) h3, left (hmem h3 c)));
          h5 = set_parent_opt sibling (Some c) h4;
          h6 = set_parent_opt (left (hmem h5 p)) (Some p) h5;
          h7 = set_parent_opt (right (hmem h6 p)) (Some p) h6
      in case parent (hmem h7 c) of
           None \<Rightarrow> h7\<lparr>hmin := Some c\<rparr>
         | Some g \<Rightarrow> if left (hmem h7 g) = Some p then set_left g (Some c) h7
                     else set_right g (Some c) h7)"

text \<open>
  The path from the root to position \<open>n\<close>: the bits of \<open>n\<close> below the leading one, the
  first step in the lowest bit.  The loop \<open>for (k = 0; n >= 2; k += 1, n /= 2)\<close>.
\<close>

function heap_path :: "u32 \<Rightarrow> u32 \<Rightarrow> u32 \<Rightarrow> u32 \<times> u32" where
  "heap_path path k n =
     (if 2 \<le> n then heap_path (push_bit 1 path OR (n AND 1)) (k + 1) (n div 2)
      else (path, k))"
  by pat_completeness auto
termination
  by (relation "measure (\<lambda>(path, k, n). unat n)") (auto simp: word32_ge2)

declare heap_path.simps [simp del]

text \<open>
  Following a path.  Dereferencing a NULL child is a fault, the value \<open>None\<close>.
  \<open>par\<close> and \<open>ch\<close> are the variables \<open>parent\<close> and \<open>child\<close> (\<open>max\<close> in \<open>heap_remove\<close>).
\<close>

function heap_walk :: "heap \<Rightarrow> u32 \<Rightarrow> u32 \<Rightarrow> slot \<Rightarrow> slot \<Rightarrow> (slot \<times> slot) option" where
  "heap_walk h path k par ch =
     (if 0 < k then
        (case read_slot h ch of
           None \<Rightarrow> None
         | Some a \<Rightarrow> heap_walk h (drop_bit 1 path) (k - 1) ch
                      (if path AND 1 \<noteq> 0 then RightSlot a else LeftSlot a))
      else Some (par, ch))"
  by pat_completeness auto
termination
  by (relation "measure (\<lambda>(h, path, k, par, ch). unat k)") (auto simp: word32_gt0 unat_dec)

declare heap_walk.simps [simp del]

text \<open>
  The loops that restore the order.  On a corrupted tree they need not end, so they are
  partial: \<open>None\<close> is not returning.
\<close>

partial_function (option) heap_sift_up :: "compare_fn \<Rightarrow> addr \<Rightarrow> heap \<Rightarrow> heap option" where
  "heap_sift_up lt x h =
     (case parent (hmem h x) of
        None \<Rightarrow> Some h
      | Some p \<Rightarrow> if lt x p then heap_sift_up lt x (heap_node_swap p x h)
                  else Some h)"

definition smallest_child :: "compare_fn \<Rightarrow> addr \<Rightarrow> heap \<Rightarrow> addr" where
  "smallest_child lt c h =
     (let s1 = (case left (hmem h c) of
                  None \<Rightarrow> c | Some l \<Rightarrow> if lt l c then l else c)
      in case right (hmem h c) of
           None \<Rightarrow> s1 | Some r \<Rightarrow> if lt r s1 then r else s1)"

partial_function (option) heap_sift_down :: "compare_fn \<Rightarrow> addr \<Rightarrow> heap \<Rightarrow> heap option" where
  "heap_sift_down lt c h =
     (if smallest_child lt c h = c then Some h
      else heap_sift_down lt c (heap_node_swap c (smallest_child lt c h) h))"

definition heap_insert :: "compare_fn \<Rightarrow> addr \<Rightarrow> heap \<Rightarrow> heap option" where
  "heap_insert lt newnode h0 =
     (let h1 = put_node newnode \<lparr>left = None, right = None, parent = None\<rparr> h0;
          (path, k) = heap_path 0 0 (1 + nelts h1)
      in case heap_walk h1 path k RootSlot RootSlot of
           None \<Rightarrow> None
         | Some (par, ch) \<Rightarrow>
             let h2 = set_parent newnode (read_slot h1 par) h1;
                 h3 = write_slot ch (Some newnode) h2;
                 h4 = h3\<lparr>nelts := nelts h3 + 1\<rparr>
             in heap_sift_up lt newnode h4)"

definition heap_replace :: "addr \<Rightarrow> addr \<Rightarrow> heap \<Rightarrow> heap" where
  "heap_replace node child h0 =
     (let h1 = set_left child (left (hmem h0 node)) h0;
          h2 = set_right child (right (hmem h1 node)) h1;
          h3 = set_parent child (parent (hmem h2 node)) h2;
          h4 = set_parent_opt (left (hmem h3 child)) (Some child) h3;
          h5 = set_parent_opt (right (hmem h4 child)) (Some child) h4
      in case parent (hmem h5 node) of
           None \<Rightarrow> h5\<lparr>hmin := Some child\<rparr>
         | Some g \<Rightarrow> if left (hmem h5 g) = Some node then set_left g (Some child) h5
                     else set_right g (Some child) h5)"

definition heap_remove :: "compare_fn \<Rightarrow> addr \<Rightarrow> heap \<Rightarrow> heap option" where
  "heap_remove lt node h0 =
     (if nelts h0 = 0 then Some h0
      else let (path, k) = heap_path 0 0 (nelts h0)
           in case heap_walk h0 path k RootSlot RootSlot of
                None \<Rightarrow> None
              | Some (_, mx) \<Rightarrow>
                  let h1 = h0\<lparr>nelts := nelts h0 - 1\<rparr>
                  in case read_slot h1 mx of
                       None \<Rightarrow> None
                     | Some child \<Rightarrow>
                         let h2 = write_slot mx None h1
                         in if child = node then
                              Some (if hmin h2 = Some child then h2\<lparr>hmin := None\<rparr> else h2)
                            else case heap_sift_down lt child
                                        (heap_replace node child h2) of
                                   None \<Rightarrow> None
                                 | Some h3 \<Rightarrow> heap_sift_up lt child h3)"

text \<open>\<open>heap_remove\<close> tests \<open>nelts\<close> before it looks at its argument, so dequeueing an empty
  heap, whose \<open>min\<close> is NULL, does nothing.\<close>

definition heap_dequeue :: "compare_fn \<Rightarrow> heap \<Rightarrow> heap option" where
  "heap_dequeue lt h =
     (case hmin h of
        None \<Rightarrow> if nelts h = 0 then Some h else None
      | Some m \<Rightarrow> heap_remove lt m h)"

section \<open>Reading the memory back\<close>

abbreviation lf :: "heap \<Rightarrow> addr \<Rightarrow> ptr" where "lf h a \<equiv> left (hmem h a)"
abbreviation rt :: "heap \<Rightarrow> addr \<Rightarrow> ptr" where "rt h a \<equiv> right (hmem h a)"
abbreviation pr :: "heap \<Rightarrow> addr \<Rightarrow> ptr" where "pr h a \<equiv> parent (hmem h a)"

lemma put_node_sel [mem_simps]:
  "hmin (put_node a nd h) = hmin h" "nelts (put_node a nd h) = nelts h"
  "hmem (put_node a nd h) b = (if b = a then nd else hmem h b)"
  by (simp_all add: put_node_def)

lemma set_left_sel [mem_simps]:
  "hmin (set_left a v h) = hmin h" "nelts (set_left a v h) = nelts h"
  "lf (set_left a v h) b = (if b = a then v else lf h b)"
  "rt (set_left a v h) b = rt h b" "pr (set_left a v h) b = pr h b"
  by (simp_all add: set_left_def)

lemma set_right_sel [mem_simps]:
  "hmin (set_right a v h) = hmin h" "nelts (set_right a v h) = nelts h"
  "rt (set_right a v h) b = (if b = a then v else rt h b)"
  "lf (set_right a v h) b = lf h b" "pr (set_right a v h) b = pr h b"
  by (simp_all add: set_right_def)

lemma set_parent_sel [mem_simps]:
  "hmin (set_parent a v h) = hmin h" "nelts (set_parent a v h) = nelts h"
  "pr (set_parent a v h) b = (if b = a then v else pr h b)"
  "lf (set_parent a v h) b = lf h b" "rt (set_parent a v h) b = rt h b"
  by (simp_all add: set_parent_def)

lemma set_parent_opt_sel [mem_simps]:
  "hmin (set_parent_opt q v h) = hmin h" "nelts (set_parent_opt q v h) = nelts h"
  "pr (set_parent_opt q v h) b = (if q = Some b then v else pr h b)"
  "lf (set_parent_opt q v h) b = lf h b" "rt (set_parent_opt q v h) b = rt h b"
  by (auto simp: set_parent_opt_def set_parent_def split: option.splits)

definition heap_rep :: "heap \<Rightarrow> (nat \<Rightarrow> addr) \<Rightarrow> nat \<Rightarrow> bool" where
  "heap_rep h at n \<longleftrightarrow>
     inj_on at {1..n} \<and>
     hmin h = (if n = 0 then None else Some (at 1)) \<and>
     (\<forall>i \<in> {1..n}.
        lf h (at i) = (if 2 * i \<le> n then Some (at (2 * i)) else None) \<and>
        rt h (at i) = (if 2 * i + 1 \<le> n then Some (at (2 * i + 1)) else None) \<and>
        pr h (at i) = (if i = 1 then None else Some (at (i div 2))))"

lemma heap_rep_inj:
  "heap_rep h at n \<Longrightarrow> 1 \<le> i \<Longrightarrow> i \<le> n \<Longrightarrow> 1 \<le> j \<Longrightarrow> j \<le> n \<Longrightarrow> at i = at j \<longleftrightarrow> i = j"
  unfolding heap_rep_def by (metis atLeastAtMost_iff inj_on_eq_iff)

lemma heap_rep_min: "heap_rep h at n \<Longrightarrow> hmin h = (if n = 0 then None else Some (at 1))"
  by (simp add: heap_rep_def)

lemma heap_rep_node:
  assumes "heap_rep h at n" "1 \<le> i" "i \<le> n"
  shows "lf h (at i) = (if 2 * i \<le> n then Some (at (2 * i)) else None)"
    and "rt h (at i) = (if 2 * i + 1 \<le> n then Some (at (2 * i + 1)) else None)"
    and "pr h (at i) = (if i = 1 then None else Some (at (i div 2)))"
  using assms unfolding heap_rep_def by simp_all

definition swap_pos :: "(nat \<Rightarrow> addr) \<Rightarrow> nat \<Rightarrow> nat \<Rightarrow> (nat \<Rightarrow> addr)" where
  "swap_pos at i j = at(i := at j, j := at i)"

lemma nelts_swap [simp]: "nelts (heap_node_swap p c h) = nelts h"
  by (simp add: heap_node_swap_def mem_simps Let_def split: option.split prod.split)

text \<open>The fields after a swap, for a parent p and its child c in a consistent tree.\<close>

lemma heap_node_swap_fields:
  assumes pc: "p \<noteq> c" and child: "lf h p = Some c \<or> (rt h p = Some c \<and> lf h p \<noteq> Some c)"
    and cc: "lf h c \<noteq> Some c" "lf h c \<noteq> Some p" "rt h c \<noteq> Some p" "rt h c \<noteq> Some c"
    and pp: "pr h p \<noteq> Some p" "pr h p \<noteq> Some c" "lf h p \<noteq> Some p" "rt h p \<noteq> Some p"
    and cp: "pr h c = Some p"
    and lr: "lf h p = Some c \<longrightarrow> rt h p \<noteq> Some c"
  defines "sib \<equiv> (if lf h p = Some c then rt h p else lf h p)"
  assumes sc: "\<forall>s. sib = Some s \<longrightarrow> lf h c \<noteq> Some s \<and> rt h c \<noteq> Some s"
  shows "lf (heap_node_swap p c h) a =
           (if a = c then (if lf h p = Some c then Some p else lf h p)
            else if a = p then lf h c
            else if pr h p = Some a \<and> lf h a = Some p then Some c else lf h a)"
    and "rt (heap_node_swap p c h) a =
           (if a = c then (if lf h p = Some c then rt h p else Some p)
            else if a = p then rt h c
            else if pr h p = Some a \<and> lf h a \<noteq> Some p then Some c else rt h a)"
    and "pr (heap_node_swap p c h) a =
           (if a = c then pr h p
            else if a = p then Some c
            else if sib = Some a then Some c
            else if lf h c = Some a \<or> rt h c = Some a then Some p else pr h a)"
    and "hmin (heap_node_swap p c h) = (if pr h p = None then Some c else hmin h)"
proof -
  have "c \<noteq> p" using pc by simp
  note f = pc \<open>c \<noteq> p\<close> cc pp cp
  show "lf (heap_node_swap p c h) a =
           (if a = c then (if lf h p = Some c then Some p else lf h p)
            else if a = p then lf h c
            else if pr h p = Some a \<and> lf h a = Some p then Some c else lf h a)"
    using child f lr
    by (cases "lf h p = Some c"; cases "pr h p")
       (simp_all add: heap_node_swap_def mem_simps Let_def sib_def)
  show "rt (heap_node_swap p c h) a =
           (if a = c then (if lf h p = Some c then rt h p else Some p)
            else if a = p then rt h c
            else if pr h p = Some a \<and> lf h a \<noteq> Some p then Some c else rt h a)"
    using child f lr
    by (cases "lf h p = Some c"; cases "pr h p")
       (simp_all add: heap_node_swap_def mem_simps Let_def sib_def)
  show "pr (heap_node_swap p c h) a =
           (if a = c then pr h p
            else if a = p then Some c
            else if sib = Some a then Some c
            else if lf h c = Some a \<or> rt h c = Some a then Some p else pr h a)"
    using child f sc [rule_format, of a] lr
    by (cases "lf h p = Some c"; cases "pr h p"; cases "sib = Some a")
       (auto simp: heap_node_swap_def mem_simps Let_def sib_def)
  show "hmin (heap_node_swap p c h) = (if pr h p = None then Some c else hmin h)"
    using child f lr
    by (cases "lf h p = Some c"; cases "pr h p")
       (simp_all add: heap_node_swap_def mem_simps Let_def sib_def)
qed

text \<open>The premises of the field equations hold for a position and its parent.\<close>

lemma heap_rep_swap_pre:
  assumes rep: "heap_rep h at n" and j: "2 \<le> j" "j \<le> n" and i: "i = j div 2"
  shows "at i \<noteq> at j"
    and "lf h (at i) = Some (at j) \<or> (rt h (at i) = Some (at j) \<and> lf h (at i) \<noteq> Some (at j))"
    and "lf h (at j) \<noteq> Some (at j)" "lf h (at j) \<noteq> Some (at i)"
    and "rt h (at j) \<noteq> Some (at i)" "rt h (at j) \<noteq> Some (at j)"
    and "pr h (at i) \<noteq> Some (at i)" "pr h (at i) \<noteq> Some (at j)"
    and "lf h (at i) \<noteq> Some (at i)" "rt h (at i) \<noteq> Some (at i)"
    and "pr h (at j) = Some (at i)"
    and "lf h (at i) = Some (at j) \<longleftrightarrow> j = 2 * i"
    and "lf h (at i) = Some (at j) \<longrightarrow> rt h (at i) \<noteq> Some (at j)"
proof -
  have b: "1 \<le> i" "i \<le> n" "i < j" using j i by auto
  have inj: "\<And>k l. 1 \<le> k \<Longrightarrow> k \<le> n \<Longrightarrow> 1 \<le> l \<Longrightarrow> l \<le> n \<Longrightarrow> at k = at l \<longleftrightarrow> k = l"
    using heap_rep_inj [OF rep] by blast
  note nd = heap_rep_node [OF rep]
  have ji: "j = 2 * i \<or> j = 2 * i + 1" unfolding i by linarith
  show "at i \<noteq> at j" using inj [of i j] b j by simp
  show "lf h (at i) = Some (at j) \<or> (rt h (at i) = Some (at j) \<and> lf h (at i) \<noteq> Some (at j))"
    using nd [of i] b j ji inj [of "2 * i" j] by auto
  show "lf h (at j) \<noteq> Some (at j)" "lf h (at j) \<noteq> Some (at i)"
    using nd(1) [of j] b j inj [of "2 * j" j] inj [of "2 * j" i] by auto
  show "rt h (at j) \<noteq> Some (at i)" "rt h (at j) \<noteq> Some (at j)"
    using nd(2) [of j] b j inj [of "2 * j + 1" j] inj [of "2 * j + 1" i] by auto
  show "pr h (at i) \<noteq> Some (at i)" "pr h (at i) \<noteq> Some (at j)"
    using nd(3) [of i] b j inj [of "i div 2" j] inj [of "i div 2" i] by auto
  show "lf h (at i) \<noteq> Some (at i)" "rt h (at i) \<noteq> Some (at i)"
    using nd [of i] b j inj [of "2 * i + 1" i] inj [of "2 * i" i] by auto
  show "pr h (at j) = Some (at i)" using nd(3) [of j] j by (simp add: i)
  show "lf h (at i) = Some (at j) \<longleftrightarrow> j = 2 * i"
    using nd(1) [of i] b j ji inj [of "2 * i" j] by auto
  show "lf h (at i) = Some (at j) \<longrightarrow> rt h (at i) \<noteq> Some (at j)"
    using nd(2) [of i] b j inj [of "2 * i" j] inj [of "2 * i + 1" j]
      \<open>lf h (at i) = Some (at j) \<longleftrightarrow> j = 2 * i\<close> by auto
qed

text \<open>The fields of every node after a swap, by position.\<close>

lemma heap_swap_at:
  assumes rep: "heap_rep h at n" and j: "2 \<le> j" "j \<le> n" and i: "i = j div 2"
    and k: "1 \<le> k" "k \<le> n"
  shows "lf (heap_node_swap (at i) (at j) h) (at k) =
           (if k = j then (if j = 2 * i then Some (at i) else lf h (at i))
            else if k = i then lf h (at j) else if 2 * k = i then Some (at j) else lf h (at k))"
    and "rt (heap_node_swap (at i) (at j) h) (at k) =
           (if k = j then (if j = 2 * i then rt h (at i) else Some (at i))
            else if k = i then rt h (at j)
            else if 2 * k + 1 = i then Some (at j) else rt h (at k))"
    and "pr (heap_node_swap (at i) (at j) h) (at k) =
           (if k = j then pr h (at i) else if k = i \<or> (k \<noteq> 1 \<and> k div 2 = i) then Some (at j)
            else if k div 2 = j then Some (at i) else pr h (at k))"
    and "hmin (heap_node_swap (at i) (at j) h) = (if i = 1 then Some (at j) else hmin h)"
proof -
  have b: "1 \<le> i" "i \<le> n" "i < j" using j i by auto
  have inj: "\<And>k l. 1 \<le> k \<Longrightarrow> k \<le> n \<Longrightarrow> 1 \<le> l \<Longrightarrow> l \<le> n \<Longrightarrow> at k = at l \<longleftrightarrow> k = l"
    using heap_rep_inj [OF rep] by blast
  note nd = heap_rep_node [OF rep] and pre = heap_rep_swap_pre [OF rep j i]
  have ji: "j = 2 * i \<or> j = 2 * i + 1" unfolding i by linarith
  define sib where "sib = (if lf h (at i) = Some (at j) then rt h (at i) else lf h (at i))"
  have sib: "sib = (if j = 2 * i then (if j + 1 \<le> n then Some (at (j + 1)) else None)
                    else Some (at (j - 1)))"
    unfolding sib_def pre(12) using nd [of i] b j ji by auto
  have sc: "\<forall>s. sib = Some s \<longrightarrow> lf h (at j) \<noteq> Some s \<and> rt h (at j) \<noteq> Some s"
    unfolding sib using nd(1,2) [of j] b j ji inj [of "2 * j" "j + 1"] inj [of "2 * j" "j - 1"]
       inj [of "2 * j + 1" "j + 1"] inj [of "2 * j + 1" "j - 1"]
    by (cases "j = 2 * i") auto
  note F = heap_node_swap_fields [OF pre(1-11) pre(13) sc [unfolded sib_def], folded sib_def,
      unfolded pre(12)]
  have eqs: "at k = at i \<longleftrightarrow> k = i" "at k = at j \<longleftrightarrow> k = j" using inj b j k by auto
  have pri: "pr h (at i) = Some (at k) \<longleftrightarrow> i \<noteq> 1 \<and> k = i div 2"
    using k nd(3) [of i] b inj [of "i div 2" k] by auto
  have lfk: "lf h (at k) = Some (at i) \<longleftrightarrow> 2 * k = i"
    using nd(1) [of k] k b inj [of "2 * k" i] by auto
  have div: "2 * k = i \<longleftrightarrow> i \<noteq> 1 \<and> k = i div 2 \<and> 2 * k = i"
    "2 * k + 1 = i \<longleftrightarrow> i \<noteq> 1 \<and> k = i div 2 \<and> 2 * k \<noteq> i"
    using k b by presburger+
  show "lf (heap_node_swap (at i) (at j) h) (at k) =
           (if k = j then (if j = 2 * i then Some (at i) else lf h (at i))
            else if k = i then lf h (at j) else if 2 * k = i then Some (at j) else lf h (at k))"
    unfolding F(1) eqs pri lfk using div(1) by auto
  show "rt (heap_node_swap (at i) (at j) h) (at k) =
           (if k = j then (if j = 2 * i then rt h (at i) else Some (at i))
            else if k = i then rt h (at j)
            else if 2 * k + 1 = i then Some (at j) else rt h (at k))"
    unfolding F(2) eqs pri lfk using div(2) by auto
  have s: "sib = Some (at k) \<longleftrightarrow> k \<noteq> 1 \<and> k \<noteq> j \<and> k div 2 = i"
    unfolding sib using b j k ji inj [of "j + 1" k] inj [of "j - 1" k] by auto
  have c: "lf h (at j) = Some (at k) \<or> rt h (at j) = Some (at k) \<longleftrightarrow> k div 2 = j"
    using nd(1,2) [of j] j k inj [of "2 * j" k] inj [of "2 * j + 1" k] by auto
  show "pr (heap_node_swap (at i) (at j) h) (at k) =
           (if k = j then pr h (at i) else if k = i \<or> (k \<noteq> 1 \<and> k div 2 = i) then Some (at j)
            else if k div 2 = j then Some (at i) else pr h (at k))"
    unfolding F(3) eqs s c by auto
  show "hmin (heap_node_swap (at i) (at j) h) = (if i = 1 then Some (at j) else hmin h)"
    using nd(3) [of i] b by (simp add: F(4))
qed

lemma heap_swap_rep:
  assumes rep: "heap_rep h at n" and j: "2 \<le> j" "j \<le> n" and i: "i = j div 2"
  shows "heap_rep (heap_node_swap (at i) (at j) h) (swap_pos at i j) n"
proof -
  let ?h = "heap_node_swap (at i) (at j) h" and ?at = "swap_pos at i j"
  have b: "1 \<le> i" "i \<le> n" "i < j" using j i by auto
  have ji: "j = 2 * i \<or> j = 2 * i + 1" unfolding i by linarith
  note nd = heap_rep_node [OF rep] and F = heap_swap_at [OF rep j i]
  have at: "?at k = (if k = i then at j else if k = j then at i else at k)" for k
    using b by (simp add: swap_pos_def)
  have nj: "k \<noteq> i \<Longrightarrow> 2 * k \<noteq> j" "k \<noteq> i \<Longrightarrow> 2 * k + 1 \<noteq> j" for k
    using ji by presburger+
  have L: "lf ?h (?at k) = (if 2 * k \<le> n then Some (?at (2 * k)) else None)"
    if k: "1 \<le> k" "k \<le> n" for k
    using k b j ji nd(1) [of i] nd(1) [of j] nd(1) [of k] F(1) [of i] F(1) [of j] F(1) [of k] nj [of k]
    by (auto simp: at)
  have R: "rt ?h (?at k) = (if 2 * k + 1 \<le> n then Some (?at (2 * k + 1)) else None)"
    if k: "1 \<le> k" "k \<le> n" for k
    using k b j ji nd(2) [of i] nd(2) [of j] nd(2) [of k] F(2) [of i] F(2) [of j] F(2) [of k] nj [of k]
    by (auto simp: at)
  have P: "pr ?h (?at k) = (if k = 1 then None else Some (?at (k div 2)))"
    if k: "1 \<le> k" "k \<le> n" for k
  proof -
    have d: "i div 2 \<noteq> i" "i div 2 \<noteq> j" "j div 2 = i" using b i by auto
    consider "k = i" | "k = j" | "k \<noteq> i" "k \<noteq> j" by blast
    then show ?thesis
      by cases (use k b j d nd(3) [of i] nd(3) [of k] F(3) [of i] F(3) [of j] F(3) [of k] in \<open>auto simp: at\<close>)
  qed
  have M: "hmin ?h = (if n = 0 then None else Some (?at 1))"
    using heap_rep_min [OF rep] b j F(4) [of i] by (auto simp: at)
  have I: "inj_on ?at {1..n}"
    using heap_rep_inj [OF rep] b j by (auto simp: at inj_on_def split: if_splits)
  show ?thesis unfolding heap_rep_def using L R P M I by simp
qed

end
