(* ===== verification/HeapOrder.thy ===== *)
theory HeapOrder
  imports HeapInl
begin

text \<open>
  Correctness of the binary heap of \<open>src/src/libuv/src/heap-inl.h\<close>.  The pointer structure
  represents an array \<open>at\<close> of nodes at positions \<open>1..n\<close> (\<open>heap_rep\<close>): the children of
  position \<open>i\<close> are \<open>2i\<close> and \<open>2i+1\<close>.  The loops of the code are shown to end, to keep that
  shape, and to restore the order; \<open>heap_inv lt h S\<close> is what a client sees: a heap with the
  set \<open>S\<close> of nodes, ordered by \<open>lt\<close>.
\<close>

section \<open>Rearranging the nodes\<close>

lemma hnode_eqI: "left x = left y \<Longrightarrow> right x = right y \<Longrightarrow> parent x = parent y \<Longrightarrow> x = (y :: hnode)"
  by simp

text \<open>The same nodes, in another arrangement, and no other memory touched.\<close>

definition heap_perm :: "heap \<Rightarrow> (nat \<Rightarrow> addr) \<Rightarrow> heap \<Rightarrow> (nat \<Rightarrow> addr) \<Rightarrow> nat \<Rightarrow> bool" where
  "heap_perm h at h' at' n \<longleftrightarrow>
     heap_rep h' at' n \<and> at' ` {1..n} = at ` {1..n} \<and> nelts h' = nelts h \<and>
     (\<forall>a. a \<notin> at ` {1..n} \<longrightarrow> hmem h' a = hmem h a)"

lemma heap_perm_refl: "heap_rep h at n \<Longrightarrow> heap_perm h at h at n"
  by (simp add: heap_perm_def)

lemma heap_perm_trans:
  "heap_perm h at h' at' n \<Longrightarrow> heap_perm h' at' h'' at'' n \<Longrightarrow> heap_perm h at h'' at'' n"
  by (simp add: heap_perm_def)

lemma swap_pos_image:
  assumes "i \<in> A" "j \<in> A"
  shows "swap_pos at i j ` A = at ` A"
  using assms by (auto simp: swap_pos_def image_iff fun_upd_def) 

lemma heap_swap_perm:
  assumes rep: "heap_rep h at n" and j: "2 \<le> j" "j \<le> n" and i: "i = j div 2"
  shows "heap_perm h at (heap_node_swap (at i) (at j) h) (swap_pos at i j) n"
  unfolding heap_perm_def
proof (intro conjI allI impI)
  note pre = heap_rep_swap_pre [OF rep j i]
  have b: "1 \<le> i" "i \<le> n" "i < j" using j i by auto
  show "heap_rep (heap_node_swap (at i) (at j) h) (swap_pos at i j) n"
    by (rule heap_swap_rep [OF rep j i])
  show "swap_pos at i j ` {1..n} = at ` {1..n}"
    using b j by (intro swap_pos_image) auto
  show "nelts (heap_node_swap (at i) (at j) h) = nelts h" by simp
  fix a assume a: "a \<notin> at ` {1..n}"
  have m: "at k \<noteq> a" if "1 \<le> k" "k \<le> n" for k
    using a that by auto
  have "a \<noteq> at i" "a \<noteq> at j" using a b j by auto
  moreover have "pr h (at k) \<noteq> Some a" "lf h (at k) \<noteq> Some a" "rt h (at k) \<noteq> Some a"
    if "1 \<le> k" "k \<le> n" for k
    using heap_rep_node [OF rep that] that m [of "k div 2"] m [of "2 * k"] m [of "2 * k + 1"] by auto
  ultimately show "hmem (heap_node_swap (at i) (at j) h) a = hmem h a"
    using b j pre(1)
    by (intro hnode_eqI)
       (simp_all add: heap_node_swap_def mem_simps Let_def split: option.split prod.split)
qed

definition heap_ordered :: "compare_fn \<Rightarrow> (nat \<Rightarrow> addr) \<Rightarrow> nat \<Rightarrow> bool" where
  "heap_ordered lt at n \<longleftrightarrow> (\<forall>j \<in> {2..n}. \<not> lt (at j) (at (j div 2)))"

text \<open>Ordered but for position \<open>i\<close> against its parent; and but for \<open>i\<close> against its neighbours.\<close>

definition up_inv :: "compare_fn \<Rightarrow> (nat \<Rightarrow> addr) \<Rightarrow> nat \<Rightarrow> nat \<Rightarrow> bool" where
  "up_inv lt at n i \<longleftrightarrow>
     (\<forall>j \<in> {2..n}. j \<noteq> i \<longrightarrow> \<not> lt (at j) (at (j div 2))) \<and>
     (2 \<le> i \<longrightarrow> (\<forall>j \<in> {2..n}. j div 2 = i \<longrightarrow> \<not> lt (at j) (at (i div 2))))"

definition hole_inv :: "compare_fn \<Rightarrow> (nat \<Rightarrow> addr) \<Rightarrow> nat \<Rightarrow> nat \<Rightarrow> bool" where
  "hole_inv lt at n i \<longleftrightarrow>
     (\<forall>j \<in> {2..n}. j \<noteq> i \<longrightarrow> j div 2 \<noteq> i \<longrightarrow> \<not> lt (at j) (at (j div 2))) \<and>
     (2 \<le> i \<longrightarrow> (\<forall>j \<in> {2..n}. j div 2 = i \<longrightarrow> \<not> lt (at j) (at (i div 2))))"

locale heap_order =
  fixes lt :: "addr \<Rightarrow> addr \<Rightarrow> bool"
  assumes lt_asym: "lt a b \<Longrightarrow> \<not> lt b a"
    and le_trans: "\<not> lt b a \<Longrightarrow> \<not> lt c b \<Longrightarrow> \<not> lt c a"
begin

lemma lt_irrefl [simp]: "\<not> lt a a"
  using lt_asym by blast

lemma lt_le_trans: "lt a b \<Longrightarrow> \<not> lt c b \<Longrightarrow> \<not> lt c a"
  using lt_asym le_trans by blast

lemma up_inv_step:
  assumes inv: "up_inv lt at n i" and i: "2 \<le> i" "i \<le> n" and less: "lt (at i) (at (i div 2))"
  shows "up_inv lt (swap_pos at (i div 2) i) n (i div 2)"
proof -
  define p where "p = i div 2"
  have p: "1 \<le> p" "p < i" using i by (auto simp: p_def)
  have at: "swap_pos at p i k = (if k = p then at i else if k = i then at p else at k)" for k
    using p by (simp add: swap_pos_def)
  have o: "\<not> lt (at j) (at (j div 2))" if "2 \<le> j" "j \<le> n" "j \<noteq> i" for j
    using inv that by (auto simp: up_inv_def)
  have g: "\<not> lt (at j) (at p)" if "2 \<le> j" "j \<le> n" "j div 2 = i" for j
    using inv that i by (auto simp: up_inv_def p_def)
  have "\<not> lt (swap_pos at p i j) (swap_pos at p i (j div 2))"
    if j: "2 \<le> j" "j \<le> n" "j \<noteq> p" for j
  proof -
    consider "j = i" | "j \<noteq> i" "j div 2 = i" | "j \<noteq> i" "j div 2 = p" | "j \<noteq> i" "j div 2 \<noteq> i" "j div 2 \<noteq> p"
      by blast
    then show ?thesis
    proof cases
      case 1 then show ?thesis using p less lt_asym by (simp add: at p_def [symmetric])
    next
      case 2 then show ?thesis using j p g [of j] by (simp add: at)
    next
      case 3
      then have "\<not> lt (at j) (at p)" using o [of j] j by simp
      then have "\<not> lt (at j) (at i)" using less lt_le_trans p_def by blast
      then show ?thesis using 3 j by (simp add: at)
    next
      case 4 then show ?thesis using j o [of j] by (simp add: at)
    qed
  qed
  moreover have "\<not> lt (swap_pos at p i j) (swap_pos at p i (p div 2))"
    if j: "2 \<le> j" "j \<le> n" "j div 2 = p" "2 \<le> p" for j
  proof -
    have pp: "\<not> lt (at p) (at (p div 2))" using o [of p] p i j by simp
    have ne: "j \<noteq> p" "p div 2 \<noteq> p" "p div 2 \<noteq> i" using j p by auto
    have "\<not> lt (at j) (at (p div 2))" if "j \<noteq> i"
      using o [of j] j that pp le_trans by blast
    then show ?thesis using ne pp by (simp add: at)
  qed
  ultimately show ?thesis by (auto simp: up_inv_def p_def)
qed

lemma sift_up_ok:
  assumes "heap_rep h at n" "1 \<le> i" "i \<le> n" "up_inv lt at n i"
  shows "\<exists>h' at'. heap_sift_up lt (at i) h = Some h' \<and> heap_perm h at h' at' n \<and> heap_ordered lt at' n"
  using assms
proof (induction i arbitrary: h at rule: less_induct)
  case (less i)
  note nd = heap_rep_node(3) [OF less.prems(1-3)]
  show ?case
  proof (cases "2 \<le> i \<and> lt (at i) (at (i div 2))")
    case True
    let ?h = "heap_node_swap (at (i div 2)) (at i) h" and ?at = "swap_pos at (i div 2) i"
    have i: "2 \<le> i" "i \<le> n" "i \<noteq> 1" "i div 2 \<noteq> i" using True less.prems by auto
    note perm = heap_swap_perm [OF less.prems(1) i(1,2) refl]
    have "heap_rep ?h ?at n" using perm by (simp add: heap_perm_def)
    moreover have "up_inv lt ?at n (i div 2)" using up_inv_step less.prems(4) i True by blast
    moreover have "i div 2 < i" "1 \<le> i div 2" "i div 2 \<le> n" using i by auto
    ultimately obtain h' at' where "heap_sift_up lt (?at (i div 2)) ?h = Some h'"
      "heap_perm ?h ?at h' at' n" "heap_ordered lt at' n"
      using less.IH by blast
    moreover have "?at (i div 2) = at i" using i by (simp add: swap_pos_def)
    moreover have "heap_sift_up lt (at i) h = heap_sift_up lt (at i) ?h"
      using nd i True by (simp add: heap_sift_up.simps [of lt "at i" h])
    ultimately show ?thesis using heap_perm_trans [OF perm] by metis
  next
    case False
    then have "heap_sift_up lt (at i) h = Some h"
      using nd less.prems by (auto simp: heap_sift_up.simps [of lt "at i" h])
    moreover have "heap_ordered lt at n"
      using False less.prems(4) by (auto simp: heap_ordered_def up_inv_def)
    ultimately show ?thesis using heap_perm_refl [OF less.prems(1)] by blast
  qed
qed

end

context heap_order
begin

lemma lt_trans: "lt a b \<Longrightarrow> lt b c \<Longrightarrow> lt a c"
  using lt_asym le_trans by blast

lemma smallest_child_cases:
  assumes rep: "heap_rep h at n" and i: "1 \<le> i" "i \<le> n"
  obtains "smallest_child lt (at i) h = at i" "\<forall>j \<in> {2..n}. j div 2 = i \<longrightarrow> \<not> lt (at j) (at i)"
  | c where "smallest_child lt (at i) h = at c" "2 \<le> c" "c \<le> n" "c div 2 = i" "lt (at c) (at i)"
      "\<forall>j \<in> {2..n}. j div 2 = i \<longrightarrow> \<not> lt (at j) (at c)"
proof -
  note nd = heap_rep_node [OF rep i]
  have ch: "j = 2 * i \<or> j = 2 * i + 1" if "j div 2 = i" for j using that by linarith
  let ?l = "2 * i" and ?r = "2 * i + 1"
  have ball: "\<forall>j \<in> {2..n}. j div 2 = i \<longrightarrow> P j" if "?l \<le> n \<Longrightarrow> P ?l" "?r \<le> n \<Longrightarrow> P ?r" for P
    using that ch by (metis atLeastAtMost_iff)
  consider (none) "\<not> (?l \<le> n \<and> lt (at ?l) (at i))" "\<not> (?r \<le> n \<and> lt (at ?r) (at i))"
    | (l) "?l \<le> n" "lt (at ?l) (at i)" "\<not> (?r \<le> n \<and> lt (at ?r) (at ?l))"
    | (r) "?r \<le> n" "lt (at ?r) (at i)" "lt (at ?l) (at i) \<longrightarrow> lt (at ?r) (at ?l)"
    using lt_trans [of "at ?r" "at ?l" "at i"] by (cases "?r \<le> n") (force, blast)
  then show ?thesis
  proof cases
    case none
    then have "smallest_child lt (at i) h = at i"
      using nd(1,2) by (auto simp: smallest_child_def Let_def)
    moreover have "\<forall>j \<in> {2..n}. j div 2 = i \<longrightarrow> \<not> lt (at j) (at i)" using none by (intro ball) auto
    ultimately show ?thesis by (rule that(1))
  next
    case l
    then have "smallest_child lt (at i) h = at ?l"
      using nd(1,2) by (auto simp: smallest_child_def Let_def)
    moreover have "\<forall>j \<in> {2..n}. j div 2 = i \<longrightarrow> \<not> lt (at j) (at ?l)" using l by (intro ball) auto
    ultimately show ?thesis using that(2) [of ?l] l i by auto
  next
    case r
    then have "smallest_child lt (at i) h = at ?r"
      using nd(1,2) by (auto simp: smallest_child_def Let_def)
    moreover have "\<not> lt (at ?l) (at ?r)" using r lt_asym lt_le_trans by blast
    ultimately show ?thesis using that(2) [of ?r] r i ball [of "\<lambda>j. \<not> lt (at j) (at ?r)"] by auto
  qed
qed

lemma hole_inv_step:
  assumes inv: "hole_inv lt at n i" and i: "1 \<le> i" and c: "2 \<le> c" "c \<le> n" "c div 2 = i"
    and less: "lt (at c) (at i)"
    and small: "\<forall>j \<in> {2..n}. j div 2 = i \<longrightarrow> \<not> lt (at j) (at c)"
  shows "hole_inv lt (swap_pos at i c) n c"
proof -
  have ic: "i < c" using c i by auto
  have at: "swap_pos at i c k = (if k = i then at c else if k = c then at i else at k)" for k
    using ic by (simp add: swap_pos_def)
  have o: "\<not> lt (at j) (at (j div 2))" if "2 \<le> j" "j \<le> n" "j \<noteq> i" "j div 2 \<noteq> i" for j
    using inv that by (auto simp: hole_inv_def)
  have "\<not> lt (swap_pos at i c j) (swap_pos at i c (j div 2))"
    if j: "2 \<le> j" "j \<le> n" "j \<noteq> c" "j div 2 \<noteq> c" for j
  proof -
    consider "j = i" | "j \<noteq> i" "j div 2 = i" | "j \<noteq> i" "j div 2 \<noteq> i" by blast
    then show ?thesis
    proof cases
      case 1
      then have "\<not> lt (at c) (at (i div 2))" using inv j c by (auto simp: hole_inv_def)
      then show ?thesis using 1 j ic by (simp add: at)
    next
      case 2 then show ?thesis using small j by (simp add: at)
    next
      case 3 then show ?thesis using j o [of j] by (simp add: at)
    qed
  qed
  moreover have "\<not> lt (swap_pos at i c j) (swap_pos at i c (c div 2))"
    if j: "2 \<le> j" "j \<le> n" "j div 2 = c" for j
  proof -
    have ne: "j \<noteq> i" "j \<noteq> c" "j div 2 \<noteq> i" using j ic by auto
    then show ?thesis using o [of j] j c by (simp add: at)
  qed
  ultimately show ?thesis by (auto simp: hole_inv_def)
qed

text \<open>The position where the loop stops satisfies \<open>up_inv\<close>, whatever the position it
  started from did to its own parent.\<close>

lemma sift_down_ok:
  assumes "heap_rep h at n" "1 \<le> i" "i \<le> n" "hole_inv lt at n i"
  shows "\<exists>h' at' m. heap_sift_down lt (at i) h = Some h' \<and> heap_perm h at h' at' n \<and>
           1 \<le> m \<and> m \<le> n \<and> at' m = at i \<and> up_inv lt at' n m"
  using assms
proof (induction "n - i" arbitrary: i h at rule: less_induct)
  case less
  show ?case
  proof (rule smallest_child_cases [OF less.prems(1-3)])
    assume s: "smallest_child lt (at i) h = at i"
      and le: "\<forall>j \<in> {2..n}. j div 2 = i \<longrightarrow> \<not> lt (at j) (at i)"
    have "up_inv lt at n i" using less.prems(4) le by (auto simp: hole_inv_def up_inv_def)
    moreover have "heap_sift_down lt (at i) h = Some h"
      by (simp add: heap_sift_down.simps [of lt "at i" h] s)
    ultimately show ?thesis using heap_perm_refl [OF less.prems(1)] less.prems(2,3) by blast
  next
    fix c
    assume s: "smallest_child lt (at i) h = at c" and c: "2 \<le> c" "c \<le> n" "c div 2 = i"
      and ls: "lt (at c) (at i)" and small: "\<forall>j \<in> {2..n}. j div 2 = i \<longrightarrow> \<not> lt (at j) (at c)"
    let ?h = "heap_node_swap (at i) (at c) h" and ?at = "swap_pos at i c"
    have "i \<noteq> c" using c by auto
    then have atc: "?at c = at i" and ne: "at c \<noteq> at i"
      using ls by (auto simp: swap_pos_def)
    note perm = heap_swap_perm [OF less.prems(1) c(1,2) c(3) [symmetric]]
    have "heap_rep ?h ?at n" using perm by (simp add: heap_perm_def)
    moreover have "hole_inv lt ?at n c"
      by (rule hole_inv_step [OF less.prems(4,2) c ls small])
    moreover have "n - c < n - i" "1 \<le> c" "c \<le> n" using c by auto
    ultimately obtain h' at' m where "heap_sift_down lt (?at c) ?h = Some h'"
      "heap_perm ?h ?at h' at' n" "1 \<le> m" "m \<le> n" "at' m = ?at c" "up_inv lt at' n m"
      using less.hyps by blast
    moreover have "heap_sift_down lt (at i) h = heap_sift_down lt (at i) ?h"
      using s ne by (simp add: heap_sift_down.simps [of lt "at i" h])
    ultimately show ?thesis using heap_perm_trans [OF perm] atc by metis
  qed
qed

lemma heap_min_least:
  assumes "heap_ordered lt at n" "1 \<le> i" "i \<le> n"
  shows "\<not> lt (at i) (at 1)"
  using assms(2,3)
proof (induction i rule: less_induct)
  case (less i)
  show ?case
  proof (cases "i = 1")
    case False
    then have "\<not> lt (at (i div 2)) (at 1)" using less by simp
    moreover have "\<not> lt (at i) (at (i div 2))"
      using assms(1) less.prems False by (auto simp: heap_ordered_def)
    ultimately show ?thesis using le_trans by blast
  qed simp
qed

end

text \<open>Walking the path of a position.\<close>

fun follow :: "nat \<Rightarrow> nat \<Rightarrow> nat \<Rightarrow> nat" where
  "follow 0 path p = p"
| "follow (Suc k) path p = follow k (path div 2) (2 * p + path mod 2)"

lemma follow_snoc:
  "follow (Suc k) (2 * path + b) p = follow k path (2 * p + b)" if "b < 2"
  using that by simp

lemma heap_path_follow:
  assumes "heap_path path k n = (path', k')" "1 \<le> unat n" "unat path < 2 ^ unat k"
    "unat n * 2 ^ unat k < 2 ^ 32"
  shows "follow (unat k') (unat path') 1 = follow (unat k) (unat path) (unat n) \<and>
    unat path' < 2 ^ unat k' \<and> unat k' \<le> 31"
  using assms
proof (induction path k n rule: heap_path.induct)
  case (1 path k n)
  show ?case
  proof (cases "2 \<le> n")
    case True
    let ?p = "push_bit 1 path OR (n AND 1)"
    have n2: "2 \<le> unat n" using True by (simp add: word32_ge2)
    have kl: "unat k < 31"
    proof (rule ccontr)
      assume "\<not> unat k < 31"
      then have "(2::nat) ^ 31 \<le> 2 ^ unat k" by (intro power_increasing) auto
      then have "2 * 2 ^ 31 \<le> unat n * 2 ^ unat k" using n2 by (intro mult_le_mono) auto
      then show False using 1(5) by simp
    qed
    then have "(2::nat) ^ unat k \<le> 2 ^ 30" by (intro power_increasing) auto
    then have "unat path < 2 ^ 31" using 1(4) by simp
    then have p: "unat ?p = 2 * unat path + unat n mod 2" by (rule unat_shiftl1_or_bit)
    have k: "unat (k + 1) = unat k + 1" using kl by (intro unat_inc) simp
    have "unat (n div 2) * 2 ^ unat (k + 1) = unat n div 2 * 2 * 2 ^ unat k" by (simp add: k)
    also have "\<dots> \<le> unat n * 2 ^ unat k" by (intro mult_le_mono1) simp
    finally have b: "unat (n div 2) * 2 ^ unat (k + 1) < 2 ^ 32" using 1(5) by linarith
    have "heap_path ?p (k + 1) (n div 2) = (path', k')"
      using 1(2) True by (simp add: heap_path.simps [of path k n])
    moreover have "1 \<le> unat (n div 2)" using n2 by simp
    moreover have "unat ?p < 2 ^ unat (k + 1)" using 1(4) unfolding p k by simp
    ultimately have "follow (unat k') (unat path') 1 = follow (unat (k + 1)) (unat ?p) (unat (n div 2)) \<and>
        unat path' < 2 ^ unat k' \<and> unat k' \<le> 31"
      using 1(1) True b by blast
    moreover have "follow (unat (k + 1)) (unat ?p) (unat (n div 2)) = follow (unat k) (unat path) (unat n)"
      unfolding p k by (simp del: unat_and1 add: mult.commute [of 2])
    ultimately show ?thesis by simp
  next
    case False
    have "unat k \<le> 31"
    proof (rule ccontr)
      assume "\<not> unat k \<le> 31"
      then have "(2::nat) ^ 32 \<le> 2 ^ unat k" by (intro power_increasing) auto
      also have "\<dots> \<le> unat n * 2 ^ unat k" using 1(3) by simp
      finally show False using 1(5) by simp
    qed
    moreover have "unat n = 1" using 1(3) False by (simp add: word32_ge2)
    ultimately show ?thesis
      using 1(2,4) False by (auto simp: heap_path.simps [of path k n])
  qed
qed

definition slot_of :: "(nat \<Rightarrow> addr) \<Rightarrow> nat \<Rightarrow> slot" where
  "slot_of at p = (if p = 1 then RootSlot
     else if even p then LeftSlot (at (p div 2)) else RightSlot (at (p div 2)))"

lemma read_slot_of:
  assumes "heap_rep h at n" "1 \<le> p" "p \<le> n + 1"
  shows "read_slot h (slot_of at p) = (if p \<le> n then Some (at p) else None)"
proof (cases "p = 1")
  case True
  then show ?thesis using heap_rep_min [OF assms(1)] by (simp add: slot_of_def)
next
  case False
  then have "1 \<le> p div 2" "p div 2 \<le> n" using assms by auto
  note nd = heap_rep_node [OF assms(1) this]
  show ?thesis
  proof (cases "even p")
    case True
    then have "2 * (p div 2) = p" by simp
    then show ?thesis using nd(1) False True by (simp add: slot_of_def)
  next
    case odd: False
    then have "2 * (p div 2) + 1 = p" by presburger
    then show ?thesis using nd(2) False odd by (simp add: slot_of_def)
  qed
qed

lemma follow_ge: "p \<le> follow k path p"
proof (induction k arbitrary: path p)
  case (Suc k)
  have "p \<le> 2 * p + path mod 2" by simp
  also have "\<dots> \<le> follow k (path div 2) (2 * p + path mod 2)" by (rule Suc)
  finally show ?case by simp
qed simp

lemma heap_walk_follow:
  assumes "heap_rep h at n" "1 \<le> p" "follow (unat k) (unat path) p = q" "k = 0 \<or> q div 2 \<le> n"
  shows "heap_walk h path k par (slot_of at p) =
           Some (if k = 0 then par else slot_of at (q div 2), slot_of at q)"
  using assms(2-4)
proof (induction "unat k" arbitrary: k path par p)
  case 0
  then have "k = 0" by (simp add: unat_eq_zero)
  with 0 show ?case by (simp add: heap_walk.simps)
next
  case (Suc k')
  have k: "0 < k" "unat (k - 1) = k'" using Suc(2) by (simp_all add: word32_gt0 unat_dec)
  let ?p = "2 * p + unat path mod 2"
  have q: "follow k' (unat path div 2) ?p = q" using Suc(4) by (simp add: Suc(2) [symmetric])
  have "?p \<le> q" using q follow_ge by metis
  then have pn: "p \<le> n" using Suc(5) k(1) by auto
  have "read_slot h (slot_of at p) = Some (at p)"
    using read_slot_of [OF assms(1) Suc(3)] pn by simp
  moreover have "(if path AND 1 \<noteq> 0 then RightSlot (at p) else LeftSlot (at p)) = slot_of at ?p"
  proof -
    have "path AND 1 \<noteq> 0 \<longleftrightarrow> unat path mod 2 = 1"
      by (metis unat_and1 unat_eq_zero not_mod_2_eq_1_eq_0 zero_neq_one)
    then show ?thesis using Suc(3) by (auto simp: slot_of_def)
  qed
  ultimately have "heap_walk h path k par (slot_of at p) =
      heap_walk h (drop_bit 1 path) (k - 1) (slot_of at p) (slot_of at ?p)"
    using k by (simp add: heap_walk.simps [of h path k])
  also have "\<dots> = Some (if k - 1 = 0 then slot_of at p else slot_of at (q div 2), slot_of at q)"
  proof (rule Suc(1))
    show "k' = unat (k - 1)" using k by simp
    show "1 \<le> ?p" using Suc(3) by simp
    show "follow (unat (k - 1)) (unat (drop_bit 1 path)) ?p = q" unfolding k unat_shiftr1 by (rule q)
    show "k - 1 = 0 \<or> q div 2 \<le> n" using Suc(5) k by auto
  qed
  also have "\<dots> = Some (slot_of at (q div 2), slot_of at q)"
  proof (cases "k - 1 = 0")
    case True
    then have "k' = 0" using k by simp
    then have "q = ?p" using q by simp
    then show ?thesis using True by simp
  qed simp
  finally show ?case using k by auto
qed

lemma heap_path_walk:
  assumes rep: "heap_rep h at n" and N: "unat N = m" "1 \<le> m" "m \<le> n + 1"
    and path: "heap_path 0 0 N = (path, k)"
  shows "heap_walk h path k RootSlot RootSlot =
           Some (if m = 1 then RootSlot else slot_of at (m div 2), slot_of at m)"
proof -
  have f: "follow (unat k) (unat path) 1 = m"
    using heap_path_follow [OF path] N unat_lt32 [of N] by simp
  have k0: "k = 0 \<longleftrightarrow> m = 1"
  proof
    assume "k = 0" then show "m = 1" using f by simp
  next
    assume "m = 1"
    then have "N = 1" using N by (simp add: word_unat_eq_iff)
    then have "heap_path 0 0 N = (0, 0)" by (simp add: heap_path.simps word32_ge2)
    then show "k = 0" using path by simp
  qed
  have "heap_walk h path k RootSlot (slot_of at 1) =
      Some (if k = 0 then RootSlot else slot_of at (m div 2), slot_of at m)"
  proof (rule heap_walk_follow [OF rep _ f])
    show "k = 0 \<or> m div 2 \<le> n" using k0 N by auto
  qed simp
  then show ?thesis by (simp add: slot_of_def k0)
qed

definition heap_inv :: "compare_fn \<Rightarrow> heap \<Rightarrow> addr set \<Rightarrow> bool" where
  "heap_inv lt h S \<longleftrightarrow>
     (\<exists>at n. heap_rep h at n \<and> unat (nelts h) = n \<and> heap_ordered lt at n \<and> S = at ` {1..n})"

lemma inj_on_append:
  fixes n :: nat
  assumes "inj_on at {1..n}" "x \<notin> at ` {1..n}"
  shows "inj_on (at(n + 1 := x)) {1..n + 1}"
proof (rule inj_onI)
  fix k l assume kl: "k \<in> {1..n + 1}" "l \<in> {1..n + 1}" and eq: "(at(n + 1 := x)) k = (at(n + 1 := x)) l"
  have "m \<in> {1..n}" if "m \<in> {1..n + 1}" "m \<noteq> n + 1" for m :: nat using that by simp
  then show "k = l"
    using assms kl eq by (cases "k = n + 1"; cases "l = n + 1") (auto dest: inj_onD)
qed

lemma heap_rep_append:
  assumes rep: "heap_rep h at n" and new: "x \<notin> at ` {1..n}"
    and hx: "lf h x = None" "rt h x = None"
  shows "heap_rep (write_slot (slot_of at (n + 1)) (Some x)
           (set_parent x (read_slot h (if n = 0 then RootSlot else slot_of at ((n + 1) div 2))) h))
           (at(n + 1 := x)) (n + 1)"
proof (cases "n = 0")
  case True
  then show ?thesis
    using heap_rep_min [OF rep] hx by (simp add: heap_rep_def slot_of_def mem_simps)
next
  case False
  define q where "q = (n + 1) div 2"
  have q: "1 \<le> q" "q \<le> n" "q \<noteq> n + 1" using False by (auto simp: q_def)
  have par: "read_slot h (slot_of at q) = Some (at q)"
    using read_slot_of [OF rep q(1)] q by simp
  have ne: "at k \<noteq> x" if "1 \<le> k" "k \<le> n" for k using that new by auto
  have inj: "at k = at q \<longleftrightarrow> k = q" if "1 \<le> k" "k \<le> n" for k
    using heap_rep_inj [OF rep that q(1,2)] .
  have q2: "n + 1 = 2 * q \<or> n + 1 = 2 * q + 1" unfolding q_def by linarith
  define H where "H = write_slot (slot_of at (n + 1)) (Some x) (set_parent x (Some (at q)) h)"
  have slot: "slot_of at (n + 1) = (if n + 1 = 2 * q then LeftSlot (at q) else RightSlot (at q))"
    using False q2 by (auto simp: slot_of_def q_def)
  have flds: "lf H a = (if a = at q \<and> n + 1 = 2 * q then Some x else lf h a)"
    "rt H a = (if a = at q \<and> n + 1 \<noteq> 2 * q then Some x else rt h a)"
    "pr H a = (if a = x then Some (at q) else pr h a)" "hmin H = hmin h" for a
    unfolding H_def slot by (auto simp: mem_simps)
  have old: "lf H (at k) = (if 2 * k \<le> n + 1 then Some ((at(n + 1 := x)) (2 * k)) else None) \<and>
        rt H (at k) = (if 2 * k + 1 \<le> n + 1 then Some ((at(n + 1 := x)) (2 * k + 1)) else None) \<and>
        pr H (at k) = (if k = 1 then None else Some ((at(n + 1 := x)) (k div 2)))"
    if k: "1 \<le> k" "k \<le> n" for k
  proof -
    show ?thesis
    proof (cases "k = q")
      case True
      have qn: "q div 2 \<noteq> n + 1" using q by auto
      note nd = heap_rep_node [OF rep q(1,2)]
      have "lf H (at q) = (if 2 * q \<le> n + 1 then Some ((at(n + 1 := x)) (2 * q)) else None)"
        using nd(1) q2 by (cases "n + 1 = 2 * q") (simp_all only: flds, simp_all)
      moreover have "rt H (at q) = (if 2 * q + 1 \<le> n + 1 then Some ((at(n + 1 := x)) (2 * q + 1)) else None)"
        using nd(2) q2 by (cases "n + 1 = 2 * q") (simp_all only: flds, simp_all)
      moreover have "pr H (at q) = (if q = 1 then None else Some ((at(n + 1 := x)) (q div 2)))"
        using nd(3) ne [OF q(1,2)] qn by (simp only: flds) simp
      ultimately show ?thesis using True by simp
    next
      case False
      then have d: "2 * k \<noteq> n + 1" "2 * k + 1 \<noteq> n + 1" "k div 2 \<noteq> n + 1" using q2 k by auto
      have "lf H (at k) = lf h (at k)" "rt H (at k) = rt h (at k)" "pr H (at k) = pr h (at k)"
        using False inj [OF k] ne [OF k] by (simp_all add: flds)
      moreover note heap_rep_node [OF rep k]
      ultimately show ?thesis
        by (cases "2 * k \<le> n"; cases "2 * k + 1 \<le> n") (use d in auto)
    qed
  qed
  have x: "lf H x = None" "rt H x = None" "pr H x = Some (at q)"
    using hx ne [OF q(1,2)] by (auto simp: flds)
  have m: "hmin H = Some (at 1)" using heap_rep_min [OF rep] False by (auto simp: flds)
  have i: "inj_on (at(n + 1 := x)) {1..n + 1}"
    using rep new by (intro inj_on_append) (auto simp: heap_rep_def)
  have "heap_rep H (at(n + 1 := x)) (n + 1)"
    unfolding heap_rep_def
  proof (intro conjI ballI)
    fix k assume "k \<in> {1..n + 1}"
    then consider "1 \<le> k" "k \<le> n" | "k = n + 1" by fastforce
    then have "lf H ((at(n + 1 := x)) k) = (if 2 * k \<le> n + 1 then Some ((at(n + 1 := x)) (2 * k)) else None) \<and>
        rt H ((at(n + 1 := x)) k) = (if 2 * k + 1 \<le> n + 1 then Some ((at(n + 1 := x)) (2 * k + 1)) else None) \<and>
        pr H ((at(n + 1 := x)) k) = (if k = 1 then None else Some ((at(n + 1 := x)) (k div 2)))"
      using old [of k] x False q by cases (simp_all add: q_def)
    then show "lf H ((at(n + 1 := x)) k) = (if 2 * k \<le> n + 1 then Some ((at(n + 1 := x)) (2 * k)) else None)"
      and "rt H ((at(n + 1 := x)) k) = (if 2 * k + 1 \<le> n + 1 then Some ((at(n + 1 := x)) (2 * k + 1)) else None)"
      and "pr H ((at(n + 1 := x)) k) = (if k = 1 then None else Some ((at(n + 1 := x)) (k div 2)))"
      by auto
  qed (use i m False in auto)
  then show ?thesis using False par by (simp add: H_def q_def)
qed

lemma heap_rep_node_other:
  assumes "heap_rep h at n" "1 \<le> i" "i \<le> n" "c \<notin> at ` {1..n}"
  shows "lf h (at i) \<noteq> Some c" "rt h (at i) \<noteq> Some c" "pr h (at i) \<noteq> Some c"
proof -
  have m: "at k \<noteq> c" if "1 \<le> k" "k \<le> n" for k using that assms(4) by auto
  show "lf h (at i) \<noteq> Some c" "rt h (at i) \<noteq> Some c" "pr h (at i) \<noteq> Some c"
    using heap_rep_node [OF assms(1-3)] assms(2,3) m [of "2 * i"] m [of "2 * i + 1"] m [of "i div 2"]
    by auto
qed

lemma heap_rep_put:
  assumes "heap_rep h at n" "x \<notin> at ` {1..n}"
  shows "heap_rep (put_node x nd h) at n"
proof -
  have "at k \<noteq> x" if "k \<in> {1..n}" for k using that assms(2) by auto
  then show ?thesis using assms(1) by (simp add: heap_rep_def mem_simps)
qed

lemma heap_rep_nelts [simp]: "heap_rep (h\<lparr>nelts := x\<rparr>) at n = heap_rep h at n"
  by (simp add: heap_rep_def)

context heap_order
begin

lemma heap_insert_ok:
  assumes inv: "heap_inv lt h S" and x: "x \<notin> S" and card: "card S + 1 < 2 ^ 32"
  shows "\<exists>h'. heap_insert lt x h = Some h' \<and> heap_inv lt h' (insert x S)"
proof -
  obtain at n where rep: "heap_rep h at n" and n: "unat (nelts h) = n"
    and ord: "heap_ordered lt at n" and S: "S = at ` {1..n}"
    using inv by (auto simp: heap_inv_def)
  have "card S = n" using rep by (simp add: S heap_rep_def card_image)
  then have n1: "unat (1 + nelts h) = n + 1" using card n unat_inc [of "nelts h"]
    by (simp add: add.commute [of 1])
  define h1 where "h1 = put_node x \<lparr>left = None, right = None, parent = None\<rparr> h"
  obtain path k where pk: "heap_path 0 0 (1 + nelts h) = (path, k)" by fastforce
  have rep1: "heap_rep h1 at n" unfolding h1_def using rep x S by (intro heap_rep_put) auto
  define par where "par = (if n = 0 then RootSlot else slot_of at ((n + 1) div 2))"
  have walk: "heap_walk h1 path k RootSlot RootSlot = Some (par, slot_of at (n + 1))"
    using heap_path_walk [OF rep1 n1 _ _ pk] by (simp add: par_def)
  define h4 where "h4 = (let h3 = write_slot (slot_of at (n + 1)) (Some x)
      (set_parent x (read_slot h1 par) h1) in h3\<lparr>nelts := nelts h3 + 1\<rparr>)"
  let ?at = "at(n + 1 := x)"
  have rep4: "heap_rep h4 ?at (n + 1)"
    using heap_rep_append [OF rep1, of x] x S by (simp add: h4_def Let_def par_def h1_def mem_simps)
  have "nelts h4 = nelts h + 1"
    by (cases "slot_of at (n + 1)") (simp_all add: h4_def Let_def h1_def mem_simps)
  then have ne4: "unat (nelts h4) = n + 1" using n1 by (simp add: add.commute)
  have "up_inv lt ?at (n + 1) (n + 1)"
    using ord by (auto simp: up_inv_def heap_ordered_def)
  then obtain h' at' where "heap_sift_up lt (?at (n + 1)) h4 = Some h'"
    and perm: "heap_perm h4 ?at h' at' (n + 1)" and "heap_ordered lt at' (n + 1)"
    using sift_up_ok [OF rep4, of "n + 1"] by auto
  moreover have "heap_insert lt x h = heap_sift_up lt x h4"
    using walk pk by (simp add: heap_insert_def h1_def h4_def Let_def mem_simps)
  moreover have "?at ` {1..n + 1} = insert x S"
    by (auto simp: S image_iff le_Suc_eq)
  ultimately show ?thesis
    using ne4 perm by (auto simp: heap_inv_def heap_perm_def intro!: exI [of _ at'])
qed

end

text \<open>Unlinking the last node.\<close>

lemma heap_rep_unlink:
  assumes rep: "heap_rep h at n" and n: "1 \<le> n"
  shows "heap_rep (write_slot (slot_of at n) None h) at (n - 1)"
proof (cases "n = 1")
  case True
  then show ?thesis by (simp add: heap_rep_def slot_of_def)
next
  case False
  define q where "q = n div 2"
  have q: "1 \<le> q" "q < n" using False n by (auto simp: q_def)
  have q2: "n = 2 * q \<or> n = 2 * q + 1" unfolding q_def by linarith
  have slot: "slot_of at n = (if n = 2 * q then LeftSlot (at q) else RightSlot (at q))"
    using False q2 by (auto simp: slot_of_def q_def)
  define H where "H = write_slot (slot_of at n) None h"
  have flds: "lf H a = (if a = at q \<and> n = 2 * q then None else lf h a)"
    "rt H a = (if a = at q \<and> n \<noteq> 2 * q then None else rt h a)"
    "pr H a = pr h a" "hmin H = hmin h" for a
    unfolding H_def slot by (auto simp: mem_simps)
  have "lf H (at k) = (if 2 * k \<le> n - 1 then Some (at (2 * k)) else None) \<and>
        rt H (at k) = (if 2 * k + 1 \<le> n - 1 then Some (at (2 * k + 1)) else None) \<and>
        pr H (at k) = (if k = 1 then None else Some (at (k div 2)))"
    if k: "1 \<le> k" "k \<le> n - 1" for k
  proof (cases "k = q")
    case True
    then show ?thesis
      using heap_rep_node [OF rep, of q] q q2 by (cases "n = 2 * q") (auto simp: flds)
  next
    case False
    then have d: "2 * k \<noteq> n" "2 * k + 1 \<noteq> n" using q2 by auto
    have "at k \<noteq> at q" using heap_rep_inj [OF rep, of k q] k q False by simp
    then have "lf H (at k) = lf h (at k)" "rt H (at k) = rt h (at k)" "pr H (at k) = pr h (at k)"
      by (simp_all add: flds)
    then show ?thesis
      using heap_rep_node [OF rep, of k] d k
      by (cases "2 * k \<le> n"; cases "2 * k + 1 \<le> n") auto
  qed
  moreover have "inj_on at {1..n - 1}"
    by (rule inj_on_subset [of _ "{1..n}"]) (use rep in \<open>auto simp: heap_rep_def\<close>)
  ultimately show ?thesis
    using heap_rep_min [OF rep] False n unfolding H_def [symmetric]
    by (simp add: heap_rep_def flds)
qed

lemma heap_replace_fields:
  assumes nc: "node \<noteq> c" and own: "lf h node \<noteq> Some c" "rt h node \<noteq> Some c" "pr h node \<noteq> Some c"
    and self: "lf h node \<noteq> Some node" "rt h node \<noteq> Some node" "pr h node \<noteq> Some node"
  shows "lf (heap_replace node c h) a =
      (if a = c then lf h node else if pr h node = Some a \<and> lf h a = Some node then Some c else lf h a)"
    and "rt (heap_replace node c h) a =
      (if a = c then rt h node else if pr h node = Some a \<and> lf h a \<noteq> Some node then Some c else rt h a)"
    and "pr (heap_replace node c h) a =
      (if lf h node = Some a \<or> rt h node = Some a then Some c else if a = c then pr h node else pr h a)"
    and "hmin (heap_replace node c h) = (if pr h node = None then Some c else hmin h)"
    and "nelts (heap_replace node c h) = nelts h"
  using nc own self
  by (auto simp: heap_replace_def mem_simps Let_def split: option.split)

lemma heap_replace_rep:
  assumes rep: "heap_rep h at n" and i: "1 \<le> i" "i \<le> n" and c: "c \<notin> at ` {1..n}"
  shows "heap_rep (heap_replace (at i) c h) (at(i := c)) n"
proof -
  have nc: "at k \<noteq> c" if "1 \<le> k" "k \<le> n" for k using that c by auto
  have inj: "at k = at l \<longleftrightarrow> k = l" if "1 \<le> k" "k \<le> n" "1 \<le> l" "l \<le> n" for k l
    using heap_rep_inj [OF rep that] .
  note nd = heap_rep_node [OF rep]
  have self: "lf h (at i) \<noteq> Some (at i)" "rt h (at i) \<noteq> Some (at i)" "pr h (at i) \<noteq> Some (at i)"
    using nd [OF i] i inj [of "2 * i" i] inj [of "2 * i + 1" i] inj [of "i div 2" i] by auto
  note F = heap_replace_fields [OF nc [OF i] heap_rep_node_other [OF rep i c] self]
  have L: "lf (heap_replace (at i) c h) (at k) =
        (if 2 * k = i then Some c else lf h (at k)) \<and>
      rt (heap_replace (at i) c h) (at k) = (if 2 * k + 1 = i then Some c else rt h (at k)) \<and>
      pr (heap_replace (at i) c h) (at k) =
        (if k \<noteq> 1 \<and> k div 2 = i then Some c else pr h (at k))"
    if k: "1 \<le> k" "k \<le> n" for k
  proof -
    have p: "pr h (at i) = Some (at k) \<longleftrightarrow> i \<noteq> 1 \<and> k = i div 2"
      using nd(3) [OF i] k i inj [of "i div 2" k] by auto
    have l: "lf h (at k) = Some (at i) \<longleftrightarrow> 2 * k = i"
      using nd(1) [OF k] k i inj [of "2 * k" i] by auto
    have ch: "lf h (at i) = Some (at k) \<or> rt h (at i) = Some (at k) \<longleftrightarrow> k \<noteq> 1 \<and> k div 2 = i"
      using nd(1,2) [OF i] k i inj [of "2 * i" k] inj [of "2 * i + 1" k] by auto
    have d: "i \<noteq> 1 \<and> k = i div 2 \<and> 2 * k = i \<longleftrightarrow> 2 * k = i"
      "i \<noteq> 1 \<and> k = i div 2 \<and> 2 * k \<noteq> i \<longleftrightarrow> 2 * k + 1 = i"
      using k by auto
    show ?thesis unfolding F(1,2,3) ch p l using nc [OF k] d by auto
  qed
  show ?thesis
    unfolding heap_rep_def
  proof (intro conjI ballI)
    show "inj_on (at(i := c)) {1..n}"
      using rep c by (intro inj_on_fun_updI) (auto simp: heap_rep_def)
    show "hmin (heap_replace (at i) c h) = (if n = 0 then None else Some ((at(i := c)) 1))"
      using nd(3) [OF i] heap_rep_min [OF rep] i by (simp add: F(4))
    fix k assume "k \<in> {1..n}"
    then have k: "1 \<le> k" "k \<le> n" by auto
    have 2: "2 * i \<noteq> i" "2 * i + 1 \<noteq> i" "i div 2 \<noteq> i" using i by auto
    show "lf (heap_replace (at i) c h) ((at(i := c)) k) =
        (if 2 * k \<le> n then Some ((at(i := c)) (2 * k)) else None)"
      using L [OF k] nd(1) [OF k] nd(1) [OF i] 2 i(2) nc [OF k] by (cases "k = i") (auto simp: F(1))
    show "rt (heap_replace (at i) c h) ((at(i := c)) k) =
        (if 2 * k + 1 \<le> n then Some ((at(i := c)) (2 * k + 1)) else None)"
      using L [OF k] nd(2) [OF k] nd(2) [OF i] 2 i(2) nc [OF k] by (cases "k = i") (auto simp: F(2))
    show "pr (heap_replace (at i) c h) ((at(i := c)) k) =
        (if k = 1 then None else Some ((at(i := c)) (k div 2)))"
      using L [OF k] nd(3) [OF k] nd(3) [OF i] 2 heap_rep_node_other(1,2) [OF rep i c]
      by (cases "k = i") (auto simp: F(3))
  qed
qed


context heap_order
begin

lemma hole_inv_replace:
  assumes ord: "heap_ordered lt at n" and i: "1 \<le> i" "i < n"
  shows "hole_inv lt (at(i := at n)) (n - 1) i"
proof -
  have o: "\<not> lt (at j) (at (j div 2))" if "2 \<le> j" "j \<le> n" for j
    using ord that by (auto simp: heap_ordered_def)
  have "\<not> lt (at j) (at (i div 2))" if "2 \<le> j" "j \<le> n" "j div 2 = i" "2 \<le> i" for j
    using o [of j] o [of i] that i le_trans by auto
  then show ?thesis using o by (auto simp: hole_inv_def)
qed

lemma heap_remove_ok:
  assumes inv: "heap_inv lt h S" and x: "x \<in> S"
  shows "\<exists>h'. heap_remove lt x h = Some h' \<and> heap_inv lt h' (S - {x})"
proof -
  obtain at n where rep: "heap_rep h at n" and n: "unat (nelts h) = n"
    and ord: "heap_ordered lt at n" and S: "S = at ` {1..n}"
    using inv by (auto simp: heap_inv_def)
  obtain i where i: "1 \<le> i" "i \<le> n" and xi: "x = at i" using x S by auto
  have ne: "nelts h \<noteq> 0" using n i by auto
  have n1: "unat (nelts h - 1) = n - 1" using n i by (simp add: unat_dec)
  obtain path k where pk: "heap_path 0 0 (nelts h) = (path, k)" by fastforce
  define h2 where "h2 = write_slot (slot_of at n) None (h\<lparr>nelts := nelts h - 1\<rparr>)"
  obtain par where walk: "heap_walk h path k RootSlot RootSlot = Some (par, slot_of at n)"
    using heap_path_walk [OF rep n _ _ pk] i by auto
  have rd: "read_slot (h\<lparr>nelts := nelts h - 1\<rparr>) (slot_of at n) = Some (at n)"
    using read_slot_of [of "h\<lparr>nelts := nelts h - 1\<rparr>" at n n] rep i by simp
  have rep2: "heap_rep h2 at (n - 1)"
    unfolding h2_def using rep i by (intro heap_rep_unlink) auto
  have ne2: "nelts h2 = nelts h - 1" by (cases "slot_of at n") (simp_all add: h2_def mem_simps)
  have inj: "at k = at l \<longleftrightarrow> k = l" if "1 \<le> k" "k \<le> n" "1 \<le> l" "l \<le> n" for k l
    using heap_rep_inj [OF rep that] .
  have rem: "heap_remove lt x h = (if at n = x then
        Some (if hmin h2 = Some (at n) then h2\<lparr>hmin := None\<rparr> else h2)
      else case heap_sift_down lt (at n) (heap_replace x (at n) h2) of
             None \<Rightarrow> None | Some h3 \<Rightarrow> heap_sift_up lt (at n) h3)"
    using ne pk walk rd by (simp add: heap_remove_def h2_def Let_def)
  show ?thesis
  proof (cases "i = n")
    case True
    have img: "at ` {1..n - 1} = S - {x}"
    proof -
      have "{1..n} = insert n {1..n - 1}" using i by auto
      moreover have "at n \<notin> at ` {1..n - 1}" using inj by auto
      ultimately show ?thesis by (simp add: S xi True)
    qed
    have "hmin h2 \<noteq> Some (at n)" using heap_rep_min [OF rep2] inj [of 1 n] i by auto
    then have "heap_remove lt x h = Some h2" using rem True xi by simp
    moreover have "heap_ordered lt at (n - 1)" using ord by (auto simp: heap_ordered_def)
    ultimately show ?thesis using rep2 ne2 n1 img [symmetric] unfolding heap_inv_def by auto
  next
    case False
    let ?at = "at(i := at n)"
    have i': "1 \<le> i" "i \<le> n - 1" "i < n" using i False by auto
    have nx: "at n \<noteq> x" using inj [of n i] i False xi by auto
    have out: "at n \<notin> at ` {1..n - 1}" using inj by auto
    have rep3: "heap_rep (heap_replace x (at n) h2) ?at (n - 1)"
      unfolding xi by (rule heap_replace_rep [OF rep2 i'(1,2) out])
    obtain h3 at3 m where down: "heap_sift_down lt (?at i) (heap_replace x (at n) h2) = Some h3"
      and perm3: "heap_perm (heap_replace x (at n) h2) ?at h3 at3 (n - 1)"
      and m: "1 \<le> m" "m \<le> n - 1" "at3 m = ?at i" and up: "up_inv lt at3 (n - 1) m"
      using sift_down_ok [OF rep3 i'(1,2) hole_inv_replace [OF ord i'(1,3)]] by blast
    obtain h4 at4 where "heap_sift_up lt (at3 m) h3 = Some h4"
      and perm4: "heap_perm h3 at3 h4 at4 (n - 1)" and ord4: "heap_ordered lt at4 (n - 1)"
    proof -
      have "heap_rep h3 at3 (n - 1)" using perm3 by (simp add: heap_perm_def)
      then show ?thesis using sift_up_ok [OF _ m(1,2) up] that by blast
    qed
    then have "heap_remove lt x h = Some h4" using rem nx down m by simp
    moreover have perm: "heap_perm (heap_replace x (at n) h2) ?at h4 at4 (n - 1)"
      by (rule heap_perm_trans [OF perm3 perm4])
    moreover have "?at ` {1..n - 1} = S - {x}"
    proof -
      have "{1..n} = insert n {1..n - 1}" using i by auto
      then show ?thesis using inj i' by (auto simp: S xi image_iff) 
    qed
    moreover have "unat (nelts h4) = n - 1"
    proof -
      have self: "lf h2 (at i) \<noteq> Some (at i)" "rt h2 (at i) \<noteq> Some (at i)" "pr h2 (at i) \<noteq> Some (at i)"
        using heap_rep_node [OF rep2 i'(1,2)] i' inj [of "2 * i" i] inj [of "2 * i + 1" i] inj [of "i div 2" i]
        by auto
      show ?thesis
        using perm n1 ne2 nx heap_replace_fields(5) [OF _ heap_rep_node_other [OF rep2 i'(1,2) out] self]
        by (auto simp: heap_perm_def xi)
    qed
    moreover have "at4 ` {1..n - 1} = ?at ` {1..n - 1}" "heap_rep h4 at4 (n - 1)"
      using perm unfolding heap_perm_def by blast+
    ultimately show ?thesis using ord4 unfolding heap_inv_def by metis
  qed
qed

end

section \<open>The client's view\<close>

lemma heap_inv_init: "heap_inv lt (heap_init h) {}"
  by (auto simp: heap_inv_def heap_init_def heap_rep_def heap_ordered_def intro!: exI [of _ "\<lambda>_. 0"])

lemma heap_inv_finite: "heap_inv lt h S \<Longrightarrow> finite S"
  by (auto simp: heap_inv_def)

lemma heap_inv_cong:
  assumes inv: "heap_inv lt h S" and eq: "\<And>x y. x \<in> S \<Longrightarrow> y \<in> S \<Longrightarrow> lt' x y = lt x y"
  shows "heap_inv lt' h S"
proof -
  obtain at n where *: "heap_rep h at n" "unat (nelts h) = n" "heap_ordered lt at n" "S = at ` {1..n}"
    using inv by (auto simp: heap_inv_def)
  have "heap_ordered lt' at n"
    unfolding heap_ordered_def
  proof
    fix j assume j: "j \<in> {2..n}"
    then have "j \<in> {1..n}" "j div 2 \<in> {1..n}" by auto
    then have "at j \<in> S" "at (j div 2) \<in> S" unfolding *(4) by (auto intro: imageI)
    then show "\<not> lt' (at j) (at (j div 2))" using eq *(3) j by (simp add: heap_ordered_def)
  qed
  then show ?thesis using * unfolding heap_inv_def by blast
qed

lemma heap_min_ok:
  assumes "heap_order lt" and inv: "heap_inv lt h S"
  shows "case heap_min h of None \<Rightarrow> S = {} | Some m \<Rightarrow> m \<in> S \<and> (\<forall>y \<in> S. \<not> lt y m)"
proof -
  obtain at n where *: "heap_rep h at n" "heap_ordered lt at n" "S = at ` {1..n}"
    using inv by (auto simp: heap_inv_def)
  show ?thesis
    using heap_rep_min [OF *(1)] heap_order.heap_min_least [OF assms(1) *(2)] *(3)
    by (auto simp: heap_min_def split: option.split)
qed

text \<open>What a component that keeps its nodes in a heap relies on.\<close>

locale priority_queue =
  fixes pq_inv :: "compare_fn \<Rightarrow> 'h \<Rightarrow> addr set \<Rightarrow> bool"
    and pq_insert :: "compare_fn \<Rightarrow> addr \<Rightarrow> 'h \<Rightarrow> 'h option"
    and pq_remove :: "compare_fn \<Rightarrow> addr \<Rightarrow> 'h \<Rightarrow> 'h option"
    and pq_min :: "'h \<Rightarrow> ptr"
  assumes insert_law: "heap_order lt \<Longrightarrow> pq_inv lt h S \<Longrightarrow> x \<notin> S \<Longrightarrow> card S + 1 < 2 ^ 32 \<Longrightarrow>
      \<exists>h'. pq_insert lt x h = Some h' \<and> pq_inv lt h' (insert x S)"
    and remove_law: "heap_order lt \<Longrightarrow> pq_inv lt h S \<Longrightarrow> x \<in> S \<Longrightarrow>
      \<exists>h'. pq_remove lt x h = Some h' \<and> pq_inv lt h' (S - {x})"
    and min_law: "heap_order lt \<Longrightarrow> pq_inv lt h S \<Longrightarrow>
      (case pq_min h of None \<Rightarrow> S = {} | Some m \<Rightarrow> m \<in> S \<and> (\<forall>y \<in> S. \<not> lt y m))"
    and cong_law: "pq_inv lt h S \<Longrightarrow> (\<And>x y. x \<in> S \<Longrightarrow> y \<in> S \<Longrightarrow> lt' x y = lt x y) \<Longrightarrow> pq_inv lt' h S"
    and finite_law: "pq_inv lt h S \<Longrightarrow> finite S"
begin

lemma min_None_iff: "heap_order lt \<Longrightarrow> pq_inv lt h S \<Longrightarrow> pq_min h = None \<longleftrightarrow> S = {}"
  using min_law [of lt h S] by (auto split: option.splits)

lemma min_Some: "heap_order lt \<Longrightarrow> pq_inv lt h S \<Longrightarrow> pq_min h = Some m \<Longrightarrow>
    m \<in> S \<and> (\<forall>y \<in> S. \<not> lt y m)"
  using min_law [of lt h S] by simp

text \<open>A node gets a new key while it is outside the heap.\<close>

lemma insert_rekeyed:
  assumes "pq_inv lt h S" "x \<notin> S" "heap_order lt'" "card S + 1 < 2 ^ 32"
    and "\<And>y z. y \<in> S \<Longrightarrow> z \<in> S \<Longrightarrow> lt' y z = lt y z"
  shows "\<exists>h'. pq_insert lt' x h = Some h' \<and> pq_inv lt' h' (insert x S)"
  using insert_law [OF assms(3) cong_law [OF assms(1,5)] assms(2,4)] by blast

end

interpretation heap_pq: priority_queue heap_inv heap_insert heap_remove heap_min
  by unfold_locales
    (auto intro: heap_order.heap_insert_ok heap_order.heap_remove_ok heap_inv_cong
      dest: heap_min_ok heap_inv_finite)

section \<open>Properties\<close>

text \<open>C22: inserting a node that is not in the heap always returns (no NULL pointer is followed
  and the loops end), gives a well-formed heap of exactly the old nodes and the new one, ordered
  by the comparison, with a least node at its root.\<close>

theorem heap_insert_correct:
  assumes "\<And>a b. lt a b \<Longrightarrow> \<not> lt b a" and "\<And>a b c. \<not> lt b a \<Longrightarrow> \<not> lt c b \<Longrightarrow> \<not> lt c a"
    and "heap_inv lt h S" and "x \<notin> S" and "card S + 1 < 2 ^ 32"
  shows "\<exists>h' m. heap_insert lt x h = Some h' \<and> heap_inv lt h' (insert x S) \<and>
           heap_min h' = Some m \<and> m \<in> insert x S \<and> (\<forall>y \<in> insert x S. \<not> lt y m)"
proof -
  have ord: "heap_order lt" using assms(1,2) by (rule heap_order.intro)
  obtain h' where h': "heap_insert lt x h = Some h'" "heap_inv lt h' (insert x S)"
    using heap_pq.insert_law [OF ord assms(3-5)] by blast
  moreover obtain m where "heap_min h' = Some m"
    using heap_pq.min_None_iff [OF ord h'(2)] by auto
  ultimately show ?thesis using heap_pq.min_Some [OF ord h'(2)] by blast
qed

text \<open>C12: removing any node of the heap (a timer that is stopped need not be the first) always
  returns and leaves a well-formed, ordered heap of exactly the other nodes.\<close>

theorem heap_remove_correct:
  assumes "\<And>a b. lt a b \<Longrightarrow> \<not> lt b a" and "\<And>a b c. \<not> lt b a \<Longrightarrow> \<not> lt c b \<Longrightarrow> \<not> lt c a"
    and "heap_inv lt h S" and "x \<in> S"
  shows "\<exists>h'. heap_remove lt x h = Some h' \<and> heap_inv lt h' (S - {x}) \<and>
           (case heap_min h' of None \<Rightarrow> S = {x}
            | Some m \<Rightarrow> m \<in> S - {x} \<and> (\<forall>y \<in> S - {x}. \<not> lt y m))"
proof -
  have ord: "heap_order lt" using assms(1,2) by (rule heap_order.intro)
  obtain h' where h': "heap_remove lt x h = Some h'" "heap_inv lt h' (S - {x})"
    using heap_pq.remove_law [OF ord assms(3,4)] by blast
  then show ?thesis
    using heap_pq.min_law [OF ord h'(2)] assms(4) by (auto split: option.splits)
qed

theorem heap_insert_correct_witness:
  "\<exists>h' m. heap_insert (<) 7 (heap_init \<lparr>hmin = None, nelts = 9, hmem = \<lambda>_. undefined\<rparr>) = Some h' \<and>
     heap_inv (<) h' {7} \<and> heap_min h' = Some m \<and> m \<in> {7} \<and> (\<forall>y \<in> {7}. \<not> y < m)"
  using heap_insert_correct [of "(<)" "heap_init \<lparr>hmin = None, nelts = 9, hmem = \<lambda>_. undefined\<rparr>" "{}" 7]
    heap_inv_init by auto

text \<open>Three nodes inserted in the order 5, 3, 4: node 3 is the root, 5 and 4 its children.\<close>

definition sample_heap :: heap where
  "sample_heap = \<lparr>hmin = Some 3, nelts = 3,
     hmem = (\<lambda>_. \<lparr>left = None, right = None, parent = None\<rparr>)
       (3 := \<lparr>left = Some 5, right = Some 4, parent = None\<rparr>,
        5 := \<lparr>left = None, right = None, parent = Some 3\<rparr>,
        4 := \<lparr>left = None, right = None, parent = Some 3\<rparr>)\<rparr>"

lemma sample_heap_inv: "heap_inv (<) sample_heap {3, 4, 5}"
proof -
  let ?at = "(\<lambda>_. 0)(1 := 3, 2 := 5, 3 := 4) :: nat \<Rightarrow> addr"
  have 3: "{1..3} = {1, 2, 3 :: nat}" "{Suc 0..3} = {1, 2, 3 :: nat}" "{2..3} = {2, 3 :: nat}" by auto
  have "heap_rep sample_heap ?at 3"
    by (auto simp: heap_rep_def sample_heap_def 3 inj_on_def)
  moreover have "heap_ordered (<) ?at 3" by (auto simp: heap_ordered_def 3)
  moreover have "{3, 4, 5} = ?at ` {1..3}" by (auto simp: 3)
  ultimately show ?thesis unfolding heap_inv_def
    by (intro exI [of _ ?at] exI [of _ 3]) (simp add: sample_heap_def)
qed

theorem heap_remove_correct_witness:
  "\<exists>h'. heap_remove (<) 3 sample_heap = Some h' \<and> heap_inv (<) h' {4, 5} \<and>
     (case heap_min h' of None \<Rightarrow> False | Some m \<Rightarrow> m \<in> {4, 5} \<and> (\<forall>y \<in> {4, 5}. \<not> y < m))"
proof -
  have "{3, 4, 5} - {3} = {4, 5 :: addr}" "{3, 4, 5} \<noteq> {3 :: addr}" by auto
  then show ?thesis
    using heap_remove_correct [of "(<)" sample_heap "{3, 4, 5}" 3, OF _ _ sample_heap_inv] by (auto split: option.splits)
qed

end
