(* ===== verification/Handle.thy ===== *)
theory Handle
  imports Prelude
begin

text \<open>
  Handles and the loop's count of them: the macros of \<open>src/src/libuv/src/uv-common.h\<close>
  (\<open>uv__handle_init\<close>, \<open>uv__handle_start\<close>, \<open>uv__handle_stop\<close>, \<open>uv__handle_ref\<close>,
  \<open>uv__handle_unref\<close>) and the public functions over them.  A loop is a record that the
  other components extend; \<open>handles\<close> is the memory its handles live in.
\<close>

section \<open>Flags\<close>

abbreviation UV_CLOSING :: u32 where "UV_CLOSING \<equiv> 0x01"
abbreviation UV_CLOSED :: u32 where "UV_CLOSED \<equiv> 0x02"
abbreviation UV_STREAM_READING :: u32 where "UV_STREAM_READING \<equiv> 0x04"
abbreviation UV_STREAM_SHUTTING :: u32 where "UV_STREAM_SHUTTING \<equiv> 0x08"
abbreviation UV_STREAM_SHUT :: u32 where "UV_STREAM_SHUT \<equiv> 0x10"
abbreviation UV_STREAM_READABLE :: u32 where "UV_STREAM_READABLE \<equiv> 0x20"
abbreviation UV_STREAM_WRITABLE :: u32 where "UV_STREAM_WRITABLE \<equiv> 0x40"
abbreviation UV_STREAM_BLOCKING :: u32 where "UV_STREAM_BLOCKING \<equiv> 0x80"
abbreviation UV_STREAM_READ_PARTIAL :: u32 where "UV_STREAM_READ_PARTIAL \<equiv> 0x100"
abbreviation UV_STREAM_READ_EOF :: u32 where "UV_STREAM_READ_EOF \<equiv> 0x200"
abbreviation UV_HANDLE_BOUND :: u32 where "UV_HANDLE_BOUND \<equiv> 0x40000"
abbreviation UV__HANDLE_INTERNAL :: u32 where "UV__HANDLE_INTERNAL \<equiv> 0x8000"
abbreviation UV__HANDLE_ACTIVE :: u32 where "UV__HANDLE_ACTIVE \<equiv> 0x4000"
abbreviation UV__HANDLE_REF :: u32 where "UV__HANDLE_REF \<equiv> 0x2000"

definition has_flag :: "u32 \<Rightarrow> u32 \<Rightarrow> bool" where
  "has_flag f m \<longleftrightarrow> f AND m \<noteq> 0"

text \<open>\<open>f |= m\<close> and \<open>f &= ~m\<close>.\<close>

definition add_flag :: "u32 \<Rightarrow> u32 \<Rightarrow> u32" where
  "add_flag f m = f OR m"

definition clear_flag :: "u32 \<Rightarrow> u32 \<Rightarrow> u32" where
  "clear_flag f m = f AND NOT m"

lemma has_flag_add [simp]: "has_flag (add_flag f g) m \<longleftrightarrow> has_flag f m \<or> has_flag g m"
proof -
  have "(f OR g) AND m = (f AND m) OR (g AND m)" by (rule bit.conj_disj_distrib2)
  then show ?thesis by (simp add: has_flag_def add_flag_def or_eq_0_iff)
qed

lemma has_flag_or_mask: "has_flag f (m OR k) \<longleftrightarrow> has_flag f m \<or> has_flag f k"
  by (simp add: has_flag_def bit.conj_disj_distrib or_eq_0_iff)

lemma clear_flag_and:
  assumes "m AND k = 0"
  shows "clear_flag f m AND k = f AND k"
proof (rule bit_word_eqI)
  fix n assume n: "n < LENGTH(32)"
  have "\<not> bit (m AND k) n" using assms by simp
  then show "bit (clear_flag f m AND k) n = bit (f AND k) n"
    using n by (auto simp: bit_simps clear_flag_def)
qed

lemma has_flag_clear [simp]: "\<not> has_flag (clear_flag f m) m"
  by (simp add: has_flag_def clear_flag_def and.assoc)

lemma has_flag_clear_other [simp]: "m AND k = 0 \<Longrightarrow> has_flag (clear_flag f m) k \<longleftrightarrow> has_flag f k"
  by (simp add: has_flag_def clear_flag_and)

lemma has_flag_self [simp]: "m \<noteq> 0 \<Longrightarrow> has_flag m m"
  by (simp add: has_flag_def)

lemma has_flag_zero [simp]: "\<not> has_flag 0 m"
  by (simp add: has_flag_def)

lemma has_flag_numeral [simp]:
  "has_flag (numeral a) (numeral b) \<longleftrightarrow> (numeral a AND numeral b :: u32) \<noteq> 0"
  "has_flag (numeral a) 1 \<longleftrightarrow> (numeral a AND 1 :: u32) \<noteq> 0"
  "has_flag 1 (numeral b) \<longleftrightarrow> (1 AND numeral b :: u32) \<noteq> 0"
  by (simp_all only: has_flag_def)

section \<open>Handles and the part of the loop that tracks them\<close>

datatype handle_type =
  UV_UNKNOWN_HANDLE | UV_ASYNC | UV_CHECK | UV_FS_EVENT | UV_FS_POLL | UV_HANDLE | UV_IDLE
| UV_NAMED_PIPE | UV_POLL | UV_PREPARE | UV_PROCESS | UV_STREAM | UV_TCP | UV_TIMER | UV_TTY
| UV_UDP | UV_SIGNAL | UV_FILE

record uv_handle =
  flags :: u32
  htype :: handle_type
  next_closing :: ptr

record hloop =
  active_handles :: u32
  handle_queue :: "addr list"
  closing_handles :: ptr
  handles :: "addr \<Rightarrow> uv_handle"

definition hflags :: "'a hloop_scheme \<Rightarrow> addr \<Rightarrow> u32" where
  "hflags L a = flags (handles L a)"

definition set_flags :: "addr \<Rightarrow> u32 \<Rightarrow> 'a hloop_scheme \<Rightarrow> 'a hloop_scheme" where
  "set_flags a f L = L\<lparr>handles := (handles L)(a := (handles L a)\<lparr>flags := f\<rparr>)\<rparr>"

definition uv__is_active :: "'a hloop_scheme \<Rightarrow> addr \<Rightarrow> bool" where
  "uv__is_active L a \<longleftrightarrow> has_flag (hflags L a) UV__HANDLE_ACTIVE"

definition uv__is_closing :: "'a hloop_scheme \<Rightarrow> addr \<Rightarrow> bool" where
  "uv__is_closing L a \<longleftrightarrow> has_flag (hflags L a) (UV_CLOSING OR UV_CLOSED)"

definition uv__has_ref :: "'a hloop_scheme \<Rightarrow> addr \<Rightarrow> bool" where
  "uv__has_ref L a \<longleftrightarrow> has_flag (hflags L a) UV__HANDLE_REF"

definition uv__active_handle_add :: "'a hloop_scheme \<Rightarrow> 'a hloop_scheme" where
  "uv__active_handle_add L = L\<lparr>active_handles := active_handles L + 1\<rparr>"

definition uv__active_handle_rm :: "'a hloop_scheme \<Rightarrow> 'a hloop_scheme" where
  "uv__active_handle_rm L = L\<lparr>active_handles := active_handles L - 1\<rparr>"

definition uv__has_active_handles :: "'a hloop_scheme \<Rightarrow> bool" where
  "uv__has_active_handles L \<longleftrightarrow> active_handles L > 0"

definition uv__handle_init :: "addr \<Rightarrow> handle_type \<Rightarrow> 'a hloop_scheme \<Rightarrow> 'a hloop_scheme" where
  "uv__handle_init a t L =
     L\<lparr>handles := (handles L)(a := (handles L a)
         \<lparr>htype := t, flags := UV__HANDLE_REF, next_closing := None\<rparr>),
       handle_queue := handle_queue L @ [a]\<rparr>"

definition uv__handle_start :: "addr \<Rightarrow> 'a hloop_scheme \<Rightarrow> 'a hloop_scheme" where
  "uv__handle_start a L =
     (if uv__is_active L a then L
      else let L1 = set_flags a (add_flag (hflags L a) UV__HANDLE_ACTIVE) L
           in if uv__has_ref L1 a then uv__active_handle_add L1 else L1)"

definition uv__handle_stop :: "addr \<Rightarrow> 'a hloop_scheme \<Rightarrow> 'a hloop_scheme" where
  "uv__handle_stop a L =
     (if \<not> uv__is_active L a then L
      else let L1 = set_flags a (clear_flag (hflags L a) UV__HANDLE_ACTIVE) L
           in if uv__has_ref L1 a then uv__active_handle_rm L1 else L1)"

definition uv__handle_ref :: "addr \<Rightarrow> 'a hloop_scheme \<Rightarrow> 'a hloop_scheme" where
  "uv__handle_ref a L =
     (if uv__has_ref L a then L
      else let L1 = set_flags a (add_flag (hflags L a) UV__HANDLE_REF) L
           in if uv__is_active L1 a then uv__active_handle_add L1 else L1)"

definition uv__handle_unref :: "addr \<Rightarrow> 'a hloop_scheme \<Rightarrow> 'a hloop_scheme" where
  "uv__handle_unref a L =
     (if \<not> uv__has_ref L a then L
      else let L1 = set_flags a (clear_flag (hflags L a) UV__HANDLE_REF) L
           in if uv__is_active L1 a then uv__active_handle_rm L1 else L1)"

definition uv_ref :: "addr \<Rightarrow> 'a hloop_scheme \<Rightarrow> 'a hloop_scheme" where
  "uv_ref a L = uv__handle_ref a L"

definition uv_unref :: "addr \<Rightarrow> 'a hloop_scheme \<Rightarrow> 'a hloop_scheme" where
  "uv_unref a L = uv__handle_unref a L"

definition uv_has_ref :: "'a hloop_scheme \<Rightarrow> addr \<Rightarrow> bool" where
  "uv_has_ref L a = uv__has_ref L a"

definition uv_is_active :: "'a hloop_scheme \<Rightarrow> addr \<Rightarrow> bool" where
  "uv_is_active L a = uv__is_active L a"

definition uv_is_closing :: "'a hloop_scheme \<Rightarrow> addr \<Rightarrow> bool" where
  "uv_is_closing L a = uv__is_closing L a"

lemmas handle_ops_defs =
  uv__handle_start_def uv__handle_stop_def uv__handle_ref_def uv__handle_unref_def
  uv__active_handle_add_def uv__active_handle_rm_def Let_def

section \<open>What the operations do to each field\<close>

lemma set_flags_sel [simp]:
  "hflags (set_flags a f L) b = (if b = a then f else hflags L b)"
  "active_handles (set_flags a f L) = active_handles L"
  "handle_queue (set_flags a f L) = handle_queue L"
  "closing_handles (set_flags a f L) = closing_handles L"
  "htype (handles (set_flags a f L) b) = htype (handles L b)"
  "next_closing (handles (set_flags a f L) b) = next_closing (handles L b)"
  "hloop.more (set_flags a f L) = hloop.more L"
  by (simp_all add: set_flags_def hflags_def)

lemma hflags_active_upd [simp]:
  "hflags (L\<lparr>active_handles := n\<rparr>) b = hflags L b"
  "hflags (L\<lparr>handle_queue := q\<rparr>) b = hflags L b"
  "hflags (L\<lparr>closing_handles := p\<rparr>) b = hflags L b"
  by (simp_all add: hflags_def)

lemma handle_start_sel [simp]:
  "uv__is_active (uv__handle_start a L) b \<longleftrightarrow> b = a \<or> uv__is_active L b"
  "uv__has_ref (uv__handle_start a L) b \<longleftrightarrow> uv__has_ref L b"
  "uv__is_closing (uv__handle_start a L) b \<longleftrightarrow> uv__is_closing L b"
  "handle_queue (uv__handle_start a L) = handle_queue L"
  "closing_handles (uv__handle_start a L) = closing_handles L"
  "htype (handles (uv__handle_start a L) b) = htype (handles L b)"
  "next_closing (handles (uv__handle_start a L) b) = next_closing (handles L b)"
  "hloop.more (uv__handle_start a L) = hloop.more L"
  by (auto simp: handle_ops_defs uv__is_active_def uv__has_ref_def uv__is_closing_def)

lemma handle_stop_sel [simp]:
  "uv__is_active (uv__handle_stop a L) b \<longleftrightarrow> b \<noteq> a \<and> uv__is_active L b"
  "uv__has_ref (uv__handle_stop a L) b \<longleftrightarrow> uv__has_ref L b"
  "uv__is_closing (uv__handle_stop a L) b \<longleftrightarrow> uv__is_closing L b"
  "handle_queue (uv__handle_stop a L) = handle_queue L"
  "closing_handles (uv__handle_stop a L) = closing_handles L"
  "htype (handles (uv__handle_stop a L) b) = htype (handles L b)"
  "next_closing (handles (uv__handle_stop a L) b) = next_closing (handles L b)"
  "hloop.more (uv__handle_stop a L) = hloop.more L"
  by (auto simp: handle_ops_defs uv__is_active_def uv__has_ref_def uv__is_closing_def)

lemma handle_ref_sel [simp]:
  "uv__is_active (uv__handle_ref a L) b \<longleftrightarrow> uv__is_active L b"
  "uv__has_ref (uv__handle_ref a L) b \<longleftrightarrow> b = a \<or> uv__has_ref L b"
  "handle_queue (uv__handle_ref a L) = handle_queue L"
  by (auto simp: handle_ops_defs uv__is_active_def uv__has_ref_def)

lemma handle_unref_sel [simp]:
  "uv__is_active (uv__handle_unref a L) b \<longleftrightarrow> uv__is_active L b"
  "uv__has_ref (uv__handle_unref a L) b \<longleftrightarrow> b \<noteq> a \<and> uv__has_ref L b"
  "uv__is_closing (uv__handle_unref a L) b \<longleftrightarrow> uv__is_closing L b"
  "handle_queue (uv__handle_unref a L) = handle_queue L"
  "closing_handles (uv__handle_unref a L) = closing_handles L"
  "htype (handles (uv__handle_unref a L) b) = htype (handles L b)"
  "next_closing (handles (uv__handle_unref a L) b) = next_closing (handles L b)"
  "hloop.more (uv__handle_unref a L) = hloop.more L"
  by (auto simp: handle_ops_defs uv__is_active_def uv__has_ref_def uv__is_closing_def)

lemma closing_flags_ops [simp]:
  "has_flag (hflags (uv__handle_start a L) b) UV_CLOSING = has_flag (hflags L b) UV_CLOSING"
  "has_flag (hflags (uv__handle_start a L) b) UV_CLOSED = has_flag (hflags L b) UV_CLOSED"
  "has_flag (hflags (uv__handle_stop a L) b) UV_CLOSING = has_flag (hflags L b) UV_CLOSING"
  "has_flag (hflags (uv__handle_stop a L) b) UV_CLOSED = has_flag (hflags L b) UV_CLOSED"
  "has_flag (hflags (uv__handle_unref a L) b) UV_CLOSING = has_flag (hflags L b) UV_CLOSING"
  "has_flag (hflags (uv__handle_unref a L) b) UV_CLOSED = has_flag (hflags L b) UV_CLOSED"
  by (auto simp: handle_ops_defs)

text \<open>What most operations leave alone: the handles of the loop, their types, and everything about those
  that are being closed.\<close>

definition same_closing :: "'a hloop_scheme \<Rightarrow> 'a hloop_scheme \<Rightarrow> bool" where
  "same_closing L L' \<longleftrightarrow> handle_queue L' = handle_queue L \<and> closing_handles L' = closing_handles L \<and>
     (\<forall>b. htype (handles L' b) = htype (handles L b) \<and> next_closing (handles L' b) = next_closing (handles L b) \<and>
        has_flag (hflags L' b) UV_CLOSING = has_flag (hflags L b) UV_CLOSING \<and>
        has_flag (hflags L' b) UV_CLOSED = has_flag (hflags L b) UV_CLOSED)"

lemma same_closing_refl [simp]: "same_closing L L"
  by (simp add: same_closing_def)

lemma same_closing_trans: "same_closing L M \<Longrightarrow> same_closing M N \<Longrightarrow> same_closing L N"
  by (simp add: same_closing_def)

section \<open>The count of active handles\<close>

text \<open>The handles the loop waits for: active and referenced.\<close>

definition live_handles :: "'a hloop_scheme \<Rightarrow> addr set" where
  "live_handles L = {a \<in> set (handle_queue L). uv__is_active L a \<and> uv__has_ref L a}"

definition handle_inv :: "'a hloop_scheme \<Rightarrow> bool" where
  "handle_inv L \<longleftrightarrow> distinct (handle_queue L) \<and> length (handle_queue L) < 2 ^ 32 \<and>
     unat (active_handles L) = card (live_handles L)"

lemma finite_live [simp]: "finite (live_handles L)"
  by (simp add: live_handles_def)

lemma live_handles_bound: "handle_inv L \<Longrightarrow> card (live_handles L) < 2 ^ 32"
  by (metis (no_types, lifting) handle_inv_def live_handles_def List.finite_set card_length
      card_mono le_less_trans mem_Collect_eq subsetI)

text \<open>All four operations turn one of the two bits of one handle on or off, and count it in or
  out when the other bit is set.\<close>

lemma count_in:
  assumes "unat n = card (A :: addr set)" "finite A" "a \<notin> A" "card (insert a A) < 2 ^ 32"
  shows "unat (n + 1 :: u32) = card (insert a A)"
  using assms by (subst unat_inc) auto

lemma count_out:
  assumes "unat n = card (A :: addr set)" "finite A" "a \<in> A"
  shows "unat (n - 1 :: u32) = card (A - {a})"
proof -
  have "0 < card A" using assms card_gt_0_iff by blast
  then show ?thesis using assms by (simp add: unat_dec)
qed

lemma live_subset_card: "set (handle_queue L) = S \<Longrightarrow> handle_inv L \<Longrightarrow> A \<subseteq> S \<Longrightarrow> card A < 2 ^ 32"
  by (metis handle_inv_def List.finite_set card_length card_mono le_less_trans)

lemma handle_start_live:
  "live_handles (uv__handle_start a L) =
     (if a \<in> set (handle_queue L) \<and> uv__has_ref L a then insert a (live_handles L) else live_handles L)"
  by (auto simp: live_handles_def)

lemma handle_stop_live: "live_handles (uv__handle_stop a L) = live_handles L - {a}"
  by (auto simp: live_handles_def)

lemma handle_ref_live:
  "live_handles (uv__handle_ref a L) =
     (if a \<in> set (handle_queue L) \<and> uv__is_active L a then insert a (live_handles L) else live_handles L)"
  by (auto simp: live_handles_def)

lemma handle_unref_live: "live_handles (uv__handle_unref a L) = live_handles L - {a}"
  by (auto simp: live_handles_def)

lemma active_handles_ops:
  "active_handles (uv__handle_start a L) =
     (if \<not> uv__is_active L a \<and> uv__has_ref L a then active_handles L + 1 else active_handles L)"
  "active_handles (uv__handle_stop a L) =
     (if uv__is_active L a \<and> uv__has_ref L a then active_handles L - 1 else active_handles L)"
  "active_handles (uv__handle_ref a L) =
     (if \<not> uv__has_ref L a \<and> uv__is_active L a then active_handles L + 1 else active_handles L)"
  "active_handles (uv__handle_unref a L) =
     (if uv__has_ref L a \<and> uv__is_active L a then active_handles L - 1 else active_handles L)"
  by (auto simp: handle_ops_defs uv__is_active_def uv__has_ref_def)

lemma live_iff: "a \<in> set (handle_queue L) \<Longrightarrow> a \<in> live_handles L \<longleftrightarrow> uv__is_active L a \<and> uv__has_ref L a"
  by (simp add: live_handles_def)

lemma handle_start_inv:
  assumes inv: "handle_inv L" and a: "a \<in> set (handle_queue L)"
  shows "handle_inv (uv__handle_start a L)"
proof -
  have "card (insert a (live_handles L)) < 2 ^ 32"
    using a by (intro live_subset_card [OF refl inv]) (auto simp: live_handles_def)
  then show ?thesis
    using inv a count_in [of "active_handles L" "live_handles L" a]
    by (auto simp: handle_inv_def handle_start_live active_handles_ops live_iff insert_absorb)
qed

lemma handle_ref_inv:
  assumes inv: "handle_inv L" and a: "a \<in> set (handle_queue L)"
  shows "handle_inv (uv__handle_ref a L)"
proof -
  have "card (insert a (live_handles L)) < 2 ^ 32"
    using a by (intro live_subset_card [OF refl inv]) (auto simp: live_handles_def)
  then show ?thesis
    using inv a count_in [of "active_handles L" "live_handles L" a]
    by (auto simp: handle_inv_def handle_ref_live active_handles_ops live_iff insert_absorb)
qed

lemma handle_stop_inv:
  assumes inv: "handle_inv L" and a: "a \<in> set (handle_queue L)"
  shows "handle_inv (uv__handle_stop a L)"
  using inv a count_out [of "active_handles L" "live_handles L" a]
  by (auto simp: handle_inv_def handle_stop_live active_handles_ops live_iff)

lemma handle_unref_inv:
  assumes inv: "handle_inv L" and a: "a \<in> set (handle_queue L)"
  shows "handle_inv (uv__handle_unref a L)"
  using inv a count_out [of "active_handles L" "live_handles L" a]
  by (auto simp: handle_inv_def handle_unref_live active_handles_ops live_iff)

lemma handle_init_sel [simp]:
  "uv__is_active (uv__handle_init a t L) b \<longleftrightarrow> b \<noteq> a \<and> uv__is_active L b"
  "uv__has_ref (uv__handle_init a t L) b \<longleftrightarrow> b = a \<or> uv__has_ref L b"
  "uv__is_closing (uv__handle_init a t L) b \<longleftrightarrow> b \<noteq> a \<and> uv__is_closing L b"
  "handle_queue (uv__handle_init a t L) = handle_queue L @ [a]"
  "active_handles (uv__handle_init a t L) = active_handles L"
  "closing_handles (uv__handle_init a t L) = closing_handles L"
  "htype (handles (uv__handle_init a t L) b) = (if b = a then t else htype (handles L b))"
  "hloop.more (uv__handle_init a t L) = hloop.more L"
  by (auto simp: uv__handle_init_def uv__is_active_def uv__has_ref_def uv__is_closing_def hflags_def)

lemma handle_init_inv:
  assumes "handle_inv L" "a \<notin> set (handle_queue L)" "length (handle_queue L) + 1 < 2 ^ 32"
  shows "handle_inv (uv__handle_init a t L)"
proof -
  have "live_handles (uv__handle_init a t L) = live_handles L"
    using assms(2) by (auto simp: live_handles_def)
  then show ?thesis using assms by (simp add: handle_inv_def)
qed

lemma has_active_handles_iff:
  assumes "handle_inv L"
  shows "uv__has_active_handles L \<longleftrightarrow> live_handles L \<noteq> {}"
  using assms by (auto simp: uv__has_active_handles_def handle_inv_def word32_gt0 card_gt_0_iff)

text \<open>C23: the loop's \<open>active_handles\<close> counter, which decides whether \<open>uv_run\<close> goes on, is at all
  times the number of handles of the loop that are active and referenced: each of the four
  operations keeps this, whatever the two flags were before, and the counter never wraps.\<close>

theorem active_handles_counts_live:
  assumes "handle_inv L" and "a \<in> set (handle_queue L)"
  shows "\<forall>op \<in> {uv__handle_start, uv__handle_stop, uv__handle_ref, uv__handle_unref}.
           handle_inv (op a L) \<and>
           (uv__has_active_handles (op a L) \<longleftrightarrow>
              (\<exists>b \<in> set (handle_queue L). uv__is_active (op a L) b \<and> uv__has_ref (op a L) b))"
proof -
  have "uv__has_active_handles M \<longleftrightarrow>
      (\<exists>b \<in> set (handle_queue M). uv__is_active M b \<and> uv__has_ref M b)" if "handle_inv M"
    for M :: "'a hloop_scheme"
    using has_active_handles_iff [OF that] by (auto simp: live_handles_def)
  then show ?thesis
    using handle_start_inv [OF assms] handle_stop_inv [OF assms] handle_ref_inv [OF assms]
      handle_unref_inv [OF assms] by fastforce
qed

definition sample_loop :: hloop where
  "sample_loop = \<lparr>active_handles = 1, handle_queue = [1, 2], closing_handles = None,
     handles = (\<lambda>_. \<lparr>flags = UV__HANDLE_REF, htype = UV_TIMER, next_closing = None\<rparr>)
       (2 := \<lparr>flags = 0x6000, htype = UV_IDLE, next_closing = None\<rparr>)\<rparr>"

lemma sample_loop_inv: "handle_inv sample_loop"
proof -
  have "live_handles sample_loop = {2}"
    by (auto simp: live_handles_def sample_loop_def uv__is_active_def uv__has_ref_def hflags_def)
  then show ?thesis by (simp add: handle_inv_def sample_loop_def)
qed

theorem active_handles_counts_live_witness:
  "handle_inv (uv__handle_start 1 sample_loop) \<and> active_handles (uv__handle_start 1 sample_loop) = 2"
  using active_handles_counts_live [OF sample_loop_inv, of 1]
  by (simp add: active_handles_ops sample_loop_def uv__is_active_def uv__has_ref_def hflags_def)

end
