(* ===== verification/Timer.thy ===== *)
theory Timer
  imports Handle HeapOrder
begin

text \<open>
  Timers: \<open>src/src/libuv/src/unix/timer.c\<close>.  A loop with timers extends the loop of
  \<open>Handle\<close> with the cached time, the counter that numbers the starts, the heap of active
  timers and the memory of the timers' own fields.  A timer, its handle and its heap node
  are one object, so they share one address.

  A callback is an identifier; what it does is a parameter of \<open>uv__run_timers\<close>.
\<close>

section \<open>Data\<close>

record uv_timer =
  timer_cb :: "nat option"
  timeout :: u64
  repeat :: u64
  start_id :: u64

record tloop = hloop +
  time :: u64
  timer_counter :: u64
  timer_heap :: heap
  timers :: "addr \<Rightarrow> uv_timer"

abbreviation UV_EINVAL :: int where "UV_EINVAL \<equiv> - 22"
abbreviation INT_MAX :: int where "INT_MAX \<equiv> 2147483647"

section \<open>Operations\<close>

definition timer_less_than :: "(addr \<Rightarrow> uv_timer) \<Rightarrow> addr \<Rightarrow> addr \<Rightarrow> bool" where
  "timer_less_than tm a b =
     (if timeout (tm a) < timeout (tm b) then True
      else if timeout (tm b) < timeout (tm a) then False
      else if start_id (tm a) < start_id (tm b) then True
      else if start_id (tm b) < start_id (tm a) then False
      else False)"

definition set_timer :: "addr \<Rightarrow> uv_timer \<Rightarrow> 'a tloop_scheme \<Rightarrow> 'a tloop_scheme" where
  "set_timer a t L = L\<lparr>timers := (timers L)(a := t)\<rparr>"

definition uv_timer_init :: "addr \<Rightarrow> 'a tloop_scheme \<Rightarrow> int \<times> 'a tloop_scheme" where
  "uv_timer_init a L =
     (let L1 = uv__handle_init a UV_TIMER L
      in (0, set_timer a ((timers L1 a)\<lparr>timer_cb := None, repeat := 0\<rparr>) L1))"

definition uv_timer_stop :: "addr \<Rightarrow> 'a tloop_scheme \<Rightarrow> (int \<times> 'a tloop_scheme) option" where
  "uv_timer_stop a L =
     (if \<not> uv__is_active L a then Some (0, L)
      else case heap_remove (timer_less_than (timers L)) a (timer_heap L) of
             None \<Rightarrow> None
           | Some h \<Rightarrow> Some (0, uv__handle_stop a (L\<lparr>timer_heap := h\<rparr>)))"

definition clamped_timeout :: "u64 \<Rightarrow> u64 \<Rightarrow> u64" where
  "clamped_timeout now t = (if now + t < t then - 1 else now + t)"

definition uv_timer_start ::
  "addr \<Rightarrow> nat option \<Rightarrow> u64 \<Rightarrow> u64 \<Rightarrow> 'a tloop_scheme \<Rightarrow> (int \<times> 'a tloop_scheme) option" where
  "uv_timer_start a cb t rep L =
     (if cb = None then Some (UV_EINVAL, L)
      else case (if uv__is_active L a then uv_timer_stop a L else Some (0, L)) of
             None \<Rightarrow> None
           | Some (_, L1) \<Rightarrow>
               let L2 = set_timer a \<lparr>timer_cb = cb, timeout = clamped_timeout (time L1) t,
                                     repeat = rep, start_id = timer_counter L1\<rparr> L1;
                   L3 = L2\<lparr>timer_counter := timer_counter L2 + 1\<rparr>
               in case heap_insert (timer_less_than (timers L3)) a (timer_heap L3) of
                    None \<Rightarrow> None
                  | Some h \<Rightarrow> Some (0, uv__handle_start a (L3\<lparr>timer_heap := h\<rparr>)))"

definition uv_timer_again :: "addr \<Rightarrow> 'a tloop_scheme \<Rightarrow> (int \<times> 'a tloop_scheme) option" where
  "uv_timer_again a L =
     (if timer_cb (timers L a) = None then Some (UV_EINVAL, L)
      else if repeat (timers L a) \<noteq> 0 then
        (case uv_timer_stop a L of
           None \<Rightarrow> None
         | Some (_, L1) \<Rightarrow>
             (case uv_timer_start a (timer_cb (timers L1 a)) (repeat (timers L1 a))
                     (repeat (timers L1 a)) L1 of
                None \<Rightarrow> None | Some (_, L2) \<Rightarrow> Some (0, L2)))
      else Some (0, L))"

definition uv_timer_set_repeat :: "addr \<Rightarrow> u64 \<Rightarrow> 'a tloop_scheme \<Rightarrow> 'a tloop_scheme" where
  "uv_timer_set_repeat a rep L = set_timer a ((timers L a)\<lparr>repeat := rep\<rparr>) L"

definition uv_timer_get_repeat :: "addr \<Rightarrow> 'a tloop_scheme \<Rightarrow> u64" where
  "uv_timer_get_repeat a L = repeat (timers L a)"

definition uv__next_timeout :: "'a tloop_scheme \<Rightarrow> int" where
  "uv__next_timeout L =
     (case heap_min (timer_heap L) of
        None \<Rightarrow> - 1
      | Some a \<Rightarrow>
          if timeout (timers L a) \<le> time L then 0
          else let diff = timeout (timers L a) - time L;
                   diff = (if uint diff > INT_MAX then word_of_int INT_MAX else diff)
               in uint diff)"

text \<open>The loop of \<open>uv__run_timers\<close> need not end (a callback may always start a timer that is
  due), so it is partial.  Calling a NULL callback is a fault, the value \<open>None\<close> as well.\<close>

partial_function (option) uv__run_timers ::
  "(nat \<Rightarrow> addr \<Rightarrow> 'a tloop_scheme \<Rightarrow> 'a tloop_scheme option) \<Rightarrow>
   'a tloop_scheme \<Rightarrow> 'a tloop_scheme option" where
  "uv__run_timers call L =
     (case heap_min (timer_heap L) of
        None \<Rightarrow> Some L
      | Some a \<Rightarrow>
          if time L < timeout (timers L a) then Some L
          else
            Option.bind (uv_timer_stop a L) (\<lambda>(_, L1).
            Option.bind (uv_timer_again a L1) (\<lambda>(_, L2).
            Option.bind (timer_cb (timers L2 a)) (\<lambda>cb.
            Option.bind (call cb a L2) (\<lambda>L3.
            uv__run_timers call L3)))))"

definition uv__timer_close :: "addr \<Rightarrow> 'a tloop_scheme \<Rightarrow> 'a tloop_scheme option" where
  "uv__timer_close a L = map_option snd (uv_timer_stop a L)"

section \<open>The comparison is a strict weak order\<close>

lemma timer_less_than_iff:
  "timer_less_than tm a b \<longleftrightarrow>
     timeout (tm a) < timeout (tm b) \<or>
     (timeout (tm a) = timeout (tm b) \<and> start_id (tm a) < start_id (tm b))"
  by (auto simp: timer_less_than_def)

interpretation timer_lt: heap_order "timer_less_than tm" for tm
proof
  show "timer_less_than tm a b \<Longrightarrow> \<not> timer_less_than tm b a" for a b
    unfolding timer_less_than_iff by auto
  show "\<not> timer_less_than tm b a \<Longrightarrow> \<not> timer_less_than tm c b \<Longrightarrow> \<not> timer_less_than tm c a" for a b c
    unfolding timer_less_than_iff by auto
qed

lemmas timer_order = timer_lt.heap_order_axioms

section \<open>What the operations do to each field\<close>

lemma tloop_upd_flags [simp]:
  "uv__is_active (L\<lparr>timer_heap := h\<rparr>) b = uv__is_active L b"
  "uv__has_ref (L\<lparr>timer_heap := h\<rparr>) b = uv__has_ref L b"
  "uv__is_closing (L\<lparr>timer_heap := h\<rparr>) b = uv__is_closing L b"
  "uv__is_active (L\<lparr>timer_counter := n\<rparr>) b = uv__is_active L b"
  "uv__has_ref (L\<lparr>timer_counter := n\<rparr>) b = uv__has_ref L b"
  "uv__is_closing (L\<lparr>timer_counter := n\<rparr>) b = uv__is_closing L b"
  by (simp_all add: uv__is_active_def uv__has_ref_def uv__is_closing_def hflags_def)

lemma set_timer_sel [simp]:
  "uv__is_active (set_timer a t L) b = uv__is_active L b"
  "uv__has_ref (set_timer a t L) b = uv__has_ref L b"
  "uv__is_closing (set_timer a t L) b = uv__is_closing L b"
  "handle_queue (set_timer a t L) = handle_queue L"
  "active_handles (set_timer a t L) = active_handles L"
  "handles (set_timer a t L) = handles L"
  "time (set_timer a t L) = time L"
  "timer_counter (set_timer a t L) = timer_counter L"
  "timer_heap (set_timer a t L) = timer_heap L"
  "timers (set_timer a t L) = (timers L)(a := t)"
  "closing_handles (set_timer a t L) = closing_handles L"
  "hflags (set_timer a t L) = hflags L"
  "tloop.more (set_timer a t L) = tloop.more L"
  by (simp_all add: set_timer_def uv__is_active_def uv__has_ref_def uv__is_closing_def hflags_def fun_eq_iff)

lemma tloop_upd_hflags [simp]:
  "hflags (L\<lparr>timer_heap := h\<rparr>) = hflags L" "hflags (L\<lparr>timer_counter := n\<rparr>) = hflags L"
  by (simp_all add: hflags_def fun_eq_iff)

lemma tloop_handle_ops [simp]:
  "time (uv__handle_start a L) = time L" "time (uv__handle_stop a L) = time L"
  "timer_counter (uv__handle_start a L) = timer_counter L"
  "timer_counter (uv__handle_stop a L) = timer_counter L"
  "timer_heap (uv__handle_start a L) = timer_heap L" "timer_heap (uv__handle_stop a L) = timer_heap L"
  "timers (uv__handle_start a L) = timers L" "timers (uv__handle_stop a L) = timers L"
  "tloop.more (uv__handle_start a L) = tloop.more L" "tloop.more (uv__handle_stop a L) = tloop.more L"
  by (simp_all add: handle_ops_defs set_flags_def)

lemma tloop_handle_init [simp]:
  "time (uv__handle_init a t L) = time L"
  "timer_counter (uv__handle_init a t L) = timer_counter L"
  "timer_heap (uv__handle_init a t L) = timer_heap L"
  "timers (uv__handle_init a t L) = timers L"
  by (simp_all add: uv__handle_init_def)

section \<open>The invariant\<close>

text \<open>The timers of the loop that are active: those of the heap.\<close>

definition timer_nodes :: "'a tloop_scheme \<Rightarrow> addr set" where
  "timer_nodes L = {a \<in> set (handle_queue L). htype (handles L a) = UV_TIMER \<and> uv__is_active L a}"

definition timer_inv :: "'a tloop_scheme \<Rightarrow> bool" where
  "timer_inv L \<longleftrightarrow> handle_inv L \<and>
     heap_inv (timer_less_than (timers L)) (timer_heap L) (timer_nodes L) \<and>
     (\<forall>a \<in> timer_nodes L. timer_cb (timers L a) \<noteq> None)"

definition is_timer :: "'a tloop_scheme \<Rightarrow> addr \<Rightarrow> bool" where
  "is_timer L a \<longleftrightarrow> a \<in> set (handle_queue L) \<and> htype (handles L a) = UV_TIMER"

lemma timer_inv_handle [simp]: "timer_inv L \<Longrightarrow> handle_inv L"
  by (simp add: timer_inv_def)

lemma timer_inv_heap:
  "timer_inv L \<Longrightarrow> heap_inv (timer_less_than (timers L)) (timer_heap L) (timer_nodes L)"
  by (simp add: timer_inv_def)

lemma timer_nodes_iff: "a \<in> timer_nodes L \<longleftrightarrow> is_timer L a \<and> uv__is_active L a"
  by (auto simp: timer_nodes_def is_timer_def)

lemma timer_nodes_finite [simp]: "finite (timer_nodes L)"
  by (simp add: timer_nodes_def)

lemma timer_nodes_bound:
  assumes "timer_inv L" "is_timer L a"
  shows "card (insert a (timer_nodes L)) < 2 ^ 32"
  using assms by (intro live_subset_card [OF refl timer_inv_handle]) (auto simp: timer_nodes_iff is_timer_def)

lemma handle_inv_tloop_upd [simp]:
  "handle_inv (L\<lparr>timer_heap := h\<rparr>) = handle_inv L"
  "handle_inv (L\<lparr>timer_counter := n\<rparr>) = handle_inv L"
  "handle_inv (set_timer a t L) = handle_inv L"
  by (simp_all add: handle_inv_def live_handles_def)

section \<open>Stopping and starting\<close>

text \<open>All of a loop's timer part that an operation on timer \<open>a\<close> leaves alone.\<close>

definition timer_frame :: "addr \<Rightarrow> 'a tloop_scheme \<Rightarrow> 'a tloop_scheme \<Rightarrow> bool" where
  "timer_frame a L L' \<longleftrightarrow>
     same_closing L L' \<and> handle_queue L' = handle_queue L \<and> time L' = time L \<and> tloop.more L' = tloop.more L \<and>
     (\<forall>b. htype (handles L' b) = htype (handles L b) \<and> uv__has_ref L' b = uv__has_ref L b \<and>
          uv__is_closing L' b = uv__is_closing L b) \<and>
     (\<forall>b. b \<noteq> a \<longrightarrow> timers L' b = timers L b \<and> uv__is_active L' b = uv__is_active L b)"

lemma timer_frame_refl [simp]: "timer_frame a L L"
  by (simp add: timer_frame_def)

lemma timer_frame_trans: "timer_frame a L L1 \<Longrightarrow> timer_frame a L1 L2 \<Longrightarrow> timer_frame a L L2"
  by (auto simp: timer_frame_def intro: same_closing_trans)

lemma timer_frame_is_timer: "timer_frame a L L' \<Longrightarrow> is_timer L' b = is_timer L b"
  by (simp add: timer_frame_def is_timer_def)

lemma timer_stop_ok:
  assumes inv: "timer_inv L" and a: "is_timer L a"
  shows "\<exists>L'. uv_timer_stop a L = Some (0, L') \<and> timer_inv L' \<and> \<not> uv__is_active L' a \<and>
           timer_nodes L' = timer_nodes L - {a} \<and> timers L' = timers L \<and>
           timer_counter L' = timer_counter L \<and> timer_frame a L L'"
proof (cases "uv__is_active L a")
  case False
  then show ?thesis using inv by (auto simp: uv_timer_stop_def timer_nodes_iff)
next
  case True
  have mem: "a \<in> timer_nodes L" using a True by (simp add: timer_nodes_iff)
  obtain h where h: "heap_remove (timer_less_than (timers L)) a (timer_heap L) = Some h"
      "heap_inv (timer_less_than (timers L)) h (timer_nodes L - {a})"
    using heap_pq.remove_law [OF timer_order timer_inv_heap [OF inv] mem] by blast
  let ?L = "uv__handle_stop a (L\<lparr>timer_heap := h\<rparr>)"
  have nodes: "timer_nodes ?L = timer_nodes L - {a}" by (auto simp: timer_nodes_def)
  have "handle_inv ?L"
    using inv a by (intro handle_stop_inv) (simp_all add: is_timer_def)
  then have "timer_inv ?L" using h(2) inv by (simp add: timer_inv_def nodes)
  moreover have "timer_frame a L ?L" by (simp add: timer_frame_def same_closing_def)
  ultimately show ?thesis using True h(1) nodes by (simp add: uv_timer_stop_def)
qed

lemma timer_less_than_cong:
  "tm' x = tm x \<Longrightarrow> tm' y = tm y \<Longrightarrow> timer_less_than tm' x y = timer_less_than tm x y"
  by (simp add: timer_less_than_def)

text \<open>Starting a timer that is not active.\<close>

lemma timer_start_inactive:
  assumes inv: "timer_inv L" and a: "is_timer L a" and na: "\<not> uv__is_active L a"
  shows "\<exists>L'. uv_timer_start a (Some cb) t rep L = Some (0, L') \<and> timer_inv L' \<and>
           timer_nodes L' = insert a (timer_nodes L) \<and>
           timers L' a = \<lparr>timer_cb = Some cb, timeout = clamped_timeout (time L) t, repeat = rep,
                          start_id = timer_counter L\<rparr> \<and>
           timer_counter L' = timer_counter L + 1 \<and> timer_frame a L L'"
proof -
  define tm where "tm = (timers L)(a := \<lparr>timer_cb = Some cb, timeout = clamped_timeout (time L) t,
                                     repeat = rep, start_id = timer_counter L\<rparr>)"
  have nin: "a \<notin> timer_nodes L" using na by (simp add: timer_nodes_iff)
  then have c: "card (timer_nodes L) + 1 < 2 ^ 32" using timer_nodes_bound [OF inv a] by simp
  have eq: "timer_less_than tm y z = timer_less_than (timers L) y z"
    if "y \<in> timer_nodes L" "z \<in> timer_nodes L" for y z
    using that nin by (intro timer_less_than_cong) (auto simp: tm_def)
  obtain h where h: "heap_insert (timer_less_than tm) a (timer_heap L) = Some h"
      "heap_inv (timer_less_than tm) h (insert a (timer_nodes L))"
    using heap_pq.insert_rekeyed [OF timer_inv_heap [OF inv] nin timer_order c eq] by blast
  define L3 where "L3 = (set_timer a (tm a) L)\<lparr>timer_counter := timer_counter L + 1, timer_heap := h\<rparr>"
  let ?L = "uv__handle_start a L3"
  have L3: "timers L3 = tm" "handle_queue L3 = handle_queue L" "time L3 = time L"
    "handles L3 = handles L" "tloop.more L3 = tloop.more L"
    "\<And>b. uv__is_active L3 b = uv__is_active L b" "\<And>b. uv__has_ref L3 b = uv__has_ref L b"
    "\<And>b. uv__is_closing L3 b = uv__is_closing L b"
    "closing_handles L3 = closing_handles L" "hflags L3 = hflags L"
    "timer_heap L3 = h" "timer_counter L3 = timer_counter L + 1" "handle_inv L3 = handle_inv L"
    by (simp_all add: L3_def tm_def)
  have nodes: "timer_nodes ?L = insert a (timer_nodes L)"
    using a by (auto simp: timer_nodes_def L3 is_timer_def)
  have hi: "handle_inv ?L" using inv a by (intro handle_start_inv) (simp_all add: is_timer_def L3)
  have cbs: "\<forall>b \<in> insert a (timer_nodes L). timer_cb (tm b) \<noteq> None"
    using inv by (simp add: timer_inv_def tm_def)
  have "timer_inv ?L"
    unfolding timer_inv_def nodes tloop_handle_ops L3 using hi h(2) cbs by (simp only: simp_thms)
  moreover have "timer_frame a L ?L" by (simp add: timer_frame_def same_closing_def L3 tm_def)
  moreover have "uv_timer_start a (Some cb) t rep L = Some (0, ?L)"
    using na h(1) by (simp add: uv_timer_start_def Let_def L3_def tm_def)
  ultimately show ?thesis using nodes by (simp add: L3 tm_def)
qed

lemma timer_start_ok:
  assumes inv: "timer_inv L" and a: "is_timer L a"
  shows "\<exists>L'. uv_timer_start a (Some cb) t rep L = Some (0, L') \<and> timer_inv L' \<and>
           timer_nodes L' = insert a (timer_nodes L) \<and>
           timers L' a = \<lparr>timer_cb = Some cb, timeout = clamped_timeout (time L) t, repeat = rep,
                          start_id = timer_counter L\<rparr> \<and>
           timer_counter L' = timer_counter L + 1 \<and> timer_frame a L L'"
proof (cases "uv__is_active L a")
  case False
  then show ?thesis using timer_start_inactive [OF assms] by blast
next
  case True
  obtain L1 where L1: "uv_timer_stop a L = Some (0, L1)" "timer_inv L1" "\<not> uv__is_active L1 a"
      "timer_nodes L1 = timer_nodes L - {a}" "timer_counter L1 = timer_counter L" "timer_frame a L L1"
    using timer_stop_ok [OF assms] by blast
  have time: "time L1 = time L" using L1(6) by (simp add: timer_frame_def)
  have t1: "is_timer L1 a" using a timer_frame_is_timer [OF L1(6)] by simp
  have "uv_timer_start a (Some cb) t rep L = uv_timer_start a (Some cb) t rep L1"
    using True L1(1,3) by (simp add: uv_timer_start_def)
  moreover obtain L2 where L2: "uv_timer_start a (Some cb) t rep L1 = Some (0, L2)" "timer_inv L2"
      "timer_nodes L2 = insert a (timer_nodes L1)"
      "timers L2 a = \<lparr>timer_cb = Some cb, timeout = clamped_timeout (time L1) t, repeat = rep,
                          start_id = timer_counter L1\<rparr>"
      "timer_counter L2 = timer_counter L1 + 1" "timer_frame a L1 L2"
    using timer_start_inactive [OF L1(2) t1 L1(3), of cb t rep] by blast
  ultimately show ?thesis
    using L1(4,5) time timer_frame_trans [OF L1(6) L2(6)]
    by (intro exI [of _ L2]) simp
qed


lemma timer_again_ok:
  assumes inv: "timer_inv L" and a: "is_timer L a"
  shows "\<exists>r L'. uv_timer_again a L = Some (r, L') \<and> timer_inv L' \<and> timer_frame a L L' \<and>
           timer_cb (timers L' a) = timer_cb (timers L a) \<and>
           (if timer_cb (timers L a) \<noteq> None \<and> repeat (timers L a) \<noteq> 0
            then r = 0 \<and> timer_nodes L' = insert a (timer_nodes L) \<and>
                 timeout (timers L' a) = clamped_timeout (time L) (repeat (timers L a)) \<and>
                 repeat (timers L' a) = repeat (timers L a) \<and> start_id (timers L' a) = timer_counter L
            else L' = L \<and> r = (if timer_cb (timers L a) = None then UV_EINVAL else 0))"
proof (cases "timer_cb (timers L a) \<noteq> None \<and> repeat (timers L a) \<noteq> 0")
  case False
  then show ?thesis using inv by (auto simp: uv_timer_again_def)
next
  case True
  then obtain cb where cb: "timer_cb (timers L a) = Some cb" and rep: "repeat (timers L a) \<noteq> 0" by auto
  obtain L1 where L1: "uv_timer_stop a L = Some (0, L1)" "timer_inv L1"
      "timer_nodes L1 = timer_nodes L - {a}" "timers L1 = timers L"
      "timer_counter L1 = timer_counter L" "timer_frame a L L1"
    using timer_stop_ok [OF assms] by blast
  have time: "time L1 = time L" using L1(6) by (simp add: timer_frame_def)
  have t1: "is_timer L1 a" using a timer_frame_is_timer [OF L1(6)] by simp
  obtain L2 where L2: "uv_timer_start a (Some cb) (repeat (timers L a)) (repeat (timers L a)) L1 = Some (0, L2)"
      "timer_inv L2" "timer_nodes L2 = insert a (timer_nodes L1)"
      "timers L2 a = \<lparr>timer_cb = Some cb, timeout = clamped_timeout (time L1) (repeat (timers L a)),
                     repeat = repeat (timers L a), start_id = timer_counter L1\<rparr>" "timer_frame a L1 L2"
    using timer_start_ok [OF L1(2) t1, of cb "repeat (timers L a)" "repeat (timers L a)"] by blast
  have "uv_timer_again a L = Some (0, L2)"
    using cb rep L1(1,4) L2(1) by (simp add: uv_timer_again_def)
  then show ?thesis
    using cb rep L1(3,5) L2 time timer_frame_trans [OF L1(6) L2(5)] by auto
qed

section \<open>Running the timers that are due\<close>

definition due_timers :: "'a tloop_scheme \<Rightarrow> addr set" where
  "due_timers L = {a \<in> timer_nodes L. timeout (timers L a) \<le> time L}"

lemma finite_due [simp]: "finite (due_timers L)"
  by (simp add: due_timers_def)

lemma clamped_timeout_gt:
  assumes "now \<noteq> - 1" "t \<noteq> 0"
  shows "now < clamped_timeout now t"
proof (cases "now + t < t")
  case True
  then show ?thesis using assms by (simp add: clamped_timeout_def word_order.not_eq_extremum)
next
  case False
  then have "now \<le> now + t" using word_le_plus_either [of now now t] by (metis add.commute no_olen_add not_less)
  then show ?thesis using False assms by (simp add: clamped_timeout_def order_less_le)
qed

lemma timer_heap_min:
  assumes "timer_inv L"
  shows "case heap_min (timer_heap L) of None \<Rightarrow> timer_nodes L = {}
    | Some m \<Rightarrow> m \<in> timer_nodes L \<and> (\<forall>y \<in> timer_nodes L. \<not> timer_less_than (timers L) y m)"
  by (rule heap_pq.min_law [OF timer_order timer_inv_heap [OF assms]])

lemma timer_min_none:
  "timer_inv L \<Longrightarrow> heap_min (timer_heap L) = None \<Longrightarrow> timer_nodes L = {}"
  using timer_heap_min [of L] by simp

lemma timer_min_some:
  "timer_inv L \<Longrightarrow> heap_min (timer_heap L) = Some m \<Longrightarrow>
     m \<in> timer_nodes L \<and> (\<forall>y \<in> timer_nodes L. \<not> timer_less_than (timers L) y m)"
  using timer_heap_min [of L] by simp

lemma timer_min_timeout:
  assumes "timer_inv L" "heap_min (timer_heap L) = Some m" "y \<in> timer_nodes L"
  shows "timeout (timers L m) \<le> timeout (timers L y)"
  using timer_min_some [OF assms(1,2)] assms(3) by (auto simp: timer_less_than_iff)

text \<open>One round of the loop, up to the call of the callback.\<close>

lemma run_timers_round:
  assumes inv: "timer_inv L" and m: "a \<in> due_timers L" and t: "time L \<noteq> - 1"
  shows "\<exists>r L1 L2 cb. uv_timer_stop a L = Some (0, L1) \<and> uv_timer_again a L1 = Some (r, L2) \<and>
           timer_cb (timers L2 a) = Some cb \<and> timer_cb (timers L a) = Some cb \<and>
           timer_inv L2 \<and> timer_frame a L L2 \<and> due_timers L2 = due_timers L - {a} \<and>
           (if repeat (timers L a) = 0 then timer_nodes L2 = timer_nodes L - {a}
            else timer_nodes L2 = timer_nodes L \<and>
                 timeout (timers L2 a) = clamped_timeout (time L) (repeat (timers L a)))"
proof -
  have node: "a \<in> timer_nodes L" using m by (simp add: due_timers_def)
  then obtain cb where cb: "timer_cb (timers L a) = Some cb" using inv by (auto simp: timer_inv_def)
  have ta: "is_timer L a" using node by (simp add: timer_nodes_iff)
  obtain L1 where L1: "uv_timer_stop a L = Some (0, L1)" "timer_inv L1"
      "timer_nodes L1 = timer_nodes L - {a}" "timers L1 = timers L" "timer_frame a L L1"
    using timer_stop_ok [OF inv ta] by blast
  have time: "time L1 = time L" using L1(5) by (simp add: timer_frame_def)
  have t1: "is_timer L1 a" using ta timer_frame_is_timer [OF L1(5)] by simp
  obtain r L2 where L2: "uv_timer_again a L1 = Some (r, L2)" "timer_inv L2" "timer_frame a L1 L2"
      "timer_cb (timers L2 a) = timer_cb (timers L a)"
      "if repeat (timers L a) \<noteq> 0
       then timer_nodes L2 = timer_nodes L \<and> timeout (timers L2 a) = clamped_timeout (time L) (repeat (timers L a))
       else L2 = L1"
    using timer_again_ok [OF L1(2) t1] cb node L1(3,4) time by (auto simp: insert_absorb split: if_splits)
  have fr: "timer_frame a L L2" by (rule timer_frame_trans [OF L1(5) L2(3)])
  have tb: "time L2 = time L" "\<And>b. b \<noteq> a \<Longrightarrow> timers L2 b = timers L b"
    using fr by (simp_all add: timer_frame_def)
  have due: "due_timers L2 = due_timers L - {a}"
  proof (cases "repeat (timers L a) = 0")
    case True
    then show ?thesis using L2(5) L1(3,4) tb by (auto simp: due_timers_def)
  next
    case False
    then have "\<not> timeout (timers L2 a) \<le> time L" using L2(5) clamped_timeout_gt [OF t] by (simp add: not_le)
    then show ?thesis using L2(5) False tb by (auto simp: due_timers_def) (metis tb(2))+
  qed
  then show ?thesis
    using L1(1,3) L2 fr cb
    by (intro exI [of _ r] exI [of _ L1] exI [of _ L2] exI [of _ cb]) simp
qed

text \<open>The callbacks that only note their call in the part of the loop that is the user's.\<close>

definition note_timer :: "(nat \<Rightarrow> addr \<Rightarrow> 'a \<Rightarrow> 'a) \<Rightarrow> nat \<Rightarrow> addr \<Rightarrow> 'a tloop_scheme \<Rightarrow> 'a tloop_scheme option" where
  "note_timer f cb a L = Some (tloop.more_update (f cb a) L)"

definition log_call :: "nat \<Rightarrow> addr \<Rightarrow> (nat \<times> addr) list tloop_scheme \<Rightarrow> (nat \<times> addr) list tloop_scheme option" where
  "log_call cb a L = Some (tloop.more_update (\<lambda>l. l @ [(cb, a)]) L)"

lemma log_call_note: "log_call = note_timer (\<lambda>cb a l. l @ [(cb, a)])"
  by (simp add: fun_eq_iff log_call_def note_timer_def)

lemma log_call_sel [simp]:
  "time (tloop.more_update f L) = time L" "timers (tloop.more_update f L) = timers L"
  "timer_heap (tloop.more_update f L) = timer_heap L"
  "handle_queue (tloop.more_update f L) = handle_queue L"
  "active_handles (tloop.more_update f L) = active_handles L"
  "handles (tloop.more_update f L) = handles L"
  "hflags (tloop.more_update f L) = hflags L"
  by (simp_all add: hflags_def fun_eq_iff)

lemma log_call_flags [simp]:
  "uv__is_active (tloop.more_update f L) b = uv__is_active L b"
  "uv__is_closing (tloop.more_update f L) b = uv__is_closing L b"
  by (simp_all add: uv__is_active_def uv__is_closing_def)

lemma log_call_inv [simp]:
  "timer_nodes (tloop.more_update f L) = timer_nodes L"
  "due_timers (tloop.more_update f L) = due_timers L"
  "timer_inv (tloop.more_update f L) = timer_inv L"
  by (simp_all add: timer_nodes_def due_timers_def timer_inv_def handle_inv_def live_handles_def
      uv__is_active_def uv__has_ref_def)


lemma run_timers_stop:
  assumes inv: "timer_inv L" and none: "due_timers L = {}"
  shows "uv__run_timers call L = Some L"
proof (cases "heap_min (timer_heap L)")
  case None
  then show ?thesis by (simp add: uv__run_timers.simps)
next
  case (Some m)
  then have "time L < timeout (timers L m)"
    using timer_min_some [OF inv Some] none by (auto simp: due_timers_def not_le)
  then show ?thesis using Some by (subst uv__run_timers.simps) simp
qed

lemma run_timers_next:
  assumes inv: "timer_inv L" and due: "due_timers L \<noteq> {}"
  shows "\<exists>a. heap_min (timer_heap L) = Some a \<and> a \<in> due_timers L \<and>
           (\<forall>y \<in> due_timers L. \<not> timer_less_than (timers L) y a)"
proof -
  obtain y where y: "y \<in> timer_nodes L" "timeout (timers L y) \<le> time L"
    using due by (auto simp: due_timers_def)
  then obtain a where a: "heap_min (timer_heap L) = Some a"
    using timer_min_none [OF inv] by fastforce
  show ?thesis
    using timer_min_some [OF inv a] timer_min_timeout [OF inv a y(1)] y a
    by (auto simp: due_timers_def)
qed

definition fired_ok :: "(nat \<Rightarrow> addr \<Rightarrow> 'a \<Rightarrow> 'a) \<Rightarrow> 'a tloop_scheme \<Rightarrow> addr list \<Rightarrow> 'a tloop_scheme \<Rightarrow> bool" where
  "fired_ok f L as L' \<longleftrightarrow>
     tloop.more L' = fold (\<lambda>a. f (the (timer_cb (timers L a))) a) as (tloop.more L) \<and>
     same_closing L L' \<and> (\<forall>b. \<not> is_timer L b \<longrightarrow> uv__is_active L' b = uv__is_active L b) \<and>
     distinct as \<and> set as = due_timers L \<and>
     sorted_wrt (\<lambda>a b. \<not> timer_less_than (timers L) b a) as \<and>
     timer_inv L' \<and> time L' = time L \<and> due_timers L' = {} \<and>
     timer_nodes L' = timer_nodes L - {a \<in> due_timers L. repeat (timers L a) = 0}"

lemma run_timers_fired:
  assumes "timer_inv L" and "time L \<noteq> - 1"
  shows "\<exists>as L'. uv__run_timers (note_timer f) L = Some L' \<and> fired_ok f L as L'"
  using assms
proof (induction "card (due_timers L)" arbitrary: L rule: less_induct)
  case less
  note inv = less.prems(1) and t = less.prems(2)
  show ?case
  proof (cases "due_timers L = {}")
    case True
    then show ?thesis using run_timers_stop [OF inv True] inv
      by (intro exI [of _ "[]"] exI [of _ L]) (simp add: fired_ok_def)
  next
    case False
    obtain a where a: "heap_min (timer_heap L) = Some a" "a \<in> due_timers L"
        "\<forall>y \<in> due_timers L. \<not> timer_less_than (timers L) y a"
      using run_timers_next [OF inv False] by blast
    obtain r L1 L2 cb where R: "uv_timer_stop a L = Some (0, L1)" "uv_timer_again a L1 = Some (r, L2)"
        "timer_cb (timers L2 a) = Some cb" "timer_cb (timers L a) = Some cb"
        "timer_inv L2" "timer_frame a L L2" "due_timers L2 = due_timers L - {a}"
        "if repeat (timers L a) = 0 then timer_nodes L2 = timer_nodes L - {a} else timer_nodes L2 = timer_nodes L"
      using run_timers_round [OF inv a(2) t] by (metis (full_types))
    define L3 where "L3 = tloop.more_update (f cb a) L2"
    have tb: "time L2 = time L" "\<And>b. b \<noteq> a \<Longrightarrow> timers L2 b = timers L b" "tloop.more L2 = tloop.more L"
      using R(6) by (simp_all add: timer_frame_def)
    have "card (due_timers L3) < card (due_timers L)"
      using a(2) by (simp add: L3_def R(7) card_gt_0_iff False)
    then obtain as L' where IH: "uv__run_timers (note_timer f) L3 = Some L'" "fired_ok f L3 as L'"
      using less.hyps [of L3] R(5) tb(1) t by (auto simp: L3_def)
    have na: "\<And>b. b \<in> set as \<Longrightarrow> b \<noteq> a" using IH(2) R(7) by (auto simp: fired_ok_def L3_def)
    have same: "\<And>b. b \<in> set as \<Longrightarrow> timers L3 b = timers L b" using na tb(2) by (simp add: L3_def)
    have sorted: "sorted_wrt (\<lambda>a b. \<not> timer_less_than (timers L) b a) as"
    proof (rule sorted_wrt_mono_rel)
      show "sorted_wrt (\<lambda>a b. \<not> timer_less_than (timers L3) b a) as" using IH(2) by (simp add: fired_ok_def)
      show "\<not> timer_less_than (timers L) y x"
        if "x \<in> set as" "y \<in> set as" "\<not> timer_less_than (timers L3) y x" for x y
        using that same timer_less_than_cong [of "timers L3" y "timers L" x] by simp
    qed
    have nodes: "timer_nodes L' = timer_nodes L - {b \<in> due_timers L. repeat (timers L b) = 0}"
    proof -
      have "{b \<in> due_timers L3. repeat (timers L3 b) = 0} = {b \<in> due_timers L. repeat (timers L b) = 0} - {a}"
        using R(7) tb(2) by (auto simp: L3_def)
      then show ?thesis using IH(2) R(8) a(2) by (auto simp: fired_ok_def L3_def split: if_splits)
    qed
    have "uv__run_timers (note_timer f) L = Some L'"
      using a(1,2) R(1-3) IH(1)
      by (subst uv__run_timers.simps) (simp add: due_timers_def note_timer_def L3_def leD)
    moreover have "fold (\<lambda>b. f (the (timer_cb (timers L3 b))) b) as x = fold (\<lambda>b. f (the (timer_cb (timers L b))) b) as x" for x
      using same by (intro fold_cong) auto
    moreover have sc: "same_closing L L3" using R(6) by (simp add: timer_frame_def same_closing_def L3_def)
    moreover have "is_timer L a" using a(2) by (simp add: due_timers_def timer_nodes_iff)
    then have "\<forall>b. \<not> is_timer L b \<longrightarrow> uv__is_active L3 b = uv__is_active L b"
      using R(6) by (auto simp: timer_frame_def L3_def)
    moreover have "is_timer L3 b = is_timer L b" for b
      using timer_frame_is_timer [OF R(6), of b] by (simp add: L3_def is_timer_def)
    ultimately have "fired_ok f L (a # as) L'"
      using IH(2) sorted a na nodes R(4,7) tb(1,3)
      by (auto simp: fired_ok_def L3_def intro: same_closing_trans [OF sc [unfolded L3_def]])
    then show ?thesis using \<open>uv__run_timers (note_timer f) L = Some L'\<close> by blast
  qed
qed

text \<open>Whatever the callbacks do, as long as they keep the invariant.\<close>

definition keeps_timer_inv :: "(nat \<Rightarrow> addr \<Rightarrow> 'a tloop_scheme \<Rightarrow> 'a tloop_scheme option) \<Rightarrow> bool" where
  "keeps_timer_inv call \<longleftrightarrow>
     (\<forall>cb a M M'. call cb a M = Some M' \<longrightarrow> timer_inv M \<longrightarrow> time M \<noteq> - 1 \<longrightarrow>
        timer_inv M' \<and> time M' \<noteq> - 1)"

definition timers_idle :: "'a tloop_scheme \<Rightarrow> bool" where
  "timers_idle L \<longleftrightarrow> timer_inv L \<and> time L \<noteq> - 1 \<and> due_timers L = {}"

lemma run_timers_body_keeps:
  assumes keep: "keeps_timer_inv c" and inv: "timer_inv M" and tM: "time M \<noteq> - 1"
    and body: "(case heap_min (timer_heap M) of
        None \<Rightarrow> Some M
      | Some a \<Rightarrow>
          if time M < timeout (timers M a) then Some M
          else
            Option.bind (uv_timer_stop a M) (\<lambda>(_, L1).
            Option.bind (uv_timer_again a L1) (\<lambda>(_, L2).
            Option.bind (timer_cb (timers L2 a)) (\<lambda>cb.
            Option.bind (c cb a L2) rec)))) = Some M'"
  shows "timers_idle M' \<or> (\<exists>L3. timer_inv L3 \<and> time L3 \<noteq> - 1 \<and> rec L3 = Some M')"
proof (cases "due_timers M = {}")
  case True
  then have "M' = M"
    using body timer_min_some [OF inv] inv
    by (auto simp: due_timers_def not_le split: option.splits if_splits)
  then show ?thesis using inv tM True by (simp add: timers_idle_def)
next
  case False
  obtain a where a: "heap_min (timer_heap M) = Some a" "a \<in> due_timers M"
    using run_timers_next [OF inv False] by blast
  obtain r L1 L2 cb where R: "uv_timer_stop a M = Some (0, L1)" "uv_timer_again a L1 = Some (r, L2)"
      "timer_cb (timers L2 a) = Some cb" "timer_inv L2" "timer_frame a M L2"
    using run_timers_round [OF inv a(2) tM] by (metis (full_types))
  have t2: "time L2 \<noteq> - 1" using R(5) tM by (simp add: timer_frame_def)
  obtain L3 where L3: "c cb a L2 = Some L3" "rec L3 = Some M'"
    using body a R(1-3) by (auto simp: due_timers_def not_less bind_eq_Some_conv split: if_splits)
  then have "timer_inv L3 \<and> time L3 \<noteq> - 1" using keep R(4) t2 by (simp add: keeps_timer_inv_def)
  then show ?thesis using L3(2) by blast
qed

lemma run_timers_idle:
  assumes run: "uv__run_timers call L = Some L'"
  shows "keeps_timer_inv call \<longrightarrow> timer_inv L \<longrightarrow> time L \<noteq> - 1 \<longrightarrow> timers_idle L'"
proof (rule uv__run_timers.raw_induct [of "\<lambda>c M M'. keeps_timer_inv c \<longrightarrow> timer_inv M \<longrightarrow> time M \<noteq> - 1 \<longrightarrow>
    timers_idle M'", OF _ run], goal_cases)
  case (1 rec c M M')
  then show ?case using run_timers_body_keeps [OF _ _ _ 1(2)] by blast
qed

section \<open>Properties\<close>

lemma timers_of_frame:
  "timer_frame a L L' \<Longrightarrow> b \<noteq> a \<Longrightarrow> timers L' b = timers L b"
  by (simp add: timer_frame_def)

lemma uint_clamped: "uint (clamped_timeout now t) = min (uint now + uint t) (2 ^ 64 - 1)"
proof (cases "uint now + uint t < 2 ^ 64")
  case True
  then have "uint (now + t) = uint now + uint t" by (simp add: uint_word_ariths)
  then show ?thesis using True by (auto simp: clamped_timeout_def word_less_def)
next
  case False
  have b: "uint now < 2 ^ 64" "uint t < 2 ^ 64"
    using uint_lt2p [of now] uint_lt2p [of t] by simp_all
  then have "(uint now + uint t - 2 ^ 64) mod 2 ^ 64 = uint now + uint t - 2 ^ 64"
    using False by (intro mod_pos_pos_trivial) auto
  then have "uint (now + t) = uint now + uint t - 2 ^ 64"
    by (simp add: uint_word_ariths minus_mod_self2)
  moreover have "uint (- 1 :: u64) = 2 ^ 64 - 1"
    by (simp add: unsigned_minus_1_eq_mask mask_eq_exp_minus_1)
  ultimately show ?thesis using False b by (auto simp: clamped_timeout_def word_less_def)
qed

lemma uint_mono_word: "(a :: u64) \<le> b \<Longrightarrow> uint a \<le> uint b"
  by (simp add: word_le_def)

text \<open>The time until the earliest active timer is due.\<close>

lemma next_timeout_eq:
  assumes "timer_inv L"
  shows "uv__next_timeout L =
     (if timer_nodes L = {} then - 1
      else min INT_MAX (max 0 (Min ((\<lambda>a. uint (timeout (timers L a))) ` timer_nodes L) - uint (time L))))"
proof (cases "heap_min (timer_heap L)")
  case None
  then show ?thesis using timer_min_none [OF assms None] by (simp add: uv__next_timeout_def)
next
  case (Some m)
  have m: "m \<in> timer_nodes L" using timer_min_some [OF assms Some] by simp
  have mn: "Min ((\<lambda>a. uint (timeout (timers L a))) ` timer_nodes L) = uint (timeout (timers L m))"
    using timer_min_timeout [OF assms Some] m by (intro Min_eqI) (auto intro: uint_mono_word)
  have ne: "timer_nodes L \<noteq> {}" using m by auto
  show ?thesis
  proof (cases "timeout (timers L m) \<le> time L")
    case True
    then have "uint (timeout (timers L m)) \<le> uint (time L)" by (rule uint_mono_word)
    then show ?thesis using True Some ne by (simp add: uv__next_timeout_def mn)
  next
    case False
    then have le: "time L \<le> timeout (timers L m)" "uint (time L) < uint (timeout (timers L m))"
      by (auto simp: word_less_def word_le_def)
    have "uint (timeout (timers L m) - time L) = uint (timeout (timers L m)) - uint (time L)"
      using le(1) by (simp add: uint_sub_lem word_le_def)
    then show ?thesis using False Some ne le(2) by (auto simp: uv__next_timeout_def mn Let_def)
  qed
qed

text \<open>\<open>uv_timer_start\<close> on a timer of the loop, started before or not, succeeds; the timer is then
  active, due at the loop's time plus the timeout, clamped to the largest time instead of
  wrapping round; the other timers and the callback's data are untouched; and a NULL callback
  is refused with nothing changed.\<close>

theorem timer_start_correct:
  assumes "timer_inv L" and "is_timer L a"
  shows "uv_timer_start a None t rep L = Some (UV_EINVAL, L) \<and>
    (\<exists>L'. uv_timer_start a (Some cb) t rep L = Some (0, L') \<and> timer_inv L' \<and>
       timer_nodes L' = insert a (timer_nodes L) \<and>
       uint (timeout (timers L' a)) = min (uint (time L) + uint t) (2 ^ 64 - 1) \<and>
       repeat (timers L' a) = rep \<and> timer_cb (timers L' a) = Some cb \<and>
       start_id (timers L' a) = timer_counter L \<and> timer_counter L' = timer_counter L + 1 \<and>
       (\<forall>b. b \<noteq> a \<longrightarrow> timers L' b = timers L b))"
proof -
  have "uv_timer_start a None t rep L = Some (UV_EINVAL, L)" by (simp add: uv_timer_start_def)
  then show ?thesis
    using timer_start_ok [OF assms, of cb t rep] uint_clamped [of "time L" t] by (auto dest: timers_of_frame)
qed

text \<open>\<open>uv_timer_stop\<close> always succeeds, wherever the timer is in the heap; afterwards it is
  inactive, out of the heap and no longer counted, and all the other timers are as before.\<close>

theorem timer_stop_correct:
  assumes "timer_inv L" and "is_timer L a"
  shows "\<exists>L'. uv_timer_stop a L = Some (0, L') \<and> timer_inv L' \<and> \<not> uv__is_active L' a \<and>
           timer_nodes L' = timer_nodes L - {a} \<and> timers L' = timers L \<and> time L' = time L"
  using timer_stop_ok [OF assms] by (auto simp: timer_frame_def)

text \<open>C11: with callbacks that only record their call, one \<open>uv__run_timers\<close> returns, has fired every
  timer that was due and no other, each exactly once with its own callback, in the order of their
  due times and, for equal ones, of their starts; repeating timers are active again for later,
  the others are stopped.\<close>

theorem run_timers_fires_due:
  assumes "timer_inv L" and "time L \<noteq> - 1"
  shows "\<exists>as L'. uv__run_timers log_call L = Some L' \<and>
     tloop.more L' = tloop.more L @ map (\<lambda>a. (the (timer_cb (timers L a)), a)) as \<and>
     distinct as \<and> set as = due_timers L \<and>
     sorted_wrt (\<lambda>a b. \<not> timer_less_than (timers L) b a) as \<and>
     timer_inv L' \<and> due_timers L' = {} \<and>
     timer_nodes L' = timer_nodes L - {a \<in> due_timers L. repeat (timers L a) = 0}"
proof -
  have "fold (\<lambda>a l. l @ [(c a, a)]) as xs = xs @ map (\<lambda>a. (c a, a)) as" for c :: "addr \<Rightarrow> nat" and as xs
    by (induction as arbitrary: xs) simp_all
  then show ?thesis
    using run_timers_fired [OF assms, of "\<lambda>cb a l. l @ [(cb, a)]"] unfolding log_call_note fired_ok_def by fastforce
qed

text \<open>With any callbacks that keep the loop consistent (they may start, stop and close timers),
  if \<open>uv__run_timers\<close> returns, the loop is consistent and no timer is left that is due.\<close>

theorem run_timers_leaves_none_due:
  assumes "uv__run_timers call L = Some L'" and "keeps_timer_inv call" and "timer_inv L" and "time L \<noteq> - 1"
  shows "timer_inv L' \<and> (\<forall>a \<in> timer_nodes L'. time L' < timeout (timers L' a))"
  using run_timers_idle [OF assms(1)] assms(2-4) by (auto simp: timers_idle_def due_timers_def not_le)

lemma distinct_single: "distinct xs \<Longrightarrow> set xs = {a} \<Longrightarrow> xs = [a]"
  by (cases xs; cases "tl xs") auto

text \<open>A loop with an active repeating timer that is due, and a timer that was never started.\<close>

definition sample_tloop :: "(nat \<times> addr) list tloop_scheme" where
  "sample_tloop = \<lparr>active_handles = 1, handle_queue = [1, 2], closing_handles = None,
     handles = (\<lambda>_. \<lparr>flags = UV__HANDLE_REF, htype = UV_TIMER, next_closing = None\<rparr>)
       (1 := \<lparr>flags = 0x6000, htype = UV_TIMER, next_closing = None\<rparr>),
     time = 10, timer_counter = 1,
     timer_heap = \<lparr>hmin = Some 1, nelts = 1,
       hmem = (\<lambda>_. \<lparr>left = None, right = None, parent = None\<rparr>)\<rparr>,
     timers = (\<lambda>_. \<lparr>timer_cb = Some 9, timeout = 7, repeat = 3, start_id = 0\<rparr>), \<dots> = []\<rparr>"

lemma sample_tloop_nodes: "timer_nodes sample_tloop = {1}"
  by (auto simp: timer_nodes_def sample_tloop_def uv__is_active_def hflags_def)

lemma sample_tloop_inv: "timer_inv sample_tloop"
proof -
  have "live_handles sample_tloop = {1}"
    by (auto simp: live_handles_def sample_tloop_def uv__is_active_def uv__has_ref_def hflags_def)
  then have "handle_inv sample_tloop" by (simp add: handle_inv_def sample_tloop_def)
  moreover have "heap_inv lt (timer_heap sample_tloop) {1}" for lt
    unfolding heap_inv_def
    by (intro exI [of _ "\<lambda>_. 1"] exI [of _ 1]) (simp add: heap_rep_def heap_ordered_def sample_tloop_def)
  ultimately show ?thesis by (simp add: timer_inv_def sample_tloop_nodes) (simp add: sample_tloop_def)
qed

lemma sample_tloop_timers: "is_timer sample_tloop 1" "is_timer sample_tloop 2" "time sample_tloop \<noteq> - 1"
  by (simp_all add: is_timer_def sample_tloop_def)

lemma sample_tloop_sel:
  "tloop.more sample_tloop = []" "timer_cb (timers sample_tloop a) = Some 9"
  "repeat (timers sample_tloop a) = 3"
  by (simp_all add: sample_tloop_def)

lemma sample_tloop_due: "due_timers sample_tloop = {1}"
  unfolding due_timers_def sample_tloop_nodes by (auto simp: sample_tloop_def)

theorem timer_start_correct_witness:
  "\<exists>L'. uv_timer_start 2 (Some 4) (- 5) 0 sample_tloop = Some (0, L') \<and>
        uint (timeout (timers L' 2)) = 2 ^ 64 - 1 \<and> timer_nodes L' = {1, 2}"
  using timer_start_correct [OF sample_tloop_inv sample_tloop_timers(2), of "- 5" 0 4]
  by (auto simp: sample_tloop_nodes) (auto simp: sample_tloop_def)

theorem timer_stop_correct_witness:
  "\<exists>L'. uv_timer_stop 1 sample_tloop = Some (0, L') \<and> timer_nodes L' = {}"
  using timer_stop_correct [OF sample_tloop_inv sample_tloop_timers(1)] by (auto simp: sample_tloop_nodes)

theorem run_timers_fires_due_witness:
  "\<exists>L'. uv__run_timers log_call sample_tloop = Some L' \<and> tloop.more L' = [(9, 1)] \<and> timer_nodes L' = {1}"
proof -
  obtain as L' where r: "uv__run_timers log_call sample_tloop = Some L'" "distinct as" "set as = {1}"
      "tloop.more L' = tloop.more sample_tloop @ map (\<lambda>a. (the (timer_cb (timers sample_tloop a)), a)) as"
      "timer_nodes L' = timer_nodes sample_tloop - {a \<in> {1}. repeat (timers sample_tloop a) = 0}"
    using run_timers_fires_due [OF sample_tloop_inv sample_tloop_timers(3)] by (auto simp: sample_tloop_due)
  have "as = [1]" using r(2,3) by (rule distinct_single)
  then show ?thesis using r(1,4,5) by (simp add: sample_tloop_nodes sample_tloop_sel)
qed

lemma log_call_keeps: "keeps_timer_inv log_call"
  by (auto simp: keeps_timer_inv_def log_call_def)

theorem run_timers_leaves_none_due_witness:
  "\<exists>L'. uv__run_timers log_call sample_tloop = Some L' \<and> (\<forall>a \<in> timer_nodes L'. time L' < timeout (timers L' a))"
proof -
  obtain L' where "uv__run_timers log_call sample_tloop = Some L'"
    using run_timers_fired [OF sample_tloop_inv sample_tloop_timers(3)] unfolding log_call_note by blast
  then show ?thesis
    using run_timers_leaves_none_due [OF _ log_call_keeps sample_tloop_inv sample_tloop_timers(3)] by blast
qed

end
