(* ===== verification/Queue.thy ===== *)
theory Queue
  imports Prelude
begin

text \<open>
  The intrusive, circular, doubly linked queues of \<open>src/src/libuv/src/queue.h\<close>, at the
  level of their pointers: each macro is the sequence of its assignments, in the order of the
  source, on a store of \<open>next\<close> and \<open>prev\<close> fields.  The head of a queue is a node as well.
  The other theories keep their queues as lists; the lemmas here are what allows that.
\<close>

section \<open>The macros\<close>

record qmem =
  nxt :: "addr \<Rightarrow> addr"
  prv :: "addr \<Rightarrow> addr"

definition set_next :: "addr \<Rightarrow> addr \<Rightarrow> qmem \<Rightarrow> qmem" where
  "set_next q v m = m\<lparr>nxt := (nxt m)(q := v)\<rparr>"

definition set_prev :: "addr \<Rightarrow> addr \<Rightarrow> qmem \<Rightarrow> qmem" where
  "set_prev q v m = m\<lparr>prv := (prv m)(q := v)\<rparr>"

definition QUEUE_NEXT :: "qmem \<Rightarrow> addr \<Rightarrow> addr" where
  "QUEUE_NEXT m q = nxt m q"

definition QUEUE_PREV :: "qmem \<Rightarrow> addr \<Rightarrow> addr" where
  "QUEUE_PREV m q = prv m q"

definition QUEUE_EMPTY :: "qmem \<Rightarrow> addr \<Rightarrow> bool" where
  "QUEUE_EMPTY m q \<longleftrightarrow> q = QUEUE_NEXT m q"

definition QUEUE_HEAD :: "qmem \<Rightarrow> addr \<Rightarrow> addr" where
  "QUEUE_HEAD m q = QUEUE_NEXT m q"

definition QUEUE_INIT :: "addr \<Rightarrow> qmem \<Rightarrow> qmem" where
  "QUEUE_INIT q m = set_prev q q (set_next q q m)"

definition QUEUE_ADD :: "addr \<Rightarrow> addr \<Rightarrow> qmem \<Rightarrow> qmem" where
  "QUEUE_ADD h n m =
     (let m1 = set_next (QUEUE_PREV m h) (QUEUE_NEXT m n) m;
          m2 = set_prev (QUEUE_NEXT m1 n) (QUEUE_PREV m1 h) m1;
          m3 = set_prev h (QUEUE_PREV m2 n) m2
      in set_next (QUEUE_PREV m3 h) h m3)"

definition QUEUE_SPLIT :: "addr \<Rightarrow> addr \<Rightarrow> addr \<Rightarrow> qmem \<Rightarrow> qmem" where
  "QUEUE_SPLIT h q n m =
     (let m1 = set_prev n (QUEUE_PREV m h) m;
          m2 = set_next (QUEUE_PREV m1 n) n m1;
          m3 = set_next n q m2;
          m4 = set_prev h (QUEUE_PREV m3 q) m3;
          m5 = set_next (QUEUE_PREV m4 h) h m4
      in set_prev q n m5)"

definition QUEUE_MOVE :: "addr \<Rightarrow> addr \<Rightarrow> qmem \<Rightarrow> qmem" where
  "QUEUE_MOVE h n m =
     (if QUEUE_EMPTY m h then QUEUE_INIT n m else QUEUE_SPLIT h (QUEUE_HEAD m h) n m)"

definition QUEUE_INSERT_HEAD :: "addr \<Rightarrow> addr \<Rightarrow> qmem \<Rightarrow> qmem" where
  "QUEUE_INSERT_HEAD h q m =
     (let m1 = set_next q (QUEUE_NEXT m h) m;
          m2 = set_prev q h m1;
          m3 = set_prev (QUEUE_NEXT m2 q) q m2
      in set_next h q m3)"

definition QUEUE_INSERT_TAIL :: "addr \<Rightarrow> addr \<Rightarrow> qmem \<Rightarrow> qmem" where
  "QUEUE_INSERT_TAIL h q m =
     (let m1 = set_next q h m;
          m2 = set_prev q (QUEUE_PREV m1 h) m1;
          m3 = set_next (QUEUE_PREV m2 q) q m2
      in set_prev h q m3)"

definition QUEUE_REMOVE :: "addr \<Rightarrow> qmem \<Rightarrow> qmem" where
  "QUEUE_REMOVE q m =
     (let m1 = set_next (QUEUE_PREV m q) (QUEUE_NEXT m q) m
      in set_prev (QUEUE_NEXT m1 q) (QUEUE_PREV m1 q) m1)"

text \<open>\<open>QUEUE_FOREACH\<close>, collecting the elements it is at.  On a chain that does not come back to
  the head the loop does not end.\<close>

partial_function (option) queue_foreach :: "addr \<Rightarrow> addr \<Rightarrow> qmem \<Rightarrow> addr list \<Rightarrow> addr list option" where
  "queue_foreach h q m acc =
     (if q \<noteq> h then queue_foreach h (QUEUE_NEXT m q) m (acc @ [q]) else Some acc)"

definition QUEUE_FOREACH :: "addr \<Rightarrow> qmem \<Rightarrow> addr list option" where
  "QUEUE_FOREACH h m = queue_foreach h (QUEUE_NEXT m h) m []"

text \<open>
  The loop of \<open>uv_walk\<close> and of the loop watchers: move the queue \<open>h\<close> aside to \<open>n\<close>, then take the
  nodes off \<open>n\<close> one by one, put each at the tail of \<open>h\<close> again and visit it.  (What visiting does
  is not modelled here; the visited nodes are collected.)
\<close>

partial_function (option) queue_rotate :: "addr \<Rightarrow> addr \<Rightarrow> qmem \<Rightarrow> addr list \<Rightarrow> (qmem \<times> addr list) option" where
  "queue_rotate h n m acc =
     (if QUEUE_EMPTY m n then Some (m, acc)
      else let q = QUEUE_HEAD m n;
               m1 = QUEUE_REMOVE q m;
               m2 = QUEUE_INSERT_TAIL h q m1
           in queue_rotate h n m2 (acc @ [q]))"

definition queue_walk :: "addr \<Rightarrow> addr \<Rightarrow> qmem \<Rightarrow> (qmem \<times> addr list) option" where
  "queue_walk h n m = queue_rotate h n (QUEUE_MOVE h n m) []"

section \<open>Queues as lists\<close>

text \<open>\<open>chain m a xs b\<close>: from \<open>a\<close> over \<open>xs\<close> to \<open>b\<close>, linked both ways.\<close>

fun chain :: "qmem \<Rightarrow> addr \<Rightarrow> addr list \<Rightarrow> addr \<Rightarrow> bool" where
  "chain m a [] b \<longleftrightarrow> nxt m a = b \<and> prv m b = a"
| "chain m a (x # xs) b \<longleftrightarrow> nxt m a = x \<and> prv m x = a \<and> chain m x xs b"

definition queue_rep :: "qmem \<Rightarrow> addr \<Rightarrow> addr list \<Rightarrow> bool" where
  "queue_rep m h xs \<longleftrightarrow> distinct (h # xs) \<and> chain m h xs h"

lemmas queue_defs = QUEUE_NEXT_def QUEUE_PREV_def set_next_def set_prev_def Let_def

lemma chain_append: "chain m a (xs @ x # ys) b \<longleftrightarrow> chain m a xs x \<and> chain m x ys b"
  by (induction xs arbitrary: a) auto

lemma chain_cong:
  assumes "\<And>q. q = a \<or> q \<in> set xs \<Longrightarrow> nxt m' q = nxt m q"
    and "\<And>q. q = b \<or> q \<in> set xs \<Longrightarrow> prv m' q = prv m q"
  shows "chain m' a xs b = chain m a xs b"
  using assms by (induction xs arbitrary: a) auto

lemma chain_first: "chain m a xs b \<Longrightarrow> nxt m a = (case xs of [] \<Rightarrow> b | x # _ \<Rightarrow> x)"
  by (cases xs) auto

lemma chain_last: "chain m a xs b \<Longrightarrow> prv m b = (if xs = [] then a else last xs)"
  by (induction xs arbitrary: a) auto

lemma queue_rep_empty: "queue_rep m h xs \<Longrightarrow> QUEUE_EMPTY m h \<longleftrightarrow> xs = []"
  by (cases xs) (auto simp: queue_rep_def QUEUE_EMPTY_def QUEUE_NEXT_def)

lemma queue_rep_head: "queue_rep m h (q # xs) \<Longrightarrow> QUEUE_HEAD m h = q"
  by (simp add: queue_rep_def QUEUE_HEAD_def QUEUE_NEXT_def)

lemma queue_init: "queue_rep (QUEUE_INIT h m) h []"
  by (simp add: queue_rep_def QUEUE_INIT_def queue_defs)

text \<open>A queue none of whose nodes is written stays as it is.\<close>

lemma queue_rep_frame:
  assumes "queue_rep m h xs" "\<And>q. q \<in> set (h # xs) \<Longrightarrow> nxt m' q = nxt m q \<and> prv m' q = prv m q"
  shows "queue_rep m' h xs"
  using assms chain_cong [of h xs m' m h] by (auto simp: queue_rep_def)

lemma queue_insert_tail:
  assumes "queue_rep m h xs" "q \<notin> set (h # xs)"
  shows "queue_rep (QUEUE_INSERT_TAIL h q m) h (xs @ [q])"
proof (cases xs rule: rev_cases)
  case Nil
  then show ?thesis using assms by (simp add: queue_rep_def QUEUE_INSERT_TAIL_def queue_defs)
next
  case (snoc ys y)
  have p: "prv m h = y" using assms chain_last [of m h xs h] snoc by (simp add: queue_rep_def)
  have c: "chain (QUEUE_INSERT_TAIL h q m) h ys y = chain m h ys y"
    using assms p snoc by (intro chain_cong) (auto simp: queue_rep_def QUEUE_INSERT_TAIL_def queue_defs)
  show ?thesis
    using assms p snoc c
    by (auto simp: queue_rep_def chain_append) (auto simp: QUEUE_INSERT_TAIL_def queue_defs)
qed

lemma queue_insert_head:
  assumes "queue_rep m h xs" "q \<notin> set (h # xs)"
  shows "queue_rep (QUEUE_INSERT_HEAD h q m) h (q # xs)"
proof (cases xs)
  case Nil
  then show ?thesis using assms by (simp add: queue_rep_def QUEUE_INSERT_HEAD_def queue_defs)
next
  case (Cons y ys)
  have c: "chain (QUEUE_INSERT_HEAD h q m) y ys h = chain m y ys h"
    using assms Cons by (intro chain_cong) (auto simp: queue_rep_def QUEUE_INSERT_HEAD_def queue_defs)
  show ?thesis
    using assms Cons c
    by (auto simp: queue_rep_def) (auto simp: QUEUE_INSERT_HEAD_def queue_defs)
qed

lemma queue_remove:
  assumes "queue_rep m h (xs @ q # ys)"
  shows "queue_rep (QUEUE_REMOVE q m) h (xs @ ys)"
proof -
  let ?m = "QUEUE_REMOVE q m"
  have c: "chain m h xs q" "chain m q ys h" and d: "distinct (h # xs @ q # ys)"
    using assms by (auto simp: queue_rep_def chain_append)
  have n: "nxt m q = (case ys of [] \<Rightarrow> h | y # _ \<Rightarrow> y)" and p: "prv m q = (if xs = [] then h else last xs)"
    using chain_first [OF c(2)] chain_last [OF c(1)] by auto
  have w: "nxt ?m = (nxt m)(prv m q := nxt m q)"
    "prv ?m = (prv m)(((nxt m)(prv m q := nxt m q)) q := prv m q)"
    by (simp_all add: QUEUE_REMOVE_def queue_defs)
  have w2: "((nxt m)(prv m q := nxt m q)) q = nxt m q" using d p by (auto split: if_splits)
  show ?thesis
  proof (cases xs rule: rev_cases)
    case Nil
    show ?thesis
    proof (cases ys)
      case Nil
      then show ?thesis using \<open>xs = []\<close> n p d by (simp add: queue_rep_def w)
    next
      case (Cons y zs)
      have "chain ?m y zs h = chain m y zs h"
        using d Nil Cons n p by (intro chain_cong) (auto simp: w)
      then show ?thesis using Nil Cons n p d c by (simp add: queue_rep_def w)
    qed
  next
    case (snoc us u)
    have u: "chain ?m h us u = chain m h us u"
      using d snoc n p w2 by (intro chain_cong) (auto simp: w split: list.splits)
    show ?thesis
    proof (cases ys)
      case Nil
      then show ?thesis using snoc n p d c u w2 by (auto simp: queue_rep_def w chain_append)
    next
      case (Cons y zs)
      have "chain ?m y zs h = chain m y zs h"
        using d snoc Cons n p by (intro chain_cong) (auto simp: w)
      then show ?thesis using snoc Cons n p d c u w2 by (auto simp: queue_rep_def w chain_append)
    qed
  qed
qed


section \<open>Moving, splitting and joining\<close>

lemma chain_split_last:
  "chain m a (xs @ [x]) b \<longleftrightarrow> chain m a xs x \<and> nxt m x = b \<and> prv m b = x"
  by (simp add: chain_append)

lemma queue_split:
  assumes rep: "queue_rep m h (xs @ q # ys)" and n: "n \<notin> set (h # xs @ q # ys)"
  shows "queue_rep (QUEUE_SPLIT h q n m) h xs \<and> queue_rep (QUEUE_SPLIT h q n m) n (q # ys)"
proof -
  let ?m = "QUEUE_SPLIT h q n m"
  define z where "z = last (q # ys)"
  define x where "x = (if xs = [] then h else last xs)"
  have c: "chain m h xs q" "chain m q ys h" and d: "distinct (h # xs @ q # ys)"
    using rep by (auto simp: queue_rep_def chain_append)
  have ph: "prv m h = z" and pq: "prv m q = x" "nxt m x = q" "nxt m z = h"
    using chain_last [OF c(2)] chain_last [OF c(1)] c
    by (auto simp: z_def x_def) (cases xs rule: rev_cases; auto simp: chain_append;
        cases ys rule: rev_cases; auto simp: chain_append)+
  have zs: "z \<in> set (q # ys)" "x \<in> set (h # xs)" by (auto simp: z_def x_def)
  then have ne: "z \<noteq> n" "z \<noteq> h" "x \<noteq> z" "x \<noteq> n" "q \<noteq> n" "q \<noteq> h" "n \<noteq> h" "x \<noteq> q"
    using n d by auto
  have w: "nxt ?m = (nxt m)(z := n, n := q, x := h)" "prv ?m = (prv m)(n := z, h := x, q := n)"
    using ne ph pq by (auto simp: QUEUE_SPLIT_def queue_defs fun_eq_iff)
  have o: "\<forall>r \<in> set (h # xs). r \<noteq> z \<and> r \<noteq> n" "\<forall>r \<in> set xs. r \<noteq> h \<and> r \<noteq> q"
      "\<forall>r \<in> set (q # ys). r \<noteq> x \<and> r \<noteq> n \<and> r \<noteq> h" "\<forall>r \<in> set ys. r \<noteq> q" "distinct xs" "distinct ys"
    using zs d n by auto
  have 1: "chain ?m h xs h"
  proof (cases xs rule: rev_cases)
    case Nil then show ?thesis using ne by (simp add: w x_def)
  next
    case (snoc us u)
    have "chain ?m h us u = chain m h us u"
    proof (rule chain_cong)
      have x: "x = u" by (simp add: x_def snoc)
      show "nxt ?m r = nxt m r" if "r = h \<or> r \<in> set us" for r
      proof -
        have "r \<noteq> z" "r \<noteq> u" "r \<noteq> n" using that o(1,2,5) snoc ne(8) x by auto
        then show ?thesis by (simp only: w x fun_upd_apply if_False)
      qed
      show "prv ?m r = prv m r" if "r = u \<or> r \<in> set us" for r
        using that o(1,2) snoc by (auto simp: w)
    qed
    then show ?thesis using snoc c ne by (simp add: chain_append w x_def)
  qed
  have 2: "chain ?m n (q # ys) n"
  proof (cases ys rule: rev_cases)
    case Nil then show ?thesis using ne by (simp add: w z_def)
  next
    case (snoc us u)
    have "chain ?m q us u = chain m q us u"
    proof (rule chain_cong)
      have z: "z = u" by (simp add: z_def snoc)
      show "nxt ?m r = nxt m r" if "r = q \<or> r \<in> set us" for r
      proof -
        have "r \<noteq> x" "r \<noteq> u" "r \<noteq> n" using that o(3,4,6) snoc ne(5) z by auto
        then show ?thesis by (simp only: w z fun_upd_apply if_False)
      qed
      show "prv ?m r = prv m r" if "r = u \<or> r \<in> set us" for r
        using that o(3,4) snoc by (auto simp: w)
    qed
    then show ?thesis using snoc c ne by (simp add: chain_append w z_def)
  qed
  show ?thesis using 1 2 d n by (auto simp: queue_rep_def)
qed

lemma queue_move:
  assumes "queue_rep m h xs" "n \<notin> set (h # xs)"
  shows "queue_rep (QUEUE_MOVE h n m) h [] \<and> queue_rep (QUEUE_MOVE h n m) n xs"
proof (cases xs)
  case Nil
  then have "QUEUE_MOVE h n m = QUEUE_INIT n m"
    using queue_rep_empty [OF assms(1)] by (simp add: QUEUE_MOVE_def)
  then show ?thesis using assms Nil by (auto simp: queue_init queue_rep_def) (auto simp: QUEUE_INIT_def queue_defs)
next
  case (Cons q ys)
  then have "QUEUE_MOVE h n m = QUEUE_SPLIT h q n m"
    using queue_rep_empty [OF assms(1)] queue_rep_head [of m h q ys] assms(1) by (simp add: QUEUE_MOVE_def)
  then show ?thesis using queue_split [of m h "[]" q ys n] assms Cons by simp
qed

lemma queue_add:
  assumes h: "queue_rep m h xs" and n: "queue_rep m n (y # ys)"
    and disj: "set (h # xs) \<inter> set (n # y # ys) = {}"
  shows "queue_rep (QUEUE_ADD h n m) h (xs @ y # ys)"
proof -
  let ?m = "QUEUE_ADD h n m"
  define z where "z = last (y # ys)"
  define x where "x = (if xs = [] then h else last xs)"
  have c: "chain m h xs h" "chain m n (y # ys) n" and d: "distinct (h # xs)" "distinct (n # y # ys)"
    using h n by (auto simp: queue_rep_def)
  have v: "prv m h = x" "nxt m n = y" "prv m n = z"
    using chain_last [OF c(1)] chain_last [OF c(2)] c(2) by (simp_all add: x_def z_def)
  have zs: "z \<in> set (y # ys)" "x \<in> set (h # xs)" by (auto simp: z_def x_def)
  then have ne: "x \<noteq> n" "x \<noteq> z" "z \<noteq> n" "z \<noteq> h" "y \<noteq> n" "y \<noteq> h" "x \<noteq> y"
    using disj d by auto
  have w: "nxt ?m = (nxt m)(x := y, z := h)" "prv ?m = (prv m)(y := x, h := z)"
    using ne v by (simp_all add: QUEUE_ADD_def queue_defs)
  have o: "\<forall>r \<in> set (h # xs). r \<noteq> z" "\<forall>r \<in> set xs. r \<noteq> h \<and> r \<noteq> y"
      "\<forall>r \<in> set (y # ys). r \<noteq> x \<and> r \<noteq> h" "\<forall>r \<in> set ys. r \<noteq> y" "distinct xs" "distinct ys"
    using zs d disj by auto
  have 1: "chain ?m h xs y"
  proof (cases xs rule: rev_cases)
    case Nil then show ?thesis using ne by (simp add: w x_def)
  next
    case (snoc us u)
    have "chain ?m h us u = chain m h us u"
    proof (rule chain_cong)
      have x: "x = u" by (simp add: x_def snoc)
      show "nxt ?m r = nxt m r" if "r = h \<or> r \<in> set us" for r
      proof -
        have "r \<noteq> z" "r \<noteq> u" using that o(1,2,5) snoc ne(4) x by auto
        then show ?thesis by (simp only: w x fun_upd_apply if_False)
      qed
      show "prv ?m r = prv m r" if "r = u \<or> r \<in> set us" for r
        using that o(1,2) snoc by (auto simp: w)
    qed
    then show ?thesis using snoc c ne by (simp add: chain_append w x_def)
  qed
  have 2: "chain ?m y ys h"
  proof (cases ys rule: rev_cases)
    case Nil then show ?thesis using ne by (simp add: w z_def)
  next
    case (snoc us u)
    have "chain ?m y us u = chain m y us u"
    proof (rule chain_cong)
      have z: "z = u" by (simp add: z_def snoc)
      show "nxt ?m r = nxt m r" if "r = y \<or> r \<in> set us" for r
      proof -
        have "r \<noteq> x" "r \<noteq> u" using that o(3,4,6) snoc ne(6) z by auto
        then show ?thesis by (simp only: w z fun_upd_apply if_False)
      qed
      show "prv ?m r = prv m r" if "r = u \<or> r \<in> set us" for r
        using that o(3,4) snoc by (auto simp: w)
    qed
    then show ?thesis using snoc c ne by (simp add: chain_append w z_def)
  qed
  show ?thesis using 1 2 d disj by (auto simp: queue_rep_def chain_append)
qed

section \<open>Traversals\<close>

lemma queue_foreach_rep:
  assumes "chain m p xs h" "h \<notin> set xs"
  shows "queue_foreach h (nxt m p) m acc = Some (acc @ xs)"
  using assms
proof (induction xs arbitrary: p acc)
  case Nil
  then show ?case by (simp add: queue_foreach.simps)
next
  case (Cons x xs)
  then show ?case by (subst queue_foreach.simps) (simp add: QUEUE_NEXT_def)
qed

text \<open>What a client of two queues relies on when it moves nodes between them.\<close>

locale queue_pair =
  fixes rep :: "'m \<Rightarrow> addr \<Rightarrow> addr list \<Rightarrow> bool"
    and empty :: "'m \<Rightarrow> addr \<Rightarrow> bool"
    and head :: "'m \<Rightarrow> addr \<Rightarrow> addr"
    and ins :: "addr \<Rightarrow> addr \<Rightarrow> 'm \<Rightarrow> 'm"
    and rem :: "addr \<Rightarrow> 'm \<Rightarrow> 'm"
  assumes empty_law: "rep m h xs \<Longrightarrow> empty m h \<longleftrightarrow> xs = []"
    and head_law: "rep m h (q # xs) \<Longrightarrow> head m h = q"
    and distinct_law: "rep m h xs \<Longrightarrow> distinct (h # xs)"
    and ins_law: "rep m h xs \<Longrightarrow> q \<notin> set (h # xs) \<Longrightarrow> rep (ins h q m) h (xs @ [q])"
    and ins_frame: "rep m h xs \<Longrightarrow> rep m g ys \<Longrightarrow> set (h # q # xs) \<inter> set (g # ys) = {} \<Longrightarrow>
      rep (ins h q m) g ys"
    and rem_law: "rep m h (q # xs) \<Longrightarrow> rep (rem q m) h xs"
    and rem_frame: "rep m h (q # xs) \<Longrightarrow> rep m g ys \<Longrightarrow> set (h # q # xs) \<inter> set (g # ys) = {} \<Longrightarrow>
      rep (rem q m) g ys"
begin

text \<open>The first node of one queue becomes the last of the other.\<close>

lemma rotate_step:
  assumes n: "rep m n (q # xs)" and h: "rep m h ys" and disj: "set (n # q # xs) \<inter> set (h # ys) = {}"
  shows "\<not> empty m n" and "head m n = q"
    and "rep (ins h q (rem q m)) n xs" and "rep (ins h q (rem q m)) h (ys @ [q])"
    and "set (n # xs) \<inter> set (h # ys @ [q]) = {}"
proof -
  have d: "distinct (n # q # xs)" using distinct_law [OF n] .
  have 1: "rep (rem q m) n xs" "rep (rem q m) h ys"
    using rem_law [OF n] rem_frame [OF n h disj] by auto
  show "\<not> empty m n" "head m n = q" using empty_law [OF n] head_law [OF n] by auto
  show "rep (ins h q (rem q m)) h (ys @ [q])" using ins_law [OF 1(2)] disj by auto
  show "rep (ins h q (rem q m)) n xs" using ins_frame [OF 1(2) 1(1)] disj d by auto
  show "set (n # xs) \<inter> set (h # ys @ [q]) = {}" using disj d by auto
qed

end

interpretation qp: queue_pair queue_rep QUEUE_EMPTY QUEUE_HEAD QUEUE_INSERT_TAIL QUEUE_REMOVE
proof
  show "queue_rep m h xs \<Longrightarrow> QUEUE_EMPTY m h \<longleftrightarrow> xs = []" for m h xs by (rule queue_rep_empty)
  show "queue_rep m h (q # xs) \<Longrightarrow> QUEUE_HEAD m h = q" for m h q xs by (rule queue_rep_head)
  show "queue_rep m h xs \<Longrightarrow> distinct (h # xs)" for m h xs by (simp add: queue_rep_def)
  show "queue_rep m h xs \<Longrightarrow> q \<notin> set (h # xs) \<Longrightarrow> queue_rep (QUEUE_INSERT_TAIL h q m) h (xs @ [q])" for m h xs q
    by (rule queue_insert_tail)
  show "queue_rep m h (q # xs) \<Longrightarrow> queue_rep (QUEUE_REMOVE q m) h xs" for m h q xs
    using queue_remove [of m h "[]" q xs] by simp
  show "queue_rep (QUEUE_INSERT_TAIL h q m) g ys"
    if "queue_rep m h xs" "queue_rep m g ys" "set (h # q # xs) \<inter> set (g # ys) = {}" for m h xs g ys q
  proof (rule queue_rep_frame [OF that(2)])
    have "prv m h \<in> set (h # xs)" using that(1) chain_last [of m h xs h] by (auto simp: queue_rep_def)
    then show "r \<in> set (g # ys) \<Longrightarrow>
        nxt (QUEUE_INSERT_TAIL h q m) r = nxt m r \<and> prv (QUEUE_INSERT_TAIL h q m) r = prv m r" for r
      using that(3) by (auto simp: QUEUE_INSERT_TAIL_def queue_defs)
  qed
  show "queue_rep (QUEUE_REMOVE q m) g ys"
    if "queue_rep m h (q # xs)" "queue_rep m g ys" "set (h # q # xs) \<inter> set (g # ys) = {}" for m h xs g ys q
  proof (rule queue_rep_frame [OF that(2)])
    have "prv m q = h" "nxt m q \<in> set (h # xs)" "q \<noteq> h"
      using that(1) by (auto simp: queue_rep_def chain_first split: list.splits)
    then show "r \<in> set (g # ys) \<Longrightarrow>
        nxt (QUEUE_REMOVE q m) r = nxt m r \<and> prv (QUEUE_REMOVE q m) r = prv m r" for r
      using that(3) by (auto simp: QUEUE_REMOVE_def queue_defs)
  qed
qed

lemma queue_rotate_ok:
  assumes "queue_rep m n xs" "queue_rep m h ys" "set (n # xs) \<inter> set (h # ys) = {}"
  shows "\<exists>m'. queue_rotate h n m acc = Some (m', acc @ xs) \<and> queue_rep m' h (ys @ xs) \<and> queue_rep m' n []"
  using assms
proof (induction xs arbitrary: m ys acc)
  case Nil
  then show ?case by (subst queue_rotate.simps) (simp add: qp.empty_law)
next
  case (Cons q xs)
  note st = qp.rotate_step [OF Cons.prems]
  show ?case
    using Cons.IH [OF st(3-5), of "acc @ [q]"] st(1,2)
    by (subst queue_rotate.simps) (simp add: Let_def)
qed

section \<open>Properties\<close>

text \<open>C26: the queue macros do to the circular list they are given what their names say, whatever
  its length: insertion at the head and at the tail, removal of any element, taking a queue over
  as a whole, splitting it at an element and joining two queues.\<close>

theorem queue_macros_refine_lists:
  assumes "queue_rep m h xs" and "n \<notin> set (h # xs)"
  shows "queue_rep (QUEUE_INSERT_HEAD h n m) h (n # xs) \<and>
    queue_rep (QUEUE_INSERT_TAIL h n m) h (xs @ [n]) \<and>
    queue_rep (QUEUE_MOVE h n m) h [] \<and> queue_rep (QUEUE_MOVE h n m) n xs \<and>
    QUEUE_EMPTY m h = (xs = []) \<and> QUEUE_FOREACH h m = Some xs \<and>
    (\<forall>us q vs. xs = us @ q # vs \<longrightarrow> queue_rep (QUEUE_REMOVE q m) h (us @ vs) \<and>
       queue_rep (QUEUE_SPLIT h q n m) h us \<and> queue_rep (QUEUE_SPLIT h q n m) n (q # vs)) \<and>
    (\<forall>g y ys. queue_rep m g (y # ys) \<longrightarrow> set (h # xs) \<inter> set (g # y # ys) = {} \<longrightarrow>
       queue_rep (QUEUE_ADD h g m) h (xs @ y # ys))"
proof -
  have "chain m h xs h" "h \<notin> set xs" using assms(1) by (auto simp: queue_rep_def)
  then have "QUEUE_FOREACH h m = Some xs"
    using queue_foreach_rep [of m h xs h "[]"] by (simp add: QUEUE_FOREACH_def QUEUE_NEXT_def)
  then show ?thesis
    using queue_insert_head [OF assms] queue_insert_tail [OF assms] queue_move [OF assms]
      queue_rep_empty [OF assms(1)] queue_remove queue_split queue_add [OF assms(1)] assms by blast
qed

text \<open>The loop of \<open>uv_walk\<close> and of the loop watchers ends, visits each node that was in the
  queue exactly once and in order, and leaves the queue as it found it.\<close>

theorem queue_walk_visits_all:
  assumes "queue_rep m h xs" and "n \<notin> set (h # xs)"
  shows "\<exists>m'. queue_walk h n m = Some (m', xs) \<and> queue_rep m' h xs \<and> QUEUE_EMPTY m' n"
proof -
  have "set (n # xs) \<inter> set [h] = {}" using assms by (auto simp: queue_rep_def)
  then show ?thesis
    using queue_rotate_ok [of "QUEUE_MOVE h n m" n xs h "[]" "[]"] queue_move [OF assms]
      queue_rep_empty by (auto simp: queue_walk_def)
qed

text \<open>A queue headed by 0 of the nodes 1 and 2.\<close>

definition sample_queue :: qmem where
  "sample_queue = QUEUE_INSERT_TAIL 0 2 (QUEUE_INSERT_TAIL 0 1 (QUEUE_INIT 0 \<lparr>nxt = (\<lambda>_. 9), prv = (\<lambda>_. 9)\<rparr>))"

lemma sample_queue_rep: "queue_rep sample_queue 0 [1, 2]"
  using queue_insert_tail [OF queue_insert_tail [OF queue_init [of 0]], of 1 2] by (simp add: sample_queue_def)

theorem queue_macros_refine_lists_witness:
  "queue_rep (QUEUE_REMOVE 1 sample_queue) 0 [2] \<and> QUEUE_FOREACH 0 sample_queue = Some [1, 2]"
proof -
  have "(7 :: addr) \<notin> set [0, 1, 2]" by simp
  note t = queue_macros_refine_lists [OF sample_queue_rep this]
  have f: "QUEUE_FOREACH 0 sample_queue = Some [1, 2]" using t by (elim conjE)
  have "\<forall>us q vs. [1, 2] = us @ q # vs \<longrightarrow> queue_rep (QUEUE_REMOVE q sample_queue) 0 (us @ vs) \<and>
       queue_rep (QUEUE_SPLIT 0 q 7 sample_queue) 0 us \<and> queue_rep (QUEUE_SPLIT 0 q 7 sample_queue) 7 (q # vs)"
    using t by (elim conjE)
  from this [rule_format, of "[]" 1 "[2]"] show ?thesis using f by simp
qed

theorem queue_walk_visits_all_witness:
  "\<exists>m'. queue_walk 0 7 sample_queue = Some (m', [1, 2]) \<and> queue_rep m' 0 [1, 2]"
  using queue_walk_visits_all [OF sample_queue_rep, of 7] by auto

end
