(* ===== verification/IoWatcher.thy ===== *)
theory IoWatcher
  imports Timer
begin

text \<open>
  I/O watchers: \<open>uv__io_t\<close> and the functions over it in \<open>src/src/libuv/src/unix/core.c\<close>, with
  \<open>uv__platform_invalidate_fd\<close> of \<open>linux-core.c\<close>.  The loop is extended with the watcher table
  (an array that holds, past its \<open>nwatchers\<close> entries, the event list of a running poll), the
  queue of watchers to hand to the kernel and the queue of watchers with a pending callback.

  An intrusive queue is the list of its elements (\<open>Queue\<close> justifies that).  A queue that lives on
  the stack of a running function is the field \<open>pending_run\<close>, because \<open>QUEUE_REMOVE\<close> takes an
  element out of whichever queue it is in.  A failed \<open>assert\<close> and \<open>abort\<close> are \<open>None\<close>.
\<close>

section \<open>Data\<close>

abbreviation POLLIN :: u32 where "POLLIN \<equiv> 0x001"
abbreviation POLLOUT :: u32 where "POLLOUT \<equiv> 0x004"
abbreviation POLLERR :: u32 where "POLLERR \<equiv> 0x008"
abbreviation POLLHUP :: u32 where "POLLHUP \<equiv> 0x010"
abbreviation UV__POLLRDHUP :: u32 where "UV__POLLRDHUP \<equiv> 0x2000"

definition poll_mask :: u32 where
  "poll_mask = POLLIN OR POLLOUT OR UV__POLLRDHUP"

record uv__io =
  io_cb :: nat
  pevents :: u32
  io_events :: u32
  io_fd :: int

text \<open>An entry of \<open>loop->watchers\<close>: NULL, a watcher, or one of the two fake entries at the end.\<close>

datatype wslot = NoWatcher | Watcher addr | EventList | EventCount nat

record iloop = tloop +
  active_reqs :: "addr list"
  watchers :: "wslot list"
  nwatchers :: u32
  nfds :: u32
  watcher_queue :: "addr list"
  pending_queue :: "addr list"
  pending_run :: "addr list"
  ios :: "addr \<Rightarrow> uv__io"
  ep_events :: "(int \<times> u32) list"

definition set_io :: "addr \<Rightarrow> uv__io \<Rightarrow> 'a iloop_scheme \<Rightarrow> 'a iloop_scheme" where
  "set_io w x L = L\<lparr>ios := (ios L)(w := x)\<rparr>"

definition uv__has_active_reqs :: "'a iloop_scheme \<Rightarrow> bool" where
  "uv__has_active_reqs L \<longleftrightarrow> active_reqs L \<noteq> []"

definition uv__req_register :: "addr \<Rightarrow> 'a iloop_scheme \<Rightarrow> 'a iloop_scheme" where
  "uv__req_register r L = L\<lparr>active_reqs := active_reqs L @ [r]\<rparr>"

definition uv__req_unregister :: "addr \<Rightarrow> 'a iloop_scheme \<Rightarrow> 'a iloop_scheme option" where
  "uv__req_unregister r L =
     (if uv__has_active_reqs L then Some (L\<lparr>active_reqs := removeAll r (active_reqs L)\<rparr>) else None)"

section \<open>The watcher table\<close>

definition next_power_of_two :: "u32 \<Rightarrow> u32" where
  "next_power_of_two val =
     (let v0 = val - 1;
          v1 = v0 OR drop_bit 1 v0;
          v2 = v1 OR drop_bit 2 v1;
          v3 = v2 OR drop_bit 4 v2;
          v4 = v3 OR drop_bit 8 v3;
          v5 = v4 OR drop_bit 16 v4
      in v5 + 1)"

text \<open>\<open>realloc_ok\<close> says whether the allocator grants a table of so many entries.  The array keeps
  its entries; those from the old \<open>nwatchers\<close> on are set to NULL and the two fake entries are
  put at the new end.\<close>

definition maybe_resize :: "(nat \<Rightarrow> bool) \<Rightarrow> u32 \<Rightarrow> 'a iloop_scheme \<Rightarrow> 'a iloop_scheme option" where
  "maybe_resize realloc_ok len L =
     (if len \<le> nwatchers L then Some L
      else let n = unat (nwatchers L);
               fake = (if watchers L \<noteq> [] then [watchers L ! n, watchers L ! (n + 1)]
                       else [NoWatcher, NoWatcher]);
               nw = next_power_of_two (len + 2) - 2
           in if \<not> realloc_ok (unat (nw + 2)) then None
              else Some (L\<lparr>watchers := take n (watchers L) @ replicate (unat nw - n) NoWatcher @ fake,
                           nwatchers := nw\<rparr>))"

section \<open>Operations\<close>

definition uv__io_init :: "addr \<Rightarrow> nat \<Rightarrow> int \<Rightarrow> 'a iloop_scheme \<Rightarrow> 'a iloop_scheme option" where
  "uv__io_init w cb fd L =
     (if fd \<ge> - 1 then Some (set_io w \<lparr>io_cb = cb, pevents = 0, io_events = 0, io_fd = fd\<rparr> L) else None)"

definition events_ok :: "u32 \<Rightarrow> bool" where
  "events_ok events \<longleftrightarrow> events AND NOT poll_mask = 0 \<and> events \<noteq> 0"

definition uv__io_start ::
  "(nat \<Rightarrow> bool) \<Rightarrow> addr \<Rightarrow> u32 \<Rightarrow> 'a iloop_scheme \<Rightarrow> 'a iloop_scheme option" where
  "uv__io_start realloc_ok w events L =
     (if \<not> (events_ok events \<and> io_fd (ios L w) \<ge> 0 \<and> io_fd (ios L w) < INT_MAX) then None
      else
        let fd = io_fd (ios L w);
            L1 = set_io w ((ios L w)\<lparr>pevents := add_flag (pevents (ios L w)) events\<rparr>) L
        in case maybe_resize realloc_ok (word_of_int (fd + 1)) L1 of
             None \<Rightarrow> None
           | Some L2 \<Rightarrow>
               if io_events (ios L2 w) = pevents (ios L2 w)
               then Some (if io_events (ios L2 w) = 0 \<and> w \<in> set (watcher_queue L2)
                          then L2\<lparr>watcher_queue := removeAll w (watcher_queue L2)\<rparr> else L2)
               else
                 let L3 = (if w \<notin> set (watcher_queue L2)
                           then L2\<lparr>watcher_queue := watcher_queue L2 @ [w]\<rparr> else L2)
                 in Some (if watchers L3 ! nat fd = NoWatcher
                          then L3\<lparr>watchers := (watchers L3)[nat fd := Watcher w], nfds := nfds L3 + 1\<rparr>
                          else L3))"

definition uv__io_stop :: "addr \<Rightarrow> u32 \<Rightarrow> 'a iloop_scheme \<Rightarrow> 'a iloop_scheme option" where
  "uv__io_stop w events L =
     (let fd = io_fd (ios L w) in
      if \<not> events_ok events then None
      else if fd = - 1 then Some L
      else if fd < 0 then None
      else if (word_of_int fd :: u32) \<ge> nwatchers L then Some L
      else
        let L1 = set_io w ((ios L w)\<lparr>pevents := clear_flag (pevents (ios L w)) events\<rparr>) L
        in if pevents (ios L1 w) = 0 then
             let L2 = L1\<lparr>watcher_queue := removeAll w (watcher_queue L1)\<rparr>
             in if watchers L2 ! nat fd = NoWatcher then Some L2
                else if watchers L2 ! nat fd = Watcher w \<and> nfds L2 > 0 then
                  Some (set_io w ((ios L2 w)\<lparr>io_events := 0\<rparr>)
                          (L2\<lparr>watchers := (watchers L2)[nat fd := NoWatcher], nfds := nfds L2 - 1\<rparr>))
                else None
           else Some (if w \<notin> set (watcher_queue L1)
                      then L1\<lparr>watcher_queue := watcher_queue L1 @ [w]\<rparr> else L1))"

text \<open>The event list the fake entries refer to is \<open>ep_events\<close>.  The result of the \<open>epoll_ctl\<close> call
  is ignored by the code; its effect on the kernel is not part of the loop.\<close>

definition uv__platform_invalidate_fd :: "int \<Rightarrow> 'a iloop_scheme \<Rightarrow> 'a iloop_scheme option" where
  "uv__platform_invalidate_fd fd L =
     (if watchers L = [] then None
      else Some
        (case (watchers L ! unat (nwatchers L), watchers L ! (unat (nwatchers L) + 1)) of
           (EventList, EventCount n) \<Rightarrow>
             L\<lparr>ep_events := map (\<lambda>(d, e). if d = fd then (- 1, e) else (d, e)) (take n (ep_events L))
                             @ drop n (ep_events L)\<rparr>
         | _ \<Rightarrow> L))"

definition uv__io_close :: "addr \<Rightarrow> 'a iloop_scheme \<Rightarrow> 'a iloop_scheme option" where
  "uv__io_close w L =
     (case uv__io_stop w poll_mask L of
        None \<Rightarrow> None
      | Some L1 \<Rightarrow>
          uv__platform_invalidate_fd (io_fd (ios L1 w))
            (L1\<lparr>pending_queue := removeAll w (pending_queue L1),
                pending_run := removeAll w (pending_run L1)\<rparr>))"

definition uv__io_feed :: "addr \<Rightarrow> 'a iloop_scheme \<Rightarrow> 'a iloop_scheme" where
  "uv__io_feed w L =
     (if w \<notin> set (pending_queue L) \<and> w \<notin> set (pending_run L)
      then L\<lparr>pending_queue := pending_queue L @ [w]\<rparr> else L)"

definition uv__io_active :: "addr \<Rightarrow> u32 \<Rightarrow> 'a iloop_scheme \<Rightarrow> bool option" where
  "uv__io_active w events L =
     (if events_ok events then Some (has_flag (pevents (ios L w)) events) else None)"

text \<open>\<open>call cb w events\<close> is what the watcher's callback does.\<close>

partial_function (option) run_pending_loop ::
  "(nat \<Rightarrow> addr \<Rightarrow> u32 \<Rightarrow> 'a iloop_scheme \<Rightarrow> 'a iloop_scheme option) \<Rightarrow>
   'a iloop_scheme \<Rightarrow> 'a iloop_scheme option" where
  "run_pending_loop call L =
     (case pending_run L of
        [] \<Rightarrow> Some L
      | w # ws \<Rightarrow>
          Option.bind (call (io_cb (ios L w)) w POLLOUT (L\<lparr>pending_run := ws\<rparr>)) (run_pending_loop call))"

definition uv__run_pending ::
  "(nat \<Rightarrow> addr \<Rightarrow> u32 \<Rightarrow> 'a iloop_scheme \<Rightarrow> 'a iloop_scheme option) \<Rightarrow>
   'a iloop_scheme \<Rightarrow> (int \<times> 'a iloop_scheme) option" where
  "uv__run_pending call L =
     (if pending_queue L = [] then Some (0, L)
      else map_option (Pair 1)
             (run_pending_loop call (L\<lparr>pending_run := pending_queue L, pending_queue := []\<rparr>)))"

section \<open>Rounding up to a power of two\<close>

text \<open>After the step with shift \<open>s\<close>, bit \<open>i\<close> is set when one of the \<open>2 * s\<close> bits from \<open>i\<close> on was.\<close>

definition smeared :: "u32 \<Rightarrow> nat \<Rightarrow> u32 \<Rightarrow> bool" where
  "smeared v s x \<longleftrightarrow> (\<forall>i. bit x i \<longleftrightarrow> (\<exists>j. i \<le> j \<and> j < i + s \<and> bit v j))"

lemma smeared_one: "smeared v 1 v"
  by (auto simp: smeared_def less_Suc_eq_le)

lemma smeared_step:
  assumes "smeared v s x"
  shows "smeared v (s + s) (x OR drop_bit s x)"
proof -
  have "(\<exists>j. i \<le> j \<and> j < i + s \<and> bit v j) \<or> (\<exists>j. s + i \<le> j \<and> j < s + i + s \<and> bit v j) \<longleftrightarrow>
        (\<exists>j. i \<le> j \<and> j < i + (s + s) \<and> bit v j)" (is "?l i \<longleftrightarrow> ?r i") for i
  proof
    assume "?l i"
    then obtain j where "i \<le> j \<and> j < i + (s + s) \<and> bit v j"
      by (elim disjE exE conjE) (fastforce dest: add_leD2)+
    then show "?r i" by blast
  next
    assume "?r i"
    then obtain j where j: "i \<le> j" "j < i + (s + s)" "bit v j" by blast
    show "?l i"
    proof (cases "j < i + s")
      case True then show ?thesis using j by blast
    next
      case False
      then have "s + i \<le> j" "j < s + i + s" using j by linarith+
      then show ?thesis using j(3) by blast
    qed
  qed
  then show ?thesis using assms by (simp add: smeared_def bit_or_iff bit_drop_bit_eq)
qed

lemma smeared_all:
  assumes "smeared v 32 x"
  shows "bit x i \<longleftrightarrow> (\<exists>j\<ge>i. bit v j)"
proof -
  have "bit v j \<Longrightarrow> j < 32" for j using bit_imp_le_length [of v j] by simp
  then show ?thesis using assms by (auto simp: smeared_def) (metis le_add2 less_le_trans)
qed

lemma smear_mask:
  assumes "smeared v 32 x" "v \<noteq> 0"
  shows "\<exists>m < 32. bit v m \<and> (\<forall>j. bit v j \<longrightarrow> j \<le> m) \<and> x = mask (m + 1)"
proof -
  have b: "bit v j \<Longrightarrow> j < 32" for j using bit_imp_le_length [of v j] by simp
  obtain k where k: "bit v k" using assms(2) by (metis bit_0_eq bit_word_eqI bot_apply bot_bool_def)
  define m where "m = (GREATEST j. bit v j)"
  have m: "bit v m" unfolding m_def by (rule GreatestI_nat [of _ k 32]) (use k b in \<open>auto intro: less_imp_le\<close>)
  have g: "bit v j \<Longrightarrow> j \<le> m" for j
    unfolding m_def by (rule Greatest_le_nat [of _ j 32]) (use b in \<open>auto intro: less_imp_le\<close>)
  have "x = mask (m + 1)"
  proof (rule bit_word_eqI)
    fix n assume "n < LENGTH(32)"
    then show "bit x n = bit (mask (m + 1) :: u32) n"
      using smeared_all [OF assms(1), of n] m g b [OF m] by (auto simp: bit_mask_iff less_Suc_eq_le intro: le_trans)
  qed
  then show ?thesis using m g b by blast
qed

lemma next_power_smear:
  "\<exists>x. smeared (val - 1) 32 x \<and> next_power_of_two val = x + 1"
proof -
  define v0 where "v0 = val - 1"
  define v1 where "v1 = v0 OR drop_bit 1 v0"
  define v2 where "v2 = v1 OR drop_bit 2 v1"
  define v3 where "v3 = v2 OR drop_bit 4 v2"
  define v4 where "v4 = v3 OR drop_bit 8 v3"
  define v5 where "v5 = v4 OR drop_bit 16 v4"
  have "smeared v0 2 v1" using smeared_step [OF smeared_one, of v0] unfolding v1_def one_add_one .
  from smeared_step [OF this] have "smeared v0 4 v2" unfolding v2_def by simp
  from smeared_step [OF this] have "smeared v0 8 v3" unfolding v3_def by simp
  from smeared_step [OF this] have "smeared v0 16 v4" unfolding v4_def by simp
  from smeared_step [OF this] have "smeared v0 32 v5" unfolding v5_def by simp
  moreover have "next_power_of_two val = v5 + 1"
    by (simp only: next_power_of_two_def Let_def v5_def v4_def v3_def v2_def v1_def v0_def)
  ultimately show ?thesis unfolding v0_def by blast
qed

lemma unat_mask32: "n < 32 \<Longrightarrow> unat (mask n :: u32) = 2 ^ n - 1"
proof -
  assume n: "n < 32"
  have "unat (mask n :: u32) = mask n"
    by (rule bit_eqI) (use n in \<open>auto simp: bit_unsigned_iff bit_mask_iff\<close>)
  then show ?thesis by (simp add: mask_eq_exp_minus_1)
qed

lemma bit_le_unat: "bit (v :: u32) m \<Longrightarrow> 2 ^ m \<le> unat v"
proof -
  assume "bit v m"
  then have "bit (unat v) m" by (simp add: bit_unsigned_iff)
  then have "odd (unat v div 2 ^ m)" by (rule iffD1 [OF bit_iff_odd])
  then show ?thesis by (cases "unat v < 2 ^ m") auto
qed

lemma unat_less_exp:
  assumes "\<forall>j. bit (v :: u32) j \<longrightarrow> j \<le> m" "m < 32"
  shows "unat v < 2 ^ (m + 1)"
proof -
  have "take_bit (m + 1) v = v"
    by (rule bit_word_eqI) (use assms in \<open>auto simp: bit_take_bit_iff less_Suc_eq_le\<close>)
  then show ?thesis
    by (metis unsigned_take_bit_eq take_bit_nat_less_exp)
qed

lemma next_power_of_two_ok:
  assumes "1 \<le> unat val" "unat val \<le> 2 ^ 31"
  shows "\<exists>m \<le> 31. unat (next_power_of_two val) = 2 ^ m \<and> unat val \<le> 2 ^ m \<and> (m = 0 \<or> 2 ^ (m - 1) < unat val)"
proof -
  obtain x where x: "smeared (val - 1) 32 x" "next_power_of_two val = x + 1"
    using next_power_smear by blast
  have d: "unat (val - 1) = unat val - 1" using assms by (simp add: unat_dec)
  show ?thesis
  proof (cases "val - 1 = 0")
    case True
    then have "x = 0" using x(1) unfolding True smeared_def by (intro bit_word_eqI) auto
    moreover have "unat val = 1" using True by simp
    ultimately show ?thesis using x(2) by (intro exI [of _ 0]) simp
  next
    case False
    obtain m where m: "m < 32" "bit (val - 1) m" "\<forall>j. bit (val - 1) j \<longrightarrow> j \<le> m" "x = mask (m + 1)"
      using smear_mask [OF x(1) False] by blast
    have lo: "2 ^ m \<le> unat val - 1" using bit_le_unat [OF m(2)] d by simp
    have hi: "unat val - 1 < 2 ^ (m + 1)" using unat_less_exp [OF m(3,1)] d by simp
    have "(2 :: nat) ^ m < 2 ^ 31" using lo assms by linarith
    then have m30: "m < 31" by (rule power_less_imp_less_exp [rotated]) simp
    have ux: "unat x = 2 ^ (m + 1) - 1" using m30 by (simp only: m(4) unat_mask32)
    have p: "(2 :: nat) ^ (m + 1) \<le> 2 ^ 31" using m30 by (intro power_increasing) auto
    have "unat (x + 1) = 2 ^ (m + 1)" using ux p by (subst unat_inc) auto
    then show ?thesis using lo hi x(2) m30 assms(1) by (intro exI [of _ "m + 1"]) auto
  qed
qed

section \<open>The invariant of the table and the queues\<close>

text \<open>\<open>slot_at L i\<close> is the entry of file descriptor \<open>i\<close>, NULL beyond the table.\<close>

definition slot_at :: "'a iloop_scheme \<Rightarrow> nat \<Rightarrow> wslot" where
  "slot_at L i = (if i < unat (nwatchers L) then watchers L ! i else NoWatcher)"

definition registered :: "'a iloop_scheme \<Rightarrow> addr \<Rightarrow> bool" where
  "registered L w \<longleftrightarrow> 0 \<le> io_fd (ios L w) \<and> slot_at L (nat (io_fd (ios L w))) = Watcher w"

definition watched_fds :: "'a iloop_scheme \<Rightarrow> nat set" where
  "watched_fds L = {i. slot_at L i \<noteq> NoWatcher}"

definition io_inv :: "'a iloop_scheme \<Rightarrow> bool" where
  "io_inv L \<longleftrightarrow>
     (if watchers L = [] then nwatchers L = 0 else length (watchers L) = unat (nwatchers L) + 2) \<and>
     unat (nfds L) = card (watched_fds L) \<and>
     (\<forall>i w. slot_at L i = Watcher w \<longrightarrow> io_fd (ios L w) = int i \<and> pevents (ios L w) \<noteq> 0) \<and>
     (\<forall>i n. slot_at L i \<noteq> EventList \<and> slot_at L i \<noteq> EventCount n) \<and>
     distinct (watcher_queue L) \<and> (\<forall>w \<in> set (watcher_queue L). registered L w) \<and>
     (\<forall>w. pevents (ios L w) \<noteq> 0 \<or> io_events (ios L w) \<noteq> 0 \<longrightarrow> registered L w) \<and>
     distinct (pending_queue L @ pending_run L)"

lemma finite_watched [simp]: "finite (watched_fds L)"
proof (rule finite_subset)
  show "watched_fds L \<subseteq> {..< unat (nwatchers L)}" by (auto simp: watched_fds_def slot_at_def split: if_splits)
qed simp

text \<open>Enlarging the table changes no entry.\<close>

lemma maybe_resize_ok:
  assumes inv: "if watchers L = [] then nwatchers L = 0 else length (watchers L) = unat (nwatchers L) + 2"
    and len: "unat len + 2 \<le> 2 ^ 31"
    and alloc: "\<forall>n. realloc_ok n"
  shows "\<exists>ws nw. maybe_resize realloc_ok len L = Some (L\<lparr>watchers := ws, nwatchers := nw\<rparr>) \<and>
           unat len \<le> unat nw \<and> unat (nwatchers L) \<le> unat nw \<and>
           (if ws = [] then nw = 0 else length ws = unat nw + 2) \<and>
           (\<forall>i. (if i < unat nw then ws ! i else NoWatcher) = slot_at L i) \<and>
           (watchers L \<noteq> [] \<longrightarrow> ws ! unat nw = watchers L ! unat (nwatchers L) \<and>
              ws ! (unat nw + 1) = watchers L ! (unat (nwatchers L) + 1))"
proof (cases "len \<le> nwatchers L")
  case True
  then show ?thesis using inv
    by (intro exI [of _ "watchers L"] exI [of _ "nwatchers L"])
       (simp add: maybe_resize_def slot_at_def word_le_nat_alt)
next
  case False
  define n where "n = unat (nwatchers L)"
  define p where "p = next_power_of_two (len + 2)"
  define fake where "fake = (if watchers L \<noteq> [] then [watchers L ! n, watchers L ! (n + 1)]
                       else [NoWatcher, NoWatcher])"
  have l2: "unat (len + 2) = unat len + 2" using len by (simp add: unat_word_ariths)
  obtain m where m: "unat p = 2 ^ m" "unat len + 2 \<le> 2 ^ m" "m \<le> 31"
    using next_power_of_two_ok [of "len + 2"] l2 len by (auto simp: p_def)
  have "(2 :: nat) ^ m \<le> 2 ^ 31" using m(3) by (intro power_increasing) auto
  have "(2 :: u32) \<le> p" using m by (simp add: word_le_nat_alt)
  then have p2: "unat (p - 2) = unat p - 2" by (simp add: unat_sub)
  define nw where "nw = p - 2"
  have nw: "unat len \<le> unat nw" "n < unat nw" using m(1,2) p2 False by (auto simp: nw_def n_def word_le_nat_alt)
  define ws where "ws = take n (watchers L) @ replicate (unat nw - n) NoWatcher @ fake"
  have tl: "length (take n (watchers L)) = n" using inv by (auto simp: n_def split: if_splits)
  have len_ws: "length ws = unat nw + 2" "ws \<noteq> []" using tl nw by (auto simp: ws_def fake_def)
  have get: "(if i < unat nw then ws ! i else NoWatcher) = slot_at L i" for i
    using tl nw by (auto simp: ws_def slot_at_def nth_append simp flip: n_def)
  have fk: "watchers L \<noteq> [] \<Longrightarrow> ws ! unat nw = watchers L ! n" "watchers L \<noteq> [] \<Longrightarrow> ws ! (unat nw + 1) = watchers L ! (n + 1)"
    using tl nw by (auto simp: ws_def nth_append fake_def)
  have "maybe_resize realloc_ok len L = Some (L\<lparr>watchers := ws, nwatchers := nw\<rparr>)"
    using False alloc by (simp add: maybe_resize_def Let_def ws_def nw_def p_def fake_def n_def)
  then show ?thesis using nw len_ws get fk by (intro exI [of _ ws] exI [of _ nw]) (simp add: n_def)
qed

lemma slot_at_upd [simp]:
  "slot_at (L\<lparr>watcher_queue := q\<rparr>) i = slot_at L i"
  "slot_at (L\<lparr>nfds := k\<rparr>) i = slot_at L i"
  "slot_at (L\<lparr>pending_queue := q\<rparr>) i = slot_at L i"
  "slot_at (L\<lparr>pending_run := q\<rparr>) i = slot_at L i"
  "slot_at (L\<lparr>ep_events := e\<rparr>) i = slot_at L i"
  "slot_at (set_io w x L) i = slot_at L i"
  by (simp_all add: slot_at_def set_io_def)

lemma set_io_sel [simp]:
  "ios (set_io w x L) = (ios L)(w := x)" "watchers (set_io w x L) = watchers L"
  "nwatchers (set_io w x L) = nwatchers L" "nfds (set_io w x L) = nfds L"
  "watcher_queue (set_io w x L) = watcher_queue L" "pending_queue (set_io w x L) = pending_queue L"
  "pending_run (set_io w x L) = pending_run L" "ep_events (set_io w x L) = ep_events L"
  "active_reqs (set_io w x L) = active_reqs L" "handles (set_io w x L) = handles L"
  "iloop.more (set_io w x L) = iloop.more L"
  "handle_queue (set_io w x L) = handle_queue L" "active_handles (set_io w x L) = active_handles L"
  "closing_handles (set_io w x L) = closing_handles L" "time (set_io w x L) = time L"
  "timer_counter (set_io w x L) = timer_counter L" "timer_heap (set_io w x L) = timer_heap L"
  "timers (set_io w x L) = timers L"
  by (simp_all add: set_io_def)

text \<open>What the operations on watcher \<open>w\<close> leave alone: everything but the table, the queues and
  the event masks of \<open>w\<close>.\<close>

definition io_frame :: "addr \<Rightarrow> 'a iloop_scheme \<Rightarrow> 'a iloop_scheme \<Rightarrow> bool" where
  "io_frame w L L' \<longleftrightarrow>
     tloop.truncate L' = tloop.truncate L \<and> active_reqs L' = active_reqs L \<and>
     pending_queue L' = pending_queue L \<and> pending_run L' = pending_run L \<and>
     ep_events L' = ep_events L \<and> iloop.more L' = iloop.more L \<and>
     (\<forall>v. v \<noteq> w \<longrightarrow> ios L' v = ios L v \<and> (registered L' v \<longleftrightarrow> registered L v)) \<and>
     io_fd (ios L' w) = io_fd (ios L w) \<and> io_cb (ios L' w) = io_cb (ios L w)"

lemma io_inv_slot:
  "io_inv L \<Longrightarrow> slot_at L i = Watcher w \<Longrightarrow> io_fd (ios L w) = int i \<and> pevents (ios L w) \<noteq> 0"
  by (simp add: io_inv_def)

lemma add_flag_nonzero: "e \<noteq> 0 \<Longrightarrow> add_flag p e \<noteq> 0"
  by (simp add: add_flag_def or_eq_0_iff)

lemma slot_insert:
  assumes "i < unat (nwatchers L)" "length (watchers L) = unat (nwatchers L) + 2"
  shows "slot_at (L\<lparr>watchers := (watchers L)[i := s]\<rparr>) j = (if j = i then s else slot_at L j)"
  using assms by (auto simp: slot_at_def)

lemma card_insert_watched:
  assumes "unat (nfds L) = card (watched_fds L)" "slot_at L i = NoWatcher" "i < unat (nwatchers L)"
  shows "unat (nfds L + 1) = card (insert i (watched_fds L))"
proof -
  have "watched_fds L \<subseteq> {..< unat (nwatchers L)} - {i}"
    using assms(2) by (auto simp: watched_fds_def slot_at_def split: if_splits)
  then have "card (watched_fds L) \<le> card ({..< unat (nwatchers L)} - {i})" by (intro card_mono) auto
  also have "\<dots> = unat (nwatchers L) - 1" using assms(3) by simp
  finally have "card (watched_fds L) + 1 < 2 ^ 32" using assms(3) unat_lt32 [of "nwatchers L"] by linarith
  moreover have "i \<notin> watched_fds L" using assms(2) by (simp add: watched_fds_def)
  ultimately show ?thesis using assms(1) by (subst unat_inc) auto
qed

lemma unat_of_int32: "0 \<le> k \<Longrightarrow> k < 2 ^ 32 \<Longrightarrow> unat (word_of_int k :: u32) = nat k"
  by (simp add: unsigned_of_int take_bit_int_eq_self)

text \<open>What a start needs: an open descriptor nobody else watches.\<close>

definition startable :: "'a iloop_scheme \<Rightarrow> addr \<Rightarrow> bool" where
  "startable L w \<longleftrightarrow> 0 \<le> io_fd (ios L w) \<and> io_fd (ios L w) \<le> 2 ^ 31 - 3 \<and>
     slot_at L (nat (io_fd (ios L w))) \<in> {NoWatcher, Watcher w}"

lemma io_start_resized:
  assumes inv: "io_inv L" and st: "startable L w" and ev: "events_ok events" and alloc: "\<forall>n. realloc_ok n"
  defines "x \<equiv> (ios L w)\<lparr>pevents := add_flag (pevents (ios L w)) events\<rparr>"
  shows "\<exists>ws nw. maybe_resize realloc_ok (word_of_int (io_fd (ios L w) + 1)) (set_io w x L) =
             Some (set_io w x (L\<lparr>watchers := ws, nwatchers := nw\<rparr>)) \<and>
           nat (io_fd (ios L w)) < unat nw \<and> length ws = unat nw + 2 \<and>
           (\<forall>i. (if i < unat nw then ws ! i else NoWatcher) = slot_at L i)"
proof -
  let ?fd = "io_fd (ios L w)"
  have fd: "unat (word_of_int (?fd + 1) :: u32) = nat ?fd + 1"
    using unat_of_int32 [of "?fd + 1"] st by (auto simp: startable_def nat_add_distrib simp del: of_int_add)
  have b: "unat (word_of_int (?fd + 1) :: u32) + 2 \<le> 2 ^ 31" using fd st by (auto simp: startable_def)
  have t: "if watchers (set_io w x L) = [] then nwatchers (set_io w x L) = 0
      else length (watchers (set_io w x L)) = unat (nwatchers (set_io w x L)) + 2"
    using inv by (simp add: io_inv_def)
  obtain ws nw where r: "maybe_resize realloc_ok (word_of_int (?fd + 1)) (set_io w x L) =
        Some ((set_io w x L)\<lparr>watchers := ws, nwatchers := nw\<rparr>)"
      "unat (word_of_int (?fd + 1) :: u32) \<le> unat nw" "if ws = [] then nw = 0 else length ws = unat nw + 2"
      "\<forall>i. (if i < unat nw then ws ! i else NoWatcher) = slot_at (set_io w x L) i"
    using maybe_resize_ok [OF t b alloc] by blast
  have sl: "\<forall>i. (if i < unat nw then ws ! i else NoWatcher) = slot_at L i" using r(4) by simp
  have m: "maybe_resize realloc_ok (word_of_int (?fd + 1)) (set_io w x L) =
      Some (set_io w x (L\<lparr>watchers := ws, nwatchers := nw\<rparr>))"
    using r(1) by (simp add: set_io_def)
  have "nat ?fd < unat nw" using fd r(2) by simp
  then show ?thesis using sl m r(3) by (intro exI [of _ ws] exI [of _ nw]) (simp split: if_splits)
qed

lemma io_start_ok:
  assumes inv: "io_inv L" and st: "startable L w" and ev: "events_ok events" and alloc: "\<forall>n. realloc_ok n"
  shows "\<exists>L'. uv__io_start realloc_ok w events L = Some L' \<and> io_inv L' \<and> registered L' w \<and>
           pevents (ios L' w) = add_flag (pevents (ios L w)) events \<and>
           io_events (ios L' w) = io_events (ios L w) \<and>
           (io_events (ios L w) = pevents (ios L' w) \<or> w \<in> set (watcher_queue L')) \<and>
           watched_fds L' = insert (nat (io_fd (ios L w))) (watched_fds L) \<and> io_frame w L L'"
proof -
  let ?fd = "io_fd (ios L w)"
  define x where "x = (ios L w)\<lparr>pevents := add_flag (pevents (ios L w)) events\<rparr>"
  obtain ws nw where r: "maybe_resize realloc_ok (word_of_int (?fd + 1)) (set_io w x L) =
             Some (set_io w x (L\<lparr>watchers := ws, nwatchers := nw\<rparr>))"
      "nat ?fd < unat nw" "length ws = unat nw + 2"
      "\<forall>i. (if i < unat nw then ws ! i else NoWatcher) = slot_at L i"
    using io_start_resized [OF assms] by (auto simp: x_def)
  define L2 where "L2 = set_io w x (L\<lparr>watchers := ws, nwatchers := nw\<rparr>)"
  have xs: "io_fd x = ?fd" "pevents x = add_flag (pevents (ios L w)) events" "io_events x = io_events (ios L w)"
      "io_cb x = io_cb (ios L w)"
    by (simp_all add: x_def)
  have px: "pevents x \<noteq> 0" using ev add_flag_nonzero by (simp add: xs events_ok_def)
  have fd: "0 \<le> ?fd" "?fd < INT_MAX" using st by (auto simp: startable_def)
  have sl: "slot_at L2 i = slot_at L i" for i
    using r(4) [rule_format, of i] by (auto simp: L2_def slot_at_def)
  have fds: "io_fd (ios L2 v) = io_fd (ios L v)" for v by (simp add: L2_def xs)
  have reg: "registered L2 v \<longleftrightarrow> registered L v" for v by (simp add: registered_def sl fds)
  have wf: "watched_fds L2 = watched_fds L" by (simp add: watched_fds_def sl)
  have i2: "length (watchers L2) = unat (nwatchers L2) + 2" "nat ?fd < unat (nwatchers L2)"
      "watcher_queue L2 = watcher_queue L" "nfds L2 = nfds L" "pending_queue L2 = pending_queue L"
      "pending_run L2 = pending_run L" "ios L2 = (ios L)(w := x)"
    using r by (simp_all add: L2_def)
  have fr2: "io_frame w L L2"
    by (simp add: io_frame_def reg xs) (simp add: L2_def xs set_io_def tloop.defs)
  show ?thesis
  proof (cases "io_events x = pevents x")
    case True
    then have "registered L w" using inv px xs(3) by (auto simp: io_inv_def)
    then have "nat ?fd \<in> watched_fds L" by (auto simp: registered_def watched_fds_def)
    have inv2: "io_inv L2"
      using inv px i2 \<open>registered L w\<close> unfolding io_inv_def sl reg wf by (auto simp: xs)
    note \<open>nat ?fd \<in> watched_fds L\<close>
    moreover have "uv__io_start realloc_ok w events L = Some L2"
      using True r(1) px fd ev xs by (simp add: uv__io_start_def Let_def x_def [symmetric] L2_def)
    ultimately show ?thesis
      using inv2 fr2 True \<open>registered L w\<close> by (intro exI [of _ L2]) (auto simp: reg wf i2 xs)
  next
    case False
    define L3 where "L3 = (if w \<notin> set (watcher_queue L2)
                           then L2\<lparr>watcher_queue := watcher_queue L2 @ [w]\<rparr> else L2)"
    define L4 where "L4 = (if watchers L3 ! nat ?fd = NoWatcher
                          then L3\<lparr>watchers := (watchers L3)[nat ?fd := Watcher w], nfds := nfds L3 + 1\<rparr>
                          else L3)"
    have run: "uv__io_start realloc_ok w events L = Some L4"
      using False r(1) fd ev xs i2 by (simp add: uv__io_start_def Let_def x_def [symmetric] L2_def [symmetric] L3_def L4_def)
    have s3: "slot_at L3 i = slot_at L i" for i by (simp add: L3_def sl)
    have i3: "watchers L3 = watchers L2" "nwatchers L3 = nwatchers L2" "nfds L3 = nfds L"
        "ios L3 = (ios L)(w := x)" "pending_queue L3 = pending_queue L" "pending_run L3 = pending_run L"
        "set (watcher_queue L3) = insert w (set (watcher_queue L))" "distinct (watcher_queue L3)"
      using i2 inv by (auto simp: L3_def io_inv_def)
    have free: "watchers L3 ! nat ?fd = slot_at L (nat ?fd)" using i2 i3 s3 [of "nat ?fd"] by (simp add: slot_at_def)
    have own: "slot_at L (nat ?fd) \<in> {NoWatcher, Watcher w}" using st by (simp add: startable_def)
    have s4: "slot_at L4 j = (if j = nat ?fd then Watcher w else slot_at L j)" for j
    proof (cases "slot_at L (nat ?fd) = NoWatcher")
      case True
      then show ?thesis
        using slot_insert [of "nat ?fd" L3 "Watcher w" j] i2 i3 s3 free by (simp add: L4_def)
    next
      case False
      then show ?thesis using own s3 free by (auto simp: L4_def)
    qed
    have wf4: "watched_fds L4 = insert (nat ?fd) (watched_fds L)" by (auto simp: watched_fds_def s4)
    have i4: "nwatchers L4 = nwatchers L2" "length (watchers L4) = unat (nwatchers L2) + 2"
        "ios L4 = (ios L)(w := x)" "pending_queue L4 = pending_queue L" "pending_run L4 = pending_run L"
        "watcher_queue L4 = watcher_queue L3"
      using i2 i3 by (auto simp: L4_def)
    have reg4: "registered L4 v \<longleftrightarrow> v = w \<or> registered L v" for v
    proof -
      have f: "io_fd (ios L4 v) = io_fd (ios L v)" by (simp add: i4 xs)
      show ?thesis
      proof (cases "nat (io_fd (ios L v)) = nat ?fd")
        case True
        then show ?thesis using own fd(1) by (auto simp: registered_def s4 f)
      next
        case False
        then show ?thesis by (auto simp: registered_def s4 f)
      qed
    qed
    have n4: "nfds L4 = (if slot_at L (nat ?fd) = NoWatcher then nfds L + 1 else nfds L)"
      using free i3 by (simp add: L4_def)
    have nf: "unat (nfds L4) = card (watched_fds L4)"
    proof (cases "slot_at L (nat ?fd) = NoWatcher")
      case True
      have "slot_at L2 (nat ?fd) = NoWatcher" using True sl by simp
      then have "unat (nfds L2 + 1) = card (insert (nat ?fd) (watched_fds L2))"
        using inv i2 by (intro card_insert_watched) (auto simp: io_inv_def wf)
      then show ?thesis using True i2 by (simp add: n4 wf4 wf)
    next
      case False
      then have "nat ?fd \<in> watched_fds L" by (simp add: watched_fds_def)
      then show ?thesis using False inv by (simp add: n4 wf4 insert_absorb io_inv_def)
    qed
    have "io_inv L4"
      unfolding io_inv_def
    proof (intro conjI allI ballI impI)
      show "if watchers L4 = [] then nwatchers L4 = 0 else length (watchers L4) = unat (nwatchers L4) + 2"
        using i4 by auto
      show "unat (nfds L4) = card (watched_fds L4)" by (rule nf)
      show "io_fd (ios L4 v) = int i" "pevents (ios L4 v) \<noteq> 0" if "slot_at L4 i = Watcher v" for i v
        using that io_inv_slot [OF inv, of i v] px fd by (auto simp: s4 i4 xs split: if_splits)
      show "slot_at L4 i \<noteq> EventList" "slot_at L4 i \<noteq> EventCount n" for i n
        using inv by (auto simp: s4 io_inv_def)
      show "distinct (watcher_queue L4)" using i3 i4 by simp
      show "registered L4 v" if "v \<in> set (watcher_queue L4)" for v
        using that inv i3 i4 by (auto simp: reg4 io_inv_def)
      show "registered L4 v" if "pevents (ios L4 v) \<noteq> 0 \<or> io_events (ios L4 v) \<noteq> 0" for v
        using that inv by (auto simp: reg4 io_inv_def i4 split: if_splits)
      show "distinct (pending_queue L4 @ pending_run L4)" using inv i4 by (simp add: io_inv_def)
    qed
    moreover have "io_frame w L L4"
      using fr2 by (auto simp: io_frame_def reg4 reg i4) (auto simp: L4_def L3_def tloop.defs i2)
    ultimately show ?thesis
      using run i3 i4 wf4 reg4 by (intro exI [of _ L4]) (simp add: xs)
  qed
qed

lemma card_remove_watched:
  assumes "unat (nfds L) = card (watched_fds L)" "i \<in> watched_fds L"
  shows "unat (nfds L - 1) = card (watched_fds L - {i})" "0 < nfds L"
proof -
  have "0 < card (watched_fds L)" using assms(2) card_gt_0_iff finite_watched by blast
  then show "unat (nfds L - 1) = card (watched_fds L - {i})" "0 < nfds L"
    using assms by (simp_all add: unat_dec word32_gt0)
qed

text \<open>What a stop needs: a descriptor that is not watched by another watcher.\<close>

definition stoppable :: "'a iloop_scheme \<Rightarrow> addr \<Rightarrow> bool" where
  "stoppable L w \<longleftrightarrow> - 1 \<le> io_fd (ios L w) \<and> io_fd (ios L w) < 2 ^ 31 \<and>
     (0 \<le> io_fd (ios L w) \<longrightarrow> slot_at L (nat (io_fd (ios L w))) \<in> {NoWatcher, Watcher w})"

lemma registered_nonneg: "registered L w \<Longrightarrow> 0 \<le> io_fd (ios L w)"
  by (simp add: registered_def)

lemma registered_in_table: "registered L w \<Longrightarrow> nat (io_fd (ios L w)) < unat (nwatchers L)"
  by (auto simp: registered_def slot_at_def split: if_splits)

lemma registered_iff_pevents: "io_inv L \<Longrightarrow> registered L w \<longleftrightarrow> pevents (ios L w) \<noteq> 0"
  by (auto simp: io_inv_def registered_def)

lemma io_stop_unregistered:
  assumes inv: "io_inv L" and st: "stoppable L w" and ev: "events_ok events" and nr: "\<not> registered L w"
  shows "\<exists>L'. uv__io_stop w events L = Some L' \<and> io_inv L' \<and> \<not> registered L' w \<and>
           pevents (ios L' w) = 0 \<and> io_frame w L L'"
proof -
  let ?fd = "io_fd (ios L w)"
  have p: "pevents (ios L w) = 0" using registered_iff_pevents [OF inv] nr by simp
  have nq: "w \<notin> set (watcher_queue L)" using inv nr by (auto simp: io_inv_def)
  then have rq: "removeAll w (watcher_queue L) = watcher_queue L" by simp
  have same: "set_io w (ios L w) L = L" by (simp add: set_io_def)
  have upd: "(ios L w)\<lparr>pevents := 0\<rparr> = ios L w" using p by (metis uv__io.surjective uv__io.update_convs(2) uv__io.select_convs(2))
  have "uv__io_stop w events L = Some L"
  proof (cases "?fd < 0 \<or> (word_of_int ?fd :: u32) \<ge> nwatchers L")
    case True
    have "?fd \<ge> - 1" using st by (simp add: stoppable_def)
    then consider "?fd = - 1" | "0 \<le> ?fd" "(word_of_int ?fd :: u32) \<ge> nwatchers L" using True by linarith
    then show ?thesis
    proof cases
      case 1 then show ?thesis using ev by (simp add: uv__io_stop_def)
    next
      case 2
      then have "?fd \<noteq> - 1" "\<not> ?fd < 0" by linarith+
      then show ?thesis using ev 2(2) by (simp only: uv__io_stop_def Let_def if_True if_False simp_thms)
    qed
  next
    case False
    then have lt: "nat ?fd < unat (nwatchers L)"
      using unat_of_int32 [of ?fd] st by (auto simp: stoppable_def word_less_nat_alt not_le)
    then have "watchers L ! nat ?fd = NoWatcher"
      using st nr False by (auto simp: stoppable_def registered_def slot_at_def split: if_splits)
    then show ?thesis
      using False ev p rq by (simp add: uv__io_stop_def Let_def clear_flag_def upd same)
  qed
  moreover have "io_frame w L L" by (simp add: io_frame_def)
  ultimately show ?thesis using inv nr p by blast
qed

lemma io_stop_registered:
  assumes inv: "io_inv L" and ev: "events_ok events" and rg: "registered L w"
  defines "p \<equiv> clear_flag (pevents (ios L w)) events"
  shows "\<exists>L'. uv__io_stop w events L = Some L' \<and> io_inv L' \<and> (registered L' w \<longleftrightarrow> p \<noteq> 0) \<and>
           pevents (ios L' w) = p \<and> io_frame w L L'"
proof -
  let ?fd = "io_fd (ios L w)"
  have fd: "0 \<le> ?fd" "nat ?fd < unat (nwatchers L)" "slot_at L (nat ?fd) = Watcher w"
    using rg registered_in_table [OF rg] by (simp_all add: registered_def)
  have "nat ?fd < 2 ^ 32" by (rule order_less_trans [OF fd(2) unat_lt32])
  then have bound: "?fd < 2 ^ 32" using fd(1) by (simp add: nat_less_iff)
  have nle: "\<not> nwatchers L \<le> (word_of_int ?fd :: u32)"
    using unat_of_int32 [OF fd(1) bound] fd(2) by (simp add: word_le_nat_alt)
  have wfd: "watchers L ! nat ?fd = Watcher w" using fd by (simp add: slot_at_def)
  have memw: "nat ?fd \<in> watched_fds L" using fd by (simp add: watched_fds_def)
  have c: "unat (nfds L - 1) = card (watched_fds L - {nat ?fd})" "0 < nfds L"
    using inv by (auto intro!: card_remove_watched memw simp: io_inv_def)
  have tab: "length (watchers L) = unat (nwatchers L) + 2"
    using inv fd by (auto simp: io_inv_def slot_at_def split: if_splits)
  define x where "x = (ios L w)\<lparr>pevents := p\<rparr>"
  have slots: "\<And>i v. slot_at L i = Watcher v \<Longrightarrow> io_fd (ios L v) = int i \<and> pevents (ios L v) \<noteq> 0"
    using inv by (simp add: io_inv_def)
  show ?thesis
  proof (cases "p = 0")
    case True
    define L' where "L' = (set_io w (x\<lparr>io_events := 0\<rparr>) L)\<lparr>watcher_queue := removeAll w (watcher_queue L),
        watchers := (watchers L)[nat ?fd := NoWatcher], nfds := nfds L - 1\<rparr>"
    have run: "uv__io_stop w events L = Some L'"
      using True ev fd(1) nle wfd c(2)
      by (simp add: uv__io_stop_def Let_def p_def [symmetric] x_def L'_def)
    have i': "ios L' = (ios L)(w := x\<lparr>io_events := 0\<rparr>)" "nwatchers L' = nwatchers L"
        "length (watchers L') = unat (nwatchers L) + 2" "nfds L' = nfds L - 1"
        "watcher_queue L' = removeAll w (watcher_queue L)" "pending_queue L' = pending_queue L"
        "pending_run L' = pending_run L"
      using tab by (simp_all add: L'_def)
    have f: "io_fd (ios L' v) = io_fd (ios L v)" for v by (simp add: i' x_def)
    have sl: "slot_at L' j = (if j = nat ?fd then NoWatcher else slot_at L j)" for j
      using fd(2) tab by (auto simp: slot_at_def L'_def)
    have wf: "watched_fds L' = watched_fds L - {nat ?fd}" by (auto simp: watched_fds_def sl)
    have reg: "registered L' v \<longleftrightarrow> v \<noteq> w \<and> registered L v" for v
    proof (cases "nat (io_fd (ios L v)) = nat ?fd")
      case True then show ?thesis using fd by (auto simp: registered_def sl f)
    next
      case False then show ?thesis by (auto simp: registered_def sl f)
    qed
    have "io_inv L'"
      unfolding io_inv_def
    proof (intro conjI allI ballI impI)
      show "if watchers L' = [] then nwatchers L' = 0 else length (watchers L') = unat (nwatchers L') + 2"
        using i' by auto
      show "unat (nfds L') = card (watched_fds L')" using c(1) by (simp add: i' wf)
      show "io_fd (ios L' v) = int i" "pevents (ios L' v) \<noteq> 0" if "slot_at L' i = Watcher v" for i v
        using that slots [of i v] f [of v] by (auto simp: sl i' split: if_splits)
      show "slot_at L' i \<noteq> EventList" "slot_at L' i \<noteq> EventCount n" for i n
        using inv by (auto simp: sl io_inv_def)
      show "distinct (watcher_queue L')" using inv by (simp add: i' io_inv_def distinct_removeAll)
      show "registered L' v" if "v \<in> set (watcher_queue L')" for v
        using that inv by (auto simp: reg io_inv_def i')
      show "registered L' v" if "pevents (ios L' v) \<noteq> 0 \<or> io_events (ios L' v) \<noteq> 0" for v
        using that inv True by (auto simp: reg io_inv_def i' x_def split: if_splits)
      show "distinct (pending_queue L' @ pending_run L')" using inv by (simp add: io_inv_def i')
    qed
    moreover have "io_frame w L L'" by (simp add: io_frame_def reg i' x_def) (simp add: L'_def tloop.defs)
    ultimately show ?thesis using run True by (intro exI [of _ L']) (simp add: reg i' x_def)
  next
    case False
    define L' where "L' = (if w \<notin> set (watcher_queue L)
        then (set_io w x L)\<lparr>watcher_queue := watcher_queue L @ [w]\<rparr> else set_io w x L)"
    have run: "uv__io_stop w events L = Some L'"
      using False ev fd(1) nle
      by (simp add: uv__io_stop_def Let_def p_def [symmetric] x_def L'_def)
    have i': "ios L' = (ios L)(w := x)" "nwatchers L' = nwatchers L" "watchers L' = watchers L"
        "nfds L' = nfds L" "pending_queue L' = pending_queue L" "pending_run L' = pending_run L"
        "set (watcher_queue L') = insert w (set (watcher_queue L))" "distinct (watcher_queue L')"
      using inv by (auto simp: L'_def io_inv_def)
    have f: "io_fd (ios L' v) = io_fd (ios L v)" for v by (simp add: i' x_def)
    have sl: "slot_at L' j = slot_at L j" for j by (simp add: slot_at_def i')
    have wf: "watched_fds L' = watched_fds L" by (simp add: watched_fds_def sl)
    have reg: "registered L' v \<longleftrightarrow> registered L v" for v by (simp add: registered_def sl f)
    have "io_inv L'"
      using inv False rg i' unfolding io_inv_def sl wf reg by (auto simp: x_def)
    moreover have "io_frame w L L'" by (simp add: io_frame_def reg i' x_def) (simp add: L'_def tloop.defs)
    ultimately show ?thesis using run False rg by (intro exI [of _ L']) (simp add: reg i' x_def)
  qed
qed

lemma io_stop_ok:
  assumes "io_inv L" and "stoppable L w" and "events_ok events"
  shows "\<exists>L'. uv__io_stop w events L = Some L' \<and> io_inv L' \<and>
           pevents (ios L' w) = clear_flag (pevents (ios L w)) events \<and>
           (registered L' w \<longleftrightarrow> pevents (ios L' w) \<noteq> 0) \<and> io_frame w L L'"
proof (cases "registered L w")
  case True
  then show ?thesis using io_stop_registered [OF assms(1,3)] by fastforce
next
  case False
  have "pevents (ios L w) = 0" using False registered_iff_pevents [OF assms(1)] by simp
  then show ?thesis using io_stop_unregistered [OF assms False] by (auto simp: clear_flag_def)
qed

lemma events_ok_mask [simp]: "events_ok poll_mask" "events_ok POLLIN" "events_ok POLLOUT"
  by (simp_all add: events_ok_def poll_mask_def)

lemma registered_stoppable:
  assumes "io_inv L" "registered L w" "unat (nwatchers L) \<le> 2 ^ 31"
  shows "stoppable L w"
proof -
  have "nat (io_fd (ios L w)) < 2 ^ 31"
    by (rule less_le_trans [OF registered_in_table [OF assms(2)] assms(3)])
  then show ?thesis using assms(2) by (auto simp: stoppable_def registered_def nat_less_iff)
qed

section \<open>Properties\<close>

text \<open>\<open>next_power_of_two\<close> is the least power of two that is at least its argument, for every
  argument from 1 to \<open>2 ^ 31\<close>.\<close>

theorem next_power_of_two_correct:
  assumes "1 \<le> unat val" "unat val \<le> 2 ^ 31"
  shows "\<exists>m. unat (next_power_of_two val) = 2 ^ m \<and> unat val \<le> 2 ^ m \<and> (\<forall>k. unat val \<le> 2 ^ k \<longrightarrow> m \<le> k)"
proof -
  obtain m where m: "unat (next_power_of_two val) = 2 ^ m" "unat val \<le> 2 ^ m" "m = 0 \<or> 2 ^ (m - 1) < unat val"
    using next_power_of_two_ok [OF assms] by blast
  have "m \<le> k" if k: "unat val \<le> 2 ^ k" for k
  proof (rule ccontr)
    assume "\<not> m \<le> k"
    then have "(2 :: nat) ^ k \<le> 2 ^ (m - 1)" by (intro power_increasing) auto
    then have "unat val \<le> 2 ^ (m - 1)" by (rule order_trans [OF k])
    then show False using m(3) \<open>\<not> m \<le> k\<close> by auto
  qed
  then show ?thesis using m by blast
qed

theorem next_power_of_two_correct_witness: "\<exists>m. unat (next_power_of_two 5) = 2 ^ m \<and> 5 \<le> (2 :: nat) ^ m"
  using next_power_of_two_correct [of 5] by auto

text \<open>\<open>uv__io_start\<close> on an open descriptor that no other watcher has, meets no failed assertion,
  grows the table as far as needed without changing another entry, enters the watcher, counts its
  descriptor once, asks for the union of the old and the new events, and queues the watcher for the
  kernel whenever that differs from what the kernel was told.\<close>

theorem io_start_correct:
  assumes "io_inv L" and "startable L w" and "events_ok events" and "\<forall>n. realloc_ok n"
  shows "\<exists>L'. uv__io_start realloc_ok w events L = Some L' \<and> io_inv L' \<and>
           slot_at L' (nat (io_fd (ios L w))) = Watcher w \<and>
           pevents (ios L' w) = pevents (ios L w) OR events \<and>
           (io_events (ios L' w) \<noteq> pevents (ios L' w) \<longrightarrow> w \<in> set (watcher_queue L')) \<and>
           unat (nfds L') = card (insert (nat (io_fd (ios L w))) (watched_fds L)) \<and>
           (\<forall>v. v \<noteq> w \<longrightarrow> ios L' v = ios L v \<and> registered L' v = registered L v)"
proof -
  obtain L' where L': "uv__io_start realloc_ok w events L = Some L'" "io_inv L'" "registered L' w"
      "pevents (ios L' w) = add_flag (pevents (ios L w)) events" "io_events (ios L' w) = io_events (ios L w)"
      "io_events (ios L w) = pevents (ios L' w) \<or> w \<in> set (watcher_queue L')"
      "watched_fds L' = insert (nat (io_fd (ios L w))) (watched_fds L)" "io_frame w L L'"
    using io_start_ok [OF assms] by blast
  then show ?thesis
    by (intro exI [of _ L']) (auto simp: io_frame_def registered_def add_flag_def io_inv_def [of L'])
qed

text \<open>\<open>uv__io_stop\<close> meets no failed assertion, clears exactly the given events of the watcher,
  takes it out of the table (and out of the count) when no event is left and otherwise leaves it
  there, queued for the kernel; other watchers are untouched.\<close>

theorem io_stop_correct:
  assumes "io_inv L" and "stoppable L w" and "events_ok events"
  shows "\<exists>L'. uv__io_stop w events L = Some L' \<and> io_inv L' \<and>
           pevents (ios L' w) = pevents (ios L w) AND NOT events \<and>
           (registered L' w \<longleftrightarrow> pevents (ios L w) AND NOT events \<noteq> 0) \<and>
           unat (nfds L') = card (watched_fds L') \<and>
           (\<forall>v. v \<noteq> w \<longrightarrow> ios L' v = ios L v \<and> registered L' v = registered L v)"
proof -
  obtain L' where L': "uv__io_stop w events L = Some L'" "io_inv L'"
      "pevents (ios L' w) = clear_flag (pevents (ios L w)) events"
      "registered L' w \<longleftrightarrow> pevents (ios L' w) \<noteq> 0" "io_frame w L L'"
    using io_stop_ok [OF assms] by blast
  then show ?thesis
    by (intro exI [of _ L']) (simp add: io_frame_def clear_flag_def io_inv_def [of L'])
qed

text \<open>A callback that notes its call and, if \<open>again w\<close>, feeds its watcher once more.\<close>

definition log_feed ::
  "(addr \<Rightarrow> bool) \<Rightarrow> nat \<Rightarrow> addr \<Rightarrow> u32 \<Rightarrow> (nat \<times> addr \<times> u32) list iloop_scheme \<Rightarrow> (nat \<times> addr \<times> u32) list iloop_scheme option" where
  "log_feed again cb w e L =
     Some (iloop.more_update (\<lambda>l. l @ [(cb, w, e)]) (if again w then uv__io_feed w L else L))"

lemma run_pending_loop_log:
  assumes "pending_run L = ws" "distinct (pending_queue L @ ws)"
  shows "\<exists>L'. run_pending_loop (log_feed again) L = Some L' \<and> pending_run L' = [] \<and>
           pending_queue L' = pending_queue L @ filter again ws \<and> ios L' = ios L \<and>
           iloop.more L' = iloop.more L @ map (\<lambda>w. (io_cb (ios L w), w, POLLOUT)) ws"
  using assms
proof (induction ws arbitrary: L)
  case Nil
  then show ?case by (simp add: run_pending_loop.simps)
next
  case (Cons w ws)
  define L1 where "L1 = iloop.more_update (\<lambda>l. l @ [(io_cb (ios L w), w, POLLOUT)])
      (if again w then uv__io_feed w (L\<lparr>pending_run := ws\<rparr>) else L\<lparr>pending_run := ws\<rparr>)"
  have l1: "pending_run L1 = ws" "pending_queue L1 = pending_queue L @ (if again w then [w] else [])"
      "ios L1 = ios L" "iloop.more L1 = iloop.more L @ [(io_cb (ios L w), w, POLLOUT)]"
    using Cons.prems by (auto simp: L1_def uv__io_feed_def)
  have "run_pending_loop (log_feed again) L = run_pending_loop (log_feed again) L1"
    using Cons.prems(1) by (subst run_pending_loop.simps) (simp add: log_feed_def L1_def)
  moreover obtain L' where "run_pending_loop (log_feed again) L1 = Some L'" "pending_run L' = []"
      "pending_queue L' = pending_queue L1 @ filter again ws" "ios L' = ios L1"
      "iloop.more L' = iloop.more L1 @ map (\<lambda>w. (io_cb (ios L1 w), w, POLLOUT)) ws"
    using Cons.IH [OF l1(1)] Cons.prems(2) l1 by (auto split: if_splits)
  ultimately show ?case using l1 by (intro exI [of _ L']) auto
qed

text \<open>One \<open>uv__run_pending\<close> calls the callback of every pending watcher exactly once, with
  POLLOUT and in the order they were fed, even when callbacks feed their watcher again: those are
  pending for the next round, so the function returns.\<close>

theorem run_pending_once_in_order:
  assumes "io_inv L" and "pending_run L = []" and "pending_queue L \<noteq> []"
  shows "\<exists>L'. uv__run_pending (log_feed again) L = Some (1, L') \<and>
           iloop.more L' = iloop.more L @ map (\<lambda>w. (io_cb (ios L w), w, POLLOUT)) (pending_queue L) \<and>
           pending_queue L' = filter again (pending_queue L) \<and> pending_run L' = []"
proof -
  have "distinct (pending_queue L)" using assms(1) by (simp add: io_inv_def)
  then show ?thesis
    using assms(3) run_pending_loop_log [of "L\<lparr>pending_run := pending_queue L, pending_queue := []\<rparr>" "pending_queue L" again]
    by (auto simp: uv__run_pending_def)
qed

text \<open>A loop whose table has room for two descriptors; watcher 7 is for descriptor 1.\<close>

definition sample_iloop :: "(nat \<times> addr \<times> u32) list iloop_scheme" where
  "sample_iloop = \<lparr>active_handles = 0, handle_queue = [], closing_handles = None,
     handles = (\<lambda>_. \<lparr>flags = 0, htype = UV_POLL, next_closing = None\<rparr>),
     time = 10, timer_counter = 0,
     timer_heap = \<lparr>hmin = None, nelts = 0, hmem = (\<lambda>_. \<lparr>left = None, right = None, parent = None\<rparr>)\<rparr>,
     timers = (\<lambda>_. \<lparr>timer_cb = None, timeout = 0, repeat = 0, start_id = 0\<rparr>),
     active_reqs = [], watchers = [NoWatcher, Watcher 7, NoWatcher, NoWatcher], nwatchers = 2, nfds = 1,
     watcher_queue = [7], pending_queue = [7, 8], pending_run = [],
     ios = (\<lambda>_. \<lparr>io_cb = 3, pevents = 0, io_events = 0, io_fd = 5\<rparr>)
       (7 := \<lparr>io_cb = 2, pevents = POLLIN, io_events = 0, io_fd = 1\<rparr>), ep_events = [], \<dots> = []\<rparr>"

lemma sample_iloop_slots: "slot_at sample_iloop i = (if i = 1 then Watcher 7 else NoWatcher)"
  by (auto simp: slot_at_def sample_iloop_def less_2_cases_iff)

lemma sample_iloop_inv: "io_inv sample_iloop"
proof -
  have wf: "watched_fds sample_iloop = {1}" by (auto simp: watched_fds_def sample_iloop_slots)
  have rg: "registered sample_iloop w \<longleftrightarrow> w = 7" for w
    by (auto simp: registered_def sample_iloop_slots) (auto simp: sample_iloop_def)
  show ?thesis
    unfolding io_inv_def wf rg sample_iloop_slots by (auto simp: sample_iloop_def split: if_splits)
qed

theorem io_start_correct_witness:
  "\<exists>L'. uv__io_start (\<lambda>_. True) 9 POLLOUT sample_iloop = Some L' \<and> slot_at L' 5 = Watcher 9 \<and> unat (nfds L') = 2"
proof -
  have st: "startable sample_iloop 9" by (simp add: startable_def sample_iloop_slots) (simp add: sample_iloop_def)
  have "io_fd (ios sample_iloop 9) = 5" "watched_fds sample_iloop = {1}"
    by (auto simp: watched_fds_def sample_iloop_slots) (simp add: sample_iloop_def)
  then show ?thesis
    using io_start_correct [OF sample_iloop_inv st events_ok_mask(3), of "\<lambda>_. True"] by auto
qed

theorem io_stop_correct_witness:
  "\<exists>L'. uv__io_stop 7 POLLIN sample_iloop = Some L' \<and> \<not> registered L' 7"
proof -
  have st: "stoppable sample_iloop 7" by (simp add: stoppable_def sample_iloop_slots) (simp add: sample_iloop_def)
  have "pevents (ios sample_iloop 7) = POLLIN" by (simp add: sample_iloop_def)
  then show ?thesis using io_stop_correct [OF sample_iloop_inv st events_ok_mask(2)] by auto
qed

theorem run_pending_once_in_order_witness:
  "\<exists>L'. uv__run_pending (log_feed (\<lambda>w. w = 8)) sample_iloop = Some (1, L') \<and>
        iloop.more L' = [(2, 7, POLLOUT), (3, 8, POLLOUT)] \<and> pending_queue L' = [8]"
  using run_pending_once_in_order [OF sample_iloop_inv, of "\<lambda>w. w = 8"] by (auto simp: sample_iloop_def)

end
