(* ===== verification/LoopWatcher.thy ===== *)
theory LoopWatcher
  imports IoWatcher
begin

text \<open>
  Prepare, check and idle handles: \<open>src/src/libuv/src/unix/loop-watcher.c\<close> defines the same five
  functions for each of the three kinds by one macro; here the kind is an argument.  \<open>lw_run\<close> is
  the queue on the stack of a running \<open>uv__run_<name>\<close>, from which a handle that is stopped
  meanwhile is taken as well.
\<close>

section \<open>Data\<close>

datatype lw_kind = Prepare | Check | Idle

fun lw_type :: "lw_kind \<Rightarrow> handle_type" where
  "lw_type Prepare = UV_PREPARE"
| "lw_type Check = UV_CHECK"
| "lw_type Idle = UV_IDLE"

record wloop = iloop +
  lw_handles :: "lw_kind \<Rightarrow> addr list"
  lw_run :: "lw_kind \<Rightarrow> addr list"
  lw_cb :: "addr \<Rightarrow> nat option"

section \<open>Operations\<close>

definition uv_lw_init :: "lw_kind \<Rightarrow> addr \<Rightarrow> 'a wloop_scheme \<Rightarrow> int \<times> 'a wloop_scheme" where
  "uv_lw_init k a L =
     (let L1 = uv__handle_init a (lw_type k) L
      in (0, L1\<lparr>lw_cb := (lw_cb L1)(a := None)\<rparr>))"

definition uv_lw_start :: "lw_kind \<Rightarrow> addr \<Rightarrow> nat option \<Rightarrow> 'a wloop_scheme \<Rightarrow> int \<times> 'a wloop_scheme" where
  "uv_lw_start k a cb L =
     (if uv__is_active L a then (0, L)
      else if cb = None then (UV_EINVAL, L)
      else
        let L1 = L\<lparr>lw_handles := (lw_handles L)(k := a # lw_handles L k)\<rparr>;
            L2 = L1\<lparr>lw_cb := (lw_cb L1)(a := cb)\<rparr>
        in (0, uv__handle_start a L2))"

definition uv_lw_stop :: "lw_kind \<Rightarrow> addr \<Rightarrow> 'a wloop_scheme \<Rightarrow> int \<times> 'a wloop_scheme" where
  "uv_lw_stop k a L =
     (if \<not> uv__is_active L a then (0, L)
      else
        let L1 = L\<lparr>lw_handles := (lw_handles L)(k := removeAll a (lw_handles L k)),
                   lw_run := (lw_run L)(k := removeAll a (lw_run L k))\<rparr>
        in (0, uv__handle_stop a L1))"

partial_function (option) run_lw_loop ::
  "lw_kind \<Rightarrow> (nat \<Rightarrow> addr \<Rightarrow> 'a wloop_scheme \<Rightarrow> 'a wloop_scheme option) \<Rightarrow>
   'a wloop_scheme \<Rightarrow> 'a wloop_scheme option" where
  "run_lw_loop k call L =
     (case lw_run L k of
        [] \<Rightarrow> Some L
      | q # qs \<Rightarrow>
          let L1 = L\<lparr>lw_run := (lw_run L)(k := qs)\<rparr>;
              L2 = L1\<lparr>lw_handles := (lw_handles L1)(k := lw_handles L1 k @ [q])\<rparr>
          in Option.bind (lw_cb L2 q) (\<lambda>cb. Option.bind (call cb q L2) (run_lw_loop k call)))"

definition uv__run_lw ::
  "lw_kind \<Rightarrow> (nat \<Rightarrow> addr \<Rightarrow> 'a wloop_scheme \<Rightarrow> 'a wloop_scheme option) \<Rightarrow>
   'a wloop_scheme \<Rightarrow> 'a wloop_scheme option" where
  "uv__run_lw k call L =
     run_lw_loop k call (L\<lparr>lw_run := (lw_run L)(k := lw_handles L k),
                           lw_handles := (lw_handles L)(k := [])\<rparr>)"

definition uv__lw_close :: "lw_kind \<Rightarrow> addr \<Rightarrow> 'a wloop_scheme \<Rightarrow> 'a wloop_scheme" where
  "uv__lw_close k a L = snd (uv_lw_stop k a L)"

section \<open>The invariant\<close>

definition lw_active :: "lw_kind \<Rightarrow> 'a wloop_scheme \<Rightarrow> addr set" where
  "lw_active k L = {a \<in> set (handle_queue L). htype (handles L a) = lw_type k \<and> uv__is_active L a}"

definition lw_inv :: "lw_kind \<Rightarrow> 'a wloop_scheme \<Rightarrow> bool" where
  "lw_inv k L \<longleftrightarrow> handle_inv L \<and> distinct (lw_handles L k @ lw_run L k) \<and>
     set (lw_handles L k @ lw_run L k) = lw_active k L \<and>
     (\<forall>a \<in> lw_active k L. lw_cb L a \<noteq> None)"

lemma wloop_upd_flags [simp]:
  "uv__is_active (L\<lparr>lw_handles := f\<rparr>) b = uv__is_active L b"
  "uv__has_ref (L\<lparr>lw_handles := f\<rparr>) b = uv__has_ref L b"
  "uv__is_active (L\<lparr>lw_run := f\<rparr>) b = uv__is_active L b"
  "uv__has_ref (L\<lparr>lw_run := f\<rparr>) b = uv__has_ref L b"
  "uv__is_active (L\<lparr>lw_cb := g\<rparr>) b = uv__is_active L b"
  "uv__has_ref (L\<lparr>lw_cb := g\<rparr>) b = uv__has_ref L b"
  "uv__is_active (wloop.more_update h L) b = uv__is_active L b"
  "uv__has_ref (wloop.more_update h L) b = uv__has_ref L b"
  by (simp_all add: uv__is_active_def uv__has_ref_def hflags_def)

lemma wloop_upd_inv [simp]:
  "handle_inv (L\<lparr>lw_handles := f\<rparr>) = handle_inv L"
  "handle_inv (L\<lparr>lw_run := f\<rparr>) = handle_inv L"
  "handle_inv (L\<lparr>lw_cb := g\<rparr>) = handle_inv L"
  "handle_inv (wloop.more_update h L) = handle_inv L"
  "lw_active k (L\<lparr>lw_handles := f\<rparr>) = lw_active k L"
  "lw_active k (L\<lparr>lw_run := f\<rparr>) = lw_active k L"
  "lw_active k (L\<lparr>lw_cb := g\<rparr>) = lw_active k L"
  "lw_active k (wloop.more_update h L) = lw_active k L"
  by (simp_all add: handle_inv_def live_handles_def lw_active_def)

lemma lw_inv_more [simp]: "lw_inv k (wloop.more_update h L) = lw_inv k L"
  by (simp add: lw_inv_def)

lemma wloop_handle_ops [simp]:
  "lw_handles (uv__handle_start a L) = lw_handles L" "lw_handles (uv__handle_stop a L) = lw_handles L"
  "lw_run (uv__handle_start a L) = lw_run L" "lw_run (uv__handle_stop a L) = lw_run L"
  "lw_cb (uv__handle_start a L) = lw_cb L" "lw_cb (uv__handle_stop a L) = lw_cb L"
  "wloop.more (uv__handle_start a L) = wloop.more L" "wloop.more (uv__handle_stop a L) = wloop.more L"
  by (simp_all add: handle_ops_defs set_flags_def)

lemma lw_active_start:
  "lw_active k (uv__handle_start a L) =
     (if a \<in> set (handle_queue L) \<and> htype (handles L a) = lw_type k then insert a (lw_active k L) else lw_active k L)"
  by (auto simp: lw_active_def)

lemma lw_active_stop: "lw_active k (uv__handle_stop a L) = lw_active k L - {a}"
  by (auto simp: lw_active_def)

lemma lw_start_inv:
  assumes inv: "lw_inv k L" and a: "a \<in> set (handle_queue L)" "htype (handles L a) = lw_type k"
  shows "lw_inv k (snd (uv_lw_start k a cb L))"
proof (cases "uv__is_active L a \<or> cb = None")
  case True
  then show ?thesis using inv by (auto simp: uv_lw_start_def)
next
  case False
  then have "a \<notin> lw_active k L" by (simp add: lw_active_def)
  then show ?thesis
    using False inv a handle_start_inv
    by (auto simp: uv_lw_start_def lw_inv_def lw_active_start)
qed

lemma lw_stop_inv:
  assumes inv: "lw_inv k L" and a: "a \<in> set (handle_queue L)"
  shows "lw_inv k (snd (uv_lw_stop k a L))"
  using inv a handle_stop_inv
  by (auto simp: uv_lw_stop_def lw_inv_def lw_active_stop distinct_removeAll)

section \<open>Running the handles of a kind\<close>

text \<open>The callback of handle \<open>q\<close> notes its call and stops the handles \<open>stops q\<close>.\<close>

definition log_stop ::
  "lw_kind \<Rightarrow> (addr \<Rightarrow> addr list) \<Rightarrow> nat \<Rightarrow> addr \<Rightarrow> (nat \<times> addr) list wloop_scheme \<Rightarrow> (nat \<times> addr) list wloop_scheme option" where
  "log_stop k stops cb q L =
     Some (wloop.more_update (\<lambda>l. l @ [(cb, q)]) (fold (\<lambda>b M. snd (uv_lw_stop k b M)) (stops q) L))"

text \<open>Which handles of a list are called, when some are stopped already.\<close>

fun fired_in_order :: "(addr \<Rightarrow> addr list) \<Rightarrow> addr set \<Rightarrow> addr list \<Rightarrow> addr list" where
  "fired_in_order stops S [] = []"
| "fired_in_order stops S (q # qs) =
     (if q \<in> S then fired_in_order stops S qs
      else q # fired_in_order stops (S \<union> set (stops q)) qs)"

lemma lw_stop_fields:
  assumes "lw_inv k L" "a \<in> set (handle_queue L)" "htype (handles L a) = lw_type k"
  defines "L' \<equiv> snd (uv_lw_stop k a L)"
  shows "lw_handles L' k = removeAll a (lw_handles L k)" "lw_run L' k = removeAll a (lw_run L k)"
    "lw_cb L' = lw_cb L" "wloop.more L' = wloop.more L" "handle_queue L' = handle_queue L"
    "htype (handles L' b) = htype (handles L b)"
proof -
  have "\<not> uv__is_active L a \<Longrightarrow> a \<notin> set (lw_handles L k) \<and> a \<notin> set (lw_run L k)"
    using assms(1) by (auto simp: lw_inv_def lw_active_def)
  then show "lw_handles L' k = removeAll a (lw_handles L k)" "lw_run L' k = removeAll a (lw_run L k)"
    by (auto simp: L'_def uv_lw_stop_def)
qed (simp_all add: L'_def uv_lw_stop_def Let_def)

definition are_kind :: "lw_kind \<Rightarrow> 'a wloop_scheme \<Rightarrow> addr set \<Rightarrow> bool" where
  "are_kind k L S \<longleftrightarrow> S \<subseteq> {a \<in> set (handle_queue L). htype (handles L a) = lw_type k}"

lemma lw_stop_all:
  assumes "lw_inv k L" "are_kind k L (set bs)"
  defines "L' \<equiv> fold (\<lambda>b M. snd (uv_lw_stop k b M)) bs L"
  shows "lw_inv k L' \<and> lw_handles L' k = filter (\<lambda>a. a \<notin> set bs) (lw_handles L k) \<and>
    lw_run L' k = filter (\<lambda>a. a \<notin> set bs) (lw_run L k) \<and> lw_cb L' = lw_cb L \<and>
    wloop.more L' = wloop.more L \<and> handle_queue L' = handle_queue L \<and>
    (\<forall>b. htype (handles L' b) = htype (handles L b))"
  using assms(1,2) unfolding L'_def
proof (induction bs arbitrary: L)
  case (Cons b bs)
  have b: "b \<in> set (handle_queue L)" "htype (handles L b) = lw_type k"
    using Cons.prems(2) by (auto simp: are_kind_def)
  note f = lw_stop_fields [OF Cons.prems(1) b]
  have "are_kind k (snd (uv_lw_stop k b L)) (set bs)"
    using Cons.prems(2) by (auto simp: are_kind_def f)
  note IH = Cons.IH [OF lw_stop_inv [OF Cons.prems(1) b(1)] this]
  show ?case using IH by (auto simp: f removeAll_filter_not_eq intro!: filter_cong)
qed simp

lemma fired_filter:
  "fired_in_order stops (S \<union> T) qs = fired_in_order stops T (filter (\<lambda>a. a \<notin> S) qs)"
  by (induction qs arbitrary: T) (auto simp: Un_assoc)

lemma run_lw_log:
  assumes "lw_inv k L" "\<forall>q. are_kind k L (set (stops q))"
  shows "\<exists>L'. run_lw_loop k (log_stop k stops) L = Some L' \<and> lw_inv k L' \<and> lw_run L' k = [] \<and>
    wloop.more L' = wloop.more L @ map (\<lambda>q. (the (lw_cb L q), q)) (fired_in_order stops {} (lw_run L k)) \<and>
    lw_handles L' k = filter (\<lambda>a. \<forall>q \<in> set (fired_in_order stops {} (lw_run L k)). a \<notin> set (stops q))
                             (lw_handles L k @ lw_run L k)"
  using assms
proof (induction "length (lw_run L k)" arbitrary: L rule: less_induct)
  case less
  show ?case
  proof (cases "lw_run L k")
    case Nil
    then show ?thesis using less.prems by (simp add: run_lw_loop.simps)
  next
    case (Cons q qs)
    define L2 where "L2 = L\<lparr>lw_run := (lw_run L)(k := qs), lw_handles := (lw_handles L)(k := lw_handles L k @ [q])\<rparr>"
    have inv2: "lw_inv k L2" using less.prems(1) Cons by (auto simp: L2_def lw_inv_def)
    have "q \<in> lw_active k L" using less.prems(1) Cons by (auto simp: lw_inv_def)
    then obtain cb where cb: "lw_cb L q = Some cb" using less.prems(1) by (auto simp: lw_inv_def)
    have k2: "are_kind k L2 (set (stops q))" using less.prems(2) by (simp add: are_kind_def L2_def)
    define M where "M = fold (\<lambda>b M. snd (uv_lw_stop k b M)) (stops q) L2"
    note st = lw_stop_all [OF inv2 k2, folded M_def]
    have l2: "lw_handles L2 k = lw_handles L k @ [q]" "lw_run L2 k = qs" "lw_cb L2 = lw_cb L"
        "wloop.more L2 = wloop.more L" "handle_queue L2 = handle_queue L" "handles L2 = handles L"
      by (simp_all add: L2_def)
    define L3 where "L3 = wloop.more_update (\<lambda>l. l @ [(cb, q)]) M"
    have l3: "lw_inv k L3" "lw_handles L3 k = filter (\<lambda>a. a \<notin> set (stops q)) (lw_handles L k @ [q])"
        "lw_run L3 k = filter (\<lambda>a. a \<notin> set (stops q)) qs" "lw_cb L3 = lw_cb L"
        "wloop.more L3 = wloop.more L @ [(cb, q)]" "handle_queue L3 = handle_queue L"
        "\<And>b. htype (handles L3 b) = htype (handles L b)"
      using st by (simp_all add: L3_def l2)
    have k3: "\<forall>p. are_kind k L3 (set (stops p))" using less.prems(2) l3(6,7) by (simp add: are_kind_def)
    have "length (lw_run L3 k) < length (lw_run L k)"
      using Cons length_filter_le [of _ qs] by (simp add: l3(3) le_imp_less_Suc)
    then obtain L' where L': "run_lw_loop k (log_stop k stops) L3 = Some L'" "lw_inv k L'" "lw_run L' k = []"
        "wloop.more L' = wloop.more L3 @ map (\<lambda>q. (the (lw_cb L3 q), q)) (fired_in_order stops {} (lw_run L3 k))"
        "lw_handles L' k = filter (\<lambda>a. \<forall>q \<in> set (fired_in_order stops {} (lw_run L3 k)). a \<notin> set (stops q))
                             (lw_handles L3 k @ lw_run L3 k)"
      using less.hyps [OF _ l3(1) k3] by blast
    have step: "run_lw_loop k (log_stop k stops) L = run_lw_loop k (log_stop k stops) L3"
      using Cons cb by (subst run_lw_loop.simps) (simp add: log_stop_def L3_def M_def L2_def)
    have fired: "fired_in_order stops {} (lw_run L k) = q # fired_in_order stops {} (lw_run L3 k)"
      using Cons fired_filter [of stops "set (stops q)" "{}" qs] by (simp add: l3(3))
    show ?thesis
      using step L' fired cb l3 Cons
      by (intro exI [of _ L']) (auto intro!: filter_cong)
  qed
qed

section \<open>Properties\<close>

text \<open>C25: one round over the handles of a kind returns, whatever handles the callbacks stop, and calls
  each handle that was active at the beginning exactly once, in queue order, except those an
  earlier callback of the round has stopped; those stopped leave the queue, the others keep
  their order.\<close>

theorem run_lw_calls_active_once:
  assumes "lw_inv k L" and "lw_run L k = []" and "\<forall>q. are_kind k L (set (stops q))"
  shows "\<exists>L' F. uv__run_lw k (log_stop k stops) L = Some L' \<and> lw_inv k L' \<and>
    F = fired_in_order stops {} (lw_handles L k) \<and>
    wloop.more L' = wloop.more L @ map (\<lambda>q. (the (lw_cb L q), q)) F \<and>
    lw_handles L' k = filter (\<lambda>a. \<forall>q \<in> set F. a \<notin> set (stops q)) (lw_handles L k) \<and>
    lw_active k L' = set (lw_handles L' k)"
proof -
  define L1 where "L1 = L\<lparr>lw_run := (lw_run L)(k := lw_handles L k), lw_handles := (lw_handles L)(k := [])\<rparr>"
  have "lw_inv k L1" using assms(1,2) by (simp add: L1_def lw_inv_def)
  moreover have "\<forall>q. are_kind k L1 (set (stops q))" using assms(3) by (simp add: are_kind_def L1_def)
  ultimately obtain L' where "run_lw_loop k (log_stop k stops) L1 = Some L'" "lw_inv k L'" "lw_run L' k = []"
    "wloop.more L' = wloop.more L1 @ map (\<lambda>q. (the (lw_cb L1 q), q)) (fired_in_order stops {} (lw_run L1 k))"
    "lw_handles L' k = filter (\<lambda>a. \<forall>q \<in> set (fired_in_order stops {} (lw_run L1 k)). a \<notin> set (stops q))
                             (lw_handles L1 k @ lw_run L1 k)"
    using run_lw_log by blast
  then show ?thesis
    by (intro exI [of _ L'] exI [of _ "fired_in_order stops {} (lw_handles L k)"])
       (simp add: uv__run_lw_def L1_def lw_inv_def)
qed

text \<open>Starting and stopping a prepare, check or idle handle keeps the queue equal to the set of
  the active handles of the kind and the loop's count right; a second start and a second stop do
  nothing, and a start without a callback is refused.\<close>

theorem lw_start_stop_inv:
  assumes "lw_inv k L" and "a \<in> set (handle_queue L)" and "htype (handles L a) = lw_type k"
  shows "lw_inv k (snd (uv_lw_start k a cb L)) \<and> lw_inv k (snd (uv_lw_stop k a L)) \<and>
    (\<not> uv__is_active L a \<longrightarrow> uv_lw_stop k a L = (0, L) \<and> uv_lw_start k a None L = (UV_EINVAL, L)) \<and>
    (uv__is_active L a \<longrightarrow> uv_lw_start k a cb L = (0, L)) \<and>
    lw_active k (snd (uv_lw_start k a (Some c) L)) = insert a (lw_active k L) \<and>
    lw_active k (snd (uv_lw_stop k a L)) = lw_active k L - {a}"
proof -
  have "uv__is_active L a \<Longrightarrow> a \<in> lw_active k L" "\<not> uv__is_active L a \<Longrightarrow> a \<notin> lw_active k L"
    using assms(2,3) by (auto simp: lw_active_def)
  then show ?thesis
    using lw_start_inv [OF assms] lw_stop_inv [OF assms(1,2)] assms(2,3)
    by (cases "uv__is_active L a") (auto simp: uv_lw_start_def uv_lw_stop_def lw_active_start lw_active_stop)
qed

text \<open>Two active idle handles: 1 was started before 2.\<close>

definition sample_wloop :: "(nat \<times> addr) list wloop_scheme" where
  "sample_wloop = \<lparr>active_handles = 2, handle_queue = [1, 2], closing_handles = None,
     handles = (\<lambda>_. \<lparr>flags = 0x6000, htype = UV_IDLE, next_closing = None\<rparr>),
     time = 10, timer_counter = 0,
     timer_heap = \<lparr>hmin = None, nelts = 0, hmem = (\<lambda>_. \<lparr>left = None, right = None, parent = None\<rparr>)\<rparr>,
     timers = (\<lambda>_. \<lparr>timer_cb = None, timeout = 0, repeat = 0, start_id = 0\<rparr>),
     active_reqs = [], watchers = [], nwatchers = 0, nfds = 0, watcher_queue = [], pending_queue = [],
     pending_run = [], ios = (\<lambda>_. \<lparr>io_cb = 0, pevents = 0, io_events = 0, io_fd = 0\<rparr>), ep_events = [],
     lw_handles = (\<lambda>_. [])(Idle := [2, 1]), lw_run = (\<lambda>_. []), lw_cb = (\<lambda>a. Some (a + 10)), \<dots> = []\<rparr>"

lemma sample_wloop_inv: "lw_inv Idle sample_wloop" "lw_run sample_wloop Idle = []"
proof -
  have live: "live_handles sample_wloop = {1, 2}"
    by (auto simp: live_handles_def sample_wloop_def uv__is_active_def uv__has_ref_def hflags_def)
  have "handle_inv sample_wloop" unfolding handle_inv_def live by (simp add: sample_wloop_def)
  moreover have "lw_active Idle sample_wloop = {1, 2}"
    by (auto simp: lw_active_def sample_wloop_def uv__is_active_def hflags_def)
  moreover have "lw_handles sample_wloop Idle = [2, 1]" "lw_run sample_wloop Idle = []"
    "\<And>a. lw_cb sample_wloop a = Some (a + 10)"
    by (simp_all add: sample_wloop_def)
  ultimately show "lw_inv Idle sample_wloop" unfolding lw_inv_def by auto
  show "lw_run sample_wloop Idle = []" by (simp add: sample_wloop_def)
qed

theorem run_lw_calls_active_once_witness:
  "\<exists>L'. uv__run_lw Idle (log_stop Idle (\<lambda>q. if q = 2 then [1] else [])) sample_wloop = Some L' \<and>
        wloop.more L' = [(12, 2)] \<and> lw_handles L' Idle = [2]"
proof -
  have "\<forall>q. are_kind Idle sample_wloop (set ((\<lambda>q. if q = 2 then [1] else []) q))"
    by (auto simp: are_kind_def sample_wloop_def)
  from run_lw_calls_active_once [OF sample_wloop_inv this] show ?thesis
    by (auto simp: sample_wloop_def)
qed

theorem lw_start_stop_inv_witness: "lw_inv Idle (snd (uv_lw_stop Idle 1 sample_wloop))"
  using lw_start_stop_inv [OF sample_wloop_inv(1), of 1] by (simp add: sample_wloop_def)

end
