(* ===== verification/S5.thy ===== *)
theory S5
  imports Prelude
begin

text \<open>
  The SOCKS5 protocol parser of the proxy sample, \<open>src/src/libuv/samples/socks5-proxy/s5.c\<close>: a
  state machine that is fed the bytes of the client as they arrive.  A write to one of its three
  buffers outside of the buffer is the value \<open>None\<close>.
\<close>

section \<open>Data\<close>

datatype s5_state =
  s5_version | s5_nmethods | s5_methods | s5_auth_pw_version | s5_auth_pw_userlen
| s5_auth_pw_username | s5_auth_pw_passlen | s5_auth_pw_password | s5_req_version | s5_req_cmd
| s5_req_reserved | s5_req_atyp | s5_req_atyp_host | s5_req_daddr | s5_req_dport0 | s5_req_dport1
| s5_dead

datatype s5_err =
  s5_bad_version | s5_bad_cmd | s5_bad_atyp | s5_ok | s5_auth_select | s5_auth_verify | s5_exec_cmd

datatype s5_atyp = s5_atyp_ipv4 | s5_atyp_ipv6 | s5_atyp_host

datatype s5_cmd = s5_cmd_tcp_connect | s5_cmd_tcp_bind | s5_cmd_udp_assoc

abbreviation S5_AUTH_NONE :: u8 where "S5_AUTH_NONE \<equiv> 1"
abbreviation S5_AUTH_GSSAPI :: u8 where "S5_AUTH_GSSAPI \<equiv> 2"
abbreviation S5_AUTH_PASSWD :: u8 where "S5_AUTH_PASSWD \<equiv> 4"

record s5_ctx =
  arg0 :: u32
  arg1 :: u32
  s5_st :: s5_state
  methods :: u8
  cmd :: s5_cmd
  atyp :: s5_atyp
  userlen :: u8
  passlen :: u8
  dport :: u16
  username :: "u8 list"
  password :: "u8 list"
  daddr :: "u8 list"

section \<open>Operations\<close>

definition s5_init :: s5_ctx where
  "s5_init = \<lparr>arg0 = 0, arg1 = 0, s5_st = s5_version, methods = 0, cmd = s5_cmd_tcp_connect,
     atyp = s5_atyp_ipv4, userlen = 0, passlen = 0, dport = 0,
     username = replicate 257 0, password = replicate 257 0, daddr = replicate 257 0\<rparr>"

text \<open>\<open>buf[i] = c\<close>.\<close>

definition put_byte :: "u8 list \<Rightarrow> u32 \<Rightarrow> u8 \<Rightarrow> u8 list option" where
  "put_byte buf i c = (if unat i < length buf then Some (buf[unat i := c]) else None)"

text \<open>
  One of the three counted fields: if fewer than \<open>n\<close> bytes are stored, store \<open>c\<close>; if then there
  are \<open>n\<close>, write the terminating NUL.  The result is the buffer, the count and whether the field
  is complete.
\<close>

definition copy_byte :: "u8 list \<Rightarrow> u32 \<Rightarrow> u32 \<Rightarrow> u8 \<Rightarrow> (u8 list \<times> u32 \<times> bool) option" where
  "copy_byte buf a n c =
     Option.bind (if a < n then map_option (\<lambda>b. (b, a + 1)) (put_byte buf a c) else Some (buf, a))
       (\<lambda>(buf, a). if a = n then map_option (\<lambda>b. (b, a, True)) (put_byte buf n 0)
                   else Some (buf, a, False))"

text \<open>The body of the loop: the context after byte \<open>c\<close>, and the result to return, if any.\<close>

definition s5_byte :: "u8 \<Rightarrow> s5_ctx \<Rightarrow> (s5_ctx \<times> s5_err option) option" where
  "s5_byte c cx =
     (case s5_st cx of
        s5_version \<Rightarrow>
          Some (if c \<noteq> 5 then (cx, Some s5_bad_version) else (cx\<lparr>s5_st := s5_nmethods\<rparr>, None))
      | s5_nmethods \<Rightarrow> Some (cx\<lparr>arg0 := 0, arg1 := ucast c, s5_st := s5_methods\<rparr>, None)
      | s5_methods \<Rightarrow>
          let cx1 = (if arg0 cx < arg1 cx then
                       (if c = 0 then cx\<lparr>methods := methods cx OR S5_AUTH_NONE\<rparr>
                        else if c = 1 then cx\<lparr>methods := methods cx OR S5_AUTH_GSSAPI\<rparr>
                        else if c = 2 then cx\<lparr>methods := methods cx OR S5_AUTH_PASSWD\<rparr>
                        else cx)\<lparr>arg0 := arg0 cx + 1\<rparr>
                     else cx)
          in Some (cx1, if arg0 cx1 = arg1 cx1 then Some s5_auth_select else None)
      | s5_auth_pw_version \<Rightarrow>
          Some (if c \<noteq> 1 then (cx, Some s5_bad_version) else (cx\<lparr>s5_st := s5_auth_pw_userlen\<rparr>, None))
      | s5_auth_pw_userlen \<Rightarrow> Some (cx\<lparr>arg0 := 0, userlen := c, s5_st := s5_auth_pw_username\<rparr>, None)
      | s5_auth_pw_username \<Rightarrow>
          map_option (\<lambda>(b, a, fin).
              (let cx1 = cx\<lparr>username := b, arg0 := a\<rparr>
               in (if fin then cx1\<lparr>s5_st := s5_auth_pw_passlen\<rparr> else cx1), None))
            (copy_byte (username cx) (arg0 cx) (ucast (userlen cx)) c)
      | s5_auth_pw_passlen \<Rightarrow> Some (cx\<lparr>arg0 := 0, passlen := c, s5_st := s5_auth_pw_password\<rparr>, None)
      | s5_auth_pw_password \<Rightarrow>
          map_option (\<lambda>(b, a, fin).
              (let cx1 = cx\<lparr>password := b, arg0 := a\<rparr>
               in if fin then (cx1\<lparr>s5_st := s5_req_version\<rparr>, Some s5_auth_verify) else (cx1, None)))
            (copy_byte (password cx) (arg0 cx) (ucast (passlen cx)) c)
      | s5_req_version \<Rightarrow>
          Some (if c \<noteq> 5 then (cx, Some s5_bad_version) else (cx\<lparr>s5_st := s5_req_cmd\<rparr>, None))
      | s5_req_cmd \<Rightarrow>
          Some (if c = 1 then (cx\<lparr>cmd := s5_cmd_tcp_connect, s5_st := s5_req_reserved\<rparr>, None)
                else if c = 3 then (cx\<lparr>cmd := s5_cmd_udp_assoc, s5_st := s5_req_reserved\<rparr>, None)
                else (cx, Some s5_bad_cmd))
      | s5_req_reserved \<Rightarrow> Some (cx\<lparr>s5_st := s5_req_atyp\<rparr>, None)
      | s5_req_atyp \<Rightarrow>
          (let cx = cx\<lparr>arg0 := 0\<rparr> in
           Some (if c = 1 then (cx\<lparr>s5_st := s5_req_daddr, atyp := s5_atyp_ipv4, arg1 := 4\<rparr>, None)
                 else if c = 3 then (cx\<lparr>s5_st := s5_req_atyp_host, atyp := s5_atyp_host, arg1 := 0\<rparr>, None)
                 else if c = 4 then (cx\<lparr>s5_st := s5_req_daddr, atyp := s5_atyp_ipv6, arg1 := 16\<rparr>, None)
                 else (cx, Some s5_bad_atyp)))
      | s5_req_atyp_host \<Rightarrow> Some (cx\<lparr>arg1 := ucast c, s5_st := s5_req_daddr\<rparr>, None)
      | s5_req_daddr \<Rightarrow>
          map_option (\<lambda>(b, a, fin).
              (let cx1 = cx\<lparr>daddr := b, arg0 := a\<rparr>
               in (if fin then cx1\<lparr>s5_st := s5_req_dport0\<rparr> else cx1), None))
            (copy_byte (daddr cx) (arg0 cx) (arg1 cx) c)
      | s5_req_dport0 \<Rightarrow> Some (cx\<lparr>dport := push_bit 8 (ucast c), s5_st := s5_req_dport1\<rparr>, None)
      | s5_req_dport1 \<Rightarrow>
          Some (cx\<lparr>dport := dport cx OR ucast c, s5_st := s5_dead\<rparr>, Some s5_exec_cmd)
      | s5_dead \<Rightarrow> Some (cx, None))"

text \<open>The result, the context, and the data that is left (\<open>*data\<close> and \<open>*size\<close> afterwards).\<close>

fun s5_parse :: "s5_ctx \<Rightarrow> u8 list \<Rightarrow> (s5_err \<times> s5_ctx \<times> u8 list) option" where
  "s5_parse cx [] = Some (s5_ok, cx, [])"
| "s5_parse cx (c # cs) =
     (case s5_byte c cx of
        None \<Rightarrow> None
      | Some (cx1, Some err) \<Rightarrow> Some (err, cx1, cs)
      | Some (cx1, None) \<Rightarrow> s5_parse cx1 cs)"

definition s5_auth_methods :: "s5_ctx \<Rightarrow> u8" where
  "s5_auth_methods cx = methods cx"

definition s5_select_auth :: "u8 \<Rightarrow> s5_ctx \<Rightarrow> int \<times> s5_ctx" where
  "s5_select_auth method cx =
     (if method = S5_AUTH_NONE then (0, cx\<lparr>s5_st := s5_req_version\<rparr>)
      else if method = S5_AUTH_PASSWD then (0, cx\<lparr>s5_st := s5_auth_pw_version\<rparr>)
      else (- 22, cx))"

fun s5_strerror :: "s5_err \<Rightarrow> string" where
  "s5_strerror s5_bad_version = ''Bad protocol version.''"
| "s5_strerror s5_bad_cmd = ''Bad protocol command.''"
| "s5_strerror s5_bad_atyp = ''Bad address type.''"
| "s5_strerror s5_ok = ''No error.''"
| "s5_strerror s5_auth_select = ''Select authentication method.''"
| "s5_strerror s5_auth_verify = ''Verify authentication.''"
| "s5_strerror s5_exec_cmd = ''Execute command.''"

section \<open>Bounds\<close>

text \<open>The buffers have their 257 bytes and the counters stay below them.\<close>

definition s5_wf :: "s5_ctx \<Rightarrow> bool" where
  "s5_wf cx \<longleftrightarrow> length (username cx) = 257 \<and> length (password cx) = 257 \<and> length (daddr cx) = 257 \<and>
     unat (arg1 cx) \<le> 255 \<and>
     (s5_st cx = s5_auth_pw_username \<longrightarrow> unat (arg0 cx) \<le> unat (userlen cx)) \<and>
     (s5_st cx = s5_auth_pw_password \<longrightarrow> unat (arg0 cx) \<le> unat (passlen cx)) \<and>
     (s5_st cx \<in> {s5_methods, s5_req_daddr} \<longrightarrow> unat (arg0 cx) \<le> unat (arg1 cx)) \<and>
     (s5_st cx = s5_req_atyp_host \<longrightarrow> arg0 cx = 0)"

lemma unat_u8 [simp]: "unat (c :: u8) \<le> 255"
proof -
  have "unat c < 2 ^ LENGTH(8)" by (rule unsigned_less)
  then show ?thesis by simp
qed

lemma unat_of_nat32: "n < 2 ^ 32 \<Longrightarrow> unat (of_nat n :: u32) = n"
  by (simp add: unsigned_of_nat take_bit_nat_eq_self)

lemma unat_ucast_u8 [simp]: "unat (ucast (c :: u8) :: u32) = unat c"
proof -
  have "unat c < 2 ^ 32" by (rule le_less_trans [OF unat_u8]) simp
  then show ?thesis by (simp add: unsigned_ucast_eq take_bit_nat_eq_self)
qed

lemma copy_byte_ok:
  assumes "length buf = 257" "unat n \<le> 255" "unat a \<le> unat n"
  shows "\<exists>buf' a' fin. copy_byte buf a n c = Some (buf', a', fin) \<and> length buf' = 257 \<and> unat a' \<le> unat n"
proof (cases "a < n")
  case True
  then have "unat (a + 1) = unat a + 1" using assms by (intro unat_inc) (auto simp: word_less_nat_alt)
  then show ?thesis using True assms by (auto simp: copy_byte_def put_byte_def word_less_nat_alt)
next
  case False
  then show ?thesis using assms by (auto simp: copy_byte_def put_byte_def word_less_nat_alt)
qed


lemma s5_init_wf: "s5_wf s5_init"
  by (simp add: s5_wf_def s5_init_def)

lemma s5_byte_wf:
  assumes wf: "s5_wf cx"
  shows "\<exists>cx' r. s5_byte c cx = Some (cx', r) \<and> s5_wf cx'"
proof (cases "s5_st cx")
  case s5_methods
  have "arg0 cx < arg1 cx \<Longrightarrow> unat (arg0 cx + 1) = unat (arg0 cx) + 1"
    using wf by (intro unat_inc) (auto simp: s5_wf_def word_less_nat_alt)
  then show ?thesis using wf s5_methods by (auto simp: s5_byte_def s5_wf_def Let_def word_less_nat_alt)
next
  case s5_auth_pw_username
  then obtain b a fin where "copy_byte (username cx) (arg0 cx) (ucast (userlen cx)) c = Some (b, a, fin)"
      "length b = 257" "unat a \<le> unat (userlen cx)"
    using copy_byte_ok [of "username cx" "ucast (userlen cx)" "arg0 cx" c] wf by (auto simp: s5_wf_def)
  then show ?thesis using wf s5_auth_pw_username by (auto simp: s5_byte_def s5_wf_def Let_def)
next
  case s5_auth_pw_password
  then obtain b a fin where "copy_byte (password cx) (arg0 cx) (ucast (passlen cx)) c = Some (b, a, fin)"
      "length b = 257" "unat a \<le> unat (passlen cx)"
    using copy_byte_ok [of "password cx" "ucast (passlen cx)" "arg0 cx" c] wf by (auto simp: s5_wf_def)
  then show ?thesis using wf s5_auth_pw_password by (auto simp: s5_byte_def s5_wf_def Let_def)
next
  case s5_req_daddr
  then obtain b a fin where "copy_byte (daddr cx) (arg0 cx) (arg1 cx) c = Some (b, a, fin)"
      "length b = 257" "unat a \<le> unat (arg1 cx)"
    using copy_byte_ok [of "daddr cx" "arg1 cx" "arg0 cx" c] wf by (auto simp: s5_wf_def)
  then show ?thesis using wf s5_req_daddr by (auto simp: s5_byte_def s5_wf_def Let_def)
qed (use wf in \<open>auto simp: s5_byte_def s5_wf_def Let_def\<close>)

section \<open>Parsing in pieces\<close>

lemma s5_parse_append:
  "s5_parse cx (xs @ ys) =
     (case s5_parse cx xs of
        None \<Rightarrow> None
      | Some (r, cx', rest) \<Rightarrow> if r = s5_ok \<and> rest = [] then s5_parse cx' ys else Some (r, cx', rest @ ys))"
proof (induction xs arbitrary: cx)
  case (Cons c cs)
  have "s5_byte c cx \<noteq> Some (cx', Some s5_ok)" for cx'
    by (cases "s5_st cx") (auto simp: s5_byte_def Let_def)
  then show ?case using Cons by (auto split: option.splits)
qed simp

text \<open>Some bytes consumed without a result.\<close>

definition s5_quiet :: "s5_ctx \<Rightarrow> u8 list \<Rightarrow> s5_ctx \<Rightarrow> bool" where
  "s5_quiet cx xs cx' \<longleftrightarrow> (\<forall>ys. s5_parse cx (xs @ ys) = s5_parse cx' ys)"

lemma s5_quiet_nil: "s5_quiet cx [] cx"
  by (simp add: s5_quiet_def)

lemma s5_quiet_cons: "s5_byte c cx = Some (cx1, None) \<Longrightarrow> s5_quiet cx1 xs cx' \<Longrightarrow> s5_quiet cx (c # xs) cx'"
  by (simp add: s5_quiet_def)

lemma s5_quiet_append: "s5_quiet cx xs cx1 \<Longrightarrow> s5_quiet cx1 ys cx' \<Longrightarrow> s5_quiet cx (xs @ ys) cx'"
  by (simp add: s5_quiet_def)

text \<open>A counted field written from position \<open>i\<close> on and terminated.\<close>

definition s5_field :: "u8 list \<Rightarrow> nat \<Rightarrow> u8 list \<Rightarrow> u8 list" where
  "s5_field buf i bs = take i buf @ bs @ 0 # drop (i + length bs + 1) buf"

lemma copy_byte_more:
  assumes "length buf = 257" "i + 1 < n" "n \<le> 255"
  shows "copy_byte buf (of_nat i) (of_nat n) c = Some (buf[i := c], of_nat (i + 1), False)"
proof -
  have v: "unat (of_nat i :: u32) = i" "unat (of_nat n :: u32) = n" "unat (of_nat (i + 1) :: u32) = i + 1"
    using assms by (intro unat_of_nat32; simp)+
  have "(of_nat i :: u32) < of_nat n" "(of_nat (i + 1) :: u32) \<noteq> of_nat n"
    using v assms by (auto simp only: word_less_nat_alt)
  moreover have "(of_nat i :: u32) + 1 = of_nat (i + 1)" by simp
  ultimately show ?thesis
    using assms v(1) by (simp add: copy_byte_def put_byte_def del: of_nat_add of_nat_Suc)
qed

lemma copy_byte_last:
  assumes "length buf = 257" "n = i + 1" "n \<le> 255"
  shows "copy_byte buf (of_nat i) (of_nat n) c = Some (buf[i := c, n := 0], of_nat n, True)"
proof -
  have v: "unat (of_nat i :: u32) = i" "unat (of_nat n :: u32) = n"
    using assms by (intro unat_of_nat32; simp)+
  have "(of_nat i :: u32) < of_nat n" using v assms by (simp only: word_less_nat_alt)
  moreover have "(of_nat i :: u32) + 1 = of_nat n" using assms by simp
  ultimately show ?thesis
    using assms v by (simp add: copy_byte_def put_byte_def del: of_nat_add of_nat_Suc)
qed

lemma s5_field_single:
  "length buf = 257 \<Longrightarrow> i + 1 \<le> 255 \<Longrightarrow> buf[i := c, Suc i := 0] = s5_field buf i [c]"
proof -
  assume a: "length buf = 257" "i + 1 \<le> 255"
  have "buf[i := c, Suc i := 0] = take (Suc i) (buf[i := c]) @ 0 # drop (Suc (Suc i)) (buf[i := c])"
    using a by (intro upd_conv_take_nth_drop) simp
  then show ?thesis using a by (simp add: s5_field_def take_Suc_conv_app_nth take_update_cancel drop_update_cancel)
qed

lemma s5_field_step:
  "length buf = 257 \<Longrightarrow> i + 1 + length bs \<le> 255 \<Longrightarrow> s5_field (buf[i := c]) (Suc i) bs = s5_field buf i (c # bs)"
  by (simp add: s5_field_def take_Suc_conv_app_nth take_update_cancel drop_update_cancel)

lemma ucast_of_nat8: "n \<le> 255 \<Longrightarrow> (ucast (of_nat n :: u8) :: u32) = of_nat n"
proof -
  assume n: "n \<le> 255"
  then have "unat (of_nat n :: u8) = n" by (simp add: unsigned_of_nat take_bit_nat_eq_self)
  then have "unat (ucast (of_nat n :: u8) :: u32) = unat (of_nat n :: u32)"
    using n unat_of_nat32 [of n] by simp
  then show ?thesis by (rule unsigned_word_eqI)
qed

lemma username_field:
  assumes "s5_st cx = s5_auth_pw_username" "length (username cx) = 257" "arg0 cx = of_nat i"
    "userlen cx = of_nat n" "n = i + length bs" "bs \<noteq> []" "n \<le> 255"
  shows "s5_quiet cx bs (cx\<lparr>username := s5_field (username cx) i bs, arg0 := of_nat n, s5_st := s5_auth_pw_passlen\<rparr>)"
  using assms
proof (induction bs arbitrary: cx i)
  case (Cons b bs)
  have u: "(ucast (userlen cx) :: u32) = of_nat n" using Cons.prems(4,7) by (simp only: ucast_of_nat8)
  show ?case
  proof (cases "bs = []")
    case True
    have "s5_byte b cx = Some (cx\<lparr>username := s5_field (username cx) i [b], arg0 := of_nat n, s5_st := s5_auth_pw_passlen\<rparr>, None)"
      using Cons.prems True u copy_byte_last [of "username cx" n i b] s5_field_single [of "username cx" i b]
      by (simp add: s5_byte_def Let_def del: of_nat_add of_nat_Suc)
    then show ?thesis using True s5_quiet_cons s5_quiet_nil by simp
  next
    case False
    then have "i + 1 < n" using Cons.prems(5) by (cases bs) auto
    then have "s5_byte b cx = Some (cx\<lparr>username := (username cx)[i := b], arg0 := of_nat (i + 1)\<rparr>, None)"
      using Cons.prems u copy_byte_more [of "username cx" i n b] by (simp add: s5_byte_def del: of_nat_add of_nat_Suc)
    moreover have "s5_quiet (cx\<lparr>username := (username cx)[i := b], arg0 := of_nat (i + 1)\<rparr>) bs
        (cx\<lparr>username := s5_field (username cx) i (b # bs), arg0 := of_nat n, s5_st := s5_auth_pw_passlen\<rparr>)"
      using Cons.IH [of "cx\<lparr>username := (username cx)[i := b], arg0 := of_nat (i + 1)\<rparr>" "i + 1"] Cons.prems False
        s5_field_step [of "username cx" i bs b] by simp
    ultimately show ?thesis by (rule s5_quiet_cons)
  qed
qed simp

lemma daddr_field:
  assumes "s5_st cx = s5_req_daddr" "length (daddr cx) = 257" "arg0 cx = of_nat i"
    "arg1 cx = of_nat n" "n = i + length bs" "bs \<noteq> []" "n \<le> 255"
  shows "s5_quiet cx bs (cx\<lparr>daddr := s5_field (daddr cx) i bs, arg0 := of_nat n, s5_st := s5_req_dport0\<rparr>)"
  using assms
proof (induction bs arbitrary: cx i)
  case (Cons b bs)
  show ?case
  proof (cases "bs = []")
    case True
    have "s5_byte b cx = Some (cx\<lparr>daddr := s5_field (daddr cx) i [b], arg0 := of_nat n, s5_st := s5_req_dport0\<rparr>, None)"
      using Cons.prems True copy_byte_last [of "daddr cx" n i b] s5_field_single [of "daddr cx" i b]
      by (simp add: s5_byte_def Let_def del: of_nat_add of_nat_Suc)
    then show ?thesis using True s5_quiet_cons s5_quiet_nil by simp
  next
    case False
    then have "i + 1 < n" using Cons.prems(5) by (cases bs) auto
    then have "s5_byte b cx = Some (cx\<lparr>daddr := (daddr cx)[i := b], arg0 := of_nat (i + 1)\<rparr>, None)"
      using Cons.prems copy_byte_more [of "daddr cx" i n b] by (simp add: s5_byte_def del: of_nat_add of_nat_Suc)
    moreover have "s5_quiet (cx\<lparr>daddr := (daddr cx)[i := b], arg0 := of_nat (i + 1)\<rparr>) bs
        (cx\<lparr>daddr := s5_field (daddr cx) i (b # bs), arg0 := of_nat n, s5_st := s5_req_dport0\<rparr>)"
      using Cons.IH [of "cx\<lparr>daddr := (daddr cx)[i := b], arg0 := of_nat (i + 1)\<rparr>" "i + 1"] Cons.prems False
        s5_field_step [of "daddr cx" i bs b] by simp
    ultimately show ?thesis by (rule s5_quiet_cons)
  qed
qed simp

lemma password_field:
  assumes "s5_st cx = s5_auth_pw_password" "length (password cx) = 257" "arg0 cx = of_nat i"
    "passlen cx = of_nat n" "n = i + length bs" "bs \<noteq> []" "n \<le> 255"
  shows "s5_parse cx (bs @ rest) = Some (s5_auth_verify,
      cx\<lparr>password := s5_field (password cx) i bs, arg0 := of_nat n, s5_st := s5_req_version\<rparr>, rest)"
  using assms
proof (induction bs arbitrary: cx i)
  case (Cons b bs)
  have u: "(ucast (passlen cx) :: u32) = of_nat n" using Cons.prems(4,7) by (simp only: ucast_of_nat8)
  show ?case
  proof (cases "bs = []")
    case True
    have "s5_byte b cx = Some (cx\<lparr>password := s5_field (password cx) i [b], arg0 := of_nat n, s5_st := s5_req_version\<rparr>, Some s5_auth_verify)"
      using Cons.prems True u copy_byte_last [of "password cx" n i b] s5_field_single [of "password cx" i b]
      by (simp add: s5_byte_def Let_def del: of_nat_add of_nat_Suc)
    then show ?thesis using True by simp
  next
    case False
    then have "i + 1 < n" using Cons.prems(5) by (cases bs) auto
    then have "s5_byte b cx = Some (cx\<lparr>password := (password cx)[i := b], arg0 := of_nat (i + 1)\<rparr>, None)"
      using Cons.prems u copy_byte_more [of "password cx" i n b] by (simp add: s5_byte_def del: of_nat_add of_nat_Suc)
    then show ?thesis
      using Cons.IH [of "cx\<lparr>password := (password cx)[i := b], arg0 := of_nat (i + 1)\<rparr>" "i + 1"] Cons.prems False
        s5_field_step [of "password cx" i bs b] by simp
  qed
qed simp

section \<open>Whole messages\<close>

definition method_bit :: "u8 \<Rightarrow> u8" where
  "method_bit c = (if c = 0 then S5_AUTH_NONE else if c = 1 then S5_AUTH_GSSAPI
                   else if c = 2 then S5_AUTH_PASSWD else 0)"

lemma methods_list:
  assumes "s5_st cx = s5_methods" "arg0 cx = of_nat i" "arg1 cx = of_nat n" "n = i + length ms" "ms \<noteq> []" "n \<le> 255"
  shows "s5_parse cx (ms @ rest) = Some (s5_auth_select,
     cx\<lparr>methods := fold (\<lambda>c m. m OR method_bit c) ms (methods cx), arg0 := of_nat n\<rparr>, rest)"
  using assms
proof (induction ms arbitrary: cx i)
  case (Cons c ms)
  have v: "unat (of_nat i :: u32) = i" "unat (of_nat n :: u32) = n" "unat (of_nat (i + 1) :: u32) = i + 1"
    using Cons.prems by (intro unat_of_nat32; simp)+
  have lt: "(of_nat i :: u32) < of_nat n" using v Cons.prems by (simp only: word_less_nat_alt) simp
  have eq: "(of_nat (i + 1) :: u32) = of_nat n \<longleftrightarrow> ms = []"
    using v Cons.prems by (metis One_nat_def add.right_neutral add_Suc_right add_left_cancel length_0_conv list.size(4) plus_1_eq_Suc)
  define cx1 where "cx1 = cx\<lparr>methods := methods cx OR method_bit c, arg0 := of_nat (i + 1)\<rparr>"
  have b: "s5_byte c cx = Some (cx1, if ms = [] then Some s5_auth_select else None)"
    using Cons.prems lt eq by (simp add: s5_byte_def Let_def cx1_def method_bit_def add.commute)
  show ?case
  proof (cases "ms = []")
    case True
    then show ?thesis using b eq by (simp add: cx1_def del: of_nat_add of_nat_Suc)
  next
    case False
    have "s5_parse cx1 (ms @ rest) = Some (s5_auth_select,
        cx1\<lparr>methods := fold (\<lambda>c m. m OR method_bit c) ms (methods cx1), arg0 := of_nat n\<rparr>, rest)"
      using Cons.prems False by (intro Cons.IH [of _ "i + 1"]) (simp_all add: cx1_def)
    then show ?thesis using b False by (simp add: cx1_def)
  qed
qed simp

lemma s5_field_value:
  assumes "length buf = 257" "length bs \<le> 255"
  shows "take (length bs) (s5_field buf 0 bs) = bs" "s5_field buf 0 bs ! length bs = 0"
  using assms by (simp_all add: s5_field_def nth_append)

lemma fold_method_bit:
  "(fold (\<lambda>c m. m OR method_bit c) ms a) = a OR fold (\<lambda>c m. m OR method_bit c) ms 0"
  by (induction ms arbitrary: a) (simp, metis (no_types, lifting) fold_simps(2) or.assoc or.left_neutral)

lemma method_bits:
  "(fold (\<lambda>c m. m OR method_bit c) ms 0) AND 1 \<noteq> 0 \<longleftrightarrow> 0 \<in> set ms"
  "(fold (\<lambda>c m. m OR method_bit c) ms 0) AND 2 \<noteq> 0 \<longleftrightarrow> 1 \<in> set ms"
  "(fold (\<lambda>c m. m OR method_bit c) ms 0) AND 4 \<noteq> 0 \<longleftrightarrow> 2 \<in> set ms"
proof (induction ms)
  case (Cons c ms)
  have f: "fold (\<lambda>c m. m OR method_bit c) (c # ms) 0 = method_bit c OR fold (\<lambda>c m. m OR method_bit c) ms 0"
    using fold_method_bit [of ms "method_bit c"] by simp
  { case 1 show ?case unfolding f bit.conj_disj_distrib2 or_eq_0_iff using Cons(1) by (auto simp: method_bit_def) }
  { case 2 show ?case unfolding f bit.conj_disj_distrib2 or_eq_0_iff using Cons(2) by (auto simp: method_bit_def) }
  { case 3 show ?case unfolding f bit.conj_disj_distrib2 or_eq_0_iff using Cons(3) by (auto simp: method_bit_def) }
qed simp_all

text \<open>The address of a request as the client sends it: the type byte and what follows.\<close>

fun addr_bytes :: "s5_atyp \<Rightarrow> u8 list \<Rightarrow> u8 list" where
  "addr_bytes s5_atyp_ipv4 a = 1 # a"
| "addr_bytes s5_atyp_host a = 3 # of_nat (length a) # a"
| "addr_bytes s5_atyp_ipv6 a = 4 # a"

fun addr_ok :: "s5_atyp \<Rightarrow> u8 list \<Rightarrow> bool" where
  "addr_ok s5_atyp_ipv4 a \<longleftrightarrow> length a = 4"
| "addr_ok s5_atyp_host a \<longleftrightarrow> 1 \<le> length a \<and> length a \<le> 255"
| "addr_ok s5_atyp_ipv6 a \<longleftrightarrow> length a = 16"

lemma addr_quiet:
  assumes "s5_wf cx" "s5_st cx = s5_req_atyp" "addr_ok t a"
  shows "\<exists>cx'. s5_quiet cx (addr_bytes t a) cx' \<and> s5_st cx' = s5_req_dport0 \<and> atyp cx' = t \<and> cmd cx' = cmd cx \<and>
     take (length a) (daddr cx') = a \<and> daddr cx' ! length a = 0"
proof -
  define cx1 where "cx1 = cx\<lparr>arg0 := 0, s5_st := s5_req_daddr, atyp := t, arg1 := of_nat (length a)\<rparr>"
  have a: "a \<noteq> []" "length a \<le> 255" "length (daddr cx) = 257"
    using assms by (cases t; auto simp: s5_wf_def)+
  define cx' where "cx' = cx1\<lparr>daddr := s5_field (daddr cx1) 0 a, arg0 := of_nat (length a), s5_st := s5_req_dport0\<rparr>"
  have tail: "s5_quiet cx1 a cx'"
    using daddr_field [of cx1 0 "length a" a] a by (simp add: cx1_def cx'_def)
  have "s5_quiet cx (addr_bytes t a) cx'"
  proof (cases t)
    case s5_atyp_host
    have "s5_byte 3 cx = Some (cx\<lparr>arg0 := 0, s5_st := s5_req_atyp_host, atyp := s5_atyp_host, arg1 := 0\<rparr>, None)"
      using assms(2) by (simp add: s5_byte_def Let_def)
    moreover have "s5_byte (of_nat (length a)) (cx\<lparr>arg0 := 0, s5_st := s5_req_atyp_host, atyp := s5_atyp_host, arg1 := 0\<rparr>)
        = Some (cx1, None)"
      using a s5_atyp_host by (simp add: s5_byte_def cx1_def ucast_of_nat8)
    ultimately show ?thesis using tail s5_atyp_host by (auto intro: s5_quiet_cons)
  qed (use assms tail in \<open>auto intro!: s5_quiet_cons simp: s5_byte_def Let_def cx1_def\<close>)
  moreover have "take (length a) (daddr cx') = a" "daddr cx' ! length a = 0"
    using a s5_field_value [of "daddr cx" a] by (simp_all add: cx'_def cx1_def)
  ultimately show ?thesis by (intro exI [of _ cx']) (simp add: cx'_def cx1_def)
qed

definition cmd_byte :: "s5_cmd \<Rightarrow> u8" where
  "cmd_byte k = (case k of s5_cmd_tcp_connect \<Rightarrow> 1 | s5_cmd_tcp_bind \<Rightarrow> 2 | s5_cmd_udp_assoc \<Rightarrow> 3)"

lemma s5_parse_bounded:
  assumes "s5_wf cx"
  shows "\<exists>r cx' rest. s5_parse cx xs = Some (r, cx', rest) \<and> s5_wf cx' \<and>
           (\<exists>used. xs = used @ rest) \<and> (r = s5_ok \<longrightarrow> rest = [])"
  using assms
proof (induction xs arbitrary: cx)
  case (Cons c cs)
  obtain cx1 r where b: "s5_byte c cx = Some (cx1, r)" "s5_wf cx1" using s5_byte_wf [OF Cons.prems] by blast
  have nok: "r \<noteq> Some s5_ok" using b(1) by (cases "s5_st cx") (auto simp: s5_byte_def Let_def split: if_splits)
  show ?case
  proof (cases r)
    case None
    obtain r' cx' rest used where "s5_parse cx1 cs = Some (r', cx', rest)" "s5_wf cx'" "cs = used @ rest"
        "r' = s5_ok \<longrightarrow> rest = []"
      using Cons.IH [OF b(2)] by blast
    then show ?thesis using b(1) None by (auto intro: exI [of _ "c # used"])
  next
    case (Some e)
    then show ?thesis using b nok by (auto intro: exI [of _ "[c]"])
  qed
qed simp

section \<open>Properties\<close>

text \<open>C20: whatever bytes a client sends, in whatever pieces, the parser never writes outside of its
  buffers, and it returns a well-formed context; when it returns without a result it has
  consumed everything.\<close>

theorem s5_parse_in_bounds:
  assumes "s5_wf cx"
  shows "\<exists>r cx' rest. s5_parse cx xs = Some (r, cx', rest) \<and> s5_wf cx' \<and>
           (\<exists>used. xs = used @ rest) \<and> (r = s5_ok \<longrightarrow> rest = [])"
  using assms by (rule s5_parse_bounded)

text \<open>C21: it does not matter how the input is cut into pieces: parsing a piece and, if that returns
  without a result, going on with the next one, is the same as parsing them together.\<close>

theorem s5_parse_pieces:
  assumes "s5_wf cx"
  shows "\<exists>r cx' rest. s5_parse cx xs = Some (r, cx', rest) \<and>
     s5_parse cx (xs @ ys) = (if r = s5_ok then s5_parse cx' ys else Some (r, cx', rest @ ys))"
  using s5_parse_bounded [OF assms, of xs] by (auto simp: s5_parse_append)

text \<open>A greeting that offers the methods \<open>ms\<close> (at least one) makes the parser ask for the
  selection after its last byte, with exactly the offered methods it knows in the mask; what
  follows is left to be parsed.\<close>

theorem s5_parse_greeting:
  assumes "ms \<noteq> []" and "length ms \<le> 255"
  shows "\<exists>cx'. s5_parse s5_init (5 # of_nat (length ms) # ms @ rest) = Some (s5_auth_select, cx', rest) \<and> s5_wf cx' \<and>
     (s5_auth_methods cx' AND S5_AUTH_NONE \<noteq> 0 \<longleftrightarrow> 0 \<in> set ms) \<and>
     (s5_auth_methods cx' AND S5_AUTH_GSSAPI \<noteq> 0 \<longleftrightarrow> 1 \<in> set ms) \<and>
     (s5_auth_methods cx' AND S5_AUTH_PASSWD \<noteq> 0 \<longleftrightarrow> 2 \<in> set ms)"
proof -
  define cx1 where "cx1 = s5_init\<lparr>s5_st := s5_nmethods\<rparr>"
  define cx2 where "cx2 = cx1\<lparr>arg0 := 0, arg1 := of_nat (length ms), s5_st := s5_methods\<rparr>"
  have "s5_byte 5 s5_init = Some (cx1, None)" by (simp add: s5_byte_def s5_init_def cx1_def)
  moreover have "s5_byte (of_nat (length ms)) cx1 = Some (cx2, None)"
    using assms by (simp add: s5_byte_def cx1_def cx2_def ucast_of_nat8)
  moreover have "s5_parse cx2 (ms @ rest) = Some (s5_auth_select,
      cx2\<lparr>methods := fold (\<lambda>c m. m OR method_bit c) ms (methods cx2), arg0 := of_nat (length ms)\<rparr>, rest)"
    using assms by (intro methods_list [of _ 0]) (simp_all add: cx2_def)
  moreover have "methods cx2 = 0" by (simp add: cx2_def cx1_def s5_init_def)
  ultimately have p: "s5_parse s5_init (5 # of_nat (length ms) # ms @ rest) = Some (s5_auth_select,
      cx2\<lparr>methods := fold (\<lambda>c m. m OR method_bit c) ms 0, arg0 := of_nat (length ms)\<rparr>, rest)" by simp
  moreover have "s5_wf (cx2\<lparr>methods := fold (\<lambda>c m. m OR method_bit c) ms 0, arg0 := of_nat (length ms)\<rparr>)"
    using s5_parse_bounded [OF s5_init_wf, of "5 # of_nat (length ms) # ms @ rest"] p by auto
  ultimately show ?thesis using method_bits [of ms] by (auto simp: s5_auth_methods_def)
qed

text \<open>A user name and a password (of at least one byte each) are read back as they were sent,
  NUL-terminated, and the parser then asks for their verification.\<close>

theorem s5_parse_password:
  assumes "s5_wf cx" and "1 \<le> length user" and "length user \<le> 255" and "1 \<le> length pass" and "length pass \<le> 255"
  shows "\<exists>cx'. s5_parse (snd (s5_select_auth S5_AUTH_PASSWD cx))
        (1 # of_nat (length user) # user @ of_nat (length pass) # pass @ rest) = Some (s5_auth_verify, cx', rest) \<and>
     s5_st cx' = s5_req_version \<and>
     take (length user) (username cx') = user \<and> username cx' ! length user = 0 \<and>
     take (length pass) (password cx') = pass \<and> password cx' ! length pass = 0"
proof -
  define c0 where "c0 = cx\<lparr>s5_st := s5_auth_pw_version\<rparr>"
  define c1 where "c1 = c0\<lparr>s5_st := s5_auth_pw_userlen\<rparr>"
  define c2 where "c2 = c1\<lparr>arg0 := 0, userlen := of_nat (length user), s5_st := s5_auth_pw_username\<rparr>"
  define c3 where "c3 = c2\<lparr>username := s5_field (username c2) 0 user, arg0 := of_nat (length user), s5_st := s5_auth_pw_passlen\<rparr>"
  define c4 where "c4 = c3\<lparr>arg0 := 0, passlen := of_nat (length pass), s5_st := s5_auth_pw_password\<rparr>"
  define c5 where "c5 = c4\<lparr>password := s5_field (password c4) 0 pass, arg0 := of_nat (length pass), s5_st := s5_req_version\<rparr>"
  note ds = c0_def c1_def c2_def c3_def c4_def c5_def
  have l: "length (username cx) = 257" "length (password cx) = 257" using assms(1) by (auto simp: s5_wf_def)
  have "s5_quiet c2 user c3"
    unfolding c3_def using assms l by (intro username_field) (auto simp: ds)
  moreover have "s5_byte 1 c0 = Some (c1, None)" "s5_byte (of_nat (length user)) c1 = Some (c2, None)"
      "s5_byte (of_nat (length pass)) c3 = Some (c4, None)"
    by (simp_all add: s5_byte_def ds)
  moreover have "s5_parse c4 (pass @ rest) = Some (s5_auth_verify, c5, rest)"
    unfolding c5_def using assms l by (intro password_field) (auto simp: ds)
  moreover have "snd (s5_select_auth S5_AUTH_PASSWD cx) = c0" by (simp add: s5_select_auth_def ds)
  ultimately have "s5_parse (snd (s5_select_auth S5_AUTH_PASSWD cx))
        (1 # of_nat (length user) # user @ of_nat (length pass) # pass @ rest) = Some (s5_auth_verify, c5, rest)"
    by (simp add: s5_quiet_def)
  then show ?thesis using l assms by (intro exI [of _ c5]) (simp add: ds s5_field_value)
qed

text \<open>C24: a request for a command the proxy knows and an address of any of the three types is read
  back as it was sent: the command, the type, the bytes of the address with a NUL after them, and
  the port from its two bytes, high byte first.\<close>

theorem s5_parse_request:
  assumes "s5_wf cx" and "k \<noteq> s5_cmd_tcp_bind" and "addr_ok t a"
  shows "\<exists>cx'. s5_parse (snd (s5_select_auth S5_AUTH_NONE cx))
        (5 # cmd_byte k # rsv # addr_bytes t a @ hi # lo # rest) = Some (s5_exec_cmd, cx', rest) \<and>
     cmd cx' = k \<and> atyp cx' = t \<and> take (length a) (daddr cx') = a \<and> daddr cx' ! length a = 0 \<and>
     dport cx' = push_bit 8 (ucast hi) OR ucast lo \<and> s5_st cx' = s5_dead"
proof -
  define c0 where "c0 = cx\<lparr>s5_st := s5_req_version\<rparr>"
  define c1 where "c1 = c0\<lparr>s5_st := s5_req_cmd\<rparr>"
  define c2 where "c2 = c1\<lparr>cmd := k, s5_st := s5_req_reserved\<rparr>"
  define c3 where "c3 = c2\<lparr>s5_st := s5_req_atyp\<rparr>"
  note ds = c0_def c1_def c2_def c3_def
  have "s5_byte 5 c0 = Some (c1, None)" "s5_byte (cmd_byte k) c1 = Some (c2, None)" "s5_byte rsv c2 = Some (c3, None)"
    using assms(2) by (cases k; simp add: s5_byte_def ds cmd_byte_def)+
  then have q0: "s5_quiet c0 [5, cmd_byte k, rsv] c3" by (auto intro: s5_quiet_cons s5_quiet_nil)
  have "s5_wf c3" using assms(1) by (auto simp: s5_wf_def ds)
  then obtain c4 where c4: "s5_quiet c3 (addr_bytes t a) c4" "s5_st c4 = s5_req_dport0" "atyp c4 = t" "cmd c4 = k"
      "take (length a) (daddr c4) = a" "daddr c4 ! length a = 0"
    using addr_quiet [of c3 t a] assms(3) by (auto simp: ds)
  define c6 where "c6 = c4\<lparr>dport := push_bit 8 (ucast hi) OR ucast lo, s5_st := s5_dead\<rparr>"
  have "s5_parse c4 (hi # lo # rest) = Some (s5_exec_cmd, c6, rest)"
    using c4(2) by (simp add: s5_byte_def c6_def)
  then have "s5_parse c0 ([5, cmd_byte k, rsv] @ addr_bytes t a @ hi # lo # rest) = Some (s5_exec_cmd, c6, rest)"
    using q0 c4(1) by (simp only: s5_quiet_def)
  moreover have "snd (s5_select_auth S5_AUTH_NONE cx) = c0" by (simp add: s5_select_auth_def ds)
  ultimately show ?thesis using c4 by (intro exI [of _ c6]) (simp add: c6_def)
qed

text \<open>A field of length zero is not recognised as complete: after a greeting with no methods the
  parser waits, and the next byte of the client, which belongs to something else, is swallowed
  before the selection is asked for; likewise a host name of length zero takes the first byte of
  the port.\<close>

theorem s5_empty_field_swallows_byte:
  "(\<exists>cx'. s5_parse s5_init [5, 0] = Some (s5_ok, cx', [])) \<and>
   (\<exists>cx'. s5_parse s5_init (5 # 0 # c # rest) = Some (s5_auth_select, cx', rest)) \<and>
   (\<exists>cx'. s5_parse (snd (s5_select_auth S5_AUTH_NONE s5_init)) (5 # 1 # 0 # 3 # 0 # hi # lo # rest)
        = s5_parse cx' rest \<and> s5_st cx' = s5_req_dport1 \<and> dport cx' = push_bit 8 (ucast lo))"
  by (simp add: s5_byte_def s5_init_def s5_select_auth_def copy_byte_def put_byte_def Let_def)
     (rule exI, rule conjI, rule refl, simp)

theorem s5_parse_in_bounds_witness:
  "\<exists>r cx' rest. s5_parse s5_init [5, 2, 0, 7, 5] = Some (r, cx', rest) \<and> s5_wf cx'"
  using s5_parse_in_bounds [OF s5_init_wf, of "[5, 2, 0, 7, 5]"] by blast

theorem s5_parse_pieces_witness:
  "\<exists>r cx' rest. s5_parse s5_init [5, 2] = Some (r, cx', rest) \<and> r = s5_ok \<and>
     s5_parse s5_init ([5, 2] @ [0, 2]) = s5_parse cx' [0, 2]"
proof -
  have "s5_parse s5_init [5, 2] = Some (s5_ok, s5_init\<lparr>arg0 := 0, arg1 := 2, s5_st := s5_methods\<rparr>, [])"
    by (simp add: s5_byte_def s5_init_def)
  then show ?thesis using s5_parse_pieces [OF s5_init_wf, of "[5, 2]" "[0, 2]"] by auto
qed

theorem s5_parse_greeting_witness:
  "\<exists>cx'. s5_parse s5_init [5, 2, 0, 2, 9] = Some (s5_auth_select, cx', [9]) \<and> s5_auth_methods cx' AND S5_AUTH_PASSWD \<noteq> 0"
  using s5_parse_greeting [of "[0, 2]" "[9]"] by auto

theorem s5_parse_password_witness:
  "\<exists>cx'. s5_parse (snd (s5_select_auth S5_AUTH_PASSWD s5_init)) [1, 2, 97, 98, 1, 99] = Some (s5_auth_verify, cx', []) \<and>
     take 2 (username cx') = [97, 98]"
  using s5_parse_password [OF s5_init_wf, of "[97, 98]" "[99]" "[]"]
  by (auto simp: numeral_2_eq_2)

theorem s5_parse_request_witness:
  "\<exists>cx'. s5_parse (snd (s5_select_auth S5_AUTH_NONE s5_init)) [5, 1, 0, 1, 127, 0, 0, 1, 1, 187] = Some (s5_exec_cmd, cx', []) \<and>
     take 4 (daddr cx') = [127, 0, 0, 1]"
  using s5_parse_request [OF s5_init_wf, of s5_cmd_tcp_connect s5_atyp_ipv4 "[127, 0, 0, 1]" 0 1 187 "[]"]
  by (auto simp: cmd_byte_def eval_nat_numeral)

end
