(* ===== verification/Inet.thy ===== *)
theory Inet
  imports Prelude
begin

text \<open>
  Addresses and their text form: \<open>src/src/libuv/src/inet.c\<close> and the four functions of
  \<open>uv-common.c\<close> over it.  An address is its 4 or 16 bytes in network order; a C string is the list of the
  characters before its NUL.  The formatting functions return \<open>Inl\<close> the error or \<open>Inr\<close> the
  text they leave in \<open>dst\<close>, the parsing functions the error or the bytes.
\<close>

abbreviation UV_ENOSPC :: int where "UV_ENOSPC \<equiv> - 28"
abbreviation UV_EAFNOSUPPORT :: int where "UV_EAFNOSUPPORT \<equiv> - 97"
abbreviation INET_EINVAL :: int where "INET_EINVAL \<equiv> - 22"

datatype af = AF_INET | AF_INET6 | AF_OTHER

section \<open>The conversions of the C library that are used\<close>

text \<open>\<open>%u\<close> and \<open>%x\<close>.\<close>

definition xdigits_l :: string where "xdigits_l = ''0123456789abcdef''"
definition xdigits_u :: string where "xdigits_u = ''0123456789ABCDEF''"
definition dec_digits :: string where "dec_digits = ''0123456789''"

fun dec_str :: "nat \<Rightarrow> string" where
  "dec_str n = (if n < 10 then [dec_digits ! n] else dec_str (n div 10) @ [dec_digits ! (n mod 10)])"

fun hex_str :: "nat \<Rightarrow> string" where
  "hex_str n = (if n < 16 then [xdigits_l ! n] else hex_str (n div 16) @ [xdigits_l ! (n mod 16)])"

declare dec_str.simps [simp del] hex_str.simps [simp del]

text \<open>\<open>strchr(s, c) - s\<close>.\<close>

fun strchr :: "string \<Rightarrow> char \<Rightarrow> nat option" where
  "strchr [] c = None"
| "strchr (x # xs) c = (if x = c then Some 0 else map_option Suc (strchr xs c))"

section \<open>Formatting\<close>

definition inet_ntop4 :: "u8 list \<Rightarrow> nat \<Rightarrow> int + string" where
  "inet_ntop4 src sz =
     (let tmp = dec_str (unat (src ! 0)) @ ''.'' @ dec_str (unat (src ! 1)) @ ''.'' @
                dec_str (unat (src ! 2)) @ ''.'' @ dec_str (unat (src ! 3))
      in if length tmp \<ge> sz then Inl UV_ENOSPC else Inr tmp)"

definition inet6_words :: "u8 list \<Rightarrow> u32 list" where
  "inet6_words src =
     foldl (\<lambda>ws i. ws[i div 2 := ws ! (i div 2) OR push_bit ((1 - i mod 2) * 8) (ucast (src ! i))])
           (replicate 8 0) [0..<16]"

text \<open>The longest run of zero words; a run is its first index (\<open>-1\<close> for none) and its length.\<close>

type_synonym run = "int \<times> int"

definition longer_run :: "run \<Rightarrow> run \<Rightarrow> run" where
  "longer_run best cur = (if fst best = - 1 \<or> snd cur > snd best then cur else best)"

fun zero_runs :: "nat \<Rightarrow> u32 list \<Rightarrow> run \<Rightarrow> run \<Rightarrow> run" where
  "zero_runs i [] best cur = (if fst cur \<noteq> - 1 then longer_run best cur else best)"
| "zero_runs i (w # ws) best cur =
     (if w = 0 then
        (if fst cur = - 1 then zero_runs (i + 1) ws best (int i, 1)
         else zero_runs (i + 1) ws best (fst cur, snd cur + 1))
      else
        (if fst cur \<noteq> - 1 then zero_runs (i + 1) ws (longer_run best cur) (- 1, snd cur)
         else zero_runs (i + 1) ws best cur))"

definition best_run :: "u32 list \<Rightarrow> run" where
  "best_run ws =
     (let best = zero_runs 0 ws (- 1, 0) (- 1, 0)
      in if fst best \<noteq> - 1 \<and> snd best < 2 then (- 1, snd best) else best)"

text \<open>The loop that formats the words; the list argument holds the values \<open>i\<close> still takes.\<close>

fun ntop6_loop :: "u8 list \<Rightarrow> u32 list \<Rightarrow> run \<Rightarrow> nat list \<Rightarrow> string \<Rightarrow> int + string" where
  "ntop6_loop src ws best [] tmp = Inr tmp"
| "ntop6_loop src ws best (i # is) tmp =
     (if fst best \<noteq> - 1 \<and> int i \<ge> fst best \<and> int i < fst best + snd best
      then ntop6_loop src ws best is (if int i = fst best then tmp @ '':'' else tmp)
      else
        let tmp = (if i \<noteq> 0 then tmp @ '':'' else tmp)
        in if i = 6 \<and> fst best = 0 \<and> (snd best = 6 \<or> (snd best = 7 \<and> ws ! 7 \<noteq> 0x0001) \<or>
                                      (snd best = 5 \<and> ws ! 5 = 0xffff))
           then (case inet_ntop4 (drop 12 src) (46 - length tmp) of
                   Inl err \<Rightarrow> Inl err
                 | Inr s \<Rightarrow> Inr (tmp @ s))
           else ntop6_loop src ws best is (tmp @ hex_str (unat (ws ! i))))"

definition inet_ntop6 :: "u8 list \<Rightarrow> nat \<Rightarrow> int + string" where
  "inet_ntop6 src sz =
     (let ws = inet6_words src;
          best = best_run ws
      in case ntop6_loop src ws best [0..<8] [] of
           Inl err \<Rightarrow> Inl err
         | Inr tmp \<Rightarrow>
             let tmp = (if fst best \<noteq> - 1 \<and> fst best + snd best = 8 then tmp @ '':'' else tmp)
             in if length tmp + 1 > sz then Inl UV_ENOSPC else Inr tmp)"

definition uv_inet_ntop :: "af \<Rightarrow> u8 list \<Rightarrow> nat \<Rightarrow> int + string" where
  "uv_inet_ntop af src sz =
     (case af of AF_INET \<Rightarrow> inet_ntop4 src sz
               | AF_INET6 \<Rightarrow> inet_ntop6 src sz
               | AF_OTHER \<Rightarrow> Inl UV_EAFNOSUPPORT)"

section \<open>Parsing\<close>

text \<open>\<open>ds\<close> are the bytes of \<open>tmp\<close> before \<open>tp\<close>, \<open>cur\<close> is \<open>*tp\<close>.\<close>

fun pton4_loop :: "string \<Rightarrow> bool \<Rightarrow> nat \<Rightarrow> u8 list \<Rightarrow> u8 \<Rightarrow> int + u8 list" where
  "pton4_loop [] saw_digit octets ds cur =
     (if octets < 4 then Inl INET_EINVAL else Inr (ds @ [cur]))"
| "pton4_loop (ch # src) saw_digit octets ds cur =
     (case strchr dec_digits ch of
        Some d \<Rightarrow>
          let nw = unat cur * 10 + d
          in if saw_digit \<and> cur = 0 then Inl INET_EINVAL
             else if nw > 255 then Inl INET_EINVAL
             else if \<not> saw_digit then
               (if octets + 1 > 4 then Inl INET_EINVAL
                else pton4_loop src True (octets + 1) ds (of_nat nw))
             else pton4_loop src True octets ds (of_nat nw)
      | None \<Rightarrow>
          if ch = CHR ''.'' \<and> saw_digit then
            (if octets = 4 then Inl INET_EINVAL else pton4_loop src False octets (ds @ [cur]) 0)
          else Inl INET_EINVAL)"

definition inet_pton4 :: "string \<Rightarrow> int + u8 list" where
  "inet_pton4 src = pton4_loop src False 0 [] 0"

text \<open>
  The state of \<open>inet_pton6\<close>: the 16 bytes \<open>tmp\<close>, the indices \<open>tp\<close> and \<open>colonp\<close> into them, the text
  \<open>curtok\<close> of the current group, and the digits and the value of it.
\<close>

record pton6_state =
  tmp16 :: "u8 list"
  tp :: nat
  colonp :: "nat option"
  curtok :: string
  seen_xdigits :: nat
  val :: u32

definition put_word :: "u32 \<Rightarrow> pton6_state \<Rightarrow> pton6_state" where
  "put_word v s = s\<lparr>tmp16 := (tmp16 s)[tp s := ucast (drop_bit 8 v) AND 0xff, tp s + 1 := ucast v AND 0xff],
                    tp := tp s + 2\<rparr>"

fun pton6_loop :: "string \<Rightarrow> pton6_state \<Rightarrow> int + pton6_state" where
  "pton6_loop [] s = Inr s"
| "pton6_loop (ch # src) s =
     (case (case strchr xdigits_l ch of None \<Rightarrow> strchr xdigits_u ch | Some d \<Rightarrow> Some d) of
        Some d \<Rightarrow>
          (let s = s\<lparr>val := push_bit 4 (val s) OR of_nat d, seen_xdigits := seen_xdigits s + 1\<rparr>
           in if seen_xdigits s > 4 then Inl INET_EINVAL else pton6_loop src s)
      | None \<Rightarrow>
          if ch = CHR '':'' then
            (let s = s\<lparr>curtok := src\<rparr>
             in if seen_xdigits s = 0 then
                  (if colonp s \<noteq> None then Inl INET_EINVAL
                   else pton6_loop src (s\<lparr>colonp := Some (tp s)\<rparr>))
                else if src = [] then Inl INET_EINVAL
                else if tp s + 2 > 16 then Inl INET_EINVAL
                else pton6_loop src ((put_word (val s) s)\<lparr>seen_xdigits := 0, val := 0\<rparr>))
          else if ch = CHR ''.'' \<and> tp s + 4 \<le> 16 then
            (case inet_pton4 (curtok s) of
               Inr b \<Rightarrow>
                 Inr (s\<lparr>tmp16 := take (tp s) (tmp16 s) @ b @ drop (tp s + 4) (tmp16 s),
                        tp := tp s + 4, seen_xdigits := 0\<rparr>)
             | Inl _ \<Rightarrow> Inl INET_EINVAL)
          else Inl INET_EINVAL)"

text \<open>\<open>for (i = 1; i <= n; i++) { endp[-i] = colonp[n - i]; colonp[n - i] = 0; }\<close>; the first
  argument counts the rounds that are left.\<close>

fun shift_up :: "nat \<Rightarrow> nat \<Rightarrow> nat \<Rightarrow> u8 list \<Rightarrow> u8 list" where
  "shift_up 0 c n t = t"
| "shift_up (Suc k) c n t =
     (let i = n - k
      in shift_up k c n (t[16 - i := t ! (c + (n - i)), c + (n - i) := 0]))"

text \<open>What follows the loop: the last group, and moving what came after \<open>::\<close> to the end.\<close>

definition pton6_finish :: "pton6_state \<Rightarrow> int + u8 list" where
  "pton6_finish s =
     (if seen_xdigits s \<noteq> 0 \<and> tp s + 2 > 16 then Inl INET_EINVAL
      else
        let s = (if seen_xdigits s \<noteq> 0 then put_word (val s) s else s)
        in case colonp s of
             None \<Rightarrow> if tp s \<noteq> 16 then Inl INET_EINVAL else Inr (tmp16 s)
           | Some c \<Rightarrow>
               if tp s = 16 then Inl INET_EINVAL
               else Inr (shift_up (tp s - c) c (tp s - c) (tmp16 s)))"

definition inet_pton6 :: "string \<Rightarrow> int + u8 list" where
  "inet_pton6 src0 =
     (case (if src0 \<noteq> [] \<and> hd src0 = CHR '':'' then
              (if tl src0 = [] \<or> hd (tl src0) \<noteq> CHR '':'' then None else Some (tl src0))
            else Some src0) of
        None \<Rightarrow> Inl INET_EINVAL
      | Some src \<Rightarrow>
          (case pton6_loop src \<lparr>tmp16 = replicate 16 0, tp = 0, colonp = None, curtok = src,
                                seen_xdigits = 0, val = 0\<rparr> of
             Inl err \<Rightarrow> Inl err
           | Inr s \<Rightarrow> pton6_finish s))"

definition uv_inet_pton :: "af \<Rightarrow> string option \<Rightarrow> int + u8 list" where
  "uv_inet_pton af src =
     (case src of
        None \<Rightarrow> Inl INET_EINVAL
      | Some src \<Rightarrow>
          (case af of
             AF_INET \<Rightarrow> inet_pton4 src
           | AF_INET6 \<Rightarrow>
               (case strchr src CHR ''%'' of
                  None \<Rightarrow> inet_pton6 src
                | Some len \<Rightarrow> if len > 45 then Inl INET_EINVAL else inet_pton6 (take len src))
           | AF_OTHER \<Rightarrow> Inl UV_EAFNOSUPPORT))"

section \<open>Socket addresses\<close>

text \<open>\<open>sin_port\<close> is the port in host order (the code stores \<open>htons\<close> of it).  The address bytes are
  those \<open>memset\<close> left when the text is not an address.\<close>

record sockaddr_in =
  sin_port :: u16
  sin_addr :: "u8 list"

record sockaddr_in6 =
  sin6_port :: u16
  sin6_addr :: "u8 list"
  sin6_scope_id :: u32

definition uv_ip4_addr :: "string \<Rightarrow> int \<Rightarrow> int \<times> sockaddr_in" where
  "uv_ip4_addr ip port =
     (let addr = \<lparr>sin_port = word_of_int port, sin_addr = replicate 4 0\<rparr>
      in case uv_inet_pton AF_INET (Some ip) of
           Inl err \<Rightarrow> (err, addr)
         | Inr b \<Rightarrow> (0, addr\<lparr>sin_addr := b\<rparr>))"

text \<open>\<open>if_nametoindex\<close> is a function of the system.\<close>

definition uv_ip6_addr :: "(string \<Rightarrow> u32) \<Rightarrow> string \<Rightarrow> int \<Rightarrow> int \<times> sockaddr_in6" where
  "uv_ip6_addr if_nametoindex ip port =
     (let addr = \<lparr>sin6_port = word_of_int port, sin6_addr = replicate 16 0, sin6_scope_id = 0\<rparr>;
          (addr, ip) =
            (case strchr ip CHR ''%'' of
               None \<Rightarrow> (addr, ip)
             | Some k \<Rightarrow>
                 (addr\<lparr>sin6_scope_id := if_nametoindex (drop (k + 1) ip)\<rparr>,
                  take (if k \<ge> 40 then 39 else k) ip))
      in case uv_inet_pton AF_INET6 (Some ip) of
           Inl err \<Rightarrow> (err, addr)
         | Inr b \<Rightarrow> (0, addr\<lparr>sin6_addr := b\<rparr>))"

definition uv_ip4_name :: "sockaddr_in \<Rightarrow> nat \<Rightarrow> int + string" where
  "uv_ip4_name src sz = uv_inet_ntop AF_INET (sin_addr src) sz"

definition uv_ip6_name :: "sockaddr_in6 \<Rightarrow> nat \<Rightarrow> int + string" where
  "uv_ip6_name src sz = uv_inet_ntop AF_INET6 (sin6_addr src) sz"

section \<open>IPv4\<close>

lemma strchr_tables:
  "\<forall>d \<in> set [0..<10]. strchr dec_digits (dec_digits ! d) = Some d \<and> strchr xdigits_l (dec_digits ! d) = Some d"
  "\<forall>d \<in> set [0..<16]. strchr xdigits_l (xdigits_l ! d) = Some d"
  by code_simp+

lemma strchr_dec [simp]: "d < 10 \<Longrightarrow> strchr dec_digits (dec_digits ! d) = Some d"
  using strchr_tables(1) by simp

lemma strchr_dec_Some: "strchr dec_digits c = Some d \<Longrightarrow> d < 10 \<and> c = dec_digits ! d"
  by (auto simp: dec_digits_def split: if_splits)

lemma strchr_hex_dec [simp]: "d < 10 \<Longrightarrow> strchr xdigits_l (dec_digits ! d) = Some d"
  using strchr_tables(1) by simp

lemma strchr_hex [simp]: "d < 16 \<Longrightarrow> strchr xdigits_l (xdigits_l ! d) = Some d"
  using strchr_tables(2) by simp

lemma strchr_dot [simp]: "strchr dec_digits CHR ''.'' = None" "strchr xdigits_l CHR ''.'' = None"
    "strchr xdigits_u CHR ''.'' = None" "strchr xdigits_l CHR '':'' = None" "strchr xdigits_u CHR '':'' = None"
  by (simp_all add: dec_digits_def xdigits_l_def xdigits_u_def)

lemma unat_of_nat8: "n < 256 \<Longrightarrow> unat (of_nat n :: u8) = n"
  by (simp add: unsigned_of_nat take_bit_nat_eq_self)

lemma unat_u8_less: "unat (c :: u8) < 256"
proof -
  have "unat c < 2 ^ LENGTH(8)" by (rule unsigned_less)
  then show ?thesis by simp
qed

lemma of_nat8_eq_0: "n < 256 \<Longrightarrow> (of_nat n :: u8) = 0 \<longleftrightarrow> n = 0"
  using unat_of_nat8 [of n] unat_eq_0 [of "of_nat n :: u8"] by simp

lemma dec_str_split:
  "n < 10 \<Longrightarrow> dec_str n = [dec_digits ! n]"
  "10 \<le> n \<Longrightarrow> dec_str n = dec_str (n div 10) @ [dec_digits ! (n mod 10)]"
  by (simp_all add: dec_str.simps [of n])

text \<open>One more digit.\<close>

lemma pton4_digit_first:
  "d < 10 \<Longrightarrow> octets < 4 \<Longrightarrow>
   pton4_loop (dec_digits ! d # rest) False octets ds 0 = pton4_loop rest True (octets + 1) ds (of_nat d)"
  by simp

lemma pton4_digit_next:
  "d < 10 \<Longrightarrow> 0 < n \<Longrightarrow> n * 10 + d < 256 \<Longrightarrow>
   pton4_loop (dec_digits ! d # rest) True octets ds (of_nat n) = pton4_loop rest True octets ds (of_nat (n * 10 + d))"
  by (simp add: unat_of_nat8 of_nat8_eq_0 del: of_nat_add of_nat_mult)

lemma pton4_octet:
  assumes "n < 256" "octets < 4"
  shows "pton4_loop (dec_str n @ rest) False octets ds 0 = pton4_loop rest True (octets + 1) ds (of_nat n)"
  using assms(1)
proof (induction n arbitrary: rest rule: less_induct)
  case (less n)
  show ?case
  proof (cases "n < 10")
    case True
    then show ?thesis using assms(2) pton4_digit_first by (simp add: dec_str_split(1) del: pton4_loop.simps)
  next
    case False
    have "n div 10 * 10 + n mod 10 = n" by (rule div_mult_mod_eq)
    moreover have "pton4_loop (dec_str (n div 10) @ dec_digits ! (n mod 10) # rest) False octets ds 0
        = pton4_loop (dec_digits ! (n mod 10) # rest) True (octets + 1) ds (of_nat (n div 10))"
      using less False by (intro less.IH) auto
    ultimately show ?thesis
      using pton4_digit_next [of "n mod 10" "n div 10" rest "octets + 1" ds] less.prems False
      by (simp add: dec_str_split(2) div_greater_zero_iff del: pton4_loop.simps of_nat_add of_nat_mult)
  qed
qed

definition ntop4_text :: "u8 list \<Rightarrow> string" where
  "ntop4_text src = dec_str (unat (src ! 0)) @ ''.'' @ dec_str (unat (src ! 1)) @ ''.'' @
                    dec_str (unat (src ! 2)) @ ''.'' @ dec_str (unat (src ! 3))"

lemma pton4_ntop4:
  assumes "length b = 4"
  shows "inet_pton4 (ntop4_text b) = Inr b"
proof -
  obtain b0 b1 b2 b3 where b: "b = [b0, b1, b2, b3]"
    using assms by (auto simp: eval_nat_numeral length_Suc_conv)
  have dot: "pton4_loop (CHR ''.'' # rest) True octets ds cur = pton4_loop rest False octets (ds @ [cur]) 0"
    if "octets < 4" for rest octets ds cur
    using that by simp
  note o = pton4_octet [OF unat_u8_less]
  have fin: "pton4_loop [] True 4 ds cur = Inr (ds @ [cur])" for ds cur by simp
  have 4: "pton4_loop (dec_str (unat b3)) False 3 [b0, b1, b2] 0 = Inr b"
    using o [of 3 b3 "[]"] fin by (simp add: b del: pton4_loop.simps)
  show ?thesis
    unfolding inet_pton4_def ntop4_text_def
    by (simp add: b o dot del: pton4_loop.simps) (use 4 in \<open>simp add: b numeral_3_eq_3 numeral_2_eq_2 del: pton4_loop.simps\<close>)
qed

text \<open>The converse: only the canonical text of an address is accepted.\<close>

definition dotted :: "u8 list \<Rightarrow> string" where
  "dotted ws = concat (map (\<lambda>w. dec_str (unat w) @ ''.'') (butlast ws)) @ dec_str (unat (last ws))"

lemma dotted_Cons: "ws \<noteq> [] \<Longrightarrow> dotted (w # ws) = dec_str (unat w) @ ''.'' @ dotted ws"
  by (simp add: dotted_def)

lemma pton4_loop_sound:
  assumes "pton4_loop src saw octets ds cur = Inr b" "octets = length ds + (if saw then 1 else 0)" "\<not> saw \<longrightarrow> cur = 0"
    "octets \<le> (if saw then 4 else 3)"
  shows "\<exists>ws. ws \<noteq> [] \<and> b = ds @ ws \<and> length b = 4 \<and> (if saw then dec_str (unat cur) else []) @ src = dotted ws"
  using assms
proof (induction src saw octets ds cur arbitrary: b rule: pton4_loop.induct)
  case (1 saw octets ds cur)
  then show ?case by (intro exI [of _ "[cur]"]) (auto simp: dotted_def split: if_splits)
next
  case (2 ch src saw octets ds cur)
  show ?case
  proof (cases "strchr dec_digits ch")
    case (Some d)
    have d: "d < 10" "ch = dec_digits ! d" using strchr_dec_Some [OF Some] by auto
    define nw where "nw = unat cur * 10 + d"
    have nw: "nw \<le> 255" "saw \<longrightarrow> cur \<noteq> 0" using 2(4) Some by (auto simp: Let_def nw_def split: if_splits)
    have u: "unat (of_nat nw :: u8) = nw" by (rule unat_of_nat8) (use nw(1) in simp)
    show ?thesis
    proof (cases saw)
      case True
      have c: "0 < unat cur" using nw(2) True by (simp add: unat_gt_0)
      have "pton4_loop src True octets ds (of_nat nw) = Inr b"
        using 2(4) Some True nw(1) by (simp add: Let_def nw_def [symmetric] del: of_nat_add of_nat_mult split: if_splits)
      then have "\<exists>ws. ws \<noteq> [] \<and> b = ds @ ws \<and> length b = 4 \<and>
          (if True then dec_str (unat (of_nat nw :: u8)) else []) @ src = dotted ws"
      proof -
        assume run: "pton4_loop src True octets ds (of_nat nw) = Inr b"
        have p: "\<not> (saw \<and> cur = 0)" "\<not> 255 < nw" "\<not> \<not> saw"
            "octets = length ds + (if True then 1 else 0)" "octets \<le> (if True then 4 else 3)"
          using 2(5,7) True nw by simp_all
        show ?thesis by (rule 2(3) [OF Some nw_def p(1-3) run p(4) _ p(5)]) simp
      qed
      then obtain ws where ws: "ws \<noteq> []" "b = ds @ ws" "length b = 4"
          "dec_str (unat (of_nat nw :: u8)) @ src = dotted ws"
        unfolding if_True by blast
      have "dec_str nw = dec_str (unat cur) @ [ch]"
        using c d unfolding nw_def by (subst dec_str_split(2)) auto
      then show ?thesis using ws(1-3) ws(4) [unfolded u] True by (intro exI [of _ ws]) simp
    next
      case False
      have c: "cur = 0" "octets + 1 \<le> 4" using 2(4,6) False Some by (auto simp: Let_def split: if_splits)
      have "pton4_loop src True (octets + 1) ds (of_nat nw) = Inr b"
        using 2(4) Some False nw(1) c by (simp add: Let_def nw_def split: if_splits)
      then have "\<exists>ws. ws \<noteq> [] \<and> b = ds @ ws \<and> length b = 4 \<and>
          (if True then dec_str (unat (of_nat nw :: u8)) else []) @ src = dotted ws"
        by (rule 2(2) [OF Some nw_def, rotated 4]) (use 2(5-7) False nw c in simp_all)
      then obtain ws where ws: "ws \<noteq> []" "b = ds @ ws" "length b = 4"
          "dec_str (unat (of_nat nw :: u8)) @ src = dotted ws"
        unfolding if_True by blast
      have "dec_str nw = [ch]" using c d by (simp add: dec_str_split(1) nw_def)
      then show ?thesis using ws(1-3) ws(4) [unfolded u] False by (intro exI [of _ ws]) simp
    qed
  next
    case None
    then have c: "ch = CHR ''.''" "saw" "octets \<noteq> 4" "pton4_loop src False octets (ds @ [cur]) 0 = Inr b"
      using 2(4) by (auto split: if_splits)
    have p: "octets = length (ds @ [cur]) + (if False then 1 else 0)" "octets \<le> (if False then 4 else 3)"
      using 2(5,7) c(2,3) by simp_all
    have "\<exists>ws. ws \<noteq> [] \<and> b = (ds @ [cur]) @ ws \<and> length b = 4 \<and>
        (if False then dec_str (unat (0 :: u8)) else []) @ src = dotted ws"
      using 2(1) [OF None conjI [OF c(1,2)] c(3,4) p(1) _ p(2)] by blast
    then obtain ws where "ws \<noteq> []" "b = (ds @ [cur]) @ ws" "length b = 4" "src = dotted ws"
      unfolding if_False append_Nil by blast
    then show ?thesis using c by (intro exI [of _ "cur # ws"]) (simp add: dotted_Cons)
  qed
qed

section \<open>IPv6: parsing groups\<close>

lemma push_or_nat:
  assumes "b < 2 ^ k"
  shows "push_bit k (of_nat m :: u32) OR of_nat b = of_nat (m * 2 ^ k + b)"
proof -
  have tb: "take_bit k b = b" using assms by (simp add: take_bit_nat_eq_self)
  have "push_bit k (of_nat m :: u32) AND of_nat b = 0"
  proof (rule bit_word_eqI)
    fix n assume "n < LENGTH(32)"
    have "bit b n \<longrightarrow> n < k" using tb by (metis bit_take_bit_iff)
    then show "bit (push_bit k (of_nat m :: u32) AND of_nat b) n = bit (0 :: u32) n"
      by (auto simp: bit_simps)
  qed
  then have "push_bit k (of_nat m :: u32) OR of_nat b = push_bit k (of_nat m) + of_nat b"
    by (simp add: disjunctive_add_eq_or)
  then show ?thesis by (simp add: push_bit_eq_mult)
qed

lemma hex_str_split:
  "n < 16 \<Longrightarrow> hex_str n = [xdigits_l ! n]"
  "16 \<le> n \<Longrightarrow> hex_str n = hex_str (n div 16) @ [xdigits_l ! (n mod 16)]"
  by (simp_all add: hex_str.simps [of n])

lemma hex_str_length: "n < 16 ^ Suc k \<Longrightarrow> length (hex_str n) \<le> Suc k"
proof (induction k arbitrary: n)
  case 0 then show ?case by (simp add: hex_str_split(1))
next
  case (Suc k)
  show ?case
  proof (cases "n < 16")
    case True then show ?thesis by (simp add: hex_str_split(1))
  next
    case False
    have "n div 16 < 16 ^ Suc k" using Suc.prems by (simp add: less_mult_imp_div_less)
    then show ?thesis using Suc.IH False by (simp add: hex_str_split(2))
  qed
qed

lemma hex_str_pos: "0 < length (hex_str n)"
  by (cases "n < 16") (simp_all add: hex_str_split)

lemma hex_str_no_colon: "hex_str n \<noteq> [] \<and> hd (hex_str n) \<noteq> CHR '':''"
proof (induction n rule: less_induct)
  case (less n)
  have "d < 16 \<Longrightarrow> xdigits_l ! d \<noteq> CHR '':''" for d
    using strchr_hex [of d] strchr_dot(4) by fastforce
  then show ?case using less [of "n div 16"] by (cases "n < 16") (auto simp: hex_str_split)
qed

lemma pton6_digit:
  assumes "strchr xdigits_l ch = Some d" "d < 16" "seen_xdigits s < 4" "val s = of_nat m"
  shows "pton6_loop (ch # src) s = pton6_loop src (s\<lparr>val := of_nat (m * 16 + d), seen_xdigits := seen_xdigits s + 1\<rparr>)"
proof -
  have "push_bit 4 (of_nat m :: u32) OR of_nat d = of_nat (m * 16 + d)"
    using push_or_nat [of d 4 m] assms(2) by simp
  then show ?thesis using assms by (simp add: Let_def del: of_nat_add of_nat_mult)
qed

lemma pton6_hex:
  assumes "n < 65536" "seen_xdigits s = 0" "val s = 0"
  shows "pton6_loop (hex_str n @ rest) s = pton6_loop rest (s\<lparr>val := of_nat n, seen_xdigits := length (hex_str n)\<rparr>)"
  using assms(1)
proof (induction n arbitrary: rest rule: less_induct)
  case (less n)
  show ?case
  proof (cases "n < 16")
    case True
    then show ?thesis using assms pton6_digit [of _ n s 0] by (simp add: hex_str_split(1) del: pton6_loop.simps)
  next
    case False
    have "n div 16 < 16 ^ Suc 2" using less.prems by (simp add: less_mult_imp_div_less)
    then have len: "length (hex_str (n div 16)) < 4" using hex_str_length [of "n div 16" 2] by simp
    let ?s = "s\<lparr>val := of_nat (n div 16), seen_xdigits := length (hex_str (n div 16))\<rparr>"
    have "n div 16 * 16 + n mod 16 = n" by (rule div_mult_mod_eq)
    moreover have "pton6_loop (hex_str (n div 16) @ xdigits_l ! (n mod 16) # rest) s = pton6_loop (xdigits_l ! (n mod 16) # rest) ?s"
      using less False by (intro less.IH) auto
    moreover have "pton6_loop (xdigits_l ! (n mod 16) # rest) ?s =
        pton6_loop rest (?s\<lparr>val := of_nat (n div 16 * 16 + n mod 16), seen_xdigits := length (hex_str (n div 16)) + 1\<rparr>)"
      using len pton6_digit [of "xdigits_l ! (n mod 16)" "n mod 16" ?s "n div 16" rest] by simp
    ultimately show ?thesis using False by (simp add: hex_str_split(2) del: pton6_loop.simps of_nat_add of_nat_mult)
  qed
qed

definition wbytes :: "nat \<Rightarrow> u8 list" where
  "wbytes w = [of_nat (w div 256), of_nat (w mod 256)]"

definition pst :: "u8 list \<Rightarrow> nat option \<Rightarrow> string \<Rightarrow> pton6_state" where
  "pst bs c ct = \<lparr>tmp16 = bs @ replicate (16 - length bs) 0, tp = length bs, colonp = c, curtok = ct,
                  seen_xdigits = 0, val = 0\<rparr>"

lemma pst_sel [simp]:
  "tp (pst bs c ct) = length bs" "colonp (pst bs c ct) = c" "curtok (pst bs c ct) = ct"
  "seen_xdigits (pst bs c ct) = 0" "val (pst bs c ct) = 0"
  "tmp16 (pst bs c ct) = bs @ replicate (16 - length bs) 0"
  by (simp_all add: pst_def)

lemma word_bytes:
  assumes "w < 65536"
  shows "ucast (drop_bit 8 (of_nat w :: u32)) AND (0xff :: u8) = of_nat (w div 256)"
    and "ucast (of_nat w :: u32) AND (0xff :: u8) = of_nat (w mod 256)"
proof -
  have m: "x AND 0xff = x" for x :: u8
  proof -
    have "(0xff :: u8) = - 1" by simp
    then show ?thesis by (simp only: and.right_neutral)
  qed
  have u: "unat (of_nat w :: u32) = w" using assms by (simp add: unsigned_of_nat take_bit_nat_eq_self)
  have "unat (ucast (of_nat w :: u32) :: u8) = w mod 256"
    by (simp add: unsigned_ucast_eq u take_bit_eq_mod)
  moreover have "unat (of_nat (w mod 256) :: u8) = w mod 256" by (rule unat_of_nat8) simp
  ultimately have "unat (ucast (of_nat w :: u32) :: u8) = unat (of_nat (w mod 256) :: u8)" by simp
  then show "ucast (of_nat w :: u32) AND (0xff :: u8) = of_nat (w mod 256)"
    unfolding m by (rule unsigned_word_eqI)
  have "unat (ucast (drop_bit 8 (of_nat w :: u32)) :: u8) = w div 256 mod 256"
    by (simp add: unsigned_ucast_eq u take_bit_eq_mod drop_bit_eq_div unat_div)
  moreover have "w div 256 < 256" using assms by (simp add: less_mult_imp_div_less)
  moreover have "unat (of_nat (w div 256) :: u8) = w div 256" by (rule unat_of_nat8) (use assms in \<open>simp add: less_mult_imp_div_less\<close>)
  ultimately have "unat (ucast (drop_bit 8 (of_nat w :: u32)) :: u8) = unat (of_nat (w div 256) :: u8)" by simp
  then show "ucast (drop_bit 8 (of_nat w :: u32)) AND (0xff :: u8) = of_nat (w div 256)"
    unfolding m by (rule unsigned_word_eqI)
qed

lemma put_word_tmp:
  assumes "w < 65536" "length bs + 2 \<le> 16" "tmp16 s = bs @ replicate (16 - length bs) 0" "tp s = length bs"
  shows "tmp16 (put_word (of_nat w) s) = (bs @ wbytes w) @ replicate (16 - length (bs @ wbytes w)) 0"
    "tp (put_word (of_nat w) s) = length (bs @ wbytes w)"
proof -
  have "replicate (16 - length bs) (0 :: u8) = 0 # 0 # replicate (14 - length bs) 0"
  proof -
    have "16 - length bs = Suc (Suc (14 - length bs))" using assms(2) by arith
    then show ?thesis by (simp only: replicate_Suc)
  qed
  then show "tmp16 (put_word (of_nat w) s) = (bs @ wbytes w) @ replicate (16 - length (bs @ wbytes w)) 0"
    using assms by (simp add: put_word_def wbytes_def word_bytes list_update_append)
  show "tp (put_word (of_nat w) s) = length (bs @ wbytes w)"
    using assms by (simp add: put_word_def wbytes_def)
qed

definition pton6_run :: "string \<Rightarrow> pton6_state \<Rightarrow> int + u8 list" where
  "pton6_run src s = (case pton6_loop src s of Inl e \<Rightarrow> Inl e | Inr s \<Rightarrow> pton6_finish s)"

lemma pton6_group:
  assumes w: "w < 65536" and len: "length bs + 2 \<le> 16" and rest: "rest \<noteq> []"
  shows "pton6_loop (hex_str w @ CHR '':'' # rest) (pst bs c ct) = pton6_loop rest (pst (bs @ wbytes w) c rest)"
proof -
  let ?s = "(pst bs c ct)\<lparr>val := of_nat w, seen_xdigits := length (hex_str w)\<rparr>"
  let ?t = "(put_word (of_nat w) (?s\<lparr>curtok := rest\<rparr>))\<lparr>seen_xdigits := 0, val := 0\<rparr>"
  have "pton6_loop (hex_str w @ CHR '':'' # rest) (pst bs c ct) = pton6_loop (CHR '':'' # rest) ?s"
    by (rule pton6_hex [OF w]) simp_all
  also have "\<dots> = pton6_loop rest ?t"
    using len rest hex_str_pos [of w] by (simp add: Let_def)
  also have "?t = pst (bs @ wbytes w) c rest"
    using put_word_tmp [OF w len, of "?s\<lparr>curtok := rest\<rparr>"]
    by (simp add: pst_def put_word_def)
  finally show ?thesis .
qed

lemma pton6_last:
  assumes w: "w < 65536" and len: "length bs + 2 \<le> 16"
  shows "pton6_run (hex_str w) (pst bs c ct) = pton6_finish (pst (bs @ wbytes w) c ct')"
proof -
  let ?s = "(pst bs c ct)\<lparr>val := of_nat w, seen_xdigits := length (hex_str w)\<rparr>"
  have "pton6_loop (hex_str w) (pst bs c ct) = Inr ?s"
    using pton6_hex [OF w, of "pst bs c ct" "[]"] by simp
  moreover have "pton6_finish ?s = pton6_finish (pst (bs @ wbytes w) c ct')"
    using put_word_tmp [OF w len, of ?s] len hex_str_pos [of w]
    by (simp add: pton6_finish_def Let_def put_word_def split: option.splits)
  ultimately show ?thesis by (simp add: pton6_run_def)
qed

fun join6 :: "nat list \<Rightarrow> string" where
  "join6 [] = []"
| "join6 [w] = hex_str w"
| "join6 (w # v # ws) = hex_str w @ CHR '':'' # join6 (v # ws)"

definition words_bytes :: "nat list \<Rightarrow> u8 list" where
  "words_bytes ws = concat (map wbytes ws)"

lemma words_bytes_simps [simp]:
  "words_bytes [] = []" "words_bytes (w # ws) = wbytes w @ words_bytes ws" "length (wbytes w) = 2"
  "words_bytes (us @ vs) = words_bytes us @ words_bytes vs" "length (words_bytes ws) = 2 * length ws"
  by (simp_all add: words_bytes_def wbytes_def) (induction ws, simp_all add: wbytes_def)

lemma join6_nonempty: "ws \<noteq> [] \<Longrightarrow> join6 ws \<noteq> [] \<and> hd (join6 ws) \<noteq> CHR '':''"
  by (cases ws rule: join6.cases) (use hex_str_no_colon in \<open>auto simp: hd_append\<close>)

lemma pton6_join_last:
  assumes "ws \<noteq> []" "\<forall>w \<in> set ws. w < 65536" "length bs + 2 * length ws \<le> 16"
  shows "pton6_run (join6 ws) (pst bs c ct) = pton6_finish (pst (bs @ words_bytes ws) c ct')"
  using assms
proof (induction ws arbitrary: bs ct rule: join6.induct)
  case (2 w)
  then show ?case using pton6_last [of w bs c ct ct'] by simp
next
  case (3 w v ws)
  have "pton6_run (join6 (w # v # ws)) (pst bs c ct) = pton6_run (join6 (v # ws)) (pst (bs @ wbytes w) c (join6 (v # ws)))"
    using 3(3,4) pton6_group [of w bs "join6 (v # ws)" c ct] join6_nonempty [of "v # ws"]
    by (simp add: pton6_run_def del: join6.simps(2))
  also have "\<dots> = pton6_finish (pst ((bs @ wbytes w) @ words_bytes (v # ws)) c ct')"
    using 3(3,4) by (intro 3(1)) auto
  finally show ?case by simp
qed simp

lemma pton6_join_colon:
  assumes "ws \<noteq> []" "\<forall>w \<in> set ws. w < 65536" "length bs + 2 * length ws \<le> 16" "rest \<noteq> []"
  shows "pton6_loop (join6 ws @ CHR '':'' # rest) (pst bs c ct) = pton6_loop rest (pst (bs @ words_bytes ws) c rest)"
  using assms
proof (induction ws arbitrary: bs ct rule: join6.induct)
  case (2 w)
  then show ?case using pton6_group [of w bs rest c ct] by simp
next
  case (3 w v ws)
  have "pton6_loop (join6 (w # v # ws) @ CHR '':'' # rest) (pst bs c ct) =
      pton6_loop (join6 (v # ws) @ CHR '':'' # rest) (pst (bs @ wbytes w) c (join6 (v # ws) @ CHR '':'' # rest))"
    using 3(3,4) pton6_group [of w bs "join6 (v # ws) @ CHR '':'' # rest" c ct] by simp
  also have "\<dots> = pton6_loop rest (pst ((bs @ wbytes w) @ words_bytes (v # ws)) c rest)"
    using 3(3-5) by (intro 3(1)) auto
  finally show ?case by simp
qed simp

text \<open>The second colon of \<open>::\<close>.\<close>

lemma pton6_second_colon:
  "pton6_loop (CHR '':'' # rest) (pst bs None ct) = pton6_loop rest (pst bs (Some (length bs)) rest)"
  by (simp add: Let_def pst_def)

section \<open>IPv6: the end of the text\<close>

lemma pton6_finish_full: "length bs = 16 \<Longrightarrow> pton6_finish (pst bs None ct) = Inr bs"
  by (simp add: pton6_finish_def)

lemma shift_up_closed:
  assumes "k \<le> n" "length pre = c" "length mid = n" "0 < z" "c + n + z = 16"
  shows "shift_up k c n (pre @ take k mid @ replicate z 0 @ drop k mid) = pre @ replicate z 0 @ mid"
  using assms
proof (induction k)
  case (Suc k)
  obtain z' where z: "z = Suc z'" using Suc.prems(4) by (cases z) auto
  have kn: "k < n" using Suc.prems by simp
  let ?t = "pre @ take (Suc k) mid @ replicate z 0 @ drop (Suc k) mid"
  have sp: "?t = pre @ take k mid @ mid ! k # replicate z' 0 @ 0 # drop (Suc k) mid"
    using kn Suc.prems(3) by (simp add: take_Suc_conv_app_nth z replicate_append_same)
  have i: "n - (n - k) = k" "16 - (n - k) = c + (k + Suc z')" using kn Suc.prems(5) z by auto
  have "?t ! (c + k) = mid ! k" using sp Suc.prems kn by (simp add: nth_append)
  moreover have "?t[c + (k + Suc z') := mid ! k, c + k := 0] = pre @ take k mid @ 0 # replicate z' 0 @ mid ! k # drop (Suc k) mid"
    unfolding sp using Suc.prems kn by (simp add: list_update_append)
  moreover have "\<dots> = pre @ take k mid @ replicate z 0 @ drop k mid"
    using kn Suc.prems(3) by (simp add: z Cons_nth_drop_Suc)
  ultimately have "shift_up (Suc k) c n ?t = shift_up k c n (pre @ take k mid @ replicate z 0 @ drop k mid)"
    using i by (simp add: Let_def)
  then show ?case using Suc by simp
qed simp

lemma pton6_finish_gap:
  assumes "c \<le> length bs" "length bs < 16"
  shows "pton6_finish (pst bs (Some c) ct) = Inr (take c bs @ replicate (16 - length bs) 0 @ drop c bs)"
  using assms shift_up_closed [of "length bs - c" "length bs - c" "take c bs" c "drop c bs" "16 - length bs"]
  by (simp add: pton6_finish_def flip: append_assoc)

text \<open>The decimal digits of the first octet of an embedded IPv4 address are read as hexadecimal
  ones, until the dot hands the whole group to \<open>inet_pton4\<close>.\<close>

lemma pton6_dec:
  assumes "n < 256" "seen_xdigits s = 0" "val s = 0"
  shows "\<exists>v k. k < 4 \<and> pton6_loop (dec_str n @ rest) s = pton6_loop rest (s\<lparr>val := of_nat v, seen_xdigits := k\<rparr>)"
proof -
  have "\<exists>v. length (dec_str n) < 4 \<and>
      pton6_loop (dec_str n @ rest) s = pton6_loop rest (s\<lparr>val := of_nat v, seen_xdigits := length (dec_str n)\<rparr>)"
    if "n < 1000" "n < 10 ^ Suc k" "k \<le> 2" "length (dec_str n) \<le> Suc k" for n k rest
    using that
  proof (induction k arbitrary: n rest)
    case 0
    then show ?case
      using pton6_digit [of "dec_digits ! n" n s 0 rest] assms(2,3)
      by (intro exI [of _ n]) (simp add: dec_str_split(1) del: pton6_loop.simps)
  next
    case (Suc k)
    show ?case
    proof (cases "n < 10")
      case True
      then show ?thesis
        using pton6_digit [of "dec_digits ! n" n s 0 rest] assms(2,3)
        by (intro exI [of _ n]) (simp add: dec_str_split(1) del: pton6_loop.simps)
    next
      case False
      have le: "length (dec_str (n div 10)) \<le> Suc k" using Suc.prems(4) False by (simp add: dec_str_split(2))
      have "n div 10 < 10 ^ Suc k" using Suc.prems(2) by (simp add: less_mult_imp_div_less)
      moreover have "n div 10 < 1000" by (rule le_less_trans [OF div_le_dividend Suc.prems(1)])
      ultimately obtain v where v: "length (dec_str (n div 10)) < 4"
        "pton6_loop (dec_str (n div 10) @ dec_digits ! (n mod 10) # rest) s =
         pton6_loop (dec_digits ! (n mod 10) # rest) (s\<lparr>val := of_nat v, seen_xdigits := length (dec_str (n div 10))\<rparr>)"
        using Suc.IH [of "n div 10" "dec_digits ! (n mod 10) # rest"] Suc.prems le
        by (auto simp del: pton6_loop.simps)
      have "length (dec_str n) < 4" using Suc.prems(3,4) by linarith
      then show ?thesis
        using v(2) False pton6_digit [of "dec_digits ! (n mod 10)" "n mod 10"
            "s\<lparr>val := of_nat v, seen_xdigits := length (dec_str (n div 10))\<rparr>" v rest]
        by (intro exI [of _ "v * 16 + n mod 10"]) (simp add: dec_str_split(2) del: pton6_loop.simps of_nat_add of_nat_mult)
    qed
  qed
  note step = this
  have "length (dec_str n) \<le> 3"
  proof -
    have "n div 10 < 100" "n div 10 div 10 < 10" using assms(1) by (simp_all add: less_mult_imp_div_less)
    then show ?thesis
      by (cases "n < 10"; cases "n div 10 < 10") (simp_all add: dec_str_split)
  qed
  then obtain v where "pton6_loop (dec_str n @ rest) s =
      pton6_loop rest (s\<lparr>val := of_nat v, seen_xdigits := length (dec_str n)\<rparr>)"
    using step [of n 2 rest] assms(1) by auto
  then show ?thesis
    using \<open>length (dec_str n) \<le> 3\<close> by (intro exI [of _ v] exI [of _ "length (dec_str n)"]) simp
qed

lemma pton6_ipv4:
  assumes "length b = 4" "length bs + 4 \<le> 16"
  shows "pton6_run (ntop4_text b) (pst bs c (ntop4_text b)) = pton6_finish (pst (bs @ b) c ct')"
proof -
  define r where "r = dec_str (unat (b ! 1)) @ ''.'' @ dec_str (unat (b ! 2)) @ ''.'' @ dec_str (unat (b ! 3))"
  let ?s = "pst bs c (ntop4_text b)"
  have tx: "ntop4_text b = dec_str (unat (b ! 0)) @ CHR ''.'' # r" by (simp add: ntop4_text_def r_def)
  obtain v k where vk: "k < 4" "pton6_loop (dec_str (unat (b ! 0)) @ CHR ''.'' # r) ?s =
      pton6_loop (CHR ''.'' # r) (?s\<lparr>val := of_nat v, seen_xdigits := k\<rparr>)"
    using pton6_dec [OF unat_u8_less, of ?s "b ! 0" "CHR ''.'' # r"] by auto
  have "pton6_loop (CHR ''.'' # r) (?s\<lparr>val := of_nat v, seen_xdigits := k\<rparr>) =
      Inr (?s\<lparr>val := of_nat v, tmp16 := bs @ b @ replicate (12 - length bs) 0, tp := length bs + 4, seen_xdigits := 0\<rparr>)"
    using assms pton4_ntop4 [OF assms(1)] by simp
  moreover have "pton6_finish (?s\<lparr>val := of_nat v, tmp16 := bs @ b @ replicate (12 - length bs) 0, tp := length bs + 4, seen_xdigits := 0\<rparr>)
      = pton6_finish (pst (bs @ b) c ct')"
    using assms by (simp add: pton6_finish_def Let_def split: option.split)
  ultimately show ?thesis using vk tx by (simp add: pton6_run_def)
qed

section \<open>IPv6: formatting\<close>

definition run_ok :: "u32 list \<Rightarrow> nat \<Rightarrow> run \<Rightarrow> bool" where
  "run_ok ws i r \<longleftrightarrow> fst r = - 1 \<or>
     (0 \<le> fst r \<and> 1 \<le> snd r \<and> fst r + snd r \<le> int i \<and> (\<forall>k. fst r \<le> int k \<and> int k < fst r + snd r \<longrightarrow> ws ! k = 0))"

lemma longer_run_ok: "run_ok ws i best \<Longrightarrow> run_ok ws i cur \<Longrightarrow> run_ok ws i (longer_run best cur)"
  by (simp add: longer_run_def)

lemma run_ok_mono: "run_ok ws i r \<Longrightarrow> i \<le> j \<Longrightarrow> run_ok ws j r"
  by (auto simp: run_ok_def)

lemma zero_runs_ok:
  assumes "run_ok ws i best" "run_ok ws i cur" "fst cur \<noteq> - 1 \<longrightarrow> fst cur + snd cur = int i" "i \<le> length ws"
  shows "run_ok ws (length ws) (zero_runs i (drop i ws) best cur)"
  using assms
proof (induction "drop i ws" arbitrary: i best cur)
  case Nil
  then show ?case using longer_run_ok run_ok_mono by (metis zero_runs.simps(1))
next
  case (Cons w rest)
  have i: "i < length ws" using Cons.hyps(2) by (metis drop_eq_Nil2 list.distinct(1) not_le)
  have "w # rest = ws ! i # drop (Suc i) ws" using Cons.hyps(2) Cons_nth_drop_Suc [OF i] by metis
  then have w: "w = ws ! i" "rest = drop (i + 1) ws" "drop i ws = w # drop (i + 1) ws"
    using Cons.hyps(2) by simp_all
  have m: "run_ok ws (i + 1) best" "run_ok ws (i + 1) cur" using Cons.prems run_ok_mono by auto
  have i1: "i + 1 \<le> length ws" using i by simp
  consider "w = 0" "fst cur = - 1" | "w = 0" "fst cur \<noteq> - 1" | "w \<noteq> 0" by blast
  then show ?case
  proof cases
    case 1
    have "run_ok ws (i + 1) (int i, 1)" using 1 w by (auto simp: run_ok_def)
    then show ?thesis using Cons.hyps(1) [OF w(2) m(1) _ _ i1, of "(int i, 1)"] 1 by (simp add: w(3))
  next
    case 2
    have "ws ! k = 0" if "fst cur \<le> int k" "int k < fst cur + (snd cur + 1)" for k
    proof (cases "k = i")
      case False
      then have "int k < fst cur + snd cur" using that Cons.prems(3) 2 by auto
      then show ?thesis using that Cons.prems(2) 2 by (auto simp: run_ok_def)
    qed (use 2 w in simp)
    then have "run_ok ws (i + 1) (fst cur, snd cur + 1)" using 2 Cons.prems by (auto simp: run_ok_def)
    then show ?thesis using Cons.hyps(1) [OF w(2) m(1) _ _ i1, of "(fst cur, snd cur + 1)"] 2 Cons.prems(3) by (simp add: w(3))
  next
    case 3
    have "run_ok ws (i + 1) (- 1, snd cur)" by (simp add: run_ok_def)
    then show ?thesis
      using Cons.hyps(1) [OF w(2) _ _ _ i1, of "longer_run best cur" "(- 1, snd cur)"] Cons.hyps(1) [OF w(2) m(1) m(2) _ i1]
        longer_run_ok [OF m] 3
      by (simp add: w(3))
  qed
qed

lemma best_run_cases:
  assumes "length ws = 8"
  obtains "fst (best_run ws) = - 1"
  | b l where "best_run ws = (int b, int l)" "2 \<le> l" "b + l \<le> 8" "\<forall>k. b \<le> k \<and> k < b + l \<longrightarrow> ws ! k = 0"
proof (cases "fst (best_run ws) = - 1")
  case False
  have ok: "run_ok ws 8 (zero_runs 0 ws (- 1, 0) (- 1, 0))"
    using zero_runs_ok [of ws 0 "(- 1, 0)" "(- 1, 0)"] assms by (simp add: run_ok_def)
  define r where "r = zero_runs 0 ws (- 1, 0) (- 1, 0)"
  have r: "best_run ws = r" "fst r \<noteq> - 1" "\<not> snd r < 2"
    using False by (auto simp: best_run_def r_def Let_def split: if_splits)
  have z: "0 \<le> fst r" "fst r + snd r \<le> 8" "\<forall>k. fst r \<le> int k \<and> int k < fst r + snd r \<longrightarrow> ws ! k = 0"
    using ok r(2) by (auto simp: run_ok_def r_def)
  have "best_run ws = (int (nat (fst r)), int (nat (snd r)))" using r z by (simp add: prod_eq_iff)
  moreover have "2 \<le> nat (snd r)" using r(3) by linarith
  moreover have "nat (fst r) + nat (snd r) \<le> 8" using r z by linarith
  moreover have "\<forall>k. nat (fst r) \<le> k \<and> k < nat (fst r) + nat (snd r) \<longrightarrow> ws ! k = 0"
  proof (intro allI impI)
    fix k assume "nat (fst r) \<le> k \<and> k < nat (fst r) + nat (snd r)"
    then have "fst r \<le> int k \<and> int k < fst r + snd r" using z r by linarith
    then show "ws ! k = 0" using z(3) by blast
  qed
  ultimately show ?thesis using that(2) by blast
qed (use that(1) in blast)

definition text6 :: "u8 list \<Rightarrow> u32 list \<Rightarrow> run \<Rightarrow> string" where
  "text6 src ws best =
     (if fst best = - 1 then join6 (map unat ws)
      else let b = nat (fst best); l = nat (snd best)
           in if b = 0 \<and> l = 6 then ''::'' @ ntop4_text (drop 12 src)
              else if b = 0 \<and> l = 5 \<and> ws ! 5 = 0xffff then ''::ffff:'' @ ntop4_text (drop 12 src)
              else join6 (map unat (take b ws)) @ ''::'' @ join6 (map unat (drop (b + l) ws)))"

lemma dec_str_length: "n < 256 \<Longrightarrow> length (dec_str n) \<le> 3"
proof -
  assume n: "n < 256"
  have "n div 10 < 100" "n div 10 div 10 < 10" using n by (simp_all add: less_mult_imp_div_less)
  then show ?thesis by (cases "n < 10"; cases "n div 10 < 10") (simp_all add: dec_str_split)
qed

lemma ntop4_text_length: "length (ntop4_text b) \<le> 15"
  using dec_str_length [OF unat_u8_less, of "b ! 0"] dec_str_length [OF unat_u8_less, of "b ! 1"]
    dec_str_length [OF unat_u8_less, of "b ! 2"] dec_str_length [OF unat_u8_less, of "b ! 3"]
  by (simp add: ntop4_text_def)

lemma inet_ntop4_text: "inet_ntop4 b sz = (if length (ntop4_text b) \<ge> sz then Inl UV_ENOSPC else Inr (ntop4_text b))"
  by (simp only: inet_ntop4_def ntop4_text_def Let_def)

lemma inet_ntop4_room: "15 < sz \<Longrightarrow> inet_ntop4 b sz = Inr (ntop4_text b)"
  using ntop4_text_length [of b] by (simp add: inet_ntop4_text)

lemma hex_ffff: "hex_str 65535 = ''ffff''"
  by (simp add: hex_str.simps [of 65535] hex_str.simps [of 4095] hex_str.simps [of 255] hex_str.simps [of 15] xdigits_l_def)

definition close_run :: "run \<Rightarrow> int + string \<Rightarrow> int + string" where
  "close_run best r =
     (case r of Inl e \<Rightarrow> Inl e
      | Inr t \<Rightarrow> Inr (if fst best \<noteq> - 1 \<and> fst best + snd best = 8 then t @ '':'' else t))"

text \<open>What word \<open>i\<close> contributes, while it is not the place of an embedded IPv4 address.\<close>

definition in_run :: "run \<Rightarrow> nat \<Rightarrow> bool" where
  "in_run best i \<longleftrightarrow> fst best \<noteq> - 1 \<and> int i \<ge> fst best \<and> int i < fst best + snd best"

definition ipv4_at :: "u32 list \<Rightarrow> run \<Rightarrow> nat \<Rightarrow> bool" where
  "ipv4_at ws best i \<longleftrightarrow> \<not> in_run best i \<and> i = 6 \<and> fst best = 0 \<and>
     (snd best = 6 \<or> (snd best = 7 \<and> ws ! 7 \<noteq> 0x0001) \<or> (snd best = 5 \<and> ws ! 5 = 0xffff))"

definition piece :: "u32 list \<Rightarrow> run \<Rightarrow> nat \<Rightarrow> string" where
  "piece ws best i =
     (if in_run best i then (if int i = fst best then '':'' else [])
      else (if i \<noteq> 0 then '':'' else []) @ hex_str (unat (ws ! i)))"

lemma ntop6_pieces:
  assumes "\<forall>i \<in> set is. \<not> ipv4_at ws best i"
  shows "ntop6_loop src ws best (is @ js) t = ntop6_loop src ws best js (t @ concat (map (piece ws best) is))"
  using assms
proof (induction "is" arbitrary: t)
  case (Cons i "is")
  then have ni: "\<not> ipv4_at ws best i" by simp
  show ?case
  proof (cases "in_run best i")
    case True
    then show ?thesis using Cons by (simp add: in_run_def piece_def)
  next
    case False
    then have "ntop6_loop src ws best ((i # is) @ js) t =
        ntop6_loop src ws best (is @ js) ((if i \<noteq> 0 then t @ '':'' else t) @ hex_str (unat (ws ! i)))"
      using ni unfolding in_run_def ipv4_at_def append_Cons ntop6_loop.simps(2) Let_def
      by (simp only: if_False simp_thms)
    then show ?thesis using Cons False by (simp add: piece_def)
  qed
qed simp

definition colon_hexs :: "u32 list \<Rightarrow> string" where
  "colon_hexs ws = concat (map (\<lambda>w. CHR '':'' # hex_str (unat w)) ws)"

lemma join6_colon: "join6 (map unat (w # ws)) = hex_str (unat w) @ colon_hexs ws"
  by (induction ws arbitrary: w) (simp_all add: colon_hexs_def)

lemma colon_hexs_join: "ws \<noteq> [] \<Longrightarrow> colon_hexs ws = CHR '':'' # join6 (map unat ws)"
  using join6_colon [of "hd ws" "tl ws"] by (cases ws) (simp_all add: colon_hexs_def del: join6.simps)

lemma pieces_before:
  assumes "\<forall>i < n. \<not> in_run best i" "n \<le> length ws"
  shows "concat (map (piece ws best) [0..<n]) = join6 (map unat (take n ws))"
proof (cases n)
  case (Suc m)
  obtain w vs where ws: "ws = w # vs" using assms(2) Suc by (cases ws) auto
  have "map (piece ws best) [Suc 0..<Suc m] = map (\<lambda>w. CHR '':'' # hex_str (unat w)) (take m vs)"
    using assms Suc ws by (intro nth_equalityI) (simp_all add: piece_def del: upt_Suc)
  then show ?thesis
    using assms Suc ws join6_colon [of w "take m vs"]
    by (simp add: upt_conv_Cons colon_hexs_def piece_def del: upt_Suc join6.simps)
qed simp

lemma pieces_after:
  assumes "\<forall>i. m \<le> i \<longrightarrow> \<not> in_run best i" "0 < m"
  shows "concat (map (piece ws best) [m..<length ws]) = colon_hexs (drop m ws)"
proof -
  have "map (piece ws best) [m..<length ws] = map (\<lambda>w. CHR '':'' # hex_str (unat w)) (drop m ws)"
    using assms by (intro nth_equalityI) (simp_all add: piece_def)
  then show ?thesis by (simp add: colon_hexs_def)
qed

lemma pieces_within:
  assumes "1 \<le> l"
  shows "concat (map (piece ws (int b, int l)) [b..<b + l]) = '':''"
proof -
  have "[b..<b + l] = b # [b + 1..<b + l]" using assms by (simp add: upt_conv_Cons)
  moreover have "concat (map (piece ws (int b, int l)) [b + 1..<b + l]) = []"
    by (auto simp: piece_def in_run_def)
  ultimately show ?thesis using assms by (simp add: piece_def in_run_def)
qed

lemma ntop6_no_run:
  assumes "length ws = 8" "fst best = - 1"
  shows "close_run best (ntop6_loop src ws best [0..<8] []) = Inr (text6 src ws best)"
proof -
  have "\<not> in_run best i" "\<not> ipv4_at ws best i" for i using assms(2) by (simp_all add: in_run_def ipv4_at_def)
  then show ?thesis
    using ntop6_pieces [of "[0..<8]" ws best src "[]" "[]"] pieces_before [of 8 best ws] assms
    by (simp add: close_run_def text6_def del: upt_Suc)
qed

lemma ntop6_run_text:
  assumes ws: "length ws = 8" and best: "2 \<le> l" "b + l \<le> 8"
  shows "close_run (int b, int l) (ntop6_loop src ws (int b, int l) [0..<8] []) = Inr (text6 src ws (int b, int l))"
proof -
  let ?r = "(int b, int l)"
  have split: "[0..<m] = [0..<b] @ [b..<b + l] @ [b + l..<m]" if "b + l \<le> m" for m
    using that upt_add_eq_append [of 0 b l] upt_add_eq_append [of 0 "b + l" "m - (b + l)"] by simp
  have bef: "concat (map (piece ws ?r) [0..<b]) = join6 (map unat (take b ws))"
    using ws best by (intro pieces_before) (auto simp: in_run_def)
  show ?thesis
  proof (cases "b = 0 \<and> (l = 6 \<or> (l = 5 \<and> ws ! 5 = 0xffff))")
    case False
    have "\<forall>i \<in> set [0..<8]. \<not> ipv4_at ws ?r i" using False by (auto simp: ipv4_at_def in_run_def)
    then have L1: "ntop6_loop src ws ?r [0..<8] [] = Inr (concat (map (piece ws ?r) [0..<8]))"
      using ntop6_pieces [of "[0..<8]" ws ?r src "[]" "[]"] by (simp del: upt_Suc)
    have L2: "concat (map (piece ws ?r) [0..<8]) = join6 (map unat (take b ws)) @ '':'' @ colon_hexs (drop (b + l) ws)"
      using split [of 8] best ws bef pieces_within [of l ws b] pieces_after [of "b + l" ?r ws]
      by (simp add: in_run_def del: upt_Suc)
    note L = L1 [unfolded L2]
    show ?thesis
    proof (cases "b + l = 8")
      case True
      then show ?thesis using L False ws by (auto simp: close_run_def text6_def colon_hexs_def)
    next
      case neq: False
      then have "drop (b + l) ws \<noteq> []" using best ws by simp
      then show ?thesis
        using L False neq colon_hexs_join [of "drop (b + l) ws"] by (auto simp: close_run_def text6_def)
    qed
  next
    case True
    then have b0: "b = 0" and l: "l = 6 \<or> l = 5 \<and> ws ! 5 = 0xffff" by auto
    have "[0..<8] = [0..<6] @ [6, 7 :: nat]" by (simp add: upt_rec)
    moreover have "\<forall>i \<in> set [0..<6]. \<not> ipv4_at ws ?r i" by (auto simp: ipv4_at_def)
    ultimately have "ntop6_loop src ws ?r [0..<8] [] = ntop6_loop src ws ?r [6, 7] (concat (map (piece ws ?r) [0..<6]))"
      using ntop6_pieces [of "[0..<6]" ws ?r src "[6, 7]" "[]"] by (simp only: append_Nil)
    moreover have "concat (map (piece ws ?r) [0..<6]) = (if l = 6 then '':'' else ''::ffff'')"
    proof (cases "l = 6")
      case True
      then show ?thesis using pieces_within [of 6 ws 0] b0 by (simp del: upt_Suc)
    next
      case False
      then have l5: "l = 5" "ws ! 5 = 0xffff" using l by auto
      have "[0..<6] = [0..<0 + 5] @ [5 :: nat]" by (simp add: upt_rec)
      then have "concat (map (piece ws ?r) [0..<6]) = '':'' @ piece ws ?r 5"
        using pieces_within [of 5 ws 0] b0 l5 by (simp only: map_append concat_append) simp
      then show ?thesis using l5 b0 by (simp add: piece_def in_run_def hex_ffff)
    qed
    ultimately show ?thesis
      using b0 l by (auto simp: close_run_def text6_def inet_ntop4_room)
  qed
qed

section \<open>IPv6: the round trip\<close>

lemma pair_word: "push_bit 8 (ucast (a :: u8) :: u32) OR ucast (b :: u8) = of_nat (unat a * 256 + unat b)"
proof -
  have c: "(ucast x :: u32) = of_nat (unat x)" for x :: u8 by simp
  have "unat b < 2 ^ 8" using unat_u8_less [of b] by simp
  then have "push_bit 8 (of_nat (unat a) :: u32) OR of_nat (unat b) = of_nat (unat a * 2 ^ 8 + unat b)"
    by (rule push_or_nat)
  then show ?thesis unfolding c by (simp del: of_nat_add of_nat_mult)
qed

lemma pair_bytes: "wbytes (unat (a :: u8) * 256 + unat (b :: u8)) = [a, b]"
proof -
  have "(unat a * 256 + unat b) div 256 = unat a" "(unat a * 256 + unat b) mod 256 = unat b"
    using unat_u8_less [of b] by simp_all
  then show ?thesis by (simp add: wbytes_def)
qed

lemma pair_bound: "unat (a :: u8) * 256 + unat (b :: u8) < 65536"
  using unat_u8_less [of a] unat_u8_less [of b] by linarith

lemma unat_word_pair: "unat (of_nat (unat (a :: u8) * 256 + unat (b :: u8)) :: u32) = unat a * 256 + unat b"
  using pair_bound [of a b] by (simp add: unsigned_of_nat take_bit_nat_eq_self del: of_nat_add of_nat_mult)

lemma words_of_src:
  assumes "length src = 16"
  defines "W \<equiv> map unat (inet6_words src)"
  shows "length (inet6_words src) = 8 \<and> (\<forall>w \<in> set W. w < 65536) \<and> words_bytes W = src"
proof -
  obtain a0 b0 a1 b1 a2 b2 a3 b3 a4 b4 a5 b5 a6 b6 a7 b7 where
    src: "src = [a0, b0, a1, b1, a2, b2, a3, b3, a4, b4, a5, b5, a6, b6, a7, b7]"
    using assms(1) by (auto simp: eval_nat_numeral length_Suc_conv)
  have u: "[0..<16] = [0, 1, 2, 3, 4, 5, 6, 7, 8, 9, 10, 11, 12, 13, 14, 15 :: nat]" by (simp add: upt_rec)
  have r: "replicate 8 (0 :: u32) = [0, 0, 0, 0, 0, 0, 0, 0]" by (simp add: eval_nat_numeral)
  have ws: "inet6_words src = map (\<lambda>(a, b). push_bit 8 (ucast a) OR ucast b)
      [(a0, b0), (a1, b1), (a2, b2), (a3, b3), (a4, b4), (a5, b5), (a6, b6), (a7, b7)]"
    unfolding inet6_words_def u r src by simp
  then have W: "W = map (\<lambda>(a, b). unat a * 256 + unat b)
      [(a0, b0), (a1, b1), (a2, b2), (a3, b3), (a4, b4), (a5, b5), (a6, b6), (a7, b7)]"
    unfolding W_def by (simp only: list.map prod.case pair_word unat_word_pair)
  have "words_bytes W = src"
    unfolding W src words_bytes_def by (simp only: list.map prod.case pair_bytes concat.simps append.simps)
  moreover have "\<forall>w \<in> set W. w < 65536" unfolding W using pair_bound by simp
  moreover have "length (inet6_words src) = 8" unfolding ws by simp
  ultimately show ?thesis by blast
qed

lemma words_bytes_zeros: "words_bytes (replicate l 0) = replicate (2 * l) 0"
  by (induction l) (simp_all add: wbytes_def)

lemma words_bytes_take_drop: "words_bytes (take k W) = take (2 * k) (words_bytes W) \<and> words_bytes (drop k W) = drop (2 * k) (words_bytes W)"
proof (induction W arbitrary: k)
  case (Cons w W)
  show ?case
  proof (cases k)
    case (Suc j)
    then show ?thesis using Cons [of j] by (simp add: wbytes_def)
  qed simp
qed simp

lemma pton6_plain:
  assumes "ws \<noteq> []" "\<forall>w \<in> set ws. w < 65536" "length ws = 8"
  shows "inet_pton6 (join6 ws) = Inr (words_bytes ws)"
proof -
  obtain c cs where t: "join6 ws = c # cs" "c \<noteq> CHR '':''" using join6_nonempty [OF assms(1)] by (cases "join6 ws") auto
  have "pton6_run (join6 ws) (pst [] None (join6 ws)) = Inr (words_bytes ws)"
    using assms pton6_join_last [of ws "[]" None "join6 ws" "[]"] pton6_finish_full [of "words_bytes ws"] by simp
  then show ?thesis using t by (simp add: inet_pton6_def pton6_run_def pst_def del: pton6_loop.simps)
qed

text \<open>After the second colon of \<open>::\<close>.\<close>

lemma pton6_after_gap:
  assumes "\<forall>v \<in> set vs. v < 65536" "length bs + 2 * length vs < 16" "c \<le> length bs"
  shows "pton6_run (join6 vs) (pst bs (Some c) ct) =
     Inr (take c bs @ replicate (16 - (length bs + 2 * length vs)) 0 @ drop c bs @ words_bytes vs)"
proof (cases "vs = []")
  case True
  then show ?thesis using pton6_finish_gap [of c bs ct] assms by (simp add: pton6_run_def)
next
  case False
  then show ?thesis
    using pton6_join_last [of vs bs "Some c" ct "[]"] pton6_finish_gap [of c "bs @ words_bytes vs" "[]"] assms by simp
qed

lemma pton6_start:
  assumes us: "\<forall>w \<in> set us. w < 65536" "2 * length us \<le> 16"
  shows "inet_pton6 (join6 us @ ''::'' @ rest) = pton6_run rest (pst (words_bytes us) (Some (2 * length us)) rest)"
proof (cases "us = []")
  case True
  then show ?thesis
    using pton6_second_colon [of rest "[]" "CHR '':'' # rest"] by (simp add: inet_pton6_def pton6_run_def pst_def del: pton6_loop.simps)
next
  case False
  obtain c cs where t: "join6 us = c # cs" "c \<noteq> CHR '':''" using join6_nonempty [OF False] by (cases "join6 us") auto
  have "pton6_loop (join6 us @ CHR '':'' # CHR '':'' # rest) (pst [] None (join6 us @ CHR '':'' # CHR '':'' # rest)) =
      pton6_loop rest (pst (words_bytes us) (Some (2 * length us)) rest)"
    using pton6_join_colon [OF False us(1), of "[]" "CHR '':'' # rest"] us(2) pton6_second_colon [of rest "words_bytes us"]
    by simp
  then show ?thesis using t by (simp add: inet_pton6_def pton6_run_def pst_def del: pton6_loop.simps)
qed

lemma pton6_text6_gap:
  assumes "\<forall>w \<in> set (us @ vs). w < 65536" "length us + length vs < 8"
  shows "inet_pton6 (join6 us @ ''::'' @ join6 vs) =
     Inr (words_bytes us @ replicate (16 - 2 * (length us + length vs)) 0 @ words_bytes vs)"
  using pton6_start [of us "join6 vs"] pton6_after_gap [of vs "words_bytes us" "2 * length us"] assms by simp

lemma pton6_text6_ipv4:
  assumes "length b = 4" "\<forall>w \<in> set us. w < 65536" "length us \<le> 1"
  shows "inet_pton6 (''::'' @ (if us = [] then [] else join6 us @ '':'') @ ntop4_text b) =
     Inr (replicate (12 - 2 * length us) 0 @ words_bytes us @ b)"
proof -
  have ne: "ntop4_text b \<noteq> []" by (simp add: ntop4_text_def)
  have run: "pton6_run (ntop4_text b) (pst bs (Some 0) (ntop4_text b)) = Inr (replicate (12 - length bs) 0 @ bs @ b)"
    if "length bs \<le> 2" for bs
    using that pton6_ipv4 [OF assms(1), of bs "Some 0" "[]"] pton6_finish_gap [of 0 "bs @ b" "[]"] assms(1) by simp
  show ?thesis
  proof (cases us)
    case Nil
    then show ?thesis using pton6_start [of "[]" "ntop4_text b"] run [of "[]"] by simp
  next
    case (Cons w vs)
    then have us: "us = [w]" using assms(3) by simp
    have "pton6_loop (hex_str w @ CHR '':'' # ntop4_text b) (pst [] (Some 0) (hex_str w @ CHR '':'' # ntop4_text b)) =
        pton6_loop (ntop4_text b) (pst (wbytes w) (Some 0) (ntop4_text b))"
      using pton6_group [of w "[]" "ntop4_text b" "Some 0"] assms(2) ne us by simp
    then show ?thesis
      using pton6_start [of "[]" "hex_str w @ CHR '':'' # ntop4_text b"] run [of "wbytes w"] us
      by (simp add: pton6_run_def)
  qed
qed


section \<open>Characters and length of the text\<close>

definition addr_chars :: "char set" where
  "addr_chars = set xdigits_l \<union> {CHR '':'', CHR ''.''}"

lemma strchr_percent: "set s \<subseteq> addr_chars \<Longrightarrow> strchr s CHR ''%'' = None"
  by (induction s) (auto simp: addr_chars_def xdigits_l_def)

lemma hex_str_chars: "set (hex_str n) \<subseteq> addr_chars"
proof (induction n rule: less_induct)
  case (less n)
  have "d < 16 \<Longrightarrow> xdigits_l ! d \<in> addr_chars" for d
    unfolding addr_chars_def by (intro UnI1 nth_mem) (simp add: xdigits_l_def)
  then show ?case using less [of "n div 16"] by (cases "n < 16") (auto simp: hex_str_split)
qed

lemma dec_str_chars: "set (dec_str n) \<subseteq> addr_chars"
proof (induction n rule: less_induct)
  case (less n)
  have "set dec_digits \<subseteq> addr_chars" by (auto simp: addr_chars_def dec_digits_def xdigits_l_def)
  then have "d < 10 \<Longrightarrow> dec_digits ! d \<in> addr_chars" for d
    using nth_mem [of d dec_digits] by (auto simp: dec_digits_def)
  then show ?case using less [of "n div 10"] by (cases "n < 10") (auto simp: dec_str_split)
qed

lemma ntop4_text_chars: "set (ntop4_text b) \<subseteq> addr_chars"
  using dec_str_chars by (auto simp: ntop4_text_def addr_chars_def)

lemma join6_chars: "set (join6 ws) \<subseteq> addr_chars"
  by (induction ws rule: join6.induct) (use hex_str_chars in \<open>auto simp: addr_chars_def\<close>)

lemma join6_length:
  "\<forall>w \<in> set ws. w < 65536 \<Longrightarrow> ws \<noteq> [] \<Longrightarrow> length (join6 ws) + 1 \<le> 5 * length ws"
proof (induction ws rule: join6.induct)
  case (2 w) then show ?case using hex_str_length [of w 3] by simp
next
  case (3 w v ws) then show ?case using hex_str_length [of w 3] by simp
qed simp

lemma text6_ok:
  assumes src: "length src = 16"
  defines "ws \<equiv> inet6_words src" and "t \<equiv> text6 src (inet6_words src) (best_run (inet6_words src))"
  shows "close_run (best_run ws) (ntop6_loop src ws (best_run ws) [0..<8] []) = Inr t \<and>
         set t \<subseteq> addr_chars \<and> length t \<le> 45 \<and> inet_pton6 t = Inr src"
proof -
  define W where "W = map unat ws"
  have W: "length ws = 8" "\<forall>w \<in> set W. w < 65536" "words_bytes W = src" "length W = 8"
    using words_of_src [OF src] by (simp_all add: W_def ws_def)
  consider (none) "fst (best_run ws) = - 1"
    | (run) b l where "best_run ws = (int b, int l)" "2 \<le> l" "b + l \<le> 8" "\<forall>k. b \<le> k \<and> k < b + l \<longrightarrow> ws ! k = 0"
    using best_run_cases [OF W(1)] by blast
  then show ?thesis
  proof cases
    case none
    have t: "t = join6 W" using none by (simp add: t_def text6_def W_def ws_def)
    have "length (join6 W) \<le> 45" using join6_length [of W] W(2,4) by (cases "W = []") auto
    moreover have "inet_pton6 t = Inr src" using t pton6_plain [of W] W by (cases "W = []") simp_all
    ultimately show ?thesis
      using ntop6_no_run [OF W(1) none, of src] t join6_chars by (simp add: t_def ws_def)
  next
    case run
    have L: "close_run (best_run ws) (ntop6_loop src ws (best_run ws) [0..<8] []) = Inr t"
      using ntop6_run_text [OF W(1) run(2,3), of src] run(1) by (simp add: t_def ws_def)
    have zero: "take l (drop b W) = replicate l 0"
      using run(3,4) W(1) by (intro nth_equalityI) (auto simp: W_def)
    have "W = take b W @ take l (drop b W) @ drop (b + l) W"
      by (metis append_take_drop_id drop_drop add.commute)
    then have WW: "W = take b W @ replicate l 0 @ drop (b + l) W" unfolding zero .
    have sp: "src = words_bytes (take b W) @ replicate (2 * l) 0 @ words_bytes (drop (b + l) W)"
      using arg_cong [OF WW, of words_bytes] W(3) by (simp add: words_bytes_zeros del: append_take_drop_id)
    have d12: "length (drop 12 src) = 4" using src by simp
    consider (six) "b = 0" "l = 6" | (five) "b = 0" "l = 5" "ws ! 5 = 0xffff"
      | (gap) "\<not> (b = 0 \<and> l = 6)" "\<not> (b = 0 \<and> l = 5 \<and> ws ! 5 = 0xffff)" by blast
    then have "set t \<subseteq> addr_chars \<and> length t \<le> 45 \<and> inet_pton6 t = Inr src"
    proof cases
      case six
      have t: "t = ''::'' @ ntop4_text (drop 12 src)" using six run(1) by (simp add: t_def text6_def ws_def)
      have "src = replicate 12 0 @ drop 12 src" using sp six by simp
      then have "inet_pton6 t = Inr src" using pton6_text6_ipv4 [OF d12, of "[]"] t by simp
      moreover have "set t \<subseteq> addr_chars" using ntop4_text_chars [of "drop 12 src"] t by (auto simp: addr_chars_def)
      ultimately show ?thesis using t ntop4_text_length [of "drop 12 src"] by simp
    next
      case five
      have t: "t = ''::ffff:'' @ ntop4_text (drop 12 src)" using five run(1) by (simp add: t_def text6_def ws_def)
      have w5: "W ! 5 = 65535" using five(3) W(1) by (simp add: W_def)
      then have "drop 5 W = 65535 # drop 6 W" using W(4) Cons_nth_drop_Suc [of 5 W] by simp
      then have s5: "src = replicate 10 0 @ wbytes 65535 @ words_bytes (drop 6 W)" using sp five by simp
      then have "words_bytes (drop 6 W) = drop 12 src" by (metis append.assoc append_eq_conv_conj length_append length_replicate words_bytes_simps(3) numeral_plus_numeral add_num_simps)
      then have "src = replicate 10 0 @ words_bytes [65535] @ drop 12 src" using s5 by simp
      moreover have "inet_pton6 t = Inr (replicate 10 0 @ words_bytes [65535] @ drop 12 src)"
        using pton6_text6_ipv4 [OF d12, of "[65535]"] t hex_ffff by simp
      moreover have "set t \<subseteq> addr_chars" using ntop4_text_chars [of "drop 12 src"] t by (auto simp: addr_chars_def xdigits_l_def)
      ultimately show ?thesis using t ntop4_text_length [of "drop 12 src"] by simp
    next
      case gap
      have t: "t = join6 (take b W) @ ''::'' @ join6 (drop (b + l) W)"
        using gap run(1) by (auto simp: t_def text6_def ws_def W_def take_map drop_map)
      have in1: "\<forall>w \<in> set (take b W @ drop (b + l) W). w < 65536" using W(2) by (auto dest: in_set_takeD in_set_dropD)
      have "inet_pton6 t = Inr src"
        unfolding t using pton6_text6_gap [OF in1] sp run(2,3) W(4) by simp
      moreover have "set t \<subseteq> addr_chars"
        using t join6_chars [of "take b W"] join6_chars [of "drop (b + l) W"] by (auto simp: addr_chars_def)
      moreover have "length (join6 (take b W)) \<le> 5 * b" "length (join6 (drop (b + l) W)) \<le> 5 * (8 - (b + l))"
        using join6_length [of "take b W"] join6_length [of "drop (b + l) W"] in1 W(4) run(3)
        by (cases "take b W = []"; cases "drop (b + l) W = []"; force)+
      ultimately show ?thesis using t run(2,3) by simp
    qed
    then show ?thesis using L by simp
  qed
qed

lemma inet_ntop6_close:
  "inet_ntop6 src sz =
     (case close_run (best_run (inet6_words src)) (ntop6_loop src (inet6_words src) (best_run (inet6_words src)) [0..<8] []) of
        Inl e \<Rightarrow> Inl e | Inr t \<Rightarrow> if length t + 1 > sz then Inl UV_ENOSPC else Inr t)"
  by (simp only: inet_ntop6_def close_run_def Let_def) (simp split: sum.splits)

lemma inet_ntop6_text:
  assumes "length src = 16"
  shows "inet_ntop6 src sz =
     (let t = text6 src (inet6_words src) (best_run (inet6_words src))
      in if length t + 1 > sz then Inl UV_ENOSPC else Inr t)"
  using text6_ok [OF assms] by (simp only: inet_ntop6_close sum.case Let_def)

lemma inet_pton4_sound:
  assumes "inet_pton4 s = Inr b"
  shows "length b = 4 \<and> s = ntop4_text b"
proof -
  obtain ws where ws: "b = ws" "length b = 4" "s = dotted ws"
    using pton4_loop_sound [of s False 0 "[]" 0 b] assms by (auto simp: inet_pton4_def)
  then obtain b0 b1 b2 b3 where "b = [b0, b1, b2, b3]"
    by (auto simp: eval_nat_numeral length_Suc_conv)
  then show ?thesis using ws by (simp add: dotted_def ntop4_text_def)
qed

section \<open>The properties\<close>

text \<open>An IPv4 address printed by \<open>uv_inet_ntop\<close> into a buffer of \<open>INET_ADDRSTRLEN\<close> bytes or more
  is read back by \<open>uv_inet_pton\<close>, whatever the four bytes are.\<close>

theorem ipv4_roundtrip:
  assumes "length b = 4" "16 \<le> sz"
  shows "\<exists>t. uv_inet_ntop AF_INET b sz = Inr t \<and> uv_inet_pton AF_INET (Some t) = Inr b"
  using assms pton4_ntop4 [of b] inet_ntop4_room [of sz b] by (simp add: uv_inet_ntop_def uv_inet_pton_def)

theorem ipv4_roundtrip_witness:
  "\<exists>t. uv_inet_ntop AF_INET [127, 0, 0, 1] 16 = Inr t \<and> uv_inet_pton AF_INET (Some t) = Inr [127, 0, 0, 1]"
  by (rule ipv4_roundtrip) simp_all

text \<open>\<open>uv_inet_pton\<close> accepts the text of an IPv4 address in one form only, the one
  \<open>uv_inet_ntop\<close> prints (four decimal numbers below 256, no leading zero, no space, nothing after
  them): printing the bytes again gives the same text, or \<open>UV_ENOSPC\<close> exactly when it does not
  fit with its NUL.\<close>

theorem ipv4_canonical:
  assumes "uv_inet_pton AF_INET (Some s) = Inr b"
  shows "length b = 4 \<and> uv_inet_ntop AF_INET b sz = (if length s \<ge> sz then Inl UV_ENOSPC else Inr s)"
  using assms inet_pton4_sound [of s b] by (simp add: uv_inet_ntop_def uv_inet_pton_def inet_ntop4_text)

theorem ipv4_canonical_witness:
  "length [10 :: u8, 0, 0, 255] = 4 \<and>
   uv_inet_ntop AF_INET [10, 0, 0, 255] 9 = (if length ''10.0.0.255'' \<ge> (9 :: nat) then Inl UV_ENOSPC else Inr ''10.0.0.255'')"
  by (rule ipv4_canonical) (simp add: uv_inet_pton_def inet_pton4_def dec_digits_def)

text \<open>C27: every IPv6 address, the compressed runs of zeros and the embedded IPv4 forms included, is
  printed by \<open>uv_ip6_name\<close> into a buffer of 46 bytes, and \<open>uv_ip6_addr\<close> reads from that text the
  same 16 bytes, with the given port and no scope.\<close>

theorem ipv6_roundtrip:
  assumes "length (sin6_addr a) = 16" "46 \<le> sz"
  shows "\<exists>t. uv_ip6_name a sz = Inr t \<and> length t < 46 \<and>
     uv_ip6_addr if_nametoindex t port =
       (0, \<lparr>sin6_port = word_of_int port, sin6_addr = sin6_addr a, sin6_scope_id = 0\<rparr>)"
proof -
  define t where "t = text6 (sin6_addr a) (inet6_words (sin6_addr a)) (best_run (inet6_words (sin6_addr a)))"
  have ok: "set t \<subseteq> addr_chars" "length t \<le> 45" "inet_pton6 t = Inr (sin6_addr a)"
    using text6_ok [OF assms(1)] by (simp_all add: t_def)
  have "uv_ip6_name a sz = Inr t"
    using inet_ntop6_text [OF assms(1), of sz] ok(2) assms(2)
    by (simp add: uv_ip6_name_def uv_inet_ntop_def Let_def flip: t_def)
  moreover have "uv_inet_pton AF_INET6 (Some t) = Inr (sin6_addr a)"
    using strchr_percent [OF ok(1)] ok(3) by (simp add: uv_inet_pton_def)
  ultimately show ?thesis using ok(2) strchr_percent [OF ok(1)] by (simp add: uv_ip6_addr_def)
qed

theorem ipv6_roundtrip_witness:
  "\<exists>t. uv_ip6_name \<lparr>sin6_port = 0, sin6_addr = replicate 15 0 @ [1], sin6_scope_id = 7\<rparr> 46 = Inr t \<and> length t < 46 \<and>
     uv_ip6_addr (\<lambda>_. 0) t 80 = (0, \<lparr>sin6_port = word_of_int 80, sin6_addr = replicate 15 0 @ [1], sin6_scope_id = 0\<rparr>)"
  using ipv6_roundtrip [of "\<lparr>sin6_port = 0, sin6_addr = replicate 15 0 @ [1], sin6_scope_id = 7\<rparr>" 46 "\<lambda>_. 0" 80]
  by simp

end
