(* ===== verification/Socks5Client.thy ===== *)
theory Socks5Client
  imports S5 Inet "HOL-Library.Monad_Syntax"
begin

text \<open>
  The connection handling of the SOCKS5 proxy sample, \<open>samples/socks5-proxy/client.c\<close>, with the
  access checks of \<open>server.c\<close>: a session with the connection to the client and the one upstream,
  driven by the callbacks of the event loop.  A failing \<open>ASSERT\<close>, \<open>CHECK\<close> or \<open>UNREACHABLE\<close> (the
  default build, without \<open>NDEBUG\<close>) is \<open>None\<close>.  What libuv holds of a session is in the fields of the
  connection that follow its state: whether it is reading, the write in flight, the timer, the
  close callbacks that are due, and for the session the lookup and the connect request in flight.
\<close>

abbreviation UV_ECANCELED :: int where "UV_ECANCELED \<equiv> - 125"
abbreviation UV_ETIMEDOUT :: int where "UV_ETIMEDOUT \<equiv> - 110"
abbreviation UV_EOF :: int where "UV_EOF \<equiv> - 4095"

section \<open>Data\<close>

datatype conn_state = c_busy | c_done | c_stop | c_dead

datatype sess_state =
  s_handshake | s_handshake_auth | s_req_start | s_req_parse | s_req_lookup | s_req_connect
| s_proxy_start | s_proxy | s_kill | s_almost_dead_0 | s_almost_dead_1 | s_almost_dead_2
| s_almost_dead_3 | s_almost_dead_4 | s_dead

text \<open>The values of the enumeration, for \<open>>=\<close> and \<open>+ 1\<close>.\<close>

definition sess_states :: "sess_state list" where
  "sess_states = [s_handshake, s_handshake_auth, s_req_start, s_req_parse, s_req_lookup, s_req_connect,
     s_proxy_start, s_proxy, s_kill, s_almost_dead_0, s_almost_dead_1, s_almost_dead_2,
     s_almost_dead_3, s_almost_dead_4, s_dead]"

fun sess_ix :: "sess_state \<Rightarrow> nat" where
  "sess_ix s_handshake = 0" | "sess_ix s_handshake_auth = 1" | "sess_ix s_req_start = 2"
| "sess_ix s_req_parse = 3" | "sess_ix s_req_lookup = 4" | "sess_ix s_req_connect = 5"
| "sess_ix s_proxy_start = 6" | "sess_ix s_proxy = 7" | "sess_ix s_kill = 8"
| "sess_ix s_almost_dead_0 = 9" | "sess_ix s_almost_dead_1 = 10" | "sess_ix s_almost_dead_2 = 11"
| "sess_ix s_almost_dead_3 = 12" | "sess_ix s_almost_dead_4 = 13" | "sess_ix s_dead = 14"

datatype sockaddr = Sa_in sockaddr_in | Sa_in6 sockaddr_in6 | Sa_other

text \<open>The union \<open>t\<close>: what was last stored in it.\<close>

datatype scratch =
  T_none | T_addrinfo_req | T_connect_req | T_addr sockaddr | T_buf "u8 list"

record conn =
  rdstate :: conn_state
  wrstate :: conn_state
  idle_timeout :: u32
  result :: int
  conn_t :: scratch
  reading :: bool
  writing :: "u8 list option"
  conn_timer :: "u32 option"
  handle_closing :: bool
  timer_closing :: bool
  rcvd :: "u8 list"
  sent :: "u8 list"

record client_ctx =
  sess :: sess_state
  parser :: s5_ctx
  incoming :: conn
  outgoing :: conn
  looking_up :: bool
  connecting :: bool
  freed :: bool

text \<open>
  What the operating system decides: the result of \<open>uv_tcp_connect\<close> for an address, and the local
  address of the connected socket.
\<close>

record world =
  tcp_connect :: "sockaddr \<Rightarrow> int"
  getsockname :: sockaddr

datatype side = Incoming | Outgoing

definition conn_of :: "side \<Rightarrow> client_ctx \<Rightarrow> conn" where
  "conn_of sd cx = (case sd of Incoming \<Rightarrow> incoming cx | Outgoing \<Rightarrow> outgoing cx)"

definition set_conn :: "side \<Rightarrow> conn \<Rightarrow> client_ctx \<Rightarrow> client_ctx" where
  "set_conn sd c cx = (case sd of Incoming \<Rightarrow> cx\<lparr>incoming := c\<rparr> | Outgoing \<Rightarrow> cx\<lparr>outgoing := c\<rparr>)"

section \<open>The access checks of the server\<close>

definition can_auth_none :: "client_ctx \<Rightarrow> bool" where "can_auth_none cx = True"
definition can_auth_passwd :: "client_ctx \<Rightarrow> bool" where "can_auth_passwd cx = False"

text \<open>\<open>ntohl\<close> of the four bytes at \<open>p[i]\<close>.\<close>

definition be32 :: "u8 list \<Rightarrow> nat \<Rightarrow> u32" where
  "be32 p i = push_bit 24 (ucast (p ! (4 * i))) OR push_bit 16 (ucast (p ! (4 * i + 1))) OR
              push_bit 8 (ucast (p ! (4 * i + 2))) OR ucast (p ! (4 * i + 3))"

definition can_access :: "client_ctx \<Rightarrow> sockaddr \<Rightarrow> bool" where
  "can_access cx addr =
     (case addr of
        Sa_in addr4 \<Rightarrow> (let d = be32 (sin_addr addr4) 0 in drop_bit 24 d \<noteq> 0x7F)
      | Sa_in6 addr6 \<Rightarrow>
          (let p = sin6_addr addr6; a = be32 p 0; b = be32 p 1; c = be32 p 2; d = be32 p 3
           in if a = 0 \<and> b = 0 \<and> c = 0 \<and> d = 1 then False
              else if a = 0 \<and> b = 0 \<and> c = 0xFFFF \<and> drop_bit 24 d = 0x7F then False
              else True)
      | Sa_other \<Rightarrow> False)"

section \<open>Connections\<close>

definition conn_timer_reset :: "conn \<Rightarrow> conn" where
  "conn_timer_reset c = c\<lparr>conn_timer := Some (idle_timeout c)\<rparr>"

text \<open>\<open>uv_read_start\<close> fails on a handle that is closing.\<close>

definition conn_read :: "conn \<Rightarrow> conn option" where
  "conn_read c =
     do { ASSERT (rdstate c = c_stop);
          ASSERT (\<not> handle_closing c);
          Some (conn_timer_reset (c\<lparr>reading := True, rdstate := c_busy\<rparr>)) }"

definition conn_alloc :: "conn \<Rightarrow> unit option" where
  "conn_alloc c = ASSERT (rdstate c = c_busy)"

definition conn_write :: "u8 list \<Rightarrow> conn \<Rightarrow> conn option" where
  "conn_write data c =
     do { ASSERT (wrstate c = c_stop \<or> wrstate c = c_done);
          Some (conn_timer_reset (c\<lparr>wrstate := c_busy, writing := Some data, sent := sent c @ data\<rparr>)) }"

text \<open>\<open>uv_close\<close> stops reading and the timer; a write in flight is cancelled before the callback of the
  handle.\<close>

definition conn_close :: "conn \<Rightarrow> conn option" where
  "conn_close c =
     do { ASSERT (rdstate c \<noteq> c_dead);
          ASSERT (wrstate c \<noteq> c_dead);
          ASSERT (\<not> handle_closing c \<and> \<not> timer_closing c);
          Some (c\<lparr>rdstate := c_dead, wrstate := c_dead, reading := False, conn_timer := None,
                  handle_closing := True, timer_closing := True\<rparr>) }"

definition conn_getaddrinfo :: "client_ctx \<Rightarrow> client_ctx" where
  "conn_getaddrinfo cx =
     cx\<lparr>outgoing := conn_timer_reset ((outgoing cx)\<lparr>conn_t := T_addrinfo_req\<rparr>), looking_up := True\<rparr>"

fun is_inet :: "sockaddr \<Rightarrow> bool" where
  "is_inet Sa_other = False"
| "is_inet _ = True"

definition conn_connect :: "world \<Rightarrow> client_ctx \<Rightarrow> (int \<times> client_ctx) option" where
  "conn_connect w cx =
     (case conn_t (outgoing cx) of
        T_addr a \<Rightarrow>
          do { ASSERT (is_inet a);
               let cx = cx\<lparr>outgoing := conn_timer_reset (outgoing cx)\<rparr>;
               let err = tcp_connect w a;
               Some (err, if err = 0
                          then cx\<lparr>outgoing := (outgoing cx)\<lparr>conn_t := T_connect_req\<rparr>, connecting := True\<rparr>
                          else cx) }
      | _ \<Rightarrow> None)"

text \<open>The bytes a connection was read into.\<close>

definition conn_buf :: "conn \<Rightarrow> u8 list option" where
  "conn_buf c = (case conn_t c of T_buf d \<Rightarrow> Some d | _ \<Rightarrow> None)"

definition conn_cycle :: "conn \<Rightarrow> conn \<Rightarrow> (int \<times> conn \<times> conn) option" where
  "conn_cycle a b =
     (if result a < 0 then Some (- 1, a, b)
      else if result b < 0 then Some (- 1, a, b)
      else
        let a = (if wrstate a = c_done then a\<lparr>wrstate := c_stop\<rparr> else a)
        in if wrstate a = c_stop then
             (if rdstate b = c_stop then do { b \<leftarrow> conn_read b; Some (0, a, b) }
              else if rdstate b = c_done then
                do { d \<leftarrow> conn_buf b;
                     a \<leftarrow> conn_write (take (nat (result b)) d) a;
                     Some (0, a, b\<lparr>rdstate := c_stop\<rparr>) }
              else Some (0, a, b))
           else Some (0, a, b))"

section \<open>The session\<close>

type_synonym step_result = "(sess_state \<times> client_ctx) option"

definition do_kill :: "client_ctx \<Rightarrow> step_result" where
  "do_kill cx =
     (if sess_ix (sess cx) \<ge> sess_ix s_almost_dead_0 then Some (sess cx, cx)
      else
        let new_state = (if sess cx = s_req_lookup then s_almost_dead_0 else s_almost_dead_1)
        in do { i \<leftarrow> conn_close (incoming cx);
                o' \<leftarrow> conn_close (outgoing cx);
                Some (new_state, cx\<lparr>incoming := i, outgoing := o'\<rparr>) })"

text \<open>\<open>conn_read(incoming)\<close> and \<open>conn_write(incoming, ...)\<close>.\<close>

definition read_incoming :: "client_ctx \<Rightarrow> client_ctx option" where
  "read_incoming cx = do { c \<leftarrow> conn_read (incoming cx); Some (cx\<lparr>incoming := c\<rparr>) }"

definition write_incoming :: "u8 list \<Rightarrow> client_ctx \<Rightarrow> client_ctx option" where
  "write_incoming data cx = do { c \<leftarrow> conn_write data (incoming cx); Some (cx\<lparr>incoming := c\<rparr>) }"

definition idle_conn :: "conn \<Rightarrow> bool" where
  "idle_conn c \<longleftrightarrow> rdstate c = c_stop \<and> wrstate c = c_stop"

definition do_handshake :: "client_ctx \<Rightarrow> step_result" where
  "do_handshake cx =
     do { ASSERT (rdstate (incoming cx) = c_done);
          ASSERT (wrstate (incoming cx) = c_stop);
          let cx = cx\<lparr>incoming := (incoming cx)\<lparr>rdstate := c_stop\<rparr>\<rparr>;
          if result (incoming cx) < 0 then do_kill cx
          else do {
            d \<leftarrow> conn_buf (incoming cx);
            (err, p, rest) \<leftarrow> s5_parse (parser cx) (take (nat (result (incoming cx))) d);
            let cx = cx\<lparr>parser := p\<rparr>;
            if err = s5_ok then do { cx \<leftarrow> read_incoming cx; Some (s_handshake, cx) }
            else if length rest \<noteq> 0 then do_kill cx
            else if err \<noteq> s5_auth_select then do_kill cx
            else
              let methods = s5_auth_methods p
              in if methods AND S5_AUTH_NONE \<noteq> 0 \<and> can_auth_none cx then
                   do { let cx = cx\<lparr>parser := snd (s5_select_auth S5_AUTH_NONE p)\<rparr>;
                        cx \<leftarrow> write_incoming [5, 0] cx;
                        Some (s_req_start, cx) }
                 else do { cx \<leftarrow> write_incoming [5, 255] cx; Some (s_kill, cx) } } }"

definition do_handshake_auth :: "client_ctx \<Rightarrow> step_result" where
  "do_handshake_auth cx = None"

definition do_req_start :: "client_ctx \<Rightarrow> step_result" where
  "do_req_start cx =
     do { ASSERT (rdstate (incoming cx) = c_stop);
          ASSERT (wrstate (incoming cx) = c_done);
          let cx = cx\<lparr>incoming := (incoming cx)\<lparr>wrstate := c_stop\<rparr>\<rparr>;
          if result (incoming cx) < 0 then do_kill cx
          else do { cx \<leftarrow> read_incoming cx; Some (s_req_parse, cx) } }"

definition do_req_connect_start :: "world \<Rightarrow> client_ctx \<Rightarrow> step_result" where
  "do_req_connect_start w cx =
     do { ASSERT (idle_conn (incoming cx));
          ASSERT (idle_conn (outgoing cx));
          a \<leftarrow> (case conn_t (outgoing cx) of T_addr a \<Rightarrow> Some a | _ \<Rightarrow> None);
          if \<not> can_access cx a then
            do { cx \<leftarrow> write_incoming [5, 2, 0, 1, 0, 0, 0, 0, 0, 0] cx; Some (s_kill, cx) }
          else do { (err, cx) \<leftarrow> conn_connect w cx;
                    if err \<noteq> 0 then do_kill cx else Some (s_req_connect, cx) } }"

definition do_req_parse :: "world \<Rightarrow> client_ctx \<Rightarrow> step_result" where
  "do_req_parse w cx =
     do { ASSERT (rdstate (incoming cx) = c_done);
          ASSERT (wrstate (incoming cx) = c_stop);
          ASSERT (idle_conn (outgoing cx));
          let cx = cx\<lparr>incoming := (incoming cx)\<lparr>rdstate := c_stop\<rparr>\<rparr>;
          if result (incoming cx) < 0 then do_kill cx
          else do {
            d \<leftarrow> conn_buf (incoming cx);
            (err, p, rest) \<leftarrow> s5_parse (parser cx) (take (nat (result (incoming cx))) d);
            let cx = cx\<lparr>parser := p\<rparr>;
            if err = s5_ok then do { cx \<leftarrow> read_incoming cx; Some (s_req_parse, cx) }
            else if length rest \<noteq> 0 then do_kill cx
            else if err \<noteq> s5_exec_cmd then do_kill cx
            else if cmd p = s5_cmd_tcp_bind then do_kill cx
            else if cmd p = s5_cmd_udp_assoc then do_kill cx
            else do {
              ASSERT (cmd p = s5_cmd_tcp_connect);
              case atyp p of
                s5_atyp_host \<Rightarrow> Some (s_req_lookup, conn_getaddrinfo cx)
              | s5_atyp_ipv4 \<Rightarrow>
                  do_req_connect_start w (cx\<lparr>outgoing := (outgoing cx)\<lparr>conn_t :=
                    T_addr (Sa_in \<lparr>sin_port = dport p, sin_addr = take 4 (daddr p)\<rparr>)\<rparr>\<rparr>)
              | s5_atyp_ipv6 \<Rightarrow>
                  do_req_connect_start w (cx\<lparr>outgoing := (outgoing cx)\<lparr>conn_t :=
                    T_addr (Sa_in6 \<lparr>sin6_port = dport p, sin6_addr = take 16 (daddr p),
                                    sin6_scope_id = 0\<rparr>)\<rparr>\<rparr>) } } }"

definition do_req_lookup :: "world \<Rightarrow> client_ctx \<Rightarrow> step_result" where
  "do_req_lookup w cx =
     do { ASSERT (idle_conn (incoming cx));
          ASSERT (idle_conn (outgoing cx));
          if result (outgoing cx) < 0 then
            do { cx \<leftarrow> write_incoming [5, 4, 0, 1, 0, 0, 0, 0, 0, 0] cx; Some (s_kill, cx) }
          else
            case conn_t (outgoing cx) of
              T_addr (Sa_in a) \<Rightarrow>
                do_req_connect_start w (cx\<lparr>outgoing := (outgoing cx)\<lparr>conn_t :=
                  T_addr (Sa_in (a\<lparr>sin_port := dport (parser cx)\<rparr>))\<rparr>\<rparr>)
            | T_addr (Sa_in6 a) \<Rightarrow>
                do_req_connect_start w (cx\<lparr>outgoing := (outgoing cx)\<lparr>conn_t :=
                  T_addr (Sa_in6 (a\<lparr>sin6_port := dport (parser cx)\<rparr>))\<rparr>\<rparr>)
            | _ \<Rightarrow> None }"

text \<open>The two bytes of a port in network order.\<close>

definition port_bytes :: "u16 \<Rightarrow> u8 list" where
  "port_bytes p = [ucast (drop_bit 8 p), ucast p]"

definition do_req_connect :: "world \<Rightarrow> client_ctx \<Rightarrow> step_result" where
  "do_req_connect w cx =
     do { ASSERT (idle_conn (incoming cx));
          ASSERT (idle_conn (outgoing cx));
          if result (outgoing cx) = 0 then
            do { buf \<leftarrow> (case getsockname w of
                   Sa_in a \<Rightarrow> Some ([5, 0, 0, 1] @ take 4 (sin_addr a) @ port_bytes (sin_port a))
                 | Sa_in6 a \<Rightarrow> Some ([5, 0, 0, 4] @ take 16 (sin6_addr a) @ port_bytes (sin6_port a))
                 | Sa_other \<Rightarrow> None);
                 let cx = cx\<lparr>incoming := (incoming cx)\<lparr>conn_t := T_buf buf\<rparr>\<rparr>;
                 cx \<leftarrow> write_incoming buf cx;
                 Some (s_proxy_start, cx) }
          else do { cx \<leftarrow> write_incoming [5, 5, 0, 1, 0, 0, 0, 0, 0, 0] cx; Some (s_kill, cx) } }"

definition do_proxy_start :: "client_ctx \<Rightarrow> step_result" where
  "do_proxy_start cx =
     do { ASSERT (rdstate (incoming cx) = c_stop);
          ASSERT (wrstate (incoming cx) = c_done);
          ASSERT (idle_conn (outgoing cx));
          let cx = cx\<lparr>incoming := (incoming cx)\<lparr>wrstate := c_stop\<rparr>\<rparr>;
          if result (incoming cx) < 0 then do_kill cx
          else do { cx \<leftarrow> read_incoming cx;
                    c \<leftarrow> conn_read (outgoing cx);
                    Some (s_proxy, cx\<lparr>outgoing := c\<rparr>) } }"

definition do_proxy :: "client_ctx \<Rightarrow> step_result" where
  "do_proxy cx =
     do { (e1, i, o') \<leftarrow> conn_cycle (incoming cx) (outgoing cx);
          let cx = cx\<lparr>incoming := i, outgoing := o'\<rparr>;
          if e1 \<noteq> 0 then do_kill cx
          else do { (e2, o', i) \<leftarrow> conn_cycle (outgoing cx) (incoming cx);
                    let cx = cx\<lparr>incoming := i, outgoing := o'\<rparr>;
                    if e2 \<noteq> 0 then do_kill cx else Some (s_proxy, cx) } }"

definition do_almost_dead :: "client_ctx \<Rightarrow> step_result" where
  "do_almost_dead cx =
     do { ASSERT (sess_ix (sess cx) \<ge> sess_ix s_almost_dead_0);
          Some (sess_states ! (sess_ix (sess cx) + 1), cx) }"

definition do_next :: "world \<Rightarrow> client_ctx \<Rightarrow> client_ctx option" where
  "do_next w cx =
     do { ASSERT (sess cx \<noteq> s_dead);
          (new_state, cx) \<leftarrow>
            (case sess cx of
               s_handshake \<Rightarrow> do_handshake cx
             | s_handshake_auth \<Rightarrow> do_handshake_auth cx
             | s_req_start \<Rightarrow> do_req_start cx
             | s_req_parse \<Rightarrow> do_req_parse w cx
             | s_req_lookup \<Rightarrow> do_req_lookup w cx
             | s_req_connect \<Rightarrow> do_req_connect w cx
             | s_proxy_start \<Rightarrow> do_proxy_start cx
             | s_proxy \<Rightarrow> do_proxy cx
             | s_kill \<Rightarrow> do_kill cx
             | s_almost_dead_0 \<Rightarrow> do_almost_dead cx
             | s_almost_dead_1 \<Rightarrow> do_almost_dead cx
             | s_almost_dead_2 \<Rightarrow> do_almost_dead cx
             | s_almost_dead_3 \<Rightarrow> do_almost_dead cx
             | s_almost_dead_4 \<Rightarrow> do_almost_dead cx
             | s_dead \<Rightarrow> None);
          let cx = cx\<lparr>sess := new_state\<rparr>;
          Some (if sess cx = s_dead then cx\<lparr>freed := True\<rparr> else cx) }"

text \<open>\<open>on_connection\<close> has initialised the handle of \<open>incoming\<close>.\<close>

definition new_conn :: "u32 \<Rightarrow> conn" where
  "new_conn tmo = \<lparr>rdstate = c_stop, wrstate = c_stop, idle_timeout = tmo, result = 0, conn_t = T_none,
     reading = False, writing = None, conn_timer = None, handle_closing = False, timer_closing = False,
     rcvd = [], sent = []\<rparr>"

definition client_finish_init :: "u32 \<Rightarrow> client_ctx option" where
  "client_finish_init tmo =
     read_incoming \<lparr>sess = s_handshake, parser = s5_init, incoming = new_conn tmo, outgoing = new_conn tmo,
                    looking_up = False, connecting = False, freed = False\<rparr>"

section \<open>The callbacks\<close>

definition conn_timer_expire :: "world \<Rightarrow> side \<Rightarrow> int \<Rightarrow> client_ctx \<Rightarrow> client_ctx option" where
  "conn_timer_expire w sd status cx =
     do { ASSERT (status = 0);
          do_next w (set_conn sd ((conn_of sd cx)\<lparr>result := UV_ETIMEDOUT\<rparr>) cx) }"

definition conn_getaddrinfo_done :: "world \<Rightarrow> int \<Rightarrow> sockaddr \<Rightarrow> client_ctx \<Rightarrow> client_ctx option" where
  "conn_getaddrinfo_done w status ai cx =
     do { let cx = cx\<lparr>outgoing := (outgoing cx)\<lparr>result := status\<rparr>\<rparr>;
          cx \<leftarrow> (if status = 0 then
                  do { ASSERT (is_inet ai); Some (cx\<lparr>outgoing := (outgoing cx)\<lparr>conn_t := T_addr ai\<rparr>\<rparr>) }
                else Some cx);
          do_next w cx }"

definition conn_connect_done :: "world \<Rightarrow> int \<Rightarrow> client_ctx \<Rightarrow> client_ctx option" where
  "conn_connect_done w status cx =
     (if status = UV_ECANCELED then Some cx
      else do_next w (cx\<lparr>outgoing := (outgoing cx)\<lparr>result := status\<rparr>\<rparr>))"

definition conn_read_done :: "world \<Rightarrow> side \<Rightarrow> int \<Rightarrow> client_ctx \<Rightarrow> client_ctx option" where
  "conn_read_done w sd nread cx =
     do { ASSERT (rdstate (conn_of sd cx) = c_busy);
          do_next w (set_conn sd ((conn_of sd cx)\<lparr>rdstate := c_done, result := nread, reading := False\<rparr>) cx) }"

definition conn_write_done :: "world \<Rightarrow> side \<Rightarrow> int \<Rightarrow> client_ctx \<Rightarrow> client_ctx option" where
  "conn_write_done w sd status cx =
     (if status = UV_ECANCELED then Some cx
      else do { ASSERT (wrstate (conn_of sd cx) = c_busy);
                do_next w (set_conn sd ((conn_of sd cx)\<lparr>wrstate := c_done, result := status\<rparr>) cx) })"

definition conn_close_done :: "world \<Rightarrow> client_ctx \<Rightarrow> client_ctx option" where
  "conn_close_done w cx = do_next w cx"

text \<open>
  What the loop does: each event calls a callback after libuv has dropped the request or the handle
  from its own state.  The callbacks of the requests of a closing handle run, with \<open>UV_ECANCELED\<close>,
  before the close callback of the handle.
\<close>

datatype event =
  Read_done side int "u8 list"
| Write_done side int
| Connect_done int
| Lookup_done int sockaddr
| Timer_expire side int
| Handle_closed side
| Timer_closed side

fun enabled :: "event \<Rightarrow> client_ctx \<Rightarrow> bool" where
  "enabled (Read_done sd nread d) cx \<longleftrightarrow> reading (conn_of sd cx) \<and>
     (if nread < 0 then d = [] else length d = nat nread \<and> length d \<le> 2048)"
| "enabled (Write_done sd status) cx \<longleftrightarrow> writing (conn_of sd cx) \<noteq> None \<and>
     \<not> handle_closing (conn_of sd cx) \<and> status \<noteq> UV_ECANCELED \<and> status \<le> 0"
| "enabled (Connect_done status) cx \<longleftrightarrow> connecting cx \<and> \<not> handle_closing (outgoing cx) \<and>
     status \<noteq> UV_ECANCELED \<and> status \<le> 0"
| "enabled (Lookup_done status ai) cx \<longleftrightarrow> looking_up cx \<and> status \<le> 0 \<and> (status = 0 \<longrightarrow> is_inet ai)"
| "enabled (Timer_expire sd status) cx \<longleftrightarrow> conn_timer (conn_of sd cx) \<noteq> None"
| "enabled (Handle_closed sd) cx \<longleftrightarrow> handle_closing (conn_of sd cx)"
| "enabled (Timer_closed sd) cx \<longleftrightarrow> timer_closing (conn_of sd cx)"

fun on_event :: "world \<Rightarrow> event \<Rightarrow> client_ctx \<Rightarrow> client_ctx option" where
  "on_event w (Read_done sd nread d) cx =
     do { conn_alloc (conn_of sd cx);
          let c = conn_of sd cx;
          conn_read_done w sd nread (set_conn sd (c\<lparr>conn_t := T_buf d, rcvd := rcvd c @ d\<rparr>) cx) }"
| "on_event w (Write_done sd status) cx =
     conn_write_done w sd status (set_conn sd ((conn_of sd cx)\<lparr>writing := None\<rparr>) cx)"
| "on_event w (Connect_done status) cx = conn_connect_done w status (cx\<lparr>connecting := False\<rparr>)"
| "on_event w (Lookup_done status ai) cx = conn_getaddrinfo_done w status ai (cx\<lparr>looking_up := False\<rparr>)"
| "on_event w (Timer_expire sd status) cx =
     conn_timer_expire w sd status (set_conn sd ((conn_of sd cx)\<lparr>conn_timer := None\<rparr>) cx)"
| "on_event w (Handle_closed sd) cx =
     do { cx \<leftarrow> (if sd = Outgoing \<and> connecting cx
                then conn_connect_done w UV_ECANCELED (cx\<lparr>connecting := False\<rparr>) else Some cx);
          cx \<leftarrow> (if writing (conn_of sd cx) \<noteq> None
                then conn_write_done w sd UV_ECANCELED (set_conn sd ((conn_of sd cx)\<lparr>writing := None\<rparr>) cx)
                else Some cx);
          conn_close_done w (set_conn sd ((conn_of sd cx)\<lparr>handle_closing := False\<rparr>) cx) }"
| "on_event w (Timer_closed sd) cx =
     conn_close_done w (set_conn sd ((conn_of sd cx)\<lparr>timer_closing := False\<rparr>) cx)"


section \<open>The invariant of a session\<close>

definition conn_at :: "conn_state \<Rightarrow> conn_state \<Rightarrow> conn \<Rightarrow> bool" where
  "conn_at rd wr c \<longleftrightarrow> rdstate c = rd \<and> wrstate c = wr \<and> (reading c \<longleftrightarrow> rd = c_busy) \<and>
     (writing c \<noteq> None \<longleftrightarrow> wr = c_busy) \<and> \<not> handle_closing c \<and> \<not> timer_closing c"

definition dead_at :: "conn \<Rightarrow> bool" where
  "dead_at c \<longleftrightarrow> rdstate c = c_dead \<and> wrstate c = c_dead \<and> \<not> reading c \<and> conn_timer c = None \<and>
     (writing c \<noteq> None \<longrightarrow> handle_closing c)"

text \<open>The callbacks that are still to come once the session is being torn down.\<close>

definition finalizers :: "client_ctx \<Rightarrow> nat" where
  "finalizers cx = (\<Sum>b \<leftarrow> [handle_closing (incoming cx), timer_closing (incoming cx),
     handle_closing (outgoing cx), timer_closing (outgoing cx), looking_up cx]. if b then 1 else 0)"

text \<open>In the proxy state the connection \<open>a\<close> either writes what \<open>b\<close> has read, or \<open>b\<close> is reading.\<close>

definition half_duplex :: "conn \<Rightarrow> conn \<Rightarrow> bool" where
  "half_duplex a b \<longleftrightarrow> (wrstate a = c_stop \<and> rdstate b = c_busy) \<or> (wrstate a = c_busy \<and> rdstate b = c_stop)"

definition no_reqs :: "client_ctx \<Rightarrow> bool" where
  "no_reqs cx \<longleftrightarrow> \<not> looking_up cx \<and> \<not> connecting cx"

definition half_inv :: "bool \<Rightarrow> client_ctx \<Rightarrow> bool" where
  "half_inv leaky cx \<longleftrightarrow> dead_at (incoming cx) \<and> dead_at (outgoing cx) \<and> \<not> looking_up cx \<and>
     (connecting cx \<longrightarrow> handle_closing (outgoing cx)) \<and>
     finalizers cx + sess_ix (sess cx) \<le> 14 \<and> (\<not> leaky \<longrightarrow> finalizers cx + sess_ix (sess cx) = 14)"

definition sess_inv :: "bool \<Rightarrow> client_ctx \<Rightarrow> bool" where
  "sess_inv leaky cx \<longleftrightarrow> s5_wf (parser cx) \<and> (freed cx \<longleftrightarrow> sess cx = s_dead) \<and>
     (let i = incoming cx; o' = outgoing cx in
      case sess cx of
        s_handshake \<Rightarrow> no_reqs cx \<and> conn_at c_busy c_stop i \<and> conn_at c_stop c_stop o'
      | s_handshake_auth \<Rightarrow> False
      | s_req_start \<Rightarrow> no_reqs cx \<and> conn_at c_stop c_busy i \<and> conn_at c_stop c_stop o'
      | s_req_parse \<Rightarrow> no_reqs cx \<and> conn_at c_busy c_stop i \<and> conn_at c_stop c_stop o'
      | s_req_lookup \<Rightarrow> looking_up cx \<and> \<not> connecting cx \<and> conn_t o' = T_addrinfo_req \<and>
          conn_at c_stop c_stop i \<and> conn_at c_stop c_stop o'
      | s_req_connect \<Rightarrow> \<not> looking_up cx \<and> connecting cx \<and> conn_t o' = T_connect_req \<and>
          conn_at c_stop c_stop i \<and> conn_at c_stop c_stop o'
      | s_proxy_start \<Rightarrow> no_reqs cx \<and> result o' = 0 \<and> conn_at c_stop c_busy i \<and> conn_at c_stop c_stop o'
      | s_proxy \<Rightarrow> no_reqs cx \<and> 0 \<le> result i \<and> 0 \<le> result o' \<and>
          conn_at (rdstate i) (wrstate i) i \<and> conn_at (rdstate o') (wrstate o') o' \<and>
          half_duplex i o' \<and> half_duplex o' i
      | s_kill \<Rightarrow> no_reqs cx \<and> conn_at c_stop c_busy i \<and> conn_at c_stop c_stop o'
      | _ \<Rightarrow> half_inv leaky cx)"

text \<open>The events for which the states before the proxy state are prepared: a timer only expires while
  data is being proxied, or while the last reply is written.\<close>

fun quiet :: "event \<Rightarrow> client_ctx \<Rightarrow> bool" where
  "quiet (Timer_expire sd status) cx \<longleftrightarrow> status = 0 \<and> sess cx \<in> {s_proxy, s_kill}"
| "quiet _ cx \<longleftrightarrow> True"

text \<open>A result that keeps the invariant.\<close>

definition good :: "bool \<Rightarrow> step_result \<Rightarrow> bool" where
  "good leaky r \<longleftrightarrow> (\<exists>st cx. r = Some (st, cx) \<and> st \<noteq> s_dead \<and> sess_inv leaky (cx\<lparr>sess := st\<rparr>))"

lemma good_Some: "st \<noteq> s_dead \<Longrightarrow> good leaky (Some (st, cx)) \<longleftrightarrow> sess_inv leaky (cx\<lparr>sess := st\<rparr>)"
  by (simp add: good_def)

definition world_ok :: "bool \<Rightarrow> world \<Rightarrow> bool" where
  "world_ok leaky w \<longleftrightarrow> is_inet (getsockname w) \<and> (leaky \<or> (\<forall>a. tcp_connect w a = 0))"

lemma do_kill_good:
  assumes "s5_wf (parser cx)" "\<not> freed cx" "\<not> looking_up cx" "sess_ix (sess cx) \<le> 8"
    "sess cx = s_req_lookup \<Longrightarrow> leaky"
    "rdstate (incoming cx) \<noteq> c_dead" "wrstate (incoming cx) \<noteq> c_dead" "rdstate (outgoing cx) \<noteq> c_dead"
    "wrstate (outgoing cx) \<noteq> c_dead" "\<not> handle_closing (incoming cx)" "\<not> timer_closing (incoming cx)"
    "\<not> handle_closing (outgoing cx)" "\<not> timer_closing (outgoing cx)"
  shows "good leaky (do_kill cx)"
proof (cases "sess cx = s_req_lookup")
  case True
  then have "leaky" using assms(5) by blast
  then show ?thesis using assms True
    by (simp add: do_kill_def conn_close_def good_Some sess_inv_def half_inv_def dead_at_def finalizers_def)
next
  case False
  then show ?thesis using assms
    by (simp add: do_kill_def conn_close_def good_Some sess_inv_def half_inv_def dead_at_def finalizers_def)
qed

lemma do_next_good:
  assumes "sess cx \<noteq> s_dead" "\<not> freed cx"
    "good leaky (case sess cx of
        s_handshake \<Rightarrow> do_handshake cx | s_handshake_auth \<Rightarrow> do_handshake_auth cx
      | s_req_start \<Rightarrow> do_req_start cx | s_req_parse \<Rightarrow> do_req_parse w cx
      | s_req_lookup \<Rightarrow> do_req_lookup w cx | s_req_connect \<Rightarrow> do_req_connect w cx
      | s_proxy_start \<Rightarrow> do_proxy_start cx | s_proxy \<Rightarrow> do_proxy cx | s_kill \<Rightarrow> do_kill cx
      | _ \<Rightarrow> do_almost_dead cx)"
  shows "\<exists>cx'. do_next w cx = Some cx' \<and> sess_inv leaky cx'"
  using assms unfolding do_next_def good_def
  by (cases "sess cx") (auto simp: Let_def)


section \<open>The states keep the invariant\<close>

lemmas conn_ops = conn_read_def conn_write_def conn_timer_reset_def read_incoming_def write_incoming_def
  idle_conn_def conn_at_def no_reqs_def

lemma do_handshake_good:
  assumes "sess cx = s_handshake" "s5_wf (parser cx)" "\<not> freed cx" "no_reqs cx"
    "conn_at c_done c_stop (incoming cx)" "conn_at c_stop c_stop (outgoing cx)" "conn_t (incoming cx) = T_buf d"
  shows "good leaky (do_handshake cx)"
proof -
  obtain err p rest where p: "s5_parse (parser cx) (take (nat (result (incoming cx))) d) = Some (err, p, rest)" "s5_wf p"
    using s5_parse_bounded [OF assms(2)] by blast
  let ?cx = "cx\<lparr>incoming := (incoming cx)\<lparr>rdstate := c_stop\<rparr>\<rparr>"
  have kill: "good leaky (do_kill ?cx)" "good leaky (do_kill (?cx\<lparr>parser := p\<rparr>))"
    using assms p(2) by (intro do_kill_good; simp add: conn_ops)+
  have auth: "s5_wf (snd (s5_select_auth S5_AUTH_NONE p))" using p(2) by (simp add: s5_select_auth_def s5_wf_def)
  consider "result (incoming cx) < 0" | "0 \<le> result (incoming cx)" "err = s5_ok"
    | "0 \<le> result (incoming cx)" "err \<noteq> s5_ok" "rest \<noteq> [] \<or> err \<noteq> s5_auth_select"
    | "0 \<le> result (incoming cx)" "rest = []" "err = s5_auth_select" by fastforce
  then show ?thesis
  proof cases
    case 4
    then show ?thesis using assms p auth
      by (cases "s5_auth_methods p AND S5_AUTH_NONE \<noteq> 0")
         (simp_all add: do_handshake_def conn_ops conn_buf_def Let_def good_Some sess_inv_def can_auth_none_def)
  qed (use assms p kill in \<open>auto simp: do_handshake_def conn_ops conn_buf_def Let_def good_Some sess_inv_def\<close>)
qed

lemma do_req_start_good:
  assumes "sess cx = s_req_start" "s5_wf (parser cx)" "\<not> freed cx" "no_reqs cx"
    "conn_at c_stop c_done (incoming cx)" "conn_at c_stop c_stop (outgoing cx)"
  shows "good leaky (do_req_start cx)"
  using assms by (auto simp: do_req_start_def conn_ops Let_def good_Some sess_inv_def intro!: do_kill_good)

lemma do_req_connect_start_good:
  assumes "sess_ix (sess cx) \<le> 8" "s5_wf (parser cx)" "\<not> freed cx" "no_reqs cx"
    "conn_at c_stop c_stop (incoming cx)" "conn_at c_stop c_stop (outgoing cx)"
    "conn_t (outgoing cx) = T_addr a" "is_inet a" "world_ok leaky w"
  shows "good leaky (do_req_connect_start w cx)"
proof -
  have "leaky" if "tcp_connect w a \<noteq> 0" using assms(9) that by (auto simp: world_ok_def)
  then show ?thesis
    using assms
    by (auto simp: do_req_connect_start_def conn_connect_def conn_ops Let_def good_Some sess_inv_def intro!: do_kill_good)
qed

lemma do_req_parse_good:
  assumes "sess cx = s_req_parse" "s5_wf (parser cx)" "\<not> freed cx" "no_reqs cx"
    "conn_at c_done c_stop (incoming cx)" "conn_at c_stop c_stop (outgoing cx)" "conn_t (incoming cx) = T_buf d"
    "world_ok leaky w"
  shows "good leaky (do_req_parse w cx)"
proof -
  obtain err p rest where p: "s5_parse (parser cx) (take (nat (result (incoming cx))) d) = Some (err, p, rest)" "s5_wf p"
    using s5_parse_bounded [OF assms(2)] by blast
  show ?thesis
  proof (cases "0 \<le> result (incoming cx) \<and> err = s5_exec_cmd \<and> rest = [] \<and> cmd p = s5_cmd_tcp_connect")
    case True
    show ?thesis
    proof (cases "atyp p")
      case s5_atyp_host
      then show ?thesis using True p assms
        by (simp add: do_req_parse_def conn_ops conn_buf_def Let_def good_Some sess_inv_def conn_getaddrinfo_def)
    qed (use True p assms in \<open>auto simp: do_req_parse_def conn_ops conn_buf_def Let_def intro!: do_req_connect_start_good\<close>)
  next
    case False
    let ?cx = "cx\<lparr>incoming := (incoming cx)\<lparr>rdstate := c_stop\<rparr>\<rparr>"
    have kill: "good leaky (do_kill ?cx)" "good leaky (do_kill (?cx\<lparr>parser := p\<rparr>))"
      using assms p(2) by (intro do_kill_good; simp add: conn_ops)+
    consider "result (incoming cx) < 0" | "0 \<le> result (incoming cx)" "err = s5_ok"
      | "0 \<le> result (incoming cx)" "err \<noteq> s5_ok" "rest \<noteq> [] \<or> err \<noteq> s5_exec_cmd \<or> cmd p \<noteq> s5_cmd_tcp_connect"
      using False by fastforce
    then show ?thesis
    proof cases
      case 3
      then show ?thesis using assms p kill
        by (cases "cmd p") (auto simp: do_req_parse_def conn_ops conn_buf_def Let_def)
    qed (use assms p kill in \<open>auto simp: do_req_parse_def conn_ops conn_buf_def Let_def good_Some sess_inv_def\<close>)
  qed
qed

lemma do_req_lookup_good:
  assumes "sess cx = s_req_lookup" "s5_wf (parser cx)" "\<not> freed cx" "no_reqs cx"
    "conn_at c_stop c_stop (incoming cx)" "conn_at c_stop c_stop (outgoing cx)"
    "0 \<le> result (outgoing cx) \<longrightarrow> (\<exists>a. conn_t (outgoing cx) = T_addr a \<and> is_inet a)" "world_ok leaky w"
  shows "good leaky (do_req_lookup w cx)"
proof (cases "result (outgoing cx) < 0")
  case True
  then show ?thesis using assms by (simp add: do_req_lookup_def conn_ops good_Some sess_inv_def)
next
  case False
  then obtain a where a: "conn_t (outgoing cx) = T_addr a" "is_inet a" using assms by auto
  then show ?thesis using False assms
    by (cases a; auto simp: do_req_lookup_def conn_ops intro!: do_req_connect_start_good)
qed

lemma do_req_connect_good:
  assumes "sess cx = s_req_connect" "s5_wf (parser cx)" "\<not> freed cx" "no_reqs cx"
    "conn_at c_stop c_stop (incoming cx)" "conn_at c_stop c_stop (outgoing cx)" "world_ok leaky w"
  shows "good leaky (do_req_connect w cx)"
  using assms
  by (cases "getsockname w") (auto simp: do_req_connect_def conn_ops good_Some sess_inv_def world_ok_def Let_def)

lemma do_proxy_start_good:
  assumes "sess cx = s_proxy_start" "s5_wf (parser cx)" "\<not> freed cx" "no_reqs cx" "result (outgoing cx) = 0"
    "conn_at c_stop c_done (incoming cx)" "conn_at c_stop c_stop (outgoing cx)"
  shows "good leaky (do_proxy_start cx)"
  using assms
  by (auto simp: do_proxy_start_def conn_ops good_Some sess_inv_def half_duplex_def Let_def intro!: do_kill_good)


section \<open>The proxy state\<close>

text \<open>One direction, with the end of a read or a write just reported.\<close>

definition half_event :: "conn \<Rightarrow> conn \<Rightarrow> bool" where
  "half_event a b \<longleftrightarrow> half_duplex a b \<or> (wrstate a = c_done \<and> rdstate b = c_stop) \<or>
     (wrstate a = c_stop \<and> rdstate b = c_done \<and> (\<exists>d. conn_t b = T_buf d \<and> length d = nat (result b)))"

definition to_forward :: "conn \<Rightarrow> u8 list" where
  "to_forward b = (case (rdstate b, conn_t b) of (c_done, T_buf d) \<Rightarrow> d | _ \<Rightarrow> [])"

lemma conn_cycle_step:
  assumes "half_event a b" "0 \<le> result a" "0 \<le> result b"
    "conn_at (rdstate a) (wrstate a) a" "conn_at (rdstate b) (wrstate b) b"
  shows "\<exists>a' b'. conn_cycle a b = Some (0, a', b') \<and> half_duplex a' b' \<and>
     conn_at (rdstate a) (wrstate a') a' \<and> conn_at (rdstate b') (wrstate b) b' \<and>
     result a' = result a \<and> result b' = result b \<and> conn_t a' = conn_t a \<and> conn_t b' = conn_t b \<and>
     rcvd a' = rcvd a \<and> rcvd b' = rcvd b \<and> sent a' = sent a @ to_forward b \<and> sent b' = sent b"
proof -
  consider "wrstate a = c_stop" "rdstate b = c_busy" | "wrstate a = c_busy" "rdstate b = c_stop"
    | "wrstate a = c_done" "rdstate b = c_stop"
    | d where "wrstate a = c_stop" "rdstate b = c_done" "conn_t b = T_buf d" "length d = nat (result b)"
    using assms(1) by (auto simp: half_event_def half_duplex_def)
  then show ?thesis
    by cases (use assms(2-) in \<open>auto simp: conn_cycle_def conn_ops conn_buf_def half_duplex_def to_forward_def Let_def\<close>)
qed

lemma conn_cycle_failed: "result a < 0 \<or> result b < 0 \<Longrightarrow> conn_cycle a b = Some (- 1, a, b)"
  by (auto simp: conn_cycle_def)

text \<open>Entering \<open>do_proxy\<close>: the states of the two directions and of the connections.\<close>

definition proxy_entry :: "client_ctx \<Rightarrow> bool" where
  "proxy_entry cx \<longleftrightarrow> sess cx = s_proxy \<and> s5_wf (parser cx) \<and> \<not> freed cx \<and> no_reqs cx \<and>
     (let i = incoming cx; o' = outgoing cx in
      conn_at (rdstate i) (wrstate i) i \<and> conn_at (rdstate o') (wrstate o') o' \<and>
      half_event i o' \<and> half_event o' i)"

lemma half_alive: "half_event a b \<Longrightarrow> wrstate a \<noteq> c_dead \<and> rdstate b \<noteq> c_dead"
  by (auto simp: half_event_def half_duplex_def)

lemma do_proxy_failed:
  assumes "proxy_entry cx" "result (incoming cx) < 0 \<or> result (outgoing cx) < 0"
  shows "good leaky (do_proxy cx) \<and> (\<forall>st cx'. do_proxy cx = Some (st, cx') \<longrightarrow> st \<noteq> s_proxy)"
proof -
  have "do_proxy cx = do_kill cx"
    using conn_cycle_failed [OF assms(2)] by (simp add: do_proxy_def Let_def)
  moreover have "good leaky (do_kill cx)"
    using assms(1) half_alive [of "incoming cx" "outgoing cx"] half_alive [of "outgoing cx" "incoming cx"]
    by (intro do_kill_good) (auto simp: proxy_entry_def conn_at_def no_reqs_def Let_def)
  moreover have "do_kill cx = Some (st, cx') \<Longrightarrow> st \<noteq> s_proxy" for st cx'
    using assms(1) by (auto simp: proxy_entry_def do_kill_def bind_eq_Some_conv Let_def split: if_splits)
  ultimately show ?thesis by metis
qed

lemma do_proxy_ok:
  assumes "proxy_entry cx" "0 \<le> result (incoming cx)" "0 \<le> result (outgoing cx)"
  shows "\<exists>cx'. do_proxy cx = Some (s_proxy, cx') \<and> sess_inv leaky (cx'\<lparr>sess := s_proxy\<rparr>) \<and>
     rcvd (incoming cx') = rcvd (incoming cx) \<and> rcvd (outgoing cx') = rcvd (outgoing cx) \<and>
     sent (outgoing cx') = sent (outgoing cx) @ to_forward (incoming cx) \<and>
     sent (incoming cx') = sent (incoming cx) @ to_forward (outgoing cx)"
proof -
  let ?i = "incoming cx" and ?o = "outgoing cx"
  have e: "half_event ?i ?o" "half_event ?o ?i" "conn_at (rdstate ?i) (wrstate ?i) ?i" "conn_at (rdstate ?o) (wrstate ?o) ?o"
    using assms(1) by (simp_all add: proxy_entry_def Let_def)
  obtain i1 o1 where 1: "conn_cycle ?i ?o = Some (0, i1, o1)" "half_duplex i1 o1" "conn_at (rdstate ?i) (wrstate i1) i1"
      "conn_at (rdstate o1) (wrstate ?o) o1" "result i1 = result ?i" "result o1 = result ?o" "conn_t i1 = conn_t ?i"
      "conn_t o1 = conn_t ?o" "rcvd i1 = rcvd ?i" "rcvd o1 = rcvd ?o" "sent i1 = sent ?i @ to_forward ?o" "sent o1 = sent ?o"
    using conn_cycle_step [OF e(1) assms(2,3) e(3,4)] by blast
  have e2: "half_event o1 i1" "conn_at (rdstate i1) (wrstate i1) i1" "conn_at (rdstate o1) (wrstate o1) o1"
      "to_forward i1 = to_forward ?i"
    using 1(3,4,5,7) e(2) by (auto simp: half_event_def half_duplex_def conn_at_def to_forward_def)
  obtain o2 i2 where 2: "conn_cycle o1 i1 = Some (0, o2, i2)" "half_duplex o2 i2" "conn_at (rdstate o1) (wrstate o2) o2"
      "conn_at (rdstate i2) (wrstate i1) i2" "result o2 = result o1" "result i2 = result i1" "rcvd o2 = rcvd o1" "rcvd i2 = rcvd i1"
      "sent o2 = sent o1 @ to_forward i1" "sent i2 = sent i1"
    using conn_cycle_step [OF e2(1) _ _ e2(3,2)] 1(5,6) assms(2,3) by (metis (no_types, lifting))
  have "half_duplex i2 o2" using 1(2) 2(3,4) by (auto simp: half_duplex_def conn_at_def)
  then have "sess_inv leaky (cx\<lparr>incoming := i2, outgoing := o2, sess := s_proxy\<rparr>)"
    using assms 1(5,6) 2 by (auto simp: sess_inv_def proxy_entry_def no_reqs_def conn_at_def Let_def)
  then show ?thesis using 1 2 e2 by (simp add: do_proxy_def Let_def)
qed

lemma do_proxy_good: "proxy_entry cx \<Longrightarrow> good leaky (do_proxy cx)"
  using do_proxy_ok [of cx leaky] do_proxy_failed [of cx leaky] by (fastforce simp: good_def)


section \<open>Every event keeps the invariant\<close>

definition ok_result :: "bool \<Rightarrow> client_ctx option \<Rightarrow> bool" where
  "ok_result leaky r \<longleftrightarrow> (\<exists>cx'. r = Some cx' \<and> sess_inv leaky cx')"

lemmas conn_sel = conn_of_def set_conn_def

lemma read_done_ok:
  assumes "sess_inv leaky cx" "enabled (Read_done sd nread d) cx" "world_ok leaky w"
  shows "ok_result leaky (on_event w (Read_done sd nread d) cx)"
proof -
  let ?c = "(conn_of sd cx)\<lparr>conn_t := T_buf d, rcvd := rcvd (conn_of sd cx) @ d, rdstate := c_done, result := nread, reading := False\<rparr>"
  let ?cx = "set_conn sd ?c cx"
  have "reading (conn_of sd cx)" using assms(2) by simp
  then consider "sess cx = s_handshake" "sd = Incoming" | "sess cx = s_req_parse" "sd = Incoming" | "sess cx = s_proxy"
    using assms(1) by (cases "sess cx"; cases sd) (auto simp: sess_inv_def conn_at_def half_inv_def dead_at_def conn_of_def Let_def)
  then have "ok_result leaky (do_next w ?cx)"
  proof cases
    case 1
    then show ?thesis unfolding ok_result_def using assms
      by (intro do_next_good) (auto intro!: do_handshake_good simp: sess_inv_def conn_at_def no_reqs_def conn_sel Let_def)
  next
    case 2
    then show ?thesis unfolding ok_result_def using assms
      by (intro do_next_good) (auto intro!: do_req_parse_good simp: sess_inv_def conn_at_def no_reqs_def conn_sel Let_def)
  next
    case 3
    have "length d = nat nread" using assms(2) by (simp split: if_splits)
    then have "proxy_entry ?cx" using 3 assms
      by (cases sd) (auto simp: proxy_entry_def sess_inv_def conn_at_def no_reqs_def conn_sel half_event_def half_duplex_def Let_def)
    then show ?thesis unfolding ok_result_def using 3 assms
      by (intro do_next_good) (cases sd; auto intro!: do_proxy_good simp: sess_inv_def conn_sel Let_def)+
  qed
  moreover have "on_event w (Read_done sd nread d) cx = do_next w ?cx"
    using assms \<open>reading (conn_of sd cx)\<close>
    by (cases "sess cx"; cases sd)
       (auto simp: conn_alloc_def conn_read_done_def sess_inv_def conn_at_def half_inv_def dead_at_def conn_sel Let_def)
  ultimately show ?thesis by simp
qed

lemma write_done_ok:
  assumes "sess_inv leaky cx" "enabled (Write_done sd status) cx" "world_ok leaky w"
  shows "ok_result leaky (on_event w (Write_done sd status) cx)"
proof -
  let ?c = "(conn_of sd cx)\<lparr>writing := None, wrstate := c_done, result := status\<rparr>"
  let ?cx = "set_conn sd ?c cx"
  have wr: "writing (conn_of sd cx) \<noteq> None" "\<not> handle_closing (conn_of sd cx)" using assms(2) by simp_all
  then consider "sess cx = s_req_start" "sd = Incoming" | "sess cx = s_proxy_start" "sd = Incoming"
    | "sess cx = s_kill" "sd = Incoming" | "sess cx = s_proxy"
    using assms(1) by (cases "sess cx"; cases sd) (auto simp: sess_inv_def conn_at_def half_inv_def dead_at_def conn_of_def Let_def)
  note cases = this
  from cases have "ok_result leaky (do_next w ?cx)"
  proof cases
    case 1
    then show ?thesis unfolding ok_result_def using assms
      by (intro do_next_good) (auto intro!: do_req_start_good simp: sess_inv_def conn_at_def no_reqs_def conn_sel Let_def)
  next
    case 2
    then show ?thesis unfolding ok_result_def using assms
      by (intro do_next_good) (auto intro!: do_proxy_start_good simp: sess_inv_def conn_at_def no_reqs_def conn_sel Let_def)
  next
    case 3
    then show ?thesis unfolding ok_result_def using assms
      by (intro do_next_good) (auto intro!: do_kill_good simp: sess_inv_def conn_at_def no_reqs_def conn_sel Let_def)
  next
    case 4
    have "proxy_entry ?cx" using 4 assms
      by (cases sd) (auto simp: proxy_entry_def sess_inv_def conn_at_def no_reqs_def conn_sel half_event_def half_duplex_def Let_def)
    then show ?thesis unfolding ok_result_def using 4 assms
      by (intro do_next_good) (cases sd; auto intro!: do_proxy_good simp: sess_inv_def conn_sel Let_def)+
  qed
  moreover have "on_event w (Write_done sd status) cx = do_next w ?cx"
  proof -
    have "wrstate (conn_of sd cx) = c_busy"
      using cases assms(1) wr by cases (cases sd; auto simp: sess_inv_def conn_at_def conn_of_def Let_def)+
    then show ?thesis using assms(2) by (cases sd) (auto simp: conn_write_done_def conn_sel)
  qed
  ultimately show ?thesis by simp
qed

lemma connect_done_ok:
  assumes "sess_inv leaky cx" "enabled (Connect_done status) cx" "world_ok leaky w"
  shows "ok_result leaky (on_event w (Connect_done status) cx)"
proof -
  have "sess cx = s_req_connect" using assms(1,2)
    by (cases "sess cx") (auto simp: sess_inv_def no_reqs_def half_inv_def Let_def)
  let ?cx = "cx\<lparr>connecting := False, outgoing := (outgoing cx)\<lparr>result := status\<rparr>\<rparr>"
  have "ok_result leaky (do_next w ?cx)"
    unfolding ok_result_def using \<open>sess cx = s_req_connect\<close> assms
    by (intro do_next_good) (auto intro!: do_req_connect_good simp: sess_inv_def conn_at_def no_reqs_def Let_def)
  then show ?thesis using assms(2) by (simp add: conn_connect_done_def)
qed

lemma lookup_done_ok:
  assumes "sess_inv leaky cx" "enabled (Lookup_done status ai) cx" "world_ok leaky w"
  shows "ok_result leaky (on_event w (Lookup_done status ai) cx)"
proof -
  have "sess cx = s_req_lookup" using assms(1,2)
    by (cases "sess cx") (auto simp: sess_inv_def no_reqs_def half_inv_def Let_def)
  let ?cx = "cx\<lparr>looking_up := False, outgoing := (outgoing cx)\<lparr>result := status\<rparr>\<rparr>"
  let ?cx' = "if status = 0 then ?cx\<lparr>outgoing := (outgoing ?cx)\<lparr>conn_t := T_addr ai\<rparr>\<rparr> else ?cx"
  have "ok_result leaky (do_next w ?cx')"
    unfolding ok_result_def using \<open>sess cx = s_req_lookup\<close> assms
    by (intro do_next_good) (auto intro!: do_req_lookup_good simp: sess_inv_def conn_at_def no_reqs_def Let_def)
  then show ?thesis using assms(2) by (auto simp: conn_getaddrinfo_done_def Let_def)
qed

lemma timer_expire_ok:
  assumes "sess_inv leaky cx" "enabled (Timer_expire sd status) cx" "quiet (Timer_expire sd status) cx" "world_ok leaky w"
  shows "ok_result leaky (on_event w (Timer_expire sd status) cx)"
proof -
  let ?cx = "set_conn sd ((conn_of sd cx)\<lparr>conn_timer := None, result := UV_ETIMEDOUT\<rparr>) cx"
  have st: "status = 0" "sess cx = s_proxy \<or> sess cx = s_kill" using assms(3) by auto
  have "ok_result leaky (do_next w ?cx)"
  proof (cases "sess cx = s_proxy")
    case True
    have "proxy_entry ?cx" using True assms
      by (cases sd) (auto simp: proxy_entry_def sess_inv_def conn_at_def no_reqs_def conn_sel half_event_def half_duplex_def Let_def)
    then show ?thesis unfolding ok_result_def using True assms
      by (intro do_next_good) (cases sd; auto intro!: do_proxy_good simp: sess_inv_def conn_sel Let_def)+
  next
    case False
    then have k: "sess cx = s_kill" using st by blast
    then show ?thesis unfolding ok_result_def using assms
      by (intro do_next_good)
         (cases sd; auto intro!: do_kill_good simp: sess_inv_def conn_at_def no_reqs_def conn_sel Let_def)+
  qed
  then show ?thesis using st(1) by (cases sd) (simp_all add: conn_timer_expire_def conn_sel)
qed


text \<open>A finalizer: its flag \<open>b\<close> has been cleared.\<close>

lemma sess_states_nth: "sess_ix st < 15 \<and> sess_states ! sess_ix st = st"
  by (cases st) (simp_all add: sess_states_def)

lemma sess_ix_next: "sess_ix st < 14 \<Longrightarrow> sess_ix (sess_states ! (sess_ix st + 1)) = sess_ix st + 1"
  by (cases st) (simp_all add: sess_states_def)

lemma sess_dead_ix: "sess_ix st = 14 \<longleftrightarrow> st = s_dead"
  by (cases st) simp_all

lemma sess_inv_late:
  "9 \<le> sess_ix (sess cx) \<Longrightarrow>
   sess_inv leaky cx \<longleftrightarrow> s5_wf (parser cx) \<and> (freed cx \<longleftrightarrow> sess cx = s_dead) \<and> half_inv leaky cx"
  by (cases "sess cx") (simp_all add: sess_inv_def Let_def)

lemma do_next_late:
  "9 \<le> sess_ix (sess cx) \<Longrightarrow> sess_ix (sess cx) < 14 \<Longrightarrow>
   do_next w cx = (let st = sess_states ! (sess_ix (sess cx) + 1)
                   in Some (if st = s_dead then cx\<lparr>sess := st, freed := True\<rparr> else cx\<lparr>sess := st\<rparr>))"
  by (cases "sess cx") (simp_all add: do_next_def do_almost_dead_def Let_def)

lemma finalizer_step:
  assumes "9 \<le> sess_ix (sess cx)" "sess_ix (sess cx) < 14" "s5_wf (parser cx)" "\<not> freed cx"
    "dead_at (incoming cx)" "dead_at (outgoing cx)" "\<not> looking_up cx" "connecting cx \<longrightarrow> handle_closing (outgoing cx)"
    "finalizers cx + 1 + sess_ix (sess cx) \<le> 14" "\<not> leaky \<longrightarrow> finalizers cx + 1 + sess_ix (sess cx) = 14"
  shows "ok_result leaky (do_next w cx)"
proof -
  define st where "st = sess_states ! (sess_ix (sess cx) + 1)"
  have ix: "sess_ix st = sess_ix (sess cx) + 1" using sess_ix_next assms(2) by (simp add: st_def)
  define cx' where "cx' = (if st = s_dead then cx\<lparr>sess := st, freed := True\<rparr> else cx\<lparr>sess := st\<rparr>)"
  have "half_inv leaky cx'"
    using assms ix by (auto simp: cx'_def half_inv_def finalizers_def)
  moreover have "9 \<le> sess_ix (sess cx')" "s5_wf (parser cx')" "freed cx' \<longleftrightarrow> sess cx' = s_dead"
    using assms(1,3,4) ix by (simp_all add: cx'_def)
  ultimately have "sess_inv leaky cx'" by (simp add: sess_inv_late)
  moreover have "do_next w cx = Some cx'"
    unfolding do_next_late [OF assms(1,2)] cx'_def st_def Let_def by (rule refl)
  ultimately show ?thesis by (simp add: ok_result_def)
qed

lemma closing_late:
  assumes "sess_inv leaky cx" "handle_closing (conn_of sd cx) \<or> timer_closing (conn_of sd cx)"
  shows "9 \<le> sess_ix (sess cx) \<and> sess_ix (sess cx) < 14 \<and> s5_wf (parser cx) \<and> \<not> freed cx \<and> half_inv leaky cx"
proof -
  have 9: "9 \<le> sess_ix (sess cx)"
    using assms by (cases "sess cx"; cases sd) (auto simp: sess_inv_def conn_at_def conn_of_def Let_def)
  moreover have "0 < finalizers cx" using assms(2) by (cases sd) (auto simp: finalizers_def conn_of_def)
  ultimately show ?thesis using assms(1) sess_dead_ix [of "sess cx"] by (auto simp: sess_inv_late half_inv_def)
qed

lemma timer_closed_ok:
  assumes "sess_inv leaky cx" "enabled (Timer_closed sd) cx"
  shows "ok_result leaky (on_event w (Timer_closed sd) cx)"
proof -
  note l = closing_late [OF assms(1), of sd]
  show ?thesis using l assms(2)
    unfolding on_event.simps conn_close_done_def
    by (intro finalizer_step)
       (cases sd; auto simp: conn_sel half_inv_def dead_at_def finalizers_def split: if_splits)+
qed

definition after_handle :: "side \<Rightarrow> client_ctx \<Rightarrow> client_ctx" where
  "after_handle sd cx =
     set_conn sd ((conn_of sd cx)\<lparr>writing := None, handle_closing := False\<rparr>)
       (if sd = Outgoing then cx\<lparr>connecting := False\<rparr> else cx)"

lemma handle_closed_eq: "on_event w (Handle_closed sd) cx = do_next w (after_handle sd cx)"
proof -
  have [simp]: "cx\<lparr>connecting := False\<rparr> = cx" if "\<not> connecting cx" using that by (cases cx) simp
  have [simp]: "c\<lparr>writing := None, handle_closing := False\<rparr> = c\<lparr>handle_closing := False\<rparr>" if "writing c = None" for c
    using that by (cases c) simp
  show ?thesis
    by (cases sd; cases "writing (conn_of sd cx)"; cases "connecting cx")
       (simp_all add: after_handle_def conn_connect_done_def conn_write_done_def conn_close_done_def conn_sel)
qed

lemma handle_closed_ok:
  assumes "sess_inv leaky cx" "enabled (Handle_closed sd) cx"
  shows "ok_result leaky (on_event w (Handle_closed sd) cx)"
proof -
  note l = closing_late [OF assms(1), of sd]
  show ?thesis using l assms(2)
    unfolding handle_closed_eq
    by (intro finalizer_step)
       (cases sd; auto simp: after_handle_def conn_sel half_inv_def dead_at_def finalizers_def split: if_splits)+
qed

lemma teardown_step:
  assumes "sess_inv leaky cx" "9 \<le> sess_ix (sess cx)" "enabled ev cx"
  shows "quiet ev cx \<and> finalizers cx \<le> 5 \<and>
     (\<exists>cx'. on_event w ev cx = Some cx' \<and> sess_ix (sess cx') = sess_ix (sess cx) + 1 \<and> finalizers cx' + 1 = finalizers cx)"
proof -
  have h: "half_inv leaky cx" using assms by (simp add: sess_inv_late)
  have fin: "finalizers cx \<le> 5" by (simp add: finalizers_def)
  obtain sd where ev: "ev = Handle_closed sd \<or> ev = Timer_closed sd"
    using h assms(3)
    by (cases ev) (auto simp: half_inv_def dead_at_def conn_of_def split: side.splits)
  define cx0 where "cx0 = (if ev = Handle_closed sd then after_handle sd cx
                           else set_conn sd ((conn_of sd cx)\<lparr>timer_closing := False\<rparr>) cx)"
  have eq: "on_event w ev cx = do_next w cx0"
    using ev handle_closed_eq by (auto simp: cx0_def conn_close_done_def)
  have f: "finalizers cx0 + 1 = finalizers cx" "sess cx0 = sess cx"
    using ev assms(3) by (cases sd; auto simp: cx0_def after_handle_def conn_sel finalizers_def)+
  have "sess_ix (sess cx) < 14"
    using f h by (auto simp: half_inv_def)
  then have "\<exists>cx'. do_next w cx0 = Some cx' \<and> sess_ix (sess cx') = sess_ix (sess cx) + 1 \<and> finalizers cx' = finalizers cx0"
    using do_next_late [of cx0 w] assms(2) f(2) sess_ix_next [of "sess cx"] by (auto simp: Let_def finalizers_def)
  then show ?thesis using eq f fin ev by auto
qed

lemma on_event_ok:
  assumes "sess_inv leaky cx" "enabled ev cx" "quiet ev cx" "world_ok leaky w"
  shows "\<exists>cx'. on_event w ev cx = Some cx' \<and> sess_inv leaky cx'"
proof -
  have "ok_result leaky (on_event w ev cx)"
  proof (cases ev)
    case (Read_done sd nread d) then show ?thesis using read_done_ok assms by blast
  next
    case (Write_done sd status) then show ?thesis using write_done_ok assms by blast
  next
    case (Connect_done status) then show ?thesis using connect_done_ok assms by blast
  next
    case (Lookup_done status ai) then show ?thesis using lookup_done_ok assms by blast
  next
    case (Timer_expire sd status) then show ?thesis using timer_expire_ok assms by blast
  next
    case (Handle_closed sd) then show ?thesis using handle_closed_ok assms by blast
  next
    case (Timer_closed sd) then show ?thesis using timer_closed_ok assms by blast
  qed
  then show ?thesis by (simp only: ok_result_def)
qed

section \<open>Sessions\<close>

text \<open>The states of a session of a client with the idle timeout \<open>tmo\<close>.\<close>

inductive session :: "world \<Rightarrow> u32 \<Rightarrow> client_ctx \<Rightarrow> bool" for w tmo where
  start: "client_finish_init tmo = Some cx \<Longrightarrow> session w tmo cx"
| event: "session w tmo cx \<Longrightarrow> enabled ev cx \<Longrightarrow> quiet ev cx \<Longrightarrow> on_event w ev cx = Some cx' \<Longrightarrow> session w tmo cx'"

lemma init_inv: "client_finish_init tmo = Some cx \<Longrightarrow> sess_inv leaky cx"
  by (auto simp: client_finish_init_def conn_ops new_conn_def sess_inv_def s5_init_wf)

lemma session_inv:
  assumes "session w tmo cx" "world_ok leaky w"
  shows "sess_inv leaky cx"
  using assms(1)
proof induction
  case (event cx ev cx')
  then show ?case using on_event_ok [OF event.IH event.hyps(2,3) assms(2)] by simp
qed (rule init_inv)

lemma world_ok_leaky: "is_inet (getsockname w) \<Longrightarrow> world_ok True w"
  by (simp add: world_ok_def)

text \<open>Some event is due in every state, until the last finalizer has run.\<close>

lemma none_enabled:
  assumes "sess_inv leaky cx" "\<forall>ev. \<not> enabled ev cx"
  shows "9 \<le> sess_ix (sess cx) \<and> finalizers cx = 0"
proof -
  have c: "\<not> reading (conn_of sd cx)" "\<not> handle_closing (conn_of sd cx)" "\<not> timer_closing (conn_of sd cx)" for sd
    using assms(2) [rule_format, of "Read_done sd 0 []"] assms(2) [rule_format, of "Handle_closed sd"]
      assms(2) [rule_format, of "Timer_closed sd"] by simp_all
  have wr: "writing (conn_of sd cx) = None" for sd
    using assms(2) [rule_format, of "Write_done sd 0"] c(2) [of sd] by simp
  have r: "\<not> looking_up cx" "\<not> connecting cx"
    using assms(2) [rule_format, of "Lookup_done (- 1) Sa_other"] assms(2) [rule_format, of "Connect_done 0"]
      c(2) [of Outgoing] by (simp_all add: conn_of_def)
  have io: "\<not> reading (incoming cx)" "writing (incoming cx) = None" "writing (outgoing cx) = None" "\<not> reading (outgoing cx)"
    using c(1) [of Incoming] c(1) [of Outgoing] wr [of Incoming] wr [of Outgoing] by (simp_all add: conn_of_def)
  have "9 \<le> sess_ix (sess cx)"
    using assms(1) io r
    by (cases "sess cx") (auto simp: sess_inv_def conn_at_def half_duplex_def Let_def)
  moreover have "finalizers cx = 0"
    using c(2,3) [of Incoming] c(2,3) [of Outgoing] r by (simp add: finalizers_def conn_of_def)
  ultimately show ?thesis by blast
qed

lemma dead_none_enabled:
  assumes "sess_inv leaky cx" "freed cx"
  shows "\<not> enabled ev cx"
proof -
  have d: "sess cx = s_dead" using assms by (simp add: sess_inv_def)
  then have h: "half_inv leaky cx" using assms(1) by (simp add: sess_inv_late)
  then have "finalizers cx = 0" using d by (simp add: half_inv_def)
  then show ?thesis using h
    by (cases ev rule: event.exhaust) (auto simp: half_inv_def dead_at_def finalizers_def conn_of_def split: if_splits side.splits)
qed

section \<open>Forwarding\<close>

inductive proxying :: "world \<Rightarrow> client_ctx \<Rightarrow> client_ctx \<Rightarrow> bool" for w where
  refl: "sess cx = s_proxy \<Longrightarrow> proxying w cx cx"
| step: "proxying w cx cx1 \<Longrightarrow> enabled ev cx1 \<Longrightarrow> quiet ev cx1 \<Longrightarrow> on_event w ev cx1 = Some cx2 \<Longrightarrow>
   sess cx2 = s_proxy \<Longrightarrow> proxying w cx cx2"

lemma proxying_ends: "proxying w cx cx' \<Longrightarrow> sess cx = s_proxy \<and> sess cx' = s_proxy"
  by (induction rule: proxying.induct) auto

lemma proxying_session: "proxying w cx cx' \<Longrightarrow> session w tmo cx \<Longrightarrow> session w tmo cx'"
  by (induction rule: proxying.induct) (auto intro: session.event)

definition both_rcvd :: "client_ctx \<Rightarrow> u8 list \<times> u8 list" where
  "both_rcvd cx = (rcvd (incoming cx), rcvd (outgoing cx))"

text \<open>What a callback leaves to be forwarded by \<open>do_proxy\<close>.\<close>

lemma proxy_event:
  assumes "sess_inv leaky cx" "sess cx = s_proxy" "enabled ev cx" "quiet ev cx"
  shows "\<exists>cx0. on_event w ev cx = do_next w cx0 \<and> proxy_entry cx0 \<and>
     sent (incoming cx0) = sent (incoming cx) \<and> sent (outgoing cx0) = sent (outgoing cx) \<and>
     rcvd (incoming cx0) = rcvd (incoming cx) @ to_forward (incoming cx0) \<and>
     rcvd (outgoing cx0) = rcvd (outgoing cx) @ to_forward (outgoing cx0)"
proof -
  note defs = proxy_entry_def sess_inv_def conn_at_def no_reqs_def conn_sel half_event_def half_duplex_def Let_def to_forward_def
  from assms consider sd nread d where "ev = Read_done sd nread d" | sd status where "ev = Write_done sd status"
    | sd where "ev = Timer_expire sd 0"
    by (cases ev) (auto simp: sess_inv_def no_reqs_def conn_at_def conn_of_def Let_def split: side.splits)
  then show ?thesis
  proof cases
    case 1
    let ?c = "(conn_of sd cx)\<lparr>conn_t := T_buf d, rcvd := rcvd (conn_of sd cx) @ d, rdstate := c_done, result := nread, reading := False\<rparr>"
    have l: "length d = nat nread" using assms(3) 1 by (simp split: if_splits)
    have rd: "rdstate (conn_of sd cx) = c_busy" using assms 1 by (cases sd) (auto simp: defs)
    have "on_event w ev cx = do_next w (set_conn sd ?c cx)"
      using rd 1 by (cases sd) (simp_all add: conn_alloc_def conn_read_done_def conn_sel Let_def)
    then show ?thesis using assms 1 rd l
      by (intro exI [of _ "set_conn sd ?c cx"]) (cases sd; auto simp: defs)
  next
    case 2
    let ?c = "(conn_of sd cx)\<lparr>writing := None, wrstate := c_done, result := status\<rparr>"
    have wr: "wrstate (conn_of sd cx) = c_busy" using assms 2 by (cases sd) (auto simp: defs)
    have "on_event w ev cx = do_next w (set_conn sd ?c cx)"
      using wr 2 assms(3) by (cases sd) (auto simp: conn_write_done_def conn_sel)
    then show ?thesis using assms 2 wr
      by (intro exI [of _ "set_conn sd ?c cx"]) (cases sd; auto simp: defs)
  next
    case 3
    let ?c = "(conn_of sd cx)\<lparr>conn_timer := None, result := UV_ETIMEDOUT\<rparr>"
    have "on_event w ev cx = do_next w (set_conn sd ?c cx)"
      using 3 by (cases sd) (simp_all add: conn_timer_expire_def conn_sel)
    then show ?thesis using assms 3
      by (intro exI [of _ "set_conn sd ?c cx"]) (cases sd; auto simp: defs)
  qed
qed

lemma proxy_next:
  assumes "proxy_entry cx0" "do_next w cx0 = Some cx'" "sess cx' = s_proxy"
  shows "rcvd (incoming cx') = rcvd (incoming cx0) \<and> rcvd (outgoing cx') = rcvd (outgoing cx0) \<and>
     sent (outgoing cx') = sent (outgoing cx0) @ to_forward (incoming cx0) \<and>
     sent (incoming cx') = sent (incoming cx0) @ to_forward (outgoing cx0)"
proof -
  have sp: "sess cx0 = s_proxy" using assms(1) by (simp add: proxy_entry_def)
  then obtain st c where c: "do_proxy cx0 = Some (st, c)" "cx' = (if st = s_dead then c\<lparr>sess := st, freed := True\<rparr> else c\<lparr>sess := st\<rparr>)"
    using assms(2) by (auto simp: do_next_def bind_eq_Some_conv Let_def)
  then have st: "st = s_proxy" using assms(3) by (auto split: if_splits)
  then have "0 \<le> result (incoming cx0)" "0 \<le> result (outgoing cx0)"
    using do_proxy_failed [OF assms(1)] c(1) by (fastforce simp: not_le)+
  then show ?thesis using do_proxy_ok [OF assms(1)] c st by fastforce
qed

lemma proxying_forwards:
  assumes "proxying w cx cx'" "session w tmo cx" "is_inet (getsockname w)"
  shows "\<exists>xs ys. rcvd (incoming cx') = rcvd (incoming cx) @ xs \<and> sent (outgoing cx') = sent (outgoing cx) @ xs \<and>
     rcvd (outgoing cx') = rcvd (outgoing cx) @ ys \<and> sent (incoming cx') = sent (incoming cx) @ ys"
  using assms
proof (induction rule: proxying.induct)
  case (step cx cx1 ev cx2)
  have "sess_inv True cx1"
    using session_inv [OF proxying_session [OF step.hyps(1) step.prems(1)] world_ok_leaky [OF step.prems(2)]] .
  then obtain cx0 where 0: "on_event w ev cx1 = do_next w cx0" "proxy_entry cx0"
     "sent (incoming cx0) = sent (incoming cx1)" "sent (outgoing cx0) = sent (outgoing cx1)"
     "rcvd (incoming cx0) = rcvd (incoming cx1) @ to_forward (incoming cx0)"
     "rcvd (outgoing cx0) = rcvd (outgoing cx1) @ to_forward (outgoing cx0)"
    using proxy_event proxying_ends [OF step.hyps(1)] step.hyps(2,3) by blast
  have "do_next w cx0 = Some cx2" using 0(1) step.hyps(4) by simp
  from proxy_next [OF 0(2) this step.hyps(5)] step.IH [OF step.prems] 0(3-6) show ?case by auto
qed simp

section \<open>Properties\<close>





text \<open>C13: while data is proxied nothing is lost, duplicated or reordered, in either direction: over any
  stretch of callbacks, what is written to one peer is what has been read from the other.  And the
  buffer of a connection is never read into while the other one is still writing it.\<close>

theorem proxy_forwards:
  assumes "session w tmo cx" and "is_inet (getsockname w)" and "proxying w cx cx'"
  shows "(\<exists>xs ys. rcvd (incoming cx') = rcvd (incoming cx) @ xs \<and> sent (outgoing cx') = sent (outgoing cx) @ xs \<and>
       rcvd (outgoing cx') = rcvd (outgoing cx) @ ys \<and> sent (incoming cx') = sent (incoming cx) @ ys) \<and>
     (reading (incoming cx') \<longleftrightarrow> writing (outgoing cx') = None) \<and>
     (reading (outgoing cx') \<longleftrightarrow> writing (incoming cx') = None)"
proof -
  have "sess_inv True cx'"
    using session_inv [OF proxying_session [OF assms(3,1)] world_ok_leaky [OF assms(2)]] .
  then have "(reading (incoming cx') \<longleftrightarrow> writing (outgoing cx') = None) \<and> (reading (outgoing cx') \<longleftrightarrow> writing (incoming cx') = None)"
    using proxying_ends [OF assms(3)] by (auto simp: sess_inv_def conn_at_def half_duplex_def Let_def)
  then show ?thesis using proxying_forwards [OF assms(3,1,2)] by blast
qed


text \<open>An idle timeout while the proxy waits for the client, in the handshake or for a request, or
  writes the reply, does not close the connection but fails an assertion: the state functions
  expect the end of the read or the write, which is still in progress.\<close>

theorem timeout_aborts:
  assumes "session w tmo cx" and "is_inet (getsockname w)"
    and "sess cx \<in> {s_handshake, s_req_start, s_req_parse, s_proxy_start}"
  shows "on_event w (Timer_expire Incoming status) cx = None"
proof -
  have "sess_inv True cx" using session_inv [OF assms(1) world_ok_leaky [OF assms(2)]] .
  then show ?thesis using assms(3)
    by (auto simp: conn_timer_expire_def do_next_def conn_sel sess_inv_def conn_at_def Let_def
        do_handshake_def do_req_start_def do_req_parse_def do_proxy_start_def)
qed

fun run_events :: "world \<Rightarrow> event list \<Rightarrow> client_ctx \<Rightarrow> client_ctx option" where
  "run_events w [] cx = Some cx"
| "run_events w (ev # evs) cx =
     (if enabled ev cx then Option.bind (on_event w ev cx) (run_events w evs) else None)"

definition closes :: "event list" where
  "closes = [Handle_closed Incoming, Timer_closed Incoming, Handle_closed Outgoing, Timer_closed Outgoing]"

text \<open>C30: a timeout while a name is looked up leads to a use after free: the session is torn down
  without waiting for the lookup (only a session killed in the lookup state does), and it is freed
  while the resolver still holds the request inside of it.\<close>

theorem lookup_timeout_frees_early:
  assumes "session w tmo cx" and "is_inet (getsockname w)" and "sess cx = s_req_lookup"
    and "conn_timer (outgoing cx) \<noteq> None"
  shows "\<exists>cx'. run_events w (Timer_expire Outgoing 0 # Write_done Incoming 0 # closes) cx = Some cx' \<and>
     freed cx' \<and> looking_up cx'"
proof -
  have "sess_inv True cx" using session_inv [OF assms(1) world_ok_leaky [OF assms(2)]] .
  then have i: "looking_up cx" "\<not> connecting cx" "conn_at c_stop c_stop (incoming cx)" "conn_at c_stop c_stop (outgoing cx)" "\<not> freed cx"
    using assms(3) by (simp_all add: sess_inv_def Let_def)
  define c1 where "c1 = cx\<lparr>outgoing := (outgoing cx)\<lparr>conn_timer := None, result := UV_ETIMEDOUT\<rparr>,
      incoming := conn_timer_reset ((incoming cx)\<lparr>wrstate := c_busy, writing := Some [5, 4, 0, 1, 0, 0, 0, 0, 0, 0],
        sent := sent (incoming cx) @ [5, 4, 0, 1, 0, 0, 0, 0, 0, 0]\<rparr>), sess := s_kill\<rparr>"
  have 1: "on_event w (Timer_expire Outgoing 0) cx = Some c1"
    using i assms(3)
    by (simp add: conn_timer_expire_def do_next_def conn_sel conn_at_def Let_def do_req_lookup_def idle_conn_def
        write_incoming_def conn_write_def c1_def)
  have 2: "\<exists>c2. on_event w (Write_done Incoming 0) c1 = Some c2 \<and> sess c2 = s_almost_dead_1 \<and> looking_up c2 \<and> \<not> connecting c2 \<and>
      handle_closing (incoming c2) \<and> timer_closing (incoming c2) \<and> handle_closing (outgoing c2) \<and> timer_closing (outgoing c2) \<and>
      writing (incoming c2) = None \<and> writing (outgoing c2) = None"
    using i by (simp add: conn_write_done_def do_next_def conn_sel conn_at_def Let_def do_kill_def conn_close_def
        conn_timer_reset_def c1_def)
  then obtain c2 where c2: "on_event w (Write_done Incoming 0) c1 = Some c2" "sess c2 = s_almost_dead_1" "looking_up c2" "\<not> connecting c2"
      "handle_closing (incoming c2)" "timer_closing (incoming c2)" "handle_closing (outgoing c2)" "timer_closing (outgoing c2)"
      "writing (incoming c2) = None" "writing (outgoing c2) = None" by blast
  have e: "enabled (Timer_expire Outgoing 0) cx" "enabled (Write_done Incoming 0) c1"
    using assms(4) i(3) by (simp_all add: conn_of_def c1_def conn_at_def conn_timer_reset_def)
  have "\<exists>cx'. run_events w closes c2 = Some cx' \<and> freed cx' \<and> looking_up cx'"
    using c2(2-) by (simp add: closes_def conn_close_done_def conn_sel do_next_late sess_states_def Let_def)
  then show ?thesis using e 1 c2(1) by simp
qed

text \<open>When the connection to an address that was looked up fails at once, the session is never
  freed: it waits for the end of a lookup that has already ended.\<close>

theorem lookup_connect_error_leaks:
  assumes "session w tmo cx" and "is_inet (getsockname w)" and "sess cx = s_req_lookup"
    and "can_access cx (Sa_in a)" and "\<forall>b. tcp_connect w b < 0"
  shows "\<exists>cx'. run_events w (Lookup_done 0 (Sa_in a) # closes) cx = Some cx' \<and>
     \<not> freed cx' \<and> (\<forall>ev. \<not> enabled ev cx')"
proof -
  have "sess_inv True cx" using session_inv [OF assms(1) world_ok_leaky [OF assms(2)]] .
  then have i: "looking_up cx" "\<not> connecting cx" "conn_at c_stop c_stop (incoming cx)" "conn_at c_stop c_stop (outgoing cx)" "\<not> freed cx"
    using assms(3) by (simp_all add: sess_inv_def Let_def)
  have err: "tcp_connect w b \<noteq> 0" for b using assms(5) by (metis less_irrefl)
  have acc: "can_access cx1 (Sa_in (a\<lparr>sin_port := p\<rparr>))" for cx1 p using assms(4) by (simp add: can_access_def)
  have "\<exists>c2. on_event w (Lookup_done 0 (Sa_in a)) cx = Some c2 \<and> sess c2 = s_almost_dead_0 \<and> \<not> looking_up c2 \<and> \<not> connecting c2 \<and> \<not> freed c2 \<and>
      handle_closing (incoming c2) \<and> timer_closing (incoming c2) \<and> handle_closing (outgoing c2) \<and> timer_closing (outgoing c2) \<and>
      writing (incoming c2) = None \<and> writing (outgoing c2) = None \<and> conn_timer (incoming c2) = None \<and> conn_timer (outgoing c2) = None \<and>
      \<not> reading (incoming c2) \<and> \<not> reading (outgoing c2)"
    using i err acc assms(3)
    by (simp add: conn_getaddrinfo_done_def do_next_def conn_sel conn_at_def Let_def do_req_lookup_def idle_conn_def
        do_req_connect_start_def conn_connect_def do_kill_def conn_close_def conn_timer_reset_def)
  then obtain c2 where c2: "on_event w (Lookup_done 0 (Sa_in a)) cx = Some c2" "sess c2 = s_almost_dead_0" "\<not> looking_up c2"
      "\<not> connecting c2" "\<not> freed c2"
      "handle_closing (incoming c2)" "timer_closing (incoming c2)" "handle_closing (outgoing c2)" "timer_closing (outgoing c2)"
      "writing (incoming c2) = None" "writing (outgoing c2) = None" "conn_timer (incoming c2) = None" "conn_timer (outgoing c2) = None"
      "\<not> reading (incoming c2)" "\<not> reading (outgoing c2)" by blast
  have "\<exists>cx'. run_events w closes c2 = Some cx' \<and> \<not> freed cx' \<and> finalizers cx' = 0 \<and> \<not> connecting cx' \<and>
      (\<forall>sd. \<not> reading (conn_of sd cx') \<and> writing (conn_of sd cx') = None \<and> conn_timer (conn_of sd cx') = None)"
    using c2(2-)
    by (simp add: closes_def conn_close_done_def conn_sel do_next_late sess_states_def Let_def finalizers_def split: side.splits)
  then obtain cx' where cx': "run_events w closes c2 = Some cx'" "\<not> freed cx'" "finalizers cx' = 0" "\<not> connecting cx'"
      "\<forall>sd. \<not> reading (conn_of sd cx') \<and> writing (conn_of sd cx') = None \<and> conn_timer (conn_of sd cx') = None" by blast
  have "\<not> enabled ev cx'" for ev
    using cx'(3-5) by (cases ev) (auto simp: finalizers_def conn_of_def split: if_splits side.splits)
  then show ?thesis using cx'(1,2) c2(1) i(1) by auto
qed


section \<open>Concrete sessions\<close>

definition sample_world :: world where
  "sample_world = \<lparr>tcp_connect = (\<lambda>_. 0), getsockname = Sa_in \<lparr>sin_port = 80, sin_addr = [10, 0, 0, 1]\<rparr>\<rparr>"

definition refusing_world :: world where
  "refusing_world = sample_world\<lparr>tcp_connect := \<lambda>_. - 101\<rparr>"

lemma sample_world_inet [simp]: "is_inet (getsockname sample_world)" "is_inet (getsockname refusing_world)"
    "tcp_connect sample_world = (\<lambda>_. 0)" "tcp_connect refusing_world = (\<lambda>_. - 101)"
    "getsockname sample_world = Sa_in \<lparr>sin_port = 80, sin_addr = [10, 0, 0, 1]\<rparr>"
  by (simp_all add: sample_world_def refusing_world_def)

fun no_timer :: "event \<Rightarrow> bool" where
  "no_timer (Timer_expire _ _) = False"
| "no_timer _ = True"

lemma session_run:
  "session w tmo cx \<Longrightarrow> run_events w evs cx = Some cx' \<Longrightarrow> list_all no_timer evs \<Longrightarrow> session w tmo cx'"
proof (induction evs arbitrary: cx)
  case (Cons ev evs)
  then obtain cx1 where 1: "enabled ev cx" "on_event w ev cx = Some cx1" "run_events w evs cx1 = Some cx'"
    by (auto simp: bind_eq_Some_conv split: if_splits)
  have "quiet ev cx" using Cons.prems(3) by (cases ev) auto
  then have "session w tmo cx1" using session.event [OF Cons.prems(1) 1(1) _ 1(2)] by blast
  then show ?case using Cons.IH [OF _ 1(3)] Cons.prems(3) by simp
qed simp

definition sample_init :: client_ctx where
  "sample_init = \<lparr>sess = s_handshake, parser = s5_init,
     incoming = (new_conn 1000)\<lparr>reading := True, rdstate := c_busy, conn_timer := Some 1000\<rparr>,
     outgoing = new_conn 1000, looking_up = False, connecting = False, freed = False\<rparr>"

lemma sample_init_session: "session w 1000 sample_init"
  by (rule session.start) (simp add: sample_init_def client_finish_init_def conn_ops new_conn_def)

lemmas run_defs = sample_init_def new_conn_def conn_alloc_def conn_read_done_def conn_write_done_def conn_connect_done_def
  conn_getaddrinfo_done_def conn_close_done_def conn_timer_expire_def do_next_def conn_sel Let_def
  do_handshake_def do_req_start_def do_req_parse_def do_req_lookup_def do_req_connect_start_def do_req_connect_def
  do_proxy_start_def do_proxy_def do_kill_def conn_cycle_def conn_ops conn_buf_def conn_getaddrinfo_def conn_connect_def
  conn_close_def s5_init_def s5_byte_def s5_select_auth_def s5_auth_methods_def can_auth_none_def copy_byte_def put_byte_def

definition to_lookup :: "event list" where
  "to_lookup = [Read_done Incoming 3 [5, 1, 0], Write_done Incoming 0, Read_done Incoming 8 [5, 1, 0, 3, 1, 97, 0, 80]]"

lemma sample_lookup:
  "\<exists>cx. run_events w to_lookup sample_init = Some cx \<and> sess cx = s_req_lookup \<and> conn_timer (outgoing cx) \<noteq> None \<and> enabled (Lookup_done (- 1) Sa_other) cx"
  by (simp add: to_lookup_def run_defs)


definition to_proxy :: "event list" where
  "to_proxy = [Read_done Incoming 3 [5, 1, 0], Write_done Incoming 0,
     Read_done Incoming 10 [5, 1, 0, 1, 10, 0, 0, 2, 0, 80], Connect_done 0, Write_done Incoming 0]"

lemma sample_access: "can_access cx (Sa_in \<lparr>sin_port = p, sin_addr = [10, 0, 0, 2]\<rparr>)"
  by (simp add: can_access_def be32_def Let_def)

lemma sample_take: "take 4 ((replicate 257 (0 :: u8))[0 := 10, Suc 0 := 0, 2 := 0, 3 := x]) = [10, 0, 0, x]"
  by (simp add: take_update_swap eval_nat_numeral del: replicate_Suc) (simp add: eval_nat_numeral)

lemma sample_proxy:
  "\<exists>cx. run_events sample_world to_proxy sample_init = Some cx \<and> sess cx = s_proxy \<and>
     (\<exists>cx'. on_event sample_world (Read_done Incoming 2 [1, 2]) cx = Some cx' \<and> sess cx' = s_proxy) \<and>
     enabled (Read_done Incoming 2 [1, 2]) cx"
  by (simp add: to_proxy_def run_defs sample_take sample_access)


lemma sample_torn:
  "\<exists>cx. run_events sample_world [Read_done Incoming (- 104) []] sample_init = Some cx \<and> 9 \<le> sess_ix (sess cx) \<and>
     enabled (Handle_closed Incoming) cx"
  "\<exists>cx. run_events sample_world (Read_done Incoming (- 104) [] # closes) sample_init = Some cx \<and> freed cx"
  by (simp_all add: closes_def run_defs do_almost_dead_def sess_states_def)



theorem proxy_forwards_witness:
  "\<exists>cx cx'. run_events sample_world to_proxy sample_init = Some cx \<and> proxying sample_world cx cx' \<and>
     on_event sample_world (Read_done Incoming 2 [1, 2]) cx = Some cx' \<and>
     (\<exists>xs. rcvd (incoming cx') = rcvd (incoming cx) @ xs \<and> sent (outgoing cx') = sent (outgoing cx) @ xs)"
proof -
  obtain cx cx' where cx: "run_events sample_world to_proxy sample_init = Some cx" "sess cx = s_proxy"
      "on_event sample_world (Read_done Incoming 2 [1, 2]) cx = Some cx'" "sess cx' = s_proxy"
      "enabled (Read_done Incoming 2 [1, 2]) cx"
    using sample_proxy by blast
  have s: "session sample_world 1000 cx"
    by (rule session_run [OF sample_init_session cx(1)]) (simp add: to_proxy_def)
  have p: "proxying sample_world cx cx'"
    by (rule proxying.step [OF proxying.refl [OF cx(2)] cx(5) _ cx(3,4)]) simp
  from proxy_forwards [OF s _ p] cx(1,3) p show ?thesis by auto
qed

theorem timeout_aborts_witness:
  "enabled (Timer_expire Incoming 0) sample_init \<and> on_event sample_world (Timer_expire Incoming 0) sample_init = None"
  using timeout_aborts [OF sample_init_session, of sample_world 0] by (simp add: sample_init_def conn_of_def)

lemma sample_lookup_session:
  "\<exists>cx. session w 1000 cx \<and> run_events w to_lookup sample_init = Some cx \<and> sess cx = s_req_lookup \<and> conn_timer (outgoing cx) \<noteq> None"
proof -
  obtain cx where cx: "run_events w to_lookup sample_init = Some cx" "sess cx = s_req_lookup" "conn_timer (outgoing cx) \<noteq> None"
    using sample_lookup by blast
  have "session w 1000 cx" by (rule session_run [OF sample_init_session cx(1)]) (simp add: to_lookup_def)
  then show ?thesis using cx by blast
qed

theorem lookup_timeout_frees_early_witness:
  "\<exists>cx cx'. run_events sample_world to_lookup sample_init = Some cx \<and>
     run_events sample_world (Timer_expire Outgoing 0 # Write_done Incoming 0 # closes) cx = Some cx' \<and>
     freed cx' \<and> looking_up cx'"
proof -
  obtain cx where cx: "session sample_world 1000 cx" "run_events sample_world to_lookup sample_init = Some cx"
      "sess cx = s_req_lookup" "conn_timer (outgoing cx) \<noteq> None"
    using sample_lookup_session by blast
  show ?thesis using lookup_timeout_frees_early [OF cx(1) _ cx(3,4)] cx(2) by auto
qed

theorem lookup_connect_error_leaks_witness:
  "\<exists>cx cx'. run_events refusing_world to_lookup sample_init = Some cx \<and>
     run_events refusing_world (Lookup_done 0 (Sa_in \<lparr>sin_port = 0, sin_addr = [10, 0, 0, 2]\<rparr>) # closes) cx = Some cx' \<and>
     \<not> freed cx' \<and> (\<forall>ev. \<not> enabled ev cx')"
proof -
  obtain cx where cx: "session refusing_world 1000 cx" "run_events refusing_world to_lookup sample_init = Some cx"
      "sess cx = s_req_lookup"
    using sample_lookup_session by blast
  show ?thesis using lookup_connect_error_leaks [OF cx(1) _ cx(3) sample_access] cx(2) by auto
qed

section \<open>The access checks\<close>

lemma bit_u8: "bit (x :: u8) n \<Longrightarrow> n < 8"
  by (auto dest: bit_imp_le_length)

text \<open>The four bytes of the word.\<close>

lemma be32_bytes:
  "(ucast (drop_bit 24 (be32 p i)) :: u8) = p ! (4 * i)"
  "(ucast (drop_bit 16 (be32 p i)) :: u8) = p ! (4 * i + 1)"
  "(ucast (drop_bit 8 (be32 p i)) :: u8) = p ! (4 * i + 2)"
  "(ucast (be32 p i) :: u8) = p ! (4 * i + 3)"
  by (rule bit_word_eqI, auto simp: be32_def bit_simps dest: bit_u8)+

lemma be32_eq:
  "be32 p i = be32 q j \<longleftrightarrow>
   p ! (4 * i) = q ! (4 * j) \<and> p ! (4 * i + 1) = q ! (4 * j + 1) \<and> p ! (4 * i + 2) = q ! (4 * j + 2) \<and>
   p ! (4 * i + 3) = q ! (4 * j + 3)"
  by (metis be32_bytes be32_def)

lemma be32_top: "drop_bit 24 (be32 p i) = ucast (p ! (4 * i))"
  by (rule bit_word_eqI) (auto simp: be32_def bit_simps dest: bit_u8)

lemma be32_top_127: "drop_bit 24 (be32 p i) = 0x7F \<longleftrightarrow> p ! (4 * i) = 127"
proof -
  have "(ucast (p ! (4 * i)) :: u32) = ucast (127 :: u8) \<longleftrightarrow> p ! (4 * i) = 127"
    by (metis unat_ucast_u8 word_unat_eq_iff)
  then show ?thesis by (simp add: be32_top)
qed

text \<open>The access check refuses exactly the addresses of the local host: 127.x.y.z, ::1 and
  ::ffff:127.x.y.z.\<close>

theorem can_access_refuses_loopback:
  assumes "length (sin6_addr a6) = 16"
  shows "(can_access cx (Sa_in a) \<longleftrightarrow> sin_addr a ! 0 \<noteq> 127) \<and>
     (can_access cx (Sa_in6 a6) \<longleftrightarrow> sin6_addr a6 \<noteq> replicate 15 0 @ [1] \<and>
        \<not> (take 12 (sin6_addr a6) = replicate 10 0 @ [255, 255] \<and> sin6_addr a6 ! 12 = 127))"
proof -
  obtain b0 b1 b2 b3 b4 b5 b6 b7 b8 b9 b10 b11 b12 b13 b14 b15 where
    b: "sin6_addr a6 = [b0, b1, b2, b3, b4, b5, b6, b7, b8, b9, b10, b11, b12, b13, b14, b15]"
    using assms by (auto simp: eval_nat_numeral length_Suc_conv)
  have c: "be32 [0, 0, 0, 0] 0 = 0" "be32 [0, 0, 0, 1] 0 = 1" "be32 [0, 0, 255, 255] 0 = 0xFFFF"
    by (simp_all add: be32_def)
  have v: "be32 p i = 0 \<longleftrightarrow> p ! (4 * i) = 0 \<and> p ! (4 * i + 1) = 0 \<and> p ! (4 * i + 2) = 0 \<and> p ! (4 * i + 3) = 0"
      "be32 p i = 1 \<longleftrightarrow> p ! (4 * i) = 0 \<and> p ! (4 * i + 1) = 0 \<and> p ! (4 * i + 2) = 0 \<and> p ! (4 * i + 3) = 1"
      "be32 p i = 0xFFFF \<longleftrightarrow> p ! (4 * i) = 0 \<and> p ! (4 * i + 1) = 0 \<and> p ! (4 * i + 2) = 255 \<and> p ! (4 * i + 3) = 255" for p i
    using be32_eq [of p i "[0, 0, 0, 0]" 0] be32_eq [of p i "[0, 0, 0, 1]" 0] be32_eq [of p i "[0, 0, 255, 255]" 0]
    unfolding c by simp_all
  have "can_access cx (Sa_in6 a6) \<longleftrightarrow> sin6_addr a6 \<noteq> replicate 15 0 @ [1] \<and>
        \<not> (take 12 (sin6_addr a6) = replicate 10 0 @ [255, 255] \<and> sin6_addr a6 ! 12 = 127)"
    unfolding can_access_def sockaddr.case Let_def v be32_top_127 b by (simp add: eval_nat_numeral)
  then show ?thesis by (simp add: can_access_def be32_top_127 Let_def)
qed

theorem can_access_refuses_loopback_witness:
  "\<not> can_access sample_init (Sa_in6 \<lparr>sin6_port = 0, sin6_addr = replicate 15 0 @ [1], sin6_scope_id = 0\<rparr>)"
  using can_access_refuses_loopback [of "\<lparr>sin6_port = 0, sin6_addr = replicate 15 0 @ [1], sin6_scope_id = 0\<rparr>"] by simp

end
