(* ===== verification/Stream.thy ===== *)
theory Stream
  imports IoWatcher "HOL-Library.Monad_Syntax" "HOL-Library.Multiset"
begin

text \<open>
  Streams, \<open>src/src/libuv/src/unix/stream.c\<close> (the parts for platforms other than Apple's): opening,
  the write queue, reading, accepting, passing descriptors, shutting down, connecting and closing.
  A stream is one record; its I/O watcher is the mask \<open>st_events\<close> of events it asks for
  (\<open>pevents\<close>) and the flag \<open>st_fed\<close> (it is in the queue of pending watchers); the active bit of the
  handle is \<open>st_active\<close>.  The intrusive queues are lists of request addresses (\<open>Queue\<close>).  What
  the system calls return is part of the state: lists of results, taken in order.  A failed
  assertion, or a loop that does not end, is \<open>None\<close>.
\<close>

abbreviation UV_EAGAIN :: int where "UV_EAGAIN \<equiv> - 11"
abbreviation UV_EINTR :: int where "UV_EINTR \<equiv> - 4"
abbreviation UV_ENOMEM :: int where "UV_ENOMEM \<equiv> - 12"
abbreviation UV_EBADF :: int where "UV_EBADF \<equiv> - 9"
abbreviation UV_EBUSY :: int where "UV_EBUSY \<equiv> - 16"
abbreviation UV_EMFILE :: int where "UV_EMFILE \<equiv> - 24"
abbreviation UV_ENFILE :: int where "UV_ENFILE \<equiv> - 23"
abbreviation UV_ECONNABORTED :: int where "UV_ECONNABORTED \<equiv> - 103"
abbreviation UV_ENOBUFS :: int where "UV_ENOBUFS \<equiv> - 105"
abbreviation UV_ENOTCONN :: int where "UV_ENOTCONN \<equiv> - 107"
abbreviation UV_EINPROGRESS :: int where "UV_EINPROGRESS \<equiv> - 115"
abbreviation STREAM_ECANCELED :: int where "STREAM_ECANCELED \<equiv> - 125"
abbreviation STREAM_EOF :: int where "STREAM_EOF \<equiv> - 4095"
abbreviation UV_TCP_NODELAY :: u32 where "UV_TCP_NODELAY \<equiv> 0x400"
abbreviation UV_TCP_KEEPALIVE :: u32 where "UV_TCP_KEEPALIVE \<equiv> 0x800"

section \<open>Data\<close>

text \<open>A write request: its buffers (\<open>bufs\<close>; each is the bytes from \<open>base\<close> on), the index of the first
  that is not finished, the error, and the descriptor of the handle to send along.\<close>

record wreq =
  w_bufs :: "u8 list list option"
  w_index :: nat
  w_error :: int
  w_send :: "int option"

text \<open>The calls of the user's callbacks, with their status.\<close>

datatype scall =
  Write_cb addr int | Connect_cb addr int | Shutdown_cb addr int | Read_cb int "u8 list" | Connection_cb int

datatype cmsg = Scm_rights "int list" | Other_cmsg

text \<open>What a \<open>read\<close> finds: an error number, or the data that has arrived (none at the end of the
  stream) with the ancillary messages.\<close>

datatype rd = Rd_err nat | Rd_data "u8 list" "cmsg list"

record ustream =
  st_type :: handle_type
  st_ipc :: bool
  st_flags :: u32
  st_fd :: int
  st_events :: u32
  st_fed :: bool
  st_active :: bool
  connect_req :: ptr
  shutdown_req :: ptr
  delayed_error :: int
  accepted_fd :: int
  queued_fds :: "(nat \<times> int list) option"
  has_read_cb :: bool
  has_alloc_cb :: bool
  write_queue :: "addr list"
  write_completed :: "addr list"
  write_queue_size :: nat
  wreqs :: "addr \<Rightarrow> wreq"
  st_reqs :: "addr list"
  emfile_fd :: int
  iovmax :: nat
  wr_results :: "int list"
  rd_results :: "rd list"
  acc_results :: "int list"
  open_results :: "int list"
  alloc_results :: "bool list"
  opt_error :: int
  so_error :: int
  shut_error :: int
  wire :: "u8 list"
  sent_fds :: "int list"
  closed_fds :: "int list"
  calls :: "scall list"

type_synonym user = "scall \<Rightarrow> ustream \<Rightarrow> ustream"

section \<open>The services of the loop\<close>

definition st_has :: "ustream \<Rightarrow> u32 \<Rightarrow> bool" where
  "st_has s m \<longleftrightarrow> has_flag (st_flags s) m"

definition st_set :: "u32 \<Rightarrow> ustream \<Rightarrow> ustream" where
  "st_set m s = s\<lparr>st_flags := add_flag (st_flags s) m\<rparr>"

definition st_clear :: "u32 \<Rightarrow> ustream \<Rightarrow> ustream" where
  "st_clear m s = s\<lparr>st_flags := clear_flag (st_flags s) m\<rparr>"

definition io_start :: "u32 \<Rightarrow> ustream \<Rightarrow> ustream" where
  "io_start m s = s\<lparr>st_events := add_flag (st_events s) m\<rparr>"

definition io_stop :: "u32 \<Rightarrow> ustream \<Rightarrow> ustream" where
  "io_stop m s = s\<lparr>st_events := clear_flag (st_events s) m\<rparr>"

definition io_active :: "u32 \<Rightarrow> ustream \<Rightarrow> bool" where
  "io_active m s \<longleftrightarrow> has_flag (st_events s) m"

definition io_close :: "ustream \<Rightarrow> ustream" where
  "io_close s = s\<lparr>st_events := clear_flag (st_events s) (POLLIN OR POLLOUT OR UV__POLLRDHUP), st_fed := False\<rparr>"

definition req_register :: "addr \<Rightarrow> ustream \<Rightarrow> ustream" where
  "req_register r s = s\<lparr>st_reqs := st_reqs s @ [r]\<rparr>"

definition req_unregister :: "addr \<Rightarrow> ustream \<Rightarrow> ustream option" where
  "req_unregister r s = (if st_reqs s \<noteq> [] then Some (s\<lparr>st_reqs := removeAll r (st_reqs s)\<rparr>) else None)"

definition uv__close :: "int \<Rightarrow> ustream \<Rightarrow> ustream" where
  "uv__close fd s = s\<lparr>closed_fds := closed_fds s @ [fd]\<rparr>"

text \<open>A callback of the user, which may do anything to the stream.\<close>

definition call :: "user \<Rightarrow> scall \<Rightarrow> ustream \<Rightarrow> ustream" where
  "call u c s = u c (s\<lparr>calls := calls s @ [c]\<rparr>)"

definition next_alloc :: "ustream \<Rightarrow> bool \<times> ustream" where
  "next_alloc s = (case alloc_results s of [] \<Rightarrow> (True, s) | b # bs \<Rightarrow> (b, s\<lparr>alloc_results := bs\<rparr>))"

definition uv__open_cloexec :: "ustream \<Rightarrow> int \<times> ustream" where
  "uv__open_cloexec s =
     (case open_results s of [] \<Rightarrow> (UV_EMFILE, s) | r # rs \<Rightarrow> (r, s\<lparr>open_results := rs\<rparr>))"

definition uv__accept :: "ustream \<Rightarrow> int \<times> ustream" where
  "uv__accept s =
     (case acc_results s of [] \<Rightarrow> (UV_EAGAIN, s) | r # rs \<Rightarrow> (r, s\<lparr>acc_results := rs\<rparr>))"

section \<open>Opening\<close>

definition uv__stream_init :: "handle_type \<Rightarrow> ustream \<Rightarrow> ustream" where
  "uv__stream_init ty s =
     (let s = s\<lparr>st_type := ty, st_flags := UV__HANDLE_REF, st_active := False, has_read_cb := False, has_alloc_cb := False,
                connect_req := None, shutdown_req := None, accepted_fd := - 1, queued_fds := None,
                delayed_error := 0, write_queue := [], write_completed := [], write_queue_size := 0\<rparr>;
          s = (if emfile_fd s = - 1 then
                 (let (err, s) = uv__open_cloexec s;
                      (err, s) = (if err < 0 then uv__open_cloexec s else (err, s))
                  in if err \<ge> 0 then s\<lparr>emfile_fd := err\<rparr> else s)
               else s)
      in s\<lparr>st_fd := - 1, st_events := 0, st_fed := False\<rparr>)"

text \<open>\<open>opt_error\<close> is what \<open>setsockopt\<close> reports, 0 if it succeeds.\<close>

definition uv__stream_open :: "int \<Rightarrow> u32 \<Rightarrow> ustream \<Rightarrow> (int \<times> ustream) option" where
  "uv__stream_open fd fl s =
     (if \<not> (st_fd s = - 1 \<or> st_fd s = fd) then Some (UV_EBUSY, s)
      else do {
        ASSERT (fd \<ge> 0);
        let s = st_set fl s;
        if st_type s = UV_TCP \<and> st_has s UV_TCP_NODELAY \<and> opt_error s \<noteq> 0 then Some (opt_error s, s)
        else if st_type s = UV_TCP \<and> st_has s UV_TCP_KEEPALIVE \<and> opt_error s \<noteq> 0 then Some (opt_error s, s)
        else Some (0, s\<lparr>st_fd := fd\<rparr>) })"

section \<open>Writing\<close>

definition upd_req :: "addr \<Rightarrow> (wreq \<Rightarrow> wreq) \<Rightarrow> ustream \<Rightarrow> ustream" where
  "upd_req r f s = s\<lparr>wreqs := (wreqs s)(r := f (wreqs s r))\<rparr>"

definition queue_remove :: "addr \<Rightarrow> ustream \<Rightarrow> ustream" where
  "queue_remove r s = s\<lparr>write_queue := removeAll r (write_queue s), write_completed := removeAll r (write_completed s)\<rparr>"

definition uv__count_bufs :: "u8 list list \<Rightarrow> nat" where
  "uv__count_bufs bufs = (\<Sum>b \<leftarrow> bufs. length b)"

definition uv__write_req_size :: "addr \<Rightarrow> ustream \<Rightarrow> nat option" where
  "uv__write_req_size r s =
     (case w_bufs (wreqs s r) of
        None \<Rightarrow> None
      | Some bs \<Rightarrow>
          (let size = uv__count_bufs (drop (w_index (wreqs s r)) bs)
           in do { ASSERT (write_queue_size s \<ge> size); Some size }))"

definition uv__write_req_finish :: "addr \<Rightarrow> ustream \<Rightarrow> ustream" where
  "uv__write_req_finish r s =
     (let s = queue_remove r s;
          s = (if w_error (wreqs s r) = 0 then upd_req r (\<lambda>q. q\<lparr>w_bufs := None\<rparr>) s else s)
      in s\<lparr>write_completed := write_completed s @ [r], st_fed := True\<rparr>)"

text \<open>\<open>write\<close>, \<open>writev\<close> and \<open>sendmsg\<close>, called again after \<open>EINTR\<close>: the result, the results that are
  left.  The kernel takes a prefix of the data it is offered; an exhausted list stands for a full
  socket buffer.\<close>

fun os_write :: "int list \<Rightarrow> nat \<Rightarrow> int \<times> int list" where
  "os_write [] len = (UV_EAGAIN, [])"
| "os_write (n # ns) len =
     (if n = UV_EINTR then os_write ns len
      else if n < 0 then (n, ns) else (min n (int len), ns))"

text \<open>The loop after a successful write of \<open>n\<close> bytes: whether the request is finished.\<close>

function write_advance :: "nat \<Rightarrow> addr \<Rightarrow> ustream \<Rightarrow> (bool \<times> ustream) option" where
  "write_advance n r s =
     (case w_bufs (wreqs s r) of
        None \<Rightarrow> None
      | Some bs \<Rightarrow>
          (let i = w_index (wreqs s r) in
           if \<not> i < length bs then None
           else
             let len = length (bs ! i) in
             if n < len then
               Some (False, (upd_req r (\<lambda>q. q\<lparr>w_bufs := Some (bs[i := drop n (bs ! i)])\<rparr>) s)
                              \<lparr>write_queue_size := write_queue_size s - n\<rparr>)
             else
               let s = upd_req r (\<lambda>q. q\<lparr>w_index := i + 1\<rparr>) s in
               if \<not> write_queue_size s \<ge> len then None
               else
                 let s = s\<lparr>write_queue_size := write_queue_size s - len\<rparr> in
                 if i + 1 = length bs
                 then (if n - len = 0 then Some (True, uv__write_req_finish r s) else None)
                 else write_advance (n - len) r s))"
  by pat_completeness auto
termination
  by (relation "measure (\<lambda>(n, r, s). length (the (w_bufs (wreqs s r))) - w_index (wreqs s r))")
     (auto simp: upd_req_def)

declare write_advance.simps [simp del]

text \<open>One pass from the label \<open>start\<close>; \<open>Retry\<close> is a jump back to it.\<close>

datatype wstep = Finished ustream | Retry ustream

definition write_step :: "ustream \<Rightarrow> wstep option" where
  "write_step s =
     do { ASSERT (st_fd s \<ge> 0);
          case write_queue s of
            [] \<Rightarrow> Some (Finished s)
          | r # _ \<Rightarrow>
              (case w_bufs (wreqs s r) of
                 None \<Rightarrow> None
               | Some bs \<Rightarrow>
                   do { let iov = take (iovmax s) (drop (w_index (wreqs s r)) bs);
                        ASSERT (case w_send (wreqs s r) of None \<Rightarrow> True | Some fd \<Rightarrow> fd \<ge> 0);
                        let (n, rest) = os_write (wr_results s) (uv__count_bufs iov);
                        let s = s\<lparr>wr_results := rest\<rparr>;
                        if n < 0 then
                          (if n \<noteq> UV_EAGAIN then
                             (let s = uv__write_req_finish r (upd_req r (\<lambda>q. q\<lparr>w_error := n\<rparr>) s);
                                  s = io_stop POLLOUT s
                              in Some (Finished (if \<not> io_active POLLIN s then s\<lparr>st_active := False\<rparr> else s)))
                           else if st_has s UV_STREAM_BLOCKING then Some (Retry s)
                           else Some (Finished (io_start POLLOUT s)))
                        else
                          do { let s = s\<lparr>wire := wire s @ take (nat n) (concat iov),
                                         sent_fds := sent_fds s @ (case w_send (wreqs s r) of None \<Rightarrow> [] | Some fd \<Rightarrow> [fd])\<rparr>;
                               (finished, s) \<leftarrow> write_advance (nat n) r s;
                               if finished then Some (Finished s)
                               else if st_has s UV_STREAM_BLOCKING then Some (Retry s)
                               else Some (Finished (io_start POLLOUT s)) } }) }"

partial_function (option) uv__write :: "ustream \<Rightarrow> ustream option" where
  [code]: "uv__write s =
     (case write_step s of
        None \<Rightarrow> None
      | Some (Finished s') \<Rightarrow> Some s'
      | Some (Retry s') \<Rightarrow> uv__write s')"

partial_function (option) uv__write_callbacks :: "user \<Rightarrow> ustream \<Rightarrow> ustream option" where
  [code]: "uv__write_callbacks u s =
     (case write_completed s of
        [] \<Rightarrow> Some s
      | r # _ \<Rightarrow>
          Option.bind (req_unregister r (queue_remove r s)) (\<lambda>s.
          Option.bind
            (if w_bufs (wreqs s r) \<noteq> None then
               Option.bind (uv__write_req_size r s) (\<lambda>size.
                 Some (upd_req r (\<lambda>q. q\<lparr>w_bufs := None\<rparr>) (s\<lparr>write_queue_size := write_queue_size s - size\<rparr>)))
             else Some s) (\<lambda>s.
          uv__write_callbacks u (call u (Write_cb r (w_error (wreqs s r))) s))))"

definition uv_write2 :: "addr \<Rightarrow> u8 list list \<Rightarrow> int option \<Rightarrow> ustream \<Rightarrow> (int \<times> ustream) option" where
  "uv_write2 r bufs send_fd s =
     do { ASSERT (bufs \<noteq> []);
          ASSERT (st_type s = UV_TCP \<or> st_type s = UV_NAMED_PIPE \<or> st_type s = UV_TTY);
          if st_fd s < 0 then Some (UV_EBADF, s)
          else if send_fd \<noteq> None \<and> (st_type s \<noteq> UV_NAMED_PIPE \<or> \<not> st_ipc s) then Some (UV_EINVAL, s)
          else if send_fd \<noteq> None \<and> the send_fd < 0 then Some (UV_EBADF, s)
          else do {
            let empty_queue = (write_queue_size s = 0);
            let s = req_register r s;
            let s = upd_req r (\<lambda>q. q\<lparr>w_error := 0, w_send := send_fd\<rparr>) s;
            let (ok, s) = (if length bufs > 4 then next_alloc s else (True, s));
            if \<not> ok then Some (UV_ENOMEM, s)
            else do {
              let s = upd_req r (\<lambda>q. q\<lparr>w_bufs := Some bufs, w_index := 0\<rparr>) s;
              let s = s\<lparr>write_queue_size := write_queue_size s + uv__count_bufs bufs,
                        write_queue := write_queue s @ [r]\<rparr>;
              s \<leftarrow> (if connect_req s \<noteq> None then Some s
                    else if empty_queue then uv__write s
                    else do { ASSERT (\<not> st_has s UV_STREAM_BLOCKING); Some (io_start POLLOUT s) });
              Some (0, s) } } }"

definition uv_write :: "addr \<Rightarrow> u8 list list \<Rightarrow> ustream \<Rightarrow> (int \<times> ustream) option" where
  "uv_write r bufs s = uv_write2 r bufs None s"

text \<open>\<open>r\<close> is the address of the request on the stack.\<close>

definition uv_try_write :: "addr \<Rightarrow> u8 list list \<Rightarrow> ustream \<Rightarrow> (int \<times> ustream) option" where
  "uv_try_write r bufs s =
     (if connect_req s \<noteq> None \<or> write_queue_size s \<noteq> 0 then Some (UV_EAGAIN, s)
      else do {
        let has_pollout = io_active POLLOUT s;
        (res, s) \<leftarrow> uv_write r bufs s;
        if res \<noteq> 0 then Some (res, s)
        else do {
          req_size \<leftarrow> (if w_bufs (wreqs s r) \<noteq> None then uv__write_req_size r s else Some 0);
          let written = uv__count_bufs bufs - req_size;
          let s = s\<lparr>write_queue_size := write_queue_size s - req_size\<rparr>;
          s \<leftarrow> req_unregister r (queue_remove r s);
          let s = upd_req r (\<lambda>q. q\<lparr>w_bufs := None\<rparr>) s;
          let s = (if \<not> has_pollout then io_stop POLLOUT s else s);
          Some (if written = 0 \<and> req_size \<noteq> 0 then UV_EAGAIN else int written, s) } })"


section \<open>Shutting down, connecting, destroying\<close>

function uv__stream_flush_write_queue :: "int \<Rightarrow> ustream \<Rightarrow> ustream" where
  "uv__stream_flush_write_queue err s =
     (case write_queue s of
        [] \<Rightarrow> s
      | r # _ \<Rightarrow>
          let s = upd_req r (\<lambda>q. q\<lparr>w_error := err\<rparr>) (queue_remove r s)
          in uv__stream_flush_write_queue err (s\<lparr>write_completed := write_completed s @ [r]\<rparr>))"
  by pat_completeness auto
termination
  by (relation "measure (\<lambda>(err, s). length (write_queue s))")
     (auto simp: upd_req_def queue_remove_def length_removeAll_less le_imp_less_Suc)

declare uv__stream_flush_write_queue.simps [simp del]

definition uv__drain :: "user \<Rightarrow> ustream \<Rightarrow> ustream option" where
  "uv__drain u s =
     do { ASSERT (write_queue s = []);
          let s = io_stop POLLOUT s;
          if st_has s UV_STREAM_SHUTTING \<and> \<not> st_has s UV_CLOSING \<and> \<not> st_has s UV_STREAM_SHUT then
            do { req \<leftarrow> shutdown_req s;
                 s \<leftarrow> req_unregister req (st_clear UV_STREAM_SHUTTING (s\<lparr>shutdown_req := None\<rparr>));
                 let err = shut_error s;
                 let s = (if err = 0 then st_set UV_STREAM_SHUT s else s);
                 Some (call u (Shutdown_cb req err) s) }
          else Some s }"

definition uv_shutdown :: "addr \<Rightarrow> ustream \<Rightarrow> (int \<times> ustream) option" where
  "uv_shutdown req s =
     do { ASSERT (st_type s = UV_TCP \<or> st_type s = UV_NAMED_PIPE);
          if \<not> st_has s UV_STREAM_WRITABLE \<or> st_has s UV_STREAM_SHUT \<or> st_has s UV_STREAM_SHUTTING \<or>
             st_has s (UV_CLOSING OR UV_CLOSED)
          then Some (UV_ENOTCONN, s)
          else do { ASSERT (st_fd s \<ge> 0);
                    let s = (req_register req s)\<lparr>shutdown_req := Some req\<rparr>;
                    Some (0, io_start POLLOUT (st_set UV_STREAM_SHUTTING s)) } }"

text \<open>\<open>so_error\<close> is what \<open>getsockopt(SO_ERROR)\<close> reports.\<close>

definition uv__stream_connect :: "user \<Rightarrow> ustream \<Rightarrow> ustream option" where
  "uv__stream_connect u s =
     do { ASSERT (st_type s = UV_TCP \<or> st_type s = UV_NAMED_PIPE);
          req \<leftarrow> connect_req s;
          (err, s) \<leftarrow>
            (if delayed_error s \<noteq> 0 then Some (delayed_error s, s\<lparr>delayed_error := 0\<rparr>)
             else do { ASSERT (st_fd s \<ge> 0); Some (- so_error s, s) });
          if err = UV_EINPROGRESS then Some s
          else do {
            s \<leftarrow> req_unregister req (s\<lparr>connect_req := None\<rparr>);
            let s = (if err < 0 \<or> write_queue s = [] then io_stop POLLOUT s else s);
            let s = call u (Connect_cb req err) s;
            if st_fd s = - 1 then Some s
            else if err < 0 then uv__write_callbacks u (uv__stream_flush_write_queue STREAM_ECANCELED s)
            else Some s } }"

definition uv__stream_destroy :: "user \<Rightarrow> ustream \<Rightarrow> ustream option" where
  "uv__stream_destroy u s =
     do { ASSERT (\<not> io_active (POLLIN OR POLLOUT) s);
          ASSERT (st_has s UV_CLOSED);
          s \<leftarrow> (case connect_req s of
                 None \<Rightarrow> Some s
               | Some req \<Rightarrow>
                   do { s \<leftarrow> req_unregister req s;
                        Some ((call u (Connect_cb req STREAM_ECANCELED) s)\<lparr>connect_req := None\<rparr>) });
          s \<leftarrow> uv__write_callbacks u (uv__stream_flush_write_queue STREAM_ECANCELED s);
          s \<leftarrow> (case shutdown_req s of
                 None \<Rightarrow> Some s
               | Some req \<Rightarrow>
                   do { s \<leftarrow> req_unregister req s;
                        Some ((call u (Shutdown_cb req STREAM_ECANCELED) s)\<lparr>shutdown_req := None\<rparr>) });
          ASSERT (write_queue_size s = 0);
          Some s }"

section \<open>Reading\<close>

definition uv_read_start :: "ustream \<Rightarrow> (int \<times> ustream) option" where
  "uv_read_start s =
     do { ASSERT (st_type s = UV_TCP \<or> st_type s = UV_NAMED_PIPE \<or> st_type s = UV_TTY);
          if st_has s UV_CLOSING then Some (UV_EINVAL, s)
          else do { let s = st_set UV_STREAM_READING s;
                    ASSERT (st_fd s \<ge> 0);
                    Some (0, (io_start POLLIN (s\<lparr>has_read_cb := True, has_alloc_cb := True\<rparr>))\<lparr>st_active := True\<rparr>) } }"

text \<open>Stopping to poll for reading, as it occurs in several places.\<close>

definition stop_reading :: "ustream \<Rightarrow> ustream" where
  "stop_reading s =
     (let s = io_stop POLLIN s in if \<not> io_active POLLOUT s then s\<lparr>st_active := False\<rparr> else s)"

definition uv_read_stop :: "ustream \<Rightarrow> int \<times> ustream" where
  "uv_read_stop s =
     (if \<not> st_has s UV_STREAM_READING then (0, s)
      else (0, (stop_reading (st_clear UV_STREAM_READING s))\<lparr>has_read_cb := False, has_alloc_cb := False\<rparr>))"

definition uv__stream_eof :: "user \<Rightarrow> ustream \<Rightarrow> ustream" where
  "uv__stream_eof u s =
     st_clear UV_STREAM_READING (call u (Read_cb STREAM_EOF []) (stop_reading (st_set UV_STREAM_READ_EOF s)))"

definition uv__stream_queue_fd :: "int \<Rightarrow> ustream \<Rightarrow> int \<times> ustream" where
  "uv__stream_queue_fd fd s =
     (case queued_fds s of
        None \<Rightarrow>
          (let (ok, s) = next_alloc s
           in if \<not> ok then (UV_ENOMEM, s) else (0, s\<lparr>queued_fds := Some (8, [fd])\<rparr>))
      | Some (cap, fds) \<Rightarrow>
          (if cap = length fds then
             (let (ok, s) = next_alloc s
              in if \<not> ok then (UV_ENOMEM, s) else (0, s\<lparr>queued_fds := Some (cap + 8, fds @ [fd])\<rparr>))
           else (0, s\<lparr>queued_fds := Some (cap, fds @ [fd])\<rparr>)))"

fun recv_fds :: "int list \<Rightarrow> ustream \<Rightarrow> int \<times> ustream" where
  "recv_fds [] s = (0, s)"
| "recv_fds (fd # fds) s =
     (if accepted_fd s \<noteq> - 1 then
        (case uv__stream_queue_fd fd s of
           (err, s) \<Rightarrow> if err \<noteq> 0 then (err, fold uv__close (fd # fds) s) else recv_fds fds s)
      else recv_fds fds (s\<lparr>accepted_fd := fd\<rparr>))"

fun uv__stream_recv_cmsg :: "cmsg list \<Rightarrow> ustream \<Rightarrow> int \<times> ustream" where
  "uv__stream_recv_cmsg [] s = (0, s)"
| "uv__stream_recv_cmsg (Other_cmsg # cs) s = uv__stream_recv_cmsg cs s"
| "uv__stream_recv_cmsg (Scm_rights fds # cs) s =
     (case recv_fds fds s of (err, s) \<Rightarrow> if err \<noteq> 0 then (err, s) else uv__stream_recv_cmsg cs s)"

text \<open>\<open>read\<close> and \<open>recvmsg\<close>, called again after \<open>EINTR\<close>: the result, the bytes and the messages, and
  what is left to read.  An exhausted list stands for a socket with no data.\<close>

fun os_read :: "rd list \<Rightarrow> nat \<Rightarrow> (int \<times> u8 list \<times> cmsg list) \<times> rd list" where
  "os_read [] len = ((UV_EAGAIN, [], []), [])"
| "os_read (Rd_err e # rs) len = (if - int e = UV_EINTR then os_read rs len else ((- int e, [], []), rs))"
| "os_read (Rd_data d cs # rs) len =
     ((int (length (take len d)), take len d, cs), if length d \<le> len then rs else Rd_data (drop len d) [] # rs)"

text \<open>The loop of \<open>uv__read\<close>, the number being what is left of the 32 rounds; \<open>al\<close> is the size of the
  buffer that \<open>alloc_cb\<close> supplies, 0 for none.\<close>

fun uv__read_loop :: "user \<Rightarrow> (ustream \<Rightarrow> nat) \<Rightarrow> nat \<Rightarrow> ustream \<Rightarrow> ustream option" where
  "uv__read_loop u al 0 s = Some s"
| "uv__read_loop u al (Suc n) s =
     (if \<not> (has_read_cb s \<and> st_has s UV_STREAM_READING) then Some s
      else if \<not> has_alloc_cb s then None
      else
        let len = al s in
        if len = 0 then Some (call u (Read_cb UV_ENOBUFS []) s)
        else if \<not> st_fd s \<ge> 0 then None
        else
          (case os_read (rd_results s) len of
             ((nread, d, cs), rs) \<Rightarrow>
               let s = s\<lparr>rd_results := rs\<rparr> in
               if nread < 0 then
                 (if nread = UV_EAGAIN then
                    Some (call u (Read_cb 0 []) (if st_has s UV_STREAM_READING then io_start POLLIN s else s))
                  else
                    (let s = call u (Read_cb nread []) s
                     in Some (if st_has s UV_STREAM_READING then stop_reading (st_clear UV_STREAM_READING s) else s)))
               else if nread = 0 then Some (uv__stream_eof u s)
               else
                 (case (if st_type s = UV_NAMED_PIPE \<and> st_ipc s then uv__stream_recv_cmsg cs s else (0, s)) of
                    (err, s) \<Rightarrow>
                      if err \<noteq> 0 then Some (call u (Read_cb err []) s)
                      else
                        let s = call u (Read_cb nread d) s in
                        if nread < int len then Some (st_set UV_STREAM_READ_PARTIAL s)
                        else uv__read_loop u al n s)))"

definition uv__read :: "user \<Rightarrow> (ustream \<Rightarrow> nat) \<Rightarrow> ustream \<Rightarrow> ustream option" where
  "uv__read u al s = uv__read_loop u al 32 (st_clear UV_STREAM_READ_PARTIAL s)"

definition uv__stream_io :: "user \<Rightarrow> (ustream \<Rightarrow> nat) \<Rightarrow> u32 \<Rightarrow> ustream \<Rightarrow> ustream option" where
  "uv__stream_io u al events s =
     do { ASSERT (st_type s = UV_TCP \<or> st_type s = UV_NAMED_PIPE \<or> st_type s = UV_TTY);
          ASSERT (\<not> st_has s UV_CLOSING);
          if connect_req s \<noteq> None then uv__stream_connect u s
          else do {
            ASSERT (st_fd s \<ge> 0);
            s \<leftarrow> (if has_flag events (POLLIN OR POLLERR OR POLLHUP) then uv__read u al s else Some s);
            if st_fd s = - 1 then Some s
            else do {
              let s = (if has_flag events POLLHUP \<and> st_has s UV_STREAM_READING \<and> st_has s UV_STREAM_READ_PARTIAL \<and>
                          \<not> st_has s UV_STREAM_READ_EOF
                       then uv__stream_eof u s else s);
              if st_fd s = - 1 then Some s
              else if has_flag events (POLLOUT OR POLLERR OR POLLHUP) then
                do { s \<leftarrow> uv__write s;
                     s \<leftarrow> uv__write_callbacks u s;
                     if write_queue s = [] then uv__drain u s else Some s }
              else Some s } } }"

section \<open>Servers\<close>

fun emfile_accepts :: "int list \<Rightarrow> int \<times> int list \<times> int list" where
  "emfile_accepts [] = (UV_EAGAIN, [], [])"
| "emfile_accepts (r # rs) =
     (if r \<ge> 0 then (case emfile_accepts rs of (err, fds, rest) \<Rightarrow> (err, r # fds, rest))
      else if r = UV_EINTR then emfile_accepts rs
      else (r, [], rs))"

definition uv__emfile_trick :: "ustream \<Rightarrow> int \<times> ustream" where
  "uv__emfile_trick s =
     (if emfile_fd s = - 1 then (UV_EMFILE, s)
      else
        let s = (uv__close (emfile_fd s) s)\<lparr>emfile_fd := - 1\<rparr>;
            (err, fds, rest) = emfile_accepts (acc_results s);
            s = fold uv__close fds (s\<lparr>acc_results := rest\<rparr>);
            (fd, s) = uv__open_cloexec s
        in (err, if fd \<ge> 0 then s\<lparr>emfile_fd := fd\<rparr> else s))"

text \<open>The loop of \<open>uv__server_io\<close>.\<close>

partial_function (option) server_loop :: "user \<Rightarrow> ustream \<Rightarrow> ustream option" where
  [code]: "server_loop u s =
     (if st_fd s = - 1 then Some s
      else if accepted_fd s \<noteq> - 1 then None
      else
        case uv__accept s of
          (err, s) \<Rightarrow>
            if err < 0 then
              (if err = UV_EAGAIN then Some s
               else if err = UV_ECONNABORTED then server_loop u s
               else if err = UV_EMFILE \<or> err = UV_ENFILE then
                 (case uv__emfile_trick s of
                    (err, s) \<Rightarrow>
                      if err = UV_EAGAIN then Some s
                      else server_loop u (call u (Connection_cb err) s))
               else server_loop u (call u (Connection_cb err) s))
            else
              (let s = call u (Connection_cb 0) (s\<lparr>accepted_fd := err\<rparr>)
               in if accepted_fd s \<noteq> - 1 then Some (io_stop POLLIN s)
                  else server_loop u s))"

definition uv__server_io :: "user \<Rightarrow> u32 \<Rightarrow> ustream \<Rightarrow> ustream option" where
  "uv__server_io u events s =
     do { ASSERT (events = POLLIN);
          ASSERT (accepted_fd s = - 1);
          ASSERT (\<not> st_has s UV_CLOSING);
          server_loop u (io_start POLLIN s) }"

text \<open>\<open>udp_open\<close> is \<open>uv_udp_open\<close> on the client handle.\<close>

definition uv_accept :: "(int \<Rightarrow> int) \<Rightarrow> ustream \<Rightarrow> ustream \<Rightarrow> (int \<times> ustream \<times> ustream) option" where
  "uv_accept udp_open server client =
     (if accepted_fd server = - 1 then Some (UV_EAGAIN, server, client)
      else if st_type client \<noteq> UV_NAMED_PIPE \<and> st_type client \<noteq> UV_TCP \<and> st_type client \<noteq> UV_UDP
      then Some (UV_EINVAL, server, client)
      else do {
        (err, client) \<leftarrow>
          (if st_type client = UV_UDP then Some (udp_open (accepted_fd server), client)
           else uv__stream_open (accepted_fd server) (UV_STREAM_READABLE OR UV_STREAM_WRITABLE) client);
        let server = (if err \<noteq> 0 then uv__close (accepted_fd server) server else server);
        let client = (if err = 0 then st_set UV_HANDLE_BOUND client else client);
        case queued_fds server of
          Some (cap, fds) \<Rightarrow>
            do { ASSERT (length fds > 0);
                 Some (err, server\<lparr>accepted_fd := hd fds,
                                   queued_fds := (if length fds - 1 = 0 then None else Some (cap, tl fds))\<rparr>, client) }
        | None \<Rightarrow>
            (let server = server\<lparr>accepted_fd := - 1\<rparr>
             in Some (err, if err = 0 then io_start POLLIN server else server, client)) })"

text \<open>\<open>listen\<close> is \<open>uv_tcp_listen\<close> or \<open>uv_pipe_listen\<close>.\<close>

definition uv_listen :: "(ustream \<Rightarrow> int \<times> ustream) \<Rightarrow> ustream \<Rightarrow> int \<times> ustream" where
  "uv_listen listen s =
     (let (err, s) = (if st_type s = UV_TCP \<or> st_type s = UV_NAMED_PIPE then listen s else (UV_EINVAL, s))
      in (err, if err = 0 then s\<lparr>st_active := True\<rparr> else s))"

section \<open>Closing\<close>

definition uv__stream_close :: "ustream \<Rightarrow> ustream option" where
  "uv__stream_close s =
     (let s = io_close s;
          s = snd (uv_read_stop s);
          s = s\<lparr>st_active := False\<rparr>;
          s = (if st_fd s \<noteq> - 1 then (if st_fd s > 2 then uv__close (st_fd s) s else s)\<lparr>st_fd := - 1\<rparr> else s);
          s = (if accepted_fd s \<noteq> - 1 then (uv__close (accepted_fd s) s)\<lparr>accepted_fd := - 1\<rparr> else s);
          s = (case queued_fds s of
                 None \<Rightarrow> s
               | Some (cap, fds) \<Rightarrow> (fold uv__close fds s)\<lparr>queued_fds := None\<rparr>)
      in do { ASSERT (\<not> io_active (POLLIN OR POLLOUT) s); Some s })"

definition uv_is_readable :: "ustream \<Rightarrow> bool" where
  "uv_is_readable s = st_has s UV_STREAM_READABLE"

definition uv_is_writable :: "ustream \<Rightarrow> bool" where
  "uv_is_writable s = st_has s UV_STREAM_WRITABLE"

section \<open>The write queue\<close>

text \<open>What is left to write of a request, and of the queue.\<close>

definition rem_bytes :: "wreq \<Rightarrow> u8 list" where
  "rem_bytes q = (case w_bufs q of None \<Rightarrow> [] | Some bs \<Rightarrow> concat (drop (w_index q) bs))"

definition queued :: "ustream \<Rightarrow> u8 list" where
  "queued s = concat (map (\<lambda>r. rem_bytes (wreqs s r)) (write_queue s))"

definition outstanding :: "ustream \<Rightarrow> addr list" where
  "outstanding s = write_queue s @ write_completed s @
     (case connect_req s of None \<Rightarrow> [] | Some r \<Rightarrow> [r]) @ (case shutdown_req s of None \<Rightarrow> [] | Some r \<Rightarrow> [r])"

definition pending_ok :: "wreq \<Rightarrow> bool" where
  "pending_ok q \<longleftrightarrow> w_error q = 0 \<and> (\<exists>bs. w_bufs q = Some bs \<and> w_index q < length bs) \<and>
     (case w_send q of None \<Rightarrow> True | Some fd \<Rightarrow> fd \<ge> 0)"

definition stream_inv :: "ustream \<Rightarrow> bool" where
  "stream_inv s \<longleftrightarrow> distinct (outstanding s) \<and> set (outstanding s) \<subseteq> set (st_reqs s) \<and>
     (\<forall>r \<in> set (write_queue s). pending_ok (wreqs s r)) \<and>
     write_queue_size s = (\<Sum>r \<leftarrow> write_queue s @ write_completed s. length (rem_bytes (wreqs s r)))"

lemma count_bufs_concat: "uv__count_bufs bs = length (concat bs)"
  by (simp add: uv__count_bufs_def length_concat)

lemma sum_removeAll:
  "distinct xs \<Longrightarrow> x \<in> set xs \<Longrightarrow> (\<Sum>y \<leftarrow> removeAll x xs. f y) + f x = (\<Sum>y \<leftarrow> xs. f y :: nat)"
  by (induction xs) auto

lemma write_advance_ok:
  assumes "w_bufs (wreqs s r) = Some bs" "w_index (wreqs s r) < length bs"
    "n \<le> length (concat (drop (w_index (wreqs s r)) bs))" "length (concat (drop (w_index (wreqs s r)) bs)) \<le> write_queue_size s"
  shows "if n = length (concat (drop (w_index (wreqs s r)) bs))
     then write_advance n r s = Some (True, uv__write_req_finish r
       ((upd_req r (\<lambda>q. q\<lparr>w_index := length bs\<rparr>) s)\<lparr>write_queue_size := write_queue_size s - n\<rparr>))
     else \<exists>bs' i'. write_advance n r s = Some (False,
       (upd_req r (\<lambda>q. q\<lparr>w_bufs := Some bs', w_index := i'\<rparr>) s)\<lparr>write_queue_size := write_queue_size s - n\<rparr>) \<and>
       i' < length bs' \<and> concat (drop i' bs') = drop n (concat (drop (w_index (wreqs s r)) bs))"
  using assms
proof (induction n r s rule: write_advance.induct)
  case (1 n r s)
  let ?i = "w_index (wreqs s r)"
  let ?b = "bs ! ?i"
  have dr: "drop ?i bs = ?b # drop (?i + 1) bs" using 1(3) by (simp add: Cons_nth_drop_Suc)
  show ?case
  proof (cases "n < length ?b")
    case True
    have "write_advance n r s = Some (False, (upd_req r (\<lambda>q. q\<lparr>w_bufs := Some (bs[?i := drop n ?b]), w_index := ?i\<rparr>) s)
        \<lparr>write_queue_size := write_queue_size s - n\<rparr>)"
      using True 1(2,3) by (subst write_advance.simps) (simp add: Let_def upd_req_def)
    moreover have "concat (drop ?i (bs[?i := drop n ?b])) = drop n (concat (drop ?i bs))"
      using True 1(3) by (simp add: dr drop_update_cancel Cons_nth_drop_Suc [symmetric])
    moreover have "n \<noteq> length (concat (drop ?i bs))" using True dr by simp
    ultimately show ?thesis using 1(3) by (auto intro!: exI [of _ "bs[?i := drop n ?b]"] exI [of _ ?i])
  next
    case False
    define s0 where "s0 = upd_req r (\<lambda>q. q\<lparr>w_index := ?i + 1\<rparr>) s"
    define s1 where "s1 = s0\<lparr>write_queue_size := write_queue_size s0 - length ?b\<rparr>"
    have s1_eq: "s1 = (upd_req r (\<lambda>q. q\<lparr>w_index := ?i + 1\<rparr>) s)\<lparr>write_queue_size := write_queue_size s - length ?b\<rparr>"
      by (simp add: s1_def s0_def upd_req_def)
    have sz: "length ?b \<le> write_queue_size s" using 1(5) dr by simp
    have w1: "w_bufs (wreqs s1 r) = Some bs" "w_index (wreqs s1 r) = ?i + 1"
      using 1(2) by (simp_all add: s1_eq upd_req_def)
    show ?thesis
    proof (cases "?i + 1 = length bs")
      case True
      then have n: "n = length ?b" using False 1(4) dr by simp
      have "write_advance n r s = Some (True, uv__write_req_finish r s1)"
        using False 1(2,3) True sz n by (subst write_advance.simps) (simp add: Let_def upd_req_def s1_eq)
      then show ?thesis using True n dr by (simp add: s1_eq)
    next
      case more: False
      have step: "write_advance n r s = write_advance (n - length ?b) r s1"
        using False 1(2,3) more sz by (subst write_advance.simps) (simp add: Let_def upd_req_def s1_eq)
      have IH: "if n - length ?b = length (concat (drop (w_index (wreqs s1 r)) bs))
         then write_advance (n - length ?b) r s1 = Some (True, uv__write_req_finish r
           ((upd_req r (\<lambda>q. q\<lparr>w_index := length bs\<rparr>) s1)\<lparr>write_queue_size := write_queue_size s1 - (n - length ?b)\<rparr>))
         else \<exists>bs' i'. write_advance (n - length ?b) r s1 = Some (False,
           (upd_req r (\<lambda>q. q\<lparr>w_bufs := Some bs', w_index := i'\<rparr>) s1)\<lparr>write_queue_size := write_queue_size s1 - (n - length ?b)\<rparr>) \<and>
           i' < length bs' \<and> concat (drop i' bs') = drop (n - length ?b) (concat (drop (w_index (wreqs s1 r)) bs))"
      proof (rule 1(1) [OF 1(2) refl _ refl False s0_def _ s1_def more])
        show "\<not> \<not> ?i < length bs" "\<not> \<not> length ?b \<le> write_queue_size s0"
          using 1(3) sz by (simp_all add: s0_def upd_req_def)
        show "w_bufs (wreqs s1 r) = Some bs" by (rule w1(1))
        show "w_index (wreqs s1 r) < length bs" using w1(2) 1(3) more by simp
        show "n - length ?b \<le> length (concat (drop (w_index (wreqs s1 r)) bs))"
          using 1(4) dr w1(2) by simp
        show "length (concat (drop (w_index (wreqs s1 r)) bs)) \<le> write_queue_size s1"
          using 1(5) dr w1(2) by (simp add: s1_eq)
      qed
      have u: "upd_req r f s1 = (upd_req r (\<lambda>q. f (q\<lparr>w_index := ?i + 1\<rparr>)) s)\<lparr>write_queue_size := write_queue_size s - length ?b\<rparr>" for f
        by (simp add: s1_eq upd_req_def)
      have d: "write_queue_size s1 - (n - length ?b) = write_queue_size s - n" using False by (simp add: s1_eq)
      have dn: "drop (n - length ?b) (concat (drop (?i + 1) bs)) = drop n (concat (drop ?i bs))"
        using False dr by simp
      have ln: "n - length ?b = length (concat (drop (?i + 1) bs)) \<longleftrightarrow> n = length (concat (drop ?i bs))"
        using False dr by auto
      have e: "(\<lambda>q. q\<lparr>w_index := a, w_bufs := b, w_index := c\<rparr>) = (\<lambda>q. q\<lparr>w_bufs := b, w_index := c\<rparr>)"
        "(\<lambda>q. q\<lparr>w_index := a, w_index := c\<rparr>) = (\<lambda>q. q\<lparr>w_index := c\<rparr>)"
        "s\<lparr>write_queue_size := a', write_queue_size := c'\<rparr> = s\<lparr>write_queue_size := c'\<rparr>" for a b c a' c' and s :: ustream by simp_all
      show ?thesis
        using IH unfolding w1 step u d dn ln e ustream.update_convs by (simp only: if_cancel e ustream.simps split: if_split)
    qed
  qed
qed


text \<open>What \<open>uv__write\<close> leaves alone.\<close>

definition wframe :: "ustream \<Rightarrow> ustream \<Rightarrow> bool" where
  "wframe s s' \<longleftrightarrow> st_type s' = st_type s \<and> st_ipc s' = st_ipc s \<and> st_flags s' = st_flags s \<and> st_fd s' = st_fd s \<and>
     connect_req s' = connect_req s \<and> shutdown_req s' = shutdown_req s \<and> delayed_error s' = delayed_error s \<and>
     accepted_fd s' = accepted_fd s \<and> queued_fds s' = queued_fds s \<and> has_read_cb s' = has_read_cb s \<and>
     has_alloc_cb s' = has_alloc_cb s \<and> st_reqs s' = st_reqs s \<and> calls s' = calls s \<and> closed_fds s' = closed_fds s \<and>
     shut_error s' = shut_error s \<and> (io_active POLLIN s' \<longleftrightarrow> io_active POLLIN s)"

lemma wframe_refl [simp]: "wframe s s" by (simp add: wframe_def)
lemma wframe_trans: "wframe a b \<Longrightarrow> wframe b c \<Longrightarrow> wframe a c" by (simp add: wframe_def)

text \<open>The three ways a pass can end for the request at the head of the queue.\<close>

definition write_done :: "addr \<Rightarrow> ustream \<Rightarrow> ustream \<Rightarrow> bool" where
  "write_done r s s' \<longleftrightarrow> write_queue s = r # write_queue s' \<and> write_completed s' = write_completed s @ [r] \<and>
     w_error (wreqs s' r) = 0 \<and> rem_bytes (wreqs s' r) = [] \<and> (\<forall>q. q \<noteq> r \<longrightarrow> wreqs s' q = wreqs s q) \<and>
     wire s' = wire s @ rem_bytes (wreqs s r) \<and>
     write_queue_size s' = write_queue_size s - length (rem_bytes (wreqs s r)) \<and> st_fed s'"

definition write_failed :: "addr \<Rightarrow> int \<Rightarrow> ustream \<Rightarrow> ustream \<Rightarrow> bool" where
  "write_failed r e s s' \<longleftrightarrow> write_queue s = r # write_queue s' \<and> write_completed s' = write_completed s @ [r] \<and>
     w_error (wreqs s' r) = e \<and> e < 0 \<and> rem_bytes (wreqs s' r) = rem_bytes (wreqs s r) \<and>
     (\<forall>q. q \<noteq> r \<longrightarrow> wreqs s' q = wreqs s q) \<and>
     wire s' = wire s \<and> write_queue_size s' = write_queue_size s \<and> st_fed s'"

definition write_part :: "addr \<Rightarrow> ustream \<Rightarrow> ustream \<Rightarrow> bool" where
  "write_part r s s' \<longleftrightarrow> write_queue s' = write_queue s \<and> (\<exists>rs. write_queue s = r # rs) \<and>
     write_completed s' = write_completed s \<and> pending_ok (wreqs s' r) \<and> (\<forall>q. q \<noteq> r \<longrightarrow> wreqs s' q = wreqs s q) \<and>
     (\<exists>xs. rem_bytes (wreqs s r) = xs @ rem_bytes (wreqs s' r) \<and> wire s' = wire s @ xs \<and>
        write_queue_size s' = write_queue_size s - length xs) \<and> st_fed s' = st_fed s"

lemma os_write_range: "os_write ns len = (n, rest) \<Longrightarrow> n \<le> int len \<and> n \<noteq> UV_EINTR"
  by (induction ns len rule: os_write.induct) (auto split: if_splits)

lemma io_flags [simp]:
  "io_active POLLIN (io_start POLLOUT s) \<longleftrightarrow> io_active POLLIN s"
  "io_active POLLIN (io_stop POLLOUT s) \<longleftrightarrow> io_active POLLIN s"
  "io_active m (s\<lparr>st_active := b\<rparr>) \<longleftrightarrow> io_active m s"
  "io_active POLLOUT (io_start POLLOUT s)" "\<not> io_active POLLOUT (io_stop POLLOUT s)"
  by (simp_all add: io_active_def io_start_def io_stop_def)

lemma finish_ok:
  assumes "write_queue s = r # rs" "r \<notin> set rs" "r \<notin> set (write_completed s)"
  shows "uv__write_req_finish r s =
     (if w_error (wreqs s r) = 0 then upd_req r (\<lambda>q. q\<lparr>w_bufs := None\<rparr>) s else s)
       \<lparr>write_queue := rs, write_completed := write_completed s @ [r], st_fed := True\<rparr>"
  using assms by (simp add: uv__write_req_finish_def queue_remove_def upd_req_def Let_def)

lemma stream_inv_head:
  assumes "stream_inv s" "write_queue s = r # rs"
  shows "r \<notin> set rs \<and> r \<notin> set (write_completed s) \<and> pending_ok (wreqs s r) \<and>
     length (rem_bytes (wreqs s r)) \<le> write_queue_size s"
  using assms by (simp add: stream_inv_def outstanding_def)

lemma write_step_ok:
  assumes inv: "stream_inv s" and fd: "st_fd s \<ge> 0" and wq: "write_queue s = r # rs"
  shows "\<exists>s'. wframe s s' \<and>
     ((write_step s = Some (Finished s') \<and>
        (write_done r s s' \<or> (\<exists>e. write_failed r e s s') \<or>
         (write_part r s s' \<and> \<not> st_has s UV_STREAM_BLOCKING \<and> io_active POLLOUT s'))) \<or>
      (write_step s = Some (Retry s') \<and> write_part r s s' \<and> st_has s UV_STREAM_BLOCKING))"
proof -
  note h = stream_inv_head [OF inv wq]
  obtain bs where bs: "w_bufs (wreqs s r) = Some bs" "w_index (wreqs s r) < length bs" "w_error (wreqs s r) = 0"
    using h by (auto simp: pending_ok_def)
  have send: "case w_send (wreqs s r) of None \<Rightarrow> True | Some fd \<Rightarrow> fd \<ge> 0" using h by (simp add: pending_ok_def)
  let ?i = "w_index (wreqs s r)"
  let ?iov = "take (iovmax s) (drop ?i bs)"
  have rb: "rem_bytes (wreqs s r) = concat (drop ?i bs)" using bs by (simp add: rem_bytes_def)
  obtain n rest where os: "os_write (wr_results s) (uv__count_bufs ?iov) = (n, rest)" by fastforce
  have nle: "n \<le> int (length (concat ?iov))" using os_write_range [OF os] by (simp add: count_bufs_concat)
  define s1 where "s1 = s\<lparr>wr_results := rest\<rparr>"
  show ?thesis
  proof (cases "n < 0")
    case True
    show ?thesis
    proof (cases "n = UV_EAGAIN")
      case True
      have part: "write_part r s s1" "wframe s s1" "write_part r s (io_start POLLOUT s1)" "wframe s (io_start POLLOUT s1)"
        using wq h by (simp_all add: write_part_def wframe_def s1_def io_start_def io_active_def)
      have "write_step s = Some (if st_has s UV_STREAM_BLOCKING then Retry s1 else Finished (io_start POLLOUT s1))"
        using fd wq bs send os True
        by (simp add: write_step_def Let_def s1_def st_has_def split: option.splits)
      then show ?thesis using part by (cases "st_has s UV_STREAM_BLOCKING") auto
    next
      case False
      define s2 where "s2 = io_stop POLLOUT (uv__write_req_finish r (upd_req r (\<lambda>q. q\<lparr>w_error := n\<rparr>) s1))"
      define s3 where "s3 = (if \<not> io_active POLLIN s2 then s2\<lparr>st_active := False\<rparr> else s2)"
      have f: "uv__write_req_finish r (upd_req r (\<lambda>q. q\<lparr>w_error := n\<rparr>) s1) =
          (upd_req r (\<lambda>q. q\<lparr>w_error := n\<rparr>) s1)\<lparr>write_queue := rs, write_completed := write_completed s @ [r], st_fed := True\<rparr>"
        using finish_ok [of "upd_req r (\<lambda>q. q\<lparr>w_error := n\<rparr>) s1" r rs] wq h \<open>n < 0\<close> by (simp add: s1_def upd_req_def)
      note s2 = s2_def [unfolded f]
      have "write_step s = Some (Finished s3)"
        using fd wq bs send os \<open>n < 0\<close> False
        by (simp add: write_step_def Let_def s1_def s2_def s3_def split: option.splits)
      moreover have "write_failed r n s s3" "wframe s s3"
        using wq \<open>n < 0\<close>
        by (auto simp: s3_def s2 write_failed_def wframe_def io_stop_def s1_def upd_req_def rem_bytes_def io_active_def
            split: option.splits)
      ultimately show ?thesis by blast
    qed
  next
    case False
    define k where "k = nat n"
    have k: "k \<le> length (concat ?iov)" "n = int k" using nle False by (auto simp: k_def)
    have app: "concat (drop ?i bs) = concat ?iov @ concat (drop (iovmax s) (drop ?i bs))"
      by (metis append_take_drop_id concat_append)
    have tk: "take k (concat ?iov) = take k (rem_bytes (wreqs s r))" "k \<le> length (rem_bytes (wreqs s r))"
      using k(1) unfolding rb app by simp_all
    define s2 where "s2 = s1\<lparr>wire := wire s @ take k (rem_bytes (wreqs s r)),
        sent_fds := sent_fds s @ (case w_send (wreqs s r) of None \<Rightarrow> [] | Some fd \<Rightarrow> [fd])\<rparr>"
    have adv: "if k = length (rem_bytes (wreqs s r))
       then write_advance k r s2 = Some (True, uv__write_req_finish r
         ((upd_req r (\<lambda>q. q\<lparr>w_index := length bs\<rparr>) s2)\<lparr>write_queue_size := write_queue_size s2 - k\<rparr>))
       else \<exists>bs' i'. write_advance k r s2 = Some (False,
         (upd_req r (\<lambda>q. q\<lparr>w_bufs := Some bs', w_index := i'\<rparr>) s2)\<lparr>write_queue_size := write_queue_size s2 - k\<rparr>) \<and>
         i' < length bs' \<and> concat (drop i' bs') = drop k (rem_bytes (wreqs s r))"
    proof -
      have sel: "wreqs s2 = wreqs s" "write_queue_size s2 = write_queue_size s" by (simp_all add: s2_def s1_def)
      show ?thesis
        using write_advance_ok [of s2 r bs k, unfolded sel, OF bs(1,2)] h tk(2) unfolding rb sel by blast
    qed
    have ws: "write_step s = Option.bind (write_advance k r s2) (\<lambda>(fin, s). if fin then Some (Finished s)
         else if st_has s UV_STREAM_BLOCKING then Some (Retry s) else Some (Finished (io_start POLLOUT s)))"
      using fd wq bs(1) send os False tk(1)
      by (simp add: write_step_def Let_def s1_def s2_def k_def split: option.splits)
    show ?thesis
    proof (cases "k = length (rem_bytes (wreqs s r))")
      case True
      define s3 where "s3 = (upd_req r (\<lambda>q. q\<lparr>w_index := length bs\<rparr>) s2)\<lparr>write_queue_size := write_queue_size s2 - k\<rparr>"
      have f: "uv__write_req_finish r s3 =
          (upd_req r (\<lambda>q. q\<lparr>w_bufs := None\<rparr>) s3)\<lparr>write_queue := rs, write_completed := write_completed s @ [r], st_fed := True\<rparr>"
        using finish_ok [of s3 r rs] wq h bs(3) by (simp add: s3_def s2_def s1_def upd_req_def)
      have "write_step s = Some (Finished (uv__write_req_finish r s3))"
        using adv True unfolding ws s3_def by (simp only: if_True) simp
      moreover have "write_done r s (uv__write_req_finish r s3)" "wframe s (uv__write_req_finish r s3)"
        using wq True bs(3)
        unfolding f by (auto simp: write_done_def wframe_def s3_def s2_def s1_def upd_req_def rem_bytes_def io_active_def)
      ultimately show ?thesis by blast
    next
      case neq: False
      then obtain bs' i' where b': "write_advance k r s2 = Some (False,
         (upd_req r (\<lambda>q. q\<lparr>w_bufs := Some bs', w_index := i'\<rparr>) s2)\<lparr>write_queue_size := write_queue_size s2 - k\<rparr>)"
         "i' < length bs'" "concat (drop i' bs') = drop k (rem_bytes (wreqs s r))"
        using adv by auto
      define s3 where "s3 = (upd_req r (\<lambda>q. q\<lparr>w_bufs := Some bs', w_index := i'\<rparr>) s2)\<lparr>write_queue_size := write_queue_size s2 - k\<rparr>"
      have part: "write_part r s s3" "write_part r s (io_start POLLOUT s3)"
        using wq h b'(2,3) tk(2)
        by (auto simp: write_part_def s3_def s2_def s1_def upd_req_def io_start_def pending_ok_def rem_bytes_def bs
            intro!: exI [of _ "take k (concat (drop ?i bs))"])
      have fr: "wframe s s3" "wframe s (io_start POLLOUT s3)"
        by (simp_all add: wframe_def s3_def s2_def s1_def upd_req_def io_start_def io_active_def)
      have "write_step s = Some (if st_has s UV_STREAM_BLOCKING then Retry s3 else Finished (io_start POLLOUT s3))"
        using b'(1) unfolding ws s3_def [symmetric] by (simp add: s3_def s2_def s1_def upd_req_def st_has_def)
      then show ?thesis using part fr by (cases "st_has s UV_STREAM_BLOCKING") auto
    qed
  qed
qed


text \<open>The three outcomes keep the invariant and the order of the data.\<close>

lemma sum_list_cong': "(\<And>x. x \<in> set xs \<Longrightarrow> f x = g x) \<Longrightarrow> (\<Sum>x \<leftarrow> xs. f x) = (\<Sum>x \<leftarrow> xs. g x)"
  by (metis map_eq_conv)

lemma outstanding_frame:
  assumes "wframe s s'" "mset (write_queue s' @ write_completed s') = mset (write_queue s @ write_completed s)"
  shows "mset (outstanding s') = mset (outstanding s)"
  using assms by (simp add: outstanding_def wframe_def)

lemma outstanding_inv:
  assumes "mset (outstanding s') = mset (outstanding s)" "st_reqs s' = st_reqs s"
  shows "distinct (outstanding s') \<and> set (outstanding s') \<subseteq> set (st_reqs s') \<longleftrightarrow>
     distinct (outstanding s) \<and> set (outstanding s) \<subseteq> set (st_reqs s)"
  using assms by (metis mset_eq_imp_distinct_iff mset_eq_setD)

lemma write_done_inv:
  assumes "stream_inv s" "wframe s s'" "write_done r s s'"
  shows "stream_inv s' \<and> wire s' @ queued s' = wire s @ queued s"
proof -
  have d: "write_queue s = r # write_queue s'" "write_completed s' = write_completed s @ [r]"
      "rem_bytes (wreqs s' r) = []" "\<And>q. q \<noteq> r \<Longrightarrow> wreqs s' q = wreqs s q"
      "wire s' = wire s @ rem_bytes (wreqs s r)"
      "write_queue_size s' = write_queue_size s - length (rem_bytes (wreqs s r))"
    using assms(3) by (auto simp: write_done_def)
  have r: "r \<notin> set (write_queue s')" "r \<notin> set (write_completed s)" using stream_inv_head [OF assms(1) d(1)] by auto
  have e: "wreqs s' q = wreqs s q" if "q \<in> set (write_queue s') \<union> set (write_completed s)" for q
    using that r d(4) [of q] by auto
  have eq: "(\<Sum>q \<leftarrow> write_queue s'. length (rem_bytes (wreqs s' q))) = (\<Sum>q \<leftarrow> write_queue s'. length (rem_bytes (wreqs s q)))"
      "(\<Sum>q \<leftarrow> write_completed s. length (rem_bytes (wreqs s' q))) = (\<Sum>q \<leftarrow> write_completed s. length (rem_bytes (wreqs s q)))"
      "map (\<lambda>q. rem_bytes (wreqs s' q)) (write_queue s') = map (\<lambda>q. rem_bytes (wreqs s q)) (write_queue s')"
    using e by (auto intro!: sum_list_cong')
  have "mset (outstanding s') = mset (outstanding s)"
    using assms(2) d(1,2) by (intro outstanding_frame) simp_all
  moreover have "st_reqs s' = st_reqs s" using assms(2) by (simp add: wframe_def)
  moreover have "\<forall>q \<in> set (write_queue s'). pending_ok (wreqs s' q)"
    using assms(1) d(1) e unfolding stream_inv_def by simp
  ultimately have "stream_inv s'"
    using assms(1) d eq outstanding_inv [of s' s] by (simp add: stream_inv_def)
  then show ?thesis using d eq(3) by (simp add: queued_def cong: map_cong)
qed

lemma write_failed_inv:
  assumes "stream_inv s" "wframe s s'" "write_failed r e s s'"
  shows "stream_inv s' \<and> wire s' = wire s \<and> queued s = rem_bytes (wreqs s r) @ queued s'"
proof -
  have d: "write_queue s = r # write_queue s'" "write_completed s' = write_completed s @ [r]"
      "rem_bytes (wreqs s' r) = rem_bytes (wreqs s r)" "\<And>q. q \<noteq> r \<Longrightarrow> wreqs s' q = wreqs s q"
      "wire s' = wire s" "write_queue_size s' = write_queue_size s"
    using assms(3) by (auto simp: write_failed_def)
  have rb: "rem_bytes (wreqs s' q) = rem_bytes (wreqs s q)" for q using d(3,4) by (cases "q = r") auto
  have r: "r \<notin> set (write_queue s')" using stream_inv_head [OF assms(1) d(1)] by auto
  have "mset (outstanding s') = mset (outstanding s)"
    using assms(2) d(1,2) by (intro outstanding_frame) simp_all
  moreover have "st_reqs s' = st_reqs s" using assms(2) by (simp add: wframe_def)
  moreover have "\<forall>q \<in> set (write_queue s'). pending_ok (wreqs s' q)"
    using assms(1) d(1) d(4) r unfolding stream_inv_def by (metis list.set_intros(2))
  ultimately have "stream_inv s'"
    using assms(1) d(1,2,6) rb outstanding_inv [of s' s] by (simp add: stream_inv_def)
  then show ?thesis using d(1,5) rb by (simp add: queued_def)
qed

lemma write_part_inv:
  assumes "stream_inv s" "wframe s s'" "write_part r s s'"
  shows "stream_inv s' \<and> wire s' @ queued s' = wire s @ queued s"
proof -
  obtain rs xs where d: "write_queue s = r # rs" "write_queue s' = r # rs" "write_completed s' = write_completed s"
      "pending_ok (wreqs s' r)" "\<And>q. q \<noteq> r \<Longrightarrow> wreqs s' q = wreqs s q"
      "rem_bytes (wreqs s r) = xs @ rem_bytes (wreqs s' r)" "wire s' = wire s @ xs"
      "write_queue_size s' = write_queue_size s - length xs"
    using assms(3) by (auto simp: write_part_def)
  have r: "r \<notin> set rs" "r \<notin> set (write_completed s)" using stream_inv_head [OF assms(1) d(1)] by auto
  have e: "wreqs s' q = wreqs s q" if "q \<in> set rs \<union> set (write_completed s)" for q
    using that r d(5) [of q] by auto
  have eq: "(\<Sum>q \<leftarrow> rs. length (rem_bytes (wreqs s' q))) = (\<Sum>q \<leftarrow> rs. length (rem_bytes (wreqs s q)))"
      "(\<Sum>q \<leftarrow> write_completed s. length (rem_bytes (wreqs s' q))) = (\<Sum>q \<leftarrow> write_completed s. length (rem_bytes (wreqs s q)))"
      "map (\<lambda>q. rem_bytes (wreqs s' q)) rs = map (\<lambda>q. rem_bytes (wreqs s q)) rs"
    using e by (auto intro!: sum_list_cong')
  have "mset (outstanding s') = mset (outstanding s)"
    using assms(2) d(1-3) by (intro outstanding_frame) simp_all
  moreover have "st_reqs s' = st_reqs s" using assms(2) by (simp add: wframe_def)
  moreover have "\<forall>q \<in> set (write_queue s'). pending_ok (wreqs s' q)"
    using assms(1) d(1,2,4) e unfolding stream_inv_def by simp
  ultimately have "stream_inv s'"
    using assms(1) d eq outstanding_inv [of s' s] by (simp add: stream_inv_def)
  then show ?thesis using d eq(3) by (simp add: queued_def cong: map_cong)
qed

text \<open>The result of \<open>uv__write\<close>: the head request done, failed or left, after any number of passes on a
  blocking stream.\<close>

definition write_result :: "ustream \<Rightarrow> ustream \<Rightarrow> bool" where
  "write_result s s' \<longleftrightarrow> wframe s s' \<and> stream_inv s' \<and>
     (case write_queue s of
        [] \<Rightarrow> s' = s
      | r # rs \<Rightarrow>
          (write_queue s' = rs \<and> write_completed s' = write_completed s @ [r] \<and> st_fed s' \<and>
             (w_error (wreqs s' r) = 0 \<and> rem_bytes (wreqs s' r) = [] \<and> wire s' @ queued s' = wire s @ queued s \<or>
              w_error (wreqs s' r) < 0 \<and> wire s' @ rem_bytes (wreqs s' r) @ queued s' = wire s @ queued s)) \<or>
          (write_queue s' = write_queue s \<and> write_completed s' = write_completed s \<and>
             \<not> st_has s UV_STREAM_BLOCKING \<and> io_active POLLOUT s' \<and> wire s' @ queued s' = wire s @ queued s)) \<and>
     (\<forall>q. q \<notin> set (write_queue s) \<longrightarrow> wreqs s' q = wreqs s q) \<and> (\<exists>xs. wire s' = wire s @ xs)"

lemma write_result_step:
  assumes "stream_inv s" "write_queue s = r # rs" "wframe s s'"
    "write_done r s s' \<or> (\<exists>e. write_failed r e s s') \<or> (write_part r s s' \<and> \<not> st_has s UV_STREAM_BLOCKING \<and> io_active POLLOUT s')"
  shows "write_result s s'"
proof -
  note inv = write_done_inv [OF assms(1,3)] write_failed_inv [OF assms(1,3)] write_part_inv [OF assms(1,3)]
  show ?thesis using assms(4)
  proof (elim disjE exE)
    assume a: "write_done r s s'"
    then show ?thesis using inv(1) [OF a] assms(2,3) by (auto simp: write_result_def write_done_def)
  next
    fix e assume a: "write_failed r e s s'"
    then show ?thesis using inv(2) [OF a] assms(2,3) by (auto simp: write_result_def write_failed_def)
  next
    assume a: "write_part r s s' \<and> \<not> st_has s UV_STREAM_BLOCKING \<and> io_active POLLOUT s'"
    then show ?thesis using inv(3) [of r] assms(2,3) by (auto simp: write_result_def write_part_def)
  qed
qed

lemma write_result_retry:
  assumes "stream_inv s" "write_part r s s1" "wframe s s1" "st_has s UV_STREAM_BLOCKING" "write_result s1 s'"
  shows "write_result s s'"
proof -
  have 1: "stream_inv s1" "wire s1 @ queued s1 = wire s @ queued s" using write_part_inv [OF assms(1,3,2)] by auto
  obtain rs ys where q: "write_queue s = r # rs" "write_queue s1 = r # rs" "write_completed s1 = write_completed s"
      "\<And>q. q \<noteq> r \<Longrightarrow> wreqs s1 q = wreqs s q" "wire s1 = wire s @ ys"
    using assms(2) by (auto simp: write_part_def)
  have b: "st_has s1 UV_STREAM_BLOCKING" using assms(3,4) by (simp add: wframe_def st_has_def)
  have "wframe s s'" using assms(3,5) wframe_trans by (auto simp: write_result_def)
  then show ?thesis using assms(5) 1 q b by (auto simp: write_result_def)
qed

lemma uv__write_nil: "st_fd s \<ge> 0 \<Longrightarrow> write_queue s = [] \<Longrightarrow> uv__write s = Some s"
  by (subst uv__write.simps) (simp add: write_step_def)

lemma uv__write_result:
  assumes "uv__write s = Some s'" "stream_inv s" "st_fd s \<ge> 0"
  shows "write_result s s'"
proof -
  have "stream_inv s \<longrightarrow> st_fd s \<ge> 0 \<longrightarrow> write_result s s'"
  proof (rule uv__write.raw_induct [of "\<lambda>s s'. stream_inv s \<longrightarrow> st_fd s \<ge> 0 \<longrightarrow> write_result s s'", OF _ assms(1)], intro impI)
  fix uw s s'
  assume 1: "\<And>s s'. uw s = Some s' \<Longrightarrow> stream_inv s \<longrightarrow> 0 \<le> st_fd s \<longrightarrow> write_result s s'"
    "(case write_step s of None \<Rightarrow> None | Some (Finished s') \<Rightarrow> Some s' | Some (Retry s') \<Rightarrow> uw s') = Some s'"
    "stream_inv s" "0 \<le> st_fd s"
  show "write_result s s'"
  proof (cases "write_queue s")
    case Nil
    then have "s' = s" using 1(2,4) by (simp add: write_step_def split: if_splits)
    then show ?thesis using Nil 1(3) by (simp add: write_result_def)
  next
    case (Cons r rs)
    obtain s1 where s1: "wframe s s1"
      "(write_step s = Some (Finished s1) \<and> (write_done r s s1 \<or> (\<exists>e. write_failed r e s s1) \<or>
         (write_part r s s1 \<and> \<not> st_has s UV_STREAM_BLOCKING \<and> io_active POLLOUT s1))) \<or>
       (write_step s = Some (Retry s1) \<and> write_part r s s1 \<and> st_has s UV_STREAM_BLOCKING)"
      using write_step_ok [OF 1(3,4) Cons] by blast
    show ?thesis
    proof (cases "write_step s = Some (Retry s1)")
      case True
      then have u: "uw s1 = Some s'" "write_part r s s1" "st_has s UV_STREAM_BLOCKING" using 1(2) s1(2) by auto
      have "stream_inv s1" using write_part_inv [OF 1(3) s1(1) u(2)] by blast
      moreover have "st_fd s1 \<ge> 0" using s1(1) 1(4) by (simp add: wframe_def)
      ultimately have "write_result s1 s'" using 1(1) [OF u(1)] by blast
      then show ?thesis by (rule write_result_retry [OF 1(3) u(2) s1(1) u(3)])
    next
      case False
      then have "s' = s1" using 1(2) s1(2) by auto
      then show ?thesis using s1 False write_result_step [OF 1(3) Cons s1(1)] by blast
    qed
  qed
  qed
  then show ?thesis using assms(2,3) by blast
qed

lemma uv__write_total:
  assumes "stream_inv s" "st_fd s \<ge> 0" "\<not> st_has s UV_STREAM_BLOCKING"
  shows "\<exists>s'. uv__write s = Some s'"
proof (cases "write_queue s")
  case Nil
  then show ?thesis using uv__write_nil [OF assms(2)] by blast
next
  case (Cons r rs)
  then show ?thesis using write_step_ok [OF assms(1,2) Cons] assms(3) by (subst uv__write.simps) auto
qed

section \<open>Completing requests\<close>

text \<open>A callback of the user that leaves the stream in order and completes no request by itself; it may
  well queue further writes.\<close>

definition tame :: "user \<Rightarrow> bool" where
  "tame u \<longleftrightarrow> (\<forall>c s. stream_inv s \<longrightarrow> stream_inv (u c s) \<and> write_completed (u c s) = write_completed s \<and>
     calls (u c s) = calls s \<and> (\<forall>r \<in> set (write_completed s). wreqs (u c s) r = wreqs s r))"

text \<open>One that does not touch the requests at all.\<close>

definition hands_off :: "user \<Rightarrow> bool" where
  "hands_off u \<longleftrightarrow> (\<forall>c s. connect_req (u c s) = connect_req s \<and> shutdown_req (u c s) = shutdown_req s \<and>
     write_queue (u c s) = write_queue s \<and> write_completed (u c s) = write_completed s \<and>
     write_queue_size (u c s) = write_queue_size s \<and> wreqs (u c s) = wreqs s \<and>
     wire (u c s) = wire s \<and> st_reqs (u c s) = st_reqs s \<and> calls (u c s) = calls s)"

lemma hands_off_tame: "hands_off u \<Longrightarrow> tame u"
  by (simp add: hands_off_def tame_def stream_inv_def outstanding_def)

lemma inv_calls [simp]: "stream_inv (s\<lparr>calls := c\<rparr>) \<longleftrightarrow> stream_inv s"
  by (simp add: stream_inv_def outstanding_def)

lemma call_tame:
  assumes "tame u" "stream_inv s"
  shows "stream_inv (call u c s) \<and> write_completed (call u c s) = write_completed s \<and>
     calls (call u c s) = calls s @ [c] \<and> (\<forall>r \<in> set (write_completed s). wreqs (call u c s) r = wreqs s r)"
proof -
  have "stream_inv (s\<lparr>calls := calls s @ [c]\<rparr>)" using assms(2) by simp
  from assms(1) [unfolded tame_def, rule_format, of _ c, OF this] show ?thesis by (simp add: call_def)
qed

lemma call_hands_off:
  assumes "hands_off u"
  shows "connect_req (call u c s) = connect_req s \<and> shutdown_req (call u c s) = shutdown_req s \<and>
     write_queue (call u c s) = write_queue s \<and> write_queue_size (call u c s) = write_queue_size s \<and>
     write_completed (call u c s) = write_completed s \<and> calls (call u c s) = calls s @ [c] \<and>
     wreqs (call u c s) = wreqs s \<and> wire (call u c s) = wire s \<and> st_reqs (call u c s) = st_reqs s"
  using assms by (simp add: hands_off_def call_def)

text \<open>Popping a completed request.\<close>

definition pop_done :: "addr \<Rightarrow> ustream \<Rightarrow> ustream" where
  "pop_done r s = (upd_req r (\<lambda>q. q\<lparr>w_bufs := None\<rparr>) s)
     \<lparr>write_completed := tl (write_completed s), st_reqs := removeAll r (st_reqs s),
      write_queue_size := write_queue_size s - length (rem_bytes (wreqs s r))\<rparr>"

lemma pop_done_ok:
  assumes "stream_inv s" "write_completed s = r # rs"
  shows "uv__write_callbacks u s = uv__write_callbacks u (call u (Write_cb r (w_error (wreqs s r))) (pop_done r s)) \<and>
     stream_inv (pop_done r s)"
proof -
  have o: "distinct (outstanding s)" "set (outstanding s) \<subseteq> set (st_reqs s)" using assms(1) by (simp_all add: stream_inv_def)
  have r: "r \<notin> set (write_queue s)" "r \<notin> set rs" "r \<in> set (st_reqs s)" using o assms(2) by (auto simp: outstanding_def)
  have sz: "length (rem_bytes (wreqs s r)) \<le> write_queue_size s"
    using assms by (simp add: stream_inv_def)
  define s1 where "s1 = (queue_remove r s)\<lparr>st_reqs := removeAll r (st_reqs s)\<rparr>"
  have 1: "req_unregister r (queue_remove r s) = Some s1"
    using r(3) by (auto simp: req_unregister_def s1_def queue_remove_def)
  have q: "write_queue s1 = write_queue s" "write_completed s1 = rs" "wreqs s1 = wreqs s" "write_queue_size s1 = write_queue_size s"
    using r assms(2) by (simp_all add: s1_def queue_remove_def)
  have 2: "(if w_bufs (wreqs s1 r) \<noteq> None then
               Option.bind (uv__write_req_size r s1) (\<lambda>n.
                 Some (upd_req r (\<lambda>q. q\<lparr>w_bufs := None\<rparr>) (s1\<lparr>write_queue_size := write_queue_size s1 - n\<rparr>)))
             else Some s1) = Some (pop_done r s)"
  proof (cases "w_bufs (wreqs s r)")
    case None
    have "(\<lambda>a. if a = r then (wreqs s r)\<lparr>w_bufs := None\<rparr> else wreqs s a) = wreqs s"
      using None by (intro ext) (cases "wreqs s r", simp)
    then have "(wreqs s)(r := (wreqs s r)\<lparr>w_bufs := None\<rparr>) = wreqs s" by (simp add: fun_upd_def)
    then show ?thesis using None assms(2) r by (simp add: q pop_done_def s1_def queue_remove_def upd_req_def rem_bytes_def)
  next
    case (Some bs)
    then show ?thesis using assms(2) r sz
      by (simp add: q pop_done_def s1_def queue_remove_def upd_req_def rem_bytes_def uv__write_req_size_def
          count_bufs_concat Let_def)
  qed
  have "uv__write_callbacks u s = uv__write_callbacks u (call u (Write_cb r (w_error (wreqs (pop_done r s) r))) (pop_done r s))"
    by (subst uv__write_callbacks.simps) (simp only: assms(2) list.case 1 2 bind.bind_lunit)
  moreover have "w_error (wreqs (pop_done r s) r) = w_error (wreqs s r)" by (simp add: pop_done_def upd_req_def)
  moreover have "stream_inv (pop_done r s)"
  proof -
    have eq: "(\<Sum>q \<leftarrow> write_queue s. length (rem_bytes (wreqs (pop_done r s) q))) = (\<Sum>q \<leftarrow> write_queue s. length (rem_bytes (wreqs s q)))"
      "(\<Sum>q \<leftarrow> rs. length (rem_bytes (wreqs (pop_done r s) q))) = (\<Sum>q \<leftarrow> rs. length (rem_bytes (wreqs s q)))"
      using r by (auto intro!: sum_list_cong' simp: pop_done_def upd_req_def)
    have out: "outstanding (pop_done r s) = write_queue s @ rs @
        (case connect_req s of None \<Rightarrow> [] | Some r \<Rightarrow> [r]) @ (case shutdown_req s of None \<Rightarrow> [] | Some r \<Rightarrow> [r])"
      using assms(2) by (simp add: outstanding_def pop_done_def upd_req_def)
    have "distinct (outstanding (pop_done r s))" "set (outstanding (pop_done r s)) \<subseteq> set (st_reqs s) - {r}"
      using o assms(2) unfolding out by (auto simp: outstanding_def)
    moreover have "\<forall>q \<in> set (write_queue s). pending_ok (wreqs (pop_done r s) q)"
      using assms(1) r by (auto simp: stream_inv_def pop_done_def upd_req_def)
    moreover have "write_queue (pop_done r s) = write_queue s" "write_completed (pop_done r s) = rs"
       "st_reqs (pop_done r s) = removeAll r (st_reqs s)" "write_queue_size (pop_done r s) = write_queue_size s - length (rem_bytes (wreqs s r))"
      using assms(2) by (simp_all add: pop_done_def upd_req_def)
    ultimately show ?thesis using assms eq by (simp add: stream_inv_def)
  qed
  ultimately show ?thesis by simp
qed

lemma write_callbacks_ok:
  assumes "tame u" "stream_inv s"
  shows "\<exists>s'. uv__write_callbacks u s = Some s' \<and> stream_inv s' \<and> write_completed s' = [] \<and>
     calls s' = calls s @ map (\<lambda>r. Write_cb r (w_error (wreqs s r))) (write_completed s) \<and>
     (hands_off u \<longrightarrow> connect_req s' = connect_req s \<and> shutdown_req s' = shutdown_req s \<and> write_queue s' = write_queue s \<and>
        wire s' = wire s \<and> st_reqs s' = filter (\<lambda>q. q \<notin> set (write_completed s)) (st_reqs s) \<and>
        (\<forall>q. q \<notin> set (write_completed s) \<longrightarrow> wreqs s' q = wreqs s q))"
  using assms(2)
proof (induction "write_completed s" arbitrary: s)
  case Nil
  then show ?case by (subst uv__write_callbacks.simps) (auto simp flip: Nil.hyps)
next
  case (Cons r rs)
  note wc = Cons.hyps(2) [symmetric]
  define s1 where "s1 = call u (Write_cb r (w_error (wreqs s r))) (pop_done r s)"
  have p: "uv__write_callbacks u s = uv__write_callbacks u s1" "stream_inv (pop_done r s)"
    using pop_done_ok [OF Cons.prems wc] by (simp_all add: s1_def)
  have r: "r \<notin> set rs" using Cons.prems wc by (simp add: stream_inv_def outstanding_def)
  have pd: "write_completed (pop_done r s) = rs" "calls (pop_done r s) = calls s" "\<And>q. q \<noteq> r \<Longrightarrow> wreqs (pop_done r s) q = wreqs s q"
      "connect_req (pop_done r s) = connect_req s" "shutdown_req (pop_done r s) = shutdown_req s"
      "write_queue (pop_done r s) = write_queue s" "wire (pop_done r s) = wire s"
      "st_reqs (pop_done r s) = filter (\<lambda>q. q \<noteq> r) (st_reqs s)"
    using wc by (auto simp: pop_done_def upd_req_def removeAll_filter_not_eq intro!: filter_cong)
  have 1: "stream_inv s1" "write_completed s1 = rs" "calls s1 = calls s @ [Write_cb r (w_error (wreqs s r))]"
      "\<And>q. q \<in> set rs \<Longrightarrow> wreqs s1 q = wreqs s q"
  proof -
    show "stream_inv s1" "write_completed s1 = rs" "calls s1 = calls s @ [Write_cb r (w_error (wreqs s r))]"
      using call_tame [OF assms(1) p(2)] pd by (simp_all add: s1_def)
    fix q assume q: "q \<in> set rs"
    then have "q \<noteq> r" using r by blast
    then show "wreqs s1 q = wreqs s q"
      using call_tame [OF assms(1) p(2), of "Write_cb r (w_error (wreqs s r))"] pd(1) pd(3) [of q] q by (simp add: s1_def)
  qed
  obtain s' where s': "uv__write_callbacks u s1 = Some s'" "stream_inv s'" "write_completed s' = []"
      "calls s' = calls s1 @ map (\<lambda>r. Write_cb r (w_error (wreqs s1 r))) rs"
      "hands_off u \<longrightarrow> connect_req s' = connect_req s1 \<and> shutdown_req s' = shutdown_req s1 \<and> write_queue s' = write_queue s1 \<and>
        wire s' = wire s1 \<and> st_reqs s' = filter (\<lambda>q. q \<notin> set rs) (st_reqs s1) \<and> (\<forall>q. q \<notin> set rs \<longrightarrow> wreqs s' q = wreqs s1 q)"
    using Cons.hyps(1) [OF 1(2) [symmetric] 1(1)] unfolding 1(2) by blast
  have "map (\<lambda>r. Write_cb r (w_error (wreqs s1 r))) rs = map (\<lambda>r. Write_cb r (w_error (wreqs s r))) rs"
    using 1(4) by simp
  moreover have "hands_off u \<longrightarrow> connect_req s1 = connect_req s \<and> shutdown_req s1 = shutdown_req s \<and> write_queue s1 = write_queue s \<and>
        wire s1 = wire s \<and> st_reqs s1 = filter (\<lambda>q. q \<noteq> r) (st_reqs s) \<and> (\<forall>q. q \<noteq> r \<longrightarrow> wreqs s1 q = wreqs s q)"
    using call_hands_off [of u "Write_cb r (w_error (wreqs s r))" "pop_done r s"] pd by (auto simp: s1_def)
  ultimately show ?case using s' p(1) wc 1(3) by auto
qed


lemma flush_ok:
  assumes "stream_inv s"
  shows "let s' = uv__stream_flush_write_queue e s in
     write_queue s' = [] \<and> write_completed s' = write_completed s @ write_queue s \<and>
     (\<forall>q. wreqs s' q = (if q \<in> set (write_queue s) then (wreqs s q)\<lparr>w_error := e\<rparr> else wreqs s q)) \<and>
     write_queue_size s' = write_queue_size s \<and> connect_req s' = connect_req s \<and> shutdown_req s' = shutdown_req s \<and>
     st_reqs s' = st_reqs s \<and> calls s' = calls s \<and> wire s' = wire s"
proof -
  have d: "distinct (write_queue s @ write_completed s)" using assms by (auto simp: stream_inv_def outstanding_def)
  then show ?thesis
  proof (induction "write_queue s" arbitrary: s)
    case Nil
    then show ?case by (subst uv__stream_flush_write_queue.simps) (simp flip: Nil.hyps add: Let_def)
  next
    case (Cons r rs)
    note wq = Cons.hyps(2) [symmetric]
    define s1 where "s1 = (upd_req r (\<lambda>q. q\<lparr>w_error := e\<rparr>) (queue_remove r s))\<lparr>write_completed := write_completed s @ [r]\<rparr>"
    have r: "r \<notin> set rs" "r \<notin> set (write_completed s)" using Cons.prems wq by auto
    have q: "write_queue s1 = rs" "write_completed s1 = write_completed s @ [r]" "write_queue_size s1 = write_queue_size s"
       "connect_req s1 = connect_req s" "shutdown_req s1 = shutdown_req s" "st_reqs s1 = st_reqs s" "calls s1 = calls s"
       "wire s1 = wire s" "wreqs s1 = (wreqs s)(r := (wreqs s r)\<lparr>w_error := e\<rparr>)"
      using r wq by (simp_all add: s1_def upd_req_def queue_remove_def)
    have u: "uv__stream_flush_write_queue e s = uv__stream_flush_write_queue e s1"
      using wq r by (subst uv__stream_flush_write_queue.simps) (simp add: s1_def Let_def upd_req_def queue_remove_def)
    have "distinct (write_queue s1 @ write_completed s1)" using Cons.prems wq q(1,2) by auto
    from Cons.hyps(1) [OF q(1) [symmetric] this] show ?case
      unfolding u Let_def q wq using r by auto
  qed
qed

text \<open>The callbacks that are due when a stream is destroyed.\<close>

definition final_calls :: "ustream \<Rightarrow> scall list" where
  "final_calls s =
     (case connect_req s of None \<Rightarrow> [] | Some r \<Rightarrow> [Connect_cb r STREAM_ECANCELED]) @
     map (\<lambda>r. Write_cb r (w_error (wreqs s r))) (write_completed s) @
     map (\<lambda>r. Write_cb r STREAM_ECANCELED) (write_queue s) @
     (case shutdown_req s of None \<Rightarrow> [] | Some r \<Rightarrow> [Shutdown_cb r STREAM_ECANCELED])"

lemma destroy_ok:
  assumes inv: "stream_inv s" and u: "hands_off u"
    and closed: "st_has s UV_CLOSED" "\<not> io_active (POLLIN OR POLLOUT) s"
  shows "\<exists>s'. uv__stream_destroy u s = Some s' \<and> outstanding s' = [] \<and> write_queue_size s' = 0 \<and>
     calls s' = calls s @ final_calls s \<and> st_reqs s' = filter (\<lambda>q. q \<notin> set (outstanding s)) (st_reqs s)"
proof -
  note cp = call_hands_off [OF u]
  define s1 where "s1 = (case connect_req s of None \<Rightarrow> s
     | Some req \<Rightarrow> (call u (Connect_cb req STREAM_ECANCELED) (s\<lparr>st_reqs := removeAll req (st_reqs s)\<rparr>))\<lparr>connect_req := None\<rparr>)"
  have o: "distinct (outstanding s)" "set (outstanding s) \<subseteq> set (st_reqs s)" using inv by (simp_all add: stream_inv_def)
  have c1: "(case connect_req s of None \<Rightarrow> Some s
      | Some req \<Rightarrow> Option.bind (req_unregister req s) (\<lambda>s. Some ((call u (Connect_cb req STREAM_ECANCELED) s)\<lparr>connect_req := None\<rparr>))) = Some s1"
    using o(2) by (cases "connect_req s") (auto simp: s1_def req_unregister_def outstanding_def)
  have f1: "connect_req s1 = None" "shutdown_req s1 = shutdown_req s" "write_queue s1 = write_queue s" "write_completed s1 = write_completed s"
      "write_queue_size s1 = write_queue_size s" "wreqs s1 = wreqs s"
      "st_reqs s1 = filter (\<lambda>q. connect_req s \<noteq> Some q) (st_reqs s)"
      "calls s1 = calls s @ (case connect_req s of None \<Rightarrow> [] | Some r \<Rightarrow> [Connect_cb r STREAM_ECANCELED])"
    using cp by (auto simp: s1_def removeAll_filter_not_eq split: option.splits intro!: filter_cong)
  have inv1: "stream_inv s1"
    using inv o f1 by (auto simp: stream_inv_def outstanding_def split: option.splits)
  define s2 where "s2 = uv__stream_flush_write_queue STREAM_ECANCELED s1"
  note fl = flush_ok [OF inv1, of STREAM_ECANCELED, folded s2_def, unfolded Let_def]
  have rb: "rem_bytes (wreqs s2 q) = rem_bytes (wreqs s1 q)" for q using fl by (simp add: rem_bytes_def split: option.splits)
  have o2: "mset (outstanding s2) = mset (outstanding s1)" using fl by (simp add: outstanding_def)
  have inv2: "stream_inv s2"
    using inv1 fl rb outstanding_inv [OF o2] by (simp add: stream_inv_def)
  obtain s3 where s3: "uv__write_callbacks u s2 = Some s3" "stream_inv s3" "write_completed s3 = []"
      "calls s3 = calls s2 @ map (\<lambda>r. Write_cb r (w_error (wreqs s2 r))) (write_completed s2)"
      "connect_req s3 = connect_req s2" "shutdown_req s3 = shutdown_req s2" "write_queue s3 = write_queue s2"
      "st_reqs s3 = filter (\<lambda>q. q \<notin> set (write_completed s2)) (st_reqs s2)"
    using write_callbacks_ok [OF hands_off_tame [OF u] inv2] u by blast
  have size: "write_queue_size s3 = 0" using s3(2,3,7) fl by (simp add: stream_inv_def)
  define s4 where "s4 = (case shutdown_req s3 of None \<Rightarrow> s3
     | Some req \<Rightarrow> (call u (Shutdown_cb req STREAM_ECANCELED) (s3\<lparr>st_reqs := removeAll req (st_reqs s3)\<rparr>))\<lparr>shutdown_req := None\<rparr>)"
  have c4: "(case shutdown_req s3 of None \<Rightarrow> Some s3
      | Some req \<Rightarrow> Option.bind (req_unregister req s3) (\<lambda>s. Some ((call u (Shutdown_cb req STREAM_ECANCELED) s)\<lparr>shutdown_req := None\<rparr>))) = Some s4"
    using s3(2) by (cases "shutdown_req s3") (auto simp: s4_def req_unregister_def outstanding_def stream_inv_def)
  have f4: "connect_req s4 = None" "shutdown_req s4 = None" "write_queue s4 = []" "write_completed s4 = []" "write_queue_size s4 = 0"
      "st_reqs s4 = filter (\<lambda>q. shutdown_req s \<noteq> Some q) (st_reqs s3)"
      "calls s4 = calls s3 @ (case shutdown_req s of None \<Rightarrow> [] | Some r \<Rightarrow> [Shutdown_cb r STREAM_ECANCELED])"
    using cp size s3(3,5-7) fl f1(1,2)
    by (auto simp: s4_def removeAll_filter_not_eq split: option.splits intro!: filter_cong)
  have "uv__stream_destroy u s = Some s4"
    unfolding uv__stream_destroy_def using closed size f4(5)
    by (simp add: c1 s2_def [symmetric] s3(1) c4)
  moreover have "outstanding s4 = []" using f4 by (simp add: outstanding_def)
  moreover have "map (\<lambda>r. Write_cb r (w_error (wreqs s2 r))) (write_completed s2) =
      map (\<lambda>r. Write_cb r (w_error (wreqs s r))) (write_completed s) @ map (\<lambda>r. Write_cb r STREAM_ECANCELED) (write_queue s)"
    using fl f1 o(1) by (auto simp: outstanding_def)
  then have "calls s4 = calls s @ final_calls s"
    using f4(7) s3(4) fl f1(8) by (simp add: final_calls_def)
  moreover have "st_reqs s4 = filter (\<lambda>q. q \<notin> set (outstanding s)) (st_reqs s)"
    using f4(6) s3(8) fl f1 by (auto simp: outstanding_def conj_commute split: option.splits intro!: filter_cong)
  ultimately show ?thesis using f4(5) by blast
qed


section \<open>Queueing a write\<close>

definition writable :: "ustream \<Rightarrow> bool" where
  "writable s \<longleftrightarrow> st_type s \<in> {UV_TCP, UV_NAMED_PIPE, UV_TTY} \<and> st_fd s \<ge> 0 \<and> \<not> st_has s UV_STREAM_BLOCKING"

text \<open>The state after the request has been appended to the queue.\<close>

definition append_req :: "addr \<Rightarrow> u8 list list \<Rightarrow> ustream \<Rightarrow> ustream" where
  "append_req r bufs s = s\<lparr>st_reqs := st_reqs s @ [r],
     wreqs := (wreqs s)(r := (wreqs s r)\<lparr>w_error := 0, w_send := None, w_bufs := Some bufs, w_index := 0\<rparr>),
     write_queue_size := write_queue_size s + uv__count_bufs bufs, write_queue := write_queue s @ [r]\<rparr>"

lemma append_req_inv:
  assumes "stream_inv s" "r \<notin> set (outstanding s)" "bufs \<noteq> []"
  shows "stream_inv (append_req r bufs s) \<and> queued (append_req r bufs s) = queued s @ concat bufs"
proof -
  have r: "r \<notin> set (write_queue s)" "r \<notin> set (write_completed s)" using assms(2) by (auto simp: outstanding_def)
  have same: "wreqs (append_req r bufs s) q = wreqs s q" if "q \<in> set (write_queue s) \<union> set (write_completed s)" for q
    using that r by (auto simp: append_req_def)
  have eq: "(\<Sum>q \<leftarrow> write_queue s. length (rem_bytes (wreqs (append_req r bufs s) q))) = (\<Sum>q \<leftarrow> write_queue s. length (rem_bytes (wreqs s q)))"
      "(\<Sum>q \<leftarrow> write_completed s. length (rem_bytes (wreqs (append_req r bufs s) q))) = (\<Sum>q \<leftarrow> write_completed s. length (rem_bytes (wreqs s q)))"
      "map (\<lambda>q. rem_bytes (wreqs (append_req r bufs s) q)) (write_queue s) = map (\<lambda>q. rem_bytes (wreqs s q)) (write_queue s)"
    using same by (auto intro!: sum_list_cong')
  have new: "wreqs (append_req r bufs s) r = (wreqs s r)\<lparr>w_error := 0, w_send := None, w_bufs := Some bufs, w_index := 0\<rparr>"
    by (simp add: append_req_def)
  have m: "mset (outstanding (append_req r bufs s)) = mset (r # outstanding s)"
    by (simp add: outstanding_def append_req_def)
  then have "distinct (outstanding (append_req r bufs s))" "set (outstanding (append_req r bufs s)) = insert r (set (outstanding s))"
    using assms(1,2) mset_eq_imp_distinct_iff [OF m] mset_eq_setD [OF m] by (simp_all add: stream_inv_def)
  moreover have sel: "write_queue (append_req r bufs s) = write_queue s @ [r]" "write_completed (append_req r bufs s) = write_completed s"
    "write_queue_size (append_req r bufs s) = write_queue_size s + length (concat bufs)" "st_reqs (append_req r bufs s) = st_reqs s @ [r]"
    by (simp_all add: append_req_def count_bufs_concat)
  moreover have "\<forall>q \<in> set (write_queue s). pending_ok (wreqs (append_req r bufs s) q)"
    using assms(1) same by (simp add: stream_inv_def)
  moreover have "pending_ok (wreqs (append_req r bufs s) r)" "rem_bytes (wreqs (append_req r bufs s) r) = concat bufs"
    using assms(3) by (simp_all add: new pending_ok_def rem_bytes_def)
  ultimately show ?thesis
    using assms(1) eq by (auto simp: stream_inv_def queued_def cong: map_cong)
qed

lemma uv_write_unfold:
  assumes "writable s" "bufs \<noteq> []" "length bufs \<le> 4"
  shows "uv_write r bufs s =
     Option.bind
       (if connect_req s \<noteq> None then Some (append_req r bufs s)
        else if write_queue_size s = 0 then uv__write (append_req r bufs s)
        else Some (io_start POLLOUT (append_req r bufs s)))
       (\<lambda>s. Some (0, s))"
  using assms
  by (auto simp: uv_write_def uv_write2_def writable_def req_register_def upd_req_def append_req_def st_has_def Let_def)

text \<open>What is true of a stream after data has been handed to it: all of it is on the wire or in the
  queue, in order, except that the request at the head may have failed.\<close>

definition data_kept :: "u8 list \<Rightarrow> ustream \<Rightarrow> ustream \<Rightarrow> bool" where
  "data_kept d s s' \<longleftrightarrow>
     wire s' @ queued s' = wire s @ queued s @ d \<or>
     (\<exists>q. write_completed s' = write_completed s @ [q] \<and> w_error (wreqs s' q) < 0 \<and>
        wire s' @ rem_bytes (wreqs s' q) @ queued s' = wire s @ queued s @ d)"

lemma uv__write_data:
  assumes "stream_inv s" "st_fd s \<ge> 0" "\<not> st_has s UV_STREAM_BLOCKING"
  shows "\<exists>s'. uv__write s = Some s' \<and> stream_inv s' \<and> wframe s s' \<and> data_kept [] s s' \<and>
     set (outstanding s') = set (outstanding s) \<and> (write_queue s' \<noteq> [] \<longrightarrow> io_active POLLOUT s' \<or> st_fed s')"
proof -
  obtain s' where s': "uv__write s = Some s'" using uv__write_total [OF assms] by blast
  have res: "write_result s s'" using uv__write_result [OF s' assms(1,2)] .
  then have fr: "wframe s s'" "stream_inv s'" by (simp_all add: write_result_def)
  have "data_kept [] s s' \<and> set (outstanding s') = set (outstanding s) \<and> (write_queue s' \<noteq> [] \<longrightarrow> io_active POLLOUT s' \<or> st_fed s')"
  proof (cases "write_queue s")
    case Nil
    then have "s' = s" using res by (simp add: write_result_def)
    then show ?thesis using Nil by (simp add: data_kept_def)
  next
    case (Cons r rs)
    have c: "connect_req s' = connect_req s" "shutdown_req s' = shutdown_req s" using fr(1) by (simp_all add: wframe_def)
    have "(write_queue s' = rs \<and> write_completed s' = write_completed s @ [r] \<and> st_fed s' \<and>
             (w_error (wreqs s' r) = 0 \<and> rem_bytes (wreqs s' r) = [] \<and> wire s' @ queued s' = wire s @ queued s \<or>
              w_error (wreqs s' r) < 0 \<and> wire s' @ rem_bytes (wreqs s' r) @ queued s' = wire s @ queued s)) \<or>
          (write_queue s' = write_queue s \<and> write_completed s' = write_completed s \<and>
             io_active POLLOUT s' \<and> wire s' @ queued s' = wire s @ queued s)"
      using res Cons unfolding write_result_def by (simp only: list.case) blast
    then show ?thesis
    proof (elim disjE conjE, goal_cases)
      case 1 then show ?thesis using c Cons by (simp add: data_kept_def outstanding_def)
    next
      case 2 then show ?thesis using c Cons by (simp add: data_kept_def outstanding_def)
    next
      case 3 then show ?thesis using c Cons by (simp add: data_kept_def outstanding_def)
    qed
  qed
  then show ?thesis using s' fr by blast
qed

lemma uv_write_ok:
  assumes inv: "stream_inv s" and w: "writable s" and r: "r \<notin> set (outstanding s)" and b: "bufs \<noteq> []" "length bufs \<le> 4"
  shows "\<exists>s'. uv_write r bufs s = Some (0, s') \<and> stream_inv s' \<and> r \<in> set (outstanding s') \<and> calls s' = calls s \<and>
     data_kept (concat bufs) s s'"
proof -
  let ?a = "append_req r bufs s"
  have a: "stream_inv ?a" "queued ?a = queued s @ concat bufs" using append_req_inv [OF inv r b(1)] by auto
  have sel: "st_fd ?a = st_fd s" "st_has ?a m = st_has s m" "wire ?a = wire s" "write_completed ?a = write_completed s"
      "calls ?a = calls s" "r \<in> set (outstanding ?a)" for m
    by (simp_all add: append_req_def st_has_def outstanding_def)
  have k: "data_kept (concat bufs) s ?a" using a(2) sel by (simp add: data_kept_def)
  obtain s1 where s1: "uv__write ?a = Some s1" "stream_inv s1" "wframe ?a s1" "data_kept [] ?a s1" "set (outstanding s1) = set (outstanding ?a)"
    using uv__write_data [OF a(1)] w sel by (auto simp: writable_def)
  have k1: "data_kept (concat bufs) s s1" using s1(4) a(2) sel by (auto simp: data_kept_def)
  have io: "stream_inv (io_start POLLOUT ?a)" "data_kept (concat bufs) s (io_start POLLOUT ?a)" "calls (io_start POLLOUT ?a) = calls s"
      "outstanding (io_start POLLOUT ?a) = outstanding ?a"
    using a k sel by (simp_all add: io_start_def stream_inv_def outstanding_def data_kept_def queued_def)
  show ?thesis
    using uv_write_unfold [OF w b] a(1) k sel s1 k1 io by (auto simp: wframe_def)
qed

section \<open>Writing without a request\<close>

lemma try_write_ok:
  assumes inv: "stream_inv s" and w: "writable s" and r: "r \<notin> set (outstanding s)" and b: "bufs \<noteq> []" "length bufs \<le> 4"
    and idle: "connect_req s = None" "write_queue s = []" "write_queue_size s = 0" and reg: "r \<notin> set (st_reqs s)"
  shows "\<exists>n s'. uv_try_write r bufs s = Some (n, s') \<and> stream_inv s' \<and> outstanding s' = outstanding s \<and> st_reqs s' = st_reqs s \<and>
     calls s' = calls s \<and>
     (if n = UV_EAGAIN then wire s' = wire s \<and> concat bufs \<noteq> []
      else 0 \<le> n \<and> n \<le> int (length (concat bufs)) \<and> wire s' = wire s @ take (nat n) (concat bufs))"
proof -
  let ?a = "append_req r bufs s"
  have a: "stream_inv ?a" "queued ?a = concat bufs" using append_req_inv [OF inv r b(1)] idle(2) by (auto simp: queued_def)
  have sel: "st_fd ?a = st_fd s" "st_has ?a m = st_has s m" "wire ?a = wire s" "write_completed ?a = write_completed s"
      "calls ?a = calls s" "write_queue ?a = [r]" "st_reqs ?a = st_reqs s @ [r]" for m
    using idle(2) by (simp_all add: append_req_def st_has_def)
  obtain s1 where s1: "uv__write ?a = Some s1" using uv__write_total [OF a(1)] w sel by (auto simp: writable_def)
  have res: "write_result ?a s1" using uv__write_result [OF s1 a(1)] w sel by (simp add: writable_def)
  then have fr: "wframe ?a s1" "stream_inv s1" by (simp_all add: write_result_def)
  have uw: "uv_write r bufs s = Some (0, s1)" using uv_write_unfold [OF w b] idle s1 by simp
  have rn: "r \<notin> set (write_completed s)" using r by (simp add: outstanding_def)
  have same: "wreqs s1 q = wreqs s q" if "q \<noteq> r" for q
    using res that sel by (auto simp: write_result_def append_req_def)
  let ?rem = "rem_bytes (wreqs s1 r)"
  have wire: "wire s1 @ ?rem = wire s @ concat bufs"
    using res a sel by (auto simp: write_result_def queued_def)
  moreover obtain xs where "wire s1 = wire s @ xs" using res sel(3) by (auto simp: write_result_def)
  ultimately have xs: "wire s1 = wire s @ xs" "concat bufs = xs @ ?rem" by simp_all
  have pl: "(write_queue s1 = [] \<and> write_completed s1 = write_completed s @ [r]) \<or> (write_queue s1 = [r] \<and> write_completed s1 = write_completed s)"
    using res sel by (auto simp: write_result_def)
  have old: "(\<Sum>q \<leftarrow> write_completed s. length (rem_bytes (wreqs s1 q))) = 0"
  proof -
    have "(\<Sum>q \<leftarrow> write_completed s. length (rem_bytes (wreqs s1 q))) = (\<Sum>q \<leftarrow> write_completed s. length (rem_bytes (wreqs s q)))"
      using same rn by (intro sum_list_cong') metis
    then show ?thesis using inv idle(2,3) by (simp add: stream_inv_def)
  qed
  then have wqs: "write_queue_size s1 = length ?rem" using fr(2) pl by (auto simp: stream_inv_def)
  have size: "(if w_bufs (wreqs s1 r) \<noteq> None then uv__write_req_size r s1 else Some 0) = Some (length ?rem)"
    using wqs by (auto simp: uv__write_req_size_def rem_bytes_def count_bufs_concat)
  define s2 where "s2 = (queue_remove r (s1\<lparr>write_queue_size := 0\<rparr>))\<lparr>st_reqs := st_reqs s\<rparr>"
  have un: "req_unregister r (queue_remove r (s1\<lparr>write_queue_size := 0\<rparr>)) = Some s2"
    using fr(1) sel(7) reg by (simp add: req_unregister_def s2_def queue_remove_def wframe_def)
  have q: "write_queue s2 = []" "write_completed s2 = write_completed s" "write_queue_size s2 = 0" "wreqs s2 = wreqs s1" "wire s2 = wire s1"
      "connect_req s2 = connect_req s" "shutdown_req s2 = shutdown_req s" "calls s2 = calls s" "st_reqs s2 = st_reqs s"
    using pl rn fr(1) by (auto simp: s2_def queue_remove_def wframe_def append_req_def)
  define s4 where "s4 = (if \<not> io_active POLLOUT s then io_stop POLLOUT (upd_req r (\<lambda>q. q\<lparr>w_bufs := None\<rparr>) s2)
     else upd_req r (\<lambda>q. q\<lparr>w_bufs := None\<rparr>) s2)"
  have q4: "write_queue s4 = []" "write_completed s4 = write_completed s" "write_queue_size s4 = 0" "wire s4 = wire s1"
      "connect_req s4 = connect_req s" "shutdown_req s4 = shutdown_req s" "calls s4 = calls s" "st_reqs s4 = st_reqs s"
      "\<And>p. p \<noteq> r \<Longrightarrow> wreqs s4 p = wreqs s p"
    using q same by (simp_all add: s4_def upd_req_def io_stop_def)
  let ?n = "length (concat bufs) - length ?rem"
  have run: "uv_try_write r bufs s = Some (if ?n = 0 \<and> length ?rem \<noteq> 0 then UV_EAGAIN else int ?n, s4)"
    by (simp only: uv_try_write_def idle uw size un wqs s4_def count_bufs_concat Let_def bind.bind_lunit prod.case
        simp_thms if_True if_False diff_self_eq_0 if_distrib [where f = Some])
  have o4: "outstanding s4 = outstanding s" using q4 idle by (simp add: outstanding_def)
  have "(\<Sum>p \<leftarrow> write_completed s. length (rem_bytes (wreqs s4 p))) = (\<Sum>p \<leftarrow> write_completed s. length (rem_bytes (wreqs s p)))"
    using q4(9) rn by (intro sum_list_cong') metis
  then have inv4: "stream_inv s4"
    using inv q4 o4 idle by (simp add: stream_inv_def)
  have "?n = length xs" "take ?n (concat bufs) = xs" using xs(2) by simp_all
  then show ?thesis using run inv4 o4 q4 xs by (intro exI [of _ "if ?n = 0 \<and> length ?rem \<noteq> 0 then UV_EAGAIN else int ?n"] exI [of _ s4]) auto
qed


section \<open>Descriptors received over a pipe\<close>

text \<open>The descriptors that wait to be accepted, in order.\<close>

definition fd_list :: "ustream \<Rightarrow> int list" where
  "fd_list s = (if accepted_fd s = - 1 then [] else [accepted_fd s]) @ (case queued_fds s of None \<Rightarrow> [] | Some (cap, fds) \<Rightarrow> fds)"

definition fds_inv :: "ustream \<Rightarrow> bool" where
  "fds_inv s \<longleftrightarrow> (\<forall>cap fds. queued_fds s = Some (cap, fds) \<longrightarrow> accepted_fd s \<noteq> - 1 \<and> fds \<noteq> [] \<and> length fds \<le> cap) \<and>
     (\<forall>fd \<in> set (fd_list s). fd \<noteq> - 1)"

lemma queue_fd_ok:
  assumes "fds_inv s" "accepted_fd s \<noteq> - 1" "fd \<noteq> - 1" "uv__stream_queue_fd fd s = (err, s')"
  shows "(err = 0 \<longrightarrow> fds_inv s' \<and> fd_list s' = fd_list s @ [fd]) \<and> (err \<noteq> 0 \<longrightarrow> err = UV_ENOMEM \<and> fds_inv s' \<and> fd_list s' = fd_list s) \<and>
     closed_fds s' = closed_fds s"
  using assms
  by (auto simp: uv__stream_queue_fd_def next_alloc_def fds_inv_def fd_list_def Let_def split: option.splits prod.splits list.splits if_splits)

lemma fold_close: "closed_fds (fold uv__close fds s) = closed_fds s @ fds \<and> fd_list (fold uv__close fds s) = fd_list s \<and>
    (fds_inv (fold uv__close fds s) \<longleftrightarrow> fds_inv s) \<and> accepted_fd (fold uv__close fds s) = accepted_fd s"
proof (induction fds arbitrary: s)
  case (Cons fd fds)
  have "closed_fds (uv__close fd s) = closed_fds s @ [fd]" "fd_list (uv__close fd s) = fd_list s"
      "fds_inv (uv__close fd s) \<longleftrightarrow> fds_inv s" "accepted_fd (uv__close fd s) = accepted_fd s"
    by (simp_all add: uv__close_def fd_list_def fds_inv_def)
  then show ?case using Cons [of "uv__close fd s"] by simp
qed simp

lemma recv_cons:
  assumes "fds_inv s' \<and> (if err = 0 then fd_list s' = fd_list s1 @ fds \<and> closed_fds s' = closed_fds s1
     else err = UV_ENOMEM \<and> (\<exists>taken rest. fds = taken @ rest \<and> fd_list s' = fd_list s1 @ taken \<and> closed_fds s' = closed_fds s1 @ rest))"
    "fd_list s1 = fd_list s @ [fd]" "closed_fds s1 = closed_fds s"
  shows "fds_inv s' \<and> (if err = 0 then fd_list s' = fd_list s @ fd # fds \<and> closed_fds s' = closed_fds s
     else err = UV_ENOMEM \<and> (\<exists>taken rest. fd # fds = taken @ rest \<and> fd_list s' = fd_list s @ taken \<and> closed_fds s' = closed_fds s @ rest))"
proof (cases "err = 0")
  case False
  from assms(1) [unfolded if_not_P [OF False]]
  obtain taken rest where t: "err = UV_ENOMEM" "fds = taken @ rest" "fd_list s' = fd_list s1 @ taken" "closed_fds s' = closed_fds s1 @ rest"
    by (elim conjE exE)
  have i: "fds_inv s'" using assms(1) by simp
  show ?thesis
    unfolding if_not_P [OF False]
    by (intro conjI exI [of _ "fd # taken"] exI [of _ rest], rule i, rule t(1)) (use t assms(2,3) in simp_all)
next
  case True
  then show ?thesis using assms by (simp only: if_True) simp
qed

lemma recv_fds_ok:
  assumes "fds_inv s" "\<forall>fd \<in> set fds. fd \<noteq> - 1" "recv_fds fds s = (err, s')"
  shows "fds_inv s' \<and> (if err = 0 then fd_list s' = fd_list s @ fds \<and> closed_fds s' = closed_fds s
     else err = UV_ENOMEM \<and> (\<exists>taken rest. fds = taken @ rest \<and> fd_list s' = fd_list s @ taken \<and> closed_fds s' = closed_fds s @ rest))"
  using assms
proof (induction fds arbitrary: s)
  case (Cons fd fds)
  show ?case
  proof (cases "accepted_fd s = - 1")
    case True
    have "queued_fds s = None" using Cons.prems(1) True unfolding fds_inv_def by (metis option.exhaust prod.exhaust)
    then have f: "fds_inv (s\<lparr>accepted_fd := fd\<rparr>)" "fd_list (s\<lparr>accepted_fd := fd\<rparr>) = fd_list s @ [fd]"
      using Cons.prems(2) True by (auto simp: fds_inv_def fd_list_def)
    have "recv_fds fds (s\<lparr>accepted_fd := fd\<rparr>) = (err, s')" using Cons.prems(3) True by simp
    have "closed_fds (s\<lparr>accepted_fd := fd\<rparr>) = closed_fds s" by simp
    with Cons.IH [OF f(1) _ \<open>recv_fds fds (s\<lparr>accepted_fd := fd\<rparr>) = (err, s')\<close>] Cons.prems(2) f(2) show ?thesis
      by (intro recv_cons [of s' err "s\<lparr>accepted_fd := fd\<rparr>" fds]) auto
  next
    case False
    obtain e s1 where q: "uv__stream_queue_fd fd s = (e, s1)" by fastforce
    note o = queue_fd_ok [OF Cons.prems(1) False _ q]
    have fd: "fd \<noteq> - 1" using Cons.prems(2) by simp
    show ?thesis
    proof (cases "e = 0")
      case True
      then have "recv_fds fds s1 = (err, s')" using Cons.prems(3) False q by simp
      from Cons.IH [OF _ _ this] o [OF fd] True Cons.prems(2) show ?thesis
        by (intro recv_cons [of s' err s1 fds]) auto
    next
      case e: False
      then have "err = e" "s' = fold uv__close (fd # fds) s1" using Cons.prems(3) False q by auto
      moreover have "fd # fds = [] @ (fd # fds) \<and> fd_list s' = fd_list s @ [] \<and> closed_fds s' = closed_fds s @ (fd # fds)"
          "fds_inv s'" "e = UV_ENOMEM"
        using o [OF fd] e fold_close [of "fd # fds" s1] \<open>s' = fold uv__close (fd # fds) s1\<close> by simp_all
      ultimately show ?thesis using e by (simp only: if_False) blast
    qed
  qed
qed simp

lemma accept_ok:
  assumes "fds_inv server" "fd_list server = fd # fds" "fd \<ge> 0" "st_type client \<in> {UV_TCP, UV_NAMED_PIPE}" "st_fd client = - 1"
    "opt_error client = 0"
  shows "\<exists>server' client'. uv_accept udp_open server client = Some (0, server', client') \<and> st_fd client' = fd \<and>
     fds_inv server' \<and> fd_list server' = fds \<and> closed_fds server' = closed_fds server \<and>
     (fds = [] \<longrightarrow> io_active POLLIN server')"
proof -
  have n: "accepted_fd server \<noteq> - 1"
  proof
    assume a: "accepted_fd server = - 1"
    then have "queued_fds server = None" using assms(1) unfolding fds_inv_def by (metis option.exhaust prod.exhaust)
    then show False using a assms(2) by (simp add: fd_list_def)
  qed
  then have acc: "accepted_fd server = fd" "accepted_fd server \<noteq> - 1"
    using assms(2) by (simp_all add: fd_list_def)
  have q: "(case queued_fds server of None \<Rightarrow> [] | Some (cap, fds) \<Rightarrow> fds) = fds"
    using assms(2) acc by (simp add: fd_list_def)
  have op: "uv__stream_open fd (UV_STREAM_READABLE OR UV_STREAM_WRITABLE) client =
      Some (0, (st_set (UV_STREAM_READABLE OR UV_STREAM_WRITABLE) client)\<lparr>st_fd := fd\<rparr>)"
    using assms(3,5,6) by (simp add: uv__stream_open_def st_set_def Let_def)
  show ?thesis
  proof (cases "queued_fds server")
    case None
    then show ?thesis using acc q op assms(1,4)
      by (auto simp: uv_accept_def Let_def st_set_def fds_inv_def fd_list_def io_start_def io_active_def)
  next
    case (Some p)
    obtain cap fs where p: "p = (cap, fs)" by fastforce
    have fs: "fs = fds" "fs \<noteq> []" "length fs \<le> cap" using q Some p assms(1) by (auto simp: fds_inv_def)
    obtain g gs where gs: "fds = g # gs" using fs by (cases fds) auto
    have "\<forall>fd \<in> set fds. fd \<noteq> - 1" using assms(1,2) by (auto simp: fds_inv_def)
    then show ?thesis using Some p fs gs acc op assms(4)
      by (auto simp: uv_accept_def Let_def st_set_def fds_inv_def fd_list_def)
  qed
qed

section \<open>Reading\<close>

definition read_data :: "scall list \<Rightarrow> u8 list" where
  "read_data cs = concat (map (\<lambda>c. case c of Read_cb n d \<Rightarrow> d | _ \<Rightarrow> []) cs)"

definition avail :: "rd list \<Rightarrow> u8 list" where
  "avail rs = concat (map (\<lambda>r. case r of Rd_data d cs \<Rightarrow> d | Rd_err e \<Rightarrow> []) rs)"

text \<open>A stream that can be read from as long as the user wants it to be, and a user who keeps it so.\<close>

definition read_ready :: "ustream \<Rightarrow> bool" where
  "read_ready s \<longleftrightarrow> (has_read_cb s \<and> st_has s UV_STREAM_READING \<longrightarrow> has_alloc_cb s \<and> st_fd s \<ge> 0) \<and>
     \<not> (st_type s = UV_NAMED_PIPE \<and> st_ipc s)"

definition reader :: "user \<Rightarrow> bool" where
  "reader u \<longleftrightarrow> (\<forall>c s. calls (u c s) = calls s \<and> rd_results (u c s) = rd_results s \<and> (read_ready s \<longrightarrow> read_ready (u c s)))"

lemma os_read_data:
  "os_read rs len = ((n, d, cs), rs') \<Longrightarrow> avail rs = d @ avail rs' \<and> (n < 0 \<longrightarrow> d = []) \<and> (n \<ge> 0 \<longrightarrow> int (length d) = n)"
  by (induction rs len rule: os_read.induct) (auto simp: avail_def split: if_splits)

lemma call_reader:
  assumes "reader u"
  shows "calls (call u c s) = calls s @ [c] \<and> rd_results (call u c s) = rd_results s \<and> (read_ready s \<longrightarrow> read_ready (call u c s))"
  using assms by (simp add: reader_def call_def) (simp add: read_ready_def st_has_def)

lemma read_frame [simp]:
  "calls (stop_reading s) = calls s" "rd_results (stop_reading s) = rd_results s"
  "calls (st_clear m s) = calls s" "rd_results (st_clear m s) = rd_results s" "calls (st_set m s) = calls s" "rd_results (st_set m s) = rd_results s"
  "calls (io_start m s) = calls s" "rd_results (io_start m s) = rd_results s"
  by (simp_all add: stop_reading_def io_stop_def st_clear_def st_set_def io_start_def Let_def)

lemma read_loop_ok:
  assumes "reader u" "read_ready s"
  shows "\<exists>s' cs. uv__read_loop u al n s = Some s' \<and> calls s' = calls s @ cs \<and> length cs \<le> n \<and>
     read_data cs @ avail (rd_results s') = avail (rd_results s)"
  using assms(2)
proof (induction n arbitrary: s)
  case 0
  then show ?case by (simp add: read_data_def)
next
  case (Suc n)
  show ?case
  proof (cases "has_read_cb s \<and> st_has s UV_STREAM_READING")
    case False
    then show ?thesis by (auto simp: read_data_def)
  next
    case True
    then have ok: "has_alloc_cb s" "st_fd s \<ge> 0" "\<not> (st_type s = UV_NAMED_PIPE \<and> st_ipc s)" using Suc.prems by (auto simp: read_ready_def)
    note cr = call_reader [OF assms(1)]
    show ?thesis
    proof (cases "al s = 0")
      case True
      then show ?thesis using ok \<open>has_read_cb s \<and> _\<close> cr
        by (intro exI [of _ "call u (Read_cb UV_ENOBUFS []) s"] exI [of _ "[Read_cb UV_ENOBUFS []]"]) (simp add: read_data_def)
    next
      case False
      obtain nread d cs rs where os: "os_read (rd_results s) (al s) = ((nread, d, cs), rs)" by (metis prod.exhaust)
      note od = os_read_data [OF os]
      define s1 where "s1 = s\<lparr>rd_results := rs\<rparr>"
      have np: "(st_type s = UV_NAMED_PIPE \<and> st_ipc s) = False" using ok(3) by simp
      have s1: "rd_results s1 = rs" "calls s1 = calls s" "read_ready s1" "st_has s1 m = st_has s m" for m
        using Suc.prems by (simp_all add: s1_def read_ready_def st_has_def)
      note unf = uv__read_loop.simps(2) [of u al n s]
      consider (again) "nread = UV_EAGAIN" | (err) "nread < 0" "nread \<noteq> UV_EAGAIN" | (eof) "nread = 0"
        | (part) "0 < nread" "nread < int (al s)" | (full) "0 < nread" "\<not> nread < int (al s)" by linarith
      then show ?thesis
      proof cases
        case again
        then have "uv__read_loop u al (Suc n) s = Some (call u (Read_cb 0 []) (if st_has s1 UV_STREAM_READING then io_start POLLIN s1 else s1))"
          using unf ok True \<open>al s \<noteq> 0\<close> os by (simp add: s1_def [symmetric] Let_def)
        then show ?thesis using od again s1 cr by (auto simp: read_data_def intro!: exI [of _ "[Read_cb 0 []]"])
      next
        case err
        let ?c = "call u (Read_cb nread []) s1"
        have "uv__read_loop u al (Suc n) s = Some (if st_has ?c UV_STREAM_READING then stop_reading (st_clear UV_STREAM_READING ?c) else ?c)"
          using unf ok True \<open>al s \<noteq> 0\<close> os err by (simp add: s1_def [symmetric] Let_def)
        then show ?thesis using od err s1 cr by (auto simp: read_data_def intro!: exI [of _ "[Read_cb nread []]"])
      next
        case eof
        then have "uv__read_loop u al (Suc n) s = Some (uv__stream_eof u s1)"
          using unf ok True \<open>al s \<noteq> 0\<close> os by (simp add: s1_def [symmetric] Let_def)
        then show ?thesis using od eof s1 cr
          by (auto simp: read_data_def uv__stream_eof_def intro!: exI [of _ "[Read_cb STREAM_EOF []]"])
      next
        case part
        then have "uv__read_loop u al (Suc n) s = Some (st_set UV_STREAM_READ_PARTIAL (call u (Read_cb nread d) s1))"
          using unf ok(1,2) True \<open>al s \<noteq> 0\<close> os by (simp add: s1_def [symmetric] np Let_def)
        then show ?thesis using od s1 cr by (auto simp: read_data_def intro!: exI [of _ "[Read_cb nread d]"])
      next
        case full
        let ?c = "call u (Read_cb nread d) s1"
        have "uv__read_loop u al (Suc n) s = uv__read_loop u al n ?c"
          using unf ok(1,2) True \<open>al s \<noteq> 0\<close> os full by (simp add: s1_def [symmetric] np Let_def)
        moreover obtain s' cs' where "uv__read_loop u al n ?c = Some s'" "calls s' = calls ?c @ cs'" "length cs' \<le> n"
            "read_data cs' @ avail (rd_results s') = avail (rd_results ?c)"
          using Suc.IH [of ?c] cr s1(3) by blast
        ultimately show ?thesis using od s1 cr [of "Read_cb nread d" s1]
          by (intro exI [of _ s'] exI [of _ "Read_cb nread d # cs'"]) (simp add: read_data_def)
      qed
    qed
  qed
qed


section \<open>Writability\<close>

text \<open>A user who touches neither the requests nor the state of the stream from a callback.\<close>

definition onlooker :: "user \<Rightarrow> bool" where
  "onlooker u \<longleftrightarrow> hands_off u \<and> (\<forall>c s. st_flags (u c s) = st_flags s \<and> st_fd (u c s) = st_fd s \<and> shut_error (u c s) = shut_error s)"

lemma call_onlooker: "onlooker u \<Longrightarrow> st_flags (call u c s) = st_flags s \<and> st_fd (call u c s) = st_fd s \<and> shut_error (call u c s) = shut_error s"
  by (simp add: onlooker_def call_def)

lemma write_callbacks_flags:
  assumes "onlooker u" "stream_inv s" "uv__write_callbacks u s = Some s'"
  shows "st_flags s' = st_flags s \<and> st_fd s' = st_fd s \<and> shut_error s' = shut_error s"
  using assms(2,3)
proof (induction "write_completed s" arbitrary: s)
  case Nil
  then show ?case by (subst (asm) uv__write_callbacks.simps) (simp flip: Nil.hyps)
next
  case (Cons r rs)
  have h: "hands_off u" using assms(1) by (simp add: onlooker_def)
  define s1 where "s1 = call u (Write_cb r (w_error (wreqs s r))) (pop_done r s)"
  note p = pop_done_ok [OF Cons.prems(1) Cons.hyps(2) [symmetric], of u]
  have "write_completed (pop_done r s) = rs" using Cons.hyps(2) [symmetric] by (simp add: pop_done_def upd_req_def)
  then have i: "stream_inv s1" "rs = write_completed s1"
    using call_tame [OF hands_off_tame [OF h] conjunct2 [OF p]] by (simp_all add: s1_def)
  have "st_flags s1 = st_flags s" "st_fd s1 = st_fd s" "shut_error s1 = shut_error s"
    using call_onlooker [OF assms(1)] by (simp_all add: s1_def pop_done_def upd_req_def)
  moreover have "uv__write_callbacks u s1 = Some s'" using p Cons.prems(2) by (simp add: s1_def)
  note Cons.hyps(1) [OF i(2,1) this]
  ultimately show ?case by simp
qed

lemma drain_ok:
  assumes "onlooker u" "stream_inv s" "write_queue s = []" "st_has s UV_STREAM_SHUTTING \<longrightarrow> shutdown_req s \<noteq> None"
    "\<not> st_has s UV_CLOSING" "write_completed s = []"
  shows "\<exists>s'. uv__drain u s = Some s' \<and> stream_inv s' \<and> write_queue s' = [] \<and> write_completed s' = [] \<and> wire s' = wire s \<and>
     calls s' = calls s @ (if st_has s UV_STREAM_SHUTTING \<and> \<not> st_has s UV_STREAM_SHUT
                           then [Shutdown_cb (the (shutdown_req s)) (shut_error s)] else []) \<and>
     (st_has s UV_STREAM_SHUTTING \<and> \<not> st_has s UV_STREAM_SHUT \<longrightarrow> shutdown_req s' = None)"
proof (cases "st_has s UV_STREAM_SHUTTING \<and> \<not> st_has s UV_STREAM_SHUT")
  case False
  have "stream_inv (io_stop POLLOUT s)" using assms(2) by (simp add: io_stop_def stream_inv_def outstanding_def)
  moreover have "uv__drain u s = Some (io_stop POLLOUT s)"
    using False assms(3) by (auto simp: uv__drain_def st_has_def io_stop_def)
  ultimately show ?thesis using False assms(3,6) by (auto simp: io_stop_def)
next
  case True
  then obtain req where req: "shutdown_req s = Some req" using assms(4) by auto
  have h: "hands_off u" using assms(1) by (simp add: onlooker_def)
  have o: "distinct (outstanding s)" "set (outstanding s) \<subseteq> set (st_reqs s)" using assms(2) by (simp_all add: stream_inv_def)
  define s1 where "s1 = (st_clear UV_STREAM_SHUTTING ((io_stop POLLOUT s)\<lparr>shutdown_req := None\<rparr>))\<lparr>st_reqs := removeAll req (st_reqs s)\<rparr>"
  define s2 where "s2 = (if shut_error s = 0 then st_set UV_STREAM_SHUT s1 else s1)"
  have q: "write_queue s2 = []" "write_completed s2 = []" "connect_req s2 = connect_req s" "shutdown_req s2 = None" "wreqs s2 = wreqs s"
     "write_queue_size s2 = write_queue_size s" "st_reqs s2 = removeAll req (st_reqs s)" "calls s2 = calls s" "wire s2 = wire s"
    using assms(3,6) by (simp_all add: s2_def s1_def st_set_def st_clear_def io_stop_def)
  have inv2: "stream_inv s2"
    using assms(2,3,6) o req by (auto simp: stream_inv_def outstanding_def q split: option.splits)
  have un: "req_unregister req (st_clear UV_STREAM_SHUTTING ((io_stop POLLOUT s)\<lparr>shutdown_req := None\<rparr>)) = Some s1"
    using o req by (auto simp: req_unregister_def s1_def st_clear_def io_stop_def outstanding_def)
  have sel: "st_has (io_stop POLLOUT s) m = st_has s m" "shutdown_req (io_stop POLLOUT s) = shutdown_req s" "shut_error s1 = shut_error s" for m
    by (simp_all add: io_stop_def st_has_def s1_def st_clear_def)
  have "uv__drain u s = Some (call u (Shutdown_cb req (shut_error s)) s2)"
    unfolding uv__drain_def using True assms(3,5) req by (simp add: sel un s2_def Let_def)
  then show ?thesis
    using call_tame [OF hands_off_tame [OF h] inv2, of "Shutdown_cb req (shut_error s)"]
      call_hands_off [OF h, of "Shutdown_cb req (shut_error s)" s2] q True req by auto
qed

lemma stream_io_writable:
  assumes u: "onlooker u" and inv: "stream_inv s" and w: "writable s" and c: "connect_req s = None"
    and st: "\<not> st_has s UV_CLOSING" "st_has s UV_STREAM_SHUTTING \<longrightarrow> shutdown_req s \<noteq> None"
  shows "\<exists>s' ws. uv__stream_io u al POLLOUT s = Some s' \<and> stream_inv s' \<and> write_completed s' = [] \<and>
     (\<forall>c \<in> set ws. \<exists>r e. c = Write_cb r e) \<and> length ws \<le> length (write_completed s) + 1 \<and>
     calls s' = calls s @ ws @
       (if write_queue s' = [] \<and> st_has s UV_STREAM_SHUTTING \<and> \<not> st_has s UV_STREAM_SHUT
        then [Shutdown_cb (the (shutdown_req s)) (shut_error s)] else [])"
proof -
  have h: "hands_off u" using u by (simp add: onlooker_def)
  obtain s1 where s1: "uv__write s = Some s1" using uv__write_total [OF inv] w by (auto simp: writable_def)
  have res: "write_result s s1" using uv__write_result [OF s1 inv] w by (simp add: writable_def)
  then have fr: "wframe s s1" "stream_inv s1" by (simp_all add: write_result_def)
  have len: "length (write_completed s1) \<le> length (write_completed s) + 1"
    using res by (auto simp: write_result_def split: list.splits)
  obtain s2 where s2: "uv__write_callbacks u s1 = Some s2" "stream_inv s2" "write_completed s2 = []"
      "calls s2 = calls s1 @ map (\<lambda>r. Write_cb r (w_error (wreqs s1 r))) (write_completed s1)"
      "shutdown_req s2 = shutdown_req s1"
    using write_callbacks_ok [OF hands_off_tame [OF h] fr(2)] h by blast
  have fl: "st_flags s2 = st_flags s" "shut_error s2 = shut_error s" "st_fd s2 = st_fd s" "shutdown_req s2 = shutdown_req s" "calls s1 = calls s"
    using write_callbacks_flags [OF u fr(2) s2(1)] s2(5) fr(1) by (simp_all add: wframe_def)
  have sel: "st_has s2 m = st_has s m" for m using fl by (simp add: st_has_def)
  define s3 where "s3 = (if write_queue s2 = [] then uv__drain u s2 else Some s2)"
  have io: "uv__stream_io u al POLLOUT s = s3"
    using w c st(1) s1 s2(1) by (auto simp: uv__stream_io_def writable_def s3_def)
  let ?ws = "map (\<lambda>r. Write_cb r (w_error (wreqs s1 r))) (write_completed s1)"
  show ?thesis
  proof (cases "write_queue s2 = []")
    case True
    then obtain s' where "uv__drain u s2 = Some s'" "stream_inv s'" "write_queue s' = []" "write_completed s' = []"
       "calls s' = calls s2 @ (if st_has s2 UV_STREAM_SHUTTING \<and> \<not> st_has s2 UV_STREAM_SHUT
                           then [Shutdown_cb (the (shutdown_req s2)) (shut_error s2)] else [])"
      using drain_ok [OF u s2(2)] s2(3) st sel fl by auto
    then show ?thesis using io True len s2(4) fl sel
      by (intro exI [of _ s'] exI [of _ ?ws]) (auto simp: s3_def)
  next
    case False
    then show ?thesis using io len s2 fl by (intro exI [of _ s2] exI [of _ ?ws]) (auto simp: s3_def)
  qed
qed


section \<open>Properties\<close>


text \<open>C14: destroying a stream calls the callback of every outstanding request exactly once and in this
  order: the connect request, the writes that had ended (with their own status, not
  \<open>UV_ECANCELED\<close>), the writes still queued, the shutdown request; afterwards nothing is
  outstanding, no request of the stream is registered with the loop, and the assertion that the
  queue size is 0 holds.\<close>

theorem stream_destroy_completes_all:
  assumes "stream_inv s" and "hands_off u" and "st_has s UV_CLOSED" and "\<not> io_active (POLLIN OR POLLOUT) s"
  shows "\<exists>s'. uv__stream_destroy u s = Some s' \<and> outstanding s' = [] \<and> write_queue_size s' = 0 \<and>
     st_reqs s' = filter (\<lambda>q. q \<notin> set (outstanding s)) (st_reqs s) \<and>
     calls s' = calls s @
       (case connect_req s of None \<Rightarrow> [] | Some r \<Rightarrow> [Connect_cb r STREAM_ECANCELED]) @
       map (\<lambda>r. Write_cb r (w_error (wreqs s r))) (write_completed s) @
       map (\<lambda>r. Write_cb r STREAM_ECANCELED) (write_queue s) @
       (case shutdown_req s of None \<Rightarrow> [] | Some r \<Rightarrow> [Shutdown_cb r STREAM_ECANCELED])"
  using destroy_ok [OF assms] by (simp only: final_calls_def) blast

text \<open>\<open>uv_try_write\<close> on an idle stream writes a prefix of the data and returns its length, or
  returns \<open>UV_EAGAIN\<close> and has written nothing (also when the write failed with another error);
  it leaves no request behind, and never calls back.\<close>

theorem try_write_exact:
  assumes "stream_inv s" and "writable s" and "r \<notin> set (outstanding s)" and "bufs \<noteq> []" and "length bufs \<le> 4"
    and "connect_req s = None" and "write_queue s = []" and "write_queue_size s = 0" and "r \<notin> set (st_reqs s)"
  shows "\<exists>n s'. uv_try_write r bufs s = Some (n, s') \<and> stream_inv s' \<and> outstanding s' = outstanding s \<and>
     st_reqs s' = st_reqs s \<and> calls s' = calls s \<and>
     (if n = UV_EAGAIN then wire s' = wire s \<and> concat bufs \<noteq> []
      else 0 \<le> n \<and> n \<le> int (length (concat bufs)) \<and> wire s' = wire s @ take (nat n) (concat bufs))"
  by (rule try_write_ok [OF assms])


text \<open>Descriptors received over a pipe are accepted in the order they came: receiving adds them at
  the end (or, when no memory is left for the queue, closes those it cannot keep), and
  \<open>uv_accept\<close> hands out the first and, with the last one, starts to poll again.\<close>

theorem descriptors_fifo:
  assumes "fds_inv s" and "\<forall>fd \<in> set fds. fd \<noteq> - 1" and "recv_fds fds s = (err, s1)"
    and "fd_list s1 = fd # rest" and "fd \<ge> 0"
    and "st_type client \<in> {UV_TCP, UV_NAMED_PIPE}" and "st_fd client = - 1" and "opt_error client = 0"
  shows "(if err = 0 then fd_list s1 = fd_list s @ fds \<and> closed_fds s1 = closed_fds s
      else err = UV_ENOMEM \<and> (\<exists>taken left. fds = taken @ left \<and> fd_list s1 = fd_list s @ taken \<and> closed_fds s1 = closed_fds s @ left)) \<and>
     (\<exists>s2 client'. uv_accept udp_open s1 client = Some (0, s2, client') \<and> st_fd client' = fd \<and> fd_list s2 = rest \<and>
        closed_fds s2 = closed_fds s1 \<and> (rest = [] \<longrightarrow> io_active POLLIN s2))"
proof -
  note r = recv_fds_ok [OF assms(1-3)]
  from accept_ok [OF conjunct1 [OF r] assms(4-8), of udp_open] r show ?thesis by blast
qed

text \<open>When a stream becomes writable, the requests that end get their callbacks, at most one more than
  had ended before, and a requested shutdown is carried out and reported exactly when the queue
  has been written out, after the callbacks of the writes.\<close>

theorem shutdown_after_writes:
  assumes "onlooker u" and "stream_inv s" and "writable s" and "connect_req s = None"
    and "\<not> st_has s UV_CLOSING" and "st_has s UV_STREAM_SHUTTING \<longrightarrow> shutdown_req s \<noteq> None"
  shows "\<exists>s' ws. uv__stream_io u al POLLOUT s = Some s' \<and> stream_inv s' \<and> write_completed s' = [] \<and>
     (\<forall>c \<in> set ws. \<exists>r e. c = Write_cb r e) \<and> length ws \<le> length (write_completed s) + 1 \<and>
     calls s' = calls s @ ws @
       (if write_queue s' = [] \<and> st_has s UV_STREAM_SHUTTING \<and> \<not> st_has s UV_STREAM_SHUT
        then [Shutdown_cb (the (shutdown_req s)) (shut_error s)] else [])"
  by (rule stream_io_writable [OF assms])

section \<open>Sample streams\<close>

definition blank_stream :: ustream where
  "blank_stream = \<lparr>st_type = UV_TCP, st_ipc = False, st_flags = 0x60, st_fd = 5, st_events = 0, st_fed = False, st_active = False,
     connect_req = None, shutdown_req = None, delayed_error = 0, accepted_fd = - 1, queued_fds = None, has_read_cb = False,
     has_alloc_cb = False, write_queue = [], write_completed = [], write_queue_size = 0,
     wreqs = (\<lambda>_. \<lparr>w_bufs = None, w_index = 0, w_error = 0, w_send = None\<rparr>), st_reqs = [], emfile_fd = 3, iovmax = 1024,
     wr_results = [], rd_results = [], acc_results = [], open_results = [], alloc_results = [], opt_error = 0, so_error = 0,
     shut_error = 0, wire = [], sent_fds = [], closed_fds = [], calls = []\<rparr>"

definition watching :: user where
  "watching c s = s"

lemma watching_ok [simp]: "hands_off watching" "onlooker watching" "reader watching"
  by (simp_all add: hands_off_def onlooker_def reader_def watching_def)

definition queued_stream :: ustream where
  "queued_stream = blank_stream\<lparr>write_queue := [1], st_reqs := [9, 1, 2], write_queue_size := 2,
     wreqs := (wreqs blank_stream)(1 := \<lparr>w_bufs = Some [[65, 66]], w_index = 0, w_error = 0, w_send = None\<rparr>),
     shutdown_req := Some 2\<rparr>"

lemma blank_inv: "stream_inv (blank_stream\<lparr>wr_results := ns\<rparr>)"
  by (simp add: stream_inv_def outstanding_def blank_stream_def)

lemma queued_inv: "stream_inv (queued_stream\<lparr>st_flags := f, wr_results := ns\<rparr>)"
  by (simp add: stream_inv_def outstanding_def blank_stream_def queued_stream_def pending_ok_def rem_bytes_def)


theorem stream_destroy_completes_all_witness:
  "\<exists>s'. uv__stream_destroy watching (queued_stream\<lparr>st_flags := 0x03, wr_results := []\<rparr>) = Some s' \<and>
     calls s' = [Write_cb 1 STREAM_ECANCELED, Shutdown_cb 2 STREAM_ECANCELED] \<and> st_reqs s' = [9]"
proof -
  have "st_has (queued_stream\<lparr>st_flags := 0x03, wr_results := []\<rparr>) UV_CLOSED"
      "\<not> io_active (POLLIN OR POLLOUT) (queued_stream\<lparr>st_flags := 0x03, wr_results := []\<rparr>)"
    by (simp_all add: queued_stream_def blank_stream_def st_has_def io_active_def)
  from stream_destroy_completes_all [OF queued_inv watching_ok(1) this] show ?thesis
    by (auto simp: queued_stream_def blank_stream_def outstanding_def)
qed

theorem try_write_exact_witness:
  "\<exists>n s'. uv_try_write 1 [[65, 66], [67]] (blank_stream\<lparr>wr_results := [2]\<rparr>) = Some (n, s') \<and> st_reqs s' = [] \<and>
     (if n = UV_EAGAIN then wire s' = [] else wire s' = take (nat n) [65, 66, 67])"
proof -
  have "writable (blank_stream\<lparr>wr_results := [2]\<rparr>)" "1 \<notin> set (outstanding (blank_stream\<lparr>wr_results := [2]\<rparr>))"
    by (simp_all add: writable_def blank_stream_def st_has_def outstanding_def)
  from try_write_exact [OF blank_inv this, of "[[65, 66], [67]]"] show ?thesis
    by (auto simp: blank_stream_def split: if_splits)
qed


theorem descriptors_fifo_witness:
  "\<exists>s1 s2 client'. recv_fds [7, 8] blank_stream = (0, s1) \<and> fd_list s1 = [7, 8] \<and>
     uv_accept (\<lambda>_. 0) s1 (blank_stream\<lparr>st_fd := - 1\<rparr>) = Some (0, s2, client') \<and> st_fd client' = 7 \<and> fd_list s2 = [8]"
proof -
  have inv: "fds_inv blank_stream" by (simp add: fds_inv_def fd_list_def blank_stream_def)
  obtain err s1 where r: "recv_fds [7, 8] blank_stream = (err, s1)" by fastforce
  then have s1: "err = 0" "fd_list s1 = 7 # [8]"
    by (auto simp: blank_stream_def uv__stream_queue_fd_def next_alloc_def fd_list_def)
  show ?thesis
    using descriptors_fifo [OF inv _ r s1(2), of "blank_stream\<lparr>st_fd := - 1\<rparr>" "\<lambda>_. 0"] r s1
    by (auto simp: blank_stream_def)
qed

theorem shutdown_after_writes_witness:
  "\<exists>s' ws. uv__stream_io watching (\<lambda>_. 0) POLLOUT (queued_stream\<lparr>st_flags := 0x68, wr_results := [2]\<rparr>) = Some s' \<and>
     (\<forall>c \<in> set ws. \<exists>r e. c = Write_cb r e) \<and>
     calls s' = ws @ (if write_queue s' = [] then [Shutdown_cb 2 0] else [])"
proof -
  let ?s = "queued_stream\<lparr>st_flags := 0x68, wr_results := [2]\<rparr>"
  have c: "writable ?s" "connect_req ?s = None" "\<not> st_has ?s UV_CLOSING" "st_has ?s UV_STREAM_SHUTTING \<longrightarrow> shutdown_req ?s \<noteq> None"
      "st_has ?s UV_STREAM_SHUTTING" "\<not> st_has ?s UV_STREAM_SHUT" "calls ?s = []" "shutdown_req ?s = Some 2" "shut_error ?s = 0"
    by (simp_all add: writable_def queued_stream_def blank_stream_def st_has_def)
  from shutdown_after_writes [OF watching_ok(2) queued_inv c(1-4), of "\<lambda>_. 0"] show ?thesis
    using c(5-9) by auto
qed


end
