(* ===== verification/Poll.thy ===== *)
theory Poll
  imports LoopWatcher "HOL-Library.Monad_Syntax"
begin

text \<open>
  Waiting for I/O: \<open>uv__io_poll\<close> of \<open>src/src/libuv/src/unix/linux-core.c\<close>, with the clock of the
  same file and \<open>uv__update_time\<close> of \<open>internal.h\<close>.

  The kernel is a parameter: \<open>'k\<close> is its state and a record \<open>K\<close> of functions holds the system
  calls the code makes.  What the proofs rely on is stated by \<open>epoll_laws\<close>.  The event array on
  the stack of \<open>uv__io_poll\<close> is the field \<open>ep_events\<close>, since \<open>uv__platform_invalidate_fd\<close>
  writes into it while callbacks run.  \<open>abort\<close> and a failed \<open>assert\<close> are \<open>None\<close>.
\<close>

section \<open>Data\<close>

datatype ctl_op = UV__EPOLL_CTL_ADD | UV__EPOLL_CTL_DEL | UV__EPOLL_CTL_MOD

datatype clock_id = CLOCK_MONOTONIC | CLOCK_MONOTONIC_COARSE

datatype uv_clocktype = UV_CLOCK_PRECISE | UV_CLOCK_FAST

abbreviation EPOLL_EEXIST :: int where "EPOLL_EEXIST \<equiv> 17"
abbreviation EPOLL_EINTR :: int where "EPOLL_EINTR \<equiv> 4"
abbreviation EPOLL_ENOSYS :: int where "EPOLL_ENOSYS \<equiv> 38"
abbreviation UV_LOOP_BLOCK_SIGPROF :: u32 where "UV_LOOP_BLOCK_SIGPROF \<equiv> 1"

text \<open>What \<open>epoll_wait\<close> reports: \<open>errno\<close>, or the descriptors that are ready with their events.\<close>

datatype wait_result = Wait_failed int | Ready "(int \<times> u32) list"

text \<open>\<open>sys_ctl\<close> is \<open>epoll_ctl\<close>, 0 or \<open>errno\<close>; \<open>sys_wait\<close> is \<open>epoll_pwait\<close> when its first argument is
  true, else \<open>epoll_wait\<close>; \<open>sys_sigmask\<close> blocks or unblocks SIGPROF; the two clock calls give
  seconds and nanoseconds.\<close>

record 'k syscalls =
  sys_ctl :: "ctl_op \<Rightarrow> int \<Rightarrow> u32 \<Rightarrow> 'k \<Rightarrow> int \<times> 'k"
  sys_wait :: "bool \<Rightarrow> int \<Rightarrow> u64 \<Rightarrow> 'k \<Rightarrow> wait_result \<times> 'k"
  sys_sigmask :: "bool \<Rightarrow> 'k \<Rightarrow> int \<times> 'k"
  sys_getres :: "clock_id \<Rightarrow> 'k \<Rightarrow> (int \<times> u64) \<times> 'k"
  sys_gettime :: "clock_id \<Rightarrow> 'k \<Rightarrow> (int \<times> u64 \<times> u64) \<times> 'k"
  long_is_32 :: bool

text \<open>\<open>fast_clock\<close>, \<open>no_epoll_wait\<close> and \<open>no_epoll_pwait\<close> are static variables.\<close>

record 'k ploop = wloop +
  loop_flags :: u32
  backend_fd :: int
  signal_io :: addr
  fast_clock :: "clock_id option"
  no_epoll_wait :: bool
  no_epoll_pwait :: bool
  kern :: 'k

section \<open>The clock\<close>

definition uv__hrtime :: "('k, 's) syscalls_scheme \<Rightarrow> uv_clocktype \<Rightarrow> ('k, 'a) ploop_scheme \<Rightarrow> u64 \<times> ('k, 'a) ploop_scheme" where
  "uv__hrtime K ty L =
     (let L = (if ty = UV_CLOCK_FAST \<and> fast_clock L = None then
                 (case sys_getres K CLOCK_MONOTONIC_COARSE (kern L) of
                    ((r, nsec), k) \<Rightarrow>
                      L\<lparr>fast_clock := Some (if r = 0 \<and> nsec \<le> 1 * 1000 * 1000
                                           then CLOCK_MONOTONIC_COARSE else CLOCK_MONOTONIC),
                        kern := k\<rparr>)
               else L);
          clk = (case (ty, fast_clock L) of (UV_CLOCK_FAST, Some c) \<Rightarrow> c | _ \<Rightarrow> CLOCK_MONOTONIC)
      in case sys_gettime K clk (kern L) of
           ((r, sec, nsec), k) \<Rightarrow>
             (if r \<noteq> 0 then 0 else sec * 1000000000 + nsec, L\<lparr>kern := k\<rparr>))"

definition uv__update_time :: "('k, 's) syscalls_scheme \<Rightarrow> ('k, 'a) ploop_scheme \<Rightarrow> ('k, 'a) ploop_scheme" where
  "uv__update_time K L =
     (case uv__hrtime K UV_CLOCK_FAST L of (t, L) \<Rightarrow> L\<lparr>time := t div 1000000\<rparr>)"

section \<open>Telling the kernel what to watch\<close>

definition epoll_ctl ::
  "('k, 's) syscalls_scheme \<Rightarrow> ctl_op \<Rightarrow> int \<Rightarrow> u32 \<Rightarrow> ('k, 'a) ploop_scheme \<Rightarrow> int \<times> ('k, 'a) ploop_scheme" where
  "epoll_ctl K op fd ev L =
     (case sys_ctl K op fd ev (kern L) of (r, k) \<Rightarrow> (r, L\<lparr>kern := k\<rparr>))"

text \<open>The part of \<open>uv__platform_invalidate_fd\<close> that concerns the kernel, and \<open>uv__io_close\<close> with it.\<close>

definition epoll_forget :: "('k, 's) syscalls_scheme \<Rightarrow> int \<Rightarrow> ('k, 'a) ploop_scheme \<Rightarrow> ('k, 'a) ploop_scheme" where
  "epoll_forget K fd L = (if backend_fd L \<ge> 0 then snd (epoll_ctl K UV__EPOLL_CTL_DEL fd 0 L) else L)"

definition poll_io_close :: "('k, 's) syscalls_scheme \<Rightarrow> addr \<Rightarrow> ('k, 'a) ploop_scheme \<Rightarrow> ('k, 'a) ploop_scheme option" where
  "poll_io_close K w L = do { L1 \<leftarrow> uv__io_close w L; Some (epoll_forget K (io_fd (ios L w)) L1) }"

definition uv__io_check_fd :: "('k, 's) syscalls_scheme \<Rightarrow> int \<Rightarrow> ('k, 'a) ploop_scheme \<Rightarrow> (int \<times> ('k, 'a) ploop_scheme) option" where
  "uv__io_check_fd K fd L =
     (let (r, L) = epoll_ctl K UV__EPOLL_CTL_ADD fd POLLIN L;
          rc = (if r \<noteq> 0 \<and> r \<noteq> EPOLL_EEXIST then - r else 0)
      in if rc = 0 then
           (let (r, L) = epoll_ctl K UV__EPOLL_CTL_DEL fd POLLIN L
            in if r \<noteq> 0 then None else Some (rc, L))
         else Some (rc, L))"

text \<open>One round of the loop that empties the watcher queue, after the watcher was taken out of it.\<close>

definition register_one :: "('k, 's) syscalls_scheme \<Rightarrow> addr \<Rightarrow> ('k, 'a) ploop_scheme \<Rightarrow> ('k, 'a) ploop_scheme option" where
  "register_one K w L =
     (let x = ios L w in
      do { ASSERT (pevents x \<noteq> 0);
           ASSERT (io_fd x \<ge> 0);
           ASSERT (io_fd x < sint (nwatchers L));
           let op = (if io_events x = 0 then UV__EPOLL_CTL_ADD else UV__EPOLL_CTL_MOD);
           let (r, L) = epoll_ctl K op (io_fd x) (pevents x) L;
           L \<leftarrow> (if r = 0 then Some L
                 else if r \<noteq> EPOLL_EEXIST then None
                 else if op \<noteq> UV__EPOLL_CTL_ADD then None
                 else let (r, L) = epoll_ctl K UV__EPOLL_CTL_MOD (io_fd x) (pevents x) L
                      in if r \<noteq> 0 then None else Some L);
           Some (set_io w (x\<lparr>io_events := pevents x\<rparr>) L) })"

fun register_watchers :: "('k, 's) syscalls_scheme \<Rightarrow> addr list \<Rightarrow> ('k, 'a) ploop_scheme \<Rightarrow> ('k, 'a) ploop_scheme option" where
  "register_watchers K [] L = Some L"
| "register_watchers K (w # ws) L =
     Option.bind (register_one K w (L\<lparr>watcher_queue := ws\<rparr>)) (register_watchers K ws)"

section \<open>Calling the watchers that are ready\<close>

text \<open>What is reported of an event: only what was asked for, and when just an error or a hangup
  was reported, also the directions the watcher is interested in.\<close>

definition wanted_events :: "u32 \<Rightarrow> u32 \<Rightarrow> u32" where
  "wanted_events pev ev =
     (let ev = ev AND (pev OR POLLERR OR POLLHUP)
      in if ev = POLLERR \<or> ev = POLLHUP then ev OR (pev AND (POLLIN OR POLLOUT)) else ev)"

type_synonym ('k, 'a) io_call = "nat \<Rightarrow> addr \<Rightarrow> u32 \<Rightarrow> ('k, 'a) ploop_scheme \<Rightarrow> ('k, 'a) ploop_scheme option"

text \<open>The body of the loop over the events; the result says whether the signal watcher is ready and
  counts the events.\<close>

definition dispatch_one ::
  "('k, 's) syscalls_scheme \<Rightarrow> ('k, 'a) io_call \<Rightarrow> nat \<Rightarrow> bool \<Rightarrow> nat \<Rightarrow> ('k, 'a) ploop_scheme
    \<Rightarrow> (bool \<times> nat \<times> ('k, 'a) ploop_scheme) option" where
  "dispatch_one K call i have_signals nevents L =
     (case ep_events L ! i of (fd, ev) \<Rightarrow>
        if fd = - 1 then Some (have_signals, nevents, L)
        else if \<not> fd \<ge> 0 then None
        else if \<not> fd < uint (nwatchers L) then None
        else (case watchers L ! nat fd of
            NoWatcher \<Rightarrow> Some (have_signals, nevents, snd (epoll_ctl K UV__EPOLL_CTL_DEL fd ev L))
          | Watcher w \<Rightarrow>
              (let ev = wanted_events (pevents (ios L w)) ev;
                   L = L\<lparr>ep_events := (ep_events L)[i := (fd, ev)]\<rparr>
               in if ev = 0 then Some (have_signals, nevents, L)
                  else if w = signal_io L then Some (True, nevents + 1, L)
                  else map_option (\<lambda>L. (have_signals, nevents + 1, L)) (call (io_cb (ios L w)) w ev L))
          | _ \<Rightarrow> None))"

fun dispatch_events ::
  "('k, 's) syscalls_scheme \<Rightarrow> ('k, 'a) io_call \<Rightarrow> nat list \<Rightarrow> bool \<Rightarrow> nat \<Rightarrow> ('k, 'a) ploop_scheme
    \<Rightarrow> (bool \<times> nat \<times> ('k, 'a) ploop_scheme) option" where
  "dispatch_events K call [] hs ne L = Some (hs, ne, L)"
| "dispatch_events K call (i # is) hs ne L =
     Option.bind (dispatch_one K call i hs ne L) (\<lambda>(hs, ne, L). dispatch_events K call is hs ne L)"

text \<open>\<open>loop->watchers[loop->nwatchers]\<close> and the entry after it.\<close>

definition set_fake :: "wslot \<Rightarrow> wslot \<Rightarrow> ('k, 'a) ploop_scheme \<Rightarrow> ('k, 'a) ploop_scheme" where
  "set_fake p q L =
     L\<lparr>watchers := (watchers L)[unat (nwatchers L) := p, unat (nwatchers L) + 1 := q]\<rparr>"

text \<open>From the wait that has returned events to the point where the loop decides whether to poll
  again: the callbacks, the signal watcher's last.\<close>

definition poll_dispatch ::
  "('k, 's) syscalls_scheme \<Rightarrow> ('k, 'a) io_call \<Rightarrow> (int \<times> u32) list \<Rightarrow> ('k, 'a) ploop_scheme
    \<Rightarrow> (bool \<times> nat \<times> ('k, 'a) ploop_scheme) option" where
  "poll_dispatch K call evs L =
     do { ASSERT (watchers L \<noteq> []);
          let L = set_fake EventList (EventCount (length evs)) (L\<lparr>ep_events := evs\<rparr>);
          (hs, ne, L) \<leftarrow> dispatch_events K call [0 ..< length evs] False 0 L;
          L \<leftarrow> (if hs then call (io_cb (ios L (signal_io L))) (signal_io L) POLLIN L else Some L);
          Some (hs, ne, set_fake NoWatcher NoWatcher L) }"

section \<open>Polling\<close>

definition sigprof_mask :: "('k, 'a) ploop_scheme \<Rightarrow> u64" where
  "sigprof_mask L = (if has_flag (loop_flags L) UV_LOOP_BLOCK_SIGPROF then push_bit 26 1 else 0)"

text \<open>One wait, with the signal blocked around it when \<open>epoll_pwait\<close> is missing, and the clock
  read afterwards.\<close>

definition poll_wait ::
  "('k, 's) syscalls_scheme \<Rightarrow> u64 \<Rightarrow> int \<Rightarrow> ('k, 'a) ploop_scheme \<Rightarrow> (wait_result \<times> ('k, 'a) ploop_scheme) option" where
  "poll_wait K sigmask tmo L =
     do { L \<leftarrow> (if sigmask \<noteq> 0 \<and> no_epoll_pwait L then
                 (case sys_sigmask K True (kern L) of (r, k) \<Rightarrow>
                    if r \<noteq> 0 then None else Some (L\<lparr>kern := k\<rparr>))
               else Some L);
          let pwait = (no_epoll_wait L \<or> (sigmask \<noteq> 0 \<and> \<not> no_epoll_pwait L));
          let (r, k) = sys_wait K pwait tmo (if pwait then sigmask else 0) (kern L);
          let L = L\<lparr>kern := k\<rparr>;
          let L = (if r = Wait_failed EPOLL_ENOSYS
                   then (if pwait then L\<lparr>no_epoll_pwait := True\<rparr> else L\<lparr>no_epoll_wait := True\<rparr>) else L);
          L \<leftarrow> (if sigmask \<noteq> 0 \<and> no_epoll_pwait L then
                 (case sys_sigmask K False (kern L) of (r, k) \<Rightarrow>
                    if r \<noteq> 0 then None else Some (L\<lparr>kern := k\<rparr>))
               else Some L);
          Some (r, uv__update_time K L) }"

text \<open>What a round of \<open>for (;;)\<close> comes to: a return, or another round.\<close>

datatype 'l poll_next = Return 'l | Again int int nat 'l

text \<open>The label \<open>update_timeout\<close>.  The difference of the times is a \<open>uint64_t\<close>, which the assignment
  to \<open>real_timeout\<close> narrows to \<open>int\<close>.\<close>

definition update_timeout :: "u64 \<Rightarrow> int \<Rightarrow> int \<Rightarrow> nat \<Rightarrow> ('k, 'a) ploop_scheme \<Rightarrow> ('k, 'a) ploop_scheme poll_next option" where
  "update_timeout base tmo real_timeout count L =
     do { ASSERT (tmo > 0);
          let real_timeout = sint (ucast ((word_of_int real_timeout :: u64) - (time L - base)) :: u32);
          Some (if real_timeout \<le> 0 then Return L else Again real_timeout real_timeout count L) }"

definition poll_round ::
  "('k, 's) syscalls_scheme \<Rightarrow> ('k, 'a) io_call \<Rightarrow> u64 \<Rightarrow> u64 \<Rightarrow> int \<Rightarrow> int \<Rightarrow> nat \<Rightarrow> ('k, 'a) ploop_scheme
    \<Rightarrow> ('k, 'a) ploop_scheme poll_next option" where
  "poll_round K call sigmask base tmo real_timeout count L =
     do { let tmo = (if long_is_32 K \<and> tmo \<ge> 1789569 then 1789569 else tmo);
          (r, L) \<leftarrow> poll_wait K sigmask tmo L;
          (case r of
             Ready [] \<Rightarrow>
               do { ASSERT (tmo \<noteq> - 1);
                    if tmo = 0 then Some (Return L) else update_timeout base tmo real_timeout count L }
           | Wait_failed e \<Rightarrow>
               if e = EPOLL_ENOSYS then
                 do { ASSERT (\<not> no_epoll_wait L \<or> \<not> no_epoll_pwait L); Some (Again tmo real_timeout count L) }
               else if e \<noteq> EPOLL_EINTR then None
               else if tmo = - 1 then Some (Again tmo real_timeout count L)
               else if tmo = 0 then Some (Return L)
               else update_timeout base tmo real_timeout count L
           | Ready evs \<Rightarrow>
               do { (hs, ne, L) \<leftarrow> poll_dispatch K call evs L;
                    if hs then Some (Return L)
                    else if ne \<noteq> 0 then
                      Some (if length evs = 1024 \<and> count - 1 \<noteq> 0 then Again 0 real_timeout (count - 1) L
                            else Return L)
                    else if tmo = 0 then Some (Return L)
                    else if tmo = - 1 then Some (Again tmo real_timeout count L)
                    else update_timeout base tmo real_timeout count L }) }"

partial_function (option) poll_loop ::
  "('k, 's) syscalls_scheme \<Rightarrow> ('k, 'a) io_call \<Rightarrow> u64 \<Rightarrow> u64 \<Rightarrow> int \<Rightarrow> int \<Rightarrow> nat \<Rightarrow> ('k, 'a) ploop_scheme
    \<Rightarrow> ('k, 'a) ploop_scheme option" where
  [code]: "poll_loop K call sigmask base tmo real_timeout count L =
     Option.bind (poll_round K call sigmask base tmo real_timeout count L) (\<lambda>r.
       case r of Return L \<Rightarrow> Some L
       | Again tmo real_timeout count L \<Rightarrow> poll_loop K call sigmask base tmo real_timeout count L)"

definition uv__io_poll ::
  "('k, 's) syscalls_scheme \<Rightarrow> ('k, 'a) io_call \<Rightarrow> int \<Rightarrow> ('k, 'a) ploop_scheme \<Rightarrow> ('k, 'a) ploop_scheme option" where
  "uv__io_poll K call tmo L =
     (if nfds L = 0 then do { ASSERT (watcher_queue L = []); Some L }
      else do { L \<leftarrow> register_watchers K (watcher_queue L) L;
                ASSERT (tmo \<ge> - 1);
                poll_loop K call (sigprof_mask L) (time L) tmo tmo 48 L })"


section \<open>What is relied on of the kernel\<close>

text \<open>\<open>interest k fd\<close> are the events descriptor \<open>fd\<close> is watched for.  The laws are those of
  \<open>epoll_ctl(2)\<close> and \<open>epoll_wait(2)\<close> for descriptors that can be polled: adding what is there is
  EEXIST, a wait reports at most 1024 events, of watched descriptors only, and fails only when
  interrupted or, for \<open>epoll_wait\<close>, when the kernel has just \<open>epoll_pwait\<close>.\<close>

definition ctl_laws :: "('k, 's) syscalls_scheme \<Rightarrow> ('k \<Rightarrow> int \<Rightarrow> u32 option) \<Rightarrow> (int \<Rightarrow> bool) \<Rightarrow> bool" where
  "ctl_laws K interest pollable \<longleftrightarrow>
     (\<forall>fd ev k. pollable fd \<longrightarrow> interest k fd = None \<longrightarrow>
        fst (sys_ctl K UV__EPOLL_CTL_ADD fd ev k) = 0 \<and>
        interest (snd (sys_ctl K UV__EPOLL_CTL_ADD fd ev k)) = (interest k)(fd := Some ev)) \<and>
     (\<forall>fd ev k. interest k fd \<noteq> None \<longrightarrow>
        fst (sys_ctl K UV__EPOLL_CTL_ADD fd ev k) = EPOLL_EEXIST \<and>
        interest (snd (sys_ctl K UV__EPOLL_CTL_ADD fd ev k)) = interest k) \<and>
     (\<forall>fd ev k. interest k fd \<noteq> None \<longrightarrow>
        fst (sys_ctl K UV__EPOLL_CTL_MOD fd ev k) = 0 \<and>
        interest (snd (sys_ctl K UV__EPOLL_CTL_MOD fd ev k)) = (interest k)(fd := Some ev)) \<and>
     (\<forall>fd ev k. interest (snd (sys_ctl K UV__EPOLL_CTL_DEL fd ev k)) = (interest k)(fd := None))"

definition wait_laws :: "('k, 's) syscalls_scheme \<Rightarrow> ('k \<Rightarrow> int \<Rightarrow> u32 option) \<Rightarrow> bool" where
  "wait_laws K interest \<longleftrightarrow>
     (\<forall>p t m k. interest (snd (sys_wait K p t m k)) = interest k \<and>
        (case fst (sys_wait K p t m k) of
           Ready evs \<Rightarrow> length evs \<le> 1024 \<and> (\<forall>(fd, ev) \<in> set evs. interest k fd \<noteq> None)
         | Wait_failed e \<Rightarrow> e = EPOLL_EINTR \<or> (e = EPOLL_ENOSYS \<and> \<not> p))) \<and>
     (\<forall>b k. fst (sys_sigmask K b k) = 0 \<and> interest (snd (sys_sigmask K b k)) = interest k) \<and>
     (\<forall>c k. interest (snd (sys_getres K c k)) = interest k) \<and>
     (\<forall>c k. interest (snd (sys_gettime K c k)) = interest k)"

section \<open>The loop and the kernel agree\<close>

text \<open>The kernel watches descriptors of the table only; a watcher that was handed to it is known to
  it; and one that is not queued is watched for exactly the events it wants.\<close>

definition poll_inv :: "('k \<Rightarrow> int \<Rightarrow> u32 option) \<Rightarrow> ('k, 'a) ploop_scheme \<Rightarrow> bool" where
  "poll_inv interest L \<longleftrightarrow>
     io_inv L \<and> unat (nwatchers L) < 2 ^ 31 \<and> backend_fd L \<ge> 0 \<and> \<not> no_epoll_pwait L \<and>
     (\<forall>fd. interest (kern L) fd \<noteq> None \<longrightarrow> 0 \<le> fd \<and> fd < uint (nwatchers L)) \<and>
     (\<forall>w. registered L w \<longrightarrow> io_events (ios L w) \<noteq> 0 \<longrightarrow> interest (kern L) (io_fd (ios L w)) \<noteq> None) \<and>
     (\<forall>w. registered L w \<longrightarrow> w \<notin> set (watcher_queue L) \<longrightarrow>
        io_events (ios L w) = pevents (ios L w) \<and> interest (kern L) (io_fd (ios L w)) = Some (pevents (ios L w)))"

lemma ploop_upd [simp]:
  "slot_at (L\<lparr>kern := k\<rparr>) i = slot_at L i" "registered (L\<lparr>kern := k\<rparr>) w = registered L w"
  "registered (L\<lparr>watcher_queue := q\<rparr>) w = registered L w"
  "watched_fds (L\<lparr>kern := k\<rparr>) = watched_fds L" "io_inv (L\<lparr>kern := k\<rparr>) = io_inv L"
  "io_inv (L\<lparr>no_epoll_wait := b\<rparr>) = io_inv L" "io_inv (L\<lparr>fast_clock := c\<rparr>) = io_inv L"
  "io_inv (L\<lparr>time := t\<rparr>) = io_inv L"
  "registered (L\<lparr>no_epoll_wait := b\<rparr>) w = registered L w"
  "registered (L\<lparr>fast_clock := c\<rparr>) w = registered L w"
  "registered (L\<lparr>time := t\<rparr>) w = registered L w"
  "io_inv (L\<lparr>ep_events := e\<rparr>) = io_inv L" "registered (L\<lparr>ep_events := e\<rparr>) w = registered L w"
  "slot_at (ploop.more_update g L) i = slot_at L i"
  "io_inv (ploop.more_update g L) = io_inv L" "registered (ploop.more_update g L) w = registered L w"
  by (simp_all add: slot_at_def registered_def watched_fds_def io_inv_def)

lemma sint_nwatchers:
  assumes "unat (n :: u32) < 2 ^ 31"
  shows "sint n = uint n"
proof -
  have "int (unat n) < int (2 ^ 31)" using assms by (simp only: of_nat_less_iff)
  then have "uint n < 2 ^ 31" by simp
  moreover have "- (2 ^ 31) \<le> uint n" by (rule order_trans [OF _ uint_ge_0]) simp
  ultimately show ?thesis using signed_take_bit_int_eq_self [of 31 "uint n"] by (simp add: sint_uint)
qed

lemma registered_in_table_int:
  assumes "registered L w"
  shows "io_fd (ios L w) < uint (nwatchers L)"
proof -
  have "int (nat (io_fd (ios L w))) < int (unat (nwatchers L))"
    using registered_in_table [OF assms] by (simp only: of_nat_less_iff)
  then show ?thesis using registered_nonneg [OF assms] by simp
qed

lemma register_one_ok:
  assumes laws: "ctl_laws K interest pollable" and inv: "poll_inv interest L"
    and q: "watcher_queue L = w # ws" and pollable: "pollable (io_fd (ios L w))"
  shows "\<exists>L'. register_one K w (L\<lparr>watcher_queue := ws\<rparr>) = Some L' \<and> poll_inv interest L' \<and>
    watcher_queue L' = ws \<and> (\<forall>v. registered L' v = registered L v \<and> pevents (ios L' v) = pevents (ios L v) \<and>
      io_fd (ios L' v) = io_fd (ios L v) \<and> io_cb (ios L' v) = io_cb (ios L v)) \<and>
    (\<exists>k. L' = set_io w ((ios L w)\<lparr>io_events := pevents (ios L w)\<rparr>) (L\<lparr>watcher_queue := ws, kern := k\<rparr>))"
proof -
  let ?x = "ios L w" and ?fd = "io_fd (ios L w)"
  have io: "io_inv L" and nw: "unat (nwatchers L) < 2 ^ 31" using inv by (simp_all add: poll_inv_def)
  have rg: "registered L w" using io q by (simp add: io_inv_def)
  have fd: "0 \<le> ?fd" "?fd < sint (nwatchers L)"
    using registered_in_table_int [OF rg] registered_nonneg [OF rg] by (simp_all add: sint_nwatchers [OF nw])
  have pe: "pevents ?x \<noteq> 0" using registered_iff_pevents [OF io] rg by simp
  let ?M = "\<lambda>k. set_io w (?x\<lparr>io_events := pevents ?x\<rparr>) (L\<lparr>watcher_queue := ws, kern := k\<rparr>)"
  have "\<exists>k. register_one K w (L\<lparr>watcher_queue := ws\<rparr>) = Some (?M k) \<and>
      interest k = (interest (kern L))(?fd := Some (pevents ?x))"
  proof (cases "io_events ?x = 0")
    case True
    show ?thesis
    proof (cases "interest (kern L) ?fd = None")
      case True
      then obtain k where k: "sys_ctl K UV__EPOLL_CTL_ADD ?fd (pevents ?x) (kern L) = (0, k)"
          "interest k = (interest (kern L))(?fd := Some (pevents ?x))"
        using laws pollable by (simp add: ctl_laws_def prod_eq_iff)
      then show ?thesis using pe fd \<open>io_events ?x = 0\<close>
        by (intro exI [of _ k]) (simp add: register_one_def Let_def epoll_ctl_def)
    next
      case False
      obtain k1 where a: "sys_ctl K UV__EPOLL_CTL_ADD ?fd (pevents ?x) (kern L) = (EPOLL_EEXIST, k1)"
          "interest k1 = interest (kern L)"
        using laws False by (simp add: ctl_laws_def prod_eq_iff)
      obtain k where k: "sys_ctl K UV__EPOLL_CTL_MOD ?fd (pevents ?x) k1 = (0, k)"
          "interest k = (interest (kern L))(?fd := Some (pevents ?x))"
        using laws False a(2) by (simp add: ctl_laws_def prod_eq_iff)
      then show ?thesis using pe fd \<open>io_events ?x = 0\<close> a(1)
        by (intro exI [of _ k]) (simp add: register_one_def Let_def epoll_ctl_def)
    qed
  next
    case False
    then have "interest (kern L) ?fd \<noteq> None" using inv rg by (simp add: poll_inv_def)
    then obtain k where k: "sys_ctl K UV__EPOLL_CTL_MOD ?fd (pevents ?x) (kern L) = (0, k)"
        "interest k = (interest (kern L))(?fd := Some (pevents ?x))"
      using laws by (simp add: ctl_laws_def prod_eq_iff)
    then show ?thesis using pe fd False
      by (intro exI [of _ k]) (simp add: register_one_def Let_def epoll_ctl_def)
  qed
  then obtain k where k: "register_one K w (L\<lparr>watcher_queue := ws\<rparr>) = Some (?M k)"
      "interest k = (interest (kern L))(?fd := Some (pevents ?x))" by blast
  have sl: "slot_at (?M k) i = slot_at L i" for i by (simp add: slot_at_def set_io_def)
  have rgs: "registered (?M k) v = registered L v" for v by (simp add: registered_def sl)
  have same_fd: "v = w" if "registered L v" "io_fd (ios L v) = ?fd" for v
    using that rg by (simp add: registered_def)
  have "io_inv (?M k)"
    using io q pe rg unfolding io_inv_def sl rgs watched_fds_def by (auto simp: set_io_def)
  moreover have "interest (kern (?M k)) = (interest (kern L))(?fd := Some (pevents ?x))"
    using k(2) by (simp add: set_io_def)
  ultimately have "poll_inv interest (?M k)"
    using inv q pe fd nw same_fd unfolding poll_inv_def rgs
    by (auto simp: set_io_def sint_nwatchers)
  moreover have "\<forall>v. registered (?M k) v = registered L v \<and> pevents (ios (?M k) v) = pevents (ios L v) \<and>
      io_fd (ios (?M k) v) = io_fd (ios L v) \<and> io_cb (ios (?M k) v) = io_cb (ios L v)"
    unfolding rgs by (simp add: set_io_def)
  moreover have "watcher_queue (?M k) = ws" by (simp add: set_io_def)
  ultimately show ?thesis using k(1) by blast
qed

lemma register_watchers_ok:
  assumes laws: "ctl_laws K interest pollable" and "poll_inv interest L" and "watcher_queue L = ws"
    and "\<forall>w. registered L w \<longrightarrow> pollable (io_fd (ios L w))"
  shows "\<exists>L'. register_watchers K ws L = Some L' \<and> poll_inv interest L' \<and> watcher_queue L' = [] \<and>
    (\<forall>v. registered L' v = registered L v \<and> pevents (ios L' v) = pevents (ios L v) \<and>
      io_fd (ios L' v) = io_fd (ios L v) \<and> io_cb (ios L' v) = io_cb (ios L v)) \<and>
    (\<exists>k f. L' = L\<lparr>watcher_queue := [], kern := k, ios := f\<rparr>)"
  using assms(2-4)
proof (induction ws arbitrary: L)
  case Nil
  then show ?case by (intro exI [of _ L] conjI exI [of _ "kern L"] exI [of _ "ios L"]) simp_all
next
  case (Cons w ws)
  have "registered L w" using Cons.prems(1,2) by (simp add: poll_inv_def io_inv_def)
  then have pw: "pollable (io_fd (ios L w))" using Cons.prems(3) by simp
  obtain L1 where L1: "register_one K w (L\<lparr>watcher_queue := ws\<rparr>) = Some L1" "poll_inv interest L1"
      "watcher_queue L1 = ws" "\<forall>v. registered L1 v = registered L v \<and> pevents (ios L1 v) = pevents (ios L v) \<and>
      io_fd (ios L1 v) = io_fd (ios L v) \<and> io_cb (ios L1 v) = io_cb (ios L v)"
      "\<exists>k. L1 = set_io w ((ios L w)\<lparr>io_events := pevents (ios L w)\<rparr>) (L\<lparr>watcher_queue := ws, kern := k\<rparr>)"
    using register_one_ok [OF laws Cons.prems(1,2) pw] by blast
  have "\<forall>v. registered L1 v \<longrightarrow> pollable (io_fd (ios L1 v))" using L1(4) Cons.prems(3) by simp
  from Cons.IH [OF L1(2,3) this] obtain L' where L': "register_watchers K ws L1 = Some L'" "poll_inv interest L'"
      "watcher_queue L' = []" "\<forall>v. registered L' v = registered L1 v \<and> pevents (ios L' v) = pevents (ios L1 v) \<and>
      io_fd (ios L' v) = io_fd (ios L1 v) \<and> io_cb (ios L' v) = io_cb (ios L1 v)"
      "\<exists>k f. L' = L1\<lparr>watcher_queue := [], kern := k, ios := f\<rparr>" by blast
  have "\<exists>k f. L' = L\<lparr>watcher_queue := [], kern := k, ios := f\<rparr>"
  proof -
    obtain k where "L1 = set_io w ((ios L w)\<lparr>io_events := pevents (ios L w)\<rparr>) (L\<lparr>watcher_queue := ws, kern := k\<rparr>)"
      using L1(5) by blast
    moreover obtain k' f where "L' = L1\<lparr>watcher_queue := [], kern := k', ios := f\<rparr>" using L'(5) by blast
    ultimately have "L' = L\<lparr>watcher_queue := [], kern := k', ios := f\<rparr>" by (simp add: set_io_def)
    then show ?thesis by blast
  qed
  then show ?case using L1(1,4) L'(1-4) by (intro exI [of _ L']) simp
qed

section \<open>Starting and stopping keep the agreement\<close>

lemma iloop_more_ploop:
  fixes L L' :: "('k, 'a) ploop_scheme"
  assumes "iloop.more L' = iloop.more L"
  shows "signal_io L' = signal_io L" "kern L' = kern L" "backend_fd L' = backend_fd L"
    "no_epoll_wait L' = no_epoll_wait L" "no_epoll_pwait L' = no_epoll_pwait L"
    "ploop.more L' = ploop.more L" "loop_flags L' = loop_flags L" "fast_clock L' = fast_clock L"
  using assms by (cases L; cases L'; simp)+

lemma maybe_resize_bound:
  assumes "maybe_resize r len L = Some L'" "unat len + 2 \<le> 2 ^ 31" "unat (nwatchers L) < 2 ^ 31"
  shows "unat (nwatchers L) \<le> unat (nwatchers L') \<and> unat (nwatchers L') < 2 ^ 31 \<and> watcher_queue L' = watcher_queue L"
proof (cases "len \<le> nwatchers L")
  case True
  then show ?thesis using assms by (simp add: maybe_resize_def)
next
  case False
  define p where "p = next_power_of_two (len + 2)"
  have l2: "unat (len + 2) = unat len + 2" using assms(2) by (simp add: unat_word_ariths)
  obtain m where m: "unat p = 2 ^ m" "unat len + 2 \<le> 2 ^ m" "m \<le> 31"
    using next_power_of_two_ok [of "len + 2"] l2 assms(2) by (auto simp: p_def)
  have "(2 :: nat) ^ m \<le> 2 ^ 31" using m(3) by (intro power_increasing) auto
  moreover have "(2 :: u32) \<le> p" using m by (simp add: word_le_nat_alt)
  then have "unat (p - 2) = unat p - 2" by (simp add: unat_sub)
  moreover have "nwatchers L' = p - 2" "watcher_queue L' = watcher_queue L"
    using assms(1) False by (auto simp: maybe_resize_def Let_def p_def split: if_splits)
  moreover have "unat (nwatchers L) < unat len" using False by (simp add: word_le_nat_alt)
  ultimately show ?thesis using m by auto
qed

lemma io_start_queue:
  assumes run: "uv__io_start r w events L = Some L'" and st: "startable L w" and nw: "unat (nwatchers L) < 2 ^ 31"
  shows "set (watcher_queue L') - {w} = set (watcher_queue L) - {w} \<and>
    unat (nwatchers L) \<le> unat (nwatchers L') \<and> unat (nwatchers L') < 2 ^ 31 \<and>
    (w \<notin> set (watcher_queue L') \<longrightarrow> io_events (ios L w) = add_flag (pevents (ios L w)) events \<and>
       (w \<in> set (watcher_queue L) \<longrightarrow> io_events (ios L w) = 0))"
proof -
  let ?L1 = "set_io w ((ios L w)\<lparr>pevents := add_flag (pevents (ios L w)) events\<rparr>) L"
  obtain L2 where L2: "maybe_resize r (word_of_int (io_fd (ios L w) + 1)) ?L1 = Some L2"
    using run by (auto simp: uv__io_start_def Let_def split: option.splits if_splits)
  have "unat (word_of_int (io_fd (ios L w) + 1) :: u32) = nat (io_fd (ios L w) + 1)"
    using unat_of_int32 [of "io_fd (ios L w) + 1"] st by (auto simp: startable_def simp del: of_int_add)
  then have "unat (word_of_int (io_fd (ios L w) + 1) :: u32) + 2 \<le> 2 ^ 31" using st by (auto simp: startable_def)
  from maybe_resize_bound [OF L2 this] nw
  have b: "unat (nwatchers L) \<le> unat (nwatchers L2)" "unat (nwatchers L2) < 2 ^ 31"
      "watcher_queue L2 = watcher_queue L" by simp_all
  have "ios L2 = ios ?L1" using L2 by (auto simp: maybe_resize_def Let_def split: if_splits)
  then have "io_events (ios L2 w) = io_events (ios L w)" "pevents (ios L2 w) = add_flag (pevents (ios L w)) events"
    by simp_all
  then show ?thesis using run L2 b
    by (auto simp: uv__io_start_def Let_def split: if_splits)
qed

lemma poll_inv_io_start:
  assumes inv: "poll_inv interest L" and st: "startable L w" and ev: "events_ok events" and alloc: "\<forall>n. r n"
  shows "\<exists>L'. uv__io_start r w events L = Some L' \<and> poll_inv interest L'"
proof -
  have io: "io_inv L" and nw: "unat (nwatchers L) < 2 ^ 31" using inv by (simp_all add: poll_inv_def)
  obtain L' where L': "uv__io_start r w events L = Some L'" "io_inv L'" "registered L' w"
      "pevents (ios L' w) = add_flag (pevents (ios L w)) events" "io_events (ios L' w) = io_events (ios L w)"
      "io_frame w L L'"
    using io_start_ok [OF io st ev alloc] by blast
  have q: "set (watcher_queue L') - {w} = set (watcher_queue L) - {w}" "unat (nwatchers L) \<le> unat (nwatchers L')"
      "unat (nwatchers L') < 2 ^ 31"
      "w \<notin> set (watcher_queue L') \<longrightarrow> io_events (ios L w) = add_flag (pevents (ios L w)) events \<and>
       (w \<in> set (watcher_queue L) \<longrightarrow> io_events (ios L w) = 0)"
    using io_start_queue [OF L'(1) st nw] by blast+
  have fr: "\<And>v. v \<noteq> w \<Longrightarrow> ios L' v = ios L v \<and> registered L' v = registered L v"
      "io_fd (ios L' w) = io_fd (ios L w)" "iloop.more L' = iloop.more L"
    using L'(6) by (simp_all add: io_frame_def)
  note more = iloop_more_ploop [OF fr(3)]
  have u: "uint (nwatchers L) \<le> uint (nwatchers L')" using q(2) by (simp flip: word_le_nat_alt add: word_le_def)
  have pv: "pevents (ios L' w) \<noteq> 0" using registered_iff_pevents [OF L'(2)] L'(3) by simp
  have rg: "registered L w" if "io_events (ios L w) \<noteq> 0" using io that by (simp add: io_inv_def)
  have "poll_inv interest L'"
    unfolding poll_inv_def
  proof (intro conjI allI impI)
    show "io_inv L'" by (rule L'(2))
    show "unat (nwatchers L') < 2 ^ 31" by (rule q(3))
    show "0 \<le> backend_fd L'" "\<not> no_epoll_pwait L'" using inv by (simp_all add: more poll_inv_def)
    show "0 \<le> fd" "fd < uint (nwatchers L')" if "interest (kern L') fd \<noteq> None" for fd
      using inv u that by (auto simp: more poll_inv_def intro: less_le_trans)
    show "interest (kern L') (io_fd (ios L' v)) \<noteq> None" if "registered L' v" "io_events (ios L' v) \<noteq> 0" for v
      using inv that fr L'(5) rg by (cases "v = w") (auto simp: more poll_inv_def)
    fix v assume v: "registered L' v" "v \<notin> set (watcher_queue L')"
    have "io_events (ios L' v) = pevents (ios L' v) \<and> interest (kern L') (io_fd (ios L' v)) = Some (pevents (ios L' v))"
    proof (cases "v = w")
      case False
      then have "v \<notin> set (watcher_queue L)" using v(2) q(1) by blast
      then show ?thesis using inv fr(1) [OF False] v(1) by (simp add: more poll_inv_def)
    next
      case True
      have e: "io_events (ios L w) = pevents (ios L' w)" using q(4) v(2) True L'(4) by simp
      then have "registered L w" "w \<notin> set (watcher_queue L)" using pv rg q(4) v(2) True by auto
      then show ?thesis using inv e L'(5) fr(2) True by (simp add: more poll_inv_def)
    qed
    then show "io_events (ios L' v) = pevents (ios L' v)" "interest (kern L') (io_fd (ios L' v)) = Some (pevents (ios L' v))"
      by simp_all
  qed
  then show ?thesis using L'(1) by blast
qed

lemma io_stop_queue:
  assumes "uv__io_stop w events L = Some L'"
  shows "set (watcher_queue L') - {w} = set (watcher_queue L) - {w} \<and> nwatchers L' = nwatchers L \<and>
    (io_events (ios L' w) = 0 \<or> io_events (ios L' w) = io_events (ios L w)) \<and>
    (w \<in> set (watcher_queue L') \<or> pevents (ios L' w) = 0 \<or> L' = L \<and> (io_fd (ios L w) = - 1 \<or> nwatchers L \<le> word_of_int (io_fd (ios L w))))"
  using assms by (auto simp: uv__io_stop_def Let_def set_io_def split: if_splits)

lemma poll_inv_io_stop:
  assumes inv: "poll_inv interest L" and st: "stoppable L w" and ev: "events_ok events"
  shows "\<exists>L'. uv__io_stop w events L = Some L' \<and> poll_inv interest L'"
proof -
  have io: "io_inv L" and nw: "unat (nwatchers L) < 2 ^ 31" using inv by (simp_all add: poll_inv_def)
  obtain L' where L': "uv__io_stop w events L = Some L'" "io_inv L'"
      "registered L' w \<longleftrightarrow> pevents (ios L' w) \<noteq> 0" "io_frame w L L'"
    using io_stop_ok [OF io st ev] by blast
  note q = io_stop_queue [OF L'(1)]
  have fr: "\<And>v. v \<noteq> w \<Longrightarrow> ios L' v = ios L v \<and> registered L' v = registered L v"
      "io_fd (ios L' w) = io_fd (ios L w)" "iloop.more L' = iloop.more L"
    using L'(4) by (simp_all add: io_frame_def)
  note more = iloop_more_ploop [OF fr(3)]
  have rg: "registered L w" if "io_events (ios L w) \<noteq> 0" using io that by (simp add: io_inv_def)
  have inq: "w \<in> set (watcher_queue L') \<or> \<not> registered L' w \<or> L' = L" using q L'(3) by blast
  have "poll_inv interest L'"
    unfolding poll_inv_def
  proof (intro conjI allI impI)
    show "io_inv L'" by (rule L'(2))
    show "unat (nwatchers L') < 2 ^ 31" using q nw by simp
    show "0 \<le> backend_fd L'" "\<not> no_epoll_pwait L'" using inv by (simp_all add: more poll_inv_def)
    show "0 \<le> fd" "fd < uint (nwatchers L')" if "interest (kern L') fd \<noteq> None" for fd
      using inv q that by (simp_all add: more poll_inv_def)
    show "interest (kern L') (io_fd (ios L' v)) \<noteq> None" if "registered L' v" "io_events (ios L' v) \<noteq> 0" for v
      using inv that fr q rg by (cases "v = w") (auto simp: more poll_inv_def)
    fix v assume v: "registered L' v" "v \<notin> set (watcher_queue L')"
    have "io_events (ios L' v) = pevents (ios L' v) \<and> interest (kern L') (io_fd (ios L' v)) = Some (pevents (ios L' v))"
    proof (cases "v = w \<and> L' \<noteq> L")
      case False
      then show ?thesis
      proof (cases "v = w")
        case True then show ?thesis using False inv v by (simp add: poll_inv_def)
      next
        case False
        then have "v \<notin> set (watcher_queue L)" using v(2) q by blast
        then show ?thesis using inv fr(1) [OF False] v(1) by (simp add: more poll_inv_def)
      qed
    next
      case True
      then show ?thesis using inq v by blast
    qed
    then show "io_events (ios L' v) = pevents (ios L' v)" "interest (kern L') (io_fd (ios L' v)) = Some (pevents (ios L' v))"
      by simp_all
  qed
  then show ?thesis using L'(1) by blast
qed

section \<open>Closing a watcher while events are handled\<close>

lemma io_stop_table:
  assumes "uv__io_stop w events L = Some L'"
  shows "nwatchers L' = nwatchers L \<and> length (watchers L') = length (watchers L)"
  using assms by (auto simp: uv__io_stop_def Let_def set_io_def split: if_splits)

lemma invalidate_fd_shape:
  assumes "watchers L \<noteq> []"
  shows "\<exists>es. uv__platform_invalidate_fd fd L = Some (L\<lparr>ep_events := es\<rparr>) \<and> length es = length (ep_events L) \<and>
    (\<forall>j < length es. es ! j = ep_events L ! j \<or> (fst (ep_events L ! j) = fd \<and> fst (es ! j) = - 1))"
proof -
  let ?inv = "\<lambda>n. map (\<lambda>(d, e). if d = fd then (- 1, e) else (d, e)) (take n (ep_events L)) @ drop n (ep_events L)"
  have inv: "length (?inv n) = length (ep_events L)"
    "\<forall>j < length (?inv n). ?inv n ! j = ep_events L ! j \<or> (fst (ep_events L ! j) = fd \<and> fst (?inv n ! j) = - 1)" for n
    by (auto simp: nth_append min_def split: prod.splits)
  show ?thesis
  proof (cases "\<exists>n. watchers L ! unat (nwatchers L) = EventList \<and> watchers L ! (unat (nwatchers L) + 1) = EventCount n")
    case True
    then obtain n where "watchers L ! unat (nwatchers L) = EventList" "watchers L ! (unat (nwatchers L) + 1) = EventCount n"
      by blast
    then have "uv__platform_invalidate_fd fd L = Some (L\<lparr>ep_events := ?inv n\<rparr>)"
      using assms by (simp add: uv__platform_invalidate_fd_def)
    then show ?thesis using inv [of n] by blast
  next
    case False
    then have "uv__platform_invalidate_fd fd L = Some (L\<lparr>ep_events := ep_events L\<rparr>)"
      using assms by (auto simp: uv__platform_invalidate_fd_def split: wslot.splits)
    then show ?thesis by (intro exI [of _ "ep_events L"]) simp
  qed
qed

definition close_frame :: "addr \<Rightarrow> ('k, 'a) ploop_scheme \<Rightarrow> ('k, 'a) ploop_scheme \<Rightarrow> bool" where
  "close_frame w L L' \<longleftrightarrow>
     nwatchers L' = nwatchers L \<and> length (watchers L') = length (watchers L) \<and> signal_io L' = signal_io L \<and>
     ploop.more L' = ploop.more L \<and>
     (\<forall>v. registered L' v \<longleftrightarrow> registered L v \<and> v \<noteq> w) \<and>
     (\<forall>v. v \<noteq> w \<longrightarrow> ios L' v = ios L v) \<and> (\<forall>v. io_fd (ios L' v) = io_fd (ios L v) \<and> io_cb (ios L' v) = io_cb (ios L v)) \<and>
     length (ep_events L') = length (ep_events L) \<and>
     (\<forall>j < length (ep_events L). ep_events L' ! j = ep_events L ! j \<or>
        (fst (ep_events L ! j) = io_fd (ios L w) \<and> fst (ep_events L' ! j) = - 1))"

text \<open>A watcher wants only events that \<open>uv__io_start\<close> accepts.\<close>

definition pevents_ok :: "'a iloop_scheme \<Rightarrow> bool" where
  "pevents_ok L \<longleftrightarrow> (\<forall>w. clear_flag (pevents (ios L w)) poll_mask = 0)"

lemma poll_io_close_ok:
  assumes inv: "io_inv L" and st: "stoppable L w" and ne: "watchers L \<noteq> []" and pok: "pevents_ok L"
  shows "\<exists>L'. poll_io_close K w L = Some L' \<and> io_inv L' \<and> pevents_ok L' \<and> close_frame w L L'"
proof -
  obtain L1 where L1: "uv__io_stop w poll_mask L = Some L1" "io_inv L1"
      "pevents (ios L1 w) = clear_flag (pevents (ios L w)) poll_mask"
      "registered L1 w \<longleftrightarrow> pevents (ios L1 w) \<noteq> 0" "io_frame w L L1"
    using io_stop_ok [OF inv st events_ok_mask(1)] by blast
  have p1: "pevents (ios L1 w) = 0" using L1(3) pok by (simp add: pevents_ok_def)
  define L2 where "L2 = L1\<lparr>pending_queue := removeAll w (pending_queue L1), pending_run := removeAll w (pending_run L1)\<rparr>"
  note tab = io_stop_table [OF L1(1)]
  have ne2: "watchers L2 \<noteq> []" using tab ne by (auto simp: L2_def)
  obtain es where es: "uv__platform_invalidate_fd (io_fd (ios L1 w)) L2 = Some (L2\<lparr>ep_events := es\<rparr>)"
      "length es = length (ep_events L2)"
      "\<forall>j < length es. es ! j = ep_events L2 ! j \<or> (fst (ep_events L2 ! j) = io_fd (ios L1 w) \<and> fst (es ! j) = - 1)"
    using invalidate_fd_shape [OF ne2] by blast
  define L3 where "L3 = L2\<lparr>ep_events := es\<rparr>"
  define L' where "L' = epoll_forget K (io_fd (ios L w)) L3"
  have run: "poll_io_close K w L = Some L'"
    using L1(1) es(1) by (simp add: poll_io_close_def uv__io_close_def L2_def L3_def L'_def)
  have fr: "iloop.more L1 = iloop.more L" "ep_events L1 = ep_events L"
      "\<And>v. v \<noteq> w \<Longrightarrow> ios L1 v = ios L v \<and> registered L1 v = registered L v"
      "io_fd (ios L1 w) = io_fd (ios L w)" "io_cb (ios L1 w) = io_cb (ios L w)"
    using L1(5) by (simp_all add: io_frame_def)
  note more = iloop_more_ploop [OF fr(1)]
  have l': "ios L' = ios L1" "nwatchers L' = nwatchers L1" "watchers L' = watchers L1" "ep_events L' = es"
      "signal_io L' = signal_io L1" "ploop.more L' = ploop.more L1" "nfds L' = nfds L1"
      "watcher_queue L' = watcher_queue L1" "pending_queue L' = removeAll w (pending_queue L1)"
      "pending_run L' = removeAll w (pending_run L1)"
    by (simp_all add: L'_def L3_def L2_def epoll_forget_def epoll_ctl_def split: prod.splits)
  have sl: "slot_at L' i = slot_at L1 i" for i by (simp add: slot_at_def l')
  have rg: "registered L' v = registered L1 v" for v by (simp add: registered_def sl l')
  have "io_inv L'" using L1(2) unfolding io_inv_def sl rg watched_fds_def l' by (auto simp: distinct_removeAll)
  moreover have "pevents_ok L'"
    unfolding pevents_ok_def l'
  proof
    fix v show "clear_flag (pevents (ios L1 v)) poll_mask = 0"
      using pok fr(3) [of v] p1 by (cases "v = w") (auto simp: pevents_ok_def clear_flag_def)
  qed
  moreover have "close_frame w L L'"
    unfolding close_frame_def rg l'
  proof (intro conjI allI impI)
    show "registered L1 v = (registered L v \<and> v \<noteq> w)" for v using fr(3) [of v] L1(4) p1 by (cases "v = w") auto
    show "io_fd (ios L1 v) = io_fd (ios L v)" "io_cb (ios L1 v) = io_cb (ios L v)" for v
      using fr(3) [of v] fr(4,5) by (cases "v = w"; simp)+
    show "es ! j = ep_events L ! j \<or> fst (ep_events L ! j) = io_fd (ios L w) \<and> fst (es ! j) = - 1"
      if "j < length (ep_events L)" for j
      using es(2,3) that fr(2,4) by (simp add: L2_def)
  qed (use tab more fr es(2) in \<open>simp_all add: L2_def\<close>)
  ultimately show ?thesis using run by blast
qed

text \<open>A callback that closes the watchers \<open>closes w\<close> and notes its call by \<open>f\<close> in the user's part.\<close>

fun close_all :: "('k, 's) syscalls_scheme \<Rightarrow> addr list \<Rightarrow> ('k, 'a) ploop_scheme \<Rightarrow> ('k, 'a) ploop_scheme option" where
  "close_all K [] L = Some L"
| "close_all K (w # ws) L = Option.bind (poll_io_close K w L) (close_all K ws)"

definition note_close ::
  "('k, 's) syscalls_scheme \<Rightarrow> (nat \<Rightarrow> addr \<Rightarrow> u32 \<Rightarrow> 'a \<Rightarrow> 'a) \<Rightarrow> (addr \<Rightarrow> addr list) \<Rightarrow> ('k, 'a) io_call" where
  "note_close K f closes cb w ev L = map_option (ploop.more_update (f cb w ev)) (close_all K (closes w) L)"

text \<open>Which watchers are called for a list of events, and with what, when those of \<open>S\<close> are closed.\<close>

fun dispatched :: "('k, 'a) ploop_scheme \<Rightarrow> (addr \<Rightarrow> addr list) \<Rightarrow> addr set \<Rightarrow> (int \<times> u32) list \<Rightarrow> (addr \<times> u32) list" where
  "dispatched L closes S [] = []"
| "dispatched L closes S ((fd, ev) # evs) =
     (case slot_at L (nat fd) of
        Watcher w \<Rightarrow>
          (let e = wanted_events (pevents (ios L w)) ev
           in if w \<in> S \<or> e = 0 \<or> w = signal_io L then dispatched L closes S evs
              else (w, e) # dispatched L closes (S \<union> set (closes w)) evs)
      | _ \<Rightarrow> dispatched L closes S evs)"

definition signal_ready :: "('k, 'a) ploop_scheme \<Rightarrow> (int \<times> u32) list \<Rightarrow> bool" where
  "signal_ready L evs \<longleftrightarrow>
     (\<exists>(fd, ev) \<in> set evs. slot_at L (nat fd) = Watcher (signal_io L) \<and>
        wanted_events (pevents (ios L (signal_io L))) ev \<noteq> 0)"

text \<open>Loop \<open>M\<close> during the handling of the events of loop \<open>L\<close>, before event \<open>i\<close>, when the watchers of
  \<open>S\<close> have been closed.\<close>

definition during :: "('k, 'a) ploop_scheme \<Rightarrow> (int \<times> u32) list \<Rightarrow> nat \<Rightarrow> addr set \<Rightarrow> ('k, 'a) ploop_scheme \<Rightarrow> bool" where
  "during L evs i S M \<longleftrightarrow>
     io_inv M \<and> pevents_ok M \<and> watchers M \<noteq> [] \<and> nwatchers M = nwatchers L \<and> signal_io M = signal_io L \<and>
     (\<forall>v. registered M v \<longleftrightarrow> registered L v \<and> v \<notin> S) \<and> (\<forall>v. v \<notin> S \<longrightarrow> ios M v = ios L v) \<and>
     (\<forall>v. io_fd (ios M v) = io_fd (ios L v) \<and> io_cb (ios M v) = io_cb (ios L v)) \<and>
     length (ep_events M) = length evs \<and>
     (\<forall>j. i \<le> j \<longrightarrow> j < length evs \<longrightarrow> ep_events M ! j = evs ! j \<or>
        (fst (ep_events M ! j) = - 1 \<and> slot_at L (nat (fst (evs ! j))) \<in> Watcher ` S))"

lemma slot_iff:
  "io_inv L \<Longrightarrow> slot_at L i = Watcher v \<longleftrightarrow> registered L v \<and> io_fd (ios L v) = int i"
  using io_inv_slot [of L i v] by (auto simp: registered_def)

lemma slot_cases: "io_inv L \<Longrightarrow> slot_at L i = NoWatcher \<or> (\<exists>v. slot_at L i = Watcher v)"
  by (cases "slot_at L i") (auto simp: io_inv_def)

lemma during_slot:
  assumes inv: "io_inv L" and d: "during L evs i S M"
  shows "slot_at M k = (case slot_at L k of Watcher w \<Rightarrow> if w \<in> S then NoWatcher else Watcher w | _ \<Rightarrow> NoWatcher)"
proof -
  have M: "io_inv M" using d by (simp add: during_def)
  have eq: "slot_at M k = Watcher v \<longleftrightarrow> slot_at L k = Watcher v \<and> v \<notin> S" for v
    using d unfolding slot_iff [OF M] slot_iff [OF inv] by (auto simp: during_def)
  have none: "slot_at M k = NoWatcher" if "\<And>v. slot_at M k \<noteq> Watcher v"
    using slot_cases [OF M, of k] that by blast
  show ?thesis
  proof (cases "\<exists>w. slot_at L k = Watcher w")
    case True
    then obtain w where w: "slot_at L k = Watcher w" by blast
    show ?thesis
    proof (cases "w \<in> S")
      case True
      have "slot_at M k = NoWatcher" by (rule none) (use True w in \<open>auto simp: eq\<close>)
      then show ?thesis using w True by simp
    next
      case False then show ?thesis using w eq [of w] by simp
    qed
  next
    case False
    then have "slot_at L k = NoWatcher" using slot_cases [OF inv, of k] by blast
    moreover have "slot_at M k = NoWatcher" by (rule none) (use False in \<open>auto simp: eq\<close>)
    ultimately show ?thesis by simp
  qed
qed

lemma during_stoppable:
  assumes inv: "io_inv L" and d: "during L evs i S M" and rg: "registered L w" and nw: "unat (nwatchers L) < 2 ^ 31"
  shows "stoppable M w"
proof -
  have "stoppable L w" using registered_stoppable [OF inv rg] nw by simp
  moreover have "slot_at L (nat (io_fd (ios L w))) = Watcher w" using rg by (simp add: registered_def)
  ultimately show ?thesis using during_slot [OF inv d] d by (simp add: stoppable_def during_def)
qed

lemma close_all_during:
  assumes inv: "io_inv L" and nw: "unat (nwatchers L) < 2 ^ 31"
    and "during L evs i S M" and "\<forall>w \<in> set ws. registered L w"
  shows "\<exists>M'. close_all K ws M = Some M' \<and> during L evs i (S \<union> set ws) M' \<and> ploop.more M' = ploop.more M"
  using assms(3,4)
proof (induction ws arbitrary: M S)
  case (Cons w ws)
  note d = Cons.prems(1)
  have rg: "registered L w" using Cons.prems(2) by simp
  have M: "io_inv M" "pevents_ok M" "watchers M \<noteq> []" using d by (simp_all add: during_def)
  obtain M1 where M1: "poll_io_close K w M = Some M1" "io_inv M1" "pevents_ok M1" "close_frame w M M1"
    using poll_io_close_ok [OF M(1) during_stoppable [OF inv d rg nw] M(3,2)] by blast
  have slot: "slot_at L (nat (io_fd (ios L w))) = Watcher w" using rg by (simp add: registered_def)
  have "during L evs i (insert w S) M1"
    unfolding during_def
  proof (intro conjI allI impI)
    show "watchers M1 \<noteq> []" using M1(4) M(3) by (auto simp: close_frame_def)
    show "ep_events M1 ! j = evs ! j \<or> fst (ep_events M1 ! j) = - 1 \<and> slot_at L (nat (fst (evs ! j))) \<in> Watcher ` insert w S"
      if "i \<le> j" "j < length evs" for j
    proof -
      have "ep_events M ! j = evs ! j \<or> fst (ep_events M ! j) = - 1 \<and> slot_at L (nat (fst (evs ! j))) \<in> Watcher ` S"
        using d that by (simp add: during_def)
      moreover have "ep_events M1 ! j = ep_events M ! j \<or>
          fst (ep_events M ! j) = io_fd (ios L w) \<and> fst (ep_events M1 ! j) = - 1"
        using d M1(4) that by (simp add: close_frame_def during_def)
      ultimately show ?thesis using slot by (elim disjE) auto
    qed
  qed (use d M1 in \<open>auto simp: during_def close_frame_def\<close>)
  then obtain M' where "close_all K ws M1 = Some M'" "during L evs i (insert w S \<union> set ws) M'" "ploop.more M' = ploop.more M1"
    using Cons.IH Cons.prems(2) by fastforce
  then show ?case using M1(1,4) by (auto simp: close_frame_def)
qed auto

definition closed_by :: "(addr \<Rightarrow> addr list) \<Rightarrow> (addr \<times> u32) list \<Rightarrow> addr set" where
  "closed_by closes ds = (\<Union>(w, e) \<in> set ds. set (closes w))"

definition note_all :: "(nat \<Rightarrow> addr \<Rightarrow> u32 \<Rightarrow> 'a \<Rightarrow> 'a) \<Rightarrow> ('k, 'b) ploop_scheme \<Rightarrow> (addr \<times> u32) list \<Rightarrow> 'a \<Rightarrow> 'a" where
  "note_all f L ds = fold (\<lambda>(w, e). f (io_cb (ios L w)) w e) ds"

lemma during_Suc: "during L evs i S M \<Longrightarrow> during L evs (Suc i) S M"
  by (simp add: during_def)

lemma during_kern [simp]: "during L evs j S (M\<lparr>kern := k\<rparr>) = during L evs j S M"
  by (simp add: during_def pevents_ok_def)

lemma during_more [simp]: "during L evs j S (ploop.more_update g M) = during L evs j S M"
  by (simp add: during_def pevents_ok_def)

lemma during_ep_events:
  "during L evs (Suc i) S M \<Longrightarrow> during L evs (Suc i) S (M\<lparr>ep_events := (ep_events M)[i := x]\<rparr>)"
  by (simp add: during_def pevents_ok_def)

text \<open>One event of the list.\<close>

lemma dispatch_one_during:
  assumes inv: "io_inv L" and nw: "unat (nwatchers L) < 2 ^ 31" and d: "during L evs i S M"
    and i: "i < length evs" and e: "evs ! i = (fd, ev)" and fd: "0 \<le> fd" "fd < uint (nwatchers L)"
    and sig: "signal_io L \<notin> S" and cl: "\<forall>v. \<forall>w \<in> set (closes v). registered L w \<and> w \<noteq> signal_io L"
  defines "ds \<equiv> dispatched L closes S [(fd, ev)]"
  shows "\<exists>M' ne'. dispatch_one K (note_close K f closes) i hs ne M = Some (hs \<or> signal_ready L [(fd, ev)], ne', M') \<and>
     during L evs (Suc i) (S \<union> closed_by closes ds) M' \<and> ploop.more M' = note_all f L ds (ploop.more M) \<and>
     (ne' = 0 \<longleftrightarrow> ne = 0 \<and> ds = [] \<and> \<not> signal_ready L [(fd, ev)])"
proof -
  have fdn: "nat fd < unat (nwatchers M)" "fd < uint (nwatchers M)"
    using fd d by (simp_all add: during_def unat_eq_nat_uint nat_less_iff del: nat_uint_eq)
  have slotM: "watchers M ! nat fd = slot_at M (nat fd)" using fdn(1) by (simp add: slot_at_def)
  note d1 = during_Suc [OF d]
  have ep: "ep_events M ! i = (fd, ev) \<or> (fst (ep_events M ! i) = - 1 \<and> slot_at L (nat fd) \<in> Watcher ` S)"
    using d i e by (auto simp: during_def)
  consider (closed) "fst (ep_events M ! i) = - 1" "slot_at L (nat fd) \<in> Watcher ` S"
    | (unwatched) "ep_events M ! i = (fd, ev)" "slot_at M (nat fd) = NoWatcher"
    | (watched) w where "ep_events M ! i = (fd, ev)" "slot_at L (nat fd) = Watcher w" "w \<notin> S" "slot_at M (nat fd) = Watcher w"
    using ep during_slot [OF inv d, of "nat fd"] by (auto split: wslot.splits if_splits)
  then show ?thesis
  proof cases
    case closed
    then have "ds = []" "\<not> signal_ready L [(fd, ev)]" using sig by (auto simp: ds_def signal_ready_def)
    moreover have "dispatch_one K c i hs ne M = Some (hs, ne, M)" for c
      using closed(1) by (simp add: dispatch_one_def split_beta)
    ultimately show ?thesis using d1 by (simp add: closed_by_def note_all_def)
  next
    case unwatched
    have "ds = []" "\<not> signal_ready L [(fd, ev)]"
      using unwatched(2) during_slot [OF inv d, of "nat fd"] sig
      by (auto simp: ds_def signal_ready_def split: wslot.splits if_splits)
    then show ?thesis using unwatched slotM d1 fd fdn
      by (simp add: dispatch_one_def closed_by_def note_all_def epoll_ctl_def split: prod.splits)
  next
    case watched
    define e' where "e' = wanted_events (pevents (ios L w)) ev"
    define M1 where "M1 = M\<lparr>ep_events := (ep_events M)[i := (fd, e')]\<rparr>"
    have dM1: "during L evs (Suc i) S M1" unfolding M1_def by (rule during_ep_events [OF d1])
    have io: "ios M w = ios L w" "signal_io M = signal_io L" "ploop.more M1 = ploop.more M" "ios M1 = ios M"
      using d watched(3) by (simp_all add: during_def M1_def)
    have step: "dispatch_one K c i hs ne M =
        (if e' = 0 then Some (hs, ne, M1) else if w = signal_io L then Some (True, ne + 1, M1)
         else map_option (\<lambda>L. (hs, ne + 1, L)) (c (io_cb (ios L w)) w e' M1))" for c
      using watched slotM fd fdn io by (simp add: dispatch_one_def e'_def M1_def Let_def)
    consider "e' = 0" | "e' \<noteq> 0" "w = signal_io L" | "e' \<noteq> 0" "w \<noteq> signal_io L" by blast
    then show ?thesis
    proof cases
      case 1
      then have "ds = []" "\<not> signal_ready L [(fd, ev)]"
        using watched(2) by (auto simp: ds_def signal_ready_def e'_def)
      then show ?thesis using step 1 dM1 io by (simp add: closed_by_def note_all_def)
    next
      case 2
      then have "ds = []" "signal_ready L [(fd, ev)]"
        using watched(2) by (auto simp: ds_def signal_ready_def e'_def)
      then show ?thesis using step 2 dM1 io by (simp add: closed_by_def note_all_def)
    next
      case 3
      have ds: "ds = [(w, e')]" "\<not> signal_ready L [(fd, ev)]"
        using 3 watched(2,3) by (auto simp: ds_def signal_ready_def e'_def)
      obtain M2 where M2: "close_all K (closes w) M1 = Some M2" "during L evs (Suc i) (S \<union> set (closes w)) M2"
          "ploop.more M2 = ploop.more M1"
        using close_all_during [OF inv nw dM1] cl by blast
      have "note_close K f closes (io_cb (ios L w)) w e' M1 = Some (ploop.more_update (f (io_cb (ios L w)) w e') M2)"
        using M2(1) by (simp add: note_close_def)
      then show ?thesis using step 3 M2 io by (simp add: ds closed_by_def note_all_def)
    qed
  qed
qed

lemma dispatched_Cons:
  "dispatched L closes S (x # xs) =
     dispatched L closes S [x] @ dispatched L closes (S \<union> closed_by closes (dispatched L closes S [x])) xs"
  by (cases x) (auto simp: closed_by_def Let_def split: wslot.splits)

lemma signal_ready_Cons: "signal_ready L (x # xs) \<longleftrightarrow> signal_ready L [x] \<or> signal_ready L xs"
  by (auto simp: signal_ready_def)

lemma closed_by_append [simp]: "closed_by closes (xs @ ys) = closed_by closes xs \<union> closed_by closes ys"
  by (auto simp: closed_by_def)

lemma closed_by_Nil [simp]: "closed_by closes [] = {}"
  by (simp add: closed_by_def)

lemma note_all_append [simp]: "note_all f L (xs @ ys) a = note_all f L ys (note_all f L xs a)"
  by (simp add: note_all_def)

lemma note_all_Nil [simp]: "note_all f L [] a = a"
  by (simp add: note_all_def)

lemma dispatch_events_during:
  assumes inv: "io_inv L" and nw: "unat (nwatchers L) < 2 ^ 31"
    and fds: "\<forall>(fd, ev) \<in> set evs. 0 \<le> fd \<and> fd < uint (nwatchers L)"
    and cl: "\<forall>v. \<forall>w \<in> set (closes v). registered L w \<and> w \<noteq> signal_io L"
    and "during L evs i S M" and "i \<le> length evs" and "signal_io L \<notin> S"
  shows "\<exists>M' ne'. dispatch_events K (note_close K f closes) [i ..< length evs] hs ne M =
       Some (hs \<or> signal_ready L (drop i evs), ne', M') \<and>
     during L evs (length evs) (S \<union> closed_by closes (dispatched L closes S (drop i evs))) M' \<and>
     ploop.more M' = note_all f L (dispatched L closes S (drop i evs)) (ploop.more M) \<and>
     (ne' = 0 \<longleftrightarrow> ne = 0 \<and> dispatched L closes S (drop i evs) = [] \<and> \<not> signal_ready L (drop i evs))"
  using assms(5-7)
proof (induction "length evs - i" arbitrary: i S M hs ne)
  case 0
  then show ?case by (simp add: signal_ready_def)
next
  case (Suc n)
  then have i: "i < length evs" by simp
  obtain fd ev where e: "evs ! i = (fd, ev)" by (cases "evs ! i")
  have fd: "0 \<le> fd" "fd < uint (nwatchers L)" using fds nth_mem [OF i] e by auto
  let ?ds = "dispatched L closes S [(fd, ev)]"
  obtain M1 ne1 where M1: "dispatch_one K (note_close K f closes) i hs ne M = Some (hs \<or> signal_ready L [(fd, ev)], ne1, M1)"
      "during L evs (Suc i) (S \<union> closed_by closes ?ds) M1" "ploop.more M1 = note_all f L ?ds (ploop.more M)"
      "ne1 = 0 \<longleftrightarrow> ne = 0 \<and> ?ds = [] \<and> \<not> signal_ready L [(fd, ev)]"
    using dispatch_one_during [OF inv nw Suc.prems(1) i e fd Suc.prems(3) cl, of K f hs ne]
    by (elim exE conjE) (rule that, assumption+)
  have sig: "signal_io L \<notin> S \<union> closed_by closes ?ds" using Suc.prems(3) cl by (auto simp: closed_by_def)
  have dr: "drop i evs = (fd, ev) # drop (Suc i) evs" using i e by (simp add: Cons_nth_drop_Suc [symmetric])
  have "n = length evs - Suc i" "Suc i \<le> length evs" using Suc.hyps(2) i by simp_all
  from Suc.hyps(1) [OF this(1) M1(2) this(2) sig, of "hs \<or> signal_ready L [(fd, ev)]" ne1]
  obtain M2 ne2 where M2: "dispatch_events K (note_close K f closes) [Suc i ..< length evs]
        (hs \<or> signal_ready L [(fd, ev)]) ne1 M1 =
      Some ((hs \<or> signal_ready L [(fd, ev)]) \<or> signal_ready L (drop (Suc i) evs), ne2, M2)"
      "during L evs (length evs) ((S \<union> closed_by closes ?ds) \<union>
         closed_by closes (dispatched L closes (S \<union> closed_by closes ?ds) (drop (Suc i) evs))) M2"
      "ploop.more M2 = note_all f L (dispatched L closes (S \<union> closed_by closes ?ds) (drop (Suc i) evs)) (ploop.more M1)"
      "ne2 = 0 \<longleftrightarrow> ne1 = 0 \<and> dispatched L closes (S \<union> closed_by closes ?ds) (drop (Suc i) evs) = [] \<and>
         \<not> signal_ready L (drop (Suc i) evs)"
    by (elim exE conjE) (rule that, assumption+)
  have ds: "dispatched L closes S (drop i evs) =
      ?ds @ dispatched L closes (S \<union> closed_by closes ?ds) (drop (Suc i) evs)"
    unfolding dr by (rule dispatched_Cons)
  have sr: "signal_ready L (drop i evs) \<longleftrightarrow> signal_ready L [(fd, ev)] \<or> signal_ready L (drop (Suc i) evs)"
    unfolding dr by (rule signal_ready_Cons)
  have up: "[i ..< length evs] = i # [Suc i ..< length evs]" using i by (rule upt_conv_Cons)
  show ?case
    unfolding ds sr up
  proof (intro exI [of _ M2] exI [of _ ne2] conjI)
    show "dispatch_events K (note_close K f closes) (i # [Suc i ..< length evs]) hs ne M =
        Some (hs \<or> signal_ready L [(fd, ev)] \<or> signal_ready L (drop (Suc i) evs), ne2, M2)"
      using M1(1) M2(1) by (simp only: dispatch_events.simps bind.bind_lunit prod.case disj_assoc)
    show "(ne2 = 0) = (ne = 0 \<and> ?ds @ dispatched L closes (S \<union> closed_by closes ?ds) (drop (Suc i) evs) = [] \<and>
        \<not> (signal_ready L [(fd, ev)] \<or> signal_ready L (drop (Suc i) evs)))"
      unfolding M2(4) M1(4) append_is_Nil_conv by argo
  qed (use M1(3) M2(2,3) in \<open>simp_all only: closed_by_append note_all_append Un_assoc\<close>)
qed

lemma dispatched_open: "(w, e) \<in> set (dispatched L closes S evs) \<Longrightarrow> w \<notin> S"
proof (induction evs arbitrary: S)
  case (Cons x evs)
  obtain fd ev where x: "x = (fd, ev)" by (cases x)
  show ?case using Cons.prems Cons.IH
    by (fastforce simp: x Let_def split: wslot.splits if_splits)
qed simp

lemma dispatched_order: "sorted_wrt (\<lambda>(v, _) (w, _). w \<notin> set (closes v)) (dispatched L closes S evs)"
proof (induction evs arbitrary: S)
  case (Cons x evs)
  obtain fd ev where x: "x = (fd, ev)" by (cases x)
  show ?case using Cons.IH
    by (auto simp: x Let_def dest: dispatched_open split: wslot.splits)
qed simp

section \<open>The two fake entries\<close>

lemma set_fake_sel [simp]:
  "ios (set_fake p q L) = ios L" "nwatchers (set_fake p q L) = nwatchers L" "nfds (set_fake p q L) = nfds L"
  "watcher_queue (set_fake p q L) = watcher_queue L" "pending_queue (set_fake p q L) = pending_queue L"
  "pending_run (set_fake p q L) = pending_run L" "signal_io (set_fake p q L) = signal_io L"
  "ep_events (set_fake p q L) = ep_events L" "ploop.more (set_fake p q L) = ploop.more L"
  "kern (set_fake p q L) = kern L" "backend_fd (set_fake p q L) = backend_fd L"
  "no_epoll_wait (set_fake p q L) = no_epoll_wait L" "no_epoll_pwait (set_fake p q L) = no_epoll_pwait L"
  "length (watchers (set_fake p q L)) = length (watchers L)" "watchers (set_fake p q L) = [] \<longleftrightarrow> watchers L = []"
  by (simp_all add: set_fake_def)

lemma set_fake_slot [simp]: "slot_at (set_fake p q L) i = slot_at L i"
  by (simp add: slot_at_def set_fake_def)

lemma set_fake_inv [simp]:
  "registered (set_fake p q L) w = registered L w" "watched_fds (set_fake p q L) = watched_fds L"
  "io_inv (set_fake p q L) = io_inv L" "pevents_ok (set_fake p q L) = pevents_ok L"
  by (simp_all add: registered_def watched_fds_def io_inv_def pevents_ok_def)

lemma during_start:
  assumes "io_inv L" "pevents_ok L" "watchers L \<noteq> []"
  shows "during L evs 0 {} (set_fake p q (L\<lparr>ep_events := evs\<rparr>))"
  using assms by (simp add: during_def pevents_ok_def)

section \<open>A poll that does not block\<close>

lemma poll_inv_set_fake [simp]: "poll_inv interest (set_fake p q L) = poll_inv interest L"
  by (simp add: poll_inv_def)

lemma poll_inv_upd:
  "interest k = interest (kern L) \<Longrightarrow> poll_inv interest (L\<lparr>kern := k\<rparr>) = poll_inv interest L"
  "poll_inv interest (L\<lparr>no_epoll_wait := b\<rparr>) = poll_inv interest L"
  "poll_inv interest (L\<lparr>fast_clock := c\<rparr>) = poll_inv interest L"
  "poll_inv interest (L\<lparr>time := t\<rparr>) = poll_inv interest L"
  "poll_inv interest (L\<lparr>ep_events := es\<rparr>) = poll_inv interest L"
  by (simp_all add: poll_inv_def)

text \<open>What a step of the poll leaves of the table.\<close>

definition same_table :: "('k, 'a) ploop_scheme \<Rightarrow> ('k, 'a) ploop_scheme \<Rightarrow> bool" where
  "same_table L L' \<longleftrightarrow> watchers L' = watchers L \<and> nwatchers L' = nwatchers L"

lemma update_time_ok:
  assumes "wait_laws K interest" "poll_inv interest L"
  shows "poll_inv interest (uv__update_time K L)" "same_table L (uv__update_time K L)"
    "no_epoll_wait (uv__update_time K L) = no_epoll_wait L"
proof -
  have g: "interest (snd (sys_getres K c k)) = interest k" "interest (snd (sys_gettime K c k)) = interest k" for c k
    using assms(1) by (simp_all add: wait_laws_def)
  obtain c k where h: "interest k = interest (kern L)"
      "uv__update_time K L = (L\<lparr>fast_clock := c, kern := k, time := time (uv__update_time K L)\<rparr>)"
  proof -
    define L1 where "L1 = (if fast_clock L = None then
                 (case sys_getres K CLOCK_MONOTONIC_COARSE (kern L) of
                    ((r, nsec), k) \<Rightarrow>
                      L\<lparr>fast_clock := Some (if r = 0 \<and> nsec \<le> 1 * 1000 * 1000
                                           then CLOCK_MONOTONIC_COARSE else CLOCK_MONOTONIC),
                        kern := k\<rparr>)
               else L)"
    have l1: "\<exists>c k. L1 = L\<lparr>fast_clock := c, kern := k\<rparr> \<and> interest k = interest (kern L)"
    proof (cases "fast_clock L = None")
      case True
      obtain r nsec k where r: "sys_getres K CLOCK_MONOTONIC_COARSE (kern L) = ((r, nsec), k)"
        by (cases "sys_getres K CLOCK_MONOTONIC_COARSE (kern L)") auto
      have "L1 = L\<lparr>fast_clock := Some (if r = 0 \<and> nsec \<le> 1 * 1000 * 1000
                                           then CLOCK_MONOTONIC_COARSE else CLOCK_MONOTONIC), kern := k\<rparr>"
        using True r by (simp add: L1_def)
      moreover have "interest k = interest (kern L)" using g(1) [of CLOCK_MONOTONIC_COARSE "kern L"] r by simp
      ultimately show ?thesis by blast
    next
      case False
      have "L1 = L" unfolding L1_def by (rule if_not_P [OF False])
      then have "L1 = L\<lparr>fast_clock := fast_clock L, kern := kern L\<rparr>" by simp
      then show ?thesis by blast
    qed
    then obtain c k where ck: "L1 = L\<lparr>fast_clock := c, kern := k\<rparr>" "interest k = interest (kern L)" by blast
    define clk where "clk = (case fast_clock L1 of Some c \<Rightarrow> c | _ \<Rightarrow> CLOCK_MONOTONIC)"
    have "uv__update_time K L = (case sys_gettime K clk (kern L1) of ((r, sec, nsec), k) \<Rightarrow>
        L1\<lparr>kern := k, time := (if r \<noteq> 0 then 0 else sec * 1000000000 + nsec) div 1000000\<rparr>)"
      by (simp add: uv__update_time_def uv__hrtime_def L1_def [symmetric] clk_def split: prod.splits)
    then have "uv__update_time K L =
        (L\<lparr>fast_clock := c, kern := snd (sys_gettime K clk k), time := time (uv__update_time K L)\<rparr>)"
      by (simp add: ck(1) split_beta)
    then show ?thesis using that g(2) [of clk k] ck(2) by simp
  qed
  show "poll_inv interest (uv__update_time K L)"
    by (subst h(2)) (use assms(2) h(1) in \<open>simp add: poll_inv_def\<close>)
  show "same_table L (uv__update_time K L)" by (subst h(2)) (simp add: same_table_def)
  show "no_epoll_wait (uv__update_time K L) = no_epoll_wait L" by (subst h(2)) simp
qed

lemma same_table_trans: "same_table L M \<Longrightarrow> same_table M N \<Longrightarrow> same_table L N"
  by (simp add: same_table_def)

text \<open>One wait.  It reports events of the table, or was interrupted, or is the first to find that
  \<open>epoll_wait\<close> is missing.\<close>

definition wait_ok :: "('k, 'a) ploop_scheme \<Rightarrow> wait_result \<Rightarrow> ('k, 'a) ploop_scheme \<Rightarrow> bool" where
  "wait_ok L r L' \<longleftrightarrow>
     (case r of
        Ready evs \<Rightarrow> length evs \<le> 1024 \<and> (\<forall>(fd, ev) \<in> set evs. 0 \<le> fd \<and> fd < uint (nwatchers L')) \<and>
                     no_epoll_wait L' = no_epoll_wait L
      | Wait_failed e \<Rightarrow> (e = EPOLL_EINTR \<and> no_epoll_wait L' = no_epoll_wait L) \<or>
                         (e = EPOLL_ENOSYS \<and> \<not> no_epoll_wait L \<and> no_epoll_wait L'))"

lemma poll_wait_ok:
  assumes laws: "wait_laws K interest" and inv: "poll_inv interest L"
  shows "\<exists>r L'. poll_wait K sigmask t L = Some (r, L') \<and> poll_inv interest L' \<and> same_table L L' \<and> wait_ok L r L'"
proof -
  define pwait where "pwait = (no_epoll_wait L \<or> sigmask \<noteq> 0)"
  have np: "\<not> no_epoll_pwait L" using inv by (simp add: poll_inv_def)
  obtain r k where w: "sys_wait K pwait t (if pwait then sigmask else 0) (kern L) = (r, k)"
    by (cases "sys_wait K pwait t (if pwait then sigmask else 0) (kern L)")
  have "interest (snd (r, k)) = interest (kern L) \<and> (case fst (r, k) of
           Ready evs \<Rightarrow> length evs \<le> 1024 \<and> (\<forall>(fd, ev) \<in> set evs. interest (kern L) fd \<noteq> None)
         | Wait_failed e \<Rightarrow> e = EPOLL_EINTR \<or> (e = EPOLL_ENOSYS \<and> \<not> pwait))"
    unfolding w [symmetric] using laws unfolding wait_laws_def by blast
  then have k: "interest k = interest (kern L)"
      "case r of Ready evs \<Rightarrow> length evs \<le> 1024 \<and> (\<forall>(fd, ev) \<in> set evs. interest (kern L) fd \<noteq> None)
         | Wait_failed e \<Rightarrow> e = EPOLL_EINTR \<or> (e = EPOLL_ENOSYS \<and> \<not> pwait)"
    by simp_all
  define L1 where "L1 = (if r = Wait_failed EPOLL_ENOSYS then L\<lparr>kern := k, no_epoll_wait := True\<rparr> else L\<lparr>kern := k\<rparr>)"
  have pw: "r = Wait_failed EPOLL_ENOSYS \<Longrightarrow> \<not> pwait" using k(2) by auto
  have inv1: "poll_inv interest L1" using inv k(1) by (simp add: L1_def poll_inv_upd)
  have run: "poll_wait K sigmask t L = Some (r, uv__update_time K L1)"
    using np w pw by (auto simp: poll_wait_def Let_def pwait_def L1_def)
  note u = update_time_ok [OF laws inv1]
  have tab: "same_table L (uv__update_time K L1)"
    using u(2) by (simp add: same_table_def L1_def split: if_splits)
  have dom: "interest (kern L) fd \<noteq> None \<Longrightarrow> 0 \<le> fd \<and> fd < uint (nwatchers L)" for fd
    using inv by (simp add: poll_inv_def)
  have nw: "no_epoll_wait (uv__update_time K L1) \<longleftrightarrow> r = Wait_failed EPOLL_ENOSYS \<or> no_epoll_wait L"
    unfolding u(3) by (simp add: L1_def)
  have "wait_ok L r (uv__update_time K L1)"
  proof (cases r)
    case (Wait_failed e)
    then show ?thesis using k(2) by (auto simp: wait_ok_def nw pwait_def)
  next
    case (Ready evs)
    then show ?thesis using k(2) dom tab by (auto simp: wait_ok_def nw same_table_def)
  qed
  then show ?thesis using run u(1) tab by blast
qed

text \<open>Callbacks that may do anything to the loop but break the agreement with the kernel or shrink the
  event array that is being handled.\<close>

definition poll_ready :: "('k \<Rightarrow> int \<Rightarrow> u32 option) \<Rightarrow> nat \<Rightarrow> ('k, 'a) ploop_scheme \<Rightarrow> bool" where
  "poll_ready interest n M \<longleftrightarrow>
     poll_inv interest M \<and> watchers M \<noteq> [] \<and> length (ep_events M) = n \<and>
     (\<forall>i < n. fst (ep_events M ! i) = - 1 \<or> (0 \<le> fst (ep_events M ! i) \<and> fst (ep_events M ! i) < uint (nwatchers M)))"

definition keeps_poll :: "('k \<Rightarrow> int \<Rightarrow> u32 option) \<Rightarrow> ('k, 'a) io_call \<Rightarrow> bool" where
  "keeps_poll interest call \<longleftrightarrow>
     (\<forall>n cb w ev M. poll_ready interest n M \<longrightarrow>
        (\<exists>M'. call cb w ev M = Some M' \<and> poll_ready interest n M' \<and> (no_epoll_wait M \<longrightarrow> no_epoll_wait M')))"

lemma poll_inv_forget:
  assumes laws: "ctl_laws K interest pollable" and inv: "poll_inv interest L" and sl: "slot_at L (nat fd) = NoWatcher"
  shows "poll_inv interest (snd (epoll_ctl K UV__EPOLL_CTL_DEL fd ev L))"
proof -
  define k where "k = snd (sys_ctl K UV__EPOLL_CTL_DEL fd ev (kern L))"
  have k: "interest k = (interest (kern L))(fd := None)" using laws by (simp add: ctl_laws_def k_def)
  have "registered L w \<Longrightarrow> io_fd (ios L w) \<noteq> fd" for w using sl by (auto simp: registered_def)
  then have "poll_inv interest (L\<lparr>kern := k\<rparr>)" using inv k by (auto simp: poll_inv_def)
  then show ?thesis by (simp add: epoll_ctl_def k_def split_beta)
qed

lemma dispatch_one_keeps:
  assumes laws: "ctl_laws K interest pollable" and keep: "keeps_poll interest call"
    and rd: "poll_ready interest n M" and i: "i < n"
  shows "\<exists>hs' ne' M'. dispatch_one K call i hs ne M = Some (hs', ne', M') \<and> poll_ready interest n M' \<and>
     (no_epoll_wait M \<longrightarrow> no_epoll_wait M')"
proof -
  obtain fd ev where e: "ep_events M ! i = (fd, ev)" by (cases "ep_events M ! i")
  have inv: "poll_inv interest M" using rd by (simp add: poll_ready_def)
  show ?thesis
  proof (cases "fd = - 1")
    case True
    then show ?thesis using e rd by (simp add: dispatch_one_def)
  next
    case False
    have "fst (ep_events M ! i) = - 1 \<or> (0 \<le> fst (ep_events M ! i) \<and> fst (ep_events M ! i) < uint (nwatchers M))"
      using rd i by (simp only: poll_ready_def)
    then have fd: "0 \<le> fd" "fd < uint (nwatchers M)" using e False by auto
    have "nat fd < unat (nwatchers M)" using fd by (simp add: unat_eq_nat_uint nat_less_iff del: nat_uint_eq)
    then have slot: "watchers M ! nat fd = slot_at M (nat fd)" by (simp add: slot_at_def)
    have io: "io_inv M" using inv by (simp add: poll_inv_def)
    consider "slot_at M (nat fd) = NoWatcher" | w where "slot_at M (nat fd) = Watcher w"
      using slot_cases [OF io] by blast
    then show ?thesis
    proof cases
      case 1
      have "poll_ready interest n (snd (epoll_ctl K UV__EPOLL_CTL_DEL fd ev M))"
        using poll_inv_forget [OF laws inv 1] rd by (simp add: poll_ready_def epoll_ctl_def split_beta)
      moreover have "no_epoll_wait (snd (epoll_ctl K UV__EPOLL_CTL_DEL fd ev M)) = no_epoll_wait M"
        by (simp add: epoll_ctl_def split_beta)
      ultimately show ?thesis using 1 slot e fd False by (simp add: dispatch_one_def)
    next
      case 2
      define e' where "e' = wanted_events (pevents (ios M w)) ev"
      define M1 where "M1 = M\<lparr>ep_events := (ep_events M)[i := (fd, e')]\<rparr>"
      have rd1: "poll_ready interest n M1"
        using rd fd i by (simp add: poll_ready_def M1_def poll_inv_upd nth_list_update)
      have step: "dispatch_one K call i hs ne M =
          (if e' = 0 then Some (hs, ne, M1) else if w = signal_io M then Some (True, ne + 1, M1)
           else map_option (\<lambda>L. (hs, ne + 1, L)) (call (io_cb (ios M w)) w e' M1))"
        using 2 slot e fd False by (simp add: dispatch_one_def e'_def M1_def Let_def)
      obtain M2 where "call (io_cb (ios M w)) w e' M1 = Some M2" "poll_ready interest n M2"
          "no_epoll_wait M1 \<longrightarrow> no_epoll_wait M2"
        using keep rd1 unfolding keeps_poll_def by blast
      moreover have "no_epoll_wait M1 = no_epoll_wait M" by (simp add: M1_def)
      ultimately show ?thesis using rd1 unfolding step by auto
    qed
  qed
qed

lemma dispatch_events_keeps:
  assumes laws: "ctl_laws K interest pollable" and keep: "keeps_poll interest call"
    and "poll_ready interest n M" and "\<forall>i \<in> set is. i < n"
  shows "\<exists>hs' ne' M'. dispatch_events K call is hs ne M = Some (hs', ne', M') \<and> poll_ready interest n M' \<and>
     (no_epoll_wait M \<longrightarrow> no_epoll_wait M')"
  using assms(3,4)
proof (induction "is" arbitrary: hs ne M)
  case (Cons i "is")
  obtain hs1 ne1 M1 where M1: "dispatch_one K call i hs ne M = Some (hs1, ne1, M1)" "poll_ready interest n M1"
      "no_epoll_wait M \<longrightarrow> no_epoll_wait M1"
    using dispatch_one_keeps [OF laws keep Cons.prems(1)] Cons.prems(2) by (metis list.set_intros(1))
  then show ?case using Cons.IH [OF M1(2), of hs1 ne1] Cons.prems(2) by auto
qed simp

lemma poll_dispatch_keeps:
  assumes laws: "ctl_laws K interest pollable" and keep: "keeps_poll interest call"
    and inv: "poll_inv interest L" and ne: "watchers L \<noteq> []"
    and fds: "\<forall>(fd, ev) \<in> set evs. 0 \<le> fd \<and> fd < uint (nwatchers L)"
  shows "\<exists>hs ne L'. poll_dispatch K call evs L = Some (hs, ne, L') \<and> poll_inv interest L' \<and> watchers L' \<noteq> [] \<and>
    (no_epoll_wait L \<longrightarrow> no_epoll_wait L')"
proof -
  let ?n = "length evs" and ?L = "set_fake EventList (EventCount (length evs)) (L\<lparr>ep_events := evs\<rparr>)"
  have rd: "poll_ready interest ?n ?L"
  proof -
    have "0 \<le> fst (evs ! i) \<and> fst (evs ! i) < uint (nwatchers L)" if "i < ?n" for i
      using bspec [OF fds nth_mem [OF that]] by (simp add: split_beta)
    then show ?thesis using inv ne by (simp add: poll_ready_def poll_inv_upd)
  qed
  obtain hs ne1 M where M: "dispatch_events K call [0 ..< ?n] False 0 ?L = Some (hs, ne1, M)" "poll_ready interest ?n M"
      "no_epoll_wait ?L \<longrightarrow> no_epoll_wait M"
    using dispatch_events_keeps [OF laws keep rd, of "[0 ..< ?n]" False 0] by auto
  obtain M' where M': "(if hs then call (io_cb (ios M (signal_io M))) (signal_io M) POLLIN M else Some M) = Some M'"
      "poll_ready interest ?n M'" "no_epoll_wait M \<longrightarrow> no_epoll_wait M'"
    using keep M(2) unfolding keeps_poll_def by (cases hs) (simp, blast, simp)
  have "poll_dispatch K call evs L = Some (hs, ne1, set_fake NoWatcher NoWatcher M')"
    using ne M(1) M'(1) by (simp add: poll_dispatch_def Let_def)
  then show ?thesis using M(3) M'(2,3) by (simp add: poll_ready_def)
qed

text \<open>A round of the poll with timeout 0 returns, or finds that \<open>epoll_wait\<close> is missing, or has
  handled a full array and counts down.\<close>

lemma poll_round_zero:
  assumes laws: "ctl_laws K interest pollable" "wait_laws K interest" and keep: "keeps_poll interest call"
    and inv: "poll_inv interest L" and ne: "watchers L \<noteq> []"
  shows "\<exists>r. poll_round K call sigmask base 0 real_timeout count L = Some r \<and>
    (case r of
       Return L' \<Rightarrow> poll_inv interest L'
     | Again t _ c L' \<Rightarrow> t = 0 \<and> poll_inv interest L' \<and> watchers L' \<noteq> [] \<and>
         ((c = count \<and> \<not> no_epoll_wait L \<and> no_epoll_wait L') \<or>
          (c < count \<and> (no_epoll_wait L \<longrightarrow> no_epoll_wait L'))))"
proof -
  obtain r L1 where w: "poll_wait K sigmask 0 L = Some (r, L1)" "poll_inv interest L1" "same_table L L1" "wait_ok L r L1"
    using poll_wait_ok [OF laws(2) inv] by blast
  have ne1: "watchers L1 \<noteq> []" using w(3) ne by (simp add: same_table_def)
  have np: "\<not> no_epoll_pwait L1" using w(2) by (simp add: poll_inv_def)
  show ?thesis
  proof (cases r)
    case (Wait_failed e)
    then show ?thesis using w np ne1 by (auto simp: poll_round_def wait_ok_def)
  next
    case (Ready evs)
    show ?thesis
    proof (cases evs)
      case Nil
      then show ?thesis using w Ready by (simp add: poll_round_def)
    next
      case (Cons x xs)
      have fds: "\<forall>(fd, ev) \<in> set evs. 0 \<le> fd \<and> fd < uint (nwatchers L1)" "no_epoll_wait L1 = no_epoll_wait L"
        using w(4) Ready by (simp_all add: wait_ok_def)
      obtain hs ne L2 where d: "poll_dispatch K call evs L1 = Some (hs, ne, L2)" "poll_inv interest L2" "watchers L2 \<noteq> []"
          "no_epoll_wait L1 \<longrightarrow> no_epoll_wait L2"
        using poll_dispatch_keeps [OF laws(1) keep w(2) ne1 fds(1)] by blast
      have "poll_round K call sigmask base 0 real_timeout count L = Some
          (if \<not> hs \<and> ne \<noteq> 0 \<and> length evs = 1024 \<and> count - 1 \<noteq> 0 then Again 0 real_timeout (count - 1) L2 else Return L2)"
        using w(1) Ready Cons d(1) by (simp add: poll_round_def)
      then show ?thesis using d(2-4) fds(2) by auto
    qed
  qed
qed

lemma poll_loop_zero:
  assumes laws: "ctl_laws K interest pollable" "wait_laws K interest" and keep: "keeps_poll interest call"
    and "poll_inv interest L" and "watchers L \<noteq> []"
  shows "\<exists>L'. poll_loop K call sigmask base 0 real_timeout count L = Some L' \<and> poll_inv interest L'"
  using assms(4,5)
proof (induction "2 * count + (if no_epoll_wait L then 0 else 1)" arbitrary: real_timeout count L rule: less_induct)
  case less
  obtain r where r: "poll_round K call sigmask base 0 real_timeout count L = Some r"
    "case r of
       Return L' \<Rightarrow> poll_inv interest L'
     | Again t _ c L' \<Rightarrow> t = 0 \<and> poll_inv interest L' \<and> watchers L' \<noteq> [] \<and>
         ((c = count \<and> \<not> no_epoll_wait L \<and> no_epoll_wait L') \<or>
          (c < count \<and> (no_epoll_wait L \<longrightarrow> no_epoll_wait L')))"
    using poll_round_zero [OF laws keep less.prems] by blast
  show ?case
  proof (cases r)
    case (Return L')
    then show ?thesis using r by (subst poll_loop.simps) simp
  next
    case (Again t rt c L')
    then have a: "t = 0" "poll_inv interest L'" "watchers L' \<noteq> []"
        "(c = count \<and> \<not> no_epoll_wait L \<and> no_epoll_wait L') \<or> (c < count \<and> (no_epoll_wait L \<longrightarrow> no_epoll_wait L'))"
      using r(2) by simp_all
    have "2 * c + (if no_epoll_wait L' then 0 else 1) < 2 * count + (if no_epoll_wait L then 0 else 1)"
      using a(4) by auto
    then obtain L2 where "poll_loop K call sigmask base 0 rt c L' = Some L2" "poll_inv interest L2"
      using less.hyps a(2,3) by blast
    then show ?thesis using r(1) Again a(1) by (subst poll_loop.simps) simp
  qed
qed

lemma registered_nfds:
  assumes "io_inv L" "registered L w"
  shows "nfds L \<noteq> 0"
proof -
  have "nat (io_fd (ios L w)) \<in> watched_fds L" using assms(2) by (simp add: watched_fds_def registered_def)
  then have "0 < card (watched_fds L)" using card_gt_0_iff finite_watched by blast
  then show ?thesis using assms(1) by (auto simp: io_inv_def)
qed

lemma io_poll_zero:
  assumes "ctl_laws K interest pollable" and "wait_laws K interest" and "keeps_poll interest call"
    and "poll_inv interest L" and "\<forall>w. registered L w \<longrightarrow> pollable (io_fd (ios L w))"
  shows "\<exists>L'. uv__io_poll K call 0 L = Some L' \<and> poll_inv interest L'"
proof -
  have io: "io_inv L" using assms(4) by (simp add: poll_inv_def)
  show ?thesis
  proof (cases "nfds L = 0")
    case True
    then have "watcher_queue L = []" using io registered_nfds [OF io] by (cases "watcher_queue L") (auto simp: io_inv_def)
    then show ?thesis using True assms(4) by (simp add: uv__io_poll_def)
  next
    case False
    then have "0 < unat (nfds L)" by (simp add: unat_gt_0)
    then have "watched_fds L \<noteq> {}" using io by (auto simp: io_inv_def)
    then have "nwatchers L \<noteq> 0" by (auto simp: watched_fds_def slot_at_def)
    then have ne: "watchers L \<noteq> []" using io by (auto simp: io_inv_def)
    obtain L1 where L1: "register_watchers K (watcher_queue L) L = Some L1" "poll_inv interest L1"
        "\<exists>k f. L1 = L\<lparr>watcher_queue := [], kern := k, ios := f\<rparr>"
      using register_watchers_ok [OF assms(1,4) refl assms(5)] by blast
    have "watchers L1 \<noteq> []" using L1(3) ne by auto
    from poll_loop_zero [OF assms(1-3) L1(2) this] show ?thesis
      using False L1(1) by (simp add: uv__io_poll_def)
  qed
qed

section \<open>Properties\<close>

text \<open>C18: handling the events of one wait calls, in the order of the events, the watchers that are
  still registered and want one of the events reported, each with the events it wants; a watcher
  that an earlier callback of the same batch has closed is not called any more; the signal watcher,
  if it is ready, comes last; and no assertion fails.\<close>

theorem dispatch_skips_closed:
  assumes "io_inv L" and "pevents_ok L" and "watchers L \<noteq> []" and "unat (nwatchers L) < 2 ^ 31"
    and "\<forall>(fd, ev) \<in> set evs. 0 \<le> fd \<and> fd < uint (nwatchers L)"
    and "\<forall>v. \<forall>w \<in> set (closes v). registered L w \<and> w \<noteq> signal_io L" and "closes (signal_io L) = []"
  shows "\<exists>ne L' ds. poll_dispatch K (note_close K f closes) evs L = Some (signal_ready L evs, ne, L') \<and>
    ds = dispatched L closes {} evs \<and> sorted_wrt (\<lambda>(v, _) (w, _). w \<notin> set (closes v)) ds \<and>
    ploop.more L' = (if signal_ready L evs then f (io_cb (ios L (signal_io L))) (signal_io L) POLLIN else id)
                      (note_all f L ds (ploop.more L)) \<and>
    (ne = 0 \<longleftrightarrow> ds = [] \<and> \<not> signal_ready L evs) \<and> io_inv L' \<and>
    (\<forall>v. registered L' v \<longleftrightarrow> registered L v \<and> v \<notin> closed_by closes ds)"
proof -
  let ?L = "set_fake EventList (EventCount (length evs)) (L\<lparr>ep_events := evs\<rparr>)"
  let ?ds = "dispatched L closes {} evs"
  obtain M ne where M: "dispatch_events K (note_close K f closes) [0 ..< length evs] False 0 ?L =
        Some (signal_ready L evs, ne, M)" "during L evs (length evs) (closed_by closes ?ds) M"
      "ploop.more M = note_all f L ?ds (ploop.more L)" "ne = 0 \<longleftrightarrow> ?ds = [] \<and> \<not> signal_ready L evs"
    using dispatch_events_during [OF assms(1,4,5,6) during_start [OF assms(1-3), of evs EventList "EventCount (length evs)"],
        where K = K and f = f and hs = False and ne = 0] by auto
  define s where "s = signal_io L"
  have m: "signal_io M = s" "io_inv M" "io_cb (ios M s) = io_cb (ios L s)"
      "\<forall>v. registered M v \<longleftrightarrow> registered L v \<and> v \<notin> closed_by closes ?ds"
    using M(2) by (simp_all add: during_def s_def)
  have c: "note_close K f closes (io_cb (ios L s)) s POLLIN M = Some (ploop.more_update (f (io_cb (ios L s)) s POLLIN) M)"
    using assms(7) by (simp add: note_close_def s_def)
  have run: "poll_dispatch K (note_close K f closes) evs L = Some (signal_ready L evs, ne,
      set_fake NoWatcher NoWatcher
        (if signal_ready L evs then ploop.more_update (f (io_cb (ios L s)) s POLLIN) M else M))"
    using assms(3) M(1) m c by (simp add: poll_dispatch_def Let_def)
  show ?thesis
    by (intro exI conjI, rule run, rule refl, rule dispatched_order)
      (use M(3,4) m in \<open>simp_all add: s_def\<close>)
qed

text \<open>C10: the loop and the kernel agree on what is watched: starting and stopping a watcher keeps the
  agreement (by queueing the watcher), and emptying the queue before a poll never aborts and makes
  the kernel watch every registered descriptor for exactly the events its watcher wants, also
  when a descriptor the kernel still knew is started again.\<close>

theorem kernel_agreement:
  assumes "ctl_laws K interest pollable" and "poll_inv interest L"
  shows "(\<forall>w ev. startable L w \<longrightarrow> events_ok ev \<longrightarrow>
            (\<exists>L'. uv__io_start (\<lambda>_. True) w ev L = Some L' \<and> poll_inv interest L')) \<and>
    (\<forall>w ev. stoppable L w \<longrightarrow> events_ok ev \<longrightarrow> (\<exists>L'. uv__io_stop w ev L = Some L' \<and> poll_inv interest L')) \<and>
    ((\<forall>w. registered L w \<longrightarrow> pollable (io_fd (ios L w))) \<longrightarrow>
       (\<exists>L'. register_watchers K (watcher_queue L) L = Some L' \<and> poll_inv interest L' \<and> watcher_queue L' = [] \<and>
          (\<forall>w. registered L w \<longrightarrow> registered L' w \<and> io_events (ios L' w) = pevents (ios L w) \<and>
             interest (kern L') (io_fd (ios L w)) = Some (pevents (ios L w)))))"
proof (intro conjI allI impI)
  fix w ev assume "startable L w" "events_ok ev"
  then show "\<exists>L'. uv__io_start (\<lambda>_. True) w ev L = Some L' \<and> poll_inv interest L'"
    using poll_inv_io_start [OF assms(2)] by simp
next
  fix w ev assume "stoppable L w" "events_ok ev"
  then show "\<exists>L'. uv__io_stop w ev L = Some L' \<and> poll_inv interest L'"
    using poll_inv_io_stop [OF assms(2)] by simp
next
  assume p: "\<forall>w. registered L w \<longrightarrow> pollable (io_fd (ios L w))"
  obtain L' where L': "register_watchers K (watcher_queue L) L = Some L'" "poll_inv interest L'" "watcher_queue L' = []"
      "\<forall>v. registered L' v = registered L v \<and> pevents (ios L' v) = pevents (ios L v) \<and>
         io_fd (ios L' v) = io_fd (ios L v) \<and> io_cb (ios L' v) = io_cb (ios L v)"
    using register_watchers_ok [OF assms refl p] by blast
  have "io_events (ios L' w) = pevents (ios L' w) \<and> interest (kern L') (io_fd (ios L' w)) = Some (pevents (ios L' w))"
    if "registered L' w" for w using L'(2,3) that by (simp add: poll_inv_def)
  then show "\<exists>L'. register_watchers K (watcher_queue L) L = Some L' \<and> poll_inv interest L' \<and> watcher_queue L' = [] \<and>
          (\<forall>w. registered L w \<longrightarrow> registered L' w \<and> io_events (ios L' w) = pevents (ios L w) \<and>
             interest (kern L') (io_fd (ios L w)) = Some (pevents (ios L w)))"
    using L' by (intro exI [of _ L']) simp
qed

text \<open>A poll with timeout 0 always returns, whatever the kernel reports and however often it is
  interrupted, if the callbacks return and keep the loop in agreement with the kernel: no
  assertion fails, \<open>abort\<close> is not reached, and a full event array is asked for more at most 48 times.\<close>

theorem poll_nonblocking_returns:
  assumes "ctl_laws K interest pollable" and "wait_laws K interest" and "keeps_poll interest call"
    and "poll_inv interest L" and "\<forall>w. registered L w \<longrightarrow> pollable (io_fd (ios L w))"
  shows "\<exists>L'. uv__io_poll K call 0 L = Some L' \<and> poll_inv interest L'"
  by (rule io_poll_zero [OF assms])

lemma narrow_difference:
  assumes "- 2147483648 \<le> r - uint d" "r - uint d \<le> INT_MAX"
  shows "sint (ucast ((word_of_int r :: u64) - d) :: u32) = r - uint d"
proof -
  have "(word_of_int r :: u64) - d = word_of_int (r - uint d)" by simp
  then have "(ucast ((word_of_int r :: u64) - d) :: u32) = word_of_int (r - uint d)"
  proof -
    have "(word_of_int (take_bit 64 x) :: u32) = word_of_int x" for x
      by (simp add: word_of_int_eq_iff take_bit_take_bit)
    then show ?thesis unfolding \<open>word_of_int r - d = word_of_int (r - uint d)\<close>
      by (simp only: unsigned_of_int) simp
  qed
  then have "sint (ucast ((word_of_int r :: u64) - d) :: u32) = signed_take_bit 31 (r - uint d)"
    by (simp only: signed_of_int) simp
  then show ?thesis using assms by (simp add: signed_take_bit_int_eq_self)
qed

text \<open>A poll that is interrupted twice returns too early: the time since the start of the poll is
  taken off the remaining time again at each interruption, although the part up to the previous one
  was taken off before.  Interrupted after \<open>e1\<close> and after \<open>e2\<close> milliseconds, a poll with a longer
  timeout \<open>t\<close> that is at most \<open>e1 + e2\<close> returns after \<open>e2\<close>, with no event and no timer due.\<close>

theorem poll_interrupted_returns_early:
  assumes "nfds L \<noteq> 0" and "watcher_queue L = []" and "loop_flags L = 0" and "\<not> no_epoll_wait L"
    and "fast_clock L = Some c" and "\<not> long_is_32 K"
    and "sys_wait K False t 0 (kern L) = (Wait_failed EPOLL_EINTR, k1)"
    and "sys_gettime K c k1 = ((0, s1, n1), k2)" and "(s1 * 1000000000 + n1) div 1000000 = time L + e1"
    and "sys_wait K False (t - uint e1) 0 k2 = (Wait_failed EPOLL_EINTR, k3)"
    and "sys_gettime K c k3 = ((0, s2, n2), k4)" and "(s2 * 1000000000 + n2) div 1000000 = time L + e2"
    and "uint e1 < t" and "uint e2 < t" and "t \<le> uint e1 + uint e2" and "t \<le> INT_MAX"
  shows "uv__io_poll K call t L = Some (L\<lparr>kern := k4, time := time L + e2\<rparr>)"
proof -
  define L1 where "L1 = L\<lparr>kern := k2, time := time L + e1\<rparr>"
  define L2 where "L2 = L\<lparr>kern := k4, time := time L + e2\<rparr>"
  have w1: "poll_wait K 0 t L = Some (Wait_failed EPOLL_EINTR, L1)"
    using assms(4,5,7-9) by (simp add: poll_wait_def uv__update_time_def uv__hrtime_def L1_def)
  have w2: "poll_wait K 0 (t - uint e1) L1 = Some (Wait_failed EPOLL_EINTR, L2)"
    using assms(4,5,10-12) by (simp add: poll_wait_def uv__update_time_def uv__hrtime_def L1_def L2_def)
  have t: "0 < t" using assms(13) uint_ge_0 [of e1] by linarith
  have n1: "sint (ucast ((word_of_int t :: u64) - e1) :: u32) = t - uint e1"
    by (rule narrow_difference) (use assms(13,16) uint_ge_0 [of e1] in linarith)+
  have n2: "sint (ucast ((word_of_int (t - uint e1) :: u64) - e2) :: u32) = t - uint e1 - uint e2"
    by (rule narrow_difference) (use assms(13-16) uint_ge_0 [of e1] uint_ge_0 [of e2] in linarith)+
  have r1: "poll_round K call 0 (time L) t t 48 L = Some (Again (t - uint e1) (t - uint e1) 48 L1)"
    using w1 assms(6,13) t by (simp add: poll_round_def update_timeout_def n1 L1_def Let_def del: of_int_diff word_of_int_uint)
  have r2: "poll_round K call 0 (time L) (t - uint e1) (t - uint e1) 48 L1 = Some (Return L2)"
    using w2 assms(6,13,15) n2 by (simp add: poll_round_def update_timeout_def L2_def Let_def)
  have s: "sigprof_mask L = 0" using assms(3) by (simp add: sigprof_mask_def)
  have "poll_loop K call 0 (time L) t t 48 L = Some L2"
    by (subst poll_loop.simps, simp add: r1, subst poll_loop.simps, simp add: r2)
  then show ?thesis
    using assms(1,2) t by (simp add: uv__io_poll_def s L2_def)
qed

section \<open>A kernel and a loop to try them on\<close>

text \<open>A kernel that keeps an interest set and answers the waits from a script.\<close>

record skernel =
  sk_interest :: "int \<Rightarrow> u32 option"
  sk_script :: "(wait_result \<times> u64) list"
  sk_ns :: u64

definition sample_sys :: "skernel syscalls" where
  "sample_sys = \<lparr>
     sys_ctl = (\<lambda>op fd ev k. case op of
         UV__EPOLL_CTL_ADD \<Rightarrow> if sk_interest k fd = None then (0, k\<lparr>sk_interest := (sk_interest k)(fd := Some ev)\<rparr>)
                              else (EPOLL_EEXIST, k)
       | UV__EPOLL_CTL_MOD \<Rightarrow> if sk_interest k fd = None then (2, k)
                              else (0, k\<lparr>sk_interest := (sk_interest k)(fd := Some ev)\<rparr>)
       | UV__EPOLL_CTL_DEL \<Rightarrow> (if sk_interest k fd = None then 2 else 0, k\<lparr>sk_interest := (sk_interest k)(fd := None)\<rparr>)),
     sys_wait = (\<lambda>p t m k. case sk_script k of
         [] \<Rightarrow> (Ready [], k)
       | (r, ns) # rest \<Rightarrow>
           (case r of Ready evs \<Rightarrow> Ready (filter (\<lambda>(fd, ev). sk_interest k fd \<noteq> None) (take 1024 evs))
                    | Wait_failed e \<Rightarrow> Wait_failed EPOLL_EINTR, k\<lparr>sk_script := rest, sk_ns := ns\<rparr>)),
     sys_sigmask = (\<lambda>b k. (0, k)), sys_getres = (\<lambda>c k. ((0, 1000000), k)),
     sys_gettime = (\<lambda>c k. ((0, 0, sk_ns k), k)), long_is_32 = False\<rparr>"

lemma sample_ctl_laws: "ctl_laws sample_sys sk_interest (\<lambda>_. True)"
  by (simp add: ctl_laws_def sample_sys_def)

lemma sample_wait_laws: "wait_laws sample_sys sk_interest"
proof -
  have "length (filter P (take 1024 evs)) \<le> 1024" for P and evs :: "(int \<times> u32) list"
    using length_filter_le [of P "take 1024 evs"] by simp
  then show ?thesis
    by (auto simp: wait_laws_def sample_sys_def split: list.splits wait_result.splits)
qed

text \<open>Watcher 8 waits to write to descriptor 0, watcher 7 to read from descriptor 1.\<close>

definition sample_ploop :: "(wait_result \<times> u64) list \<Rightarrow> (skernel, (nat \<times> addr \<times> u32) list) ploop_scheme" where
  "sample_ploop script = \<lparr>active_handles = 0, handle_queue = [], closing_handles = None,
     handles = (\<lambda>_. \<lparr>flags = 0, htype = UV_POLL, next_closing = None\<rparr>),
     time = 10, timer_counter = 0,
     timer_heap = \<lparr>hmin = None, nelts = 0, hmem = (\<lambda>_. \<lparr>left = None, right = None, parent = None\<rparr>)\<rparr>,
     timers = (\<lambda>_. \<lparr>timer_cb = None, timeout = 0, repeat = 0, start_id = 0\<rparr>),
     active_reqs = [], watchers = [Watcher 8, Watcher 7, NoWatcher, NoWatcher], nwatchers = 2, nfds = 2,
     watcher_queue = [7, 8], pending_queue = [], pending_run = [],
     ios = (\<lambda>_. \<lparr>io_cb = 0, pevents = 0, io_events = 0, io_fd = 5\<rparr>)
       (7 := \<lparr>io_cb = 2, pevents = POLLIN, io_events = 0, io_fd = 1\<rparr>,
        8 := \<lparr>io_cb = 3, pevents = POLLOUT, io_events = 0, io_fd = 0\<rparr>),
     ep_events = [], lw_handles = (\<lambda>_. []), lw_run = (\<lambda>_. []), lw_cb = (\<lambda>_. None),
     loop_flags = 0, backend_fd = 3, signal_io = 99, fast_clock = Some CLOCK_MONOTONIC_COARSE,
     no_epoll_wait = False, no_epoll_pwait = False,
     kern = \<lparr>sk_interest = (\<lambda>_. None), sk_script = script, sk_ns = 0\<rparr>, \<dots> = []\<rparr>"

lemma sample_ploop_slots:
  "slot_at (sample_ploop s) i = (if i = 0 then Watcher 8 else if i = 1 then Watcher 7 else NoWatcher)"
  by (auto simp: slot_at_def sample_ploop_def less_2_cases_iff)

lemma sample_ploop_registered: "registered (sample_ploop s) w \<longleftrightarrow> w = 7 \<or> w = 8"
  by (auto simp: registered_def sample_ploop_slots) (auto simp: sample_ploop_def split: if_splits)

lemma sample_ploop_inv: "poll_inv sk_interest (sample_ploop s)" "pevents_ok (sample_ploop s)"
proof -
  have wf: "watched_fds (sample_ploop s) = {0, 1}" by (auto simp: watched_fds_def sample_ploop_slots)
  have "io_inv (sample_ploop s)"
    unfolding io_inv_def wf sample_ploop_registered sample_ploop_slots
    by (auto simp: sample_ploop_def split: if_splits)
  then show "poll_inv sk_interest (sample_ploop s)"
    unfolding poll_inv_def sample_ploop_registered by (auto simp: sample_ploop_def)
  show "pevents_ok (sample_ploop s)"
    by (auto simp: pevents_ok_def sample_ploop_def clear_flag_def poll_mask_def)
qed

definition note_io :: "('k, (nat \<times> addr \<times> u32) list) io_call" where
  "note_io cb w ev L = Some (ploop.more_update (\<lambda>l. l @ [(cb, w, ev)]) L)"

lemma note_io_keeps: "keeps_poll interest note_io"
  by (simp add: keeps_poll_def note_io_def poll_ready_def poll_inv_def)

theorem dispatch_skips_closed_witness:
  "\<exists>ne L'. poll_dispatch sample_sys (note_close sample_sys (\<lambda>cb w e l. l @ [(cb, w, e)]) (\<lambda>w. if w = 8 then [7] else []))
       [(0, POLLOUT), (1, POLLIN)] (sample_ploop []) = Some (False, ne, L') \<and>
     ploop.more L' = [(3, 8, POLLOUT)] \<and> \<not> registered L' 7"
proof -
  let ?L = "sample_ploop []" and ?cl = "\<lambda>w :: addr. if w = 8 then [7 :: addr] else []" and ?evs = "[(0, POLLOUT), (1, POLLIN)]"
  have io: "io_inv ?L" "unat (nwatchers ?L) < 2 ^ 31" using sample_ploop_inv by (simp_all add: poll_inv_def)
  have f: "watchers ?L \<noteq> []" "nwatchers ?L = 2" "signal_io ?L = 99" "pevents (ios ?L 7) = POLLIN"
      "pevents (ios ?L 8) = POLLOUT" "io_cb (ios ?L 8) = 3" "ploop.more ?L = []"
    by (simp_all add: sample_ploop_def)
  have w: "wanted_events POLLOUT POLLOUT = POLLOUT" "wanted_events POLLIN POLLIN = POLLIN"
    by (simp_all add: wanted_events_def)
  have ds: "dispatched ?L ?cl {} ?evs = [(8, POLLOUT)]" "\<not> signal_ready ?L ?evs"
    by (simp_all add: signal_ready_def sample_ploop_slots f w)
  show ?thesis
    using dispatch_skips_closed [OF io(1) sample_ploop_inv(2) f(1) io(2), of ?evs ?cl sample_sys "\<lambda>cb w e l. l @ [(cb, w, e)]"]
    by (auto simp: sample_ploop_registered ds f note_all_def closed_by_def simp del: dispatched.simps)
qed

theorem kernel_agreement_witness:
  "\<exists>L'. register_watchers sample_sys [7, 8] (sample_ploop []) = Some L' \<and> sk_interest (kern L') 1 = Some POLLIN"
proof -
  have f: "watcher_queue (sample_ploop []) = [7, 8]" "io_fd (ios (sample_ploop []) 7) = 1" "pevents (ios (sample_ploop []) 7) = POLLIN"
    by (simp_all add: sample_ploop_def)
  show ?thesis
    using kernel_agreement [OF sample_ctl_laws sample_ploop_inv(1), of "[]"] f by (auto simp: sample_ploop_registered)
qed

theorem poll_nonblocking_returns_witness:
  "\<exists>L'. uv__io_poll sample_sys note_io 0 (sample_ploop [(Wait_failed EPOLL_EINTR, 0)]) = Some L'"
  using poll_nonblocking_returns [OF sample_ctl_laws sample_wait_laws note_io_keeps sample_ploop_inv(1)] by blast

theorem poll_interrupted_returns_early_witness:
  "\<exists>L'. uv__io_poll sample_sys note_io 100 ((sample_ploop [(Wait_failed EPOLL_EINTR, 50000000),
       (Wait_failed EPOLL_EINTR, 70000000)])\<lparr>watcher_queue := []\<rparr>) = Some L' \<and> time L' = 70"
proof -
  let ?L = "(sample_ploop [(Wait_failed EPOLL_EINTR, 50000000), (Wait_failed EPOLL_EINTR, 70000000)])\<lparr>watcher_queue := []\<rparr>"
  let ?k = "\<lambda>s n. \<lparr>sk_interest = (\<lambda>_. None), sk_script = s, sk_ns = n\<rparr>"
  have "uv__io_poll sample_sys note_io 100 ?L = Some (?L\<lparr>kern := ?k [] 70000000, time := time ?L + 60\<rparr>)"
    by (rule poll_interrupted_returns_early [where c = CLOCK_MONOTONIC_COARSE and ?e1.0 = 40 and
        ?k1.0 = "?k [(Wait_failed EPOLL_EINTR, 70000000)] 50000000" and ?k2.0 = "?k [(Wait_failed EPOLL_EINTR, 70000000)] 50000000" and
        ?k3.0 = "?k [] 70000000" and ?s1.0 = 0 and ?n1.0 = 50000000 and ?s2.0 = 0 and ?n2.0 = 70000000])
       (simp_all add: sample_ploop_def sample_sys_def)
  then show ?thesis by (simp add: sample_ploop_def)
qed

end
