(* ===== verification/Async.thy ===== *)
theory Async
  imports Poll
begin

text \<open>
  Async handles: \<open>src/src/libuv/src/unix/async.c\<close>, with \<open>uv__make_pipe\<close> of \<open>process.c\<close>.  The loop is
  extended with the queue of async handles, their callbacks and \<open>pending\<close> flags, and the loop's
  \<open>async_watcher\<close> (its I/O watcher is the one at \<open>async_io\<close>).  \<open>async_run\<close> is the queue on the stack
  of a running \<open>uv__async_event\<close>.

  The second half is about threads: \<open>uv_async_send\<close> may be called from any of them while the loop
  runs.  There the operations are cut at their accesses to shared memory, and a step relation
  interleaves them.
\<close>

section \<open>Data\<close>

abbreviation AS_ENOSYS :: int where "AS_ENOSYS \<equiv> 38"
abbreviation AS_EAGAIN :: int where "AS_EAGAIN \<equiv> 11"
abbreviation AS_EINTR :: int where "AS_EINTR \<equiv> 4"

text \<open>A call that gives a descriptor gives \<open>-errno\<close> when it fails; so do \<open>sys_read\<close> and \<open>sys_write\<close>
  instead of a length.  \<open>sys_reopen\<close> opens \<open>/proc/self/fd/N\<close> for reading and writing; \<open>sys_fdflags\<close>
  sets close-on-exec and non-blocking mode, whose results the code ignores.\<close>

record 'k asyscalls = "'k syscalls" +
  sys_eventfd2 :: "'k \<Rightarrow> int \<times> 'k"
  sys_eventfd :: "'k \<Rightarrow> int \<times> 'k"
  sys_pipe2 :: "'k \<Rightarrow> (int \<times> int \<times> int) \<times> 'k"
  sys_pipe :: "'k \<Rightarrow> (int \<times> int \<times> int) \<times> 'k"
  sys_fdflags :: "int \<Rightarrow> 'k \<Rightarrow> 'k"
  sys_reopen :: "int \<Rightarrow> 'k \<Rightarrow> int \<times> 'k"
  sys_close :: "int \<Rightarrow> 'k \<Rightarrow> 'k"
  sys_read :: "int \<Rightarrow> nat \<Rightarrow> 'k \<Rightarrow> int \<times> 'k"
  sys_write :: "int \<Rightarrow> nat \<Rightarrow> 'k \<Rightarrow> int \<times> 'k"

record 'k aloop = "'k ploop" +
  async_handles :: "addr list"
  async_run :: "addr list"
  async_cb :: "addr \<Rightarrow> nat option"
  async_pending :: "addr \<Rightarrow> bool"
  async_io :: addr
  async_wfd :: int
  no_eventfd2 :: bool
  no_eventfd :: bool
  no_pipe2 :: bool

text \<open>The identifier of \<open>uv__async_io\<close> as the callback of a watcher.\<close>

abbreviation UV__ASYNC_IO :: nat where "UV__ASYNC_IO \<equiv> 1"

section \<open>The descriptor pair the loop is woken by\<close>

definition uv__async_eventfd :: "('k, 'b) asyscalls_scheme \<Rightarrow> ('k, 'a) aloop_scheme \<Rightarrow> int \<times> ('k, 'a) aloop_scheme" where
  "uv__async_eventfd K L =
     (let (r, L) = (if no_eventfd2 L then (- AS_ENOSYS, L)
                    else case sys_eventfd2 K (kern L) of (fd, k) \<Rightarrow> (fd, L\<lparr>kern := k\<rparr>))
      in if r \<ge> 0 then (r, L)
         else if r \<noteq> - AS_ENOSYS then (r, L)
         else
           let L = L\<lparr>no_eventfd2 := True\<rparr>;
               (r, L) = (if no_eventfd L then (- AS_ENOSYS, L)
                         else case sys_eventfd K (kern L) of (fd, k) \<Rightarrow> (fd, L\<lparr>kern := k\<rparr>))
           in if r \<ge> 0 then (r, L\<lparr>kern := sys_fdflags K r (kern L)\<rparr>)
              else if r \<noteq> - AS_ENOSYS then (r, L)
              else (- AS_ENOSYS, L\<lparr>no_eventfd := True\<rparr>))"

definition uv__make_pipe ::
  "('k, 'b) asyscalls_scheme \<Rightarrow> ('k, 'a) aloop_scheme \<Rightarrow> (int \<times> int \<times> int) \<times> ('k, 'a) aloop_scheme" where
  "uv__make_pipe K L =
     (let (r, L) = (if no_pipe2 L then ((- AS_ENOSYS, 0, 0), L)
                    else case sys_pipe2 K (kern L) of (r, k) \<Rightarrow> (r, L\<lparr>kern := k\<rparr>))
      in if fst r = 0 then (r, L)
         else if fst r \<noteq> - AS_ENOSYS then (r, L)
         else
           let L = L\<lparr>no_pipe2 := True\<rparr>
           in case sys_pipe K (kern L) of ((err, a, b), k) \<Rightarrow>
                if err \<noteq> 0 then ((err, a, b), L\<lparr>kern := k\<rparr>)
                else ((0, a, b), L\<lparr>kern := sys_fdflags K b (sys_fdflags K a k)\<rparr>))"

definition async_open ::
  "('k, 'b) asyscalls_scheme \<Rightarrow> ('k, 'a) aloop_scheme \<Rightarrow> (int \<times> int \<times> int) \<times> ('k, 'a) aloop_scheme" where
  "async_open K L =
     (let (err, L) = uv__async_eventfd K L
      in if err \<ge> 0 then ((err, err, - 1), L)
         else if err = - AS_ENOSYS then
           (let ((err, p0, p1), L) = uv__make_pipe K L
            in if err = 0 then
                 (case sys_reopen K p0 (kern L) of (fd, k) \<Rightarrow>
                    if fd \<ge> 0 then ((0, fd, fd), L\<lparr>kern := sys_close K p1 (sys_close K p0 k)\<rparr>)
                    else ((0, p0, p1), L\<lparr>kern := k\<rparr>))
               else ((err, p0, p1), L))
         else ((err, 0, 0), L))"

definition uv__async_init :: "('k, 'a) aloop_scheme \<Rightarrow> ('k, 'a) aloop_scheme" where
  "uv__async_init L = set_io (async_io L) ((ios L (async_io L))\<lparr>io_fd := - 1\<rparr>) (L\<lparr>async_wfd := - 1\<rparr>)"

definition uv__async_start ::
  "('k, 'b) asyscalls_scheme \<Rightarrow> (nat \<Rightarrow> bool) \<Rightarrow> ('k, 'a) aloop_scheme \<Rightarrow> (int \<times> ('k, 'a) aloop_scheme) option" where
  "uv__async_start K realloc_ok L =
     (if io_fd (ios L (async_io L)) \<noteq> - 1 then Some (0, L)
      else
        let ((err, rfd, wfd), L) = async_open K L
        in if err < 0 then Some (err, L)
           else do { L \<leftarrow> uv__io_init (async_io L) UV__ASYNC_IO rfd L;
                     L \<leftarrow> uv__io_start realloc_ok (async_io L) POLLIN L;
                     Some (0, L\<lparr>async_wfd := wfd\<rparr>) })"

definition uv__async_stop :: "('k, 'b) asyscalls_scheme \<Rightarrow> ('k, 'a) aloop_scheme \<Rightarrow> ('k, 'a) aloop_scheme option" where
  "uv__async_stop K L =
     (let w = async_io L in
      if io_fd (ios L w) = - 1 then Some L
      else do {
        let L = (if async_wfd L \<noteq> - 1 then
                   (if async_wfd L \<noteq> io_fd (ios L w) then L\<lparr>kern := sys_close K (async_wfd L) (kern L)\<rparr> else L)
                     \<lparr>async_wfd := - 1\<rparr>
                 else L);
        L \<leftarrow> uv__io_stop w POLLIN L;
        let L = L\<lparr>kern := sys_close K (io_fd (ios L w)) (kern L)\<rparr>;
        Some (set_io w ((ios L w)\<lparr>io_fd := - 1\<rparr>) L) })"

section \<open>Handles\<close>

definition uv_async_init ::
  "('k, 'b) asyscalls_scheme \<Rightarrow> (nat \<Rightarrow> bool) \<Rightarrow> addr \<Rightarrow> nat option \<Rightarrow> ('k, 'a) aloop_scheme
    \<Rightarrow> (int \<times> ('k, 'a) aloop_scheme) option" where
  "uv_async_init K realloc_ok a cb L =
     do { (err, L) \<leftarrow> uv__async_start K realloc_ok L;
          if err \<noteq> 0 then Some (err, L)
          else
            let L = uv__handle_init a UV_ASYNC L;
                L = L\<lparr>async_cb := (async_cb L)(a := cb), async_pending := (async_pending L)(a := False),
                      async_handles := async_handles L @ [a]\<rparr>
            in Some (0, uv__handle_start a L) }"

definition uv__async_close :: "addr \<Rightarrow> ('k, 'a) aloop_scheme \<Rightarrow> ('k, 'a) aloop_scheme" where
  "uv__async_close a L =
     uv__handle_stop a (L\<lparr>async_handles := removeAll a (async_handles L), async_run := removeAll a (async_run L)\<rparr>)"

text \<open>\<open>cmpxchgi(&h->pending, from, to)\<close>: whether the flag had the value \<open>from\<close>.\<close>

definition cmpxchgi :: "addr \<Rightarrow> bool \<Rightarrow> bool \<Rightarrow> ('k, 'a) aloop_scheme \<Rightarrow> bool \<times> ('k, 'a) aloop_scheme" where
  "cmpxchgi a from to L =
     (if async_pending L a = from then (True, L\<lparr>async_pending := (async_pending L)(a := to)\<rparr>) else (False, L))"

partial_function (option) uv__async_send ::
  "('k, 'b) asyscalls_scheme \<Rightarrow> ('k, 'a) aloop_scheme \<Rightarrow> ('k, 'a) aloop_scheme option" where
  [code]: "uv__async_send K L =
     (let (fd, len) = (if async_wfd L = - 1 then (io_fd (ios L (async_io L)), 8) else (async_wfd L, 1))
      in case sys_write K fd len (kern L) of (r, k) \<Rightarrow>
           let L = L\<lparr>kern := k\<rparr>
           in if r = - AS_EINTR then uv__async_send K L
              else if r = int len then Some L
              else if r = - AS_EAGAIN then Some L
              else None)"

definition uv_async_send ::
  "('k, 'b) asyscalls_scheme \<Rightarrow> addr \<Rightarrow> ('k, 'a) aloop_scheme \<Rightarrow> (int \<times> ('k, 'a) aloop_scheme) option" where
  "uv_async_send K a L =
     (if async_pending L a then Some (0, L)
      else case cmpxchgi a False True L of
             (True, L) \<Rightarrow> map_option (Pair 0) (uv__async_send K L)
           | (False, L) \<Rightarrow> Some (0, L))"

text \<open>One round of the loop of \<open>uv__async_event\<close>.\<close>

definition async_visit ::
  "(nat \<Rightarrow> addr \<Rightarrow> ('k, 'a) aloop_scheme \<Rightarrow> ('k, 'a) aloop_scheme option) \<Rightarrow>
   addr \<Rightarrow> ('k, 'a) aloop_scheme \<Rightarrow> ('k, 'a) aloop_scheme option" where
  "async_visit call q L =
     (let L = L\<lparr>async_run := removeAll q (async_run L), async_handles := async_handles L @ [q]\<rparr>
      in case cmpxchgi q True False L of
           (False, L) \<Rightarrow> Some L
         | (True, L) \<Rightarrow> (case async_cb L q of None \<Rightarrow> Some L | Some cb \<Rightarrow> call cb q L))"

partial_function (option) async_event_loop ::
  "(nat \<Rightarrow> addr \<Rightarrow> ('k, 'a) aloop_scheme \<Rightarrow> ('k, 'a) aloop_scheme option) \<Rightarrow>
   ('k, 'a) aloop_scheme \<Rightarrow> ('k, 'a) aloop_scheme option" where
  [code]: "async_event_loop call L =
     (case async_run L of
        [] \<Rightarrow> Some L
      | q # _ \<Rightarrow> Option.bind (async_visit call q L) (async_event_loop call))"

definition uv__async_event ::
  "(nat \<Rightarrow> addr \<Rightarrow> ('k, 'a) aloop_scheme \<Rightarrow> ('k, 'a) aloop_scheme option) \<Rightarrow>
   ('k, 'a) aloop_scheme \<Rightarrow> ('k, 'a) aloop_scheme option" where
  "uv__async_event call L =
     async_event_loop call (L\<lparr>async_run := async_handles L, async_handles := []\<rparr>)"

text \<open>Reading until the descriptor is empty; the result is the number of bytes read.\<close>

partial_function (option) async_read ::
  "('k, 'b) asyscalls_scheme \<Rightarrow> int \<Rightarrow> int \<Rightarrow> ('k, 'a) aloop_scheme \<Rightarrow> (int \<times> ('k, 'a) aloop_scheme) option" where
  [code]: "async_read K fd n L =
     (case sys_read K fd 1024 (kern L) of (r, k) \<Rightarrow>
        let L = L\<lparr>kern := k\<rparr>;
            n = (if r > 0 then n + r else n)
        in if r = 1024 then async_read K fd n L
           else if r \<ge> 0 then Some (n, L)
           else if r = - AS_EAGAIN then Some (n, L)
           else if r = - AS_EINTR then async_read K fd n L
           else None)"

definition uv__async_io ::
  "('k, 'b) asyscalls_scheme \<Rightarrow> (nat \<Rightarrow> addr \<Rightarrow> ('k, 'a) aloop_scheme \<Rightarrow> ('k, 'a) aloop_scheme option) \<Rightarrow>
   addr \<Rightarrow> ('k, 'a) aloop_scheme \<Rightarrow> ('k, 'a) aloop_scheme option" where
  "uv__async_io K call w L =
     do { (n, L) \<leftarrow> async_read K (io_fd (ios L w)) 0 L;
          if async_wfd L = - 1 then do { ASSERT (n = 8); uv__async_event call L }
          else uv__async_event call L }"

section \<open>What a pass over the handles does\<close>

definition note_async :: "(nat \<Rightarrow> addr \<Rightarrow> 'a \<Rightarrow> 'a) \<Rightarrow> nat \<Rightarrow> addr \<Rightarrow> ('k, 'a) aloop_scheme \<Rightarrow> ('k, 'a) aloop_scheme option" where
  "note_async f cb a L = Some (aloop.more_update (f cb a) L)"

definition note_handles :: "(nat \<Rightarrow> addr \<Rightarrow> 'a \<Rightarrow> 'a) \<Rightarrow> ('k, 'b) aloop_scheme \<Rightarrow> addr list \<Rightarrow> 'a \<Rightarrow> 'a" where
  "note_handles f L as = fold (\<lambda>a. f (the (async_cb L a)) a) (filter (\<lambda>a. async_pending L a \<and> async_cb L a \<noteq> None) as)"

lemma async_visit_note:
  assumes "async_run L = q # qs" "q \<notin> set qs"
  shows "async_visit (note_async f) q L = Some (aloop.more_update (note_handles f L [q])
     (L\<lparr>async_run := qs, async_handles := async_handles L @ [q], async_pending := (async_pending L)(q := False)\<rparr>))"
proof (cases "async_pending L q")
  case True
  then show ?thesis using assms
    by (auto simp: async_visit_def cmpxchgi_def note_async_def note_handles_def split: option.splits)
next
  case False
  then have "(async_pending L)(q := False) = async_pending L" by (simp add: fun_eq_iff)
  then show ?thesis using assms False
    by (simp add: async_visit_def cmpxchgi_def note_handles_def)
qed

lemma async_event_loop_note:
  assumes "async_run L = qs" "distinct qs"
  shows "async_event_loop (note_async f) L = Some (aloop.more_update (note_handles f L qs)
     (L\<lparr>async_run := [], async_handles := async_handles L @ qs,
        async_pending := (\<lambda>a. async_pending L a \<and> a \<notin> set qs)\<rparr>))"
  using assms
proof (induction qs arbitrary: L)
  case Nil
  then show ?case by (simp add: async_event_loop.simps note_handles_def)
next
  case (Cons q qs)
  define L1 where "L1 = aloop.more_update (note_handles f L [q])
     (L\<lparr>async_run := qs, async_handles := async_handles L @ [q], async_pending := (async_pending L)(q := False)\<rparr>)"
  have v: "async_visit (note_async f) q L = Some L1"
    unfolding L1_def using Cons.prems by (intro async_visit_note) simp_all
  have "async_run L1 = qs" "distinct qs" using Cons.prems by (simp_all add: L1_def)
  note IH = Cons.IH [OF this]
  have nh: "note_handles f L1 qs = note_handles f L qs"
    using Cons.prems(2) unfolding note_handles_def L1_def
    by (intro ext arg_cong2 [of _ _ _ _ "\<lambda>xs a. fold _ xs a"] filter_cong fold_cong) auto
  have "note_handles f L (q # qs) = note_handles f L qs \<circ> note_handles f L [q]"
    by (auto simp: note_handles_def)
  moreover have "(\<lambda>a. async_pending L1 a \<and> a \<notin> set qs) = (\<lambda>a. async_pending L a \<and> a \<notin> set (q # qs))"
    by (auto simp: L1_def)
  ultimately show ?case
    using Cons.prems(1) v IH by (subst async_event_loop.simps) (simp add: nh, simp add: L1_def comp_def)
qed

section \<open>Threads\<close>

text \<open>Where a thread is in \<open>uv_async_send\<close>: not in it, after the first look at \<open>pending\<close> found it 0, and
  after its \<open>cmpxchgi\<close> has set it.  The loop polls, has read its descriptor, or handles the queue.\<close>

datatype sender = Idle_thread | Checked addr | Won addr

datatype loop_phase = Polling | Woken | Draining

text \<open>\<open>wakeups\<close> counts the writes to the descriptor that were not read yet.  The last three fields only
  observe: the handles sent to since their last callback began, and how often each handle was sent
  to and called.\<close>

record 'k asys = "'k aloop" +
  senders :: "nat \<Rightarrow> sender"
  wakeups :: nat
  phase :: loop_phase
  asked :: "addr set"
  sends :: "addr \<Rightarrow> nat"
  calls :: "addr \<Rightarrow> nat"

definition sent :: "addr \<Rightarrow> 'k asys \<Rightarrow> 'k asys" where
  "sent a s = s\<lparr>asked := insert a (asked s), sends := (sends s)(a := sends s a + 1)\<rparr>"

definition called :: "nat \<Rightarrow> addr \<Rightarrow> 'k asys \<Rightarrow> 'k asys option" where
  "called cb a s = Some (s\<lparr>asked := asked s - {a}, calls := (calls s)(a := calls s a + 1)\<rparr>)"

definition own_handles :: "('k, 'a) aloop_scheme \<Rightarrow> addr set" where
  "own_handles L = set (async_handles L) \<union> set (async_run L)"

text \<open>The steps: a thread's look at \<open>pending\<close>, its \<open>cmpxchgi\<close> and its write; the loop's read, its move
  of the queue, the rounds over the queue, and closing a handle no thread is sending to.\<close>

inductive async_step :: "'k asys \<Rightarrow> 'k asys \<Rightarrow> bool" where
  look_set: "senders s t = Idle_thread \<Longrightarrow> a \<in> own_handles s \<Longrightarrow> async_pending s a \<Longrightarrow> async_step s (sent a s)"
| look_clear: "senders s t = Idle_thread \<Longrightarrow> a \<in> own_handles s \<Longrightarrow> \<not> async_pending s a \<Longrightarrow>
    async_step s (sent a s\<lparr>senders := (senders s)(t := Checked a)\<rparr>)"
| swap: "senders s t = Checked a \<Longrightarrow> cmpxchgi a False True s = (won, s') \<Longrightarrow>
    async_step s (s'\<lparr>senders := (senders s)(t := if won then Won a else Idle_thread)\<rparr>)"
| wake: "senders s t = Won a \<Longrightarrow>
    async_step s (s\<lparr>wakeups := wakeups s + 1, senders := (senders s)(t := Idle_thread)\<rparr>)"
| read: "phase s = Polling \<Longrightarrow> 0 < wakeups s \<Longrightarrow> async_step s (s\<lparr>wakeups := 0, phase := Woken\<rparr>)"
| move: "phase s = Woken \<Longrightarrow>
    async_step s (s\<lparr>phase := Draining, async_run := async_handles s, async_handles := []\<rparr>)"
| visit: "phase s = Draining \<Longrightarrow> async_run s = q # qs \<Longrightarrow> async_visit called q s = Some s' \<Longrightarrow> async_step s s'"
| finish: "phase s = Draining \<Longrightarrow> async_run s = [] \<Longrightarrow> async_step s (s\<lparr>phase := Polling\<rparr>)"
| close: "a \<in> own_handles s \<Longrightarrow> (\<forall>t. senders s t \<noteq> Checked a \<and> senders s t \<noteq> Won a) \<Longrightarrow>
    async_step s (uv__async_close a s\<lparr>asked := asked s - {a}\<rparr>)"

inductive async_reach :: "'k asys \<Rightarrow> 'k asys \<Rightarrow> bool" for s0 where
  start: "async_reach s0 s0"
| step: "async_reach s0 s \<Longrightarrow> async_step s s' \<Longrightarrow> async_reach s0 s'"

text \<open>The loop before any thread has sent anything.\<close>

definition async_quiet :: "'k asys \<Rightarrow> bool" where
  "async_quiet s \<longleftrightarrow> (\<forall>t. senders s t = Idle_thread) \<and> (\<forall>a. \<not> async_pending s a) \<and> phase s = Polling \<and>
     async_run s = [] \<and> distinct (async_handles s) \<and> asked s = {} \<and> (\<forall>a. calls s a \<le> sends s a)"

section \<open>No wake-up is lost\<close>

text \<open>A handle with the flag set will be looked at: the descriptor is readable, or about to be written,
  or the loop has read it and the handle's turn is still to come.\<close>

definition queue_ok :: "'k asys \<Rightarrow> bool" where
  "queue_ok s \<longleftrightarrow> distinct (async_handles s @ async_run s) \<and> (phase s \<noteq> Draining \<longrightarrow> async_run s = [])"

definition wake_ok :: "'k asys \<Rightarrow> bool" where
  "wake_ok s \<longleftrightarrow>
     (\<forall>a \<in> own_handles s. async_pending s a \<longrightarrow> 0 < wakeups s \<or> (\<exists>t. senders s t = Won a) \<or> phase s = Woken \<or>
        (phase s = Draining \<and> a \<in> set (async_run s)))"

text \<open>A handle that was sent to and not called since has the flag set, or a thread is about to set it.\<close>

definition asked_ok :: "'k asys \<Rightarrow> bool" where
  "asked_ok s \<longleftrightarrow>
     (\<forall>a \<in> own_handles s. async_cb s a \<noteq> None \<longrightarrow> a \<in> asked s \<longrightarrow> async_pending s a \<or> (\<exists>t. senders s t = Checked a))"

text \<open>Each callback, each set flag and each thread about to set one stands for a send of its own.\<close>

definition count_ok :: "'k asys \<Rightarrow> bool" where
  "count_ok s \<longleftrightarrow> finite {t. senders s t \<noteq> Idle_thread} \<and>
     (\<forall>a. calls s a + of_bool (async_pending s a) + card {t. senders s t = Checked a} \<le> sends s a)"

definition async_inv :: "'k asys \<Rightarrow> bool" where
  "async_inv s \<longleftrightarrow> queue_ok s \<and> wake_ok s \<and> asked_ok s \<and> count_ok s"

lemma async_quiet_inv: "async_quiet s \<Longrightarrow> async_inv s"
  by (simp add: async_quiet_def async_inv_def queue_ok_def wake_ok_def asked_ok_def count_ok_def)

lemma own_handles_upd [simp]:
  "own_handles (senders_update g s) = own_handles s" "own_handles (wakeups_update h s) = own_handles s"
  "own_handles (phase_update p s) = own_handles s" "own_handles (asked_update e s) = own_handles s"
  "own_handles (sends_update n s) = own_handles s" "own_handles (s\<lparr>async_pending := pe\<rparr>) = own_handles s"
  by (simp_all add: own_handles_def)

lemma own_handles_sent [simp]: "own_handles (sent a s) = own_handles s"
  by (simp add: sent_def)

lemma ex_sender_upd: "f t \<noteq> c \<Longrightarrow> (\<exists>u. (f(t := v)) u = c) \<longleftrightarrow> v = c \<or> (\<exists>u. f u = c)"
  by (metis fun_upd_apply)

lemma senders_upd:
  "{u. (f(t := v)) u = c} = (if v = c then insert t {u. f u = c} else {u. f u = c} - {t})"
  by auto

lemma finite_checked: "finite {t. senders s t \<noteq> Idle_thread} \<Longrightarrow> finite {t. senders s t = Checked a}"
  by (rule finite_subset) auto

lemma finite_senders_upd: "finite {u. f u \<noteq> Idle_thread} \<Longrightarrow> finite {u. (f(t := v)) u \<noteq> Idle_thread}"
  by (rule finite_subset [of _ "insert t {u. f u \<noteq> Idle_thread}"]) auto

lemma card_checked_upd:
  assumes "finite {u. f u \<noteq> Idle_thread}"
  shows "card {u. (f(t := v)) u = Checked a} + of_bool (f t = Checked a) =
         card {u. f u = Checked a} + of_bool (v = Checked a)"
proof -
  have fin: "finite {u. f u = Checked a}" by (rule finite_subset [OF _ assms]) auto
  show ?thesis
  proof (cases "f t = Checked a")
    case True
    then have t: "t \<in> {u. f u = Checked a}" by simp
    show ?thesis unfolding senders_upd using True card.remove [OF fin t] by (simp add: insert_absorb)
  next
    case False
    then have "t \<notin> {u. f u = Checked a}" by simp
    then show ?thesis unfolding senders_upd using False fin by simp
  qed
qed

lemma count_okD:
  "count_ok s \<Longrightarrow> calls s a + of_bool (async_pending s a) + card {t. senders s t = Checked a} \<le> sends s a"
  "count_ok s \<Longrightarrow> finite {t. senders s t \<noteq> Idle_thread}"
  by (simp_all add: count_ok_def)

lemma count_okI:
  "finite {t. senders s t \<noteq> Idle_thread} \<Longrightarrow>
   (\<And>a. calls s a + of_bool (async_pending s a) + card {t. senders s t = Checked a} \<le> sends s a) \<Longrightarrow> count_ok s"
  by (simp add: count_ok_def)

text \<open>What handling one handle does to the state.\<close>

lemma async_visit_called:
  assumes "async_visit called q s = Some s'" "async_run s = q # qs" "q \<notin> set qs"
  shows "s' = (if async_pending s q \<and> async_cb s q \<noteq> None
      then s\<lparr>async_run := qs, async_handles := async_handles s @ [q], async_pending := (async_pending s)(q := False),
             asked := asked s - {q}, calls := (calls s)(q := calls s q + 1)\<rparr>
      else s\<lparr>async_run := qs, async_handles := async_handles s @ [q], async_pending := (async_pending s)(q := False)\<rparr>)"
proof (cases "async_pending s q")
  case True
  then show ?thesis using assms by (auto simp: async_visit_def cmpxchgi_def called_def split: option.splits)
next
  case False
  then have "(async_pending s)(q := False) = async_pending s" by (simp add: fun_eq_iff)
  then show ?thesis using assms False by (auto simp: async_visit_def cmpxchgi_def)
qed

lemma async_close_sel [simp]:
  "async_handles (uv__async_close a L) = removeAll a (async_handles L)"
  "async_run (uv__async_close a L) = removeAll a (async_run L)"
  "async_pending (uv__async_close a L) = async_pending L" "async_cb (uv__async_close a L) = async_cb L"
  "aloop.more (uv__async_close a L) = aloop.more L"
  by (simp_all add: uv__async_close_def handle_ops_defs set_flags_def)

lemma async_close_asys [simp]:
  fixes s :: "'k asys"
  shows "senders (uv__async_close a s) = senders s" "wakeups (uv__async_close a s) = wakeups s"
    "phase (uv__async_close a s) = phase s" "asked (uv__async_close a s) = asked s"
    "sends (uv__async_close a s) = sends s" "calls (uv__async_close a s) = calls s"
  by (simp_all add: uv__async_close_def handle_ops_defs set_flags_def)

lemma count_step:
  assumes "async_step s s'" and "async_inv s"
  shows "count_ok s'"
  using assms
proof (induction rule: async_step.induct)
  case (look_set s t a)
  then have c: "count_ok s" by (simp add: async_inv_def)
  show ?case
  proof (rule count_okI)
    show "calls (sent a s) b + of_bool (async_pending (sent a s) b) + card {t. senders (sent a s) t = Checked b}
        \<le> sends (sent a s) b" for b
      using count_okD(1) [OF c, of b] by (cases "b = a") (simp_all add: sent_def)
  qed (use count_okD(2) [OF c] in \<open>simp add: sent_def\<close>)
next
  case (look_clear s t a)
  then have c: "count_ok s" by (simp add: async_inv_def)
  note fin = count_okD(2) [OF c]
  show ?case
  proof (rule count_okI)
    let ?s = "sent a s\<lparr>senders := (senders s)(t := Checked a)\<rparr>"
    show "calls ?s b + of_bool (async_pending ?s b) + card {t. senders ?s t = Checked b} \<le> sends ?s b" for b
      using count_okD(1) [OF c, of b] card_checked_upd [OF fin, of t "Checked a" b] look_clear.hyps(1)
      by (cases "b = a") (simp_all add: sent_def)
  qed (use finite_senders_upd [OF fin, of t "Checked a"] in \<open>simp add: sent_def\<close>)
next
  case (swap s t a won s')
  then have c: "count_ok s" by (simp add: async_inv_def)
  note fin = count_okD(2) [OF c]
  let ?v = "if won then Won a else Idle_thread"
  have w: "won \<longleftrightarrow> \<not> async_pending s a" "async_pending s' = (async_pending s)(a := True)" "calls s' = calls s" "sends s' = sends s"
    using swap.hyps(2) by (auto simp: cmpxchgi_def fun_eq_iff split: if_splits)
  define g where "g = (senders s)(t := ?v)"
  have cg: "card {u. g u = Checked b} + of_bool (b = a) = card {u. senders s u = Checked b}" for b
    using card_checked_upd [OF fin, of t ?v b] swap.hyps(1) unfolding g_def [symmetric] by auto
  have fg: "finite {u. g u \<noteq> Idle_thread}" unfolding g_def by (rule finite_senders_upd [OF fin])
  have "calls s b + of_bool (((async_pending s)(a := True)) b) + card {u. g u = Checked b} \<le> sends s b" for b
    using count_okD(1) [OF c, of b] cg [of b] by (cases "b = a") simp_all
  then show ?case using fg w(2-4) unfolding count_ok_def by (simp add: g_def [symmetric])
next
  case (wake s t a)
  then have c: "count_ok s" by (simp add: async_inv_def)
  note fin = count_okD(2) [OF c]
  have "calls s b + of_bool (async_pending s b) + card {u. ((senders s)(t := Idle_thread)) u = Checked b} \<le> sends s b" for b
    using count_okD(1) [OF c, of b] card_checked_upd [OF fin, of t Idle_thread b] wake.hyps by simp
  then show ?case using finite_senders_upd [OF fin, of t Idle_thread] by (simp add: count_ok_def)
next
  case (visit s q qs s')
  then have c: "count_ok s" "q \<notin> set qs" by (auto simp: async_inv_def queue_ok_def)
  note s' = async_visit_called [OF visit.hyps(3,2) c(2)]
  show ?case using count_okD [OF c(1)] unfolding count_ok_def
    by (auto simp: s' intro: order_trans [OF _ count_okD(1) [OF c(1)]])
next
  case (close a s)
  then show ?case by (simp add: async_inv_def count_ok_def)
qed (simp_all add: async_inv_def count_ok_def)

lemma queue_step:
  assumes "async_step s s'" and "async_inv s"
  shows "queue_ok s'"
  using assms
proof (induction rule: async_step.induct)
  case (swap s t a won s')
  then show ?case by (auto simp: async_inv_def queue_ok_def cmpxchgi_def split: if_splits)
next
  case (visit s q qs s')
  then have q: "q \<notin> set qs" by (auto simp: async_inv_def queue_ok_def)
  note s' = async_visit_called [OF visit.hyps(3,2) q]
  show ?case using visit.prems visit.hyps by (auto simp: s' async_inv_def queue_ok_def)
next
  case (close a s)
  then show ?case by (auto simp: async_inv_def queue_ok_def distinct_removeAll)
qed (auto simp: async_inv_def queue_ok_def sent_def)

lemma own_handles_close [simp]: "own_handles (uv__async_close a L) = own_handles L - {a}"
  by (auto simp: own_handles_def)

lemma own_handles_visit:
  assumes "async_visit called q s = Some s'" "async_run s = q # qs" "q \<notin> set qs"
  shows "own_handles s' = own_handles s"
  using assms(2) async_visit_called [OF assms] by (auto simp: own_handles_def)

lemma asked_step:
  assumes "async_step s s'" and "async_inv s"
  shows "asked_ok s'"
  using assms
proof (induction rule: async_step.induct)
  case (look_clear s t a)
  show ?case unfolding asked_ok_def
  proof (intro ballI impI)
    let ?s = "sent a s\<lparr>senders := (senders s)(t := Checked a)\<rparr>"
    fix b assume b: "b \<in> own_handles ?s" "async_cb ?s b \<noteq> None" "b \<in> asked ?s"
    show "async_pending ?s b \<or> (\<exists>u. senders ?s u = Checked b)"
    proof (cases "b = a")
      case True then show ?thesis by (auto simp: sent_def)
    next
      case False
      then have "async_pending s b \<or> (\<exists>u. senders s u = Checked b)"
      proof -
        have "b \<in> own_handles s" using b(1) by simp
        moreover have "async_cb s b \<noteq> None" "b \<in> asked s" using b(2,3) False by (simp_all add: sent_def)
        ultimately show ?thesis using look_clear.prems by (simp add: async_inv_def asked_ok_def)
      qed
      then show ?thesis using ex_sender_upd [of "senders s" t "Checked b" "Checked a"] look_clear.hyps(1)
        by (auto simp: sent_def)
    qed
  qed
next
  case (swap s t a won s')
  have e: "own_handles s' = own_handles s" "async_cb s' = async_cb s" "asked s' = asked s" "async_pending s' = (async_pending s)(a := True)"
    using swap.hyps(2) by (auto simp: cmpxchgi_def own_handles_def fun_eq_iff split: if_splits)
  show ?case unfolding asked_ok_def
  proof (intro ballI impI)
    fix b assume b: "b \<in> own_handles (s'\<lparr>senders := (senders s)(t := if won then Won a else Idle_thread)\<rparr>)"
      "async_cb (s'\<lparr>senders := (senders s)(t := if won then Won a else Idle_thread)\<rparr>) b \<noteq> None"
      "b \<in> asked (s'\<lparr>senders := (senders s)(t := if won then Won a else Idle_thread)\<rparr>)"
    then have "async_pending s b \<or> (\<exists>u. senders s u = Checked b)"
      using swap.prems e by (simp add: async_inv_def asked_ok_def)
    then show "async_pending (s'\<lparr>senders := (senders s)(t := if won then Won a else Idle_thread)\<rparr>) b \<or>
        (\<exists>u. senders (s'\<lparr>senders := (senders s)(t := if won then Won a else Idle_thread)\<rparr>) u = Checked b)"
      using e swap.hyps(1) by (cases "b = a") (auto, metis sender.inject(1))
  qed
next
  case (wake s t a)
  have "(\<exists>u. ((senders s)(t := Idle_thread)) u = Checked b) \<longleftrightarrow> (\<exists>u. senders s u = Checked b)" for b
    using ex_sender_upd [of "senders s" t "Checked b" Idle_thread] wake.hyps by simp
  then show ?case using wake.prems by (simp add: async_inv_def asked_ok_def del: fun_upd_apply)
next
  case (visit s q qs s')
  then have q: "q \<notin> set qs" by (auto simp: async_inv_def queue_ok_def)
  note s' = async_visit_called [OF visit.hyps(3,2) q]
  show ?case using visit.prems own_handles_visit [OF visit.hyps(3,2) q]
    unfolding async_inv_def asked_ok_def by (auto simp: s')
next
  case (close a s)
  then show ?case unfolding async_inv_def asked_ok_def by auto
qed (auto simp: async_inv_def asked_ok_def sent_def own_handles_def)

lemma wake_step:
  assumes "async_step s s'" and "async_inv s"
  shows "wake_ok s'"
  using assms
proof (induction rule: async_step.induct)
  case (look_clear s t a)
  show ?case unfolding wake_ok_def
  proof (intro ballI impI)
    let ?s = "sent a s\<lparr>senders := (senders s)(t := Checked a)\<rparr>"
    fix b assume b: "b \<in> own_handles ?s" "async_pending ?s b"
    then have "0 < wakeups s \<or> (\<exists>u. senders s u = Won b) \<or> phase s = Woken \<or> (phase s = Draining \<and> b \<in> set (async_run s))"
      using look_clear.prems by (simp add: async_inv_def wake_ok_def) (simp add: sent_def)
    then show "0 < wakeups ?s \<or> (\<exists>u. senders ?s u = Won b) \<or> phase ?s = Woken \<or> (phase ?s = Draining \<and> b \<in> set (async_run ?s))"
      using ex_sender_upd [of "senders s" t "Won b" "Checked a"] look_clear.hyps(1) by (auto simp: sent_def)
  qed
next
  case (swap s t a won s')
  have e: "own_handles s' = own_handles s" "async_run s' = async_run s" "wakeups s' = wakeups s" "phase s' = phase s"
      "async_pending s' = (async_pending s)(a := True)" "won \<longleftrightarrow> \<not> async_pending s a"
    using swap.hyps(2) by (auto simp: cmpxchgi_def own_handles_def fun_eq_iff split: if_splits)
  let ?s = "s'\<lparr>senders := (senders s)(t := if won then Won a else Idle_thread)\<rparr>"
  show ?case unfolding wake_ok_def
  proof (intro ballI impI)
    fix b assume b: "b \<in> own_handles ?s" "async_pending ?s b"
    show "0 < wakeups ?s \<or> (\<exists>u. senders ?s u = Won b) \<or> phase ?s = Woken \<or> (phase ?s = Draining \<and> b \<in> set (async_run ?s))"
    proof (cases "b = a \<and> won")
      case True then show ?thesis by auto
    next
      case False
      then have "async_pending s b" using b(2) e by (auto split: if_splits)
      then have "0 < wakeups s \<or> (\<exists>u. senders s u = Won b) \<or> phase s = Woken \<or> (phase s = Draining \<and> b \<in> set (async_run s))"
        using swap.prems b(1) e(1) by (simp add: async_inv_def wake_ok_def)
      then show ?thesis
        using ex_sender_upd [of "senders s" t "Won b" "if won then Won a else Idle_thread"] swap.hyps(1) e by auto
    qed
  qed
next
  case (wake s t a)
  then show ?case by (simp add: wake_ok_def)
next
  case (move s)
  then show ?case by (auto simp: wake_ok_def own_handles_def async_inv_def queue_ok_def)
next
  case (visit s q qs s')
  then have q: "q \<notin> set qs" by (auto simp: async_inv_def queue_ok_def)
  note s' = async_visit_called [OF visit.hyps(3,2) q]
  show ?case using visit.prems visit.hyps(1,2) own_handles_visit [OF visit.hyps(3,2) q]
    unfolding async_inv_def wake_ok_def by (auto simp: s')
next
  case (finish s)
  then show ?case by (auto simp: wake_ok_def async_inv_def)
next
  case (close a s)
  then show ?case by (auto simp: wake_ok_def async_inv_def)
qed (auto simp: wake_ok_def sent_def own_handles_def async_inv_def)

lemma async_reach_inv:
  assumes "async_reach s0 s" and "async_quiet s0"
  shows "async_inv s"
  using assms(1)
proof induction
  case start
  then show ?case by (rule async_quiet_inv [OF assms(2)])
next
  case (step s s')
  then show ?case
    using queue_step wake_step asked_step count_step unfolding async_inv_def [of s'] by blast
qed

section \<open>Properties\<close>

text \<open>One \<open>uv__async_event\<close> returns, and calls exactly the handles whose flag is set and that have a
  callback, each once and in queue order; all flags of the handles are clear afterwards and the
  queue is as before.\<close>

theorem async_event_calls_pending:
  assumes "distinct (async_handles L)" and "async_run L = []"
  shows "uv__async_event (note_async f) L = Some (aloop.more_update (note_handles f L (async_handles L))
     (L\<lparr>async_pending := (\<lambda>a. async_pending L a \<and> a \<notin> set (async_handles L))\<rparr>))"
proof -
  have "note_handles f (L\<lparr>async_run := async_handles L, async_handles := []\<rparr>) = note_handles f L"
    by (simp add: note_handles_def fun_eq_iff)
  then show ?thesis
    using async_event_loop_note [OF _ assms(1), of "L\<lparr>async_run := async_handles L, async_handles := []\<rparr>" f] assms(2)
    by (simp add: uv__async_event_def)
qed


text \<open>A loop with the async handles 5 and 6; 5 has been sent to.\<close>

definition sample_aloop :: "skernel aloop" where
  "sample_aloop = ploop.extend (ploop.truncate (sample_ploop []))
     (aloop.fields [5, 6] [] (\<lambda>a. Some (a + 10)) (\<lambda>a. a = 5) 77 (- 1) False False False)"

definition sample_asys :: "skernel asys" where
  "sample_asys = aloop.extend (sample_aloop\<lparr>async_pending := (\<lambda>_. False)\<rparr>)
     (asys.fields (\<lambda>_. Idle_thread) 0 Polling {} (\<lambda>_. 0) (\<lambda>_. 0))"

lemmas sample_async_defs = sample_aloop_def sample_asys_def sample_ploop_def ploop.defs aloop.defs asys.defs

theorem async_event_calls_pending_witness:
  "\<exists>L'. uv__async_event (note_async (\<lambda>cb a l. l @ [(cb, a)])) (aloop.extend sample_aloop []) = Some L' \<and>
     aloop.more L' = [(15, 5)] \<and> \<not> async_pending L' 5"
proof -
  let ?L = "aloop.extend sample_aloop [] :: (skernel, (nat \<times> addr) list) aloop_scheme"
  have f: "async_handles ?L = [5, 6]" "async_run ?L = []" "async_cb ?L = (\<lambda>a. Some (a + 10))" "async_pending ?L = (\<lambda>a. a = 5)"
      "aloop.more ?L = []"
    by (simp_all add: sample_async_defs)
  show ?thesis
    using async_event_calls_pending [of ?L "\<lambda>cb a l. l @ [(cb, a)]"] by (simp add: f note_handles_def)
qed

text \<open>A run in which thread 0 sends to handle 5 and the loop answers.\<close>

definition sample_run :: "skernel asys list" where
  "sample_run =
     (let s1 = (sent 5 sample_asys)\<lparr>senders := (\<lambda>t. if t = 0 then Checked 5 else Idle_thread)\<rparr>;
          s2 = s1\<lparr>async_pending := (\<lambda>a. a = 5), senders := (\<lambda>t. if t = 0 then Won 5 else Idle_thread)\<rparr>;
          s3 = s2\<lparr>wakeups := 1, senders := (\<lambda>_. Idle_thread)\<rparr>;
          s4 = s3\<lparr>wakeups := 0, phase := Woken\<rparr>;
          s5 = s4\<lparr>phase := Draining, async_run := [5, 6], async_handles := []\<rparr>;
          s6 = s5\<lparr>async_run := [6], async_handles := [5], async_pending := (\<lambda>_. False), asked := {}, calls := (\<lambda>_. 0)(5 := 1)\<rparr>;
          s7 = s6\<lparr>async_run := [], async_handles := [5, 6]\<rparr>;
          s8 = s7\<lparr>phase := Polling\<rparr>
      in [s1, s2, s3, s4, s5, s6, s7, s8])"

lemma sample_run_reach: "async_reach sample_asys (last sample_run)"
proof -
  have u: "(\<lambda>t. if t = 0 then v else Idle_thread) = (\<lambda>_. Idle_thread)(0 := v)" for v :: sender by auto
  have z: "(\<lambda>_. Idle_thread)(0 := Idle_thread) = (\<lambda>_ :: nat. Idle_thread)" by auto
  let ?s = "\<lambda>i. sample_run ! i"
  note d = sample_run_def Let_def
  have "async_step sample_asys (?s 0)"
  proof -
    have "async_step sample_asys (sent 5 sample_asys\<lparr>senders := (senders sample_asys)(0 := Checked 5)\<rparr>)"
      by (rule look_clear) (simp_all add: sample_async_defs own_handles_def)
    then show ?thesis by (simp add: d u) (simp add: sample_async_defs)
  qed
  then have r0: "async_reach sample_asys (?s 0)" by (rule async_reach.step [OF async_reach.start])
  have "async_step (?s 0) (?s 1)"
  proof -
    have "cmpxchgi 5 False True (?s 0) = (True, (?s 0)\<lparr>async_pending := (\<lambda>a. a = 5)\<rparr>)"
      by (simp add: d cmpxchgi_def sent_def sample_async_defs fun_eq_iff)
    from swap [OF _ this, of 0] show ?thesis by (simp add: d u)
  qed
  then have r1: "async_reach sample_asys (?s 1)" by (rule async_reach.step [OF r0])
  have "async_step (?s 1) (?s 2)"
    using wake [of "?s 1" 0 5] by (simp add: d u z sent_def sample_async_defs)
  then have r2: "async_reach sample_asys (?s 2)" by (rule async_reach.step [OF r1])
  have "async_step (?s 2) (?s 3)" using read [of "?s 2"] by (simp add: d sent_def sample_async_defs)
  then have r3: "async_reach sample_asys (?s 3)" by (rule async_reach.step [OF r2])
  have "async_step (?s 3) (?s 4)" using move [of "?s 3"] by (simp add: d sent_def sample_async_defs)
  then have r4: "async_reach sample_asys (?s 4)" by (rule async_reach.step [OF r3])
  have "async_step (?s 4) (?s 5)"
    by (rule visit [of _ 5 "[6]"]) (auto simp: d sent_def sample_async_defs async_visit_def cmpxchgi_def called_def fun_eq_iff)
  then have r5: "async_reach sample_asys (?s 5)" by (rule async_reach.step [OF r4])
  have "async_step (?s 5) (?s 6)"
    by (rule visit [of _ 6 "[]"]) (auto simp: d sent_def sample_async_defs async_visit_def cmpxchgi_def called_def)
  then have r6: "async_reach sample_asys (?s 6)" by (rule async_reach.step [OF r5])
  have "async_step (?s 6) (?s 7)" using finish [of "?s 6"] by (simp add: d sent_def sample_async_defs)
  then have "async_reach sample_asys (?s 7)" by (rule async_reach.step [OF r6])
  then show ?thesis by (simp add: d)
qed


end
