(* ===== verification/PollHandle.thy ===== *)
theory PollHandle
  imports Async
begin

text \<open>
  Poll handles: \<open>src/src/libuv/src/unix/poll.c\<close>, with \<open>uv__nonblock_ioctl\<close> and
  \<open>uv__nonblock_fcntl\<close> of \<open>core.c\<close>.  A poll handle and its I/O watcher are one object, so they
  share one address.  The loops that repeat an interrupted call are partial.
\<close>

section \<open>Data\<close>

abbreviation UV_READABLE :: u32 where "UV_READABLE \<equiv> 1"
abbreviation UV_WRITABLE :: u32 where "UV_WRITABLE \<equiv> 2"
abbreviation UV_DISCONNECT :: u32 where "UV_DISCONNECT \<equiv> 4"
abbreviation PH_EBADF :: int where "PH_EBADF \<equiv> 9"
abbreviation PH_ENOTTY :: int where "PH_ENOTTY \<equiv> 25"
abbreviation O_NONBLOCK :: u32 where "O_NONBLOCK \<equiv> 0x800"

text \<open>\<open>ioctl(fd, FIONBIO, &set)\<close>, 0 or \<open>-errno\<close>; \<open>F_GETFL\<close>, the flags or \<open>errno\<close>; and \<open>F_SETFL\<close>.\<close>

record 'k usyscalls = "'k asyscalls" +
  sys_fionbio :: "int \<Rightarrow> bool \<Rightarrow> 'k \<Rightarrow> int \<times> 'k"
  sys_getfl :: "int \<Rightarrow> 'k \<Rightarrow> (int + u32) \<times> 'k"
  sys_setfl :: "int \<Rightarrow> u32 \<Rightarrow> 'k \<Rightarrow> int \<times> 'k"

record 'k uloop = "'k aloop" +
  poll_cb :: "addr \<Rightarrow> nat option"

abbreviation UV__POLL_IO :: nat where "UV__POLL_IO \<equiv> 2"

section \<open>Non-blocking mode\<close>

partial_function (option) uv__nonblock_ioctl ::
  "('k, 'b) usyscalls_scheme \<Rightarrow> int \<Rightarrow> bool \<Rightarrow> ('k, 'a) uloop_scheme \<Rightarrow> (int \<times> ('k, 'a) uloop_scheme) option" where
  [code]: "uv__nonblock_ioctl K fd on L =
     (case sys_fionbio K fd on (kern L) of (r, k) \<Rightarrow>
        let L = L\<lparr>kern := k\<rparr>
        in if r = - AS_EINTR then uv__nonblock_ioctl K fd on L else Some (r, L))"

partial_function (option) getfl_loop ::
  "('k, 'b) usyscalls_scheme \<Rightarrow> int \<Rightarrow> ('k, 'a) uloop_scheme \<Rightarrow> ((int + u32) \<times> ('k, 'a) uloop_scheme) option" where
  [code]: "getfl_loop K fd L =
     (case sys_getfl K fd (kern L) of (r, k) \<Rightarrow>
        let L = L\<lparr>kern := k\<rparr> in if r = Inl AS_EINTR then getfl_loop K fd L else Some (r, L))"

partial_function (option) setfl_loop ::
  "('k, 'b) usyscalls_scheme \<Rightarrow> int \<Rightarrow> u32 \<Rightarrow> ('k, 'a) uloop_scheme \<Rightarrow> (int \<times> ('k, 'a) uloop_scheme) option" where
  [code]: "setfl_loop K fd fl L =
     (case sys_setfl K fd fl (kern L) of (r, k) \<Rightarrow>
        let L = L\<lparr>kern := k\<rparr> in if r = - AS_EINTR then setfl_loop K fd fl L else Some (r, L))"

definition uv__nonblock_fcntl ::
  "('k, 'b) usyscalls_scheme \<Rightarrow> int \<Rightarrow> bool \<Rightarrow> ('k, 'a) uloop_scheme \<Rightarrow> (int \<times> ('k, 'a) uloop_scheme) option" where
  "uv__nonblock_fcntl K fd on L =
     do { (r, L) \<leftarrow> getfl_loop K fd L;
          (case r of
             Inl e \<Rightarrow> Some (- e, L)
           | Inr fl \<Rightarrow>
               if has_flag fl O_NONBLOCK = on then Some (0, L)
               else setfl_loop K fd (if on then add_flag fl O_NONBLOCK else clear_flag fl O_NONBLOCK) L) }"

section \<open>Operations\<close>

definition uv_poll_init ::
  "('k, 'b) usyscalls_scheme \<Rightarrow> addr \<Rightarrow> int \<Rightarrow> ('k, 'a) uloop_scheme \<Rightarrow> (int \<times> ('k, 'a) uloop_scheme) option" where
  "uv_poll_init K a fd L =
     do { (err, L) \<leftarrow> uv__io_check_fd K fd L;
          if err \<noteq> 0 then Some (err, L)
          else do {
            (err, L) \<leftarrow> uv__nonblock_ioctl K fd True L;
            (err, L) \<leftarrow> (if err = - PH_ENOTTY then uv__nonblock_fcntl K fd True L else Some (err, L));
            if err \<noteq> 0 then Some (err, L)
            else do {
              L \<leftarrow> uv__io_init a UV__POLL_IO fd (uv__handle_init a UV_POLL L);
              Some (0, L\<lparr>poll_cb := (poll_cb L)(a := None)\<rparr>) } } }"

definition uv_poll_init_socket ::
  "('k, 'b) usyscalls_scheme \<Rightarrow> addr \<Rightarrow> int \<Rightarrow> ('k, 'a) uloop_scheme \<Rightarrow> (int \<times> ('k, 'a) uloop_scheme) option" where
  "uv_poll_init_socket K a socket L = uv_poll_init K a socket L"

definition uv__poll_stop :: "addr \<Rightarrow> ('k, 'a) uloop_scheme \<Rightarrow> ('k, 'a) uloop_scheme option" where
  "uv__poll_stop a L = do { L \<leftarrow> uv__io_stop a poll_mask L; Some (uv__handle_stop a L) }"

definition uv_poll_stop :: "addr \<Rightarrow> ('k, 'a) uloop_scheme \<Rightarrow> (int \<times> ('k, 'a) uloop_scheme) option" where
  "uv_poll_stop a L =
     do { ASSERT (\<not> uv__is_closing L a); L \<leftarrow> uv__poll_stop a L; Some (0, L) }"

text \<open>The events a caller asks for as events of the kernel, and back.\<close>

definition poll_events :: "u32 \<Rightarrow> u32" where
  "poll_events pe =
     (let ev = 0;
          ev = (if pe AND UV_READABLE \<noteq> 0 then ev OR POLLIN else ev);
          ev = (if pe AND UV_WRITABLE \<noteq> 0 then ev OR POLLOUT else ev)
      in if pe AND UV_DISCONNECT \<noteq> 0 then ev OR UV__POLLRDHUP else ev)"

definition reported_events :: "u32 \<Rightarrow> u32" where
  "reported_events ev =
     (let pe = 0;
          pe = (if ev AND POLLIN \<noteq> 0 then pe OR UV_READABLE else pe);
          pe = (if ev AND POLLOUT \<noteq> 0 then pe OR UV_WRITABLE else pe)
      in if ev AND UV__POLLRDHUP \<noteq> 0 then pe OR UV_DISCONNECT else pe)"

definition uv_poll_start ::
  "(nat \<Rightarrow> bool) \<Rightarrow> addr \<Rightarrow> u32 \<Rightarrow> nat option \<Rightarrow> ('k, 'a) uloop_scheme \<Rightarrow> (int \<times> ('k, 'a) uloop_scheme) option" where
  "uv_poll_start realloc_ok a pe cb L =
     do { ASSERT (pe AND NOT (UV_READABLE OR UV_WRITABLE OR UV_DISCONNECT) = 0);
          ASSERT (\<not> uv__is_closing L a);
          L \<leftarrow> uv__poll_stop a L;
          if pe = 0 then Some (0, L)
          else do {
            L \<leftarrow> uv__io_start realloc_ok a (poll_events pe) L;
            let L = uv__handle_start a L;
            Some (0, L\<lparr>poll_cb := (poll_cb L)(a := cb)\<rparr>) } }"

definition uv__poll_close :: "addr \<Rightarrow> ('k, 'a) uloop_scheme \<Rightarrow> ('k, 'a) uloop_scheme option" where
  "uv__poll_close a L = uv__poll_stop a L"

text \<open>\<open>call cb a status events\<close> is what the callback \<open>cb\<close> of handle \<open>a\<close> does; a NULL callback is a fault.\<close>

definition uv__poll_io ::
  "(nat \<Rightarrow> addr \<Rightarrow> int \<Rightarrow> u32 \<Rightarrow> ('k, 'a) uloop_scheme \<Rightarrow> ('k, 'a) uloop_scheme option) \<Rightarrow>
   addr \<Rightarrow> u32 \<Rightarrow> ('k, 'a) uloop_scheme \<Rightarrow> ('k, 'a) uloop_scheme option" where
  "uv__poll_io call a events L =
     (if has_flag events POLLERR then
        do { L \<leftarrow> uv__io_stop a poll_mask L;
             let L = uv__handle_stop a L;
             cb \<leftarrow> poll_cb L a;
             call cb a (- PH_EBADF) 0 L }
      else do { cb \<leftarrow> poll_cb L a; call cb a 0 (reported_events events) L })"

section \<open>The frame of the operations\<close>

text \<open>Starting and stopping a handle touches its flags and the counter only.\<close>

lemma handle_start_shape: "\<exists>h n. uv__handle_start a L = L\<lparr>handles := h, active_handles := n\<rparr>"
proof -
  have "uv__handle_start a L = L\<lparr>handles := handles (uv__handle_start a L), active_handles := active_handles (uv__handle_start a L)\<rparr>"
    by (cases L) (simp add: handle_ops_defs set_flags_def)
  then show ?thesis by blast
qed

lemma handle_stop_shape: "\<exists>h n. uv__handle_stop a L = L\<lparr>handles := h, active_handles := n\<rparr>"
proof -
  have "uv__handle_stop a L = L\<lparr>handles := handles (uv__handle_stop a L), active_handles := active_handles (uv__handle_stop a L)\<rparr>"
    by (cases L) (simp add: handle_ops_defs set_flags_def)
  then show ?thesis by blast
qed

lemma io_parts_handles [simp]:
  "slot_at (L\<lparr>handles := h\<rparr>) i = slot_at L i" "slot_at (L\<lparr>active_handles := n\<rparr>) i = slot_at L i"
  "registered (L\<lparr>handles := h\<rparr>) w = registered L w" "registered (L\<lparr>active_handles := n\<rparr>) w = registered L w"
  "startable (L\<lparr>handles := h\<rparr>) w = startable L w" "startable (L\<lparr>active_handles := n\<rparr>) w = startable L w"
  by (simp_all add: slot_at_def registered_def startable_def)

lemma io_inv_handles [simp]:
  "io_inv (L\<lparr>handles := h\<rparr>) = io_inv L" "io_inv (L\<lparr>active_handles := n\<rparr>) = io_inv L"
  by (simp_all add: io_inv_def watched_fds_def)

lemma poll_inv_handles [simp]:
  "poll_inv interest (L\<lparr>handles := h\<rparr>) = poll_inv interest L"
  "poll_inv interest (L\<lparr>active_handles := n\<rparr>) = poll_inv interest L"
  by (simp_all add: poll_inv_def)

lemma poll_inv_handle_ops [simp]:
  "poll_inv interest (uv__handle_start a L) = poll_inv interest L"
  "poll_inv interest (uv__handle_stop a L) = poll_inv interest L"
  using handle_start_shape [of a L] handle_stop_shape [of a L] by auto

lemma io_handle_ops [simp]:
  "registered (uv__handle_start a L) w = registered L w" "registered (uv__handle_stop a L) w = registered L w"
  "ios (uv__handle_start a L) = ios L" "ios (uv__handle_stop a L) = ios L"
  "startable (uv__handle_start a L) w = startable L w" "startable (uv__handle_stop a L) w = startable L w"
  "poll_cb (uv__handle_start a L') = poll_cb L'" "poll_cb (uv__handle_stop a L') = poll_cb L'"
  using handle_start_shape [of a L] handle_stop_shape [of a L] handle_start_shape [of a L'] handle_stop_shape [of a L']
  by auto

text \<open>An operation on watchers leaves handles alone.\<close>

lemma io_frame_handles:
  assumes "io_frame w L L'"
  shows "handle_queue L' = handle_queue L" "active_handles L' = active_handles L" "handles L' = handles L"
  using assms by (simp_all add: io_frame_def) (cases L, cases L', simp add: tloop.defs)+

lemma same_handles:
  assumes "handle_queue L' = handle_queue L" "active_handles L' = active_handles L" "handles L' = handles L"
  shows "handle_inv L' = handle_inv L" "uv__is_active L' a = uv__is_active L a" "uv__is_closing L' a = uv__is_closing L a"
    "uv__has_ref L' a = uv__has_ref L a"
  using assms
  by (simp_all add: handle_inv_def live_handles_def uv__is_active_def uv__is_closing_def uv__has_ref_def hflags_def)

section \<open>The events asked for and those reported\<close>

lemma poll_flags_cases:
  assumes "(pe :: u32) AND NOT 7 = 0"
  shows "pe \<in> {0, 1, 2, 3, 4, 5, 6, 7}"
proof -
  have "pe = take_bit 3 pe"
  proof (rule bit_word_eqI)
    fix n assume n: "n < LENGTH(32)"
    have seven: "(7 :: u32) = mask 3" by (simp add: mask_numeral)
    have "\<not> bit (pe AND NOT 7) n" using assms by simp
    then show "bit pe n = bit (take_bit 3 pe) n" using n by (auto simp: seven bit_simps)
  qed
  then have "unat pe < 2 ^ 3" by (metis unsigned_take_bit_eq take_bit_nat_less_exp)
  then have "unat pe \<in> set [0 ..< 8]" by simp
  then have "unat pe \<in> {0, 1, 2, 3, 4, 5, 6, 7}" by (auto simp: upt_rec)
  then have "word_of_nat (unat pe) \<in> (word_of_nat ` {0, 1, 2, 3, 4, 5, 6, 7} :: u32 set)" by blast
  then show ?thesis by simp
qed

lemma reported_poll_events: "pe AND NOT 7 = 0 \<Longrightarrow> reported_events (poll_events pe) = pe"
  by (drule poll_flags_cases) (auto simp: poll_events_def reported_events_def)

lemma poll_events_ok: "pe AND NOT 7 = 0 \<Longrightarrow> pe \<noteq> 0 \<Longrightarrow> events_ok (poll_events pe)"
  by (drule poll_flags_cases) (auto simp: poll_events_def events_ok_def poll_mask_def)

lemma wanted_was_asked:
  assumes "wanted_events pev ev AND m \<noteq> 0" and "m AND (POLLERR OR POLLHUP) = 0"
  shows "pev AND m \<noteq> 0"
proof -
  obtain n where n: "bit (wanted_events pev ev) n" "bit m n"
    using assms(1) by (auto simp only: bit_eq_iff bit_and_iff bit_0_eq bot_apply bot_bool_def)
  have "\<not> bit (m AND (POLLERR OR POLLHUP)) n" using assms(2) by simp
  then have "\<not> bit (POLLERR OR POLLHUP :: u32) n" using n(2) by (simp only: bit_and_iff simp_thms)
  then have "bit pev n" using n(1)
    unfolding wanted_events_def Let_def by (simp only: bit_and_iff bit_or_iff split: if_splits) blast+
  then have "bit (pev AND m) n" using n(2) by (simp only: bit_and_iff)
  then show ?thesis by auto
qed

lemma poll_events_bits:
  assumes "pe AND NOT 7 = 0"
  shows "poll_events pe AND POLLIN \<noteq> 0 \<Longrightarrow> pe AND UV_READABLE \<noteq> 0"
    "poll_events pe AND POLLOUT \<noteq> 0 \<Longrightarrow> pe AND UV_WRITABLE \<noteq> 0"
    "poll_events pe AND UV__POLLRDHUP \<noteq> 0 \<Longrightarrow> pe AND UV_DISCONNECT \<noteq> 0"
  using poll_flags_cases [OF assms] by (auto simp: poll_events_def)

lemma reported_within:
  assumes "pe AND NOT 7 = 0" and "ev AND POLLIN \<noteq> 0 \<longrightarrow> pe AND UV_READABLE \<noteq> 0"
    and "ev AND POLLOUT \<noteq> 0 \<longrightarrow> pe AND UV_WRITABLE \<noteq> 0"
    and "ev AND UV__POLLRDHUP \<noteq> 0 \<longrightarrow> pe AND UV_DISCONNECT \<noteq> 0"
  shows "reported_events ev AND NOT pe = 0"
  using poll_flags_cases [OF assms(1)] assms(2-4) by (auto simp: reported_events_def)

lemma reported_wanted:
  assumes "pe AND NOT 7 = 0"
  shows "reported_events (wanted_events (poll_events pe) ev) AND NOT pe = 0"
  by (intro reported_within [OF assms] impI; rule poll_events_bits [OF assms], erule wanted_was_asked, simp)

lemma poll_cb_upd [simp]:
  "poll_inv interest (L\<lparr>poll_cb := f\<rparr>) = poll_inv interest L" "handle_inv (L\<lparr>poll_cb := f\<rparr>) = handle_inv L"
  "uv__is_active (L\<lparr>poll_cb := f\<rparr>) b = uv__is_active L b" "registered (L\<lparr>poll_cb := f\<rparr>) b = registered L b"
  by (simp_all add: poll_inv_def io_inv_def watched_fds_def registered_def slot_at_def handle_inv_def
      live_handles_def uv__is_active_def uv__has_ref_def hflags_def)

section \<open>Properties\<close>

lemma poll_stop_ok:
  assumes inv: "poll_inv interest L" and hi: "handle_inv L" and q: "a \<in> set (handle_queue L)"
    and pe: "pevents_ok L" and st: "stoppable L a"
  shows "\<exists>L'. uv__poll_stop a L = Some L' \<and> poll_inv interest L' \<and> handle_inv L' \<and> \<not> uv__is_active L' a \<and>
    pevents (ios L' a) = 0 \<and> \<not> registered L' a \<and> handle_queue L' = handle_queue L \<and>
    (\<forall>b. uv__is_closing L' b = uv__is_closing L b \<and> (b \<noteq> a \<longrightarrow> uv__is_active L' b = uv__is_active L b)) \<and>
    io_fd (ios L' a) = io_fd (ios L a) \<and> (0 \<le> io_fd (ios L a) \<longrightarrow> slot_at L' (nat (io_fd (ios L a))) = NoWatcher) \<and>
    (\<forall>v. v \<noteq> a \<longrightarrow> ios L' v = ios L v \<and> registered L' v = registered L v)"
proof -
  have io: "io_inv L" using inv by (simp add: poll_inv_def)
  have cl: "clear_flag (pevents (ios L a)) poll_mask = 0" using pe by (simp add: pevents_ok_def)
  obtain M where M: "uv__io_stop a poll_mask L = Some M" "io_inv M"
      "pevents (ios M a) = clear_flag (pevents (ios L a)) poll_mask"
      "registered M a \<longleftrightarrow> pevents (ios M a) \<noteq> 0" "io_frame a L M"
    using io_stop_ok [OF io st, of poll_mask] by auto
  note fh = io_frame_handles [OF M(5)]
  note sh = same_handles [OF fh]
  have fr: "\<And>v. v \<noteq> a \<Longrightarrow> ios M v = ios L v \<and> registered M v = registered L v" "io_fd (ios M a) = io_fd (ios L a)"
    using M(5) by (simp_all add: io_frame_def)
  have pM: "poll_inv interest M" using poll_inv_io_stop [OF inv st, of poll_mask] M(1) by simp
  have nr: "\<not> registered M a" "pevents (ios M a) = 0" using M(3,4) cl by simp_all
  have sl: "slot_at M (nat (io_fd (ios L a))) = NoWatcher" if fd: "0 \<le> io_fd (ios L a)"
  proof (rule ccontr)
    assume "slot_at M (nat (io_fd (ios L a))) \<noteq> NoWatcher"
    then obtain v where v: "slot_at M (nat (io_fd (ios L a))) = Watcher v" using slot_cases [OF M(2)] by blast
    have "io_fd (ios M v) = io_fd (ios L a)" using io_inv_slot [OF M(2) v] fd by simp
    moreover have rv: "registered M v" using calculation v fd by (simp add: registered_def)
    moreover have "v \<noteq> a" using rv nr by blast
    ultimately have "slot_at L (nat (io_fd (ios L a))) = Watcher v" "v \<noteq> a" using fr(1) [of v] by (auto simp: registered_def)
    then show False using st fd by (simp add: stoppable_def)
  qed
  have hs: "handle_inv (uv__handle_stop a M)" using hi q by (intro handle_stop_inv) (simp_all add: sh fh)
  have sl': "slot_at (uv__handle_stop a M) i = slot_at M i" for i using handle_stop_shape [of a M] by auto
  have "uv__poll_stop a L = Some (uv__handle_stop a M)" by (simp add: uv__poll_stop_def M(1))
  then show ?thesis using pM hs nr fr sl by (intro exI [of _ "uv__handle_stop a M"]) (simp add: sh fh sl')
qed

text \<open>\<open>uv_poll_start\<close> on an open handle forgets what the handle asked for before: afterwards its
  watcher asks the kernel for exactly the events given, it is active exactly when there are any,
  the loop's table, queues and counters stay consistent, and no other handle or watcher is touched.\<close>

theorem poll_start_replaces:
  assumes inv: "poll_inv interest L" and hi: "handle_inv L" and q: "a \<in> set (handle_queue L)"
    and op: "\<not> uv__is_closing L a" and pok: "pevents_ok L" and st: "startable L a"
    and pe: "pe AND NOT 7 = 0" and alloc: "\<forall>n. realloc_ok n"
  shows "\<exists>L'. uv_poll_start realloc_ok a pe cb L = Some (0, L') \<and> poll_inv interest L' \<and> handle_inv L' \<and>
    pevents (ios L' a) = poll_events pe \<and> reported_events (pevents (ios L' a)) = pe \<and>
    (uv__is_active L' a \<longleftrightarrow> pe \<noteq> 0) \<and> (registered L' a \<longleftrightarrow> pe \<noteq> 0) \<and> (pe \<noteq> 0 \<longrightarrow> poll_cb L' a = cb) \<and>
    (\<forall>b. b \<noteq> a \<longrightarrow> uv__is_active L' b = uv__is_active L b \<and> ios L' b = ios L b \<and> registered L' b = registered L b)"
proof -
  have fd: "0 \<le> io_fd (ios L a)" "io_fd (ios L a) \<le> 2 ^ 31 - 3" using st by (simp_all add: startable_def)
  have sp: "stoppable L a" using st by (auto simp: startable_def stoppable_def)
  have u7: "UV_READABLE OR UV_WRITABLE OR UV_DISCONNECT = 7" by simp
  obtain M where M: "uv__poll_stop a L = Some M" "poll_inv interest M" "handle_inv M" "\<not> uv__is_active M a"
      "pevents (ios M a) = 0" "\<not> registered M a" "handle_queue M = handle_queue L"
      "\<forall>b. uv__is_closing M b = uv__is_closing L b \<and> (b \<noteq> a \<longrightarrow> uv__is_active M b = uv__is_active L b)"
      "io_fd (ios M a) = io_fd (ios L a)" "0 \<le> io_fd (ios L a) \<longrightarrow> slot_at M (nat (io_fd (ios L a))) = NoWatcher"
      "\<forall>v. v \<noteq> a \<longrightarrow> ios M v = ios L v \<and> registered M v = registered L v"
    using poll_stop_ok [OF inv hi q pok sp] by (elim exE conjE) (rule that, assumption+)
  show ?thesis
  proof (cases "pe = 0")
    case True
    then show ?thesis using M op by (intro exI [of _ M]) (simp add: uv_poll_start_def poll_events_def reported_events_def)
  next
    case False
    have stM: "startable M a" using fd M(9,10) by (simp add: startable_def)
    have io: "io_inv M" using M(2) by (simp add: poll_inv_def)
    note ev = poll_events_ok [OF pe False]
    obtain N where N: "uv__io_start realloc_ok a (poll_events pe) M = Some N" "io_inv N" "registered N a"
        "pevents (ios N a) = add_flag (pevents (ios M a)) (poll_events pe)" "io_frame a M N"
      using io_start_ok [OF io stM ev alloc] by blast
    have pN: "poll_inv interest N" using poll_inv_io_start [OF M(2) stM ev alloc] N(1) by simp
    note fh = io_frame_handles [OF N(5)]
    note sh = same_handles [OF fh]
    have fr: "\<And>v. v \<noteq> a \<Longrightarrow> ios N v = ios M v \<and> registered N v = registered M v"
      using N(5) by (simp add: io_frame_def)
    let ?H = "uv__handle_start a N"
    let ?L' = "?H\<lparr>poll_cb := (poll_cb ?H)(a := cb)\<rparr>"
    have run: "uv_poll_start realloc_ok a pe cb L = Some (0, ?L')"
      using pe op False by (simp add: uv_poll_start_def M(1) N(1))
    have hH: "handle_inv ?H" using M(3,7) q by (intro handle_start_inv) (simp_all add: sh fh)
    have pH: "poll_inv interest ?H" using pN by simp
    have "pevents (ios N a) = poll_events pe" using N(4) M(5) by (simp add: add_flag_def)
    then show ?thesis using run hH pH False N(3) fr M(8,11) reported_poll_events [OF pe]
      by (intro exI [of _ ?L']) (simp add: sh)
  qed
qed

text \<open>C33: the callback of a poll handle never hears of an event it did not ask for: whatever the kernel
  reports, unless an error is among it the callback gets status 0 and a part of the events asked for;
  with an error the handle is stopped first, its descriptor forgotten, and the status is \<open>-EBADF\<close>.\<close>

theorem poll_reports_asked:
  assumes inv: "poll_inv interest L" and hi: "handle_inv L" and q: "a \<in> set (handle_queue L)"
    and pok: "pevents_ok L" and st: "stoppable L a"
    and pe: "pe AND NOT 7 = 0" and asked: "pevents (ios L a) = poll_events pe" and cb: "poll_cb L a = Some cb"
  shows "let ev = wanted_events (pevents (ios L a)) k in
    if has_flag ev POLLERR then
      \<exists>L'. uv__poll_io call a ev L = call cb a (- PH_EBADF) 0 L' \<and> poll_inv interest L' \<and> handle_inv L' \<and>
        \<not> uv__is_active L' a \<and> \<not> registered L' a
    else \<exists>r. r AND NOT pe = 0 \<and> uv__poll_io call a ev L = call cb a 0 r L"
proof -
  let ?ev = "wanted_events (pevents (ios L a)) k"
  have io: "io_inv L" using inv by (simp add: poll_inv_def)
  have cl: "clear_flag (pevents (ios L a)) poll_mask = 0" using pok by (simp add: pevents_ok_def)
  obtain M where M: "uv__io_stop a poll_mask L = Some M" "io_inv M"
      "pevents (ios M a) = clear_flag (pevents (ios L a)) poll_mask"
      "registered M a \<longleftrightarrow> pevents (ios M a) \<noteq> 0" "io_frame a L M"
    using io_stop_ok [OF io st, of poll_mask] by auto
  note fh = io_frame_handles [OF M(5)]
  note sh = same_handles [OF fh]
  have pM: "poll_inv interest M" using poll_inv_io_stop [OF inv st, of poll_mask] M(1) by simp
  have hs: "handle_inv (uv__handle_stop a M)" using hi q by (intro handle_stop_inv) (simp_all add: sh fh)
  have "iloop.more M = iloop.more L" using M(5) by (simp add: io_frame_def)
  then have "poll_cb M a = Some cb" using cb by (cases L; cases M; simp)
  then have err: "uv__poll_io call a ?ev L = call cb a (- PH_EBADF) 0 (uv__handle_stop a M)" if "has_flag ?ev POLLERR"
    using that M(1) by (simp add: uv__poll_io_def)
  have ok: "uv__poll_io call a ?ev L = call cb a 0 (reported_events ?ev) L" if "\<not> has_flag ?ev POLLERR"
    using that cb by (simp add: uv__poll_io_def)
  show ?thesis unfolding Let_def
  proof (split if_split, intro conjI impI)
    assume "has_flag ?ev POLLERR"
    then show "\<exists>L'. uv__poll_io call a ?ev L = call cb a (- PH_EBADF) 0 L' \<and> poll_inv interest L' \<and> handle_inv L' \<and>
        \<not> uv__is_active L' a \<and> \<not> registered L' a"
      using err pM hs M(3,4) cl by (intro exI [of _ "uv__handle_stop a M"]) simp
  next
    assume "\<not> has_flag ?ev POLLERR"
    then show "\<exists>r. r AND NOT pe = 0 \<and> uv__poll_io call a ?ev L = call cb a 0 r L"
      using ok reported_wanted [OF pe, of k] asked by (intro exI [of _ "reported_events ?ev"]) simp
  qed
qed

text \<open>Handle 7 polls descriptor 1 for reading.\<close>

definition sample_uloop :: "skernel uloop" where
  "sample_uloop = aloop.extend (sample_aloop\<lparr>handle_queue := [7]\<rparr>) (uloop.fields (\<lambda>_. Some 4))"

lemmas sample_poll_defs = sample_uloop_def sample_async_defs uloop.defs

lemma sample_uloop_slots:
  "slot_at sample_uloop i = (if i = 0 then Watcher 8 else if i = 1 then Watcher 7 else NoWatcher)"
  by (auto simp: slot_at_def sample_poll_defs less_2_cases_iff)

lemma sample_uloop_registered: "registered sample_uloop w \<longleftrightarrow> w = 7 \<or> w = 8"
  by (auto simp: registered_def sample_uloop_slots) (auto simp: sample_poll_defs split: if_splits)

lemma sample_uloop_inv:
  "poll_inv sk_interest sample_uloop" "pevents_ok sample_uloop" "handle_inv sample_uloop" "startable sample_uloop 7"
  "stoppable sample_uloop 7"
proof -
  have wf: "watched_fds sample_uloop = {0, 1}" by (auto simp: watched_fds_def sample_uloop_slots)
  have "io_inv sample_uloop"
    unfolding io_inv_def wf sample_uloop_registered sample_uloop_slots
    by (auto simp: sample_poll_defs split: if_splits)
  then show "poll_inv sk_interest sample_uloop"
    unfolding poll_inv_def sample_uloop_registered by (auto simp: sample_poll_defs)
  show "pevents_ok sample_uloop"
    by (auto simp: pevents_ok_def sample_poll_defs clear_flag_def poll_mask_def)
  show "handle_inv sample_uloop"
    by (simp add: handle_inv_def live_handles_def uv__is_active_def hflags_def sample_poll_defs)
  have "io_fd (ios sample_uloop 7) = 1" by (simp add: sample_poll_defs)
  then show "startable sample_uloop 7" "stoppable sample_uloop 7"
    by (simp_all add: startable_def stoppable_def sample_uloop_slots)
qed

lemma sample_uloop_sel:
  "handle_queue sample_uloop = [7]" "\<not> uv__is_closing sample_uloop 7" "pevents (ios sample_uloop 7) = POLLIN"
  "poll_cb sample_uloop 7 = Some 4"
  by (simp_all add: sample_poll_defs uv__is_closing_def hflags_def)

theorem poll_start_replaces_witness:
  "\<exists>L'. uv_poll_start (\<lambda>_. True) 7 6 (Some 9) sample_uloop = Some (0, L') \<and> pevents (ios L' 7) = 0x2004 \<and>
     uv__is_active L' 7 \<and> poll_cb L' 7 = Some 9 \<and> registered L' 8"
proof -
  have "\<exists>L'. uv_poll_start (\<lambda>_. True) 7 6 (Some 9) sample_uloop = Some (0, L') \<and> poll_inv sk_interest L' \<and> handle_inv L' \<and>
    pevents (ios L' 7) = poll_events 6 \<and> reported_events (pevents (ios L' 7)) = 6 \<and>
    (uv__is_active L' 7 \<longleftrightarrow> (6 :: u32) \<noteq> 0) \<and> (registered L' 7 \<longleftrightarrow> (6 :: u32) \<noteq> 0) \<and>
    ((6 :: u32) \<noteq> 0 \<longrightarrow> poll_cb L' 7 = Some 9) \<and>
    (\<forall>b. b \<noteq> 7 \<longrightarrow> uv__is_active L' b = uv__is_active sample_uloop b \<and> ios L' b = ios sample_uloop b \<and>
       registered L' b = registered sample_uloop b)"
    by (rule poll_start_replaces [OF sample_uloop_inv(1,3) _ _ sample_uloop_inv(2,4)]) (simp_all add: sample_uloop_sel)
  moreover have "poll_events 6 = 0x2004" by (simp add: poll_events_def)
  ultimately show ?thesis by (auto simp: sample_uloop_registered)
qed

theorem poll_reports_asked_witness:
  "\<exists>r :: u32. r AND NOT 1 = 0 \<and>
     uv__poll_io (\<lambda>cb a status e L. if status = 0 then Some L else None) 7 (wanted_events 1 5) sample_uloop = Some sample_uloop"
proof -
  have e: "poll_events 1 = 1" by (simp add: poll_events_def)
  have w: "\<not> has_flag (wanted_events 1 5) POLLERR" by (simp add: wanted_events_def)
  have p: "pevents (ios sample_uloop 7) = 1" by (simp add: sample_uloop_sel)
  show ?thesis
    using poll_reports_asked [OF sample_uloop_inv(1,3) _ sample_uloop_inv(2,5), of 1 4 5
        "\<lambda>cb a status e L. if status = 0 then Some L else None"]
    unfolding Let_def p e if_not_P [OF w] by (simp add: sample_uloop_sel)
qed

end
