(* ===== verification/Closing.thy ===== *)
theory Closing
  imports PollHandle
begin

text \<open>
  The end of a handle: \<open>uv__make_close_pending\<close>, \<open>uv__finish_close\<close> and
  \<open>uv__run_closing_handles\<close> of \<open>src/src/libuv/src/unix/core.c\<close>.  Handles that are being closed form
  a chain from \<open>closing_handles\<close> through their \<open>next_closing\<close>.
\<close>

section \<open>Data\<close>

record 'k cloop = "'k uloop" +
  close_cb :: "addr \<Rightarrow> nat option"

text \<open>\<open>destroy ty a\<close> is what finishing the types with a socket takes: \<open>uv__stream_destroy\<close> for pipes,
  TCP and TTY handles (the theory \<open>Stream\<close>), \<open>uv__udp_finish_close\<close> for UDP.\<close>

type_synonym 'l destroyer = "handle_type \<Rightarrow> addr \<Rightarrow> 'l \<Rightarrow> 'l option"

section \<open>Operations\<close>

definition uv__make_close_pending :: "addr \<Rightarrow> 'a hloop_scheme \<Rightarrow> 'a hloop_scheme option" where
  "uv__make_close_pending a L =
     do { ASSERT (has_flag (hflags L a) UV_CLOSING);
          ASSERT (\<not> has_flag (hflags L a) UV_CLOSED);
          Some (L\<lparr>handles := (handles L)(a := (handles L a)\<lparr>next_closing := closing_handles L\<rparr>),
                  closing_handles := Some a\<rparr>) }"

definition finish_type ::
  "('k, 'a) cloop_scheme destroyer \<Rightarrow> addr \<Rightarrow> ('k, 'a) cloop_scheme \<Rightarrow> ('k, 'a) cloop_scheme option" where
  "finish_type destroy a L =
     (let ty = htype (handles L a) in
      if ty \<in> {UV_PREPARE, UV_CHECK, UV_IDLE, UV_ASYNC, UV_TIMER, UV_PROCESS, UV_FS_EVENT, UV_FS_POLL, UV_POLL, UV_SIGNAL}
      then Some L
      else if ty \<in> {UV_NAMED_PIPE, UV_TCP, UV_TTY, UV_UDP} then destroy ty a L
      else None)"

definition uv__finish_close ::
  "('k, 'a) cloop_scheme destroyer \<Rightarrow> (nat \<Rightarrow> addr \<Rightarrow> ('k, 'a) cloop_scheme \<Rightarrow> ('k, 'a) cloop_scheme option) \<Rightarrow>
   addr \<Rightarrow> ('k, 'a) cloop_scheme \<Rightarrow> ('k, 'a) cloop_scheme option" where
  "uv__finish_close destroy call a L =
     do { ASSERT (has_flag (hflags L a) UV_CLOSING);
          ASSERT (\<not> has_flag (hflags L a) UV_CLOSED);
          L \<leftarrow> finish_type destroy a (set_flags a (add_flag (hflags L a) UV_CLOSED) L);
          let L = uv__handle_unref a L;
          let L = L\<lparr>handle_queue := removeAll a (handle_queue L)\<rparr>;
          (case close_cb L a of None \<Rightarrow> Some L | Some cb \<Rightarrow> call cb a L) }"

text \<open>The next handle is read before the current one is finished, since its callback may free it.\<close>

partial_function (option) run_closing_loop ::
  "('k, 'a) cloop_scheme destroyer \<Rightarrow> (nat \<Rightarrow> addr \<Rightarrow> ('k, 'a) cloop_scheme \<Rightarrow> ('k, 'a) cloop_scheme option) \<Rightarrow>
   ptr \<Rightarrow> ('k, 'a) cloop_scheme \<Rightarrow> ('k, 'a) cloop_scheme option" where
  [code]: "run_closing_loop destroy call p L =
     (case p of
        None \<Rightarrow> Some L
      | Some a \<Rightarrow>
          let q = next_closing (handles L a)
          in Option.bind (uv__finish_close destroy call a L) (run_closing_loop destroy call q))"

definition uv__run_closing_handles ::
  "('k, 'a) cloop_scheme destroyer \<Rightarrow> (nat \<Rightarrow> addr \<Rightarrow> ('k, 'a) cloop_scheme \<Rightarrow> ('k, 'a) cloop_scheme option) \<Rightarrow>
   ('k, 'a) cloop_scheme \<Rightarrow> ('k, 'a) cloop_scheme option" where
  "uv__run_closing_handles destroy call L =
     run_closing_loop destroy call (closing_handles L) (L\<lparr>closing_handles := None\<rparr>)"

section \<open>The chain\<close>

fun closing_chain :: "(addr \<Rightarrow> uv_handle) \<Rightarrow> ptr \<Rightarrow> addr list \<Rightarrow> bool" where
  "closing_chain h p [] \<longleftrightarrow> p = None"
| "closing_chain h p (a # as) \<longleftrightarrow> p = Some a \<and> closing_chain h (next_closing (h a)) as"

text \<open>A handle that is being closed and not yet finished.\<close>

definition being_closed :: "'a hloop_scheme \<Rightarrow> addr \<Rightarrow> bool" where
  "being_closed L a \<longleftrightarrow> has_flag (hflags L a) UV_CLOSING \<and> \<not> has_flag (hflags L a) UV_CLOSED"

definition closing_inv :: "'a hloop_scheme \<Rightarrow> addr list \<Rightarrow> bool" where
  "closing_inv L as \<longleftrightarrow> closing_chain (handles L) (closing_handles L) as \<and> distinct as \<and>
     (\<forall>a \<in> set as. being_closed L a \<and> a \<in> set (handle_queue L))"

lemma closing_chain_cong:
  "(\<And>a. a \<in> set as \<Longrightarrow> next_closing (h' a) = next_closing (h a)) \<Longrightarrow> closing_chain h' p as = closing_chain h p as"
  by (induction as arbitrary: p) auto

lemma closing_chain_det: "closing_chain h p as \<Longrightarrow> closing_chain h p bs \<Longrightarrow> as = bs"
  by (induction as arbitrary: p bs) (case_tac bs; auto)+

lemma make_close_pending_ok:
  assumes inv: "closing_inv L as" and a: "being_closed L a" "a \<in> set (handle_queue L)" and new: "a \<notin> set as"
  shows "\<exists>L'. uv__make_close_pending a L = Some L' \<and> closing_inv L' (a # as) \<and>
    L' = L\<lparr>handles := (handles L)(a := (handles L a)\<lparr>next_closing := closing_handles L\<rparr>), closing_handles := Some a\<rparr>"
proof -
  let ?L' = "L\<lparr>handles := (handles L)(a := (handles L a)\<lparr>next_closing := closing_handles L\<rparr>), closing_handles := Some a\<rparr>"
  have f: "hflags ?L' b = hflags L b" for b by (simp add: hflags_def)
  have "closing_chain (handles ?L') (closing_handles L) as = closing_chain (handles L) (closing_handles L) as"
    by (rule closing_chain_cong) (use new in auto)
  then have "closing_inv ?L' (a # as)"
    using inv a new unfolding closing_inv_def being_closed_def f by simp
  then show ?thesis using a(1) by (simp add: uv__make_close_pending_def being_closed_def)
qed

section \<open>What the callbacks may do\<close>

text \<open>A callback may do anything but interfere with a handle that is being closed, which the user has
  given back to the loop.\<close>

definition spares :: "('k, 'a) cloop_scheme \<Rightarrow> ('k, 'a) cloop_scheme \<Rightarrow> bool" where
  "spares L L' \<longleftrightarrow> (\<forall>b. being_closed L b \<longrightarrow> being_closed L' b \<and>
     htype (handles L' b) = htype (handles L b) \<and> next_closing (handles L' b) = next_closing (handles L b) \<and>
     close_cb L' b = close_cb L b \<and> (b \<in> set (handle_queue L) \<longrightarrow> b \<in> set (handle_queue L')))"

text \<open>\<open>g\<close> reads a log out of the user's part of the loop; an entry may note the callback, the handle, and
  whether the handle was still a handle of the loop and kept it alive.\<close>

definition close_calls_ok ::
  "('a \<Rightarrow> 'e list) \<Rightarrow> (nat \<Rightarrow> addr \<Rightarrow> bool \<Rightarrow> bool \<Rightarrow> 'e) \<Rightarrow>
   (nat \<Rightarrow> addr \<Rightarrow> ('k, 'a) cloop_scheme \<Rightarrow> ('k, 'a) cloop_scheme option) \<Rightarrow> bool" where
  "close_calls_ok g ent call \<longleftrightarrow>
     (\<forall>cb a L. handle_inv L \<longrightarrow> (\<exists>L'. call cb a L = Some L' \<and> handle_inv L' \<and> spares L L' \<and>
        g (cloop.more L') = g (cloop.more L) @ [ent cb a (a \<in> set (handle_queue L)) (uv__has_ref L a)]))"

definition destroy_ok ::
  "('a \<Rightarrow> 'e list) \<Rightarrow> ('k, 'a) cloop_scheme destroyer \<Rightarrow> bool" where
  "destroy_ok g destroy \<longleftrightarrow>
     (\<forall>ty a L. handle_inv L \<longrightarrow> a \<in> set (handle_queue L) \<longrightarrow> (\<exists>L'. destroy ty a L = Some L' \<and> handle_inv L' \<and> spares L L' \<and>
        a \<in> set (handle_queue L') \<and> close_cb L' a = close_cb L a \<and> g (cloop.more L') = g (cloop.more L)))"

definition closable :: "handle_type \<Rightarrow> bool" where
  "closable ty \<longleftrightarrow> ty \<notin> {UV_UNKNOWN_HANDLE, UV_HANDLE, UV_STREAM, UV_FILE}"

lemma spares_trans: "spares L M \<Longrightarrow> spares M N \<Longrightarrow> spares L N"
  by (simp add: spares_def)

lemma being_closed_upd [simp]:
  "being_closed (L\<lparr>handle_queue := q\<rparr>) b = being_closed L b"
  "being_closed (L\<lparr>closing_handles := p\<rparr>) b = being_closed L b"
  by (simp_all add: being_closed_def)

lemma being_closed_unref [simp]: "being_closed (uv__handle_unref a L) b = being_closed L b"
  by (auto simp: being_closed_def handle_ops_defs)

lemma cloop_handle_unref [simp]:
  "cloop.more (uv__handle_unref a L) = cloop.more L" "close_cb (uv__handle_unref a L) = close_cb L"
  by (simp_all add: handle_ops_defs set_flags_def)

lemma closed_flags:
  "being_closed (set_flags a (add_flag (hflags L a) UV_CLOSED) L) b \<longleftrightarrow> b \<noteq> a \<and> being_closed L b"
  "uv__is_active (set_flags a (add_flag (hflags L a) UV_CLOSED) L) b \<longleftrightarrow> uv__is_active L b"
  "uv__has_ref (set_flags a (add_flag (hflags L a) UV_CLOSED) L) b \<longleftrightarrow> uv__has_ref L b"
  by (auto simp: being_closed_def uv__is_active_def uv__has_ref_def)

lemma handle_inv_unref_remove:
  assumes "handle_inv L" and "a \<in> set (handle_queue L)"
  shows "handle_inv ((uv__handle_unref a L)\<lparr>handle_queue := removeAll a (handle_queue L)\<rparr>)"
proof -
  have i: "handle_inv (uv__handle_unref a L)" by (rule handle_unref_inv [OF assms])
  let ?U = "uv__handle_unref a L"
  have "live_handles (?U\<lparr>handle_queue := removeAll a (handle_queue L)\<rparr>) = live_handles ?U"
    by (auto simp: live_handles_def uv__is_active_def uv__has_ref_def [of "_\<lparr>handle_queue := _\<rparr>"])
       (simp_all flip: uv__has_ref_def uv__is_active_def)
  moreover have "length (removeAll a (handle_queue L)) < 2 ^ 32"
    using i le_less_trans [OF length_removeAll_less_eq [of a "handle_queue L"]] by (simp add: handle_inv_def)
  ultimately show ?thesis using i by (simp add: handle_inv_def distinct_removeAll)
qed

lemma finish_close_ok:
  assumes call: "close_calls_ok g ent call" and des: "destroy_ok g destroy"
    and inv: "handle_inv L" and a: "being_closed L a" "a \<in> set (handle_queue L)" "closable (htype (handles L a))"
  shows "\<exists>L'. uv__finish_close destroy call a L = Some L' \<and> handle_inv L' \<and>
    g (cloop.more L') = g (cloop.more L) @ (case close_cb L a of None \<Rightarrow> [] | Some cb \<Rightarrow> [ent cb a False False]) \<and>
    (\<forall>b. b \<noteq> a \<longrightarrow> being_closed L b \<longrightarrow> being_closed L' b \<and>
     htype (handles L' b) = htype (handles L b) \<and> next_closing (handles L' b) = next_closing (handles L b) \<and>
     close_cb L' b = close_cb L b \<and> (b \<in> set (handle_queue L) \<longrightarrow> b \<in> set (handle_queue L')))"
proof -
  let ?C = "set_flags a (add_flag (hflags L a) UV_CLOSED) L"
  have as: "has_flag (hflags L a) UV_CLOSING" "\<not> has_flag (hflags L a) UV_CLOSED" using a(1) by (simp_all add: being_closed_def)
  have hC: "handle_inv ?C"
    using inv by (simp add: handle_inv_def live_handles_def closed_flags)
  have cC: "cloop.more ?C = cloop.more L" "close_cb ?C = close_cb L" by (simp_all add: set_flags_def)
  have sC: "b \<noteq> a \<Longrightarrow> being_closed L b \<Longrightarrow> being_closed ?C b" for b by (simp add: closed_flags)
  obtain M where M: "finish_type destroy a ?C = Some M" "handle_inv M" "spares ?C M" "a \<in> set (handle_queue M)"
      "close_cb M a = close_cb L a" "g (cloop.more M) = g (cloop.more L)"
  proof -
    have "\<exists>M. finish_type destroy a ?C = Some M \<and> handle_inv M \<and> spares ?C M \<and> a \<in> set (handle_queue M) \<and>
        close_cb M a = close_cb L a \<and> g (cloop.more M) = g (cloop.more L)"
    proof (cases "htype (handles L a) \<in> {UV_NAMED_PIPE, UV_TCP, UV_TTY, UV_UDP}")
      case True
      obtain M where "destroy (htype (handles L a)) a ?C = Some M" "handle_inv M" "spares ?C M" "a \<in> set (handle_queue M)"
          "close_cb M a = close_cb ?C a" "g (cloop.more M) = g (cloop.more ?C)"
        using des hC a(2) unfolding destroy_ok_def by (metis set_flags_sel(3))
      then show ?thesis using True by (intro exI [of _ M]) (auto simp: finish_type_def cC)
    next
      case False
      then have "finish_type destroy a ?C = Some ?C"
        using a(3) by (cases "htype (handles L a)") (auto simp: finish_type_def closable_def)
      then show ?thesis using hC a(2) by (intro exI [of _ ?C]) (simp add: spares_def cC)
    qed
    then show ?thesis using that by blast
  qed
  let ?U = "(uv__handle_unref a M)\<lparr>handle_queue := removeAll a (handle_queue M)\<rparr>"
  have hU: "handle_inv ?U" by (rule handle_inv_unref_remove [OF M(2,4)])
  have rU: "\<not> uv__has_ref ?U a"
    using handle_unref_sel(2) [of a M a] by (simp add: uv__has_ref_def)
  have qU: "a \<notin> set (handle_queue ?U)" by simp
  have frU: "b \<noteq> a \<Longrightarrow> being_closed L b \<Longrightarrow> being_closed ?U b \<and>
     htype (handles ?U b) = htype (handles L b) \<and> next_closing (handles ?U b) = next_closing (handles L b) \<and>
     close_cb ?U b = close_cb L b \<and> (b \<in> set (handle_queue L) \<longrightarrow> b \<in> set (handle_queue ?U))" for b
    using M(3) sC [of b] by (simp add: spares_def cC)
  have run: "uv__finish_close destroy call a L = (case close_cb L a of None \<Rightarrow> Some ?U | Some cb \<Rightarrow> call cb a ?U)"
    using as M(1,5) by (simp add: uv__finish_close_def Let_def split: option.split)
  show ?thesis
  proof (cases "close_cb L a")
    case None
    then show ?thesis using run hU frU M(6) by (intro exI [of _ ?U]) simp
  next
    case (Some cb)
    obtain N where N: "call cb a ?U = Some N" "handle_inv N" "spares ?U N"
        "g (cloop.more N) = g (cloop.more ?U) @ [ent cb a (a \<in> set (handle_queue ?U)) (uv__has_ref ?U a)]"
      using call hU unfolding close_calls_ok_def by blast
    have "g (cloop.more N) = g (cloop.more L) @ [ent cb a False False]" using N(4) rU qU M(6) by simp
    then show ?thesis using run Some N(1,2,3) frU
      by (intro exI [of _ N]) (simp add: spares_def)
  qed
qed

definition close_log ::
  "(nat \<Rightarrow> addr \<Rightarrow> bool \<Rightarrow> bool \<Rightarrow> 'e) \<Rightarrow> (addr \<Rightarrow> nat option) \<Rightarrow> addr list \<Rightarrow> 'e list" where
  "close_log ent cbs as = map (\<lambda>a. ent (the (cbs a)) a False False) (filter (\<lambda>a. cbs a \<noteq> None) as)"

lemma run_closing_loop_ok:
  assumes call: "close_calls_ok g ent call" and des: "destroy_ok g destroy"
    and "handle_inv L" and "closing_chain (handles L) p as" and "distinct as"
    and "\<forall>a \<in> set as. being_closed L a \<and> a \<in> set (handle_queue L) \<and> closable (htype (handles L a))"
  shows "\<exists>L'. run_closing_loop destroy call p L = Some L' \<and> handle_inv L' \<and>
    g (cloop.more L') = g (cloop.more L) @ close_log ent (close_cb L) as"
  using assms(3-6)
proof (induction as arbitrary: p L)
  case Nil
  then show ?case by (simp add: run_closing_loop.simps close_log_def)
next
  case (Cons a as)
  have p: "p = Some a" "closing_chain (handles L) (next_closing (handles L a)) as" using Cons.prems(2) by simp_all
  have a: "being_closed L a" "a \<in> set (handle_queue L)" "closable (htype (handles L a))" using Cons.prems(4) by simp_all
  obtain M where M: "uv__finish_close destroy call a L = Some M" "handle_inv M"
      "g (cloop.more M) = g (cloop.more L) @ (case close_cb L a of None \<Rightarrow> [] | Some cb \<Rightarrow> [ent cb a False False])"
      and fr: "\<forall>b. b \<noteq> a \<longrightarrow> being_closed L b \<longrightarrow> being_closed M b \<and>
        htype (handles M b) = htype (handles L b) \<and> next_closing (handles M b) = next_closing (handles L b) \<and>
        close_cb M b = close_cb L b \<and> (b \<in> set (handle_queue L) \<longrightarrow> b \<in> set (handle_queue M))"
    using finish_close_ok [OF call des Cons.prems(1) a] by blast
  have ne: "b \<in> set as \<Longrightarrow> b \<noteq> a \<and> being_closed L b \<and> b \<in> set (handle_queue L) \<and> closable (htype (handles L b))" for b
    using Cons.prems(3,4) by auto
  have "closing_chain (handles M) (next_closing (handles L a)) as"
    using p(2) closing_chain_cong [of as "handles M" "handles L"] fr ne by blast
  moreover have "\<forall>b \<in> set as. being_closed M b \<and> b \<in> set (handle_queue M) \<and> closable (htype (handles M b))"
    using fr ne by (metis (full_types))
  moreover have "distinct as" using Cons.prems(3) by simp
  ultimately obtain N where N: "run_closing_loop destroy call (next_closing (handles L a)) M = Some N" "handle_inv N"
      "g (cloop.more N) = g (cloop.more M) @ close_log ent (close_cb M) as"
    using Cons.IH [OF M(2)] by blast
  have "close_log ent (close_cb M) as = close_log ent (close_cb L) as"
    using fr ne unfolding close_log_def by (intro arg_cong2 [of _ _ _ _ map] map_cong filter_cong) auto
  then show ?case using N M p(1)
    by (intro exI [of _ N] conjI) (subst run_closing_loop.simps, auto simp: close_log_def split: option.splits)
qed

section \<open>Properties\<close>

text \<open>C19: \<open>uv__run_closing_handles\<close> returns and has finished every handle of the chain exactly once, the
  one closed last first; when the callback of a handle runs, the handle has already left the loop's
  queue and no longer keeps the loop alive.  Whatever the callbacks do - close other handles, free
  or reuse the memory of the finished one - as long as they spare the handles still being closed;
  handles they close are left for the next round.\<close>

theorem closing_handles_finished_once:
  assumes "close_calls_ok g ent call" and "destroy_ok g destroy" and "handle_inv L" and "closing_inv L as"
    and "\<forall>a \<in> set as. closable (htype (handles L a))"
  shows "\<exists>L'. uv__run_closing_handles destroy call L = Some L' \<and> handle_inv L' \<and>
    g (cloop.more L') = g (cloop.more L) @ map (\<lambda>a. ent (the (close_cb L a)) a False False) (filter (\<lambda>a. close_cb L a \<noteq> None) as)"
proof -
  let ?L = "L\<lparr>closing_handles := None\<rparr>"
  have "handle_inv ?L"
    using assms(3) by (simp add: handle_inv_def live_handles_def uv__is_active_def uv__has_ref_def)
  then show ?thesis
    using run_closing_loop_ok [OF assms(1,2), of ?L "closing_handles L" as] assms(4,5)
    by (simp add: uv__run_closing_handles_def closing_inv_def close_log_def)
qed

text \<open>Handle 7 was closed first, then the idle handle 9; both have the callback 4.\<close>

definition sample_cloop :: "(skernel, (nat \<times> addr \<times> bool \<times> bool) list) cloop_scheme" where
  "sample_cloop = cloop.extend (uloop.extend
     (sample_uloop\<lparr>handle_queue := [7, 9], closing_handles := Some 9,
        handles := (\<lambda>_. \<lparr>flags = 0x2001, htype = UV_POLL, next_closing = None\<rparr>)
          (9 := \<lparr>flags = 0x2001, htype = UV_IDLE, next_closing = Some 7\<rparr>)\<rparr>)
     (cloop.fields (\<lambda>_. Some 4))) []"

definition note_close_cb ::
  "nat \<Rightarrow> addr \<Rightarrow> ('k, (nat \<times> addr \<times> bool \<times> bool) list) cloop_scheme \<Rightarrow> ('k, (nat \<times> addr \<times> bool \<times> bool) list) cloop_scheme option" where
  "note_close_cb cb a L = Some (cloop.more_update (\<lambda>l. l @ [(cb, a, a \<in> set (handle_queue L), uv__has_ref L a)]) L)"

lemma note_close_cb_ok: "close_calls_ok id (\<lambda>cb a q r. (cb, a, q, r)) note_close_cb"
  by (simp add: close_calls_ok_def note_close_cb_def spares_def handle_inv_def live_handles_def being_closed_def
      uv__is_active_def uv__has_ref_def hflags_def)

lemma keep_destroy_ok: "destroy_ok g (\<lambda>ty a L. Some L)"
  by (simp add: destroy_ok_def spares_def)

lemma sample_cloop_ok:
  "handle_inv sample_cloop" "closing_inv sample_cloop [9, 7]" "\<forall>a \<in> set [9, 7]. closable (htype (handles sample_cloop a))"
  "cloop.more sample_cloop = []" "close_cb sample_cloop = (\<lambda>_. Some 4)"
  by (simp_all add: handle_inv_def live_handles_def closing_inv_def being_closed_def closable_def uv__is_active_def
      hflags_def sample_cloop_def sample_poll_defs cloop.defs)

theorem closing_handles_finished_once_witness:
  "\<exists>L'. uv__run_closing_handles (\<lambda>ty a L. Some L) note_close_cb sample_cloop = Some L' \<and>
     cloop.more L' = [(4, 9, False, False), (4, 7, False, False)]"
  using closing_handles_finished_once [OF note_close_cb_ok keep_destroy_ok sample_cloop_ok(1-3)]
  by (auto simp: sample_cloop_ok(4,5))

end
