(* ===== verification/Signal.thy ===== *)
theory Signal
  imports Closing
begin

text \<open>
  Signal handles: \<open>src/src/libuv/src/unix/signal.c\<close>.  The tree of watchers is shared by all loops; a
  red-black tree is the list of its elements in the order of \<open>uv__signal_compare\<close>.  A caught signal
  travels to a loop as a message through a pipe: \<open>uv__signal_handler\<close> writes it, which may happen at
  any time when the lock is free, and \<open>uv__signal_event\<close> reads it.  A byte of a message is a pair of
  the message and its position, so that a message can be read in pieces.

  The model has one loop, named \<open>sig_self\<close>; watchers of others may be in the tree, and their messages
  go to their pipes.
\<close>

section \<open>Data\<close>

record signal_msg =
  msg_handle :: addr
  msg_signum :: int

type_synonym fragment = "signal_msg \<times> nat"

abbreviation MSG_SIZE :: nat where "MSG_SIZE \<equiv> 16"
abbreviation SIGNAL_BUF :: nat where "SIGNAL_BUF \<equiv> 512"
abbreviation SG_EINTR :: int where "SG_EINTR \<equiv> 4"
abbreviation SG_EAGAIN :: int where "SG_EAGAIN \<equiv> 11"

text \<open>\<open>sys_lockpipe b\<close> reads the byte of the lock pipe or, if \<open>b\<close>, puts it back; \<open>sys_blocksigs b\<close> blocks
  all signals or, if \<open>b\<close>, restores the mask; \<open>sys_sigaction n b\<close> installs the handler for \<open>n\<close> or, if
  \<open>b\<close>, the default; \<open>sys_sigwrite\<close> writes a message to the pipe of a loop; \<open>sys_sigread\<close> reads from
  the loop's own pipe, given the room in the buffer and the bytes that are there.  A result below 0
  is \<open>-errno\<close>.\<close>

record 'k ssyscalls = "'k usyscalls" +
  sys_lockpipe :: "bool \<Rightarrow> 'k \<Rightarrow> int \<times> 'k"
  sys_blocksigs :: "bool \<Rightarrow> 'k \<Rightarrow> int \<times> 'k"
  sys_sigaction :: "int \<Rightarrow> bool \<Rightarrow> 'k \<Rightarrow> int \<times> 'k"
  sys_sigwrite :: "nat \<Rightarrow> 'k \<Rightarrow> int \<times> 'k"
  sys_sigread :: "nat \<Rightarrow> nat \<Rightarrow> 'k \<Rightarrow> int \<times> 'k"

record 'k sloop = "'k cloop" +
  sig_self :: nat
  sig_tree :: "addr list"
  sig_num :: "addr \<Rightarrow> int"
  sig_owner :: "addr \<Rightarrow> nat"
  sig_caught :: "addr \<Rightarrow> u32"
  sig_dispatched :: "addr \<Rightarrow> u32"
  sig_cb :: "addr \<Rightarrow> nat option"
  sig_pipe :: "nat \<Rightarrow> fragment list"
  sig_fds :: "int \<times> int"
  sig_lock_fds :: "int \<times> int"
  sig_once :: bool

text \<open>The identifier of \<open>uv__signal_event\<close> as the callback of a watcher.\<close>

abbreviation UV__SIGNAL_EVENT :: nat where "UV__SIGNAL_EVENT \<equiv> 3"

section \<open>The tree\<close>

type_synonym signal_key = "int \<times> nat \<times> addr"

definition uv__signal_compare :: "signal_key \<Rightarrow> signal_key \<Rightarrow> int" where
  "uv__signal_compare w1 w2 =
     (case (w1, w2) of ((s1, l1, a1), (s2, l2, a2)) \<Rightarrow>
        if s1 < s2 then - 1
        else if s1 > s2 then 1
        else if l1 < l2 then - 1
        else if l1 > l2 then 1
        else if a1 < a2 then - 1
        else if a1 > a2 then 1
        else 0)"

definition signal_key :: "('k, 'a) sloop_scheme \<Rightarrow> addr \<Rightarrow> signal_key" where
  "signal_key L a = (sig_num L a, sig_owner L a, a)"

text \<open>\<open>RB_NFIND\<close>, \<open>RB_INSERT\<close> and \<open>RB_REMOVE\<close> on the list in order; \<open>RB_NEXT\<close> is the next element.\<close>

definition rb_nfind :: "signal_key \<Rightarrow> ('k, 'a) sloop_scheme \<Rightarrow> addr list" where
  "rb_nfind k L = dropWhile (\<lambda>b. uv__signal_compare k (signal_key L b) > 0) (sig_tree L)"

definition rb_insert :: "addr \<Rightarrow> ('k, 'a) sloop_scheme \<Rightarrow> ('k, 'a) sloop_scheme" where
  "rb_insert a L =
     (let k = signal_key L a in
      if \<exists>b \<in> set (sig_tree L). uv__signal_compare k (signal_key L b) = 0 then L
      else L\<lparr>sig_tree := takeWhile (\<lambda>b. uv__signal_compare k (signal_key L b) > 0) (sig_tree L) @
                         a # rb_nfind k L\<rparr>)"

definition rb_remove :: "addr \<Rightarrow> ('k, 'a) sloop_scheme \<Rightarrow> ('k, 'a) sloop_scheme" where
  "rb_remove a L = L\<lparr>sig_tree := removeAll a (sig_tree L)\<rparr>"

text \<open>The lookup key has the loop NULL; the address of the key is compared only with one of the same loop.\<close>

definition uv__signal_first_handle :: "int \<Rightarrow> ('k, 'a) sloop_scheme \<Rightarrow> ptr" where
  "uv__signal_first_handle signum L =
     (case rb_nfind (signum, 0, 0) L of
        [] \<Rightarrow> None
      | a # _ \<Rightarrow> if sig_num L a = signum then Some a else None)"

section \<open>The lock\<close>

partial_function (option) lockpipe_loop ::
  "('k, 'b) ssyscalls_scheme \<Rightarrow> bool \<Rightarrow> ('k, 'a) sloop_scheme \<Rightarrow> (int \<times> ('k, 'a) sloop_scheme) option" where
  [code]: "lockpipe_loop K b L =
     (case sys_lockpipe K b (kern L) of (r, k) \<Rightarrow>
        let L = L\<lparr>kern := k\<rparr> in if r = - SG_EINTR then lockpipe_loop K b L else Some (if r < 0 then - 1 else 0, L))"

definition uv__signal_lock ::
  "('k, 'b) ssyscalls_scheme \<Rightarrow> ('k, 'a) sloop_scheme \<Rightarrow> (int \<times> ('k, 'a) sloop_scheme) option" where
  "uv__signal_lock K L = lockpipe_loop K False L"

definition uv__signal_unlock ::
  "('k, 'b) ssyscalls_scheme \<Rightarrow> ('k, 'a) sloop_scheme \<Rightarrow> (int \<times> ('k, 'a) sloop_scheme) option" where
  "uv__signal_unlock K L = lockpipe_loop K True L"

definition uv__signal_block_and_lock ::
  "('k, 'b) ssyscalls_scheme \<Rightarrow> ('k, 'a) sloop_scheme \<Rightarrow> ('k, 'a) sloop_scheme option" where
  "uv__signal_block_and_lock K L =
     (case sys_blocksigs K False (kern L) of (r, k) \<Rightarrow>
        if r \<noteq> 0 then None
        else do { (r, L) \<leftarrow> uv__signal_lock K (L\<lparr>kern := k\<rparr>); if r \<noteq> 0 then None else Some L })"

definition uv__signal_unlock_and_unblock ::
  "('k, 'b) ssyscalls_scheme \<Rightarrow> ('k, 'a) sloop_scheme \<Rightarrow> ('k, 'a) sloop_scheme option" where
  "uv__signal_unlock_and_unblock K L =
     do { (r, L) \<leftarrow> uv__signal_unlock K L;
          if r \<noteq> 0 then None
          else (case sys_blocksigs K True (kern L) of (r, k) \<Rightarrow> if r \<noteq> 0 then None else Some (L\<lparr>kern := k\<rparr>)) }"

definition uv__signal_global_init ::
  "('k, 'b) ssyscalls_scheme \<Rightarrow> ('k, 'a) sloop_scheme \<Rightarrow> ('k, 'a) sloop_scheme option" where
  "uv__signal_global_init K L =
     (case uv__make_pipe K L of ((err, p0, p1), L) \<Rightarrow>
        if err \<noteq> 0 then None
        else do { (r, L) \<leftarrow> uv__signal_unlock K (L\<lparr>sig_lock_fds := (p0, p1)\<rparr>);
                  if r \<noteq> 0 then None else Some L })"

definition uv__signal_global_once_init ::
  "('k, 'b) ssyscalls_scheme \<Rightarrow> ('k, 'a) sloop_scheme \<Rightarrow> ('k, 'a) sloop_scheme option" where
  "uv__signal_global_once_init K L =
     (if sig_once L then Some L else uv__signal_global_init K (L\<lparr>sig_once := True\<rparr>))"

section \<open>Catching a signal\<close>

definition msg_bytes :: "signal_msg \<Rightarrow> fragment list" where
  "msg_bytes m = map (Pair m) [0 ..< MSG_SIZE]"

text \<open>The write of one message, repeated when interrupted.\<close>

partial_function (option) signal_write ::
  "('k, 'b) ssyscalls_scheme \<Rightarrow> signal_msg \<Rightarrow> ('k, 'a) sloop_scheme \<Rightarrow> (int \<times> ('k, 'a) sloop_scheme) option" where
  [code]: "signal_write K m L =
     (let l = sig_owner L (msg_handle m) in
      case sys_sigwrite K l (kern L) of (r, k) \<Rightarrow>
        let L = L\<lparr>kern := k\<rparr>
        in if r = - SG_EINTR then signal_write K m L
           else if r = int MSG_SIZE then
             Some (r, L\<lparr>sig_pipe := (sig_pipe L)(l := sig_pipe L l @ msg_bytes m)\<rparr>)
           else Some (r, L))"

fun handler_loop ::
  "('k, 'b) ssyscalls_scheme \<Rightarrow> int \<Rightarrow> addr list \<Rightarrow> ('k, 'a) sloop_scheme \<Rightarrow> ('k, 'a) sloop_scheme option" where
  "handler_loop K signum [] L = Some L"
| "handler_loop K signum (a # as) L =
     (if sig_num L a \<noteq> signum then Some L
      else do {
        (r, L) \<leftarrow> signal_write K \<lparr>msg_handle = a, msg_signum = signum\<rparr> L;
        ASSERT (r = int MSG_SIZE \<or> r = - SG_EAGAIN);
        handler_loop K signum as
          (if r \<ge> 0 then L\<lparr>sig_caught := (sig_caught L)(a := sig_caught L a + 1)\<rparr> else L) })"

definition uv__signal_handler ::
  "('k, 'b) ssyscalls_scheme \<Rightarrow> int \<Rightarrow> ('k, 'a) sloop_scheme \<Rightarrow> ('k, 'a) sloop_scheme option" where
  "uv__signal_handler K signum L =
     do { (r, L) \<leftarrow> uv__signal_lock K L;
          if r \<noteq> 0 then Some L
          else do {
            L \<leftarrow> (case uv__signal_first_handle signum L of
                   None \<Rightarrow> Some L
                 | Some a \<Rightarrow> handler_loop K signum (dropWhile (\<lambda>b. b \<noteq> a) (sig_tree L)) L);
            (r, L) \<leftarrow> uv__signal_unlock K L;
            Some L } }"

definition uv__signal_register_handler ::
  "('k, 'b) ssyscalls_scheme \<Rightarrow> int \<Rightarrow> ('k, 'a) sloop_scheme \<Rightarrow> int \<times> ('k, 'a) sloop_scheme" where
  "uv__signal_register_handler K signum L =
     (case sys_sigaction K signum False (kern L) of (r, k) \<Rightarrow> (if r < 0 then r else 0, L\<lparr>kern := k\<rparr>))"

definition uv__signal_unregister_handler ::
  "('k, 'b) ssyscalls_scheme \<Rightarrow> int \<Rightarrow> ('k, 'a) sloop_scheme \<Rightarrow> ('k, 'a) sloop_scheme option" where
  "uv__signal_unregister_handler K signum L =
     (case sys_sigaction K signum True (kern L) of (r, k) \<Rightarrow> if r < 0 then None else Some (L\<lparr>kern := k\<rparr>))"

section \<open>Handles\<close>

definition uv__signal_stop ::
  "('k, 'b) ssyscalls_scheme \<Rightarrow> addr \<Rightarrow> ('k, 'a) sloop_scheme \<Rightarrow> ('k, 'a) sloop_scheme option" where
  "uv__signal_stop K a L =
     (if sig_num L a = 0 then Some L
      else do {
        L \<leftarrow> uv__signal_block_and_lock K L;
        let L = rb_remove a L;
        L \<leftarrow> (if uv__signal_first_handle (sig_num L a) L = None
              then uv__signal_unregister_handler K (sig_num L a) L else Some L);
        L \<leftarrow> uv__signal_unlock_and_unblock K L;
        Some (uv__handle_stop a (L\<lparr>sig_num := (sig_num L)(a := 0)\<rparr>)) })"

definition uv_signal_stop ::
  "('k, 'b) ssyscalls_scheme \<Rightarrow> addr \<Rightarrow> ('k, 'a) sloop_scheme \<Rightarrow> (int \<times> ('k, 'a) sloop_scheme) option" where
  "uv_signal_stop K a L =
     do { ASSERT (\<not> uv__is_closing L a); L \<leftarrow> uv__signal_stop K a L; Some (0, L) }"

definition uv__signal_loop_once_init ::
  "('k, 'b) ssyscalls_scheme \<Rightarrow> (nat \<Rightarrow> bool) \<Rightarrow> ('k, 'a) sloop_scheme \<Rightarrow> (int \<times> ('k, 'a) sloop_scheme) option" where
  "uv__signal_loop_once_init K realloc_ok L =
     (if fst (sig_fds L) \<noteq> - 1 then Some (0, L)
      else
        (case uv__make_pipe K L of ((err, p0, p1), L) \<Rightarrow>
           if err \<noteq> 0 then Some (err, L)
           else do {
             L \<leftarrow> uv__io_init (signal_io L) UV__SIGNAL_EVENT p0 (L\<lparr>sig_fds := (p0, p1)\<rparr>);
             L \<leftarrow> uv__io_start realloc_ok (signal_io L) POLLIN L;
             Some (0, L) }))"

definition uv_signal_init ::
  "('k, 'b) ssyscalls_scheme \<Rightarrow> (nat \<Rightarrow> bool) \<Rightarrow> addr \<Rightarrow> ('k, 'a) sloop_scheme \<Rightarrow> (int \<times> ('k, 'a) sloop_scheme) option" where
  "uv_signal_init K realloc_ok a L =
     do { (err, L) \<leftarrow> uv__signal_loop_once_init K realloc_ok L;
          if err \<noteq> 0 then Some (err, L)
          else
            let L = uv__handle_init a UV_SIGNAL (L\<lparr>sig_owner := (sig_owner L)(a := sig_self L)\<rparr>)
            in Some (0, L\<lparr>sig_num := (sig_num L)(a := 0), sig_caught := (sig_caught L)(a := 0),
                          sig_dispatched := (sig_dispatched L)(a := 0)\<rparr>) }"

definition uv__signal_close ::
  "('k, 'b) ssyscalls_scheme \<Rightarrow> addr \<Rightarrow> ('k, 'a) sloop_scheme \<Rightarrow> ('k, 'a) sloop_scheme option" where
  "uv__signal_close K a L =
     do { L \<leftarrow> uv__signal_stop K a L;
          if sig_caught L a = sig_dispatched L a then uv__make_close_pending a L else Some L }"

text \<open>Entering the tree, the part of \<open>uv_signal_start\<close> from the lock on.\<close>

definition signal_watch ::
  "('k, 'b) ssyscalls_scheme \<Rightarrow> addr \<Rightarrow> nat option \<Rightarrow> int \<Rightarrow> ('k, 'a) sloop_scheme \<Rightarrow> (int \<times> ('k, 'a) sloop_scheme) option" where
  "signal_watch K a cb signum L =
     do { L \<leftarrow> uv__signal_block_and_lock K L;
          let (err, L) = (if uv__signal_first_handle signum L = None
                          then uv__signal_register_handler K signum L else (0, L));
          if err \<noteq> 0 then do { L \<leftarrow> uv__signal_unlock_and_unblock K L; Some (err, L) }
          else do {
            let L = rb_insert a (L\<lparr>sig_num := (sig_num L)(a := signum)\<rparr>);
            L \<leftarrow> uv__signal_unlock_and_unblock K L;
            Some (0, uv__handle_start a (L\<lparr>sig_cb := (sig_cb L)(a := cb)\<rparr>)) } }"

definition uv_signal_start ::
  "('k, 'b) ssyscalls_scheme \<Rightarrow> addr \<Rightarrow> nat option \<Rightarrow> int \<Rightarrow> ('k, 'a) sloop_scheme \<Rightarrow> (int \<times> ('k, 'a) sloop_scheme) option" where
  "uv_signal_start K a cb signum L =
     do { ASSERT (\<not> uv__is_closing L a);
          if signum = 0 then Some (UV_EINVAL, L)
          else if signum = sig_num L a then Some (0, L\<lparr>sig_cb := (sig_cb L)(a := cb)\<rparr>)
          else do {
            L \<leftarrow> (if sig_num L a \<noteq> 0 then uv__signal_stop K a L else Some L);
            signal_watch K a cb signum L } }"

fun stop_signals ::
  "('k, 'b) ssyscalls_scheme \<Rightarrow> addr list \<Rightarrow> ('k, 'a) sloop_scheme \<Rightarrow> ('k, 'a) sloop_scheme option" where
  "stop_signals K [] L = Some L"
| "stop_signals K (a # as) L =
     Option.bind (if htype (handles L a) = UV_SIGNAL then uv__signal_stop K a L else Some L) (stop_signals K as)"

definition uv__signal_loop_cleanup ::
  "('k, 'b) ssyscalls_scheme \<Rightarrow> ('k, 'a) sloop_scheme \<Rightarrow> ('k, 'a) sloop_scheme option" where
  "uv__signal_loop_cleanup K L =
     do { L \<leftarrow> stop_signals K (handle_queue L) L;
          let L = (if fst (sig_fds L) \<noteq> - 1
                   then L\<lparr>kern := sys_close K (fst (sig_fds L)) (kern L), sig_fds := (- 1, snd (sig_fds L))\<rparr> else L);
          Some (if snd (sig_fds L) \<noteq> - 1
                then L\<lparr>kern := sys_close K (snd (sig_fds L)) (kern L), sig_fds := (fst (sig_fds L), - 1)\<rparr> else L) }"

section \<open>Dispatching the messages\<close>

text \<open>Bytes that are not one whole message make a pointer that points nowhere.\<close>

definition decode_msg :: "fragment list \<Rightarrow> signal_msg option" where
  "decode_msg bs = (case bs of [] \<Rightarrow> None | (m, _) # _ \<Rightarrow> if bs = msg_bytes m then Some m else None)"

definition signal_msg_call ::
  "(nat \<Rightarrow> addr \<Rightarrow> int \<Rightarrow> ('k, 'a) sloop_scheme \<Rightarrow> ('k, 'a) sloop_scheme option) \<Rightarrow>
   signal_msg \<Rightarrow> ('k, 'a) sloop_scheme \<Rightarrow> ('k, 'a) sloop_scheme option" where
  "signal_msg_call call m L =
     (let a = msg_handle m in
      if msg_signum m = sig_num L a then
        do { ASSERT (\<not> has_flag (hflags L a) UV_CLOSING); cb \<leftarrow> sig_cb L a; call cb a (sig_num L a) L }
      else Some L)"

definition signal_msg_done :: "addr \<Rightarrow> ('k, 'a) sloop_scheme \<Rightarrow> ('k, 'a) sloop_scheme option" where
  "signal_msg_done a L =
     (let L = L\<lparr>sig_dispatched := (sig_dispatched L)(a := sig_dispatched L a + 1)\<rparr>
      in if has_flag (hflags L a) UV_CLOSING \<and> sig_caught L a = sig_dispatched L a
         then uv__make_close_pending a L else Some L)"

fun signal_msgs ::
  "(nat \<Rightarrow> addr \<Rightarrow> int \<Rightarrow> ('k, 'a) sloop_scheme \<Rightarrow> ('k, 'a) sloop_scheme option) \<Rightarrow>
   fragment list list \<Rightarrow> ('k, 'a) sloop_scheme \<Rightarrow> ('k, 'a) sloop_scheme option" where
  "signal_msgs call [] L = Some L"
| "signal_msgs call (bs # bss) L =
     do { m \<leftarrow> decode_msg bs;
          L \<leftarrow> signal_msg_call call m L;
          L \<leftarrow> signal_msg_done (msg_handle m) L;
          signal_msgs call bss L }"

definition pieces :: "fragment list \<Rightarrow> fragment list list" where
  "pieces bs = map (\<lambda>i. take MSG_SIZE (drop (i * MSG_SIZE) bs)) [0 ..< length bs div MSG_SIZE]"

text \<open>\<open>buf\<close> is what the buffer holds and \<open>fin\<close> the variable \<open>end\<close>.  A \<open>continue\<close> in the code goes to
  the condition of its \<open>do\<close> loop.\<close>

partial_function (option) signal_event_loop ::
  "('k, 'b) ssyscalls_scheme \<Rightarrow> (nat \<Rightarrow> addr \<Rightarrow> int \<Rightarrow> ('k, 'a) sloop_scheme \<Rightarrow> ('k, 'a) sloop_scheme option) \<Rightarrow>
   fragment list \<Rightarrow> nat \<Rightarrow> ('k, 'a) sloop_scheme \<Rightarrow> ('k, 'a) sloop_scheme option" where
  [code]: "signal_event_loop K call buf fin L =
     (let p = sig_pipe L (sig_self L) in
      case sys_sigread K (SIGNAL_BUF - length buf) (length p) (kern L) of (r, k) \<Rightarrow>
        let L = L\<lparr>kern := k\<rparr> in
        if r = - SG_EINTR then
          (if fin = SIGNAL_BUF then signal_event_loop K call buf fin L else Some L)
        else if r = - SG_EAGAIN then
          (if length buf > 0 \<and> fin = SIGNAL_BUF then signal_event_loop K call buf fin L else Some L)
        else if r < 0 then None
        else
          let buf = buf @ take (nat r) p;
              L = L\<lparr>sig_pipe := (sig_pipe L)(sig_self L := drop (nat r) p)\<rparr>;
              fin = (length buf div MSG_SIZE) * MSG_SIZE
          in Option.bind (signal_msgs call (pieces (take fin buf)) L) (\<lambda>L.
               if fin = SIGNAL_BUF then signal_event_loop K call (drop fin buf) fin L else Some L))"

definition uv__signal_event ::
  "('k, 'b) ssyscalls_scheme \<Rightarrow> (nat \<Rightarrow> addr \<Rightarrow> int \<Rightarrow> ('k, 'a) sloop_scheme \<Rightarrow> ('k, 'a) sloop_scheme option) \<Rightarrow>
   ('k, 'a) sloop_scheme \<Rightarrow> ('k, 'a) sloop_scheme option" where
  "uv__signal_event K call L = signal_event_loop K call [] 0 L"

section \<open>What the operations change\<close>

lemma sloop_kern_twice: "L\<lparr>kern := k, sig_tree := t\<rparr>\<lparr>kern := k'\<rparr> = L\<lparr>kern := k', sig_tree := t\<rparr>"
  by simp

lemma lockpipe_loop_shape:
  assumes "lockpipe_loop K b L = Some x"
  shows "\<exists>k. snd x = L\<lparr>kern := k\<rparr>"
proof (rule lockpipe_loop.raw_induct [of "\<lambda>K b L x. \<exists>k. snd x = L\<lparr>kern := k\<rparr>", OF _ assms], goal_cases)
  case (1 rec K b L x)
  obtain r k where k: "sys_lockpipe K b (kern L) = (r, k)" by fastforce
  show ?case
  proof (cases "r = - SG_EINTR")
    case True
    then have "rec K b (L\<lparr>kern := k\<rparr>) = Some x" using 1(2) k by simp
    from 1(1) [OF this] show ?thesis by simp
  next
    case False
    then show ?thesis using 1(2) k by auto
  qed
qed

lemma block_and_lock_shape: "uv__signal_block_and_lock K L = Some L' \<Longrightarrow> \<exists>k. L' = L\<lparr>kern := k\<rparr>"
  by (auto simp: uv__signal_block_and_lock_def uv__signal_lock_def bind_eq_Some_conv
      dest!: lockpipe_loop_shape split: prod.splits if_splits)

lemma unlock_and_unblock_shape:
  assumes "uv__signal_unlock_and_unblock K L = Some L'"
  shows "\<exists>k. L' = L\<lparr>kern := k\<rparr>"
proof -
  obtain r M where M: "lockpipe_loop K True L = Some (r, M)"
      "(if r \<noteq> 0 then None else case sys_blocksigs K True (kern M) of (r, k) \<Rightarrow> if r \<noteq> 0 then None else Some (M\<lparr>kern := k\<rparr>)) = Some L'"
    using assms by (auto simp: uv__signal_unlock_and_unblock_def uv__signal_unlock_def bind_eq_Some_conv)
  obtain r1 k1 where k: "sys_blocksigs K True (kern M) = (r1, k1)" by fastforce
  then show ?thesis using M lockpipe_loop_shape [OF M(1)] by (auto split: if_splits)
qed

lemma signal_stop_shape:
  assumes "uv__signal_stop K a L = Some L'" and "sig_num L a \<noteq> 0"
  shows "\<exists>k. L' = uv__handle_stop a (L\<lparr>kern := k, sig_tree := removeAll a (sig_tree L), sig_num := (sig_num L)(a := 0)\<rparr>)"
proof -
  let ?u = "\<lambda>k. L\<lparr>kern := k, sig_tree := removeAll a (sig_tree L)\<rparr>"
  obtain k1 M N where M: "(if uv__signal_first_handle (sig_num L a) (?u k1) = None
      then uv__signal_unregister_handler K (sig_num L a) (?u k1) else Some (?u k1)) = Some M"
      "uv__signal_unlock_and_unblock K M = Some N" "L' = uv__handle_stop a (N\<lparr>sig_num := (sig_num N)(a := 0)\<rparr>)"
    using assms by (auto simp: uv__signal_stop_def rb_remove_def bind_eq_Some_conv Let_def dest!: block_and_lock_shape cong: if_cong)
  have "M = ?u (kern M)" using M(1)
    by (auto simp: uv__signal_unregister_handler_def split: if_splits prod.splits)
  moreover obtain k3 where "N = M\<lparr>kern := k3\<rparr>" using unlock_and_unblock_shape [OF M(2)] by blast
  ultimately have "N = ?u k3" by (metis sloop_kern_twice)
  then have "L' = uv__handle_stop a (L\<lparr>kern := k3, sig_tree := removeAll a (sig_tree L), sig_num := (sig_num L)(a := 0)\<rparr>)"
    using M(3) by simp
  then show ?thesis by blast
qed

lemma compare_zero: "uv__signal_compare k1 k2 = 0 \<longleftrightarrow> k1 = k2"
  by (auto simp: uv__signal_compare_def split: prod.splits)

lemma rb_insert_shape:
  assumes "a \<notin> set (sig_tree L)"
  shows "\<exists>t. rb_insert a L = L\<lparr>sig_tree := t\<rparr> \<and> set t = insert a (set (sig_tree L)) \<and> (distinct (sig_tree L) \<longrightarrow> distinct t)"
proof -
  let ?P = "\<lambda>b. uv__signal_compare (signal_key L a) (signal_key L b) > 0"
  have "set (takeWhile ?P (sig_tree L)) \<union> set (dropWhile ?P (sig_tree L)) = set (sig_tree L)"
    by (metis set_append takeWhile_dropWhile_id)
  moreover have "distinct (takeWhile ?P (sig_tree L) @ dropWhile ?P (sig_tree L)) = distinct (sig_tree L)"
    by (simp only: takeWhile_dropWhile_id)
  moreover have "rb_insert a L = L\<lparr>sig_tree := takeWhile ?P (sig_tree L) @ a # dropWhile ?P (sig_tree L)\<rparr>"
    using assms by (auto simp: rb_insert_def rb_nfind_def compare_zero signal_key_def Let_def)
  ultimately show ?thesis
    using assms by (intro exI [of _ "takeWhile ?P (sig_tree L) @ a # dropWhile ?P (sig_tree L)"])
      (simp del: takeWhile_dropWhile_id, blast)
qed

text \<open>Entering the tree fails with nothing changed, or succeeds.\<close>

lemma signal_watch_shape:
  assumes run: "signal_watch K a cb n L = Some (r, L')" and tree: "a \<notin> set (sig_tree L)"
  shows "(\<exists>k. L' = L\<lparr>kern := k\<rparr>) \<or>
    (\<exists>k t. set t = insert a (set (sig_tree L)) \<and> (distinct (sig_tree L) \<longrightarrow> distinct t) \<and>
       L' = uv__handle_start a (L\<lparr>kern := k, sig_tree := t, sig_num := (sig_num L)(a := n), sig_cb := (sig_cb L)(a := cb)\<rparr>))"
proof -
  obtain k1 where B: "uv__signal_block_and_lock K L = Some (L\<lparr>kern := k1\<rparr>)"
    using run block_and_lock_shape [of K L] by (auto simp: signal_watch_def bind_eq_Some_conv)
  define R where "R = (if uv__signal_first_handle n (L\<lparr>kern := k1\<rparr>) = None
    then uv__signal_register_handler K n (L\<lparr>kern := k1\<rparr>) else (0, L\<lparr>kern := k1\<rparr>))"
  have "R = (fst R, L\<lparr>kern := kern (snd R)\<rparr>)"
    by (auto simp: R_def uv__signal_register_handler_def split: prod.splits)
  then obtain err k2 where R2: "R = (err, L\<lparr>kern := k2\<rparr>)" by blast
  let ?I = "rb_insert a (L\<lparr>kern := k2, sig_num := (sig_num L)(a := n)\<rparr>)"
  have run': "(if err \<noteq> 0 then do { L \<leftarrow> uv__signal_unlock_and_unblock K (L\<lparr>kern := k2\<rparr>); Some (err, L) }
          else do { L \<leftarrow> uv__signal_unlock_and_unblock K ?I;
            Some (0, uv__handle_start a (L\<lparr>sig_cb := (sig_cb L)(a := cb)\<rparr>)) }) = Some (r, L')"
    using run R2 unfolding signal_watch_def B by (simp add: R_def Let_def cong: if_cong)
  show ?thesis
  proof (cases "err \<noteq> 0")
    case True
    then show ?thesis using run' by (auto simp: bind_eq_Some_conv dest!: unlock_and_unblock_shape)
  next
    case False
    obtain t where t: "?I = L\<lparr>kern := k2, sig_num := (sig_num L)(a := n), sig_tree := t\<rparr>" "set t = insert a (set (sig_tree L))"
        "distinct (sig_tree L) \<longrightarrow> distinct t"
      using rb_insert_shape [of a "L\<lparr>kern := k2, sig_num := (sig_num L)(a := n)\<rparr>"] tree by auto
    obtain U where U: "uv__signal_unlock_and_unblock K ?I = Some U" "L' = uv__handle_start a (U\<lparr>sig_cb := (sig_cb U)(a := cb)\<rparr>)"
      using run' False by (auto simp: bind_eq_Some_conv)
    obtain k3 where "U = ?I\<lparr>kern := k3\<rparr>" using unlock_and_unblock_shape [OF U(1)] by blast
    then have "U\<lparr>sig_cb := (sig_cb U)(a := cb)\<rparr> = L\<lparr>kern := k3, sig_tree := t, sig_num := (sig_num L)(a := n), sig_cb := (sig_cb L)(a := cb)\<rparr>"
      using t(1) by simp
    then have "L' = uv__handle_start a (L\<lparr>kern := k3, sig_tree := t, sig_num := (sig_num L)(a := n), sig_cb := (sig_cb L)(a := cb)\<rparr>)"
      using U(2) by (simp only:)
    then show ?thesis using t(2,3) by blast
  qed
qed

text \<open>A message more or less in the pipes, and the counters of the handles that got one.\<close>

lemma signal_write_shape:
  assumes "signal_write K m L = Some x"
  shows "\<exists>k. snd x = L\<lparr>kern := k\<rparr> \<and> fst x \<noteq> int MSG_SIZE \<or> fst x = int MSG_SIZE \<and>
    snd x = L\<lparr>kern := k, sig_pipe := (sig_pipe L)(sig_owner L (msg_handle m) := sig_pipe L (sig_owner L (msg_handle m)) @ msg_bytes m)\<rparr>"
proof (rule signal_write.raw_induct [of "\<lambda>K m L x. \<exists>k. snd x = L\<lparr>kern := k\<rparr> \<and> fst x \<noteq> int MSG_SIZE \<or> fst x = int MSG_SIZE \<and>
    snd x = L\<lparr>kern := k, sig_pipe := (sig_pipe L)(sig_owner L (msg_handle m) := sig_pipe L (sig_owner L (msg_handle m)) @ msg_bytes m)\<rparr>",
    OF _ assms], goal_cases)
  case (1 rec K m L x)
  obtain r k where k: "sys_sigwrite K (sig_owner L (msg_handle m)) (kern L) = (r, k)" by fastforce
  show ?case
  proof (cases "r = - SG_EINTR")
    case True
    then have "rec K m (L\<lparr>kern := k\<rparr>) = Some x" using 1(2) k by simp
    from 1(1) [OF this] show ?thesis by simp
  next
    case False
    then show ?thesis using 1(2) k by (cases "r = int MSG_SIZE") (auto simp: Let_def)
  qed
qed

text \<open>The messages \<open>uv__signal_handler\<close> adds: for some of the watchers of the signal, one each.\<close>

definition with_messages :: "int \<Rightarrow> addr list \<Rightarrow> 'k \<Rightarrow> ('k, 'a) sloop_scheme \<Rightarrow> ('k, 'a) sloop_scheme" where
  "with_messages n bs k L = L\<lparr>kern := k,
     sig_pipe := (\<lambda>l. sig_pipe L l @ concat (map (\<lambda>a. msg_bytes \<lparr>msg_handle = a, msg_signum = n\<rparr>) (filter (\<lambda>a. sig_owner L a = l) bs))),
     sig_caught := (\<lambda>a. sig_caught L a + (if a \<in> set bs then 1 else 0))\<rparr>"

lemma with_messages_nil: "with_messages n [] k L = L\<lparr>kern := k\<rparr>"
  by (simp add: with_messages_def)

lemma with_messages_cons:
  assumes "a \<notin> set bs"
  shows "with_messages n bs k2 (L\<lparr>kern := k,
      sig_pipe := (sig_pipe L)(sig_owner L a := sig_pipe L (sig_owner L a) @ msg_bytes \<lparr>msg_handle = a, msg_signum = n\<rparr>),
      sig_caught := (sig_caught L)(a := sig_caught L a + 1)\<rparr>) = with_messages n (a # bs) k2 L"
  using assms by (simp add: with_messages_def fun_eq_iff)

lemma handler_loop_shape:
  assumes "handler_loop K n as L = Some L'" and "distinct as"
  shows "\<exists>bs k. set bs \<subseteq> {a \<in> set as. sig_num L a = n} \<and> distinct bs \<and> L' = with_messages n bs k L"
  using assms
proof (induction as arbitrary: L)
  case Nil
  then show ?case by (intro exI [of _ "[]"] exI [of _ "kern L"]) (simp add: with_messages_nil)
next
  case (Cons a as)
  show ?case
  proof (cases "sig_num L a = n")
    case False
    then show ?thesis using Cons.prems(1)
      by (intro exI [of _ "[]"] exI [of _ "kern L"]) (simp add: with_messages_nil)
  next
    case True
    obtain r M where M: "signal_write K \<lparr>msg_handle = a, msg_signum = n\<rparr> L = Some (r, M)"
        "r = int MSG_SIZE \<or> r = - SG_EAGAIN"
        "handler_loop K n as (if r \<ge> 0 then M\<lparr>sig_caught := (sig_caught M)(a := sig_caught M a + 1)\<rparr> else M) = Some L'"
      using Cons.prems(1) True by (auto simp: bind_eq_Some_conv split: if_splits)
    have d: "distinct as" "a \<notin> set as" using Cons.prems(2) by simp_all
    show ?thesis
    proof (cases "r = int MSG_SIZE")
      case r: True
      obtain k where k: "M = L\<lparr>kern := k, sig_pipe := (sig_pipe L)(sig_owner L a :=
          sig_pipe L (sig_owner L a) @ msg_bytes \<lparr>msg_handle = a, msg_signum = n\<rparr>)\<rparr>"
        using signal_write_shape [OF M(1)] r by auto
      have m3: "handler_loop K n as (L\<lparr>kern := k, sig_pipe := (sig_pipe L)(sig_owner L a :=
          sig_pipe L (sig_owner L a) @ msg_bytes \<lparr>msg_handle = a, msg_signum = n\<rparr>),
          sig_caught := (sig_caught L)(a := sig_caught L a + 1)\<rparr>) = Some L'"
        using M(3) r by (simp add: k)
      from Cons.IH [OF this d(1)] obtain bs k2 where bs: "set bs \<subseteq> {b \<in> set as. sig_num L b = n}" "distinct bs"
          "L' = with_messages n bs k2 (L\<lparr>kern := k, sig_pipe := (sig_pipe L)(sig_owner L a :=
          sig_pipe L (sig_owner L a) @ msg_bytes \<lparr>msg_handle = a, msg_signum = n\<rparr>),
          sig_caught := (sig_caught L)(a := sig_caught L a + 1)\<rparr>)" by auto
      have na: "a \<notin> set bs" using bs(1) d(2) by auto
      then show ?thesis using bs True unfolding with_messages_cons [OF na]
        by (intro exI [of _ "a # bs"] exI [of _ k2]) auto
    next
      case r: False
      then obtain k where k: "M = L\<lparr>kern := k\<rparr>" using signal_write_shape [OF M(1)] by auto
      then have "handler_loop K n as (L\<lparr>kern := k\<rparr>) = Some L'" using M(2,3) r by simp
      from Cons.IH [OF this d(1)] show ?thesis
        by (auto simp: with_messages_def)
    qed
  qed
qed

lemma signal_handler_shape:
  assumes run: "uv__signal_handler K n L = Some L'" and "distinct (sig_tree L)"
  shows "\<exists>bs k. set bs \<subseteq> {a \<in> set (sig_tree L). sig_num L a = n} \<and> distinct bs \<and> L' = with_messages n bs k L"
proof -
  obtain r M where M: "lockpipe_loop K False L = Some (r, M)"
    using run by (auto simp: uv__signal_handler_def uv__signal_lock_def bind_eq_Some_conv)
  obtain k where k: "M = L\<lparr>kern := k\<rparr>" using lockpipe_loop_shape [OF M] by auto
  show ?thesis
  proof (cases "r = 0")
    case False
    then have "L' = with_messages n [] k L"
      using run M k by (simp add: uv__signal_handler_def uv__signal_lock_def with_messages_nil)
    then show ?thesis by (intro exI [of _ "[]"] exI [of _ k]) simp
  next
    case True
    obtain N r2 where N: "(case uv__signal_first_handle n M of None \<Rightarrow> Some M
          | Some a \<Rightarrow> handler_loop K n (dropWhile (\<lambda>b. b \<noteq> a) (sig_tree M)) M) = Some N"
        "lockpipe_loop K True N = Some (r2, L')"
      using run M True by (auto simp: uv__signal_handler_def uv__signal_lock_def uv__signal_unlock_def bind_eq_Some_conv)
    obtain k2 where k2: "L' = N\<lparr>kern := k2\<rparr>" using lockpipe_loop_shape [OF N(2)] by auto
    show ?thesis
    proof (cases "uv__signal_first_handle n M")
      case None
      then have "L' = L\<lparr>kern := k\<rparr>\<lparr>kern := k2\<rparr>" using N(1) k k2 by simp
      then have "L' = with_messages n [] k2 L" by (simp add: with_messages_nil)
      then show ?thesis by (intro exI [of _ "[]"] exI [of _ k2]) simp
    next
      case (Some a)
      let ?as = "dropWhile (\<lambda>b. b \<noteq> a) (sig_tree L)"
      have "handler_loop K n ?as M = Some N" "distinct ?as" using N(1) Some k assms(2) by (simp_all add: distinct_dropWhile)
      then obtain bs k3 where bs: "set bs \<subseteq> {a \<in> set ?as. sig_num L a = n}" "distinct bs" "N = with_messages n bs k3 M"
        using handler_loop_shape [of K n ?as M N] k by auto
      have "L' = with_messages n bs k2 L" using bs(3) k k2 by (simp add: with_messages_def)
      moreover have "set bs \<subseteq> {a \<in> set (sig_tree L). sig_num L a = n}"
        using bs(1) set_dropWhileD by fastforce
      ultimately show ?thesis using bs(2) by blast
    qed
  qed
qed

section \<open>Signals at any time\<close>

text \<open>\<open>sg_todo\<close> are the messages \<open>uv__signal_event\<close> has read and not looked at, \<open>sg_busy\<close> is the handle
  whose message it is at, from the call of its callback on; \<open>sg_closing\<close> is the variable \<open>p\<close> of a
  running \<open>uv__run_closing_handles\<close>.\<close>

record 'k sigsys = "'k sloop" +
  sg_todo :: "signal_msg list"
  sg_busy :: ptr
  sg_closing :: ptr

definition sig_owned :: "('k, 'a) sloop_scheme \<Rightarrow> addr \<Rightarrow> bool" where
  "sig_owned L a \<longleftrightarrow> a \<in> set (handle_queue L) \<and> \<not> uv__is_closing L a"

text \<open>A signal may come before and after every step: the lock and the mask keep it out of the
  operations on the tree.  The user's operations, which callbacks may call too, need a handle that
  is not being closed; a handle is initialized in memory that nothing uses.  The pipe of a loop has
  room for 4096 messages.\<close>

inductive sig_step :: "('k, 'b) ssyscalls_scheme \<Rightarrow> 'k sigsys \<Rightarrow> 'k sigsys \<Rightarrow> bool" for K where
  caught: "uv__signal_handler K n s = Some s' \<Longrightarrow> n \<noteq> 0 \<Longrightarrow> length (sig_pipe s' (sig_self s)) \<le> 4096 * MSG_SIZE \<Longrightarrow>
    sig_step K s s'"
| fetch: "sg_busy s = None \<Longrightarrow> sg_todo s = [] \<Longrightarrow> sg_closing s = None \<Longrightarrow>
    sig_pipe s (sig_self s) = concat (map msg_bytes (ms @ rest)) \<Longrightarrow> length ms \<le> 32 \<Longrightarrow>
    sig_step K s (s\<lparr>sig_pipe := (sig_pipe s)(sig_self s := concat (map msg_bytes rest)), sg_todo := ms\<rparr>)"
| look: "sg_busy s = None \<Longrightarrow> sg_todo s = m # ms \<Longrightarrow> signal_msg_call (\<lambda>cb a n. Some) m s = Some s' \<Longrightarrow>
    sig_step K s (s'\<lparr>sg_todo := ms, sg_busy := Some (msg_handle m)\<rparr>)"
| handled: "sg_busy s = Some a \<Longrightarrow> signal_msg_done a s = Some s' \<Longrightarrow> sig_step K s (s'\<lparr>sg_busy := None\<rparr>)"
| init: "a \<notin> set (handle_queue s) \<Longrightarrow> a \<notin> set (sig_tree s) \<Longrightarrow> fst (sig_fds s) \<noteq> - 1 \<Longrightarrow>
    uv_signal_init K ok a s = Some (0, s') \<Longrightarrow> sig_step K s s'"
| start: "sig_owned s a \<Longrightarrow> cb \<noteq> None \<Longrightarrow> uv_signal_start K a cb n s = Some (r, s') \<Longrightarrow> sig_step K s s'"
| stop: "sig_owned s a \<Longrightarrow> uv_signal_stop K a s = Some (r, s') \<Longrightarrow> sig_step K s s'"
| close: "sig_owned s a \<Longrightarrow>
    uv__signal_close K a (set_flags a (add_flag (hflags s a) UV_CLOSING) (s\<lparr>close_cb := (close_cb s)(a := cb)\<rparr>)) = Some s' \<Longrightarrow>
    sig_step K s s'"
| closing: "sg_busy s = None \<Longrightarrow> sg_todo s = [] \<Longrightarrow> sg_closing s = None \<Longrightarrow>
    sig_step K s (s\<lparr>sg_closing := closing_handles s, closing_handles := None\<rparr>)"
| finish: "sg_closing s = Some a \<Longrightarrow> uv__finish_close (\<lambda>ty a L. None) (\<lambda>cb a. Some) a s = Some s' \<Longrightarrow>
    sig_step K s (s'\<lparr>sg_closing := next_closing (handles s a)\<rparr>)"

inductive sig_reach :: "('k, 'b) ssyscalls_scheme \<Rightarrow> 'k sigsys \<Rightarrow> 'k sigsys \<Rightarrow> bool" for K s0 where
  start: "sig_reach K s0 s0"
| step: "sig_reach K s0 s \<Longrightarrow> sig_step K s s' \<Longrightarrow> sig_reach K s0 s'"

text \<open>A loop with no signal handles yet.\<close>

definition sig_fresh :: "'k sigsys \<Rightarrow> bool" where
  "sig_fresh s \<longleftrightarrow> handle_queue s = [] \<and> closing_handles s = None \<and> sg_closing s = None \<and> sg_todo s = [] \<and>
     sg_busy s = None \<and> sig_pipe s (sig_self s) = [] \<and> distinct (sig_tree s) \<and>
     (\<forall>a \<in> set (sig_tree s). sig_owner s a \<noteq> sig_self s \<and> sig_num s a \<noteq> 0)"

section \<open>The invariant\<close>

text \<open>How many messages for \<open>a\<close> are under way, \<open>ms\<close> being those in the pipe.\<close>

definition under_way :: "signal_msg list \<Rightarrow> signal_msg list \<Rightarrow> ptr \<Rightarrow> addr \<Rightarrow> nat" where
  "under_way ms todo busy a = length (filter (\<lambda>m. msg_handle m = a) (ms @ todo)) + (if busy = Some a then 1 else 0)"

text \<open>A handle of the loop: counted right, in the tree when started, and in a chain exactly when it is
  being closed and all its messages were handled.\<close>

definition sig_handle_ok :: "'k sigsys \<Rightarrow> signal_msg list \<Rightarrow> addr list \<Rightarrow> addr \<Rightarrow> bool" where
  "sig_handle_ok s ms cs a \<longleftrightarrow>
     sig_owner s a = sig_self s \<and> htype (handles s a) = UV_SIGNAL \<and> \<not> has_flag (hflags s a) UV_CLOSED \<and>
     sig_caught s a = sig_dispatched s a + of_nat (under_way ms (sg_todo s) (sg_busy s) a) \<and>
     (sig_num s a \<noteq> 0 \<longleftrightarrow> a \<in> set (sig_tree s)) \<and>
     (sig_num s a \<noteq> 0 \<longrightarrow> sig_cb s a \<noteq> None \<and> \<not> has_flag (hflags s a) UV_CLOSING) \<and>
     (a \<in> set cs \<longleftrightarrow> has_flag (hflags s a) UV_CLOSING \<and> under_way ms (sg_todo s) (sg_busy s) a = 0)"

definition sig_inv_with :: "'k sigsys \<Rightarrow> signal_msg list \<Rightarrow> addr list \<Rightarrow> addr list \<Rightarrow> bool" where
  "sig_inv_with s ms cs fs \<longleftrightarrow>
     sig_pipe s (sig_self s) = concat (map msg_bytes ms) \<and> length ms \<le> 4096 \<and> length (sg_todo s) \<le> 32 \<and>
     closing_chain (handles s) (closing_handles s) cs \<and> closing_chain (handles s) (sg_closing s) fs \<and>
     distinct (cs @ fs) \<and> set (cs @ fs) \<subseteq> set (handle_queue s) \<and>
     distinct (handle_queue s) \<and> distinct (sig_tree s) \<and>
     (\<forall>a \<in> set (handle_queue s). sig_handle_ok s ms (cs @ fs) a) \<and>
     (\<forall>m \<in> set (ms @ sg_todo s). msg_handle m \<in> set (handle_queue s) \<and> msg_signum m \<noteq> 0) \<and>
     (\<forall>a. sg_busy s = Some a \<longrightarrow> a \<in> set (handle_queue s)) \<and>
     (\<forall>a \<in> set (sig_tree s). sig_num s a \<noteq> 0 \<and> (sig_owner s a = sig_self s \<longrightarrow> a \<in> set (handle_queue s)))"

lemma sig_fresh_inv: "sig_fresh s \<Longrightarrow> sig_inv_with s [] [] []"
  by (auto simp: sig_fresh_def sig_inv_with_def)

lemma sloop_handle_ops [simp]:
  "sig_tree (uv__handle_start a L) = sig_tree L" "sig_tree (uv__handle_stop a L) = sig_tree L" "sig_tree (set_flags a f L) = sig_tree L"
  "sig_num (uv__handle_start a L) = sig_num L" "sig_num (uv__handle_stop a L) = sig_num L" "sig_num (set_flags a f L) = sig_num L"
  "sig_owner (uv__handle_start a L) = sig_owner L" "sig_owner (uv__handle_stop a L) = sig_owner L" "sig_owner (set_flags a f L) = sig_owner L"
  "sig_caught (uv__handle_start a L) = sig_caught L" "sig_caught (uv__handle_stop a L) = sig_caught L" "sig_caught (set_flags a f L) = sig_caught L"
  "sig_dispatched (uv__handle_start a L) = sig_dispatched L" "sig_dispatched (uv__handle_stop a L) = sig_dispatched L" "sig_dispatched (set_flags a f L) = sig_dispatched L"
  "sig_cb (uv__handle_start a L) = sig_cb L" "sig_cb (uv__handle_stop a L) = sig_cb L" "sig_cb (set_flags a f L) = sig_cb L"
  "sig_pipe (uv__handle_start a L) = sig_pipe L" "sig_pipe (uv__handle_stop a L) = sig_pipe L" "sig_pipe (set_flags a f L) = sig_pipe L"
  "sig_self (uv__handle_start a L) = sig_self L" "sig_self (uv__handle_stop a L) = sig_self L" "sig_self (set_flags a f L) = sig_self L"
  "sloop.more (uv__handle_start a L) = sloop.more L" "sloop.more (uv__handle_stop a L) = sloop.more L" "sloop.more (set_flags a f L) = sloop.more L"
  by (simp_all add: handle_ops_defs set_flags_def)

lemma sigsys_handle_ops [simp]:
  "sg_todo (uv__handle_start a s) = sg_todo s" "sg_todo (uv__handle_stop a s) = sg_todo s" "sg_todo (set_flags a f s) = sg_todo s"
  "sg_busy (uv__handle_start a s) = sg_busy s" "sg_busy (uv__handle_stop a s) = sg_busy s" "sg_busy (set_flags a f s) = sg_busy s"
  "sg_closing (uv__handle_start a s) = sg_closing s" "sg_closing (uv__handle_stop a s) = sg_closing s" "sg_closing (set_flags a f s) = sg_closing s"
  by (simp_all add: handle_ops_defs set_flags_def)

lemma concat_msg_length: "length (concat (map msg_bytes ms)) = length ms * MSG_SIZE"
  by (induction ms) (simp_all add: msg_bytes_def)

lemma msg_length [simp]: "length (msg_bytes m) = MSG_SIZE"
  by (simp add: msg_bytes_def)

lemma msg_bytes_inj: "concat (map msg_bytes ms) = concat (map msg_bytes ms') \<Longrightarrow> ms = ms'"
proof (induction ms arbitrary: ms')
  case Nil
  then show ?case by (cases ms') (simp_all add: msg_bytes_def upt_rec)
next
  case (Cons m ms)
  then obtain m' ms2 where m: "ms' = m' # ms2" by (cases ms') (auto simp: msg_bytes_def upt_rec)
  have "msg_bytes m = msg_bytes m' \<and> concat (map msg_bytes ms) = concat (map msg_bytes ms2)"
    using Cons.prems append_eq_append_conv [of "msg_bytes m" "msg_bytes m'"] unfolding m by (simp add: msg_length)
  then have "msg_bytes m ! 0 = msg_bytes m' ! 0" "ms = ms2" using Cons.IH [of ms2] by simp_all
  then show ?case using m by (simp add: msg_bytes_def del: upt_Suc)
qed

lemma under_way_append: "under_way (ms @ ms') todo busy a = under_way ms todo busy a + length (filter (\<lambda>m. msg_handle m = a) ms')"
  by (simp add: under_way_def)

lemma count_one:
  "distinct bs \<Longrightarrow> length (filter (\<lambda>m. msg_handle m = a) (map (\<lambda>a. \<lparr>msg_handle = a, msg_signum = n\<rparr>) bs)) = (if a \<in> set bs then 1 else 0)"
  by (induction bs) auto

lemma caught_inv:
  assumes inv: "sig_inv_with s ms cs fs" and run: "uv__signal_handler K n s = Some s'" and n: "n \<noteq> 0"
    and room: "length (sig_pipe s' (sig_self s)) \<le> 4096 * MSG_SIZE"
  shows "\<exists>ms'. sig_inv_with s' ms' cs fs"
proof -
  have dt: "distinct (sig_tree s)" using inv by (simp add: sig_inv_with_def)
  obtain bs k where bs: "set bs \<subseteq> {a \<in> set (sig_tree s). sig_num s a = n}" "distinct bs" "s' = with_messages n bs k s"
    using signal_handler_shape [OF run dt] by blast
  define own where "own = filter (\<lambda>a. sig_owner s a = sig_self s) bs"
  define new where "new = map (\<lambda>a. \<lparr>msg_handle = a, msg_signum = n\<rparr>) own"
  have fields: "handles s' = handles s" "handle_queue s' = handle_queue s" "closing_handles s' = closing_handles s"
      "sig_self s' = sig_self s" "sig_tree s' = sig_tree s" "sig_num s' = sig_num s" "sig_owner s' = sig_owner s"
      "sig_dispatched s' = sig_dispatched s" "sig_cb s' = sig_cb s" "sg_todo s' = sg_todo s" "sg_busy s' = sg_busy s"
      "sg_closing s' = sg_closing s" "sig_caught s' = (\<lambda>a. sig_caught s a + (if a \<in> set bs then 1 else 0))"
      "hflags s' = hflags s"
    by (simp_all add: bs(3) with_messages_def hflags_def fun_eq_iff)
  have pipe: "sig_pipe s' (sig_self s) = concat (map msg_bytes (ms @ new))"
    using inv by (simp add: bs(3) with_messages_def sig_inv_with_def new_def own_def comp_def)
  then have len: "length (ms @ new) \<le> 4096" using room by (simp only: concat_msg_length mult_le_cancel2)
  have ownq: "set own \<subseteq> set (handle_queue s)" using inv bs(1) by (auto simp: own_def sig_inv_with_def)
  have onew: "under_way (ms @ new) todo busy a = under_way ms todo busy a + (if a \<in> set own then 1 else 0)" for todo busy a
    unfolding new_def under_way_append by (subst count_one) (simp_all add: own_def bs(2))
  have ok: "sig_handle_ok s' (ms @ new) (cs @ fs) a" if a: "a \<in> set (handle_queue s)" for a
  proof -
    have o: "sig_handle_ok s ms (cs @ fs) a" using inv a by (simp add: sig_inv_with_def)
    have "a \<in> set own \<longleftrightarrow> a \<in> set bs" using o by (auto simp: own_def sig_handle_ok_def)
    moreover have "a \<in> set bs \<Longrightarrow> a \<in> set (sig_tree s)" using bs(1) by auto
    ultimately show ?thesis using o unfolding sig_handle_ok_def fields onew by auto
  qed
  have "sig_inv_with s' (ms @ new) cs fs"
    using inv ok pipe len ownq n unfolding sig_inv_with_def fields by (auto simp: new_def)
  then show ?thesis by blast
qed

lemma fetch_inv:
  assumes inv: "sig_inv_with s ms' cs fs" and td: "sg_todo s = []"
    and pipe: "sig_pipe s (sig_self s) = concat (map msg_bytes (ms @ rest))" and len: "length ms \<le> 32"
  shows "sig_inv_with (s\<lparr>sig_pipe := (sig_pipe s)(sig_self s := concat (map msg_bytes rest)), sg_todo := ms\<rparr>) rest cs fs"
proof -
  have "concat (map msg_bytes ms') = concat (map msg_bytes (ms @ rest))" using inv pipe by (simp add: sig_inv_with_def)
  then have e: "ms' = ms @ rest" by (rule msg_bytes_inj)
  have u: "under_way ms' [] b a = under_way rest ms b a" for a b by (simp add: e under_way_def)
  have i: "sig_inv_with s (ms @ rest) cs fs" using inv e by simp
  have "sig_handle_ok (s\<lparr>sig_pipe := (sig_pipe s)(sig_self s := concat (map msg_bytes rest)), sg_todo := ms\<rparr>) rest (cs @ fs) a
      = sig_handle_ok s ms' (cs @ fs) a" for a
    unfolding sig_handle_ok_def using td u by (simp add: hflags_def)
  then show ?thesis using inv len td e unfolding sig_inv_with_def by auto
qed

lemma look_inv:
  assumes inv: "sig_inv_with s ms cs fs" and b: "sg_busy s = None" and td: "sg_todo s = m # todo"
    and run: "signal_msg_call (\<lambda>cb a n. Some) m s = Some s'"
  shows "sig_inv_with (s'\<lparr>sg_todo := todo, sg_busy := Some (msg_handle m)\<rparr>) ms cs fs"
proof -
  have s': "s' = s" using run by (auto simp: signal_msg_call_def Let_def bind_eq_Some_conv split: if_splits)
  have u: "under_way ms (sg_todo s) (sg_busy s) a = under_way ms todo (Some (msg_handle m)) a" for a
    by (simp add: under_way_def td b)
  have "sig_handle_ok (s\<lparr>sg_todo := todo, sg_busy := Some (msg_handle m)\<rparr>) ms (cs @ fs) a = sig_handle_ok s ms (cs @ fs) a" for a
    unfolding sig_handle_ok_def u by (simp add: hflags_def)
  then show ?thesis using inv td unfolding s' sig_inv_with_def by auto
qed

lemma under_way_bound: "length ms \<le> 4096 \<Longrightarrow> length todo \<le> 32 \<Longrightarrow> under_way ms todo b a \<le> 4129"
  using length_filter_le [of "\<lambda>m. msg_handle m = a" "ms @ todo"] by (simp add: under_way_def)

lemma of_nat_eq_0_bound: "n \<le> 4129 \<Longrightarrow> (of_nat n :: u32) = 0 \<longleftrightarrow> n = 0"
  by (cases "n = 0") (auto simp: word_of_nat_eq_0_iff dest: dvd_imp_le)

lemma handled_inv:
  assumes inv: "sig_inv_with s ms cs fs" and b: "sg_busy s = Some a" and run: "signal_msg_done a s = Some s'"
  shows "\<exists>cs'. sig_inv_with (s'\<lparr>sg_busy := None\<rparr>) ms cs' fs"
proof -
  let ?D = "s\<lparr>sig_dispatched := (sig_dispatched s)(a := sig_dispatched s a + 1)\<rparr>"
  have aq: "a \<in> set (handle_queue s)" using inv b by (simp add: sig_inv_with_def)
  have ok: "sig_handle_ok s ms (cs @ fs) c" if "c \<in> set (handle_queue s)" for c using inv that by (simp add: sig_inv_with_def)
  define u where "u = (\<lambda>c. under_way ms (sg_todo s) None c)"
  have ub: "under_way ms (sg_todo s) (sg_busy s) c = u c + (if c = a then 1 else 0)" for c
    by (simp add: u_def b under_way_def)
  have bound: "u a \<le> 4129" using under_way_bound inv unfolding u_def sig_inv_with_def by blast
  have ct: "sig_caught s a = sig_dispatched s a + 1 + of_nat (u a)"
    using ok [OF aq] unfolding sig_handle_ok_def ub by simp
  then have z: "sig_caught s a = sig_dispatched s a + 1 \<longleftrightarrow> u a = 0" using of_nat_eq_0_bound [OF bound] by simp
  have na: "a \<notin> set (cs @ fs)" using ok [OF aq] unfolding sig_handle_ok_def ub by simp
  have hD: "hflags ?D = hflags s" by (simp add: hflags_def fun_eq_iff)
  have okD: "sig_handle_ok (M\<lparr>sg_busy := None\<rparr>) ms cs' c"
    if c: "c \<in> set (handle_queue s)" and M: "M = ?D\<lparr>handles := h, closing_handles := p\<rparr>"
      and h: "\<forall>c. flags (h c) = flags (handles s c) \<and> htype (h c) = htype (handles s c)"
      and cs': "\<And>c. c \<noteq> a \<Longrightarrow> c \<in> set cs' \<longleftrightarrow> c \<in> set (cs @ fs)"
      and ca: "a \<in> set cs' \<longleftrightarrow> has_flag (hflags s a) UV_CLOSING \<and> u a = 0" for c M h p cs'
  proof -
    have f: "hflags (M\<lparr>sg_busy := None\<rparr>) d = hflags s d" for d using M h by (simp add: hflags_def)
    show ?thesis
    proof (cases "c = a")
      case True
      then show ?thesis using ok [OF c] ct ca unfolding sig_handle_ok_def ub f by (simp add: M h u_def [symmetric])
    next
      case False
      then show ?thesis using ok [OF c] cs' unfolding sig_handle_ok_def ub f by (simp add: M h u_def [symmetric])
    qed
  qed
  show ?thesis
  proof (cases "has_flag (hflags s a) UV_CLOSING \<and> u a = 0")
    case True
    let ?h = "(handles s)(a := (handles s a)\<lparr>next_closing := closing_handles s\<rparr>)"
    have s': "s' = ?D\<lparr>handles := ?h, closing_handles := Some a\<rparr>"
      using run True z by (simp add: signal_msg_done_def hD uv__make_close_pending_def split: if_splits)
    have ch: "closing_chain ?h p xs = closing_chain (handles s) p xs" if "set xs \<subseteq> set (cs @ fs)" for p xs
      by (rule closing_chain_cong) (use na that in auto)
    have "sig_handle_ok (s'\<lparr>sg_busy := None\<rparr>) ms ((a # cs) @ fs) c" if "c \<in> set (handle_queue s)" for c
      by (rule okD [OF that s']) (use True in auto)
    then have "sig_inv_with (s'\<lparr>sg_busy := None\<rparr>) ms (a # cs) fs"
      using inv na aq ch [of cs] ch [of fs] unfolding sig_inv_with_def by (simp add: s')
    then show ?thesis by blast
  next
    case False
    have "s' = ?D" using run False z by (simp add: signal_msg_done_def hD)
    then have s': "s' = ?D\<lparr>handles := handles s, closing_handles := closing_handles s\<rparr>" by simp
    have "sig_handle_ok (s'\<lparr>sg_busy := None\<rparr>) ms (cs @ fs) c" if "c \<in> set (handle_queue s)" for c
      by (rule okD [OF that s']) (use False na in auto)
    then have "sig_inv_with (s'\<lparr>sg_busy := None\<rparr>) ms cs fs"
      using inv unfolding sig_inv_with_def by (simp add: s')
    then show ?thesis by blast
  qed
qed

lemma sloop_hflags [simp]:
  "hflags (L\<lparr>kern := k\<rparr>) = hflags L" "hflags (M\<lparr>sig_tree := t\<rparr>) = hflags M" "hflags (M\<lparr>sig_num := f\<rparr>) = hflags M"
  "hflags (M\<lparr>sig_cb := g\<rparr>) = hflags M"
  by (simp_all add: hflags_def fun_eq_iff)

text \<open>What starting and stopping handle \<open>a\<close> may change.\<close>

definition sig_user_op :: "addr \<Rightarrow> 'k sigsys \<Rightarrow> 'k sigsys \<Rightarrow> bool" where
  "sig_user_op a s s' \<longleftrightarrow>
     handle_queue s' = handle_queue s \<and> closing_handles s' = closing_handles s \<and> sig_pipe s' = sig_pipe s \<and>
     sig_self s' = sig_self s \<and> sig_owner s' = sig_owner s \<and> sig_caught s' = sig_caught s \<and>
     sig_dispatched s' = sig_dispatched s \<and> sg_todo s' = sg_todo s \<and> sg_busy s' = sg_busy s \<and> sg_closing s' = sg_closing s \<and>
     (\<forall>b. next_closing (handles s' b) = next_closing (handles s b) \<and> htype (handles s' b) = htype (handles s b) \<and>
        has_flag (hflags s' b) UV_CLOSING = has_flag (hflags s b) UV_CLOSING \<and>
        has_flag (hflags s' b) UV_CLOSED = has_flag (hflags s b) UV_CLOSED) \<and>
     (\<forall>b. b \<noteq> a \<longrightarrow> sig_num s' b = sig_num s b \<and> sig_cb s' b = sig_cb s b \<and> (b \<in> set (sig_tree s') \<longleftrightarrow> b \<in> set (sig_tree s))) \<and>
     distinct (sig_tree s') \<and> (sig_num s' a \<noteq> 0 \<longleftrightarrow> a \<in> set (sig_tree s')) \<and> (sig_num s' a \<noteq> 0 \<longrightarrow> sig_cb s' a \<noteq> None)"

lemma user_op_inv:
  assumes inv: "sig_inv_with s ms cs fs" and op: "sig_user_op a s s'"
    and a: "a \<in> set (handle_queue s)" "sig_num s' a = 0 \<or> \<not> has_flag (hflags s a) UV_CLOSING"
  shows "sig_inv_with s' ms cs fs"
proof -
  note o = op [unfolded sig_user_op_def]
  have ch: "closing_chain (handles s') p xs = closing_chain (handles s) p xs" for p xs
    using o by (intro closing_chain_cong) simp
  have ok: "sig_handle_ok s ms (cs @ fs) b" if "b \<in> set (handle_queue s)" for b using inv that by (simp add: sig_inv_with_def)
  have ok': "sig_handle_ok s' ms (cs @ fs) b" if b: "b \<in> set (handle_queue s)" for b
    using ok [OF b] o a(2) unfolding sig_handle_ok_def by (cases "b = a") (auto; fail)+
  have own: "sig_owner s a = sig_self s" using ok [OF a(1)] by (simp add: sig_handle_ok_def)
  have tr: "\<forall>b \<in> set (sig_tree s'). sig_num s' b \<noteq> 0 \<and> (sig_owner s' b = sig_self s' \<longrightarrow> b \<in> set (handle_queue s'))"
  proof
    fix b assume b: "b \<in> set (sig_tree s')"
    then show "sig_num s' b \<noteq> 0 \<and> (sig_owner s' b = sig_self s' \<longrightarrow> b \<in> set (handle_queue s'))"
      using inv o a(1) by (cases "b = a") (simp_all add: sig_inv_with_def)
  qed
  have eqs: "sig_pipe s' = sig_pipe s" "sig_self s' = sig_self s" "handle_queue s' = handle_queue s"
      "closing_handles s' = closing_handles s" "sg_todo s' = sg_todo s" "sg_busy s' = sg_busy s" "sg_closing s' = sg_closing s"
      "distinct (sig_tree s')" using o by simp_all
  show ?thesis using inv ok' tr eqs unfolding sig_inv_with_def ch by simp
qed

lemma signal_stop_op:
  assumes run: "uv__signal_stop K a s = Some s'" and tree: "sig_num s a \<noteq> 0 \<longleftrightarrow> a \<in> set (sig_tree s)" and "distinct (sig_tree s)"
  shows "sig_user_op a s s' \<and> sig_num s' a = 0"
proof (cases "sig_num s a = 0")
  case True
  then have "s' = s" using run by (simp add: uv__signal_stop_def)
  then show ?thesis using True assms(2,3) by (simp add: sig_user_op_def)
next
  case False
  obtain k where "s' = uv__handle_stop a (s\<lparr>kern := k, sig_tree := removeAll a (sig_tree s), sig_num := (sig_num s)(a := 0)\<rparr>)"
    using signal_stop_shape [OF run False] by blast
  then show ?thesis using assms(3) by (simp add: sig_user_op_def distinct_removeAll)
qed

lemma sig_user_op_trans: "sig_user_op a s s1 \<Longrightarrow> sig_user_op a s1 s2 \<Longrightarrow> sig_user_op a s s2"
  by (simp add: sig_user_op_def)

lemma signal_watch_op:
  assumes run: "signal_watch K a cb n s = Some (r, s')" and a: "a \<notin> set (sig_tree s)" "sig_num s a = 0" "n \<noteq> 0"
    and d: "distinct (sig_tree s)" and cb: "cb \<noteq> None"
  shows "sig_user_op a s s'"
  using signal_watch_shape [OF run a(1)]
proof (elim disjE exE conjE)
  fix k assume s': "s' = s\<lparr>kern := k\<rparr>"
  show ?thesis unfolding s' using a d by (simp add: sig_user_op_def)
next
  fix k t assume t: "set t = insert a (set (sig_tree s))" "distinct (sig_tree s) \<longrightarrow> distinct t"
    and s': "s' = uv__handle_start a (s\<lparr>kern := k, sig_tree := t, sig_num := (sig_num s)(a := n), sig_cb := (sig_cb s)(a := cb)\<rparr>)"
  show ?thesis unfolding s' using a d t cb by (simp add: sig_user_op_def)
qed

lemma signal_start_op:
  assumes run: "uv_signal_start K a cb n s = Some (r, s')" and tree: "sig_num s a \<noteq> 0 \<longleftrightarrow> a \<in> set (sig_tree s)"
    and d: "distinct (sig_tree s)" and cb: "cb \<noteq> None" "sig_num s a \<noteq> 0 \<longrightarrow> sig_cb s a \<noteq> None"
  shows "sig_user_op a s s'"
proof -
  have op: "\<not> uv__is_closing s a" using run by (auto simp: uv_signal_start_def split: if_splits)
  consider (refused) "n = 0" | (same) "n \<noteq> 0" "n = sig_num s a" | (new) "n \<noteq> 0" "n \<noteq> sig_num s a" by blast
  then show ?thesis
  proof cases
    case refused
    then have s': "s' = s" using run op by (simp add: uv_signal_start_def)
    show ?thesis unfolding s' using tree d cb by (simp add: sig_user_op_def)
  next
    case same
    then have s': "s' = s\<lparr>sig_cb := (sig_cb s)(a := cb)\<rparr>" using run op by (simp add: uv_signal_start_def)
    show ?thesis unfolding s' using tree d cb by (simp add: sig_user_op_def)
  next
    case new
    then obtain s1 where s1: "(if sig_num s a \<noteq> 0 then uv__signal_stop K a s else Some s) = Some s1"
        "signal_watch K a cb n s1 = Some (r, s')"
      using run op by (auto simp: uv_signal_start_def bind_eq_Some_conv cong: if_cong)
    have "sig_user_op a s s1 \<and> sig_num s1 a = 0"
    proof (cases "sig_num s a = 0")
      case True
      then have e: "s1 = s" using s1(1) by simp
      show ?thesis unfolding e using True tree d by (simp add: sig_user_op_def)
    next
      case False
      then show ?thesis using s1(1) signal_stop_op [OF _ tree d] by simp
    qed
    moreover have "a \<notin> set (sig_tree s1)" "distinct (sig_tree s1)"
      using calculation unfolding sig_user_op_def by blast+
    moreover have "sig_user_op a s1 s'"
      using calculation new(1) cb(1) by (intro signal_watch_op [OF s1(2)]) simp_all
    ultimately show ?thesis using sig_user_op_trans by blast
  qed
qed

lemma close_inv:
  assumes inv: "sig_inv_with s ms cs fs" and a: "a \<in> set (handle_queue s)" "\<not> has_flag (hflags s a) UV_CLOSING"
    and run: "uv__signal_close K a (set_flags a (add_flag (hflags s a) UV_CLOSING) (s\<lparr>close_cb := (close_cb s)(a := cb)\<rparr>)) = Some s'"
  shows "\<exists>cs'. sig_inv_with s' ms cs' fs"
proof -
  let ?s0 = "set_flags a (add_flag (hflags s a) UV_CLOSING) (s\<lparr>close_cb := (close_cb s)(a := cb)\<rparr>)"
  let ?u = "under_way ms (sg_todo s) (sg_busy s)"
  have ok: "sig_handle_ok s ms (cs @ fs) b" if "b \<in> set (handle_queue s)" for b using inv that by (simp add: sig_inv_with_def)
  have h0: "hflags (s\<lparr>close_cb := f\<rparr>) = hflags s" for f by (simp add: hflags_def fun_eq_iff)
  have f0: "handle_queue ?s0 = handle_queue s" "closing_handles ?s0 = closing_handles s" "sig_pipe ?s0 = sig_pipe s"
      "sig_self ?s0 = sig_self s" "sig_owner ?s0 = sig_owner s" "sig_caught ?s0 = sig_caught s" "sig_tree ?s0 = sig_tree s"
      "sig_dispatched ?s0 = sig_dispatched s" "sg_todo ?s0 = sg_todo s" "sg_busy ?s0 = sg_busy s" "sg_closing ?s0 = sg_closing s"
      "sig_num ?s0 = sig_num s" "sig_cb ?s0 = sig_cb s"
      "next_closing (handles ?s0 b) = next_closing (handles s b)" "htype (handles ?s0 b) = htype (handles s b)"
      "has_flag (hflags ?s0 b) UV_CLOSING \<longleftrightarrow> b = a \<or> has_flag (hflags s b) UV_CLOSING"
      "has_flag (hflags ?s0 b) UV_CLOSED \<longleftrightarrow> has_flag (hflags s b) UV_CLOSED" for b
    by (simp_all add: h0)
  obtain s1 where s1: "uv__signal_stop K a ?s0 = Some s1"
      "(if sig_caught s1 a = sig_dispatched s1 a then uv__make_close_pending a s1 else Some s1) = Some s'"
    using run by (auto simp: uv__signal_close_def bind_eq_Some_conv)
  have tree: "sig_num ?s0 a \<noteq> 0 \<longleftrightarrow> a \<in> set (sig_tree ?s0)" using ok [OF a(1)] by (simp add: sig_handle_ok_def)
  have dt: "distinct (sig_tree ?s0)" using inv by (simp add: sig_inv_with_def)
  have o: "sig_user_op a ?s0 s1" and n0: "sig_num s1 a = 0" using signal_stop_op [OF s1(1) tree dt] by simp_all
  note o = o [unfolded sig_user_op_def f0]
  have bound: "?u a \<le> 4129" using under_way_bound inv unfolding sig_inv_with_def by blast
  have z: "sig_caught s1 a = sig_dispatched s1 a \<longleftrightarrow> ?u a = 0"
    using o ok [OF a(1)] of_nat_eq_0_bound [OF bound] by (simp add: sig_handle_ok_def)
  have na: "a \<notin> set (cs @ fs)" using ok [OF a(1)] a(2) by (simp add: sig_handle_ok_def)
  have nt: "a \<notin> set (sig_tree s1)" using o n0 by blast
  have okM: "sig_handle_ok M ms cs' b"
    if b: "b \<in> set (handle_queue s)" and M: "M = s1\<lparr>handles := h, closing_handles := p\<rparr>"
      and h: "\<forall>c. flags (h c) = flags (handles s1 c) \<and> htype (h c) = htype (handles s1 c)"
      and cs': "\<And>c. c \<noteq> a \<Longrightarrow> c \<in> set cs' \<longleftrightarrow> c \<in> set (cs @ fs)" and ca: "a \<in> set cs' \<longleftrightarrow> ?u a = 0" for M h p cs' b
  proof -
    have f: "hflags M d = hflags s1 d" for d using M h by (simp add: hflags_def)
    have g: "sig_owner M = sig_owner s" "sig_self M = sig_self s" "htype (handles M b) = htype (handles s b)"
        "sig_caught M = sig_caught s" "sig_dispatched M = sig_dispatched s" "sg_todo M = sg_todo s" "sg_busy M = sg_busy s"
        "sig_num M = sig_num s1" "sig_cb M = sig_cb s1" "sig_tree M = sig_tree s1"
      using o h by (simp_all add: M)
    show ?thesis
    proof (cases "b = a")
      case True
      then show ?thesis using ok [OF b] ca n0 nt o unfolding sig_handle_ok_def f g by simp
    next
      case False
      then show ?thesis using ok [OF b] cs' [OF False] o unfolding sig_handle_ok_def f g by (auto; fail)
    qed
  qed
  have tr: "\<forall>b \<in> set (sig_tree s1). sig_num s1 b \<noteq> 0 \<and> (sig_owner s b = sig_self s \<longrightarrow> b \<in> set (handle_queue s))"
  proof
    fix b assume b: "b \<in> set (sig_tree s1)"
    then have "b \<noteq> a" using nt by blast
    then have "b \<in> set (sig_tree s)" "sig_num s1 b = sig_num s b" using b o by simp_all
    then show "sig_num s1 b \<noteq> 0 \<and> (sig_owner s b = sig_self s \<longrightarrow> b \<in> set (handle_queue s))"
      using inv by (simp add: sig_inv_with_def)
  qed
  have eqs: "sig_pipe s1 = sig_pipe s" "sig_self s1 = sig_self s" "handle_queue s1 = handle_queue s"
      "closing_handles s1 = closing_handles s" "sg_todo s1 = sg_todo s" "sg_busy s1 = sg_busy s" "sg_closing s1 = sg_closing s"
      "distinct (sig_tree s1)" "sig_owner s1 = sig_owner s" "\<forall>b. next_closing (handles s1 b) = next_closing (handles s b)"
    using o by simp_all
  have ch1: "closing_chain (handles s1) p xs = closing_chain (handles s) p xs" for p xs
    by (rule closing_chain_cong) (simp add: eqs)
  show ?thesis
  proof (cases "?u a = 0")
    case True
    let ?h = "(handles s1)(a := (handles s1 a)\<lparr>next_closing := closing_handles s1\<rparr>)"
    have s': "s' = s1\<lparr>handles := ?h, closing_handles := Some a\<rparr>"
      using s1(2) True z by (simp add: uv__make_close_pending_def split: if_splits)
    have ch: "closing_chain ?h p xs = closing_chain (handles s1) p xs" if "set xs \<subseteq> set (cs @ fs)" for p xs
      by (rule closing_chain_cong) (use na that in auto)
    have "sig_handle_ok s' ms ((a # cs) @ fs) b" if "b \<in> set (handle_queue s)" for b
      by (rule okM [OF that s']) (use True in auto)
    then have "sig_inv_with s' ms (a # cs) fs"
      using inv na a(1) tr eqs ch [of cs] ch [of fs] ch1 unfolding sig_inv_with_def by (simp add: s')
    then show ?thesis by blast
  next
    case False
    have "s' = s1" using s1(2) False z by simp
    then have s': "s' = s1\<lparr>handles := handles s1, closing_handles := closing_handles s1\<rparr>" by simp
    have "sig_handle_ok s' ms (cs @ fs) b" if "b \<in> set (handle_queue s)" for b
      by (rule okM [OF that s']) (use False na in auto)
    then have "sig_inv_with s' ms cs fs"
      using inv tr eqs ch1 unfolding sig_inv_with_def by (simp add: s')
    then show ?thesis by blast
  qed
qed

lemma under_way_none:
  "\<forall>m \<in> set (ms @ todo). msg_handle m \<noteq> a \<Longrightarrow> b \<noteq> Some a \<Longrightarrow> under_way ms todo b a = 0"
  by (auto simp: under_way_def filter_empty_conv)

lemma signal_init_inv:
  assumes inv: "sig_inv_with s ms cs fs" and a: "a \<notin> set (handle_queue s)" "a \<notin> set (sig_tree s)"
    and fd: "fst (sig_fds s) \<noteq> - 1" and run: "uv_signal_init K ok a s = Some (0, s')"
  shows "sig_inv_with s' ms cs fs"
proof -
  have s': "s' = (uv__handle_init a UV_SIGNAL (s\<lparr>sig_owner := (sig_owner s)(a := sig_self s)\<rparr>))
      \<lparr>sig_num := (sig_num s)(a := 0), sig_caught := (sig_caught s)(a := 0), sig_dispatched := (sig_dispatched s)(a := 0)\<rparr>"
    using run fd by (simp add: uv_signal_init_def uv__signal_loop_once_init_def uv__handle_init_def Let_def)
  have f: "handle_queue s' = handle_queue s @ [a]" "sig_tree s' = sig_tree s" "closing_handles s' = closing_handles s"
      "sig_pipe s' = sig_pipe s" "sig_self s' = sig_self s" "sg_todo s' = sg_todo s" "sg_busy s' = sg_busy s" "sg_closing s' = sg_closing s"
      "sig_owner s' = (sig_owner s)(a := sig_self s)" "sig_num s' = (sig_num s)(a := 0)"
      "sig_caught s' = (sig_caught s)(a := 0)" "sig_dispatched s' = (sig_dispatched s)(a := 0)" "sig_cb s' = sig_cb s"
      "b \<noteq> a \<Longrightarrow> handles s' b = handles s b" "b \<noteq> a \<Longrightarrow> hflags s' b = hflags s b"
      "htype (handles s' a) = UV_SIGNAL" "hflags s' a = UV__HANDLE_REF" for b
    by (simp_all add: s' uv__handle_init_def hflags_def)
  have u0: "under_way ms (sg_todo s) (sg_busy s) a = 0"
    using inv a(1) by (intro under_way_none) (auto simp: sig_inv_with_def)
  have na: "a \<notin> set (cs @ fs)" using inv a(1) by (auto simp: sig_inv_with_def)
  have ok: "sig_handle_ok s' ms (cs @ fs) b" if "b \<in> set (handle_queue s')" for b
  proof (cases "b = a")
    case True
    then show ?thesis using u0 na a(2) unfolding sig_handle_ok_def f(1-13) by (simp add: f(16,17))
  next
    case False
    then have "sig_handle_ok s ms (cs @ fs) b" using inv that by (simp add: sig_inv_with_def f)
    then show ?thesis using False unfolding sig_handle_ok_def f(1-13) by (simp add: f)
  qed
  have ch: "closing_chain (handles s') p xs = closing_chain (handles s) p xs" if "set xs \<subseteq> set (cs @ fs)" for p xs
  proof (rule closing_chain_cong)
    fix b assume "b \<in> set xs"
    then have "b \<noteq> a" using na that by blast
    then show "next_closing (handles s' b) = next_closing (handles s b)" by (simp add: f(14))
  qed
  show ?thesis
    using inv a ok ch [of cs] ch [of fs] unfolding sig_inv_with_def f(1-13) by auto
qed

lemma closing_inv_step:
  assumes inv: "sig_inv_with s ms cs fs" and n: "sg_closing s = None"
  shows "sig_inv_with (s\<lparr>sg_closing := closing_handles s, closing_handles := None\<rparr>) ms [] cs"
proof -
  have fs: "fs = []" using inv n by (cases fs) (simp_all add: sig_inv_with_def)
  let ?s' = "s\<lparr>sg_closing := closing_handles s, closing_handles := None\<rparr>"
  have "sig_handle_ok ?s' ms ([] @ cs) a = sig_handle_ok s ms (cs @ fs) a" for a
    unfolding sig_handle_ok_def by (simp add: fs hflags_def)
  then show ?thesis using inv unfolding sig_inv_with_def by (simp add: fs)
qed

lemma finish_inv:
  assumes inv: "sig_inv_with s ms cs fs" and p: "sg_closing s = Some a"
    and run: "uv__finish_close (\<lambda>ty a L. None) (\<lambda>cb a. Some) a s = Some s'"
  shows "\<exists>fs'. sig_inv_with (s'\<lparr>sg_closing := next_closing (handles s a)\<rparr>) ms cs fs'"
proof -
  obtain fs' where fs: "fs = a # fs'" using inv p by (cases fs) (auto simp: sig_inv_with_def)
  have aq: "a \<in> set (handle_queue s)" using inv fs by (simp add: sig_inv_with_def)
  have ok: "sig_handle_ok s ms (cs @ fs) b" if "b \<in> set (handle_queue s)" for b using inv that by (simp add: sig_inv_with_def)
  have oa: "htype (handles s a) = UV_SIGNAL" "has_flag (hflags s a) UV_CLOSING" "\<not> has_flag (hflags s a) UV_CLOSED"
      "under_way ms (sg_todo s) (sg_busy s) a = 0" "sig_num s a = 0"
    using ok [OF aq] fs by (auto simp: sig_handle_ok_def)
  let ?U = "uv__handle_unref a (set_flags a (add_flag (hflags s a) UV_CLOSED) s)"
  have s': "s' = ?U\<lparr>handle_queue := removeAll a (handle_queue s)\<rparr>"
    using run oa by (simp add: uv__finish_close_def finish_type_def Let_def split: option.splits)
  let ?s' = "s'\<lparr>sg_closing := next_closing (handles s a)\<rparr>"
  have f: "handle_queue ?s' = removeAll a (handle_queue s)" "sig_tree ?s' = sig_tree s" "closing_handles ?s' = closing_handles s"
      "sig_pipe ?s' = sig_pipe s" "sig_self ?s' = sig_self s" "sg_todo ?s' = sg_todo s" "sg_busy ?s' = sg_busy s"
      "sg_closing ?s' = next_closing (handles s a)" "sig_owner ?s' = sig_owner s" "sig_num ?s' = sig_num s"
      "sig_caught ?s' = sig_caught s" "sig_dispatched ?s' = sig_dispatched s" "sig_cb ?s' = sig_cb s"
      "next_closing (handles ?s' b) = next_closing (handles s b)" "htype (handles ?s' b) = htype (handles s b)" for b
    by (simp_all add: s' handle_ops_defs set_flags_def hflags_def)
  have fl: "b \<noteq> a \<Longrightarrow> has_flag (hflags ?s' b) UV_CLOSING = has_flag (hflags s b) UV_CLOSING"
      "b \<noteq> a \<Longrightarrow> has_flag (hflags ?s' b) UV_CLOSED = has_flag (hflags s b) UV_CLOSED" for b
    by (simp_all add: s' handle_ops_defs set_flags_def hflags_def)
  have d: "distinct (cs @ fs') \<and> a \<notin> set (cs @ fs') \<and> set (cs @ fs') \<subseteq> set (handle_queue s)"
    using inv fs by (auto simp: sig_inv_with_def)
  have okf: "sig_handle_ok ?s' ms (cs @ fs') b" if b: "b \<in> set (handle_queue ?s')" for b
  proof -
    have "b \<noteq> a" "b \<in> set (handle_queue s)" using b f(1) by auto
    then show ?thesis using ok [of b] fs fl [of b] unfolding sig_handle_ok_def f by simp
  qed
  have ch: "closing_chain (handles ?s') q xs = closing_chain (handles s) q xs" for q xs
    by (rule closing_chain_cong) (simp only: f)
  have ms: "msg_handle m \<noteq> a" if "m \<in> set (ms @ sg_todo s)" for m
    using oa(4) that by (auto simp: under_way_def filter_empty_conv)
  have bz: "sg_busy s \<noteq> Some a" using oa(4) by (auto simp: under_way_def split: if_splits)
  have nt: "a \<notin> set (sig_tree s)" using ok [OF aq] oa(5) by (simp add: sig_handle_ok_def)
  have "sig_inv_with ?s' ms cs fs'"
    using inv fs okf d ms bz nt unfolding sig_inv_with_def ch f by (auto simp: distinct_removeAll)
  then show ?thesis by blast
qed

lemma sig_step_inv:
  assumes "sig_step K s s'" and "\<exists>ms cs fs. sig_inv_with s ms cs fs"
  shows "\<exists>ms cs fs. sig_inv_with s' ms cs fs"
proof -
  obtain ms cs fs where inv: "sig_inv_with s ms cs fs" using assms(2) by blast
  have owned: "a \<in> set (handle_queue s) \<and> \<not> has_flag (hflags s a) UV_CLOSING" if "sig_owned s a" for a
    using that unfolding sig_owned_def uv__is_closing_def has_flag_or_mask by simp
  have hok: "sig_handle_ok s ms (cs @ fs) a" if "a \<in> set (handle_queue s)" for a using inv that by (simp add: sig_inv_with_def)
  have dt: "distinct (sig_tree s)" using inv by (simp add: sig_inv_with_def)
  show ?thesis
    using assms(1)
  proof cases
    case (caught n) then show ?thesis using caught_inv [OF inv] by blast
  next
    case (fetch ms1 rest) then show ?thesis using fetch_inv [OF inv] by blast
  next
    case (look m todo M) then show ?thesis using look_inv [OF inv] by blast
  next
    case (handled a M) then show ?thesis using handled_inv [OF inv] by blast
  next
    case (init a ok) then show ?thesis using signal_init_inv [OF inv] by blast
  next
    case (start a cb n r)
    then have "sig_user_op a s s'"
      using hok owned [OF start(1)] dt by (intro signal_start_op [OF start(3)]) (simp_all add: sig_handle_ok_def)
    then show ?thesis using user_op_inv [OF inv] owned [OF start(1)] by blast
  next
    case (stop a r)
    then have "uv__signal_stop K a s = Some s'" by (auto simp: uv_signal_stop_def bind_eq_Some_conv split: if_splits)
    then have "sig_user_op a s s'"
      using signal_stop_op [of K a s s'] hok owned [OF stop(1)] dt by (simp add: sig_handle_ok_def)
    then show ?thesis using user_op_inv [OF inv] owned [OF stop(1)] by blast
  next
    case (close a cb) then show ?thesis using close_inv [OF inv] owned [OF close(1)] by blast
  next
    case closing then show ?thesis using closing_inv_step [OF inv] by blast
  next
    case (finish a M) then show ?thesis using finish_inv [OF inv] by blast
  qed
qed

lemma sig_reach_inv: "sig_reach K s0 s \<Longrightarrow> sig_fresh s0 \<Longrightarrow> \<exists>ms cs fs. sig_inv_with s ms cs fs"
  by (induction rule: sig_reach.induct) (use sig_fresh_inv sig_step_inv in blast)+

section \<open>Properties\<close>

text \<open>C9: whenever signals arrive and whatever the user does with his handles in between, also from
  callbacks: every message in the pipe, in the loop's hands or being handled is for a handle that is
  still there, so closing a handle never leaves a message that points to freed memory; the assertions
  of \<open>uv__signal_event\<close> hold; and a handle that is being closed waits in the chain of the loop
  exactly when no message for it is left.\<close>

theorem signal_messages_find_their_handle:
  assumes "sig_fresh s0" and "sig_reach K s0 s"
  shows "\<exists>ms cs fs. sig_pipe s (sig_self s) = concat (map msg_bytes ms) \<and>
     closing_chain (handles s) (closing_handles s) cs \<and> closing_chain (handles s) (sg_closing s) fs \<and> distinct (cs @ fs) \<and>
     (\<forall>a \<in> msg_handle ` set (ms @ sg_todo s) \<union> set_option (sg_busy s) \<union> set (cs @ fs).
        a \<in> set (handle_queue s) \<and> \<not> has_flag (hflags s a) UV_CLOSED) \<and>
     (\<forall>m todo. sg_busy s = None \<longrightarrow> sg_todo s = m # todo \<longrightarrow> signal_msg_call (\<lambda>cb a n. Some) m s = Some s) \<and>
     (\<forall>a. sg_busy s = Some a \<longrightarrow> signal_msg_done a s \<noteq> None) \<and>
     (\<forall>a \<in> set (handle_queue s). has_flag (hflags s a) UV_CLOSING \<longrightarrow>
        (a \<in> set (cs @ fs) \<longleftrightarrow> a \<notin> msg_handle ` set (ms @ sg_todo s) \<union> set_option (sg_busy s)))"
proof -
  obtain ms cs fs where inv: "sig_inv_with s ms cs fs" using sig_reach_inv [OF assms(2,1)] by blast
  have ok: "sig_handle_ok s ms (cs @ fs) a" if "a \<in> set (handle_queue s)" for a using inv that by (simp add: sig_inv_with_def)
  have nc: "\<not> has_flag (hflags s a) UV_CLOSED" if "a \<in> set (handle_queue s)" for a using ok [OF that] by (simp add: sig_handle_ok_def)
  have q: "msg_handle m \<in> set (handle_queue s) \<and> msg_signum m \<noteq> 0" if "m \<in> set (ms @ sg_todo s)" for m
    using inv that by (auto simp: sig_inv_with_def)
  have b: "a \<in> set (handle_queue s)" if "sg_busy s = Some a" for a using inv that by (simp add: sig_inv_with_def)
  have c: "set (cs @ fs) \<subseteq> set (handle_queue s)" using inv by (simp add: sig_inv_with_def)
  have look: "signal_msg_call (\<lambda>cb a n. Some) m s = Some s" if t: "sg_todo s = m # todo" for m todo
  proof -
    have m: "msg_handle m \<in> set (handle_queue s)" "msg_signum m \<noteq> 0" using q [of m] t by simp_all
    then show ?thesis using ok [OF m(1)] by (auto simp: signal_msg_call_def Let_def sig_handle_ok_def)
  qed
  have dn: "signal_msg_done a s \<noteq> None" if "sg_busy s = Some a" for a
    using nc [OF b [OF that]] by (simp add: signal_msg_done_def Let_def uv__make_close_pending_def hflags_def)
  have wait: "a \<in> set (cs @ fs) \<longleftrightarrow> a \<notin> msg_handle ` set (ms @ sg_todo s) \<union> set_option (sg_busy s)"
    if a: "a \<in> set (handle_queue s)" "has_flag (hflags s a) UV_CLOSING" for a
    using ok [OF a(1)] a(2) by (auto simp: sig_handle_ok_def under_way_def filter_empty_conv image_iff)
  show ?thesis
  proof (intro exI conjI)
    show "sig_pipe s (sig_self s) = concat (map msg_bytes ms)" "closing_chain (handles s) (closing_handles s) cs"
        "closing_chain (handles s) (sg_closing s) fs" "distinct (cs @ fs)" using inv by (simp_all add: sig_inv_with_def)
    show "\<forall>a \<in> msg_handle ` set (ms @ sg_todo s) \<union> set_option (sg_busy s) \<union> set (cs @ fs).
        a \<in> set (handle_queue s) \<and> \<not> has_flag (hflags s a) UV_CLOSED" using q b c nc by auto
  qed (use look dn wait in blast)+
qed

lemma decode_inside: "0 < r \<Longrightarrow> decode_msg ((m, r) # xs) = None"
  by (simp add: decode_msg_def msg_bytes_def upt_rec)

lemma signal_event_fault:
  assumes "sig_pipe L (sig_self L) = p" and "sys_sigread K SIGNAL_BUF (length p) (kern L) = (int r, k)"
    and "\<And>M. signal_msgs call (pieces (take ((length (take r p) div MSG_SIZE) * MSG_SIZE) (take r p))) M = None"
  shows "uv__signal_event K call L = None"
  unfolding uv__signal_event_def using assms by (subst signal_event_loop.simps) (simp add: Let_def)

text \<open>C34: a message that is read in two pieces is lost, and so are all that follow: the code means to keep
  the first piece in the buffer and read on, but a \<open>continue\<close> in a \<open>do\<close> loop goes to its condition,
  which ends the loop.  The next bytes are then taken for a message that starts in the middle.\<close>

theorem signal_partial_read_lost:
  assumes pipe: "sig_pipe L (sig_self L) = msg_bytes m @ rest" and r: "0 < r" "r < MSG_SIZE"
    and read: "sys_sigread K SIGNAL_BUF (length (msg_bytes m @ rest)) (kern L) = (int r, k)"
    and again: "sys_sigread K SIGNAL_BUF (length (msg_bytes m @ rest) - r) k = (int r2, k2)" "MSG_SIZE \<le> r2" "r2 \<le> length (msg_bytes m @ rest) - r"
  shows "\<exists>L'. uv__signal_event K call L = Some L' \<and> L' = L\<lparr>kern := k, sig_pipe := (sig_pipe L)(sig_self L := drop r (msg_bytes m @ rest))\<rparr> \<and>
     uv__signal_event K call L' = None"
proof -
  let ?p = "msg_bytes m @ rest"
  let ?L' = "L\<lparr>kern := k, sig_pipe := (sig_pipe L)(sig_self L := drop r ?p)\<rparr>"
  have len: "length (take r ?p) = r" using r by simp
  have first: "uv__signal_event K call L = Some ?L'"
    unfolding uv__signal_event_def using r(2) read len
    by (subst signal_event_loop.simps) (simp add: pipe Let_def pieces_def)
  define b where "b = take r2 (drop r ?p)"
  let ?t = "take ((r2 div MSG_SIZE) * MSG_SIZE) b"
  have l2: "length b = r2" "MSG_SIZE \<le> (r2 div MSG_SIZE) * MSG_SIZE" using again(2,3) by (auto simp: b_def)
  have "(r2 div MSG_SIZE) * MSG_SIZE \<le> r2" by (rule div_times_less_eq_dividend)
  then have lt: "length ?t = (r2 div MSG_SIZE) * MSG_SIZE" by (simp add: l2(1))
  have "length ?t div MSG_SIZE = Suc (length ?t div MSG_SIZE - 1)" using l2(2) lt by simp
  then obtain n where "length ?t div MSG_SIZE = Suc n" by blast
  then have ps: "pieces ?t = take MSG_SIZE ?t # map (\<lambda>i. take MSG_SIZE (drop (i * MSG_SIZE) ?t)) [1 ..< Suc n]"
    unfolding pieces_def by (simp add: upt_conv_Cons del: upt_Suc)
  have hd: "take MSG_SIZE ?t = (m, r) # tl (take MSG_SIZE ?t)"
  proof -
    have "drop r ?p = (m, r) # drop (Suc r) ?p"
      using r(2) Cons_nth_drop_Suc [of r ?p] by (simp add: nth_append msg_bytes_def)
    then show ?thesis using l2(2) again(2) by (cases r2) (auto simp: b_def take_Cons' split: if_splits)
  qed
  have "decode_msg (take MSG_SIZE ?t) = None"
    using arg_cong [OF hd, of decode_msg] decode_inside [OF r(1)] by simp
  then have "signal_msgs call (pieces ?t) M = None" for M by (simp add: ps)
  then have "uv__signal_event K call ?L' = None"
  proof (intro signal_event_fault [where p = "drop r ?p" and r = r2 and k = k2])
    show "sys_sigread K SIGNAL_BUF (length (drop r ?p)) (kern ?L') = (int r2, k2)" using again(1) by (simp only: length_drop) simp
    show "signal_msgs call (pieces (take (length (take r2 (drop r ?p)) div MSG_SIZE * MSG_SIZE) (take r2 (drop r ?p)))) M = None"
      if "\<And>M. signal_msgs call (pieces ?t) M = None" for M
      using that by (simp only: b_def [symmetric] l2(1))
  qed simp
  then show ?thesis using first by blast
qed

text \<open>A kernel where every call succeeds, and a run on it: handle 5 is started for signal 2, the signal is
  caught, and the handle is closed before the loop has read the message.\<close>

definition sample_ssys :: "skernel ssyscalls" where
  "sample_ssys = usyscalls.extend (asyscalls.extend (syscalls.extend sample_sys
       (asyscalls.fields (\<lambda>k. (3, k)) (\<lambda>k. (3, k)) (\<lambda>k. ((0, 3, 4), k)) (\<lambda>k. ((0, 3, 4), k)) (\<lambda>fd k. k)
          (\<lambda>fd k. (5, k)) (\<lambda>fd k. k) (\<lambda>fd n k. (0, k)) (\<lambda>fd n k. (int n, k))))
       (usyscalls.fields (\<lambda>fd b k. (0, k)) (\<lambda>fd k. (Inr 0, k)) (\<lambda>fd fl k. (0, k))))
     (ssyscalls.fields (\<lambda>b k. (1, k)) (\<lambda>b k. (0, k)) (\<lambda>n b k. (0, k)) (\<lambda>l k. (16, k)) (\<lambda>room n k. (int (min room n), k)))"

definition sample_sigsys :: "skernel sigsys" where
  "sample_sigsys = sloop.extend (cloop.extend (uloop.extend
       (sample_uloop\<lparr>handle_queue := []\<rparr>) (cloop.fields (\<lambda>_. None)))
       (sloop.fields 1 [] (\<lambda>_. 0) (\<lambda>_. 1) (\<lambda>_. 0) (\<lambda>_. 0) (\<lambda>_. None) (\<lambda>_. []) (3, 4) (5, 6) True))
     (sigsys.fields [] None None)"

lemmas sample_signal_defs = sample_sigsys_def sample_poll_defs cloop.defs sloop.defs sigsys.defs

lemma sample_ssys_sel [simp]:
  "sys_lockpipe sample_ssys b k = (1, k)" "sys_blocksigs sample_ssys b k = (0, k)" "sys_sigaction sample_ssys n b k = (0, k)"
  "sys_sigwrite sample_ssys l k = (16, k)" "sys_sigread sample_ssys room len k = (int (min room len), k)"
  by (simp_all add: sample_ssys_def sample_sys_def syscalls.defs asyscalls.defs usyscalls.defs ssyscalls.defs)

lemma sample_lock [simp]:
  "lockpipe_loop sample_ssys b L = Some (0, L)" "uv__signal_block_and_lock sample_ssys L = Some L"
  "uv__signal_unlock_and_unblock sample_ssys L = Some L"
proof -
  show l: "lockpipe_loop sample_ssys b L = Some (0, L)" for b by (subst lockpipe_loop.simps) simp
  then show "uv__signal_block_and_lock sample_ssys L = Some L" "uv__signal_unlock_and_unblock sample_ssys L = Some L"
    by (simp_all add: uv__signal_block_and_lock_def uv__signal_unlock_and_unblock_def uv__signal_lock_def uv__signal_unlock_def)
qed

definition sample_sig1 :: "skernel sigsys" where
  "sample_sig1 = snd (the (uv_signal_init sample_ssys (\<lambda>_. True) 5 sample_sigsys))"

definition sample_sig2 :: "skernel sigsys" where
  "sample_sig2 = uv__handle_start 5 (sample_sig1\<lparr>sig_num := (sig_num sample_sig1)(5 := 2), sig_tree := [5],
     sig_cb := (sig_cb sample_sig1)(5 := Some 9)\<rparr>)"

definition sample_sig3 :: "skernel sigsys" where
  "sample_sig3 = sample_sig2\<lparr>sig_pipe := (sig_pipe sample_sig2)(1 := msg_bytes \<lparr>msg_handle = 5, msg_signum = 2\<rparr>),
     sig_caught := (sig_caught sample_sig2)(5 := 1)\<rparr>"

definition sample_sig4 :: "skernel sigsys" where
  "sample_sig4 = the (uv__signal_close sample_ssys 5 (set_flags 5 (add_flag (hflags sample_sig3 5) UV_CLOSING)
     (sample_sig3\<lparr>close_cb := (close_cb sample_sig3)(5 := Some 8)\<rparr>)))"

lemma sample_sig_reach:
  "sig_reach sample_ssys sample_sigsys sample_sig4"
  "sig_self sample_sig4 = 1" "sig_pipe sample_sig4 1 = msg_bytes \<lparr>msg_handle = 5, msg_signum = 2\<rparr>"
proof -
  have f0: "sig_num sample_sigsys a = 0" "sig_owner sample_sigsys a = 1" "sig_tree sample_sigsys = []" "sig_self sample_sigsys = 1"
      "handle_queue sample_sigsys = []" "sig_fds sample_sigsys = (3, 4)" "sig_pipe sample_sigsys = (\<lambda>_. [])"
      "sig_caught sample_sigsys a = 0" "sig_dispatched sample_sigsys a = 0" for a
    by (simp_all add: sample_signal_defs)
  have i: "uv_signal_init sample_ssys (\<lambda>_. True) 5 sample_sigsys = Some (0, sample_sig1)"
    by (simp add: sample_sig1_def uv_signal_init_def uv__signal_loop_once_init_def f0 Let_def)
  have f1: "sig_num sample_sig1 a = 0" "sig_owner sample_sig1 a = 1" "sig_tree sample_sig1 = []" "sig_self sample_sig1 = 1"
      "handle_queue sample_sig1 = [5]" "sig_pipe sample_sig1 = (\<lambda>_. [])" "\<not> uv__is_closing sample_sig1 5"
      "sig_caught sample_sig1 a = 0" "sig_dispatched sample_sig1 a = 0" "hflags sample_sig1 5 = UV__HANDLE_REF" for a
    by (simp_all add: sample_sig1_def uv_signal_init_def uv__signal_loop_once_init_def f0 Let_def uv__handle_init_def
        uv__is_closing_def hflags_def)
  have r1: "sig_reach sample_ssys sample_sigsys sample_sig1"
    by (rule sig_reach.step [OF sig_reach.start], rule init [OF _ _ _ i]) (simp_all add: f0)
  have "signal_watch sample_ssys 5 (Some 9) 2 sample_sig1 = Some (0, sample_sig2)"
    by (simp add: signal_watch_def uv__signal_first_handle_def rb_nfind_def uv__signal_register_handler_def rb_insert_def
        f1 Let_def sample_sig2_def)
  then have s: "uv_signal_start sample_ssys 5 (Some 9) 2 sample_sig1 = Some (0, sample_sig2)"
    by (simp add: uv_signal_start_def f1)
  have r2: "sig_reach sample_ssys sample_sigsys sample_sig2"
    by (rule sig_reach.step [OF r1], rule sig_step.start [OF _ _ s]) (simp_all add: sig_owned_def f1)
  have f2: "sig_num sample_sig2 5 = 2" "sig_owner sample_sig2 5 = 1" "sig_tree sample_sig2 = [5]" "sig_pipe sample_sig2 = (\<lambda>_. [])"
      "handle_queue sample_sig2 = [5]" "sig_caught sample_sig2 5 = 0" "sig_self sample_sig2 = 1" "\<not> uv__is_closing sample_sig2 5"
    by (simp_all add: sample_sig2_def f1) (simp add: uv__is_closing_def f1)
  have w: "signal_write sample_ssys \<lparr>msg_handle = 5, msg_signum = 2\<rparr> sample_sig2 =
      Some (16, sample_sig2\<lparr>sig_pipe := (sig_pipe sample_sig2)(1 := msg_bytes \<lparr>msg_handle = 5, msg_signum = 2\<rparr>)\<rparr>)"
    by (subst signal_write.simps) (simp add: f2)
  have c: "uv__signal_handler sample_ssys 2 sample_sig2 = Some sample_sig3"
    by (simp add: uv__signal_handler_def uv__signal_lock_def uv__signal_unlock_def uv__signal_first_handle_def rb_nfind_def
        uv__signal_compare_def signal_key_def f2 w sample_sig3_def)
  have r3: "sig_reach sample_ssys sample_sigsys sample_sig3"
    by (rule sig_reach.step [OF r2], rule caught [OF c]) (simp_all add: sample_sig3_def f2)
  let ?c = "set_flags 5 (add_flag (hflags sample_sig3 5) UV_CLOSING) (sample_sig3\<lparr>close_cb := (close_cb sample_sig3)(5 := Some 8)\<rparr>)"
  have f3: "sig_num sample_sig3 5 = 2" "sig_tree sample_sig3 = [5]" "sig_caught sample_sig3 5 = 1" "sig_dispatched sample_sig3 5 = 0"
      "handle_queue sample_sig3 = [5]" "\<not> uv__is_closing sample_sig3 5"
    using f2(8) by (simp_all add: sample_sig3_def f2 uv__is_closing_def hflags_def) (simp add: sample_sig2_def f1)
  have "uv__signal_stop sample_ssys 5 ?c =
      Some (uv__handle_stop 5 (?c\<lparr>sig_tree := [], sig_num := (sig_num sample_sig3)(5 := 0)\<rparr>))"
    by (simp add: uv__signal_stop_def f3 rb_remove_def uv__signal_first_handle_def rb_nfind_def uv__signal_unregister_handler_def Let_def)
  then have c: "uv__signal_close sample_ssys 5 ?c =
      Some (uv__handle_stop 5 (?c\<lparr>sig_tree := [], sig_num := (sig_num sample_sig3)(5 := 0)\<rparr>))"
    by (simp add: uv__signal_close_def f3)
  then have e: "sample_sig4 = uv__handle_stop 5 (?c\<lparr>sig_tree := [], sig_num := (sig_num sample_sig3)(5 := 0)\<rparr>)"
    by (simp add: sample_sig4_def)
  show "sig_reach sample_ssys sample_sigsys sample_sig4"
    by (rule sig_reach.step [OF r3 sig_step.close [rotated]], unfold e, rule c) (simp add: sig_owned_def f3)
  show "sig_self sample_sig4 = 1" "sig_pipe sample_sig4 1 = msg_bytes \<lparr>msg_handle = 5, msg_signum = 2\<rparr>"
    unfolding e by (simp_all add: sample_sig3_def f2)
qed

theorem signal_messages_find_their_handle_witness:
  "5 \<in> set (handle_queue sample_sig4) \<and> \<not> has_flag (hflags sample_sig4 5) UV_CLOSED \<and>
     sig_pipe sample_sig4 1 = msg_bytes \<lparr>msg_handle = 5, msg_signum = 2\<rparr>"
proof -
  have fr: "sig_fresh sample_sigsys" by (simp add: sig_fresh_def sample_signal_defs)
  note p = sample_sig_reach(2,3)
  obtain ms cs fs where ms: "sig_pipe sample_sig4 1 = concat (map msg_bytes ms)"
      and q: "\<forall>a \<in> msg_handle ` set (ms @ sg_todo sample_sig4) \<union> set_option (sg_busy sample_sig4) \<union> set (cs @ fs).
        a \<in> set (handle_queue sample_sig4) \<and> \<not> has_flag (hflags sample_sig4 a) UV_CLOSED"
    using signal_messages_find_their_handle [OF fr sample_sig_reach(1)] unfolding p(1) by (elim exE conjE) (rule that, assumption+)
  have "ms = [\<lparr>msg_handle = 5, msg_signum = 2\<rparr>]" using ms p(2) by (intro msg_bytes_inj) simp
  then show ?thesis using q p(2) by simp
qed

theorem signal_partial_read_lost_witness:
  "\<exists>L'. uv__signal_event (sample_ssys\<lparr>sys_sigread := (\<lambda>room n k. (if n = 32 then 8 else 24, k))\<rparr>) (\<lambda>cb a n. Some)
      (sample_sigsys\<lparr>sig_pipe := (\<lambda>_. msg_bytes \<lparr>msg_handle = 5, msg_signum = 2\<rparr> @ msg_bytes \<lparr>msg_handle = 6, msg_signum = 2\<rparr>)\<rparr>) = Some L' \<and>
     uv__signal_event (sample_ssys\<lparr>sys_sigread := (\<lambda>room n k. (if n = 32 then 8 else 24, k))\<rparr>) (\<lambda>cb a n. Some) L' = None"
proof -
  let ?K = "sample_ssys\<lparr>sys_sigread := (\<lambda>room n k. (if n = 32 then 8 else 24, k))\<rparr>"
  let ?L = "sample_sigsys\<lparr>sig_pipe := (\<lambda>_. msg_bytes \<lparr>msg_handle = 5, msg_signum = 2\<rparr> @ msg_bytes \<lparr>msg_handle = 6, msg_signum = 2\<rparr>)\<rparr>"
  have "\<exists>L'. uv__signal_event ?K (\<lambda>cb a n. Some) ?L = Some L' \<and>
      L' = ?L\<lparr>kern := kern ?L, sig_pipe := (sig_pipe ?L)(sig_self ?L :=
        drop 8 (msg_bytes \<lparr>msg_handle = 5, msg_signum = 2\<rparr> @ msg_bytes \<lparr>msg_handle = 6, msg_signum = 2\<rparr>))\<rparr> \<and>
      uv__signal_event ?K (\<lambda>cb a n. Some) L' = None"
    by (rule signal_partial_read_lost [where ?r2.0 = 24 and ?k2.0 = "kern ?L"]) simp_all
  then show ?thesis by blast
qed

end
