(* ===== verification/EventLoop.thy ===== *)
theory EventLoop
  imports Signal
begin

text \<open>
  The event loop: \<open>uv_run\<close>, \<open>uv_close\<close> and what they rest on in
  \<open>src/src/libuv/src/unix/core.c\<close>; \<open>uv_loop_init\<close>, \<open>uv__loop_close\<close> and \<open>uv__loop_configure\<close> of
  \<open>loop.c\<close>, with \<open>uv__platform_loop_init\<close> and \<open>uv__platform_loop_delete\<close> of \<open>linux-core.c\<close> and
  \<open>uv_stop\<close> of \<open>uv-common.c\<close>.  The phases of an iteration are the operations of the other theories,
  in the order of the code.
\<close>

section \<open>Data\<close>

datatype uv_run_mode = UV_RUN_DEFAULT | UV_RUN_ONCE | UV_RUN_NOWAIT

record 'k evsyscalls = "'k ssyscalls" +
  sys_epoll_create1 :: "'k \<Rightarrow> int \<times> 'k"
  sys_epoll_create :: "'k \<Rightarrow> int \<times> 'k"
  sys_rwlock_init :: "'k \<Rightarrow> int \<times> 'k"
  sys_rwlock_destroy :: "'k \<Rightarrow> 'k"
  sys_mutex_init :: "'k \<Rightarrow> int \<times> 'k"
  sys_mutex_destroy :: "'k \<Rightarrow> 'k"

text \<open>\<open>child_watcher\<close> and \<open>wq_async\<close> are the handles inside the loop; \<open>wq\<close> is the queue of work that
  is done.\<close>

record 'k evloop = "'k sloop" +
  stop_flag :: bool
  inotify_fd :: int
  inotify_io :: addr
  emfile_fd :: int
  child_watcher :: addr
  wq_async :: addr
  wq :: "addr list"

text \<open>What is called from the loop: the callbacks of timers, of prepare, check and idle handles, of
  I/O watchers and of closed handles, and what destroys a socket.\<close>

record 'l callbacks =
  on_timer :: "nat \<Rightarrow> addr \<Rightarrow> 'l \<Rightarrow> 'l option"
  on_lw :: "lw_kind \<Rightarrow> nat \<Rightarrow> addr \<Rightarrow> 'l \<Rightarrow> 'l option"
  on_io :: "nat \<Rightarrow> addr \<Rightarrow> u32 \<Rightarrow> 'l \<Rightarrow> 'l option"
  on_close :: "nat \<Rightarrow> addr \<Rightarrow> 'l \<Rightarrow> 'l option"
  on_destroy :: "'l destroyer"

text \<open>The callback of \<open>wq_async\<close>.\<close>

abbreviation UV__WORK_DONE :: nat where "UV__WORK_DONE \<equiv> 0"

section \<open>Closing a handle\<close>

text \<open>\<open>other\<close> is the close function of the types that are not part of this loop: \<open>uv__pipe_close\<close>,
  \<open>uv__stream_close\<close>, \<open>uv__tcp_close\<close>, \<open>uv__udp_close\<close>, \<open>uv__process_close\<close>, \<open>uv__fs_event_close\<close>
  and \<open>uv__fs_poll_close\<close>.\<close>

definition close_type ::
  "('k, 'b) ssyscalls_scheme \<Rightarrow> ('k, 'a) evloop_scheme destroyer \<Rightarrow> addr \<Rightarrow> ('k, 'a) evloop_scheme \<Rightarrow> ('k, 'a) evloop_scheme option" where
  "close_type K other a L =
     (case htype (handles L a) of
        UV_NAMED_PIPE \<Rightarrow> other UV_NAMED_PIPE a L
      | UV_TTY \<Rightarrow> other UV_TTY a L
      | UV_TCP \<Rightarrow> other UV_TCP a L
      | UV_UDP \<Rightarrow> other UV_UDP a L
      | UV_PREPARE \<Rightarrow> Some (uv__lw_close Prepare a L)
      | UV_CHECK \<Rightarrow> Some (uv__lw_close Check a L)
      | UV_IDLE \<Rightarrow> Some (uv__lw_close Idle a L)
      | UV_ASYNC \<Rightarrow> Some (uv__async_close a L)
      | UV_TIMER \<Rightarrow> uv__timer_close a L
      | UV_PROCESS \<Rightarrow> other UV_PROCESS a L
      | UV_FS_EVENT \<Rightarrow> other UV_FS_EVENT a L
      | UV_POLL \<Rightarrow> uv__poll_close a L
      | UV_FS_POLL \<Rightarrow> other UV_FS_POLL a L
      | UV_SIGNAL \<Rightarrow> uv__signal_close K a L
      | _ \<Rightarrow> None)"

definition uv_close ::
  "('k, 'b) ssyscalls_scheme \<Rightarrow> ('k, 'a) evloop_scheme destroyer \<Rightarrow> addr \<Rightarrow> nat option \<Rightarrow> ('k, 'a) evloop_scheme
    \<Rightarrow> ('k, 'a) evloop_scheme option" where
  "uv_close K other a cb L =
     do { ASSERT (\<not> uv__is_closing L a);
          let ty = htype (handles L a);
          let L = set_flags a (add_flag (hflags L a) UV_CLOSING) L;
          L \<leftarrow> close_type K other a (L\<lparr>close_cb := (close_cb L)(a := cb)\<rparr>);
          if ty = UV_SIGNAL then Some L else uv__make_close_pending a L }"

section \<open>Running\<close>

definition uv_stop :: "('k, 'a) evloop_scheme \<Rightarrow> ('k, 'a) evloop_scheme" where
  "uv_stop L = L\<lparr>stop_flag := True\<rparr>"

definition uv_update_time :: "('k, 's) syscalls_scheme \<Rightarrow> ('k, 'a) ploop_scheme \<Rightarrow> ('k, 'a) ploop_scheme" where
  "uv_update_time K L = uv__update_time K L"

definition uv_backend_fd :: "('k, 'a) ploop_scheme \<Rightarrow> int" where
  "uv_backend_fd L = backend_fd L"

definition uv_backend_timeout :: "('k, 'a) evloop_scheme \<Rightarrow> int" where
  "uv_backend_timeout L =
     (if stop_flag L then 0
      else if \<not> uv__has_active_handles L \<and> \<not> uv__has_active_reqs L then 0
      else if lw_handles L Idle \<noteq> [] then 0
      else if pending_queue L \<noteq> [] then 0
      else if closing_handles L \<noteq> None then 0
      else uv__next_timeout L)"

definition uv__loop_alive :: "'a iloop_scheme \<Rightarrow> bool" where
  "uv__loop_alive L \<longleftrightarrow> uv__has_active_handles L \<or> uv__has_active_reqs L \<or> closing_handles L \<noteq> None"

definition uv_loop_alive :: "'a iloop_scheme \<Rightarrow> bool" where
  "uv_loop_alive L \<longleftrightarrow> uv__loop_alive L"

text \<open>One iteration of the loop in \<open>uv_run\<close>, up to where \<open>r\<close> is set again.\<close>

definition run_iteration ::
  "('k, 'b) syscalls_scheme \<Rightarrow> ('k, 'a) evloop_scheme callbacks \<Rightarrow> uv_run_mode \<Rightarrow> ('k, 'a) evloop_scheme
    \<Rightarrow> ('k, 'a) evloop_scheme option" where
  "run_iteration K C mode L =
     do { L \<leftarrow> uv__run_timers (on_timer C) (uv__update_time K L);
          (ran_pending, L) \<leftarrow> uv__run_pending (on_io C) L;
          L \<leftarrow> uv__run_lw Idle (on_lw C Idle) L;
          L \<leftarrow> uv__run_lw Prepare (on_lw C Prepare) L;
          let tmo = (if mode = UV_RUN_ONCE \<and> ran_pending = 0 \<or> mode = UV_RUN_DEFAULT then uv_backend_timeout L else 0);
          L \<leftarrow> uv__io_poll K (on_io C) tmo L;
          L \<leftarrow> uv__run_lw Check (on_lw C Check) L;
          L \<leftarrow> uv__run_closing_handles (on_destroy C) (on_close C) L;
          if mode = UV_RUN_ONCE then uv__run_timers (on_timer C) (uv__update_time K L) else Some L }"

partial_function (option) run_loop ::
  "('k, 'b) syscalls_scheme \<Rightarrow> ('k, 'a) evloop_scheme callbacks \<Rightarrow> uv_run_mode \<Rightarrow> bool \<Rightarrow> ('k, 'a) evloop_scheme
    \<Rightarrow> (bool \<times> ('k, 'a) evloop_scheme) option" where
  [code]: "run_loop K C mode r L =
     (if r \<and> \<not> stop_flag L then
        Option.bind (run_iteration K C mode L) (\<lambda>L.
          let r = uv__loop_alive L
          in if mode = UV_RUN_ONCE \<or> mode = UV_RUN_NOWAIT then Some (r, L) else run_loop K C mode r L)
      else Some (r, L))"

definition uv_run ::
  "('k, 'b) syscalls_scheme \<Rightarrow> ('k, 'a) evloop_scheme callbacks \<Rightarrow> uv_run_mode \<Rightarrow> ('k, 'a) evloop_scheme
    \<Rightarrow> (bool \<times> ('k, 'a) evloop_scheme) option" where
  "uv_run K C mode L =
     (let r = uv__loop_alive L;
          L = (if \<not> r then uv__update_time K L else L)
      in map_option (\<lambda>(r, L). (r, if stop_flag L then L\<lparr>stop_flag := False\<rparr> else L)) (run_loop K C mode r L))"

section \<open>Setting up and closing a loop\<close>

abbreviation EV_ENOSYS :: int where "EV_ENOSYS \<equiv> 38"
abbreviation EV_EINVAL :: int where "EV_EINVAL \<equiv> 22"
abbreviation SIGPROF :: int where "SIGPROF \<equiv> 27"

text \<open>\<open>memset\<close> of the loop and the assignments after it, up to \<open>uv__update_time\<close>; the user's \<open>data\<close> is
  kept, and so are the addresses of what is inside the loop.  The handles and watchers inside are
  zeroed as well.\<close>

definition blank_loop :: "('k, 'a) evloop_scheme \<Rightarrow> ('k, 'a) evloop_scheme" where
  "blank_loop L = L\<lparr>
     active_handles := 0, handle_queue := [], closing_handles := None,
     handles := (\<lambda>a. if a \<in> {child_watcher L, wq_async L}
       then \<lparr>flags = 0, htype = UV_UNKNOWN_HANDLE, next_closing = None\<rparr> else handles L a), time := 0, timer_counter := 0,
     timer_heap := heap_init (timer_heap L), active_reqs := [], watchers := [], nwatchers := 0, nfds := 0,
     watcher_queue := [], pending_queue := [],
     ios := (\<lambda>w. if w \<in> {async_io L, signal_io L, inotify_io L}
       then \<lparr>io_cb = 0, pevents = 0, io_events = 0, io_fd = 0\<rparr> else ios L w), lw_handles := (\<lambda>_. []), loop_flags := 0, backend_fd := 0,
     async_handles := [], sig_fds := (0, 0), stop_flag := False, inotify_fd := 0, emfile_fd := 0, wq := []\<rparr>"

definition uv__platform_loop_init ::
  "('k, 'b) evsyscalls_scheme \<Rightarrow> ('k, 'a) evloop_scheme \<Rightarrow> int \<times> ('k, 'a) evloop_scheme" where
  "uv__platform_loop_init K L =
     (let (fd, k) = sys_epoll_create1 K (kern L);
          (fd, k) = (if fd = - EV_ENOSYS \<or> fd = - EV_EINVAL then
                       (case sys_epoll_create K k of (fd, k) \<Rightarrow> if fd \<ge> 0 then (fd, sys_fdflags K fd k) else (fd, k))
                     else (fd, k));
          L = L\<lparr>kern := k, backend_fd := (if fd < 0 then - 1 else fd), inotify_fd := - 1\<rparr>
      in (if fd < 0 then fd else 0, L))"

definition uv__platform_loop_delete ::
  "('k, 'b) evsyscalls_scheme \<Rightarrow> ('k, 'a) evloop_scheme \<Rightarrow> ('k, 'a) evloop_scheme option" where
  "uv__platform_loop_delete K L =
     (if inotify_fd L = - 1 then Some L
      else do { L \<leftarrow> uv__io_stop (inotify_io L) POLLIN L;
                Some (L\<lparr>kern := sys_close K (inotify_fd L) (kern L), inotify_fd := - 1\<rparr>) })"

text \<open>The failure labels of \<open>uv_loop_init\<close>, each falling through to the next.\<close>

definition fail_signal_init ::
  "('k, 'b) evsyscalls_scheme \<Rightarrow> int \<Rightarrow> ('k, 'a) evloop_scheme \<Rightarrow> (int \<times> ('k, 'a) evloop_scheme) option" where
  "fail_signal_init K err L = map_option (Pair err) (uv__platform_loop_delete K L)"

definition fail_rwlock_init ::
  "('k, 'b) evsyscalls_scheme \<Rightarrow> int \<Rightarrow> ('k, 'a) evloop_scheme \<Rightarrow> (int \<times> ('k, 'a) evloop_scheme) option" where
  "fail_rwlock_init K err L = Option.bind (uv__signal_loop_cleanup K L) (fail_signal_init K err)"

definition fail_mutex_init ::
  "('k, 'b) evsyscalls_scheme \<Rightarrow> int \<Rightarrow> ('k, 'a) evloop_scheme \<Rightarrow> (int \<times> ('k, 'a) evloop_scheme) option" where
  "fail_mutex_init K err L = fail_rwlock_init K err (L\<lparr>kern := sys_rwlock_destroy K (kern L)\<rparr>)"

definition fail_async_init ::
  "('k, 'b) evsyscalls_scheme \<Rightarrow> int \<Rightarrow> ('k, 'a) evloop_scheme \<Rightarrow> (int \<times> ('k, 'a) evloop_scheme) option" where
  "fail_async_init K err L = fail_mutex_init K err (L\<lparr>kern := sys_mutex_destroy K (kern L)\<rparr>)"

definition mark_internal :: "addr \<Rightarrow> 'a hloop_scheme \<Rightarrow> 'a hloop_scheme" where
  "mark_internal a L =
     (let L = uv__handle_unref a L in set_flags a (add_flag (hflags L a) UV__HANDLE_INTERNAL) L)"

definition uv_loop_init ::
  "('k, 'b) evsyscalls_scheme \<Rightarrow> (nat \<Rightarrow> bool) \<Rightarrow> ('k, 'a) evloop_scheme \<Rightarrow> (int \<times> ('k, 'a) evloop_scheme) option" where
  "uv_loop_init K realloc_ok L =
     do { L \<leftarrow> uv__signal_global_once_init K L;
          let L = uv__async_init (uv__update_time K (blank_loop L));
          let L = L\<lparr>sig_fds := (- 1, - 1), backend_fd := - 1, emfile_fd := - 1, timer_counter := 0, stop_flag := False\<rparr>;
          let (err, L) = uv__platform_loop_init K L;
          if err \<noteq> 0 then Some (err, L)
          else do {
            (err, L) \<leftarrow> uv_signal_init K realloc_ok (child_watcher L) L;
            if err \<noteq> 0 then fail_signal_init K err L
            else
              let L = mark_internal (child_watcher L) L;
                  (err, k) = sys_rwlock_init K (kern L);
                  L = L\<lparr>kern := k\<rparr>
              in if err \<noteq> 0 then fail_rwlock_init K err L
                 else
                   let (err, k) = sys_mutex_init K (kern L);
                       L = L\<lparr>kern := k\<rparr>
                   in if err \<noteq> 0 then fail_mutex_init K err L
                      else do {
                        (err, L) \<leftarrow> uv_async_init K realloc_ok (wq_async L) (Some UV__WORK_DONE) L;
                        if err \<noteq> 0 then fail_async_init K err L
                        else Some (0, mark_internal (wq_async L) L) } } }"

definition uv__loop_close ::
  "('k, 'b) evsyscalls_scheme \<Rightarrow> ('k, 'a) evloop_scheme \<Rightarrow> ('k, 'a) evloop_scheme option" where
  "uv__loop_close K L =
     do { L \<leftarrow> uv__signal_loop_cleanup K L;
          L \<leftarrow> uv__platform_loop_delete K L;
          L \<leftarrow> uv__async_stop K L;
          let L = (if emfile_fd L \<noteq> - 1 then L\<lparr>kern := sys_close K (emfile_fd L) (kern L), emfile_fd := - 1\<rparr> else L);
          let L = (if backend_fd L \<noteq> - 1 then L\<lparr>kern := sys_close K (backend_fd L) (kern L), backend_fd := - 1\<rparr> else L);
          ASSERT (wq L = []);
          ASSERT (\<not> uv__has_active_reqs L);
          let L = L\<lparr>kern := sys_rwlock_destroy K (sys_mutex_destroy K (kern L))\<rparr>;
          Some (L\<lparr>watchers := [], nwatchers := 0\<rparr>) }"

datatype uv_loop_option = UV_LOOP_BLOCK_SIGNAL | Other_option

definition uv__loop_configure :: "uv_loop_option \<Rightarrow> int \<Rightarrow> ('k, 'a) ploop_scheme \<Rightarrow> int \<times> ('k, 'a) ploop_scheme" where
  "uv__loop_configure opt arg L =
     (if opt \<noteq> UV_LOOP_BLOCK_SIGNAL then (- EV_ENOSYS, L)
      else if arg \<noteq> SIGPROF then (- EV_EINVAL, L)
      else (0, L\<lparr>loop_flags := add_flag (loop_flags L) UV_LOOP_BLOCK_SIGPROF\<rparr>))"

definition uv_loop_configure :: "uv_loop_option \<Rightarrow> int \<Rightarrow> ('k, 'a) ploop_scheme \<Rightarrow> int \<times> ('k, 'a) ploop_scheme" where
  "uv_loop_configure opt arg L = uv__loop_configure opt arg L"

definition uv_now :: "'a tloop_scheme \<Rightarrow> u64" where
  "uv_now L = time L"

text \<open>\<open>dflt\<close> is \<open>default_loop_ptr\<close> and \<open>self\<close> the address of the loop; what \<open>memset\<close> leaves of a closed loop in a
  debug build is not kept.\<close>

abbreviation EV_EBUSY :: int where "EV_EBUSY \<equiv> 16"

definition uv_default_loop ::
  "('k, 'b) evsyscalls_scheme \<Rightarrow> (nat \<Rightarrow> bool) \<Rightarrow> addr \<Rightarrow> ptr \<Rightarrow> ('k, 'a) evloop_scheme \<Rightarrow> (ptr \<times> ptr \<times> ('k, 'a) evloop_scheme) option" where
  "uv_default_loop K realloc_ok self dflt L =
     (if dflt \<noteq> None then Some (dflt, dflt, L)
      else do { (err, L) \<leftarrow> uv_loop_init K realloc_ok L;
                if err \<noteq> 0 then Some (None, dflt, L) else Some (Some self, Some self, L) })"

definition uv_loop_new ::
  "('k, 'b) evsyscalls_scheme \<Rightarrow> (nat \<Rightarrow> bool) \<Rightarrow> ptr \<Rightarrow> ('k, 'a) evloop_scheme \<Rightarrow> (ptr \<times> ('k, 'a) evloop_scheme) option" where
  "uv_loop_new K realloc_ok mem L =
     (case mem of None \<Rightarrow> Some (None, L)
      | Some self \<Rightarrow> do { (err, L) \<leftarrow> uv_loop_init K realloc_ok L; Some (if err \<noteq> 0 then None else Some self, L) })"

definition uv_loop_close ::
  "('k, 'b) evsyscalls_scheme \<Rightarrow> addr \<Rightarrow> ptr \<Rightarrow> ('k, 'a) evloop_scheme \<Rightarrow> (int \<times> ptr \<times> ('k, 'a) evloop_scheme) option" where
  "uv_loop_close K self dflt L =
     (if active_reqs L \<noteq> [] then Some (- EV_EBUSY, dflt, L)
      else if list_ex (\<lambda>a. \<not> has_flag (hflags L a) UV__HANDLE_INTERNAL) (handle_queue L) then Some (- EV_EBUSY, dflt, L)
      else do { L \<leftarrow> uv__loop_close K L; Some (0, if dflt = Some self then None else dflt, L) })"

text \<open>The result says whether the memory of the loop was freed.\<close>

definition uv_loop_delete ::
  "('k, 'b) evsyscalls_scheme \<Rightarrow> addr \<Rightarrow> ptr \<Rightarrow> ('k, 'a) evloop_scheme \<Rightarrow> (bool \<times> ptr \<times> ('k, 'a) evloop_scheme) option" where
  "uv_loop_delete K self dflt L =
     do { (err, dflt', L) \<leftarrow> uv_loop_close K self dflt L;
          ASSERT (err = 0);
          Some (dflt \<noteq> Some self, dflt', L) }"

section \<open>The phases, with callbacks that note their call\<close>

datatype loop_event =
  Timer_ev nat addr | Lw_ev lw_kind nat addr | Io_ev nat addr u32 | Close_ev nat addr bool bool

abbreviation noted :: "loop_event list \<Rightarrow> ('k, loop_event list) evloop_scheme \<Rightarrow> ('k, loop_event list) evloop_scheme" where
  "noted es L \<equiv> evloop.more_update (\<lambda>l. l @ es) L"

text \<open>A closed handle is noted with whether it is still in the loop's queue and keeps the loop alive.\<close>

definition note_callbacks :: "('k, loop_event list) evloop_scheme callbacks" where
  "note_callbacks = \<lparr>
     on_timer = (\<lambda>cb a L. Some (noted [Timer_ev cb a] L)),
     on_lw = (\<lambda>k cb a L. Some (noted [Lw_ev k cb a] L)),
     on_io = (\<lambda>cb w ev L. Some (noted [Io_ev cb w ev] L)),
     on_close = (\<lambda>cb a L. Some (noted [Close_ev cb a (a \<in> set (handle_queue L)) (uv__has_ref L a)] L)),
     on_destroy = (\<lambda>ty a L. Some L)\<rparr>"

text \<open>The part of the loop after the fields of a smaller record.\<close>

lemma more_as_tloop:
  "evloop.more_update g L = tloop.more_update (\<lambda>m. tloop.more (evloop.more_update g (tloop.more_update (\<lambda>_. m) L0))) L"
  by (cases L, cases L0) simp

lemma more_as_cloop: "evloop.more (cloop.more_update (\<lambda>_. cloop.more L) L0) = evloop.more L"
  by (cases L, cases L0) simp

lemma update_time_shape:
  "\<exists>c k t. uv__update_time K L = L\<lparr>fast_clock := c, kern := k, time := t\<rparr> \<and> t \<noteq> - 1"
proof -
  have div: "(x :: u64) div 1000000 \<noteq> - 1" for x
  proof
    assume "x div 1000000 = - 1"
    then have "unat (x div 1000000) = unat (- 1 :: u64)" by simp
    moreover have "unat x < 2 ^ 64" using unsigned_less [of x] by simp
    ultimately show False by (simp add: unat_div unsigned_minus_1_eq_mask mask_eq_exp_minus_1)
  qed
  have "\<exists>c k. snd (uv__hrtime K UV_CLOCK_FAST L) = L\<lparr>fast_clock := c, kern := k\<rparr>"
  proof -
    obtain a b c d e where g: "sys_getres K CLOCK_MONOTONIC_COARSE (kern L) = ((a, b), c)" by (metis surj_pair)
    show ?thesis
    proof (cases "fast_clock L")
      case None
      then show ?thesis
        by (auto simp: uv__hrtime_def Let_def g split: prod.splits intro!: exI)
    next
      case (Some z)
      have same: "L\<lparr>kern := k\<rparr> = L\<lparr>fast_clock := Some z, kern := k\<rparr>" for k using Some by (cases L) simp
      have "\<exists>k. snd (uv__hrtime K UV_CLOCK_FAST L) = L\<lparr>kern := k\<rparr>"
        by (auto simp: uv__hrtime_def Let_def Some split: prod.splits)
      then show ?thesis unfolding same by blast
    qed
  qed
  then obtain c k where "snd (uv__hrtime K UV_CLOCK_FAST L) = L\<lparr>fast_clock := c, kern := k\<rparr>" by blast
  then show ?thesis using div
    by (intro exI [of _ c] exI [of _ k] exI [of _ "time (uv__update_time K L)"])
       (auto simp: uv__update_time_def split_beta)
qed

lemma run_pending_noted:
  "run_pending_loop (on_io note_callbacks) L =
     Some (noted (map (\<lambda>w. Io_ev (io_cb (ios L w)) w POLLOUT) (pending_run L)) (L\<lparr>pending_run := []\<rparr>))"
proof (induction "pending_run L" arbitrary: L)
  case Nil
  then show ?case by (cases L) (simp add: run_pending_loop.simps)
next
  case (Cons w ws)
  let ?M = "noted [Io_ev (io_cb (ios L w)) w POLLOUT] (L\<lparr>pending_run := ws\<rparr>)"
  have "run_pending_loop (on_io note_callbacks) L = run_pending_loop (on_io note_callbacks) ?M"
    using Cons.hyps(2) by (subst run_pending_loop.simps) (simp add: note_callbacks_def flip: Cons.hyps(2))
  also have "\<dots> = Some (noted (map (\<lambda>w. Io_ev (io_cb (ios ?M w)) w POLLOUT) (pending_run ?M)) (?M\<lparr>pending_run := []\<rparr>))"
    by (rule Cons.hyps(1)) simp
  finally show ?case using Cons.hyps(2) [symmetric] by (cases L) simp
qed

lemma pending_phase:
  assumes "pending_run L = []"
  shows "\<exists>r. uv__run_pending (on_io note_callbacks) L =
    Some (r, noted (map (\<lambda>w. Io_ev (io_cb (ios L w)) w POLLOUT) (pending_queue L)) (L\<lparr>pending_queue := []\<rparr>))"
  using assms by (cases L) (auto simp: uv__run_pending_def run_pending_noted)

abbreviation lw_events :: "lw_kind \<Rightarrow> ('k, 'a) evloop_scheme \<Rightarrow> loop_event list" where
  "lw_events k L \<equiv> map (\<lambda>q. Lw_ev k (the (lw_cb L q)) q) (lw_handles L k)"

lemma run_lw_noted:
  assumes "\<forall>q \<in> set (lw_run L k). lw_cb L q \<noteq> None"
  shows "run_lw_loop k (on_lw note_callbacks k) L =
    Some (noted (map (\<lambda>q. Lw_ev k (the (lw_cb L q)) q) (lw_run L k))
      (L\<lparr>lw_run := (lw_run L)(k := []), lw_handles := (lw_handles L)(k := lw_handles L k @ lw_run L k)\<rparr>))"
  using assms
proof (induction "lw_run L k" arbitrary: L)
  case Nil
  have "(lw_run L)(k := []) = lw_run L" using Nil(1) by (metis fun_upd_triv)
  then show ?case using Nil(1) by (cases L) (simp add: run_lw_loop.simps)
next
  case (Cons q qs)
  obtain cb where cb: "lw_cb L q = Some cb" using Cons.prems Cons.hyps(2) by (metis list.set_intros(1) not_None_eq)
  let ?M = "noted [Lw_ev k cb q] (L\<lparr>lw_run := (lw_run L)(k := qs), lw_handles := (lw_handles L)(k := lw_handles L k @ [q])\<rparr>)"
  have "run_lw_loop k (on_lw note_callbacks k) L = run_lw_loop k (on_lw note_callbacks k) ?M"
    using cb by (subst run_lw_loop.simps) (simp add: note_callbacks_def flip: Cons.hyps(2))
  also have "\<dots> = Some (noted (map (\<lambda>q. Lw_ev k (the (lw_cb ?M q)) q) (lw_run ?M k))
      (?M\<lparr>lw_run := (lw_run ?M)(k := []), lw_handles := (lw_handles ?M)(k := lw_handles ?M k @ lw_run ?M k)\<rparr>))"
    by (rule Cons.hyps(1)) (use Cons.prems in \<open>simp_all flip: Cons.hyps(2)\<close>)
  finally show ?case using cb Cons.hyps(2) [symmetric] by (cases L) simp
qed

lemma lw_phase:
  assumes "lw_inv k L" and "lw_run L k = []"
  shows "uv__run_lw k (on_lw note_callbacks k) L = Some (noted (lw_events k L) L)"
proof -
  have "(lw_run L)(k := []) = lw_run L" using assms(2) by (metis fun_upd_triv)
  moreover have "\<forall>q \<in> set (lw_handles L k). lw_cb L q \<noteq> None" using assms(1) by (auto simp: lw_inv_def)
  ultimately show ?thesis
    unfolding uv__run_lw_def by (subst run_lw_noted) (cases L; simp)+
qed

text \<open>What a poll leaves alone when its callbacks just note their call.\<close>

definition polled ::
  "(nat \<times> addr \<times> u32) list \<Rightarrow> ('k, loop_event list) evloop_scheme \<Rightarrow> ('k, loop_event list) evloop_scheme \<Rightarrow> bool" where
  "polled es L L' \<longleftrightarrow>
     evloop.more L' = evloop.more L @ map (\<lambda>(cb, w, e). Io_ev cb w e) es \<and>
     active_handles L' = active_handles L \<and> handle_queue L' = handle_queue L \<and>
     closing_handles L' = closing_handles L \<and> handles L' = handles L \<and> close_cb L' = close_cb L \<and>
     timer_counter L' = timer_counter L \<and> timer_heap L' = timer_heap L \<and> timers L' = timers L \<and>
     active_reqs L' = active_reqs L \<and> pending_queue L' = pending_queue L \<and> pending_run L' = pending_run L \<and>
     lw_handles L' = lw_handles L \<and> lw_run L' = lw_run L \<and> lw_cb L' = lw_cb L \<and> stop_flag L' = stop_flag L"

lemma polled_refl: "polled [] L L"
  by (simp add: polled_def)

lemma polled_trans: "polled es L M \<Longrightarrow> polled fs M N \<Longrightarrow> polled (es @ fs) L N"
  by (simp add: polled_def)

lemma polled_upd [simp]:
  "polled es L (M\<lparr>kern := k\<rparr>) = polled es L M" "polled es L (M\<lparr>time := t\<rparr>) = polled es L M"
  "polled es L (M\<lparr>fast_clock := c\<rparr>) = polled es L M" "polled es L (M\<lparr>ep_events := ee\<rparr>) = polled es L M"
  "polled es L (M\<lparr>watcher_queue := qu\<rparr>) = polled es L M" "polled es L (M\<lparr>ios := x\<rparr>) = polled es L M"
  "polled es L (M\<lparr>watchers := ws\<rparr>) = polled es L M" "polled es L (M\<lparr>no_epoll_wait := b\<rparr>) = polled es L M"
  "polled es L (M\<lparr>no_epoll_pwait := b\<rparr>) = polled es L M"
  "polled es L (uv__update_time K M) = polled es L M" "polled es L (snd (epoll_ctl K op fd ev M)) = polled es L M"
  "polled es L (set_fake p q M) = polled es L M"
proof -
  obtain c k t where "uv__update_time K M = M\<lparr>fast_clock := c, kern := k, time := t\<rparr>"
    using update_time_shape [of K M] by (elim exE conjE) (rule that)
  then show "polled es L (uv__update_time K M) = polled es L M" by (simp add: polled_def)
qed (simp_all add: polled_def epoll_ctl_def split_beta set_fake_def)

lemma polled_note: "polled es L M \<Longrightarrow> \<exists>es. polled es L (noted [Io_ev cb w e] M)"
  by (rule exI [of _ "es @ [(cb, w, e)]"]) (simp add: polled_def)

lemma dispatch_events_polled:
  assumes call: "\<And>cb w e M. call cb w e M = Some (noted [Io_ev cb w e] M)"
  shows "dispatch_events K call is hs ne M = Some (hs', ne', M') \<Longrightarrow> polled es L M \<Longrightarrow> \<exists>es. polled es L M'"
proof (induction "is" arbitrary: hs ne M es)
  case (Cons i "is")
  obtain hs1 ne1 M1 where M1: "dispatch_one K call i hs ne M = Some (hs1, ne1, M1)"
      "dispatch_events K call is hs1 ne1 M1 = Some (hs', ne', M')"
    using Cons.prems(1) by (auto simp: bind_eq_Some_conv)
  have "\<exists>es. polled es L M1"
    using M1(1) Cons.prems(2) unfolding dispatch_one_def Let_def call
    by (auto split: prod.splits if_splits wslot.splits intro: exI [of _ es] polled_note [where es = es])
  then show ?case using Cons.IH [OF M1(2)] by blast
qed auto

lemma poll_dispatch_polled:
  assumes call: "\<And>cb w e M. call cb w e M = Some (noted [Io_ev cb w e] M)"
    and run: "poll_dispatch K call evs M = Some (hs, ne, M')" and "polled es L M"
  shows "\<exists>es. polled es L M'"
proof -
  obtain M1 where M1: "dispatch_events K call [0 ..< length evs] False 0
       (set_fake EventList (EventCount (length evs)) (M\<lparr>ep_events := evs\<rparr>)) = Some (hs, ne, M1)"
      "M' = set_fake NoWatcher NoWatcher (if hs then noted [Io_ev (io_cb (ios M1 (signal_io M1))) (signal_io M1) POLLIN] M1 else M1)"
    using run by (auto simp: poll_dispatch_def Let_def bind_eq_Some_conv call split: if_splits)
  obtain fs where "polled fs L M1"
    using dispatch_events_polled [where call = call, OF call M1(1)] assms(3) by auto
  then show ?thesis using M1(2) polled_note [of fs L M1] by auto
qed

lemma poll_wait_polled: "poll_wait K sm t M = Some (r, M') \<Longrightarrow> polled es L M' = polled es L M"
  by (auto simp: poll_wait_def Let_def bind_eq_Some_conv split_beta split: if_splits)

lemma poll_round_polled:
  assumes call: "\<And>cb w e M. call cb w e M = Some (noted [Io_ev cb w e] M)"
    and run: "poll_round K call sm base tmo rtm n M = Some r" and M: "polled es L M"
  shows "case r of Return M' \<Rightarrow> \<exists>es. polled es L M' | Again _ _ _ M' \<Rightarrow> \<exists>es. polled es L M'"
proof -
  obtain w M1 where w: "poll_wait K sm (if long_is_32 K \<and> tmo \<ge> 1789569 then 1789569 else tmo) M = Some (w, M1)"
    using run by (auto simp: poll_round_def Let_def bind_eq_Some_conv)
  have M1: "polled es L M1" using poll_wait_polled [OF w] M by blast
  have d: "poll_dispatch K call evs M1 = Some (hs, ne, M2) \<Longrightarrow> \<exists>es. polled es L M2" for evs hs ne M2
    by (rule poll_dispatch_polled [where call = call, OF call _ M1])
  show ?thesis
    using run M1 d unfolding poll_round_def Let_def w
    by (auto simp: update_timeout_def Let_def bind_eq_Some_conv split: wait_result.splits list.splits if_splits)
qed

lemma poll_loop_polled:
  assumes run: "poll_loop K call sm base t rtm n M = Some M'"
  shows "(\<forall>cb w e M. call cb w e M = Some (noted [Io_ev cb w e] M)) \<longrightarrow> polled es L M \<longrightarrow> (\<exists>es. polled es L M')"
proof (rule poll_loop.raw_induct [of "\<lambda>K call sm base t rtm n M M'. \<forall>es.
    (\<forall>cb w e M. call cb w e M = Some (noted [Io_ev cb w e] M)) \<longrightarrow> polled es L M \<longrightarrow> (\<exists>es. polled es L M')",
    OF _ run, THEN spec], goal_cases)
  case (1 loop K call sm base t rtm n M M')
  show ?case
  proof (intro allI impI)
    fix es assume call: "\<forall>cb w e M. call cb w e M = Some (noted [Io_ev cb w e] M)" and M: "polled es L M"
    obtain r where r: "poll_round K call sm base t rtm n M = Some r" using 1(2) by (cases "poll_round K call sm base t rtm n M") simp_all
    have r2: "(case r of Return L \<Rightarrow> Some L | Again t rtm n L \<Rightarrow> loop K call sm base t rtm n L) = Some M'"
      using 1(2) unfolding r by simp
    show "\<exists>es. polled es L M'"
      using poll_round_polled [where call = call, OF _ r M] call r2 1(1)
      by (fastforce split: poll_next.splits)
  qed
qed

lemma register_watchers_polled: "register_watchers K ws M = Some M' \<Longrightarrow> polled es L M' = polled es L M"
proof (induction ws arbitrary: M)
  case (Cons w ws)
  obtain M1 where M1: "register_one K w (M\<lparr>watcher_queue := ws\<rparr>) = Some M1" "register_watchers K ws M1 = Some M'"
    using Cons.prems by (auto simp: bind_eq_Some_conv)
  have "polled es L M1 = polled es L M"
    using M1(1) by (auto simp: register_one_def Let_def bind_eq_Some_conv epoll_ctl_def set_io_def split: prod.splits if_splits)
  then show ?case using Cons.IH [OF M1(2)] by simp
qed simp

lemma io_poll_polled:
  assumes "\<And>cb w e M. call cb w e M = Some (noted [Io_ev cb w e] M)" and run: "uv__io_poll K call t L = Some L'"
  shows "\<exists>es. polled es L L'"
proof (cases "nfds L = 0")
  case True
  then show ?thesis using run polled_refl by (auto simp: uv__io_poll_def split: if_splits)
next
  case False
  then obtain M where M: "register_watchers K (watcher_queue L) L = Some M"
      "poll_loop K call (sigprof_mask M) (time M) t t 48 M = Some L'"
    using run by (auto simp: uv__io_poll_def bind_eq_Some_conv split: if_splits)
  then show ?thesis
    using poll_loop_polled [OF M(2)] register_watchers_polled [OF M(1), of "[]" L] polled_refl assms(1) by blast
qed

abbreviation timer_events :: "('k, 'a) evloop_scheme \<Rightarrow> addr list \<Rightarrow> loop_event list" where
  "timer_events L ts \<equiv> map (\<lambda>a. Timer_ev (the (timer_cb (timers L a))) a) ts"

lemma noted_noted: "noted fs (noted es L) = noted (es @ fs) L"
  by (cases L) simp

lemma timers_phase:
  assumes "timer_inv L" and "time L \<noteq> - 1"
  shows "\<exists>ts T. uv__run_timers (on_timer note_callbacks) L = Some T \<and>
    tloop.more T = tloop.more (noted (timer_events L ts) L) \<and> same_closing L T \<and>
    (\<forall>b. \<not> is_timer L b \<longrightarrow> uv__is_active T b = uv__is_active L b) \<and>
    distinct ts \<and> set ts = due_timers L \<and> sorted_wrt (\<lambda>a b. \<not> timer_less_than (timers L) b a) ts \<and> timer_inv T"
proof -
  define f where "f = (\<lambda>cb a m. tloop.more (noted [Timer_ev cb a] (tloop.more_update (\<lambda>_. m) L)))"
  have call: "on_timer note_callbacks = note_timer f"
    unfolding f_def by (intro ext, simp add: note_callbacks_def note_timer_def) (rule more_as_tloop)
  have fold: "fold (\<lambda>a. f (the (timer_cb (timers L a))) a) ts (tloop.more M) = tloop.more (noted (timer_events L ts) M)" for ts M
  proof (induction ts arbitrary: M)
    case (Cons a ts)
    have "f cb a (tloop.more M) = tloop.more (noted [Timer_ev cb a] M)" for cb
      unfolding f_def by (cases M, cases L) simp
    then show ?case by (simp add: Cons.IH noted_noted)
  qed (case_tac M, simp)
  show ?thesis
    using run_timers_fired [OF assms, of f] unfolding call fired_ok_def fold by blast
qed

lemma same_more:
  assumes "tloop.more T = tloop.more N"
  shows "evloop.more T = evloop.more N" "pending_queue T = pending_queue N" "pending_run T = pending_run N"
    "ios T = ios N" "lw_handles T = lw_handles N" "lw_run T = lw_run N" "lw_cb T = lw_cb N" "close_cb T = close_cb N"
    "poll_inv interest T = poll_inv interest N" "registered T w = registered N w"
  using assms by (cases T, cases N, simp add: poll_inv_def io_inv_def registered_def slot_at_def watched_fds_def)+

lemma close_phase:
  assumes "handle_inv L" and "closing_inv L as" and "\<forall>a \<in> set as. closable (htype (handles L a))"
  shows "\<exists>L'. uv__run_closing_handles (on_destroy note_callbacks) (on_close note_callbacks) L = Some L' \<and>
    handle_inv L' \<and> evloop.more L' = evloop.more L @ close_log (\<lambda>cb a q r. Close_ev cb a q r) (close_cb L) as"
proof -
  let ?g = "\<lambda>m. evloop.more (cloop.more_update (\<lambda>_. m) L)"
  have c: "close_calls_ok ?g Close_ev (on_close note_callbacks)"
    by (simp add: close_calls_ok_def note_callbacks_def spares_def handle_inv_def live_handles_def being_closed_def
        uv__is_active_def uv__has_ref_def hflags_def more_as_cloop)
  have d: "destroy_ok ?g (on_destroy note_callbacks)"
    by (simp add: destroy_ok_def note_callbacks_def spares_def)
  let ?L = "L\<lparr>closing_handles := None\<rparr>"
  have "handle_inv ?L"
    using assms(1) by (simp add: handle_inv_def live_handles_def uv__is_active_def uv__has_ref_def)
  then show ?thesis
    using run_closing_loop_ok [OF c d, of ?L "closing_handles L" as] assms(2,3)
    by (simp add: uv__run_closing_handles_def closing_inv_def more_as_cloop)
qed

text \<open>What holds of a loop between two iterations; \<open>as\<close> are the handles being closed, the last one first.\<close>

definition loop_inv :: "('k \<Rightarrow> int \<Rightarrow> u32 option) \<Rightarrow> addr list \<Rightarrow> ('k, 'a) evloop_scheme \<Rightarrow> bool" where
  "loop_inv interest as L \<longleftrightarrow>
     timer_inv L \<and> (\<forall>k. lw_inv k L \<and> lw_run L k = []) \<and> poll_inv interest L \<and> pending_run L = [] \<and>
     closing_inv L as \<and> (\<forall>a \<in> set as. closable (htype (handles L a)))"

lemma poll_inv_same:
  assumes "watchers M = watchers L" "nwatchers M = nwatchers L" "nfds M = nfds L" "watcher_queue M = watcher_queue L"
    "pending_queue M = pending_queue L" "pending_run M = pending_run L" "ios M = ios L" "backend_fd M = backend_fd L"
    "no_epoll_pwait M = no_epoll_pwait L" "kern M = kern L"
  shows "poll_inv interest M = poll_inv interest L" "registered M w = registered L w"
proof -
  have s: "slot_at M = slot_at L" by (simp add: slot_at_def fun_eq_iff assms)
  have r: "registered M = registered L" by (simp add: registered_def fun_eq_iff s assms)
  have w: "watched_fds M = watched_fds L" by (simp add: watched_fds_def s)
  show "poll_inv interest M = poll_inv interest L" unfolding poll_inv_def io_inv_def s r w assms by (rule refl)
  show "registered M w = registered L w" by (simp add: r)
qed

lemma poll_inv_noted [simp]: "poll_inv interest (noted es L) = poll_inv interest L"
  by (rule poll_inv_same) simp_all

lemma registered_noted: "registered (noted es L) w = registered L w"
  by (rule poll_inv_same) simp_all

lemma is_timer_lw: "htype (handles L a) = lw_type k \<Longrightarrow> \<not> is_timer L a"
  by (cases k) (auto simp: is_timer_def)

lemma loop_inv_timers:
  assumes inv: "loop_inv interest as L" and t: "tloop.more T = tloop.more L" "same_closing L T" "timer_inv T"
    and act: "\<forall>b. \<not> is_timer L b \<longrightarrow> uv__is_active T b = uv__is_active L b"
  shows "loop_inv interest as T"
proof -
  have lw: "lw_inv k T" for k
  proof -
    have "lw_active k T = lw_active k L"
      using t(2) act is_timer_lw [of L _ k] by (auto simp: lw_active_def same_closing_def)
    moreover have "lw_inv k L" "lw_run L k = []" using inv by (simp_all add: loop_inv_def)
    ultimately show ?thesis using t(3) by (simp add: lw_inv_def same_more [OF t(1)])
  qed
  have "closing_chain (handles T) (closing_handles T) as = closing_chain (handles L) (closing_handles L) as"
    using t(2) by (subst closing_chain_cong [of _ "handles T" "handles L"]) (auto simp: same_closing_def)
  then have "closing_inv T as"
    using inv t(2) by (simp add: loop_inv_def closing_inv_def being_closed_def same_closing_def)
  then show ?thesis
    using inv lw t(2,3) by (simp add: loop_inv_def same_more [OF t(1)] same_closing_def)
qed

text \<open>The invariant is about these fields and what the kernel watches.\<close>

lemma loop_core_same:
  assumes "poll_inv interest M"
    and "active_handles M = active_handles L" "handle_queue M = handle_queue L" "timer_heap M = timer_heap L"
      "timers M = timers L" "lw_handles M = lw_handles L" "lw_run M = lw_run L" "lw_cb M = lw_cb L" "pending_run M = pending_run L"
    and "\<And>b. uv__is_active M b = uv__is_active L b \<and> uv__has_ref M b = uv__has_ref L b \<and> htype (handles M b) = htype (handles L b)"
    and "loop_inv interest as L" and "closing_inv M cs" and "\<forall>a \<in> set cs. closable (htype (handles L a))"
  shows "loop_inv interest cs M"
proof -
  have "handle_inv M = handle_inv L" "lw_active k M = lw_active k L" "timer_nodes M = timer_nodes L" for k
    by (simp_all add: handle_inv_def live_handles_def lw_active_def timer_nodes_def assms(2-10))
  then have "timer_inv M = timer_inv L" "lw_inv k M = lw_inv k L" for k
    by (simp_all add: timer_inv_def lw_inv_def assms(2-10))
  then show ?thesis using assms(1,11-13) by (simp add: loop_inv_def assms(2-10))
qed

lemma loop_inv_same:
  assumes "loop_inv interest as L" and "poll_inv interest M"
    and "active_handles M = active_handles L" "handle_queue M = handle_queue L" "closing_handles M = closing_handles L"
      "handles M = handles L" "timer_heap M = timer_heap L" "timers M = timers L" "lw_handles M = lw_handles L"
      "lw_run M = lw_run L" "lw_cb M = lw_cb L" "pending_run M = pending_run L"
  shows "loop_inv interest as M"
proof -
  have f: "hflags M = hflags L" by (simp add: hflags_def fun_eq_iff assms)
  have "closing_inv M as = closing_inv L as" by (simp add: closing_inv_def being_closed_def f assms)
  then show ?thesis
    using assms(1,2) by (intro loop_core_same [OF assms(2-4,7-12) _ assms(1)])
      (simp_all add: uv__is_active_def uv__has_ref_def f assms(6) loop_inv_def)
qed

lemma loop_inv_noted: "loop_inv interest as L \<Longrightarrow> loop_inv interest as (noted es L)"
  by (rule loop_inv_same [of interest as L]) (simp_all add: loop_inv_def)

lemma loop_inv_pending:
  assumes "loop_inv interest as L"
  shows "loop_inv interest as (L\<lparr>pending_queue := []\<rparr>)"
proof -
  have "poll_inv interest L" "pending_run L = []" using assms by (simp_all add: loop_inv_def)
  moreover have "slot_at (L\<lparr>pending_queue := []\<rparr>) = slot_at L" "registered (L\<lparr>pending_queue := []\<rparr>) = registered L"
      "watched_fds (L\<lparr>pending_queue := []\<rparr>) = watched_fds L"
    by (simp_all add: fun_eq_iff slot_at_def registered_def watched_fds_def)
  ultimately have "poll_inv interest (L\<lparr>pending_queue := []\<rparr>)"
    unfolding poll_inv_def io_inv_def by simp
  then show ?thesis by (rule loop_inv_same [OF assms]) simp_all
qed

lemma nowait_iteration:
  assumes laws: "ctl_laws K interest pollable" "wait_laws K interest" and inv: "loop_inv interest as L"
    and pl: "\<forall>w. registered L w \<longrightarrow> pollable (io_fd (ios L w))"
  shows "\<exists>ts es L'. run_iteration K note_callbacks UV_RUN_NOWAIT L = Some L' \<and>
    distinct ts \<and> set ts = due_timers (uv__update_time K L) \<and> sorted_wrt (\<lambda>a b. \<not> timer_less_than (timers L) b a) ts \<and>
    evloop.more L' = evloop.more L @ timer_events L ts @
      map (\<lambda>w. Io_ev (io_cb (ios L w)) w POLLOUT) (pending_queue L) @ lw_events Idle L @ lw_events Prepare L @
      map (\<lambda>(cb, w, ev). Io_ev cb w ev) es @ lw_events Check L @
      close_log Close_ev (close_cb L) as"
proof -
  let ?U = "uv__update_time K L"
  obtain c k t where U: "?U = L\<lparr>fast_clock := c, kern := k, time := t\<rparr>" "t \<noteq> - 1"
    using update_time_shape [of K L] by (elim exE conjE) (rule that)
  have "poll_inv interest L" using inv by (simp add: loop_inv_def)
  then have "poll_inv interest ?U" by (rule update_time_ok(1) [OF laws(2)])
  then have invU: "loop_inv interest as ?U" unfolding U(1) by (rule loop_inv_same [OF inv]) simp_all
  have eqU: "timers ?U = timers L" "evloop.more ?U = evloop.more L" "pending_queue ?U = pending_queue L" "ios ?U = ios L"
      "lw_handles ?U = lw_handles L" "lw_cb ?U = lw_cb L" "close_cb ?U = close_cb L" "stop_flag ?U = stop_flag L"
      "\<And>w. registered ?U w = registered L w"
    unfolding U by simp_all
  have tU: "time ?U \<noteq> - 1" unfolding U(1) using U(2) by simp
  obtain ts T where T: "uv__run_timers (on_timer note_callbacks) ?U = Some T"
      "tloop.more T = tloop.more (noted (timer_events ?U ts) ?U)" "same_closing ?U T"
      "\<forall>b. \<not> is_timer ?U b \<longrightarrow> uv__is_active T b = uv__is_active ?U b"
      "distinct ts" "set ts = due_timers ?U" "sorted_wrt (\<lambda>a b. \<not> timer_less_than (timers ?U) b a) ts" "timer_inv T"
    using timers_phase [of ?U] invU tU unfolding loop_inv_def by blast
  have invT: "loop_inv interest as T"
    by (rule loop_inv_timers [OF loop_inv_noted [OF invU] T(2) _ T(8)])
       (use T(3,4) in \<open>simp_all add: same_closing_def hflags_def is_timer_def uv__is_active_def\<close>)
  note eqT = same_more [OF T(2)]
  define P where "P = noted (map (\<lambda>w. Io_ev (io_cb (ios T w)) w POLLOUT) (pending_queue T)) (T\<lparr>pending_queue := []\<rparr>)"
  obtain r where P: "uv__run_pending (on_io note_callbacks) T = Some (r, P)"
    using pending_phase [of T] invT unfolding loop_inv_def P_def by blast
  have invP: "loop_inv interest as P" unfolding P_def by (intro loop_inv_noted loop_inv_pending invT)
  define I where "I = noted (lw_events Idle P) P"
  have I: "uv__run_lw Idle (on_lw note_callbacks Idle) P = Some I"
    unfolding I_def using invP by (intro lw_phase) (simp_all add: loop_inv_def)
  have invI: "loop_inv interest as I" unfolding I_def by (rule loop_inv_noted [OF invP])
  define R where "R = noted (lw_events Prepare I) I"
  have R: "uv__run_lw Prepare (on_lw note_callbacks Prepare) I = Some R"
    unfolding R_def using invI by (intro lw_phase) (simp_all add: loop_inv_def)
  have invR: "loop_inv interest as R" unfolding R_def by (rule loop_inv_noted [OF invI])
  have eqR: "lw_handles R = lw_handles L" "lw_cb R = lw_cb L" "close_cb R = close_cb L" "evloop.more R = evloop.more L @ timer_events L ts @
        map (\<lambda>w. Io_ev (io_cb (ios L w)) w POLLOUT) (pending_queue L) @ lw_events Idle L @ lw_events Prepare L"
    by (simp_all add: R_def I_def P_def eqT eqU registered_def slot_at_def)
  have regR: "registered R w = registered L w" for w
  proof -
    have "registered R w = registered T w" by (simp add: R_def I_def P_def registered_def slot_at_def)
    then show ?thesis by (simp only: eqT(10) registered_noted eqU(9))
  qed
  obtain M es where M: "uv__io_poll K (on_io note_callbacks) 0 R = Some M" "poll_inv interest M" "polled es R M"
  proof -
    have keep: "keeps_poll interest (on_io note_callbacks)"
      by (simp add: keeps_poll_def note_callbacks_def poll_ready_def)
    have "poll_inv interest R" using invR by (simp add: loop_inv_def)
    moreover have "\<forall>w. registered R w \<longrightarrow> pollable (io_fd (ios R w))"
      unfolding regR using pl by (simp add: R_def I_def P_def eqT eqU)
    ultimately obtain M where M: "uv__io_poll K (on_io note_callbacks) 0 R = Some M" "poll_inv interest M"
      using io_poll_zero [OF laws keep, of R] by blast
    moreover obtain es where "polled es R M"
      using io_poll_polled [OF _ M(1)] by (auto simp: note_callbacks_def)
    ultimately show ?thesis using that by blast
  qed
  have invM: "loop_inv interest as M"
    by (rule loop_inv_same [OF invR M(2)]) (use M(3) in \<open>simp_all add: polled_def\<close>)
  define C where "C = noted (lw_events Check M) M"
  have C: "uv__run_lw Check (on_lw note_callbacks Check) M = Some C"
    unfolding C_def using invM by (intro lw_phase) (simp_all add: loop_inv_def)
  have invC: "loop_inv interest as C" unfolding C_def by (rule loop_inv_noted [OF invM])
  obtain L' where L': "uv__run_closing_handles (on_destroy note_callbacks) (on_close note_callbacks) C = Some L'"
      "evloop.more L' = evloop.more C @ close_log Close_ev (close_cb C) as"
    using close_phase [of C as] invC unfolding loop_inv_def timer_inv_def by blast
  have run: "run_iteration K note_callbacks UV_RUN_NOWAIT L = Some L'"
    using T(1) P I R M(1) C L'(1) by (simp add: run_iteration_def Let_def)
  have eqC: "evloop.more C = evloop.more R @ map (\<lambda>(cb, w, ev). Io_ev cb w ev) es @ lw_events Check L" "close_cb C = close_cb L"
    using M(3) by (simp_all add: C_def polled_def eqR)
  show ?thesis
    by (rule exI [of _ ts], rule exI [of _ es], rule exI [of _ L']) (use run T(5-7) L'(2) in \<open>simp add: eqC eqR eqU\<close>)
qed

lemma update_time_timers: "handles (uv__update_time K L) = handles L" "handle_queue (uv__update_time K L) = handle_queue L"
  "uv__is_active (uv__update_time K L) b = uv__is_active L b"
proof -
  obtain c k t where U: "uv__update_time K L = L\<lparr>fast_clock := c, kern := k, time := t\<rparr>"
    using update_time_shape [of K L] by (elim exE conjE) (rule that)
  show "handles (uv__update_time K L) = handles L" "handle_queue (uv__update_time K L) = handle_queue L"
    "uv__is_active (uv__update_time K L) b = uv__is_active L b"
    by (simp_all add: U uv__is_active_def hflags_def)
qed

section \<open>Closing a handle keeps the invariant\<close>

lemma closing_inv_flags:
  assumes "closing_inv L as" and "same_closing L M"
  shows "closing_inv M as"
proof -
  have "closing_chain (handles M) (closing_handles M) as = closing_chain (handles L) (closing_handles L) as"
    using assms(2) by (subst closing_chain_cong [of _ "handles M" "handles L"]) (auto simp: same_closing_def)
  then show ?thesis using assms by (simp add: closing_inv_def being_closed_def same_closing_def)
qed

lemma same_closing_stop [simp]: "same_closing L (uv__handle_stop a L)"
  by (simp add: same_closing_def)

lemma loop_inv_stop:
  assumes inv: "loop_inv interest as L" and a: "a \<in> set (handle_queue L)" "htype (handles L a) \<notin> {UV_TIMER, UV_PREPARE, UV_CHECK, UV_IDLE}"
  shows "loop_inv interest as (uv__handle_stop a L)"
proof -
  let ?S = "uv__handle_stop a L"
  obtain h n where S: "?S = L\<lparr>handles := h, active_handles := n\<rparr>" using handle_stop_shape [of a L] by blast
  have f: "timer_heap ?S = timer_heap L" "timers ?S = timers L" "pending_run ?S = pending_run L" unfolding S by simp_all
  have "a \<notin> timer_nodes L" using a(2) by (simp add: timer_nodes_def)
  then have n: "timer_nodes ?S = timer_nodes L" by (auto simp: timer_nodes_def)
  have "a \<notin> lw_active k L" for k using a(2) by (cases k) (auto simp: lw_active_def)
  then have l: "lw_active k ?S = lw_active k L" for k by (simp add: lw_active_stop)
  have i: "timer_inv L" "\<And>k. lw_inv k L" "\<And>k. lw_run L k = []" "closing_inv L as" using inv by (simp_all add: loop_inv_def)
  have h: "handle_inv ?S" using i(1) a(1) by (intro handle_stop_inv) simp_all
  have "timer_inv ?S" using i(1) h by (simp add: timer_inv_def n f)
  moreover have "lw_inv k ?S" for k using i(2) [of k] h by (simp add: lw_inv_def l)
  moreover have "closing_inv ?S as" by (rule closing_inv_flags [OF i(4)]) simp
  ultimately show ?thesis using inv by (simp add: loop_inv_def f)
qed

lemma loop_inv_lw_stop:
  assumes inv: "loop_inv interest as L" and a: "a \<in> set (handle_queue L)" "htype (handles L a) = lw_type k"
  shows "loop_inv interest as (snd (uv_lw_stop k a L))" and "\<not> uv__is_active (snd (uv_lw_stop k a L)) a"
proof -
  let ?S = "snd (uv_lw_stop k a L)"
  show "\<not> uv__is_active ?S a" by (simp add: uv_lw_stop_def Let_def)
  have i: "timer_inv L" "\<And>j. lw_inv j L" "\<And>j. lw_run L j = []" "closing_inv L as" "poll_inv interest L"
    using inv by (simp_all add: loop_inv_def)
  show "loop_inv interest as ?S"
  proof (cases "uv__is_active L a")
    case False
    then show ?thesis using inv by (simp add: uv_lw_stop_def)
  next
    case True
    define M where "M = L\<lparr>lw_handles := (lw_handles L)(k := removeAll a (lw_handles L k)), lw_run := (lw_run L)(k := removeAll a (lw_run L k))\<rparr>"
    have S: "?S = uv__handle_stop a M" using True by (simp add: uv_lw_stop_def M_def Let_def)
    obtain h n where sh: "uv__handle_stop a M = M\<lparr>handles := h, active_handles := n\<rparr>" using handle_stop_shape [of a M] by blast
    have f: "timer_heap ?S = timer_heap L" "timers ?S = timers L" "pending_run ?S = pending_run L"
      unfolding S sh by (simp_all add: M_def)
    have m: "uv__is_active M b = uv__is_active L b" "handles M = handles L" "handle_queue M = handle_queue L" "lw_cb M = lw_cb L" for b
      by (simp_all add: M_def)
    have "a \<notin> timer_nodes L" using a(2) by (cases k) (auto simp: timer_nodes_def)
    then have n: "timer_nodes ?S = timer_nodes L" by (auto simp: timer_nodes_def S m)
    have l: "lw_inv j ?S" for j
    proof (cases "j = k")
      case True
      then show ?thesis using lw_stop_inv [OF i(2) a(1)] by simp
    next
      case False
      then have "lw_type j \<noteq> lw_type k" by (cases j; cases k) simp_all
      then have "a \<notin> lw_active j L" using a(2) by (simp add: lw_active_def)
      then have "lw_active j ?S = lw_active j L" by (auto simp: lw_active_def S m)
      moreover have "lw_handles ?S j = lw_handles L j" "lw_run ?S j = lw_run L j" "lw_cb ?S = lw_cb L"
        using False by (simp_all add: S M_def)
      moreover have "handle_inv ?S" using lw_stop_inv [OF i(2) a(1)] by (simp add: lw_inv_def)
      ultimately show ?thesis using i(2) [of j] by (simp add: lw_inv_def)
    qed
    have "timer_inv ?S" using i(1) l [of k] by (simp add: timer_inv_def lw_inv_def n f)
    moreover have sc: "same_closing L ?S" by (simp add: S same_closing_def m) (simp add: M_def hflags_def)
    moreover have "lw_run ?S j = []" for j using i(3) [of j] i(3) [of k] by (simp add: S M_def)
    moreover have "poll_inv interest M = poll_inv interest L" by (rule poll_inv_same) (simp_all add: M_def)
    then have "poll_inv interest ?S" using i(5) by (simp add: S)
    moreover have "closing_inv ?S as" by (rule closing_inv_flags [OF i(4) sc])
    ultimately show ?thesis using inv l sc by (simp add: loop_inv_def f same_closing_def)
  qed
qed

text \<open>The types that are closed within this loop; a poll handle's watcher must be its own.\<close>

definition closes_here :: "addr \<Rightarrow> ('k, 'a) evloop_scheme \<Rightarrow> bool" where
  "closes_here a L \<longleftrightarrow> htype (handles L a) \<in> {UV_TIMER, UV_PREPARE, UV_CHECK, UV_IDLE, UV_ASYNC, UV_POLL} \<and>
     (htype (handles L a) = UV_POLL \<longrightarrow> pevents_ok L \<and> stoppable L a)"

definition stopped_for_close :: "('k \<Rightarrow> int \<Rightarrow> u32 option) \<Rightarrow> addr list \<Rightarrow> addr \<Rightarrow> ('k, 'a) evloop_scheme \<Rightarrow> ('k, 'a) evloop_scheme \<Rightarrow> bool" where
  "stopped_for_close interest as a L M \<longleftrightarrow> loop_inv interest as M \<and> same_closing L M \<and> \<not> uv__is_active M a \<and>
     close_cb M = close_cb L \<and> evloop.more M = evloop.more L \<and> stop_flag M = stop_flag L \<and>
     (htype (handles L a) = UV_POLL \<longrightarrow> \<not> registered M a) \<and>
     (\<forall>v. (htype (handles L a) \<noteq> UV_POLL \<or> v \<noteq> a) \<longrightarrow> registered M v = registered L v \<and> ios M v = ios L v)"

lemma close_type_timer:
  assumes inv: "loop_inv interest as L" and a: "a \<in> set (handle_queue L)" "htype (handles L a) = UV_TIMER"
  shows "\<exists>M. close_type K other a L = Some M \<and> stopped_for_close interest as a L M"
proof -
  have t: "is_timer L a" using a by (simp add: is_timer_def)
  obtain M where M: "uv_timer_stop a L = Some (0, M)" "timer_inv M" "\<not> uv__is_active M a" "timer_frame a L M"
    using timer_stop_ok [OF _ t] inv unfolding loop_inv_def by blast
  have f: "tloop.more M = tloop.more L" "same_closing L M" using M(4) by (simp_all add: timer_frame_def)
  have "loop_inv interest as M"
    by (rule loop_inv_timers [OF inv f M(2)]) (use M(4) t in \<open>auto simp: timer_frame_def\<close>)
  moreover have "stop_flag M = stop_flag L" using f(1) by (cases M, cases L) simp
  ultimately show ?thesis using M(1,3) f a(2)
    by (simp add: close_type_def uv__timer_close_def stopped_for_close_def same_more [OF f(1)])
qed

lemma close_type_lw:
  assumes inv: "loop_inv interest as L" and a: "a \<in> set (handle_queue L)" "htype (handles L a) = lw_type k"
  shows "\<exists>M. close_type K other a L = Some M \<and> stopped_for_close interest as a L M"
proof -
  let ?S = "snd (uv_lw_stop k a L)"
  have c: "close_type K other a L = Some ?S" using a(2) by (cases k) (simp_all add: close_type_def uv__lw_close_def)
  have "same_closing L ?S \<and> close_cb ?S = close_cb L \<and> evloop.more ?S = evloop.more L \<and> stop_flag ?S = stop_flag L \<and> ios ?S = ios L \<and>
      registered ?S w = registered L w" for w
  proof (cases "uv__is_active L a")
    case True
    define M where "M = L\<lparr>lw_handles := (lw_handles L)(k := removeAll a (lw_handles L k)), lw_run := (lw_run L)(k := removeAll a (lw_run L k))\<rparr>"
    obtain h n where s: "uv__handle_stop a M = M\<lparr>handles := h, active_handles := n\<rparr>" using handle_stop_shape [of a M] by blast
    have S: "?S = uv__handle_stop a M" using True by (simp add: uv_lw_stop_def M_def Let_def)
    have "same_closing L M" by (simp add: M_def same_closing_def hflags_def)
    then have "same_closing L ?S" unfolding S by (rule same_closing_trans) simp
    then show ?thesis unfolding S s by (simp add: M_def registered_def slot_at_def)
  qed (simp add: uv_lw_stop_def)
  then show ?thesis using c loop_inv_lw_stop [OF inv a] a(2) by (cases k) (simp_all add: stopped_for_close_def)
qed

lemma close_type_async:
  assumes inv: "loop_inv interest as L" and a: "a \<in> set (handle_queue L)" "htype (handles L a) = UV_ASYNC"
  shows "\<exists>M. close_type K other a L = Some M \<and> stopped_for_close interest as a L M"
proof -
  define M where "M = L\<lparr>async_handles := removeAll a (async_handles L), async_run := removeAll a (async_run L)\<rparr>"
  have c: "close_type K other a L = Some (uv__handle_stop a M)" using a(2) by (simp add: close_type_def uv__async_close_def M_def)
  obtain h n where s: "uv__handle_stop a M = M\<lparr>handles := h, active_handles := n\<rparr>" using handle_stop_shape [of a M] by blast
  have "loop_inv interest as M"
    by (rule loop_inv_same [OF inv]) (use inv poll_inv_same [of M L] in \<open>simp_all add: M_def loop_inv_def\<close>)
  then have "loop_inv interest as (uv__handle_stop a M)" by (rule loop_inv_stop) (use a in \<open>simp_all add: M_def\<close>)
  moreover have "same_closing L (uv__handle_stop a M)" by (simp add: same_closing_def M_def) (simp add: hflags_def)
  moreover have "close_cb (uv__handle_stop a M) = close_cb L" "evloop.more (uv__handle_stop a M) = evloop.more L"
    "stop_flag (uv__handle_stop a M) = stop_flag L" "ios (uv__handle_stop a M) = ios L" "registered (uv__handle_stop a M) w = registered L w" for w
    unfolding s by (simp_all add: M_def registered_def slot_at_def)
  ultimately show ?thesis using c a(2) by (simp add: stopped_for_close_def)
qed

lemma close_type_poll:
  assumes inv: "loop_inv interest as L" and a: "a \<in> set (handle_queue L)" "htype (handles L a) = UV_POLL"
    and pe: "pevents_ok L" "stoppable L a"
  shows "\<exists>M. close_type K other a L = Some M \<and> stopped_for_close interest as a L M"
proof -
  have pi: "poll_inv interest L" using inv by (simp add: loop_inv_def)
  then have io: "io_inv L" by (simp add: poll_inv_def)
  obtain N where N: "uv__io_stop a poll_mask L = Some N" "pevents (ios N a) = clear_flag (pevents (ios L a)) poll_mask"
      "registered N a \<longleftrightarrow> pevents (ios N a) \<noteq> 0" "io_frame a L N"
    using io_stop_ok [OF io pe(2), of poll_mask] by auto
  have pN: "poll_inv interest N" using poll_inv_io_stop [OF pi pe(2), of poll_mask] N(1) by simp
  have nr: "\<not> registered N a" using N(2,3) pe(1) by (simp add: pevents_ok_def)
  have fr: "\<And>v. v \<noteq> a \<Longrightarrow> registered N v = registered L v \<and> ios N v = ios L v" "pending_run N = pending_run L"
      "tloop.truncate N = tloop.truncate L" "iloop.more N = iloop.more L"
    using N(4) by (simp_all add: io_frame_def)
  have g: "active_handles N = active_handles L" "handle_queue N = handle_queue L" "closing_handles N = closing_handles L"
      "handles N = handles L" "timer_heap N = timer_heap L" "timers N = timers L"
    using fr(3) by (cases N, cases L, simp add: tloop.defs)+
  have m: "lw_handles N = lw_handles L" "lw_run N = lw_run L" "lw_cb N = lw_cb L" "close_cb N = close_cb L"
      "evloop.more N = evloop.more L" "stop_flag N = stop_flag L"
    using fr(4) by (cases N, cases L, simp)+
  let ?S = "uv__handle_stop a N"
  obtain h n where s: "?S = N\<lparr>handles := h, active_handles := n\<rparr>" using handle_stop_shape [of a N] by blast
  have "loop_inv interest as N" by (rule loop_inv_same [OF inv pN]) (simp_all add: g m fr(2))
  then have "loop_inv interest as ?S" by (rule loop_inv_stop) (use a in \<open>simp_all add: g\<close>)
  moreover have "same_closing L ?S" by (simp add: same_closing_def g) (simp add: g hflags_def)
  moreover have "close_cb ?S = close_cb L" "evloop.more ?S = evloop.more L" "stop_flag ?S = stop_flag L"
    unfolding s by (simp_all add: m)
  moreover have "close_type K other a L = Some ?S"
    using a(2) N(1) by (simp add: close_type_def uv__poll_close_def uv__poll_stop_def)
  ultimately show ?thesis using nr fr(1) a(2) by (simp add: stopped_for_close_def)
qed

lemma close_type_ok:
  assumes "loop_inv interest as L" and "a \<in> set (handle_queue L)" and "closes_here a L"
  shows "\<exists>M. close_type K other a L = Some M \<and> stopped_for_close interest as a L M"
proof -
  consider "htype (handles L a) = UV_TIMER" | k where "htype (handles L a) = lw_type k" | "htype (handles L a) = UV_ASYNC" |
      "htype (handles L a) = UV_POLL"
    using assms(3) lw_type.simps unfolding closes_here_def by (metis empty_iff insert_iff)
  then show ?thesis
  proof cases
    case 4
    then show ?thesis using assms(3) close_type_poll [OF assms(1,2) 4] by (simp add: closes_here_def)
  qed (fact close_type_timer [OF assms(1,2)] close_type_lw [OF assms(1,2)] close_type_async [OF assms(1,2)])+
qed

lemma uv_close_closes:
  assumes inv: "loop_inv interest as L" and a: "a \<in> set (handle_queue L)" "\<not> uv__is_closing L a" "closes_here a L"
  shows "\<exists>L'. uv_close K other a cb L = Some L' \<and> loop_inv interest (a # as) L' \<and> \<not> uv__is_active L' a \<and>
    close_cb L' = (close_cb L)(a := cb) \<and> stop_flag L' = stop_flag L \<and> handle_queue L' = handle_queue L \<and>
    closing_handles L' \<noteq> None \<and> (htype (handles L a) = UV_POLL \<longrightarrow> \<not> registered L' a) \<and>
    (\<forall>v. registered L' v \<longrightarrow> registered L v \<and> io_fd (ios L' v) = io_fd (ios L v)) \<and>
    htype (handles L' a) = htype (handles L a) \<and> evloop.more L' = evloop.more L"
proof -
  define C where "C = (set_flags a (add_flag (hflags L a) UV_CLOSING) L)\<lparr>close_cb := (close_cb L)(a := cb)\<rparr>"
  have nc: "\<not> has_flag (hflags L a) UV_CLOSING" "\<not> has_flag (hflags L a) UV_CLOSED"
    using a(2) has_flag_or_mask [of "hflags L a" UV_CLOSING UV_CLOSED] by (simp_all add: uv__is_closing_def)
  have fC: "hflags C b = (if b = a then add_flag (hflags L a) UV_CLOSING else hflags L b)"
      "htype (handles C b) = htype (handles L b)" "next_closing (handles C b) = next_closing (handles L b)" for b
    by (simp_all add: C_def hflags_def set_flags_def)
  have sC: "handle_queue C = handle_queue L" "closing_handles C = closing_handles L" "stop_flag C = stop_flag L" "ios C = ios L"
      "evloop.more C = evloop.more L" "close_cb C = (close_cb L)(a := cb)" "registered C w = registered L w" "slot_at C = slot_at L"
      "active_handles C = active_handles L" "timer_heap C = timer_heap L" "timers C = timers L" "lw_handles C = lw_handles L"
      "lw_run C = lw_run L" "lw_cb C = lw_cb L" "pending_run C = pending_run L" for w
    by (simp_all add: C_def set_flags_def registered_def slot_at_def fun_eq_iff)
  have pC: "poll_inv interest C = poll_inv interest L" by (rule poll_inv_same) (simp_all add: C_def set_flags_def)
  have aC: "uv__is_active C b = uv__is_active L b" "uv__has_ref C b = uv__has_ref L b" for b
    by (simp_all add: uv__is_active_def uv__has_ref_def fC)
  have bC: "being_closed C b \<longleftrightarrow> b = a \<or> being_closed L b" for b using nc by (auto simp: being_closed_def fC)
  have new: "a \<notin> set as" using inv nc by (auto simp: loop_inv_def closing_inv_def being_closed_def)
  have "closing_chain (handles C) (closing_handles C) as = closing_chain (handles L) (closing_handles L) as"
    unfolding sC by (rule closing_chain_cong) (simp add: fC)
  then have clC: "closing_inv C as" using inv by (simp add: loop_inv_def closing_inv_def bC sC)
  have invC: "loop_inv interest as C"
    by (rule loop_core_same [OF _ _ _ _ _ _ _ _ _ _ inv clC])
       (use inv in \<open>simp_all add: sC pC aC fC loop_inv_def\<close>)
  have "closes_here a C" using a(3) by (simp add: closes_here_def fC sC pevents_ok_def stoppable_def)
  then obtain M where M: "close_type K other a C = Some M" "stopped_for_close interest as a C M"
    using close_type_ok [OF invC] a(1) sC by metis
  have scM: "same_closing C M" and invM: "loop_inv interest as M" using M(2) by (simp_all add: stopped_for_close_def)
  have bM: "being_closed M a" "a \<in> set (handle_queue M)" using scM bC a(1) by (simp_all add: same_closing_def being_closed_def sC)
  have "closing_inv M as" using invM by (simp add: loop_inv_def)
  then obtain L' where L': "uv__make_close_pending a M = Some L'" "closing_inv L' (a # as)"
      "L' = M\<lparr>handles := (handles M)(a := (handles M a)\<lparr>next_closing := closing_handles M\<rparr>), closing_handles := Some a\<rparr>"
    using make_close_pending_ok [OF _ bM new] by blast
  have ty: "htype (handles M b) = htype (handles L b)" for b using scM by (simp add: same_closing_def fC)
  have f': "uv__is_active L' b = uv__is_active M b" "uv__has_ref L' b = uv__has_ref M b" "htype (handles L' b) = htype (handles M b)" for b
    by (simp_all add: L'(3) uv__is_active_def uv__has_ref_def hflags_def)
  have "poll_inv interest L' = poll_inv interest M" "registered L' w = registered M w" for w
    by (rule poll_inv_same, simp_all add: L'(3))+
  note p' = this
  have cl: "closable (htype (handles L a))" using a(3) by (auto simp: closes_here_def closable_def)
  have inv': "loop_inv interest (a # as) L'"
    by (rule loop_core_same [OF _ _ _ _ _ _ _ _ _ _ invM L'(2)])
       (use invM cl in \<open>simp_all add: f' p' ty loop_inv_def\<close>, (simp add: L'(3))+)
  have "uv_close K other a cb L = Some L'"
  proof -
    have "htype (handles L a) \<noteq> UV_SIGNAL" using a(3) by (auto simp: closes_here_def)
    then show ?thesis using a(2) M(1) L'(1) by (simp add: uv_close_def Let_def C_def set_flags_def)
  qed
  moreover have "htype (handles L a) = UV_POLL \<longrightarrow> \<not> registered M a"
      "\<forall>v. registered M v \<longrightarrow> registered L v \<and> ios M v = ios L v"
    using M(2) by (auto simp: stopped_for_close_def fC sC)
  moreover have "handle_queue M = handle_queue L" "\<not> uv__is_active M a" "close_cb M = (close_cb L)(a := cb)" "stop_flag M = stop_flag L"
      "evloop.more M = evloop.more L"
    using M(2) scM by (simp_all add: stopped_for_close_def same_closing_def sC)
  ultimately show ?thesis
    using inv' by (intro exI [of _ L'] conjI) (simp_all add: f' p' ty, (simp add: L'(3))+)
qed


lemma nowait_run:
  assumes "ctl_laws K interest pollable" and "wait_laws K interest" and "loop_inv interest as L"
    and "\<forall>w. registered L w \<longrightarrow> pollable (io_fd (ios L w))" and "uv__loop_alive L" and "\<not> stop_flag L"
  shows "\<exists>ts es L'. uv_run K note_callbacks UV_RUN_NOWAIT L = Some (uv__loop_alive L', L') \<and>
    evloop.more L' = evloop.more L @ timer_events L ts @
      map (\<lambda>w. Io_ev (io_cb (ios L w)) w POLLOUT) (pending_queue L) @ lw_events Idle L @ lw_events Prepare L @
      map (\<lambda>(cb, w, ev). Io_ev cb w ev) es @ lw_events Check L @ close_log Close_ev (close_cb L) as \<and>
    distinct ts \<and> set ts = due_timers (uv__update_time K L) \<and> sorted_wrt (\<lambda>a b. \<not> timer_less_than (timers L) b a) ts"
proof -
  obtain ts es L' where R: "run_iteration K note_callbacks UV_RUN_NOWAIT L = Some L'"
    "distinct ts \<and> set ts = due_timers (uv__update_time K L) \<and> sorted_wrt (\<lambda>a b. \<not> timer_less_than (timers L) b a) ts"
    "evloop.more L' = evloop.more L @ timer_events L ts @
      map (\<lambda>w. Io_ev (io_cb (ios L w)) w POLLOUT) (pending_queue L) @ lw_events Idle L @ lw_events Prepare L @
      map (\<lambda>(cb, w, ev). Io_ev cb w ev) es @ lw_events Check L @ close_log Close_ev (close_cb L) as"
    using nowait_iteration [OF assms(1-4)] by blast
  let ?S = "if stop_flag L' then L'\<lparr>stop_flag := False\<rparr> else L'"
  have run: "uv_run K note_callbacks UV_RUN_NOWAIT L = Some (uv__loop_alive L', ?S)"
    using assms(5,6) R(1) by (simp add: uv_run_def run_loop.simps)
  have "uv__loop_alive ?S = uv__loop_alive L'"
    by (simp add: uv__loop_alive_def uv__has_active_handles_def uv__has_active_reqs_def)
  then show ?thesis using run R(2,3)
    by (intro exI [of _ ts] exI [of _ es] exI [of _ ?S]) simp
qed

section \<open>Properties\<close>



text \<open>The timeout of the poll, \<open>uv_backend_timeout\<close>, is 0 when the loop is stopped, has nothing to wait
  for, or has idle handles, pending watchers or handles being closed; otherwise it is -1 when no timer is active,
  and else the time until the earliest active timer is due, never negative and cut off at \<open>INT_MAX\<close>,
  computed without a wrap-around for any 64-bit times.\<close>

theorem backend_timeout_exact:
  assumes "timer_inv L"
  shows "uv_backend_timeout L =
    (if stop_flag L \<or> (live_handles L = {} \<and> active_reqs L = []) \<or> lw_handles L Idle \<noteq> [] \<or> pending_queue L \<noteq> [] \<or>
        closing_handles L \<noteq> None then 0
     else if timer_nodes L = {} then - 1
     else min INT_MAX (max 0 (Min ((\<lambda>a. uint (timeout (timers L a))) ` timer_nodes L) - uint (time L))))"
  using next_timeout_eq [OF assms] has_active_handles_iff [OF timer_inv_handle [OF assms]]
  by (auto simp: uv_backend_timeout_def uv__has_active_reqs_def)

text \<open>When the pipe for signals cannot be made, \<open>uv_loop_init\<close> gives the error of \<open>pipe2\<close> and leaks the epoll
  instance it has created before: nothing is closed after the pipe has failed, since
  \<open>uv__platform_loop_delete\<close> returns at once when the inotify descriptor is -1, as it always is here.\<close>

theorem loop_init_failure_leaks_epoll:
  assumes "sig_once L" and "\<not> no_pipe2 L"
    and "sys_epoll_create1 K (kern (uv__update_time K (blank_loop L))) = (fd, k1)" and "fd \<ge> 0"
    and "sys_pipe2 K k1 = ((- e, p0, p1), k2)" and "e \<notin> {0, AS_ENOSYS}"
  shows "\<exists>L'. uv_loop_init K realloc_ok L = Some (- e, L') \<and> backend_fd L' = fd \<and> kern L' = k2"
proof -
  let ?U = "uv__update_time K (blank_loop L)"
  obtain c k t where U: "?U = (blank_loop L)\<lparr>fast_clock := c, kern := k, time := t\<rparr>"
    using update_time_shape [of K "blank_loop L"] by (elim exE conjE) (rule that)
  define P where "P = (uv__async_init ?U)\<lparr>sig_fds := (- 1, - 1), backend_fd := fd, emfile_fd := - 1, timer_counter := 0, stop_flag := False,
      kern := k1, inotify_fd := - 1\<rparr>"
  have ka: "kern (uv__async_init ?U) = kern ?U" by (simp add: uv__async_init_def set_io_def)
  have "uv__platform_loop_init K ((uv__async_init ?U)\<lparr>sig_fds := (- 1, - 1), backend_fd := - 1, emfile_fd := - 1, timer_counter := 0,
      stop_flag := False\<rparr>) = (0, P)"
    using assms(3,4) by (simp add: uv__platform_loop_init_def Let_def ka P_def)
  moreover have "uv__signal_global_once_init K L = Some L" using assms(1) by (simp add: uv__signal_global_once_init_def)
  moreover have "uv_signal_init K realloc_ok (child_watcher P) P = Some (- e, P\<lparr>kern := k2\<rparr>)"
  proof -
    have "no_pipe2 ?U = no_pipe2 L" unfolding U by (simp add: blank_loop_def)
    then have "no_pipe2 P = no_pipe2 L" "fst (sig_fds P) = - 1" "kern P = k1"
      by (simp_all add: P_def uv__async_init_def set_io_def)
    then have "uv__make_pipe K P = ((- e, p0, p1), P\<lparr>kern := k2\<rparr>)"
      using assms(2,5,6) by (simp add: uv__make_pipe_def)
    then show ?thesis using assms(6) \<open>fst (sig_fds P) = - 1\<close>
      by (simp add: uv_signal_init_def uv__signal_loop_once_init_def)
  qed
  moreover have "uv__platform_loop_delete K (P\<lparr>kern := k2\<rparr>) = Some (P\<lparr>kern := k2\<rparr>)"
    by (simp add: uv__platform_loop_delete_def P_def)
  ultimately have "uv_loop_init K realloc_ok L = Some (- e, P\<lparr>kern := k2\<rparr>)"
    using assms(6) by (simp add: uv_loop_init_def fail_signal_init_def)
  then show ?thesis by (simp add: P_def)
qed

text \<open>Timer 1 is due, watcher 8 is pending, the handles 2, 3 and 4 are an idle, a prepare and a check handle,
  and handle 9 has been closed.\<close>

definition sample_evloop :: "(skernel, loop_event list) evloop_scheme" where
  "sample_evloop = evloop.extend (sloop.extend
     (sloop.truncate sample_sigsys\<lparr>active_handles := 4, handle_queue := [1, 2, 3, 4, 9], closing_handles := Some 9,
        handles := (\<lambda>a. if a = 9 then \<lparr>flags = 0x2001, htype = UV_IDLE, next_closing = None\<rparr>
          else \<lparr>flags = 0x6000,
                htype = (if a = 1 then UV_TIMER else if a = 2 then UV_IDLE else if a = 3 then UV_PREPARE else UV_CHECK),
                next_closing = None\<rparr>),
        timer_heap := timer_heap sample_tloop, timers := timers sample_tloop, pending_queue := [8],
        lw_handles := (\<lambda>k. case k of Idle \<Rightarrow> [2] | Prepare \<Rightarrow> [3] | Check \<Rightarrow> [4]), lw_cb := (\<lambda>a. Some (a + 10)),
        close_cb := (\<lambda>_. Some 4),
        kern := \<lparr>sk_interest = (\<lambda>_. None), sk_script = [(Ready [(1, POLLIN)], 20000000)], sk_ns = 12000000\<rparr>\<rparr>)
     (evloop.fields False (- 1) 55 (- 1) 40 41 [])) []"

lemmas sample_evloop_defs = sample_evloop_def sample_signal_defs sample_tloop_def evloop.defs

lemma sample_evloop_slots:
  "slot_at sample_evloop i = (if i = 0 then Watcher 8 else if i = 1 then Watcher 7 else NoWatcher)"
  by (auto simp: slot_at_def sample_evloop_defs less_2_cases_iff)

lemma sample_evloop_registered: "registered sample_evloop w \<longleftrightarrow> w = 7 \<or> w = 8"
  by (auto simp: registered_def sample_evloop_slots) (auto simp: sample_evloop_defs split: if_splits)

lemma sample_evloop_sel:
  "handle_queue sample_evloop = [1, 2, 3, 4, 9]" "uv__is_active sample_evloop a \<longleftrightarrow> a \<noteq> 9" "uv__has_ref sample_evloop a"
  "htype (handles sample_evloop a) = (if a = 9 \<or> a = 2 then UV_IDLE else if a = 1 then UV_TIMER else if a = 3 then UV_PREPARE else UV_CHECK)"
  "timers sample_evloop a = timers sample_tloop a" "pending_queue sample_evloop = [8]" "lw_cb sample_evloop a = Some (a + 10)"
  "lw_handles sample_evloop k = (case k of Idle \<Rightarrow> [2] | Prepare \<Rightarrow> [3] | Check \<Rightarrow> [4])" "lw_run sample_evloop k = []"
  "close_cb sample_evloop a = Some 4" "evloop.more sample_evloop = []" "io_cb (ios sample_evloop 8) = 3"
  "pending_run sample_evloop = []" "active_handles sample_evloop = 4" "\<not> stop_flag sample_evloop"
  "timer_heap sample_evloop = timer_heap sample_tloop"
  by (simp_all add: sample_evloop_defs uv__is_active_def uv__has_ref_def hflags_def)

lemma sample_evloop_inv: "loop_inv sk_interest [9] sample_evloop"
proof -
  have wf: "watched_fds sample_evloop = {0, 1}" by (auto simp: watched_fds_def sample_evloop_slots)
  have "io_inv sample_evloop"
    unfolding io_inv_def wf sample_evloop_registered sample_evloop_slots
    by (auto simp: sample_evloop_defs split: if_splits)
  then have p: "poll_inv sk_interest sample_evloop"
    unfolding poll_inv_def sample_evloop_registered by (auto simp: sample_evloop_defs)
  have "live_handles sample_evloop = {1, 2, 3, 4}" by (auto simp: live_handles_def sample_evloop_sel)
  then have h: "handle_inv sample_evloop" by (simp add: handle_inv_def sample_evloop_sel)
  have n: "timer_nodes sample_evloop = {1}" by (auto simp: timer_nodes_def sample_evloop_sel split: if_splits)
  have "timer_less_than (timers sample_evloop) = timer_less_than (timers sample_tloop)"
    using sample_evloop_sel(5) by (simp add: fun_eq_iff timer_less_than_def)
  moreover have "heap_inv (timer_less_than (timers sample_tloop)) (timer_heap sample_tloop) {1}"
    using sample_tloop_inv by (simp add: timer_inv_def sample_tloop_nodes)
  ultimately have t: "timer_inv sample_evloop"
    using h sample_tloop_sel(2) by (simp add: timer_inv_def n sample_evloop_sel)
  have l: "lw_inv k sample_evloop" for k
    using h by (cases k) (auto simp: lw_inv_def lw_active_def sample_evloop_sel split: if_splits)
  have "closing_inv sample_evloop [9]"
    by (simp add: closing_inv_def being_closed_def sample_evloop_sel) (simp add: sample_evloop_defs hflags_def)
  then show ?thesis using p t l by (simp add: loop_inv_def sample_evloop_sel closable_def)
qed

lemma sample_evloop_due: "due_timers (uv__update_time sample_sys sample_evloop) = {1}"
  "timer_cb (timers sample_tloop 1) = Some 9"
proof -
  let ?U = "uv__update_time sample_sys sample_evloop"
  obtain c k t where U: "?U = sample_evloop\<lparr>fast_clock := c, kern := k, time := t\<rparr>"
    using update_time_shape [of sample_sys sample_evloop] by (elim exE conjE) (rule that)
  have n: "timer_nodes ?U = {1}"
    unfolding U by (auto simp: timer_nodes_def uv__is_active_def hflags_def sample_evloop_sel [unfolded uv__is_active_def hflags_def] split: if_splits)
  have o: "timeout (timers ?U 1) = 7" unfolding U by (simp add: sample_evloop_sel) (simp add: sample_tloop_def)
  have t: "time ?U = 12"
  proof -
    have "fast_clock sample_evloop = Some CLOCK_MONOTONIC_COARSE" "sk_ns (kern sample_evloop) = 12000000"
      by (simp_all add: sample_evloop_defs)
    moreover have "sys_gettime sample_sys clk k = ((0, 0, sk_ns k), k)" for clk k by (simp add: sample_sys_def)
    ultimately show ?thesis by (simp add: uv__update_time_def uv__hrtime_def)
  qed
  show "due_timers ?U = {1}" unfolding due_timers_def n t using o by (auto simp del: One_nat_def)
qed (simp add: sample_tloop_def)



theorem backend_timeout_exact_witness:
  "uv_backend_timeout (sample_evloop\<lparr>lw_handles := (\<lambda>_. []), pending_queue := [], closing_handles := None, time := 3\<rparr>) = 4"
proof -
  let ?L = "sample_evloop\<lparr>lw_handles := (\<lambda>_. []), pending_queue := [], closing_handles := None, time := 3\<rparr>"
  have "timer_inv sample_evloop" using sample_evloop_inv by (simp add: loop_inv_def)
  moreover have "handle_inv ?L = handle_inv sample_evloop" "timer_nodes ?L = timer_nodes sample_evloop" "live_handles ?L = live_handles sample_evloop"
    by (simp_all add: handle_inv_def live_handles_def timer_nodes_def uv__is_active_def uv__has_ref_def hflags_def)
  moreover have "timer_nodes sample_evloop = {1}" by (auto simp: timer_nodes_def sample_evloop_sel split: if_splits)
  moreover have "1 \<in> live_handles sample_evloop" by (simp add: live_handles_def sample_evloop_sel)
  moreover have "timeout (timers sample_tloop 1) = 7" by (simp add: sample_tloop_def)
  ultimately show ?thesis
    by (subst backend_timeout_exact) (auto simp: timer_inv_def sample_evloop_sel)
qed

text \<open>A kernel without descriptors for pipes, as \<open>EMFILE\<close> says.\<close>

definition sample_full :: "skernel evsyscalls" where
  "sample_full = ssyscalls.extend (ssyscalls.truncate sample_ssys\<lparr>sys_pipe2 := (\<lambda>k. ((- 24, 0, 0), k))\<rparr>)
     (evsyscalls.fields (\<lambda>k. (5, k)) (\<lambda>k. (5, k)) (\<lambda>k. (0, k)) (\<lambda>k. k) (\<lambda>k. (0, k)) (\<lambda>k. k))"

theorem loop_init_failure_leaks_epoll_witness:
  "\<exists>L'. uv_loop_init sample_full (\<lambda>_. True) sample_evloop = Some (- 24, L') \<and> backend_fd L' = 5"
proof -
  have k: "sys_epoll_create1 sample_full k = (5, k)" "sys_pipe2 sample_full k = ((- 24, 0, 0), k)" for k
    by (simp_all add: sample_full_def sample_ssys_def ssyscalls.defs evsyscalls.defs)
  have "sig_once sample_evloop" "\<not> no_pipe2 sample_evloop" by (simp_all add: sample_evloop_defs)
  from loop_init_failure_leaks_epoll [OF this k(1) _ k(2), of "\<lambda>_. True"] show ?thesis by auto
qed

end
