(* ===== verification/ThreadPool.thy ===== *)
theory ThreadPool
  imports IoWatcher "HOL-Library.Monad_Syntax" "HOL-Library.Multiset"
begin

text \<open>
  The thread pool: \<open>src/src/libuv/src/threadpool.c\<close>.  The code between a lock and its unlock is one
  step; \<open>uv_cond_wait\<close> ends a step and being woken begins another.  \<open>pool_step\<close> interleaves the steps
  of the workers with those of the loop's thread.  A request and its \<open>work_req\<close> are one address.
\<close>

section \<open>Data\<close>

abbreviation TP_EBUSY :: int where "TP_EBUSY \<equiv> 16"
abbreviation TP_EINVAL :: int where "TP_EINVAL \<equiv> 22"
abbreviation TP_ECANCELED :: int where "TP_ECANCELED \<equiv> 125"
abbreviation MAX_THREADPOOL_SIZE :: u32 where "MAX_THREADPOOL_SIZE \<equiv> 128"

text \<open>An element of the global queue, and what \<open>w->work\<close> points to.\<close>

datatype work_item = Exit_message | Work addr

datatype work_fn = Null_work | Call_work nat | Cancelled_work

datatype req_type = UV_UNKNOWN_REQ | UV_REQ | UV_CONNECT | UV_WRITE | UV_SHUTDOWN | UV_UDP_SEND | UV_FS | UV_WORK
  | UV_GETADDRINFO | UV_GETNAMEINFO

text \<open>Where a worker is: before the lock, waiting for the condition, woken from it and not yet holding the
  lock again, about to call the work, after the call, or gone (as is a thread that was not created).\<close>

datatype tstate = T_look | T_wait | T_woken | T_run addr | T_done addr | T_exit

text \<open>\<open>self_linked w\<close> is \<open>QUEUE_EMPTY(&w->wq)\<close>; \<open>done_run\<close> is the queue on the stack of a running
  \<open>uv__work_done\<close>; \<open>done_sent\<close> is the pending flag of \<open>wq_async\<close> (that it is answered is shown in the theory
  \<open>Async\<close>).  \<open>once\<close> is whether \<open>uv_once\<close> has called \<open>init_once\<close>, which reads \<open>pool_env\<close>, the value of
  UV_THREADPOOL_SIZE as \<open>atoi\<close> has it, and \<open>pool_mem\<close>, whether memory for the thread ids is granted.
  \<open>w->done\<close> is \<open>uv__queue_done\<close>: the requests are those of \<open>uv_queue_work\<close>.\<close>

record tpool = iloop +
  pool_wq :: "work_item list"
  idle_threads :: u32
  nthreads :: u32
  initialized :: bool
  once :: bool
  pool_env :: "int option"
  pool_mem :: bool
  tstate :: "nat \<Rightarrow> tstate"
  work_of :: "addr \<Rightarrow> work_fn"
  after_work_cb :: "addr \<Rightarrow> nat option"
  rtype :: "addr \<Rightarrow> req_type"
  self_linked :: "addr \<Rightarrow> bool"
  loop_wq :: "addr list"
  done_run :: "addr list"
  done_sent :: bool

section \<open>Operations\<close>

text \<open>\<open>uv_cond_signal\<close> wakes the waiting thread \<open>c\<close>, or none when there is none; \<open>wakes\<close> says that \<open>c\<close> is such
  a choice.\<close>

definition wakes :: "nat option \<Rightarrow> 'a tpool_scheme \<Rightarrow> bool" where
  "wakes c P \<longleftrightarrow> (\<forall>t. c = Some t \<longrightarrow> tstate P t = T_wait) \<and> (c = None \<longrightarrow> (\<forall>t. tstate P t \<noteq> T_wait))"

definition cond_signal :: "nat option \<Rightarrow> 'a tpool_scheme \<Rightarrow> 'a tpool_scheme" where
  "cond_signal c P = (case c of None \<Rightarrow> P | Some t \<Rightarrow> P\<lparr>tstate := (tstate P)(t := T_woken)\<rparr>)"

definition post :: "work_item \<Rightarrow> nat option \<Rightarrow> 'a tpool_scheme \<Rightarrow> 'a tpool_scheme" where
  "post q c P =
     (let P = P\<lparr>pool_wq := pool_wq P @ [q],
                self_linked := (case q of Work w \<Rightarrow> (self_linked P)(w := False) | Exit_message \<Rightarrow> self_linked P)\<rparr>
      in if idle_threads P > 0 then cond_signal c P else P)"

text \<open>The first critical section of \<open>worker\<close>, entered holding the lock.\<close>

definition worker_take :: "nat \<Rightarrow> nat option \<Rightarrow> 'a tpool_scheme \<Rightarrow> 'a tpool_scheme" where
  "worker_take t c P =
     (case pool_wq P of
        [] \<Rightarrow> P\<lparr>idle_threads := idle_threads P + 1, tstate := (tstate P)(t := T_wait)\<rparr>
      | Exit_message # _ \<Rightarrow> (let P = cond_signal c P in P\<lparr>tstate := (tstate P)(t := T_exit)\<rparr>)
      | Work w # ws \<Rightarrow> P\<lparr>pool_wq := ws, self_linked := (self_linked P)(w := True), tstate := (tstate P)(t := T_run w)\<rparr>)"

text \<open>After \<open>uv_cond_wait\<close> has the lock again.\<close>

definition worker_resume :: "nat \<Rightarrow> nat option \<Rightarrow> 'a tpool_scheme \<Rightarrow> 'a tpool_scheme" where
  "worker_resume t c P = worker_take t c (P\<lparr>idle_threads := idle_threads P - 1\<rparr>)"

text \<open>\<open>w->work(w)\<close>; \<open>uv__cancelled\<close> aborts.\<close>

definition worker_run :: "nat \<Rightarrow> addr \<Rightarrow> 'a tpool_scheme \<Rightarrow> 'a tpool_scheme option" where
  "worker_run t w P =
     (case work_of P w of Call_work f \<Rightarrow> Some (P\<lparr>tstate := (tstate P)(t := T_done w)\<rparr>) | _ \<Rightarrow> None)"

text \<open>Handing a request to its loop.\<close>

definition loop_post :: "addr \<Rightarrow> 'a tpool_scheme \<Rightarrow> 'a tpool_scheme" where
  "loop_post w P = P\<lparr>loop_wq := loop_wq P @ [w], self_linked := (self_linked P)(w := False), done_sent := True\<rparr>"

definition worker_finish :: "nat \<Rightarrow> addr \<Rightarrow> 'a tpool_scheme \<Rightarrow> 'a tpool_scheme" where
  "worker_finish t w P = (loop_post w (P\<lparr>work_of := (work_of P)(w := Null_work)\<rparr>))\<lparr>tstate := (tstate P)(t := T_look)\<rparr>"

text \<open>The result has the number of ids there is room for, and of threads.\<close>

definition pool_size :: "int option \<Rightarrow> bool \<Rightarrow> nat \<times> u32" where
  "pool_size env mem =
     (let n = (case env of None \<Rightarrow> 4 | Some v \<Rightarrow> word_of_int v) :: u32;
          n = (if n = 0 then 1 else n);
          n = (if n > MAX_THREADPOOL_SIZE then MAX_THREADPOOL_SIZE else n)
      in if n > 4 then (if mem then (unat n, n) else (4, 4)) else (4, n))"

definition init_once :: "'a tpool_scheme \<Rightarrow> 'a tpool_scheme" where
  "init_once P =
     (let n = snd (pool_size (pool_env P) (pool_mem P))
      in P\<lparr>nthreads := n, pool_wq := [], tstate := (\<lambda>t. if t < unat n then T_look else T_exit), initialized := True\<rparr>)"

definition call_once :: "'a tpool_scheme \<Rightarrow> 'a tpool_scheme" where
  "call_once P = (if once P then P else (init_once P)\<lparr>once := True\<rparr>)"

text \<open>\<open>cleanup\<close> up to the loop that joins the threads, and from there; it blocks (None) while a thread runs.\<close>

definition cleanup :: "nat option \<Rightarrow> 'a tpool_scheme \<Rightarrow> 'a tpool_scheme" where
  "cleanup c P = (if \<not> initialized P then P else post Exit_message c P)"

definition cleanup_join :: "'a tpool_scheme \<Rightarrow> 'a tpool_scheme option" where
  "cleanup_join P =
     (if \<not> initialized P then Some P
      else if \<forall>t \<in> {..< unat (nthreads P)}. tstate P t = T_exit then Some (P\<lparr>nthreads := 0, initialized := False\<rparr>)
      else None)"

definition uv__work_submit :: "addr \<Rightarrow> work_fn \<Rightarrow> nat option \<Rightarrow> 'a tpool_scheme \<Rightarrow> 'a tpool_scheme" where
  "uv__work_submit w work c P =
     (let P = call_once P in post (Work w) c (P\<lparr>work_of := (work_of P)(w := work)\<rparr>))"

definition uv_queue_work :: "addr \<Rightarrow> nat option \<Rightarrow> nat option \<Rightarrow> nat option \<Rightarrow> 'a tpool_scheme \<Rightarrow> int \<times> 'a tpool_scheme" where
  "uv_queue_work req work_cb after_cb c P =
     (case work_cb of
        None \<Rightarrow> (- TP_EINVAL, P)
      | Some f \<Rightarrow>
          let P = uv__req_register req (P\<lparr>rtype := (rtype P)(req := UV_WORK)\<rparr>);
              P = P\<lparr>after_work_cb := (after_work_cb P)(req := after_cb)\<rparr>
          in (0, uv__work_submit req (Call_work f) c P))"

text \<open>\<open>QUEUE_REMOVE\<close> takes an element out of the queue it is in; without one the links are stale.\<close>

definition work_unlink :: "addr \<Rightarrow> 'a tpool_scheme \<Rightarrow> 'a tpool_scheme option" where
  "work_unlink w P =
     (if Work w \<in> set (pool_wq P) \<or> w \<in> set (loop_wq P) \<or> w \<in> set (done_run P)
      then Some (P\<lparr>pool_wq := removeAll (Work w) (pool_wq P), loop_wq := removeAll w (loop_wq P),
                   done_run := removeAll w (done_run P)\<rparr>)
      else None)"

text \<open>The two critical sections of \<open>uv__work_cancel\<close>.\<close>

definition cancel_unlink :: "addr \<Rightarrow> 'a tpool_scheme \<Rightarrow> (bool \<times> 'a tpool_scheme) option" where
  "cancel_unlink w P =
     (let cancelled = (\<not> self_linked P w \<and> work_of P w \<noteq> Null_work)
      in if cancelled then map_option (Pair True) (work_unlink w P) else Some (False, P))"

definition cancel_post :: "addr \<Rightarrow> 'a tpool_scheme \<Rightarrow> 'a tpool_scheme" where
  "cancel_post w P = loop_post w (P\<lparr>work_of := (work_of P)(w := Cancelled_work)\<rparr>)"

definition uv__work_cancel :: "addr \<Rightarrow> 'a tpool_scheme \<Rightarrow> (int \<times> 'a tpool_scheme) option" where
  "uv__work_cancel w P =
     do { (cancelled, P) \<leftarrow> cancel_unlink w P;
          if \<not> cancelled then Some (- TP_EBUSY, P) else Some (0, cancel_post w P) }"

definition uv_cancel :: "addr \<Rightarrow> 'a tpool_scheme \<Rightarrow> (int \<times> 'a tpool_scheme) option" where
  "uv_cancel req P =
     (if rtype P req \<in> {UV_FS, UV_GETADDRINFO, UV_GETNAMEINFO, UV_WORK} then uv__work_cancel req P else Some (- TP_EINVAL, P))"

text \<open>\<open>call cb req err\<close> is what the callback \<open>cb\<close> of a request does.\<close>

definition uv__queue_done ::
  "(nat \<Rightarrow> addr \<Rightarrow> int \<Rightarrow> 'a tpool_scheme \<Rightarrow> 'a tpool_scheme option) \<Rightarrow> addr \<Rightarrow> int \<Rightarrow> 'a tpool_scheme \<Rightarrow> 'a tpool_scheme option" where
  "uv__queue_done call req err P =
     do { P \<leftarrow> uv__req_unregister req P;
          (case after_work_cb P req of None \<Rightarrow> Some P | Some cb \<Rightarrow> call cb req err P) }"

text \<open>A round of \<open>uv__work_done\<close>, for the head \<open>w\<close> of the queue.\<close>

definition work_done_one ::
  "(nat \<Rightarrow> addr \<Rightarrow> int \<Rightarrow> 'a tpool_scheme \<Rightarrow> 'a tpool_scheme option) \<Rightarrow> addr \<Rightarrow> 'a tpool_scheme \<Rightarrow> 'a tpool_scheme option" where
  "work_done_one call w P =
     (let P = P\<lparr>done_run := removeAll w (done_run P)\<rparr>;
          err = (if work_of P w = Cancelled_work then - TP_ECANCELED else 0)
      in uv__queue_done call w err P)"

partial_function (option) work_done_loop ::
  "(nat \<Rightarrow> addr \<Rightarrow> int \<Rightarrow> 'a tpool_scheme \<Rightarrow> 'a tpool_scheme option) \<Rightarrow> 'a tpool_scheme \<Rightarrow> 'a tpool_scheme option" where
  [code]: "work_done_loop call P =
     (case done_run P of
        [] \<Rightarrow> Some P
      | w # _ \<Rightarrow> Option.bind (work_done_one call w P) (work_done_loop call))"

definition uv__work_done ::
  "(nat \<Rightarrow> addr \<Rightarrow> int \<Rightarrow> 'a tpool_scheme \<Rightarrow> 'a tpool_scheme option) \<Rightarrow> 'a tpool_scheme \<Rightarrow> 'a tpool_scheme option" where
  "uv__work_done call P = work_done_loop call (P\<lparr>done_run := loop_wq P, loop_wq := []\<rparr>)"

section \<open>Workers and the loop at once\<close>

text \<open>Where the loop is: elsewhere, in the callback of \<open>wq_async\<close> before it has taken the queue, or calling
  the requests that are done.\<close>

datatype done_phase = Not_called | Entered | Calling

text \<open>\<open>cancelling\<close> is the request between the two sections of \<open>uv__work_cancel\<close>.  The other fields only
  observe: how often a request was submitted, how often its work was called since, and the calls of done
  callbacks, with their status and that count.\<close>

record tpsys = tpool +
  cancelling :: ptr
  phase :: done_phase
  submits :: "addr \<Rightarrow> nat"
  executed :: "addr \<Rightarrow> nat"
  completions :: "(addr \<times> int \<times> nat) list"

definition note_done :: "nat \<Rightarrow> addr \<Rightarrow> int \<Rightarrow> tpsys \<Rightarrow> tpsys option" where
  "note_done cb w err P = Some P"

definition completed :: "addr \<Rightarrow> tpsys \<Rightarrow> tpsys \<Rightarrow> tpsys" where
  "completed w P P' = P'\<lparr>completions := completions P @
     [(w, if work_of P w = Cancelled_work then - TP_ECANCELED else 0, executed P w)]\<rparr>"

text \<open>The user submits a request that is not under way, and cancels one that is; both may happen in a done
  callback.\<close>

inductive pool_step :: "tpsys \<Rightarrow> tpsys \<Rightarrow> bool" where
  look: "tstate P t = T_look \<Longrightarrow> wakes c P \<Longrightarrow> pool_step P (worker_take t c P)"
| resume: "tstate P t = T_woken \<Longrightarrow> wakes c P \<Longrightarrow> pool_step P (worker_resume t c P)"
| spurious: "tstate P t = T_wait \<Longrightarrow> pool_step P (P\<lparr>tstate := (tstate P)(t := T_woken)\<rparr>)"
| run: "tstate P t = T_run w \<Longrightarrow> worker_run t w P = Some P' \<Longrightarrow> pool_step P (P'\<lparr>executed := (executed P)(w := executed P w + 1)\<rparr>)"
| finish: "tstate P t = T_done w \<Longrightarrow> pool_step P (worker_finish t w P)"
| submit: "cancelling P = None \<Longrightarrow> w \<notin> set (active_reqs P) \<Longrightarrow> wakes c P \<Longrightarrow> uv_queue_work w (Some f) after c P = (0, P') \<Longrightarrow>
    pool_step P (P'\<lparr>submits := (submits P)(w := submits P w + 1), executed := (executed P)(w := 0)\<rparr>)"
| unlink: "cancelling P = None \<Longrightarrow> w \<in> set (active_reqs P) \<Longrightarrow> cancel_unlink w P = Some (True, P') \<Longrightarrow>
    pool_step P (P'\<lparr>cancelling := Some w\<rparr>)"
| cancel: "cancelling P = Some w \<Longrightarrow> pool_step P (cancel_post w P\<lparr>cancelling := None\<rparr>)"
| enter: "cancelling P = None \<Longrightarrow> phase P = Not_called \<Longrightarrow> done_sent P \<Longrightarrow> pool_step P (P\<lparr>done_sent := False, phase := Entered\<rparr>)"
| move: "phase P = Entered \<Longrightarrow> pool_step P (P\<lparr>done_run := loop_wq P, loop_wq := [], phase := Calling\<rparr>)"
| one: "cancelling P = None \<Longrightarrow> phase P = Calling \<Longrightarrow> done_run P = w # ws \<Longrightarrow> work_done_one note_done w P = Some P' \<Longrightarrow>
    pool_step P (completed w P P')"
| leave: "cancelling P = None \<Longrightarrow> phase P = Calling \<Longrightarrow> done_run P = [] \<Longrightarrow> pool_step P (P\<lparr>phase := Not_called\<rparr>)"
| exit: "Exit_message \<notin> set (pool_wq P) \<Longrightarrow> wakes c P \<Longrightarrow> pool_step P (cleanup c P)"

inductive pool_reach :: "tpsys \<Rightarrow> tpsys \<Rightarrow> bool" for P0 where
  start: "pool_reach P0 P0"
| step: "pool_reach P0 P \<Longrightarrow> pool_step P P' \<Longrightarrow> pool_reach P0 P'"

text \<open>A pool that was just made, for a loop without requests.\<close>

definition pool_fresh :: "tpsys \<Rightarrow> bool" where
  "pool_fresh P \<longleftrightarrow> (\<exists>Q. P = init_once Q) \<and> once P \<and> idle_threads P = 0 \<and> active_reqs P = [] \<and> loop_wq P = [] \<and>
     done_run P = [] \<and> cancelling P = None \<and> phase P = Not_called \<and> completions P = [] \<and> (\<forall>w. submits P w = 0)"

section \<open>Every request is in one place\<close>

fun works :: "work_item list \<Rightarrow> addr list" where
  "works [] = []"
| "works (Exit_message # xs) = works xs"
| "works (Work w # xs) = w # works xs"

fun holds :: "tstate \<Rightarrow> ptr" where
  "holds (T_run w) = Some w"
| "holds (T_done w) = Some w"
| "holds _ = None"

lemma works_append [simp]: "works (xs @ ys) = works xs @ works ys"
  by (induction xs rule: works.induct) simp_all

lemma set_works [simp]: "w \<in> set (works xs) \<longleftrightarrow> Work w \<in> set xs"
  by (induction xs rule: works.induct) auto

lemma works_removeAll [simp]: "works (removeAll (Work w) xs) = removeAll w (works xs)"
  by (induction xs rule: works.induct) auto

lemma length_works: "length xs = length (works xs) + count_list xs Exit_message"
  by (induction xs rule: works.induct) auto

definition places :: "tpsys \<Rightarrow> addr list" where
  "places P = works (pool_wq P) @ loop_wq P @ done_run P @ (case cancelling P of None \<Rightarrow> [] | Some w \<Rightarrow> [w])"

text \<open>\<open>xs\<close> are the requests in queues, \<open>hs\<close> says which one a worker holds, and \<open>rs\<close> are those of the loop.\<close>

definition spread :: "addr list \<Rightarrow> (nat \<Rightarrow> ptr) \<Rightarrow> addr list \<Rightarrow> bool" where
  "spread xs hs rs \<longleftrightarrow> distinct xs \<and> (\<forall>t u w. hs t = Some w \<longrightarrow> hs u = Some w \<longrightarrow> t = u) \<and>
     ran hs \<inter> set xs = {} \<and> set rs = set xs \<union> ran hs"

definition place_ok :: "tpsys \<Rightarrow> bool" where
  "place_ok P \<longleftrightarrow> spread (places P) (holds \<circ> tstate P) (active_reqs P)"

lemma spread_take: "spread (w # xs) hs rs \<Longrightarrow> hs t = None \<Longrightarrow> spread xs (hs(t := Some w)) rs"
  by (auto simp: spread_def ran_map_upd ranI split: if_splits)

lemma ran_clear: "hs t = Some w \<Longrightarrow> (\<forall>t u w. hs t = Some w \<longrightarrow> hs u = Some w \<longrightarrow> t = u) \<Longrightarrow> ran (hs(t := None)) = ran hs - {w}"
  by (auto simp: ran_def) (metis option.inject)+

lemma spread_put:
  assumes "spread xs hs rs" "hs t = Some w"
  shows "spread (w # xs) (hs(t := None)) rs"
proof -
  have "w \<in> ran hs" using assms(2) by (rule ranI)
  then show ?thesis using assms by (auto simp: spread_def ran_clear split: if_splits)
qed

lemma spread_perm: "spread xs hs rs \<Longrightarrow> mset ys = mset xs \<Longrightarrow> spread ys hs rs"
  using mset_eq_setD [of ys xs] mset_eq_imp_distinct_iff [of ys xs] by (simp add: spread_def)

lemma spread_add: "spread xs hs rs \<Longrightarrow> w \<notin> set rs \<Longrightarrow> spread (w # xs) hs (rs @ [w])"
  by (auto simp: spread_def)

lemma spread_remove: "spread (w # xs) hs rs \<Longrightarrow> spread xs hs (removeAll w rs)"
  by (auto simp: spread_def)

lemma spread_same: "hs t = x \<Longrightarrow> spread xs (hs(t := x)) rs = spread xs hs rs"
  by (metis fun_upd_triv)

text \<open>What a place says of the request.\<close>

definition settled :: "tpsys \<Rightarrow> addr \<Rightarrow> bool" where
  "settled P w \<longleftrightarrow> \<not> self_linked P w \<and>
     (if work_of P w = Cancelled_work then executed P w = 0 else work_of P w = Null_work \<and> executed P w = 1)"

definition state_ok :: "tpsys \<Rightarrow> bool" where
  "state_ok P \<longleftrightarrow>
     (\<forall>w. Work w \<in> set (pool_wq P) \<longrightarrow> (\<exists>f. work_of P w = Call_work f) \<and> \<not> self_linked P w \<and> executed P w = 0) \<and>
     (\<forall>t w. tstate P t = T_run w \<longrightarrow> (\<exists>f. work_of P w = Call_work f) \<and> self_linked P w \<and> executed P w = 0) \<and>
     (\<forall>t w. tstate P t = T_done w \<longrightarrow> (\<exists>f. work_of P w = Call_work f) \<and> self_linked P w \<and> executed P w = 1) \<and>
     (\<forall>w. cancelling P = Some w \<longrightarrow> work_of P w \<noteq> Null_work \<and> executed P w = 0) \<and>
     (\<forall>w \<in> set (loop_wq P) \<union> set (done_run P). settled P w)"

lemma settled_cong:
  "work_of Q w = work_of P w \<Longrightarrow> self_linked Q w = self_linked P w \<Longrightarrow> executed Q w = executed P w \<Longrightarrow> settled Q w = settled P w"
  by (simp add: settled_def)

definition done_count :: "addr \<Rightarrow> tpsys \<Rightarrow> nat" where
  "done_count w P = length (filter (\<lambda>(v, _, _). v = w) (completions P))"

definition count_ok :: "tpsys \<Rightarrow> bool" where
  "count_ok P \<longleftrightarrow>
     (\<forall>(w, err, r) \<in> set (completions P). (err = 0 \<and> r = 1) \<or> (err = - TP_ECANCELED \<and> r = 0)) \<and>
     (\<forall>w. done_count w P + of_bool (w \<in> set (active_reqs P)) = submits P w)"

definition sent_ok :: "tpsys \<Rightarrow> bool" where
  "sent_ok P \<longleftrightarrow> (loop_wq P \<noteq> [] \<longrightarrow> done_sent P \<or> phase P = Entered) \<and> (done_run P \<noteq> [] \<longrightarrow> phase P = Calling) \<and> once P"

lemma cond_signal_sel [simp]:
  "pool_wq (cond_signal c P) = pool_wq P" "idle_threads (cond_signal c P) = idle_threads P" "nthreads (cond_signal c P) = nthreads P"
  "initialized (cond_signal c P) = initialized P" "work_of (cond_signal c P) = work_of P" "self_linked (cond_signal c P) = self_linked P"
  "after_work_cb (cond_signal c P) = after_work_cb P" "rtype (cond_signal c P) = rtype P"
  "loop_wq (cond_signal c P) = loop_wq P" "done_run (cond_signal c P) = done_run P" "done_sent (cond_signal c P) = done_sent P"
  "active_reqs (cond_signal c P) = active_reqs P" "once (cond_signal c P) = once P"
  "tpool.more (cond_signal c P) = tpool.more P"
  by (simp_all add: cond_signal_def split: option.splits)

lemma cond_signal_tpsys [simp]:
  "cancelling (cond_signal c P) = cancelling P" "phase (cond_signal c P) = phase P" "submits (cond_signal c P) = submits P"
  "executed (cond_signal c P) = executed P" "completions (cond_signal c P) = completions P"
  by (simp_all add: cond_signal_def split: option.splits)

text \<open>Waking moves no request.\<close>

lemma cond_signal_holds: "wakes c P \<Longrightarrow> holds \<circ> tstate (cond_signal c P) = holds \<circ> tstate P"
  by (auto simp: cond_signal_def wakes_def fun_eq_iff split: option.splits)

lemma cond_signal_tstate:
  assumes "wakes c P"
  shows "tstate (cond_signal c P) t = T_run w \<longleftrightarrow> tstate P t = T_run w" "tstate (cond_signal c P) t = T_done w \<longleftrightarrow> tstate P t = T_done w"
  using assms by (auto simp: cond_signal_def wakes_def split: option.splits)

lemma wakes_cong: "tstate P = tstate Q \<Longrightarrow> wakes c P = wakes c Q"
  by (simp add: wakes_def)

lemma post_sel [simp]:
  "pool_wq (post q c P) = pool_wq P @ [q]" "loop_wq (post q c P) = loop_wq P" "done_run (post q c P) = done_run P"
  "active_reqs (post q c P) = active_reqs P" "work_of (post q c P) = work_of P" "done_sent (post q c P) = done_sent P"
  "self_linked (post q c P) = (case q of Work w \<Rightarrow> (self_linked P)(w := False) | Exit_message \<Rightarrow> self_linked P)"
  "idle_threads (post q c P) = idle_threads P" "once (post q c P) = once P" "nthreads (post q c P) = nthreads P"
  by (simp_all add: post_def Let_def)

lemma post_tpsys [simp]:
  "cancelling (post q c P) = cancelling P" "phase (post q c P) = phase P" "submits (post q c P) = submits P"
  "executed (post q c P) = executed P" "completions (post q c P) = completions P"
  by (simp_all add: post_def Let_def)

lemma post_tstate:
  assumes "wakes c P"
  shows "holds \<circ> tstate (post q c P) = holds \<circ> tstate P" "tstate (post q c P) t = T_run w \<longleftrightarrow> tstate P t = T_run w"
    "tstate (post q c P) t = T_done w \<longleftrightarrow> tstate P t = T_done w"
proof -
  define Q where "Q = P\<lparr>pool_wq := pool_wq P @ [q],
                self_linked := (case q of Work w \<Rightarrow> (self_linked P)(w := False) | Exit_message \<Rightarrow> self_linked P)\<rparr>"
  have w: "wakes c Q" and t: "tstate Q = tstate P" using assms by (simp_all add: Q_def wakes_def)
  have p: "post q c P = (if idle_threads Q > 0 then cond_signal c Q else Q)" by (simp add: post_def Q_def)
  show "holds \<circ> tstate (post q c P) = holds \<circ> tstate P" "tstate (post q c P) t = T_run w \<longleftrightarrow> tstate P t = T_run w"
    "tstate (post q c P) t = T_done w \<longleftrightarrow> tstate P t = T_done w"
    using cond_signal_holds [OF w] cond_signal_tstate [OF w] by (simp_all add: p t)
qed

lemma place_take:
  assumes "place_ok P" and "holds (tstate P t) = None" and "wakes c P"
  shows "place_ok (worker_take t c P)"
proof (cases "pool_wq P")
  case Nil
  then show ?thesis using assms by (simp add: worker_take_def place_ok_def places_def fun_upd_comp spread_same split: option.splits)
next
  case (Cons x xs)
  show ?thesis
  proof (cases x)
    case Exit_message
    then show ?thesis using assms Cons
      by (simp add: worker_take_def place_ok_def places_def Let_def fun_upd_comp cond_signal_holds spread_same split: option.splits)
  next
    case (Work w)
    have "spread (w # works xs @ loop_wq P @ done_run P @ (case cancelling P of None \<Rightarrow> [] | Some w \<Rightarrow> [w]))
        (holds \<circ> tstate P) (active_reqs P)"
      using assms(1) Cons Work by (simp add: place_ok_def places_def)
    then show ?thesis using spread_take [of w _ _ _ t] assms(2) Cons Work
      by (simp add: worker_take_def place_ok_def places_def fun_upd_comp)
  qed
qed

lemma removeAll_absent: "w \<notin> set xs \<Longrightarrow> removeAll w xs = xs"
  by simp

lemma mset_removeAll_insert:
  assumes "distinct xs" "w \<in> set xs"
  shows "mset (removeAll w xs @ [w]) = mset xs"
proof -
  have "removeAll w xs = remove1 w xs" using assms(1) by (simp add: distinct_remove1_removeAll)
  then show ?thesis using assms(2) by simp
qed

lemma place_step: "pool_step P P' \<Longrightarrow> place_ok P \<Longrightarrow> sent_ok P \<Longrightarrow> place_ok P'"
proof (induction rule: pool_step.induct)
  case (look P t c)
  then show ?case by (intro place_take) simp_all
next
  case (resume P t c)
  have "place_ok (P\<lparr>idle_threads := idle_threads P - 1\<rparr>)" using resume.prems by (simp add: place_ok_def places_def)
  then show ?case unfolding worker_resume_def
    by (rule place_take) (use resume.hyps in \<open>simp_all add: wakes_def\<close>)
next
  case (spurious P t)
  then show ?case by (simp add: place_ok_def places_def fun_upd_comp spread_same)
next
  case (run P t w P')
  then show ?case
    by (auto simp: worker_run_def place_ok_def places_def fun_upd_comp split: work_fn.splits) (metis fun_upd_triv comp_apply holds.simps(1))
next
  case (finish P t w)
  have "spread (w # places P) ((holds \<circ> tstate P)(t := None)) (active_reqs P)"
    using finish by (intro spread_put) (simp_all add: place_ok_def)
  then show ?case
    by (simp add: worker_finish_def loop_post_def place_ok_def places_def fun_upd_comp) (erule spread_perm, simp)
next
  case (submit P w c f after P')
  define Q where "Q = P\<lparr>rtype := (rtype P)(w := UV_WORK), active_reqs := active_reqs P @ [w],
      after_work_cb := (after_work_cb P)(w := after), work_of := (work_of P)(w := Call_work f)\<rparr>"
  have P': "P' = post (Work w) c Q" using submit.hyps(4) submit.prems(2)
    by (simp add: uv_queue_work_def uv__work_submit_def call_once_def sent_ok_def uv__req_register_def Q_def Let_def)
  have q: "wakes c Q" using submit.hyps(3) by (simp add: Q_def wakes_def)
  have "spread (w # places P) (holds \<circ> tstate P) (active_reqs P @ [w])"
    using submit.prems submit.hyps(2) by (intro spread_add) (simp_all add: place_ok_def)
  moreover have "pool_wq Q = pool_wq P" "loop_wq Q = loop_wq P" "done_run Q = done_run P" "tstate Q = tstate P" "cancelling Q = cancelling P"
      "active_reqs Q = active_reqs P @ [w]"
    by (simp_all add: Q_def)
  ultimately show ?case
    by (simp add: place_ok_def places_def P' post_tstate [OF q]) (erule spread_perm, simp)
next
  case (unlink P w P')
  have m: "Work w \<in> set (pool_wq P) \<or> w \<in> set (loop_wq P) \<or> w \<in> set (done_run P)"
    and P': "P' = P\<lparr>pool_wq := removeAll (Work w) (pool_wq P), loop_wq := removeAll w (loop_wq P), done_run := removeAll w (done_run P)\<rparr>"
    using unlink.hyps(3) by (auto simp: cancel_unlink_def work_unlink_def Let_def split: if_splits)
  have d: "distinct (works (pool_wq P) @ loop_wq P @ done_run P)"
    using unlink.prems unlink.hyps(1) by (simp add: place_ok_def places_def spread_def)
  have "mset (removeAll w (works (pool_wq P)) @ removeAll w (loop_wq P) @ removeAll w (done_run P) @ [w]) =
      mset (works (pool_wq P) @ loop_wq P @ done_run P)"
    using mset_removeAll_insert [OF d, of w] m by simp
  then show ?case using unlink.prems unlink.hyps(1)
    by (simp add: place_ok_def places_def P') (erule spread_perm, simp)
next
  case (cancel P w)
  then show ?case
    by (simp add: cancel_post_def loop_post_def place_ok_def places_def) (erule spread_perm, simp)
next
  case (enter P)
  then show ?case by (simp add: place_ok_def places_def)
next
  case (move P)
  then have "done_run P = []" by (simp add: sent_ok_def)
  then show ?case using move.prems(1) by (simp add: place_ok_def places_def)
next
  case (one P w ws P')
  have P': "active_reqs P' = removeAll w (active_reqs P)" "pool_wq P' = pool_wq P" "loop_wq P' = loop_wq P"
      "done_run P' = removeAll w ws" "tstate P' = tstate P" "cancelling P' = None"
    using one.hyps(1,3,4)
    by (auto simp: work_done_one_def uv__queue_done_def uv__req_unregister_def note_done_def Let_def split: if_splits option.splits)
  have s: "spread (works (pool_wq P) @ loop_wq P @ w # ws) (holds \<circ> tstate P) (active_reqs P)"
    using one.prems(1) one.hyps(1,3) by (simp add: place_ok_def places_def)
  then have "spread (w # works (pool_wq P) @ loop_wq P @ ws) (holds \<circ> tstate P) (active_reqs P)"
    by (rule spread_perm) simp
  then have "spread (works (pool_wq P) @ loop_wq P @ ws) (holds \<circ> tstate P) (removeAll w (active_reqs P))"
    by (rule spread_remove)
  moreover have "removeAll w ws = ws" using s by (simp add: spread_def)
  ultimately show ?case by (simp add: completed_def place_ok_def places_def P')
next
  case (leave P)
  then show ?case by (simp add: place_ok_def places_def)
next
  case (exit P c)
  then show ?case by (simp add: cleanup_def place_ok_def places_def post_tstate)
qed

section \<open>What a place says holds\<close>

lemma holds_iff: "holds s = Some w \<longleftrightarrow> s = T_run w \<or> s = T_done w"
  by (cases s) auto

lemma ran_holds: "w \<in> ran (holds \<circ> tstate P) \<longleftrightarrow> (\<exists>t. tstate P t = T_run w \<or> tstate P t = T_done w)"
  by (auto simp: ran_def holds_iff)

text \<open>A request in one place is in no other.\<close>

lemma apart:
  assumes "place_ok P"
  shows "Work w \<in> set (pool_wq P) \<Longrightarrow> w \<notin> set (loop_wq P) \<and> w \<notin> set (done_run P) \<and> cancelling P \<noteq> Some w"
    "w \<in> set (loop_wq P) \<Longrightarrow> Work w \<notin> set (pool_wq P) \<and> w \<notin> set (done_run P) \<and> cancelling P \<noteq> Some w"
    "w \<in> set (done_run P) \<Longrightarrow> Work w \<notin> set (pool_wq P) \<and> w \<notin> set (loop_wq P) \<and> cancelling P \<noteq> Some w"
    "cancelling P = Some w \<Longrightarrow> Work w \<notin> set (pool_wq P) \<and> w \<notin> set (loop_wq P) \<and> w \<notin> set (done_run P)"
  using assms by (auto simp: place_ok_def places_def spread_def)

lemma apart_held:
  assumes "place_ok P" and "tstate P t = T_run w \<or> tstate P t = T_done w"
  shows "Work w \<notin> set (pool_wq P) \<and> w \<notin> set (loop_wq P) \<and> w \<notin> set (done_run P) \<and> cancelling P \<noteq> Some w"
    "tstate P u = T_run w \<or> tstate P u = T_done w \<Longrightarrow> u = t"
proof -
  have "w \<notin> set (places P)" using assms ran_holds [of w P] by (auto simp: place_ok_def spread_def)
  then show "Work w \<notin> set (pool_wq P) \<and> w \<notin> set (loop_wq P) \<and> w \<notin> set (done_run P) \<and> cancelling P \<noteq> Some w"
    by (auto simp: places_def)
  show "tstate P u = T_run w \<or> tstate P u = T_done w \<Longrightarrow> u = t"
    using assms unfolding place_ok_def spread_def by (metis comp_apply holds_iff)
qed

lemma take_state:
  assumes "place_ok P" "state_ok P" "wakes c P"
  shows "state_ok (worker_take t c P)"
proof (cases "pool_wq P")
  case Nil
  then show ?thesis using assms(2) by (simp add: worker_take_def state_ok_def settled_def)
next
  case (Cons x xs)
  show ?thesis
  proof (cases x)
    case Exit_message
    then show ?thesis using assms(2) Cons by (simp add: worker_take_def state_ok_def settled_def Let_def cond_signal_tstate [OF assms(3)])
  next
    case (Work w)
    have "Work w \<notin> set xs" "w \<notin> set (loop_wq P)" "w \<notin> set (done_run P)"
      using assms(1) Cons Work by (auto simp: place_ok_def places_def spread_def)
    then show ?thesis using assms(2) Cons Work by (auto simp: worker_take_def state_ok_def settled_def)
  qed
qed

lemma state_step: "pool_step P P' \<Longrightarrow> place_ok P \<Longrightarrow> sent_ok P \<Longrightarrow> state_ok P \<Longrightarrow> state_ok P'"
proof (induction rule: pool_step.induct)
  case (look P t c)
  then show ?case by (intro take_state) simp_all
next
  case (resume P t c)
  have "place_ok (P\<lparr>idle_threads := idle_threads P - 1\<rparr>)" "state_ok (P\<lparr>idle_threads := idle_threads P - 1\<rparr>)"
    using resume.prems by (simp_all add: place_ok_def places_def state_ok_def settled_def)
  then show ?case unfolding worker_resume_def
    by (rule take_state) (use resume.hyps in \<open>simp_all add: wakes_def\<close>)
next
  case (spurious P t)
  then show ?case by (simp add: state_ok_def settled_def)
next
  case (run P t w P')
  then have P': "P' = P\<lparr>tstate := (tstate P)(t := T_done w)\<rparr>" by (auto simp: worker_run_def split: work_fn.splits)
  have a: "Work w \<notin> set (pool_wq P)" "w \<notin> set (loop_wq P)" "w \<notin> set (done_run P)" "cancelling P \<noteq> Some w"
    using apart_held(1) [OF run.prems(1)] run.hyps(1) by blast+
  have o: "tstate P u = T_run w \<or> tstate P u = T_done w \<Longrightarrow> u = t" for u
    using apart_held(2) [OF run.prems(1)] run.hyps(1) by blast
  show ?case using run.prems(3) run.hyps(1) a o unfolding state_ok_def settled_def P' by auto
next
  case (finish P t w)
  have a: "Work w \<notin> set (pool_wq P)" "w \<notin> set (loop_wq P)" "w \<notin> set (done_run P)" "cancelling P \<noteq> Some w"
    using apart_held(1) [OF finish.prems(1)] finish.hyps by blast+
  have o: "tstate P u = T_run w \<or> tstate P u = T_done w \<Longrightarrow> u = t" for u
    using apart_held(2) [OF finish.prems(1)] finish.hyps by blast
  show ?case using finish.prems(3) finish.hyps a o unfolding state_ok_def settled_def worker_finish_def loop_post_def by auto
next
  case (submit P w c f after P')
  define Q where "Q = P\<lparr>rtype := (rtype P)(w := UV_WORK), active_reqs := active_reqs P @ [w],
      after_work_cb := (after_work_cb P)(w := after), work_of := (work_of P)(w := Call_work f)\<rparr>"
  have P': "P' = post (Work w) c Q" using submit.hyps(4) submit.prems(2)
    by (simp add: uv_queue_work_def uv__work_submit_def call_once_def sent_ok_def uv__req_register_def Q_def Let_def)
  have q: "wakes c Q" using submit.hyps(3) by (simp add: Q_def wakes_def)
  have n: "w \<notin> set (places P)" "\<forall>t. tstate P t \<noteq> T_run w \<and> tstate P t \<noteq> T_done w"
    using submit.prems(1) submit.hyps(2) ran_holds [of w P] by (auto simp: place_ok_def spread_def)
  have sel: "pool_wq Q = pool_wq P" "loop_wq Q = loop_wq P" "done_run Q = done_run P" "tstate Q = tstate P" "cancelling Q = cancelling P"
      "self_linked Q = self_linked P" "work_of Q = (work_of P)(w := Call_work f)"
    by (simp_all add: Q_def)
  show ?case using submit.prems(3) n unfolding state_ok_def settled_def P'
    by (auto simp: post_tstate [OF q] sel places_def)
next
  case (unlink P w P')
  have m: "Work w \<in> set (pool_wq P) \<or> w \<in> set (loop_wq P) \<or> w \<in> set (done_run P)" "work_of P w \<noteq> Null_work"
    and P': "P' = P\<lparr>pool_wq := removeAll (Work w) (pool_wq P), loop_wq := removeAll w (loop_wq P), done_run := removeAll w (done_run P)\<rparr>"
    using unlink.hyps(3) by (auto simp: cancel_unlink_def work_unlink_def Let_def split: if_splits)
  have "executed P w = 0" using m unlink.prems(3) by (auto simp: state_ok_def settled_def split: if_splits)
  then show ?case using unlink.prems(3) m(2) unfolding state_ok_def settled_def P' by auto
next
  case (cancel P w)
  have a: "Work w \<notin> set (pool_wq P)" "w \<notin> set (loop_wq P)" "w \<notin> set (done_run P)"
    using apart(4) [OF cancel.prems(1) cancel.hyps] by blast+
  have o: "tstate P u \<noteq> T_run w" "tstate P u \<noteq> T_done w" for u
    using apart_held(1) [OF cancel.prems(1)] cancel.hyps by blast+
  show ?case using cancel.prems(3) cancel.hyps a o unfolding state_ok_def settled_def cancel_post_def loop_post_def by auto
next
  case (one P w ws P')
  have P': "active_reqs P' = removeAll w (active_reqs P)" "pool_wq P' = pool_wq P" "loop_wq P' = loop_wq P"
      "done_run P' = removeAll w ws" "tstate P' = tstate P" "cancelling P' = None" "work_of P' = work_of P" "self_linked P' = self_linked P"
      "executed P' = executed P"
    using one.hyps(1,3,4)
    by (auto simp: work_done_one_def uv__queue_done_def uv__req_unregister_def note_done_def Let_def split: if_splits option.splits)
  have "set (removeAll w ws) \<subseteq> set (done_run P)" using one.hyps(3) by auto
  moreover have "settled (completed w P P') v = settled P v" for v by (simp add: settled_def completed_def P')
  ultimately show ?case using one.prems(3) unfolding state_ok_def by (auto simp: completed_def P')
next
  case (exit P c)
  then show ?case by (simp add: cleanup_def state_ok_def settled_def post_tstate)
qed (auto simp: state_ok_def settled_def sent_ok_def)

lemma take_fields [simp]:
  "loop_wq (worker_take t c P) = loop_wq P" "done_run (worker_take t c P) = done_run P" "done_sent (worker_take t c P) = done_sent P"
  "phase (worker_take t c P) = phase P" "completions (worker_take t c P) = completions P" "submits (worker_take t c P) = submits P"
  "active_reqs (worker_take t c P) = active_reqs P" "once (worker_take t c P) = once P" "nthreads (worker_take t c P) = nthreads P"
  by (simp_all add: worker_take_def Let_def split: list.split work_item.split)

lemma sent_step: "pool_step P P' \<Longrightarrow> sent_ok P \<Longrightarrow> sent_ok P'"
proof (induction rule: pool_step.induct)
  case (run P t w P')
  then show ?case by (auto simp: worker_run_def sent_ok_def split: work_fn.splits)
next
  case (finish P t w)
  then show ?case by (simp add: worker_finish_def loop_post_def sent_ok_def)
next
  case (submit P w c f after P')
  then show ?case by (auto simp: uv_queue_work_def uv__work_submit_def call_once_def uv__req_register_def Let_def sent_ok_def)
next
  case (unlink P w P')
  then show ?case by (auto simp: cancel_unlink_def work_unlink_def Let_def sent_ok_def split: if_splits)
next
  case (one P w ws P')
  then show ?case
    by (auto simp: completed_def work_done_one_def uv__queue_done_def uv__req_unregister_def note_done_def Let_def sent_ok_def
        split: if_splits option.splits)
qed (auto simp: sent_ok_def worker_resume_def cancel_post_def loop_post_def cleanup_def)

lemma count_ok_cong: "completions Q = completions P \<Longrightarrow> active_reqs Q = active_reqs P \<Longrightarrow> submits Q = submits P \<Longrightarrow> count_ok Q = count_ok P"
  by (simp add: count_ok_def done_count_def)

lemma completions_step: "pool_step P P' \<Longrightarrow> place_ok P \<Longrightarrow> state_ok P \<Longrightarrow> count_ok P \<Longrightarrow> count_ok P'"
proof (induction rule: pool_step.induct)
  case (run P t w P')
  then show ?case by (subst count_ok_cong [of _ P]) (auto simp: worker_run_def split: work_fn.splits)
next
  case (finish P t w)
  then show ?case by (simp add: worker_finish_def loop_post_def count_ok_def done_count_def)
next
  case (submit P w c f after P')
  have "completions P' = completions P" "active_reqs P' = active_reqs P @ [w]" "submits P' = submits P"
    using submit.hyps(4) by (auto simp: uv_queue_work_def uv__work_submit_def call_once_def init_once_def uv__req_register_def Let_def)
  moreover have "\<forall>v. done_count v P + of_bool (v \<in> set (active_reqs P)) = submits P v" using submit.prems(3) by (simp add: count_ok_def)
  note this [rule_format, of w]
  ultimately show ?case using submit.prems(3) submit.hyps(2) by (auto simp: count_ok_def done_count_def)
next
  case (unlink P w P')
  then show ?case
    by (subst count_ok_cong [of _ P]) (auto simp: cancel_unlink_def work_unlink_def Let_def split: if_splits)
next
  case (one P w ws P')
  have P': "active_reqs P' = removeAll w (active_reqs P)" "completions P' = completions P" "submits P' = submits P"
    using one.hyps(4)
    by (auto simp: work_done_one_def uv__queue_done_def uv__req_unregister_def note_done_def Let_def split: if_splits option.splits)
  have "w \<in> set (active_reqs P)" using one.prems(1) one.hyps(3) by (simp add: place_ok_def places_def spread_def)
  moreover have "(if work_of P w = Cancelled_work then executed P w = 0 else work_of P w = Null_work \<and> executed P w = 1)"
    using one.prems(2) one.hyps(3) by (simp add: state_ok_def settled_def)
  moreover have "\<forall>v. done_count v P + of_bool (v \<in> set (active_reqs P)) = submits P v" using one.prems(3) by (simp add: count_ok_def)
  note this [rule_format, of w]
  ultimately show ?case using one.prems(3) by (auto simp: completed_def count_ok_def done_count_def P' split: if_splits)
qed (auto simp: count_ok_def done_count_def worker_resume_def cancel_post_def loop_post_def cleanup_def)

section \<open>Idle workers\<close>

definition in_states :: "tstate set \<Rightarrow> 'a tpool_scheme \<Rightarrow> nat" where
  "in_states S P = card {t. tstate P t \<in> S}"

text \<open>\<open>idle_threads\<close> counts the workers that wait or have not got the lock again; and while some worker waits,
  there is no more work than workers on their way to the queue.\<close>

definition threads_ok :: "nat \<Rightarrow> 'a tpool_scheme \<Rightarrow> bool" where
  "threads_ok n P \<longleftrightarrow> n \<le> 128 \<and> (\<forall>t \<ge> n. tstate P t = T_exit) \<and> unat (idle_threads P) = in_states {T_wait, T_woken} P \<and>
     ((\<exists>t. tstate P t = T_wait) \<longrightarrow> length (pool_wq P) \<le> in_states {T_look, T_woken} P)"

lemma in_states_lt: "(\<forall>t \<ge> (n :: nat). f t = T_exit) \<Longrightarrow> T_exit \<notin> S \<Longrightarrow> {t. f t \<in> S} \<subseteq> {..< n}"
  by (rule subsetI, rule ccontr) (simp add: not_less)

lemma in_states_finite: "(\<forall>t \<ge> (n :: nat). f t = T_exit) \<Longrightarrow> T_exit \<notin> S \<Longrightarrow> finite {t. f t \<in> S}"
  using finite_subset [OF in_states_lt] by blast

lemma card_states_upd:
  assumes "finite {u. f u \<in> S}"
  shows "card {u. (f(t := x)) u \<in> S} + of_bool (f t \<in> S) = card {u. f u \<in> S} + of_bool (x \<in> S)"
proof -
  define B where "B = {u. f u \<in> S} - {t}"
  have B: "finite B" "t \<notin> B" using assms by (simp_all add: B_def)
  have "{u. f u \<in> S} = (if f t \<in> S then insert t B else B)" "{u. (f(t := x)) u \<in> S} = (if x \<in> S then insert t B else B)"
    by (auto simp: B_def)
  then show ?thesis using B by simp
qed

lemma in_states_upd:
  assumes "\<forall>t \<ge> n. tstate P t = T_exit" and "T_exit \<notin> S"
  shows "in_states S (P\<lparr>tstate := (tstate P)(t := x)\<rparr>) + of_bool (tstate P t \<in> S) = in_states S P + of_bool (x \<in> S)"
  using card_states_upd [OF in_states_finite [OF assms]] by (simp add: in_states_def)

lemma in_states_le:
  assumes "\<forall>t \<ge> n. tstate P t = T_exit" and "T_exit \<notin> S"
  shows "in_states S P \<le> n"
  using card_mono [OF _ in_states_lt [OF assms]] by (simp add: in_states_def)

lemma in_states_pos: "\<forall>t \<ge> n. tstate P t = T_exit \<Longrightarrow> T_exit \<notin> S \<Longrightarrow> tstate P t \<in> S \<Longrightarrow> 0 < in_states S P"
  using in_states_finite [of n "tstate P" S] by (auto simp: in_states_def card_gt_0_iff)

lemma in_states_cong: "tstate Q = tstate P \<Longrightarrow> in_states S Q = in_states S P"
  by (simp add: in_states_def)

lemma signal_counts:
  assumes "\<forall>t \<ge> n. tstate P t = T_exit" and "wakes c P"
  shows "in_states {T_wait, T_woken} (cond_signal c P) = in_states {T_wait, T_woken} P"
    "in_states {T_look, T_woken} (cond_signal c P) = in_states {T_look, T_woken} P + of_bool (\<exists>t. tstate P t = T_wait)"
    "tstate (cond_signal c P) t = T_wait \<Longrightarrow> \<exists>t. tstate P t = T_wait" "\<forall>t \<ge> n. tstate (cond_signal c P) t = T_exit"
    "tstate P u \<noteq> T_wait \<Longrightarrow> tstate (cond_signal c P) u = tstate P u"
proof -
  show "in_states {T_wait, T_woken} (cond_signal c P) = in_states {T_wait, T_woken} P"
    using assms in_states_upd [OF assms(1), of "{T_wait, T_woken}" "the c" T_woken] by (cases c) (auto simp: cond_signal_def wakes_def)
  show "in_states {T_look, T_woken} (cond_signal c P) = in_states {T_look, T_woken} P + of_bool (\<exists>t. tstate P t = T_wait)"
    using assms in_states_upd [OF assms(1), of "{T_look, T_woken}" "the c" T_woken] by (cases c) (auto simp: cond_signal_def wakes_def)
  show "\<forall>t \<ge> n. tstate (cond_signal c P) t = T_exit" "tstate P u \<noteq> T_wait \<Longrightarrow> tstate (cond_signal c P) u = tstate P u"
    "tstate (cond_signal c P) t = T_wait \<Longrightarrow> \<exists>t. tstate P t = T_wait"
    using assms by (auto simp: cond_signal_def wakes_def split: option.splits if_splits)
qed

lemma take_threads:
  assumes n: "n \<le> 128" "\<forall>t \<ge> n. tstate P t = T_exit" and w: "wakes c P" and t: "tstate P t \<in> {T_look, T_woken}"
    and idle: "unat (idle_threads P) + of_bool (tstate P t = T_woken) = in_states {T_wait, T_woken} P"
    and work: "(\<exists>t. tstate P t = T_wait) \<longrightarrow> length (pool_wq P) \<le> in_states {T_look, T_woken} P"
  shows "threads_ok n (worker_take t c P)"
proof -
  note up = in_states_upd [OF n(2)] and le = in_states_le [OF n(2)]
  have tn: "t < n" using n(2) t by (metis empty_iff insert_iff not_le tstate.distinct)
  show ?thesis
  proof (cases "pool_wq P")
    case Nil
    let ?Q = "P\<lparr>tstate := (tstate P)(t := T_wait)\<rparr>"
    have "in_states {T_wait, T_woken} ?Q = unat (idle_threads P) + 1" using up [of "{T_wait, T_woken}" t T_wait] idle t by auto
    moreover have "unat (idle_threads P) + 1 \<le> 129" using le [of "{T_wait, T_woken}"] idle n(1) by simp
    then have "unat (idle_threads P + 1) = unat (idle_threads P) + 1" by (intro unat_inc) simp
    ultimately show ?thesis using Nil n tn by (simp add: worker_take_def threads_ok_def in_states_def)
  next
    case (Cons x xs)
    show ?thesis
    proof (cases x)
      case (Work v)
      let ?Q = "P\<lparr>tstate := (tstate P)(t := T_run v)\<rparr>"
      have "in_states {T_wait, T_woken} ?Q = unat (idle_threads P)" using up [of "{T_wait, T_woken}" t "T_run v"] idle t by auto
      moreover have "in_states {T_look, T_woken} ?Q + 1 = in_states {T_look, T_woken} P" using up [of "{T_look, T_woken}" t "T_run v"] t by auto
      moreover have "worker_take t c P = ?Q\<lparr>pool_wq := xs, self_linked := (self_linked P)(v := True)\<rparr>"
        using Cons Work by (simp add: worker_take_def)
      ultimately show ?thesis using Cons n tn work in_states_cong [of "?Q\<lparr>pool_wq := xs, self_linked := (self_linked P)(v := True)\<rparr>" ?Q]
        by (auto simp: threads_ok_def split: if_splits)
    next
      case Exit_message
      let ?C = "cond_signal c P" 
      let ?Q = "?C\<lparr>tstate := (tstate ?C)(t := T_exit)\<rparr>"
      note s = signal_counts [OF n(2) w]
      have ct: "tstate ?C t = tstate P t" using t by (intro s(5)) auto
      note up' = in_states_upd [OF s(4)]
      have "in_states {T_wait, T_woken} ?Q = unat (idle_threads P)" using up' [of "{T_wait, T_woken}" t T_exit] idle t s(1) by (auto simp: ct)
      moreover have "in_states {T_look, T_woken} ?Q + 1 = in_states {T_look, T_woken} ?C"
        using up' [of "{T_look, T_woken}" t T_exit] t by (auto simp: ct)
      ultimately show ?thesis using Cons Exit_message n tn work s(2,3,4)
        by (auto simp: worker_take_def threads_ok_def Let_def split: if_splits)
    qed
  qed
qed

lemma threads_cong:
  assumes "tstate Q = tstate P" "idle_threads Q = idle_threads P" "length (pool_wq Q) \<le> length (pool_wq P)" "threads_ok n P"
  shows "threads_ok n Q"
  using assms in_states_cong [OF assms(1)] by (auto simp: threads_ok_def)

lemma post_threads:
  assumes ok: "threads_ok n P" and w: "wakes c P"
  shows "threads_ok n (post q c P)"
proof -
  define Q where "Q = P\<lparr>pool_wq := pool_wq P @ [q],
                self_linked := (case q of Work w \<Rightarrow> (self_linked P)(w := False) | Exit_message \<Rightarrow> self_linked P)\<rparr>"
  have p: "post q c P = (if idle_threads P > 0 then cond_signal c Q else Q)" by (simp add: post_def Q_def)
  have Q: "tstate Q = tstate P" "idle_threads Q = idle_threads P" "pool_wq Q = pool_wq P @ [q]" "wakes c Q"
    using w by (simp_all add: Q_def wakes_def)
  have n: "\<forall>t \<ge> n. tstate Q t = T_exit" using ok by (simp add: threads_ok_def Q)
  note s = signal_counts [OF n Q(4)] and c = in_states_cong [OF Q(1)]
  show ?thesis
  proof (cases "idle_threads P > 0")
    case True
    then show ?thesis using ok s by (auto simp: p threads_ok_def c Q)
  next
    case False
    then have "in_states {T_wait, T_woken} P = 0" using ok by (simp add: threads_ok_def word_gt_0)
    then have "\<not> (\<exists>t. tstate P t = T_wait)"
      using in_states_pos [of n P "{T_wait, T_woken}"] ok by (fastforce simp: threads_ok_def)
    then show ?thesis using False ok by (simp add: p threads_ok_def c Q)
  qed
qed

lemma move_threads:
  assumes ok: "threads_ok n P" and s: "tstate P t \<notin> {T_wait, T_woken}" and x: "x \<notin> {T_wait, T_woken}" "tstate P t \<noteq> T_look" "tstate P t \<noteq> T_exit"
  shows "threads_ok n (P\<lparr>tstate := (tstate P)(t := x)\<rparr>)"
proof -
  have n: "\<forall>t \<ge> n. tstate P t = T_exit" using ok by (simp add: threads_ok_def)
  then have "t < n" using x(3) by (metis not_le)
  then show ?thesis
    using in_states_upd [OF n, of "{T_wait, T_woken}" t x] in_states_upd [OF n, of "{T_look, T_woken}" t x] ok s x
    by (auto simp: threads_ok_def split: if_splits)
qed

lemma threads_step: "pool_step P P' \<Longrightarrow> threads_ok n P \<Longrightarrow> sent_ok P \<Longrightarrow> threads_ok n P'"
proof (induction rule: pool_step.induct)
  case (look P t c)
  then show ?case by (intro take_threads) (simp_all add: threads_ok_def)
next
  case (resume P t c)
  let ?P = "P\<lparr>idle_threads := idle_threads P - 1\<rparr>"
  have n: "\<forall>t \<ge> n. tstate P t = T_exit" using resume.prems by (simp add: threads_ok_def)
  then have "0 < in_states {T_wait, T_woken} P" by (rule in_states_pos) (use resume.hyps in auto)
  then have "unat (idle_threads P - 1) + 1 = in_states {T_wait, T_woken} P"
    using resume.prems unat_dec [of "idle_threads P"] by (simp add: threads_ok_def)
  then show ?case unfolding worker_resume_def
    by (intro take_threads) (use resume in \<open>simp_all add: threads_ok_def wakes_def in_states_def\<close>)
next
  case (spurious P t)
  have n: "\<forall>t \<ge> n. tstate P t = T_exit" using spurious.prems by (simp add: threads_ok_def)
  have "t < n" using n spurious.hyps by (metis not_le tstate.distinct)
  then show ?case
    using in_states_upd [OF n, of "{T_wait, T_woken}" t T_woken] in_states_upd [OF n, of "{T_look, T_woken}" t T_woken] spurious
    by (auto simp: threads_ok_def split: if_splits)
next
  case (run P t w P')
  then have P': "P' = P\<lparr>tstate := (tstate P)(t := T_done w)\<rparr>" by (auto simp: worker_run_def split: work_fn.splits)
  have "threads_ok n P'" unfolding P' using move_threads [OF run.prems(1), of t "T_done w"] run.hyps(1) by simp
  then show ?case by (rule threads_cong [rotated 3]) simp_all
next
  case (finish P t w)
  have "threads_ok n (P\<lparr>tstate := (tstate P)(t := T_look)\<rparr>)" using move_threads [OF finish.prems(1), of t T_look] finish.hyps by simp
  then show ?case by (rule threads_cong [rotated 3]) (simp_all add: worker_finish_def loop_post_def)
next
  case (submit P w c f after P')
  define Q where "Q = P\<lparr>rtype := (rtype P)(w := UV_WORK), active_reqs := active_reqs P @ [w],
      after_work_cb := (after_work_cb P)(w := after), work_of := (work_of P)(w := Call_work f)\<rparr>"
  have P': "P' = post (Work w) c Q" using submit.hyps(4) submit.prems(2)
    by (simp add: uv_queue_work_def uv__work_submit_def call_once_def sent_ok_def uv__req_register_def Q_def Let_def)
  have "threads_ok n Q" "wakes c Q" using submit.hyps(3) submit.prems by (simp_all add: Q_def wakes_def threads_ok_def in_states_def)
  then have "threads_ok n P'" unfolding P' by (rule post_threads)
  then show ?case by (rule threads_cong [rotated 3]) simp_all
next
  case (unlink P w P')
  then have "P' = P\<lparr>pool_wq := removeAll (Work w) (pool_wq P), loop_wq := removeAll w (loop_wq P), done_run := removeAll w (done_run P)\<rparr>"
    by (auto simp: cancel_unlink_def work_unlink_def Let_def split: if_splits)
  then show ?case by (intro threads_cong [OF _ _ _ unlink.prems(1)]) simp_all
next
  case (one P w ws P')
  then have "tstate P' = tstate P" "idle_threads P' = idle_threads P" "pool_wq P' = pool_wq P"
    by (auto simp: work_done_one_def uv__queue_done_def uv__req_unregister_def note_done_def Let_def split: if_splits option.splits)
  then show ?case by (intro threads_cong [OF _ _ _ one.prems(1)]) (simp_all add: completed_def)
next
  case (exit P c)
  then show ?case by (simp add: cleanup_def post_threads)
next
  case (cancel P w)
  from cancel.prems(1) show ?case by (rule threads_cong [rotated 3]) (simp_all add: cancel_post_def loop_post_def)
next
  case (enter P)
  from enter.prems(1) show ?case by (rule threads_cong [rotated 3]) simp_all
next
  case (move P)
  from move.prems(1) show ?case by (rule threads_cong [rotated 3]) simp_all
next
  case (leave P)
  from leave.prems(1) show ?case by (rule threads_cong [rotated 3]) simp_all
qed

lemma nthreads_step: "pool_step P P' \<Longrightarrow> sent_ok P \<Longrightarrow> nthreads P' = nthreads P"
  by (induction rule: pool_step.induct)
    (auto simp: worker_resume_def worker_run_def worker_finish_def loop_post_def uv_queue_work_def uv__work_submit_def call_once_def
      uv__req_register_def sent_ok_def cancel_unlink_def work_unlink_def cancel_post_def cleanup_def completed_def work_done_one_def
      uv__queue_done_def uv__req_unregister_def note_done_def Let_def split: work_fn.splits if_splits option.splits)

section \<open>Properties\<close>

lemma pool_size_bounds:
  "1 \<le> unat (snd (pool_size env mem)) \<and> unat (snd (pool_size env mem)) \<le> 128 \<and> unat (snd (pool_size env mem)) \<le> fst (pool_size env mem)"
proof -
  define n :: u32 where "n = (let n = (case env of None \<Rightarrow> 4 | Some v \<Rightarrow> word_of_int v); n = (if n = 0 then 1 else n)
      in if n > MAX_THREADPOOL_SIZE then MAX_THREADPOOL_SIZE else n)"
  have "n \<noteq> 0" "n \<le> 128" by (auto simp: n_def Let_def split: option.split)
  then have u: "1 \<le> unat n" "unat n \<le> 128" by (simp_all add: word_le_nat_alt Suc_leI unat_gt_0)
  have p: "pool_size env mem = (if n > 4 then (if mem then (unat n, n) else (4, 4)) else (4, n))"
    by (simp add: pool_size_def n_def Let_def)
  show ?thesis using u by (auto simp: p not_less word_le_nat_alt)
qed

lemma pool_fresh_ok:
  assumes "pool_fresh P"
  shows "place_ok P \<and> state_ok P \<and> sent_ok P \<and> count_ok P \<and> threads_ok (unat (nthreads P)) P \<and> nthreads P \<noteq> 0"
proof -
  obtain Q where P: "P = init_once Q" using assms by (auto simp: pool_fresh_def)
  have t: "tstate P t = (if t < unat (snd (pool_size (pool_env Q) (pool_mem Q))) then T_look else T_exit)" "pool_wq P = []" for t
    by (simp_all add: P init_once_def Let_def)
  have h: "holds \<circ> tstate P = (\<lambda>_. None)" by (simp add: fun_eq_iff t)
  have "place_ok P" using assms by (simp add: place_ok_def places_def spread_def h t pool_fresh_def)
  moreover have n: "nthreads P = snd (pool_size (pool_env Q) (pool_mem Q))" by (simp add: P init_once_def Let_def)
  then have "nthreads P \<noteq> 0" using pool_size_bounds [of "pool_env Q" "pool_mem Q"] by auto
  moreover have "threads_ok (unat (nthreads P)) P" unfolding n
    using assms pool_size_bounds [of "pool_env Q" "pool_mem Q"] by (simp add: threads_ok_def t pool_fresh_def in_states_def)
  ultimately show ?thesis
    using assms by (auto simp: state_ok_def sent_ok_def count_ok_def done_count_def t pool_fresh_def)
qed

lemma pool_reach_ok:
  "pool_reach P0 P \<Longrightarrow> pool_fresh P0 \<Longrightarrow> place_ok P \<and> state_ok P \<and> sent_ok P \<and> count_ok P \<and> threads_ok (unat (nthreads P)) P \<and>
     nthreads P \<noteq> 0"
proof (induction rule: pool_reach.induct)
  case start
  then show ?case by (rule pool_fresh_ok)
next
  case (step P P')
  then show ?case
    using place_step [OF step.hyps(2)] state_step [OF step.hyps(2)] sent_step [OF step.hyps(2)] completions_step [OF step.hyps(2)]
      threads_step [OF step.hyps(2)] nthreads_step [OF step.hyps(2)] by fastforce
qed


text \<open>C8: a worker never sleeps while work is left lying: as long as some worker waits for the
  condition, there are at least as many workers on their way to the queue, woken or done with
  their last request, as there are elements in it; so a signal that is not given, because
  \<open>idle_threads\<close> is 0, or given to a worker that finds the queue empty, is never missed.\<close>

theorem no_worker_sleeps_on_work:
  assumes "pool_fresh P0" and "pool_reach P0 P" and "tstate P t = T_wait"
  shows "length (pool_wq P) \<le> card {u. tstate P u \<in> {T_look, T_woken}}"
  using pool_reach_ok [OF assms(2,1)] assms(3) unfolding threads_ok_def in_states_def by blast

text \<open>C35: the pool stays well formed in every interleaving: there are between 1 and 128 threads, no other thread
  ever does anything, \<open>idle_threads\<close> is at all times the number of threads that wait or were woken and do not
  have the lock yet, so it never wraps around and never exceeds the number of threads, and no request is in the
  global queue, the loop's queue or the queue of \<open>uv__work_done\<close> twice.\<close>

theorem pool_well_formed:
  assumes "pool_fresh P0" and "pool_reach P0 P"
  shows "1 \<le> unat (nthreads P) \<and> unat (nthreads P) \<le> 128 \<and> (\<forall>t. unat (nthreads P) \<le> t \<longrightarrow> tstate P t = T_exit) \<and>
    unat (idle_threads P) = card {t. tstate P t \<in> {T_wait, T_woken}} \<and> idle_threads P \<le> nthreads P \<and>
    distinct (works (pool_wq P) @ loop_wq P @ done_run P)"
proof -
  have ok: "place_ok P" "threads_ok (unat (nthreads P)) P" "nthreads P \<noteq> 0" using pool_reach_ok [OF assms(2,1)] by simp_all
  have "distinct (works (pool_wq P) @ loop_wq P @ done_run P)" using ok(1) unfolding place_ok_def places_def spread_def by auto
  moreover have "in_states {T_wait, T_woken} P \<le> unat (nthreads P)"
    using ok(2) by (intro in_states_le) (simp_all add: threads_ok_def)
  moreover have "1 \<le> unat (nthreads P)" using ok(3) by (simp add: Suc_leI unat_gt_0)
  ultimately show ?thesis using ok(2) unfolding threads_ok_def in_states_def by (simp add: word_le_nat_alt)
qed

text \<open>C36: \<open>uv_cancel\<close> on a request that is under way always returns: it succeeds exactly when no worker has
  begun the work, however often it was cancelled before, and otherwise it is \<open>UV_EBUSY\<close> and nothing has
  changed.\<close>

theorem cancel_until_started:
  assumes "pool_fresh P0" and "pool_reach P0 P" and "cancelling P = None" and "w \<in> set (active_reqs P)"
    and "rtype P w = UV_WORK"
  shows "\<exists>r P'. uv_cancel w P = Some (r, P') \<and>
    (if executed P w = 0 \<and> (\<forall>t. tstate P t \<noteq> T_run w) then r = 0 \<and> w \<in> set (loop_wq P') \<and> work_of P' w = Cancelled_work \<and> done_sent P'
     else r = - TP_EBUSY \<and> P' = P)"
proof -
  have ok: "place_ok P" "state_ok P" using pool_reach_ok [OF assms(2,1)] by simp_all
  have reqs: "w \<in> set (places P) \<or> (\<exists>t. tstate P t = T_run w \<or> tstate P t = T_done w)"
    using ok(1) ran_holds [of w P] assms(4) by (auto simp: place_ok_def spread_def)
  show ?thesis
  proof (cases "\<exists>t. tstate P t = T_run w \<or> tstate P t = T_done w")
    case True
    then have "self_linked P w" "(\<exists>t. tstate P t = T_run w) \<or> executed P w \<noteq> 0" using ok(2) by (auto simp: state_ok_def)
    then show ?thesis using assms(5) by (auto simp: uv_cancel_def uv__work_cancel_def cancel_unlink_def)
  next
    case False
    then have q: "Work w \<in> set (pool_wq P) \<or> w \<in> set (loop_wq P) \<or> w \<in> set (done_run P)"
      using reqs assms(3) by (auto simp: places_def)
    have e: "\<not> self_linked P w" "work_of P w \<noteq> Null_work \<longleftrightarrow> executed P w = 0"
      using q ok(2) unfolding state_ok_def settled_def by (fastforce split: if_splits)+
    show ?thesis
    proof (cases "executed P w = 0")
      case True
      then show ?thesis using assms(5) False e q
        by (simp add: uv_cancel_def uv__work_cancel_def cancel_unlink_def work_unlink_def cancel_post_def loop_post_def Let_def)
    next
      case executed: False
      then show ?thesis using assms(5) e
        by (simp add: uv_cancel_def uv__work_cancel_def cancel_unlink_def Let_def)
    qed
  qed
qed

section \<open>An example\<close>

text \<open>A pool of two threads; request 5 goes through it, or is cancelled before a worker takes it.\<close>

definition sample_pool :: tpsys where
  "sample_pool = (init_once (tpool.extend (iloop.extend (iloop.truncate sample_iloop)
     (tpool.fields [] 0 0 False True (Some 2) True (\<lambda>_. T_exit) (\<lambda>_. Null_work) (\<lambda>_. None) (\<lambda>_. UV_UNKNOWN_REQ) (\<lambda>_. True) [] [] False))
     (tpsys.fields None Not_called (\<lambda>_. 0) (\<lambda>_. 0) [])))"

lemma sample_pool_sel [simp]:
  "pool_wq sample_pool = []" "idle_threads sample_pool = 0" "once sample_pool" "tstate sample_pool = (\<lambda>t. if t < 2 then T_look else T_exit)"
  "active_reqs sample_pool = []" "loop_wq sample_pool = []" "done_run sample_pool = []" "done_sent sample_pool = False"
  "cancelling sample_pool = None" "phase sample_pool = Not_called" "submits sample_pool = (\<lambda>_. 0)" "completions sample_pool = []"
  "executed sample_pool = (\<lambda>_. 0)"
  by (simp_all add: sample_pool_def init_once_def pool_size_def Let_def tpsys.defs tpool.defs iloop.defs sample_iloop_def)

lemma sample_pool_fresh: "pool_fresh sample_pool"
  unfolding pool_fresh_def by (intro conjI) (rule exI, rule sample_pool_def, simp_all)

definition submitted :: "addr \<Rightarrow> nat option \<Rightarrow> tpsys \<Rightarrow> tpsys" where
  "submitted w c P = (snd (uv_queue_work w (Some 7) (Some 8) c P))\<lparr>submits := (submits P)(w := submits P w + 1), executed := (executed P)(w := 0)\<rparr>"

lemma submitted_step:
  "cancelling P = None \<Longrightarrow> w \<notin> set (active_reqs P) \<Longrightarrow> wakes c P \<Longrightarrow> pool_step P (submitted w c P)"
  unfolding submitted_def by (rule pool_step.submit [of P w c 7 "Some 8"]) (simp_all add: uv_queue_work_def Let_def)

lemma submitted_sel:
  assumes "once P"
  shows "pool_wq (submitted w c P) = pool_wq P @ [Work w]" "active_reqs (submitted w c P) = active_reqs P @ [w]"
    "loop_wq (submitted w c P) = loop_wq P" "done_run (submitted w c P) = done_run P" "cancelling (submitted w c P) = cancelling P"
    "phase (submitted w c P) = phase P" "completions (submitted w c P) = completions P" "executed (submitted w c P) = (executed P)(w := 0)"
    "work_of (submitted w c P) = (work_of P)(w := Call_work 7)" "submits (submitted w c P) = (submits P)(w := submits P w + 1)"
    "rtype (submitted w c P) = (rtype P)(w := UV_WORK)"
    "tstate (submitted w c P) = (if idle_threads P > 0 then (case c of None \<Rightarrow> tstate P | Some t \<Rightarrow> (tstate P)(t := T_woken)) else tstate P)"
  using assms
  by (simp_all add: submitted_def uv_queue_work_def uv__work_submit_def call_once_def uv__req_register_def post_def cond_signal_def
      Let_def split: option.splits)


theorem no_worker_sleeps_on_work_witness:
  "\<exists>P. pool_reach sample_pool P \<and> tstate P 1 = T_wait \<and> pool_wq P = [Work 5] \<and> card {u. tstate P u \<in> {T_look, T_woken}} \<ge> 1"
proof -
  define P1 where "P1 = worker_take 0 None sample_pool"
  define P2 where "P2 = worker_take 1 None P1"
  define P3 where "P3 = submitted 5 (Some 0) P2"
  have r1: "pool_step sample_pool P1" unfolding P1_def by (rule pool_step.look) (simp_all add: wakes_def)
  have s1: "pool_wq P1 = []" "tstate P1 = (\<lambda>t. if t < 2 then T_look else T_exit)(0 := T_wait)" "idle_threads P1 = 1" "cancelling P1 = None"
    by (simp_all add: P1_def worker_take_def)
  have r2: "pool_step P1 P2'" if "P2' = worker_take 1 (Some 0) P1" for P2'
    unfolding that by (rule pool_step.look) (simp_all add: wakes_def s1)
  have P2: "P2 = worker_take 1 (Some 0) P1" by (simp add: P2_def worker_take_def s1)
  have s2: "pool_wq P2 = []" "tstate P2 = (\<lambda>t. if t < 2 then T_look else T_exit)(0 := T_wait, 1 := T_wait)" "idle_threads P2 = 2"
      "cancelling P2 = None" "active_reqs P2 = []" "once P2"
    by (simp_all add: P2_def P1_def worker_take_def)
  have r3: "pool_step P2 P3" unfolding P3_def by (rule submitted_step) (simp_all add: wakes_def s2)
  have reach: "pool_reach sample_pool P3" using r1 r2 [OF P2] r3 by (meson pool_reach.intros)
  have s3: "tstate P3 1 = T_wait" "pool_wq P3 = [Work 5]" by (simp_all add: P3_def submitted_sel s2)
  then show ?thesis using no_worker_sleeps_on_work [OF sample_pool_fresh reach s3(1)] reach by auto
qed

theorem pool_well_formed_witness:
  "\<exists>P. pool_reach sample_pool P \<and> unat (idle_threads P) = 1 \<and> card {t. tstate P t \<in> {T_wait, T_woken}} = 1"
proof -
  define P1 where "P1 = worker_take 0 None sample_pool"
  have "pool_step sample_pool P1" unfolding P1_def by (rule pool_step.look) (simp_all add: wakes_def)
  then have r: "pool_reach sample_pool P1" by (meson pool_reach.intros)
  have "idle_threads P1 = 1" by (simp add: P1_def worker_take_def)
  then show ?thesis using pool_well_formed [OF sample_pool_fresh r] r by auto
qed

theorem cancel_until_started_witness:
  "\<exists>P r P'. pool_reach sample_pool P \<and> uv_cancel 5 P = Some (r, P') \<and> r = 0 \<and> loop_wq P' = [5]"
proof -
  define P1 where "P1 = submitted 5 None sample_pool"
  note s1 = submitted_sel [of sample_pool 5 None, folded P1_def, simplified]
  have "pool_step sample_pool P1" unfolding P1_def by (rule submitted_step) (simp_all add: wakes_def)
  then have r: "pool_reach sample_pool P1" by (meson pool_reach.intros)
  obtain r' P' where c: "uv_cancel 5 P1 = Some (r', P')" "r' = 0" "5 \<in> set (loop_wq P')"
    using cancel_until_started [OF sample_pool_fresh r, of 5] by (auto simp: s1)
  have "loop_wq P' = [5]"
    using c by (auto simp: uv_cancel_def uv__work_cancel_def cancel_unlink_def work_unlink_def cancel_post_def loop_post_def s1 Let_def
        split: if_splits)
  then show ?thesis using r c by blast
qed

end
