(* ===== verification/FsPoll.thy ===== *)
theory FsPoll
  imports EventLoop "HOL-Library.Monad_Syntax"
begin

text \<open>
  Watching a file by polling it: \<open>src/src/libuv/src/fs-poll.c\<close>, with the asynchronous case of \<open>uv_fs_stat\<close>,
  \<open>uv__fs_done\<close> and \<open>uv_fs_req_cleanup\<close> of \<open>unix/fs.c\<close>.  A started handle has a context of its own, which holds a
  timer and a request and outlives the handle: it is freed when its timer has been closed.  A context,
  its timer and its request are one address.  A context is read and written only while it is allocated;
  using one that was freed is \<open>None\<close>, like a failed assertion and an \<open>abort\<close>.
\<close>

section \<open>Data\<close>

abbreviation FS_ENOMEM :: int where "FS_ENOMEM \<equiv> - 12"
abbreviation FS_ENOBUFS :: int where "FS_ENOBUFS \<equiv> - 105"
abbreviation FS_ECANCELED :: int where "FS_ECANCELED \<equiv> 125"

record uv_timespec =
  tv_sec :: int
  tv_nsec :: int

record uv_stat =
  st_dev :: u64
  st_mode :: u64
  st_nlink :: u64
  st_uid :: u64
  st_gid :: u64
  st_rdev :: u64
  st_ino :: u64
  st_size :: u64
  st_blksize :: u64
  st_blocks :: u64
  st_flags :: u64
  st_gen :: u64
  st_atim :: uv_timespec
  st_mtim :: uv_timespec
  st_ctim :: uv_timespec
  st_birthtim :: uv_timespec

definition zero_time :: uv_timespec where
  "zero_time = \<lparr>tv_sec = 0, tv_nsec = 0\<rparr>"

definition zero_statbuf :: uv_stat where
  "zero_statbuf = \<lparr>st_dev = 0, st_mode = 0, st_nlink = 0, st_uid = 0, st_gid = 0, st_rdev = 0, st_ino = 0, st_size = 0,
     st_blksize = 0, st_blocks = 0, st_flags = 0, st_gen = 0, st_atim = zero_time, st_mtim = zero_time, st_ctim = zero_time,
     st_birthtim = zero_time\<rparr>"

definition statbuf_eq :: "uv_stat \<Rightarrow> uv_stat \<Rightarrow> bool" where
  "statbuf_eq a b \<longleftrightarrow>
     tv_nsec (st_ctim a) = tv_nsec (st_ctim b) \<and> tv_nsec (st_mtim a) = tv_nsec (st_mtim b) \<and>
     tv_nsec (st_birthtim a) = tv_nsec (st_birthtim b) \<and> tv_sec (st_ctim a) = tv_sec (st_ctim b) \<and>
     tv_sec (st_mtim a) = tv_sec (st_mtim b) \<and> tv_sec (st_birthtim a) = tv_sec (st_birthtim b) \<and>
     st_size a = st_size b \<and> st_mode a = st_mode b \<and> st_uid a = st_uid b \<and> st_gid a = st_gid b \<and>
     st_ino a = st_ino b \<and> st_dev a = st_dev b \<and> st_flags a = st_flags b \<and> st_gen a = st_gen b"

record fs_ctx =
  parent_handle :: ptr
  busy_polling :: int
  interval :: u32
  start_time :: u64
  ctx_cb :: nat
  statbuf :: uv_stat
  ctx_path :: string

text \<open>\<open>ctx_mem\<close> are the contexts that are allocated; \<open>posted\<close> the requests handed to the thread pool and not
  completed (that each is completed once is shown in the theory \<open>ThreadPool\<close>), and \<open>req_path\<close> the copy of the
  path a request has.\<close>

record 'k fploop = "'k evloop" +
  poll_ctx :: "addr \<Rightarrow> ptr"
  ctxs :: "addr \<Rightarrow> fs_ctx"
  ctx_mem :: "addr list"
  posted :: "addr list"
  req_path :: "addr \<Rightarrow> string option"

text \<open>The callbacks the code installs on a context's timer.\<close>

abbreviation FS_TIMER_CB :: nat where "FS_TIMER_CB \<equiv> 1"
abbreviation FS_TIMER_CLOSE_CB :: nat where "FS_TIMER_CLOSE_CB \<equiv> 0"

section \<open>Operations\<close>

definition get_ctx :: "addr \<Rightarrow> ('k, 'a) fploop_scheme \<Rightarrow> fs_ctx option" where
  "get_ctx c L = (if c \<in> set (ctx_mem L) then Some (ctxs L c) else None)"

definition put_ctx :: "addr \<Rightarrow> (fs_ctx \<Rightarrow> fs_ctx) \<Rightarrow> ('k, 'a) fploop_scheme \<Rightarrow> ('k, 'a) fploop_scheme option" where
  "put_ctx c f L = (if c \<in> set (ctx_mem L) then Some (L\<lparr>ctxs := (ctxs L)(c := f (ctxs L c))\<rparr>) else None)"

definition free_ctx :: "addr \<Rightarrow> ('k, 'a) fploop_scheme \<Rightarrow> ('k, 'a) fploop_scheme option" where
  "free_ctx c L = (if c \<in> set (ctx_mem L) then Some (L\<lparr>ctx_mem := removeAll c (ctx_mem L)\<rparr>) else None)"

text \<open>\<open>uv_fs_stat\<close> with a callback; \<open>room\<close> is whether memory for the copy of the path is granted.\<close>

definition uv_fs_stat :: "addr \<Rightarrow> string \<Rightarrow> bool \<Rightarrow> ('k, 'a) fploop_scheme \<Rightarrow> (int \<times> ('k, 'a) fploop_scheme) option" where
  "uv_fs_stat c path room L =
     (let L = (uv__req_register c L)\<lparr>req_path := (req_path L)(c := None)\<rparr>
      in if \<not> room then map_option (Pair FS_ENOMEM) (uv__req_unregister c L)
         else Some (0, L\<lparr>req_path := (req_path L)(c := Some path), posted := posted L @ [c]\<rparr>))"

definition uv_fs_req_cleanup :: "addr \<Rightarrow> ('k, 'a) fploop_scheme \<Rightarrow> ('k, 'a) fploop_scheme" where
  "uv_fs_req_cleanup c L = L\<lparr>req_path := (req_path L)(c := None)\<rparr>"

definition uv_fs_poll_init :: "addr \<Rightarrow> ('k, 'a) fploop_scheme \<Rightarrow> int \<times> ('k, 'a) fploop_scheme" where
  "uv_fs_poll_init h L = (0, uv__handle_init h UV_FS_POLL L)"

text \<open>\<open>mem\<close> is what \<open>uv__calloc\<close> returns.\<close>

definition uv_fs_poll_start ::
  "addr \<Rightarrow> nat \<Rightarrow> string \<Rightarrow> u32 \<Rightarrow> ptr \<Rightarrow> bool \<Rightarrow> ('k, 'a) fploop_scheme \<Rightarrow> (int \<times> ('k, 'a) fploop_scheme) option" where
  "uv_fs_poll_start h cb path ival mem room L =
     (if uv__is_active L h then Some (0, L)
      else case mem of
        None \<Rightarrow> Some (FS_ENOMEM, L)
      | Some c \<Rightarrow>
          let L = L\<lparr>ctx_mem := ctx_mem L @ [c],
                    ctxs := (ctxs L)(c := \<lparr>parent_handle = Some h, busy_polling = 0, interval = (if ival \<noteq> 0 then ival else 1),
                      start_time = uv_now L, ctx_cb = cb, statbuf = zero_statbuf, ctx_path = path\<rparr>)\<rparr>;
              (err, L) = uv_timer_init c L
          in if err < 0 then map_option (Pair err) (free_ctx c L)
             else let L = set_flags c (add_flag (hflags L c) UV__HANDLE_INTERNAL) L;
                      L = uv__handle_unref c L
                  in do { (err, L) \<leftarrow> uv_fs_stat c path room L;
                          if err < 0 then map_option (Pair err) (free_ctx c L)
                          else Some (0, uv__handle_start h (L\<lparr>poll_ctx := (poll_ctx L)(h := Some c)\<rparr>)) })"

text \<open>\<open>other\<close> is what \<open>uv_close\<close> does for the types outside of the loop's theories.\<close>

definition uv_fs_poll_stop ::
  "('k, 'b) ssyscalls_scheme \<Rightarrow> ('k, 'a) fploop_scheme destroyer \<Rightarrow> addr \<Rightarrow> ('k, 'a) fploop_scheme
    \<Rightarrow> (int \<times> ('k, 'a) fploop_scheme) option" where
  "uv_fs_poll_stop K other h L =
     (if \<not> uv__is_active L h then Some (0, L)
      else do { c \<leftarrow> poll_ctx L h;
                x \<leftarrow> get_ctx c L;
                ASSERT (parent_handle x \<noteq> None);
                L \<leftarrow> put_ctx c (\<lambda>x. x\<lparr>parent_handle := None\<rparr>) L;
                let L = L\<lparr>poll_ctx := (poll_ctx L)(h := None)\<rparr>;
                L \<leftarrow> (if uv__is_active L c then uv_close K other c (Some FS_TIMER_CLOSE_CB) L else Some L);
                Some (0, uv__handle_stop h L) })"

text \<open>\<open>room\<close> is the size of the buffer; the result has the new size and the text left in the buffer, if any.\<close>

definition uv_fs_poll_getpath :: "addr \<Rightarrow> nat \<Rightarrow> ('k, 'a) fploop_scheme \<Rightarrow> (int \<times> nat \<times> string option) option" where
  "uv_fs_poll_getpath h room L =
     (if \<not> uv__is_active L h then Some (UV_EINVAL, 0, None)
      else do { c \<leftarrow> poll_ctx L h;
                x \<leftarrow> get_ctx c L;
                let len = length (ctx_path x);
                if len \<ge> room then Some (FS_ENOBUFS, len + 1, None) else Some (0, len, Some (ctx_path x)) })"

definition uv__fs_poll_close ::
  "('k, 'b) ssyscalls_scheme \<Rightarrow> ('k, 'a) fploop_scheme destroyer \<Rightarrow> addr \<Rightarrow> ('k, 'a) fploop_scheme \<Rightarrow> ('k, 'a) fploop_scheme option" where
  "uv__fs_poll_close K other h L = map_option snd (uv_fs_poll_stop K other h L)"

text \<open>The close function of this type, for \<open>uv_close\<close>.\<close>

definition fs_other ::
  "('k, 'b) ssyscalls_scheme \<Rightarrow> ('k, 'a) fploop_scheme destroyer \<Rightarrow> ('k, 'a) fploop_scheme destroyer" where
  "fs_other K other ty a L = (if ty = UV_FS_POLL then uv__fs_poll_close K other a L else other ty a L)"

definition fs_timer_cb :: "bool \<Rightarrow> addr \<Rightarrow> ('k, 'a) fploop_scheme \<Rightarrow> ('k, 'a) fploop_scheme option" where
  "fs_timer_cb room c L =
     do { x \<leftarrow> get_ctx c L;
          h \<leftarrow> parent_handle x;
          ASSERT (poll_ctx L h = Some c);
          L \<leftarrow> put_ctx c (\<lambda>x. x\<lparr>start_time := uv_now L\<rparr>) L;
          (err, L) \<leftarrow> uv_fs_stat c (ctx_path x) room L;
          ASSERT (err = 0);
          Some L }"

definition timer_close_cb :: "addr \<Rightarrow> ('k, 'a) fploop_scheme \<Rightarrow> ('k, 'a) fploop_scheme option" where
  "timer_close_cb c L = free_ctx c L"

text \<open>\<open>req->result\<close> is a \<open>ssize_t\<close>, \<open>busy_polling\<close> an \<open>int\<close>; \<open>% interval\<close> with an interval of 0 is undefined.
  \<open>user cb h r a b\<close> is what the callback \<open>cb\<close> of the handle \<open>h\<close> does.\<close>

definition poll_report ::
  "(nat \<Rightarrow> addr \<Rightarrow> int \<Rightarrow> uv_stat \<Rightarrow> uv_stat \<Rightarrow> ('k, 'a) fploop_scheme \<Rightarrow> ('k, 'a) fploop_scheme option) \<Rightarrow>
   addr \<Rightarrow> addr \<Rightarrow> int \<Rightarrow> uv_stat \<Rightarrow> ('k, 'a) fploop_scheme \<Rightarrow> ('k, 'a) fploop_scheme option" where
  "poll_report user c h result st L =
     do { x \<leftarrow> get_ctx c L;
          if result \<noteq> 0
          then (if busy_polling x \<noteq> result
                then do { L \<leftarrow> user (ctx_cb x) h (signed_take_bit 31 result) (statbuf x) zero_statbuf L;
                          put_ctx c (\<lambda>x. x\<lparr>busy_polling := signed_take_bit 31 result\<rparr>) L }
                else Some L)
          else do { L \<leftarrow> (if busy_polling x \<noteq> 0 \<and> (busy_polling x < 0 \<or> \<not> statbuf_eq (statbuf x) st)
                         then user (ctx_cb x) h 0 (statbuf x) st L else Some L);
                    put_ctx c (\<lambda>x. x\<lparr>statbuf := st, busy_polling := 1\<rparr>) L } }"

definition poll_again ::
  "('k, 'b) ssyscalls_scheme \<Rightarrow> ('k, 'a) fploop_scheme destroyer \<Rightarrow> addr \<Rightarrow> ('k, 'a) fploop_scheme \<Rightarrow> ('k, 'a) fploop_scheme option" where
  "poll_again K other c L =
     do { x \<leftarrow> get_ctx c L;
          case parent_handle x of
            None \<Rightarrow> uv_close K other c (Some FS_TIMER_CLOSE_CB) L
          | Some _ \<Rightarrow>
              do { ASSERT (interval x \<noteq> 0);
                   let ival = (ucast (interval x) :: u64);
                   let ival = ival - (uv_now L - start_time x) mod ival;
                   (r, L) \<leftarrow> uv_timer_start c (Some FS_TIMER_CB) ival 0 L;
                   ASSERT (r = 0);
                   Some L } }"

definition fs_poll_cb ::
  "('k, 'b) ssyscalls_scheme \<Rightarrow> ('k, 'a) fploop_scheme destroyer \<Rightarrow>
   (nat \<Rightarrow> addr \<Rightarrow> int \<Rightarrow> uv_stat \<Rightarrow> uv_stat \<Rightarrow> ('k, 'a) fploop_scheme \<Rightarrow> ('k, 'a) fploop_scheme option) \<Rightarrow>
   addr \<Rightarrow> int \<Rightarrow> uv_stat \<Rightarrow> ('k, 'a) fploop_scheme \<Rightarrow> ('k, 'a) fploop_scheme option" where
  "fs_poll_cb K other user c result st L =
     do { x \<leftarrow> get_ctx c L;
          case parent_handle x of
            None \<Rightarrow> map_option (uv_fs_req_cleanup c) (uv_close K other c (Some FS_TIMER_CLOSE_CB) L)
          | Some h \<Rightarrow>
              do { L \<leftarrow> poll_report user c h result st L;
                   poll_again K other c (uv_fs_req_cleanup c L) } }"

text \<open>The pool hands a request back: \<open>uv__fs_done\<close>.\<close>

definition uv__fs_done ::
  "('k, 'b) ssyscalls_scheme \<Rightarrow> ('k, 'a) fploop_scheme destroyer \<Rightarrow>
   (nat \<Rightarrow> addr \<Rightarrow> int \<Rightarrow> uv_stat \<Rightarrow> uv_stat \<Rightarrow> ('k, 'a) fploop_scheme \<Rightarrow> ('k, 'a) fploop_scheme option) \<Rightarrow>
   addr \<Rightarrow> int \<Rightarrow> int \<Rightarrow> uv_stat \<Rightarrow> ('k, 'a) fploop_scheme \<Rightarrow> ('k, 'a) fploop_scheme option" where
  "uv__fs_done K other user c status result st L =
     do { L \<leftarrow> uv__req_unregister c (L\<lparr>posted := removeAll c (posted L)\<rparr>);
          ASSERT (status = - FS_ECANCELED \<longrightarrow> result = 0);
          let result = (if status = - FS_ECANCELED then - FS_ECANCELED else result);
          fs_poll_cb K other user c result st L }"

section \<open>Events\<close>

text \<open>What the program may do with its handles; \<open>Init h\<close> is on memory that is no handle, and the memory
  \<open>calloc\<close> returns is none of the loop's.  Identifiers of close callbacks other than \<open>FS_TIMER_CLOSE_CB\<close> are
  the user's.\<close>

datatype fp_op = Init addr | Start addr nat string u32 ptr bool | Stop addr | Close addr "nat option"

definition op_ok :: "fp_op \<Rightarrow> ('k, 'a) fploop_scheme \<Rightarrow> bool" where
  "op_ok p L = (case p of
       Init h \<Rightarrow> h \<notin> set (handle_queue L) \<and> length (handle_queue L) + 1 < 2 ^ 32
     | Start h cb path ival mem room \<Rightarrow> h \<in> set (handle_queue L) \<and> htype (handles L h) = UV_FS_POLL \<and> \<not> uv__is_closing L h \<and>
         (\<forall>c. mem = Some c \<longrightarrow> c \<notin> set (handle_queue L) \<and> length (handle_queue L) + 1 < 2 ^ 32)
     | Stop h \<Rightarrow> h \<in> set (handle_queue L) \<and> htype (handles L h) = UV_FS_POLL
     | Close h cb \<Rightarrow> h \<in> set (handle_queue L) \<and> htype (handles L h) = UV_FS_POLL \<and> \<not> uv__is_closing L h \<and> cb \<noteq> Some FS_TIMER_CLOSE_CB)"

definition do_op ::
  "('k, 'b) ssyscalls_scheme \<Rightarrow> ('k, 'a) fploop_scheme destroyer \<Rightarrow> fp_op \<Rightarrow> ('k, 'a) fploop_scheme \<Rightarrow> ('k, 'a) fploop_scheme option" where
  "do_op K other p L = (case p of
       Init h \<Rightarrow> Some (snd (uv_fs_poll_init h L))
     | Start h cb path ival mem room \<Rightarrow> map_option snd (uv_fs_poll_start h cb path ival mem room L)
     | Stop h \<Rightarrow> map_option snd (uv_fs_poll_stop K other h L)
     | Close h cb \<Rightarrow> uv_close K (fs_other K other) h cb L)"

text \<open>A callback of the user is a list of such operations; one that is not allowed any more ends the list.\<close>

fun run_ops ::
  "('k, 'b) ssyscalls_scheme \<Rightarrow> ('k, 'a) fploop_scheme destroyer \<Rightarrow> fp_op list \<Rightarrow> ('k, 'a) fploop_scheme \<Rightarrow> ('k, 'a) fploop_scheme option" where
  "run_ops K other [] L = Some L"
| "run_ops K other (p # ps) L = (if op_ok p L then Option.bind (do_op K other p L) (run_ops K other ps) else Some L)"

text \<open>The loop calls back: the pool has done a request, a timer is due (one round of \<open>uv__run_timers\<close>; a failing
  copy of the path would abort), a handle that was closed is finished; the clock moves.\<close>

datatype fs_event = Api fp_op | Stat_done addr int int uv_stat "fp_op list" | Timer_due addr | Finish addr "fp_op list" | Tick u64

definition fp_can :: "fs_event \<Rightarrow> ('k, 'a) fploop_scheme \<Rightarrow> bool" where
  "fp_can e L = (case e of
       Api p \<Rightarrow> op_ok p L
     | Stat_done c status result st ps \<Rightarrow> c \<in> set (posted L) \<and> (status = - FS_ECANCELED \<longrightarrow> result = 0)
     | Timer_due c \<Rightarrow> is_timer L c \<and> uv__is_active L c \<and> timer_cb (timers L c) = Some FS_TIMER_CB
     | Finish a ps \<Rightarrow> a \<in> set (handle_queue L) \<and> being_closed L a \<and>
         (htype (handles L a) = UV_FS_POLL \<or> close_cb L a = Some FS_TIMER_CLOSE_CB)
     | Tick t \<Rightarrow> True)"

definition fp_event ::
  "('k, 'b) ssyscalls_scheme \<Rightarrow> ('k, 'a) fploop_scheme destroyer \<Rightarrow> fs_event \<Rightarrow> ('k, 'a) fploop_scheme \<Rightarrow> ('k, 'a) fploop_scheme option" where
  "fp_event K other e L = (case e of
       Api p \<Rightarrow> do_op K other p L
     | Stat_done c status result st ps \<Rightarrow> uv__fs_done K other (\<lambda>_ _ _ _ _. run_ops K other ps) c status result st L
     | Timer_due c \<Rightarrow> do { (_, L) \<leftarrow> uv_timer_stop c L; (_, L) \<leftarrow> uv_timer_again c L; fs_timer_cb True c L }
     | Finish a ps \<Rightarrow> uv__finish_close other (\<lambda>cb b L. if cb = FS_TIMER_CLOSE_CB then timer_close_cb b L else run_ops K other ps L) a L
     | Tick t \<Rightarrow> Some (L\<lparr>time := t\<rparr>))"

inductive fp_reach ::
  "('k, 'b) ssyscalls_scheme \<Rightarrow> ('k, 'a) fploop_scheme destroyer \<Rightarrow> ('k, 'a) fploop_scheme \<Rightarrow> ('k, 'a) fploop_scheme \<Rightarrow> bool"
  for K other L0 where
  start: "fp_reach K other L0 L0"
| step: "fp_reach K other L0 L \<Longrightarrow> fp_can e L \<Longrightarrow> fp_event K other e L = Some L' \<Longrightarrow> fp_reach K other L0 L'"

text \<open>A loop in which no file is polled yet.\<close>

definition fp_fresh :: "('k, 'a) fploop_scheme \<Rightarrow> bool" where
  "fp_fresh L \<longleftrightarrow> timer_inv L \<and> ctx_mem L = [] \<and> posted L = [] \<and>
     (\<forall>h. poll_ctx L h = None \<and> (timer_cb (timers L h) = Some FS_TIMER_CB \<longrightarrow> \<not> uv__is_active L h) \<and>
        close_cb L h \<noteq> Some FS_TIMER_CLOSE_CB) \<and>
     (\<forall>h \<in> set (handle_queue L). htype (handles L h) = UV_FS_POLL \<longrightarrow> \<not> uv__is_active L h)"

section \<open>The invariant\<close>

text \<open>A context is in one of four stages: its request is with the pool, its \<open>poll_cb\<close> is running (\<open>b\<close> is that context),
  its timer is started, or its timer is being closed and its handle has let go of it.\<close>

definition stage_ok :: "ptr \<Rightarrow> ('k, 'a) fploop_scheme \<Rightarrow> addr \<Rightarrow> bool" where
  "stage_ok b L c \<longleftrightarrow> interval (ctxs L c) \<noteq> 0 \<and> (req_path L c \<noteq> None \<longrightarrow> c \<in> set (posted L) \<or> b = Some c) \<and>
     (if b = Some c \<or> c \<in> set (posted L) then \<not> uv__is_active L c \<and> \<not> uv__is_closing L c
      else if uv__is_active L c
      then \<not> uv__is_closing L c \<and> parent_handle (ctxs L c) \<noteq> None \<and> timer_cb (timers L c) = Some FS_TIMER_CB \<and> repeat (timers L c) = 0
      else being_closed L c \<and> parent_handle (ctxs L c) = None \<and> close_cb L c = Some FS_TIMER_CLOSE_CB)"

text \<open>The requests and contexts.\<close>

definition ctx_inv :: "ptr \<Rightarrow> ('k, 'a) fploop_scheme \<Rightarrow> bool" where
  "ctx_inv b L \<longleftrightarrow> distinct (ctx_mem L) \<and> distinct (posted L) \<and> set (posted L) \<subseteq> set (ctx_mem L) \<inter> set (active_reqs L) \<and>
     (\<forall>c. b = Some c \<longrightarrow> c \<in> set (ctx_mem L) \<and> c \<notin> set (posted L)) \<and>
     (\<forall>c \<in> set (ctx_mem L). c \<in> set (handle_queue L) \<and> htype (handles L c) = UV_TIMER \<and> stage_ok b L c)"

text \<open>A handle and its context know each other.\<close>

definition link_inv :: "('k, 'a) fploop_scheme \<Rightarrow> bool" where
  "link_inv L \<longleftrightarrow>
     (\<forall>h c. poll_ctx L h = Some c \<longleftrightarrow> c \<in> set (ctx_mem L) \<and> parent_handle (ctxs L c) = Some h) \<and>
     (\<forall>h. poll_ctx L h \<noteq> None \<longrightarrow> h \<in> set (handle_queue L) \<and> htype (handles L h) = UV_FS_POLL) \<and>
     (\<forall>h \<in> set (handle_queue L). htype (handles L h) = UV_FS_POLL \<longrightarrow>
        (uv__is_active L h \<longleftrightarrow> poll_ctx L h \<noteq> None))"

text \<open>A handle that is closed has no context, except for \<open>e\<close>, which is just being closed.\<close>

definition gone_inv :: "ptr \<Rightarrow> ('k, 'a) fploop_scheme \<Rightarrow> bool" where
  "gone_inv e L \<longleftrightarrow>
     (\<forall>h \<in> set (handle_queue L). htype (handles L h) = UV_FS_POLL \<longrightarrow> uv__is_closing L h \<longrightarrow> e = Some h \<or> poll_ctx L h = None)"

text \<open>No timer calls back into a context that is gone.\<close>

definition dangling_inv :: "('k, 'a) fploop_scheme \<Rightarrow> bool" where
  "dangling_inv L \<longleftrightarrow>
     (\<forall>x \<in> set (handle_queue L). htype (handles L x) = UV_TIMER \<longrightarrow> uv__is_active L x \<longrightarrow> timer_cb (timers L x) = Some FS_TIMER_CB \<longrightarrow>
        x \<in> set (ctx_mem L)) \<and>
     (\<forall>x \<in> set (handle_queue L). being_closed L x \<longrightarrow> close_cb L x = Some FS_TIMER_CLOSE_CB \<longrightarrow> x \<in> set (ctx_mem L))"

definition fp_inv_but :: "ptr \<Rightarrow> ptr \<Rightarrow> ('k, 'a) fploop_scheme \<Rightarrow> bool" where
  "fp_inv_but e b L \<longleftrightarrow> timer_inv L \<and> ctx_inv b L \<and> link_inv L \<and> dangling_inv L \<and> gone_inv e L"

abbreviation fp_inv :: "ptr \<Rightarrow> ('k, 'a) fploop_scheme \<Rightarrow> bool" where
  "fp_inv \<equiv> fp_inv_but None"

lemma fp_upd [simp]:
  "uv__is_active (L\<lparr>ctxs := v1\<rparr>) = uv__is_active L" "uv__is_active (L\<lparr>ctx_mem := v2\<rparr>) = uv__is_active L"
  "uv__is_active (L\<lparr>poll_ctx := v3\<rparr>) = uv__is_active L" "uv__is_active (L\<lparr>posted := v2\<rparr>) = uv__is_active L"
  "uv__is_active (L\<lparr>req_path := v4\<rparr>) = uv__is_active L" "uv__is_active (L\<lparr>active_reqs := v2\<rparr>) = uv__is_active L"
  "uv__is_closing (L\<lparr>ctxs := v1\<rparr>) = uv__is_closing L" "uv__is_closing (L\<lparr>ctx_mem := v2\<rparr>) = uv__is_closing L"
  "uv__is_closing (L\<lparr>poll_ctx := v3\<rparr>) = uv__is_closing L" "uv__is_closing (L\<lparr>posted := v2\<rparr>) = uv__is_closing L"
  "uv__is_closing (L\<lparr>req_path := v4\<rparr>) = uv__is_closing L" "uv__is_closing (L\<lparr>active_reqs := v2\<rparr>) = uv__is_closing L"
  "being_closed (L\<lparr>ctxs := v1\<rparr>) = being_closed L" "being_closed (L\<lparr>ctx_mem := v2\<rparr>) = being_closed L"
  "being_closed (L\<lparr>poll_ctx := v3\<rparr>) = being_closed L" "being_closed (L\<lparr>posted := v2\<rparr>) = being_closed L"
  "being_closed (L\<lparr>req_path := v4\<rparr>) = being_closed L" "being_closed (L\<lparr>active_reqs := v2\<rparr>) = being_closed L"
  "uv__is_active (L\<lparr>time := t\<rparr>) = uv__is_active L" "uv__is_closing (L\<lparr>time := t\<rparr>) = uv__is_closing L"
  "being_closed (L\<lparr>time := t\<rparr>) = being_closed L" "handle_inv (L\<lparr>time := t\<rparr>) = handle_inv L"
  by (simp_all add: fun_eq_iff uv__is_active_def uv__is_closing_def being_closed_def hflags_def handle_inv_def live_handles_def uv__has_ref_def)

lemma timer_inv_cong:
  assumes "timer_inv L" and "handle_inv M" and "timer_heap M = timer_heap L" and "timer_nodes M = timer_nodes L"
    and "\<forall>x \<in> timer_nodes L. timers M x = timers L x"
  shows "timer_inv M"
proof -
  have "heap_inv (timer_less_than (timers M)) (timer_heap M) (timer_nodes M)"
    unfolding assms(3,4) using timer_inv_heap [OF assms(1)]
    by (rule heap_inv_cong) (use assms(5) in \<open>auto intro!: timer_less_than_cong\<close>)
  then show ?thesis using assms by (simp add: timer_inv_def)
qed

lemma timer_inv_upd [simp]:
  "timer_inv (L\<lparr>ctxs := v1\<rparr>) = timer_inv L" "timer_inv (L\<lparr>ctx_mem := v2\<rparr>) = timer_inv L"
  "timer_inv (L\<lparr>poll_ctx := v3\<rparr>) = timer_inv L" "timer_inv (L\<lparr>posted := v2\<rparr>) = timer_inv L"
  "timer_inv (L\<lparr>req_path := v4\<rparr>) = timer_inv L" "timer_inv (L\<lparr>active_reqs := v2\<rparr>) = timer_inv L"
  "timer_inv (L\<lparr>time := t\<rparr>) = timer_inv L"
  by (simp_all add: timer_inv_def timer_nodes_def handle_inv_def live_handles_def uv__has_ref_def hflags_def)

lemma fp_more:
  assumes "tloop.more M = tloop.more L"
  shows "close_cb M = close_cb L" "active_reqs M = active_reqs L" "poll_ctx M = poll_ctx L" "ctxs M = ctxs L" "ctx_mem M = ctx_mem L"
    "posted M = posted L" "req_path M = req_path L" "fploop.more M = fploop.more L"
  using assms by (cases M, cases L, simp)+

section \<open>Closing a handle\<close>

text \<open>What closing handle \<open>a\<close> does to the flags; the rest of the loop is as it was.\<close>

definition closes_timer :: "addr \<Rightarrow> nat option \<Rightarrow> ('k, 'a) fploop_scheme \<Rightarrow> ('k, 'a) fploop_scheme \<Rightarrow> bool" where
  "closes_timer a cb L M \<longleftrightarrow> handle_queue M = handle_queue L \<and> (\<forall>x. htype (handles M x) = htype (handles L x)) \<and>
     uv__is_active M = (uv__is_active L)(a := False) \<and> uv__is_closing M = (uv__is_closing L)(a := True) \<and>
     being_closed M = (being_closed L)(a := True) \<and> close_cb M = (close_cb L)(a := cb) \<and> timers M = timers L \<and>
     active_reqs M = active_reqs L \<and> evloop.more M = evloop.more L"

lemma more_fields:
  assumes "evloop.more M = evloop.more L"
  shows "poll_ctx M = poll_ctx L" "ctxs M = ctxs L" "ctx_mem M = ctx_mem L" "posted M = posted L" "req_path M = req_path L"
    "fploop.more M = fploop.more L"
  using assms by (cases M, cases L, simp)+

lemma is_closing_iff: "uv__is_closing L a \<longleftrightarrow> has_flag (hflags L a) UV_CLOSING \<or> has_flag (hflags L a) UV_CLOSED"
  using has_flag_or_mask [of "hflags L a" UV_CLOSING UV_CLOSED] by (simp add: uv__is_closing_def)

lemma mark_closing:
  fixes L :: "('k, 'a) fploop_scheme" and cb :: "nat option" and a :: addr
  assumes "timer_inv L" and "\<not> uv__is_closing L a"
  defines "C \<equiv> (set_flags a (add_flag (hflags L a) UV_CLOSING) L)\<lparr>close_cb := (close_cb L)(a := cb)\<rparr>"
  shows "timer_inv C" "handle_queue C = handle_queue L" "htype (handles C x) = htype (handles L x)" "uv__is_active C = uv__is_active L"
    "uv__is_closing C = (uv__is_closing L)(a := True)" "being_closed C = (being_closed L)(a := True)" "close_cb C = (close_cb L)(a := cb)"
    "timers C = timers L" "active_reqs C = active_reqs L" "evloop.more C = evloop.more L"
proof -
  have f: "hflags C x = (if x = a then add_flag (hflags L a) UV_CLOSING else hflags L x)" for x
    by (simp add: C_def hflags_def set_flags_def)
  show act: "uv__is_active C = uv__is_active L" and "uv__is_closing C = (uv__is_closing L)(a := True)"
    "being_closed C = (being_closed L)(a := True)"
    using assms(2) by (auto simp: fun_eq_iff f uv__is_active_def is_closing_iff being_closed_def)
  have "uv__has_ref C = uv__has_ref L" by (simp add: fun_eq_iff f uv__has_ref_def)
  then have "handle_inv C" using assms(1) act
    by (simp add: handle_inv_def live_handles_def timer_inv_def C_def set_flags_def)
  moreover have "htype (handles C x) = htype (handles L x)" for x by (simp add: C_def set_flags_def)
  then have "timer_nodes C = timer_nodes L" using act by (simp add: timer_nodes_def) (simp add: C_def)
  ultimately show "timer_inv C" using assms(1) by (intro timer_inv_cong [OF assms(1)]) (simp_all add: C_def set_flags_def)
qed (simp_all add: C_def set_flags_def)

lemma pend_closing:
  assumes "has_flag (hflags L a) UV_CLOSING" and "\<not> has_flag (hflags L a) UV_CLOSED"
  shows "\<exists>M. uv__make_close_pending a L = Some M \<and> timer_inv M = timer_inv L \<and> handle_queue M = handle_queue L \<and>
    (\<forall>x. htype (handles M x) = htype (handles L x)) \<and> uv__is_active M = uv__is_active L \<and> uv__is_closing M = uv__is_closing L \<and>
    being_closed M = being_closed L \<and> tloop.more M = tloop.more L \<and> timers M = timers L"
proof -
  define M where "M = L\<lparr>handles := (handles L)(a := (handles L a)\<lparr>next_closing := closing_handles L\<rparr>), closing_handles := Some a\<rparr>"
  have "hflags M = hflags L" by (simp add: fun_eq_iff M_def hflags_def)
  then have f: "uv__is_active M = uv__is_active L" "uv__is_closing M = uv__is_closing L" "being_closed M = being_closed L"
      "uv__has_ref M = uv__has_ref L"
    by (simp_all add: fun_eq_iff uv__is_active_def uv__is_closing_def being_closed_def uv__has_ref_def)
  have h: "htype (handles M x) = htype (handles L x)" for x by (simp add: M_def)
  have "timer_inv M = timer_inv L"
    using f h by (simp add: timer_inv_def timer_nodes_def handle_inv_def live_handles_def) (simp add: M_def)
  then show ?thesis using assms f h by (intro exI [of _ M]) (simp add: uv__make_close_pending_def M_def)
qed

lemma flags_closing: "being_closed L a \<Longrightarrow> has_flag (hflags L a) UV_CLOSING \<and> \<not> has_flag (hflags L a) UV_CLOSED"
  by (simp add: being_closed_def)

lemma timer_close_ok:
  assumes inv: "timer_inv L" and a: "is_timer L a" "\<not> uv__is_closing L a"
  shows "\<exists>M. uv_close K other a cb L = Some M \<and> timer_inv M \<and> closes_timer a cb L M"
proof -
  define C where "C = (set_flags a (add_flag (hflags L a) UV_CLOSING) L)\<lparr>close_cb := (close_cb L)(a := cb)\<rparr>"
  note c = mark_closing [OF inv a(2), of cb, folded C_def]
  have t: "is_timer C a" using a(1) by (simp add: is_timer_def c)
  obtain S where S: "uv_timer_stop a C = Some (0, S)" "timer_inv S" "\<not> uv__is_active S a" "timers S = timers C" "timer_frame a C S"
    using timer_stop_ok [OF c(1) t] by blast
  have sc: "same_closing C S" and q: "handle_queue S = handle_queue C" "\<And>x. htype (handles S x) = htype (handles C x)"
    and m: "tloop.more S = tloop.more C" and act: "\<And>x. x \<noteq> a \<Longrightarrow> uv__is_active S x = uv__is_active C x"
    using S(5) by (simp_all add: timer_frame_def)
  have b: "being_closed S = being_closed C" "uv__is_closing S = uv__is_closing C"
    using sc by (simp_all add: fun_eq_iff same_closing_def being_closed_def is_closing_iff)
  have "being_closed S a" by (simp add: b c)
  from pend_closing [OF conjunct1 [OF flags_closing [OF this]] conjunct2 [OF flags_closing [OF this]]]
  obtain M where M: "uv__make_close_pending a S = Some M" "timer_inv M" "handle_queue M = handle_queue S"
      "\<And>x. htype (handles M x) = htype (handles S x)" "uv__is_active M = uv__is_active S" "uv__is_closing M = uv__is_closing S"
      "being_closed M = being_closed S" "tloop.more M = tloop.more S" "timers M = timers S"
    using S(2) by blast
  have "tloop.more M = tloop.more C" by (simp only: M(8) m)
  note f = fp_more [OF this] same_more(1) [OF this]
  have "uv_close K other a cb L = Some M"
    using a M(1) S(1) c(3) [of a] by (simp add: uv_close_def Let_def C_def set_flags_def is_timer_def close_type_def uv__timer_close_def)
  moreover have "closes_timer a cb L M"
    using act S(3) by (auto simp: closes_timer_def M(3-7,9) q b f c S(4) fun_eq_iff)
  ultimately show ?thesis using M(2) by blast
qed

section \<open>The operations keep the invariant\<close>

lemma fp_handle_ops [simp]:
  "close_cb (uv__handle_start h L) = close_cb L" "close_cb (uv__handle_stop h L) = close_cb L"
  "active_reqs (uv__handle_start h L) = active_reqs L" "active_reqs (uv__handle_stop h L) = active_reqs L"
  "evloop.more (uv__handle_start h L) = evloop.more L" "evloop.more (uv__handle_stop h L) = evloop.more L"
  "being_closed (uv__handle_start h L) = being_closed L" "being_closed (uv__handle_stop h L) = being_closed L"
proof -
  obtain n m where "uv__handle_start h L = L\<lparr>handles := n, active_handles := m\<rparr>" using handle_start_shape by blast
  then show "close_cb (uv__handle_start h L) = close_cb L" "active_reqs (uv__handle_start h L) = active_reqs L"
    "evloop.more (uv__handle_start h L) = evloop.more L" by simp_all
  obtain n m where "uv__handle_stop h L = L\<lparr>handles := n, active_handles := m\<rparr>" using handle_stop_shape by blast
  then show "close_cb (uv__handle_stop h L) = close_cb L" "active_reqs (uv__handle_stop h L) = active_reqs L"
    "evloop.more (uv__handle_stop h L) = evloop.more L" by simp_all
qed (simp_all add: fun_eq_iff being_closed_def)

lemma fp_handle_fields [simp]:
  "poll_ctx (uv__handle_start h L) = poll_ctx L" "ctxs (uv__handle_start h L) = ctxs L" "ctx_mem (uv__handle_start h L) = ctx_mem L"
  "posted (uv__handle_start h L) = posted L" "req_path (uv__handle_start h L) = req_path L"
  "poll_ctx (uv__handle_stop h L) = poll_ctx L" "ctxs (uv__handle_stop h L) = ctxs L" "ctx_mem (uv__handle_stop h L) = ctx_mem L"
  "posted (uv__handle_stop h L) = posted L" "req_path (uv__handle_stop h L) = req_path L"
  by (simp_all add: more_fields [OF fp_handle_ops(5)] more_fields [OF fp_handle_ops(6)])

lemma timer_inv_other:
  assumes "timer_inv L" and "h \<in> set (handle_queue L)" and "htype (handles L h) \<noteq> UV_TIMER"
  shows "timer_inv (uv__handle_start h L)" "timer_inv (uv__handle_stop h L)"
proof -
  have "h \<notin> timer_nodes L" using assms(3) by (simp add: timer_nodes_def)
  then have n: "timer_nodes (uv__handle_start h L) = timer_nodes L" "timer_nodes (uv__handle_stop h L) = timer_nodes L"
    using assms(3) by (auto simp: timer_nodes_def)
  have "handle_inv L" using assms(1) by simp
  then have "handle_inv (uv__handle_start h L)" "handle_inv (uv__handle_stop h L)"
    using assms(2) by (simp_all add: handle_start_inv handle_stop_inv)
  then show "timer_inv (uv__handle_start h L)" "timer_inv (uv__handle_stop h L)"
    using n assms(1) by (auto intro: timer_inv_cong)
qed

lemma linkD:
  assumes "link_inv L"
  shows "poll_ctx L h = Some c \<longleftrightarrow> c \<in> set (ctx_mem L) \<and> parent_handle (ctxs L c) = Some h"
    "poll_ctx L h \<noteq> None \<Longrightarrow> h \<in> set (handle_queue L) \<and> htype (handles L h) = UV_FS_POLL"
    "h \<in> set (handle_queue L) \<Longrightarrow> htype (handles L h) = UV_FS_POLL \<Longrightarrow>
       uv__is_active L h \<longleftrightarrow> poll_ctx L h \<noteq> None"
  using assms unfolding link_inv_def by blast+

text \<open>What stopping leaves alone.\<close>

definition stopped :: "addr \<Rightarrow> ('k, 'a) fploop_scheme \<Rightarrow> ('k, 'a) fploop_scheme \<Rightarrow> bool" where
  "stopped h L M \<longleftrightarrow> handle_queue M = handle_queue L \<and> (\<forall>x. htype (handles M x) = htype (handles L x)) \<and> \<not> uv__is_active M h \<and>
     ctx_mem M = ctx_mem L \<and> (\<forall>x. x \<notin> set (ctx_mem L) \<longrightarrow> uv__is_closing M x = uv__is_closing L x \<and> being_closed M x = being_closed L x \<and>
       close_cb M x = close_cb L x) \<and> fploop.more M = fploop.more L"

lemma fs_poll_stop_ok:
  assumes inv: "fp_inv_but e b L" and h: "h \<in> set (handle_queue L)" "htype (handles L h) = UV_FS_POLL"
  shows "\<exists>M. uv_fs_poll_stop K other h L = Some (0, M) \<and> fp_inv_but e b M \<and> stopped h L M"
proof (cases "uv__is_active L h")
  case False
  then show ?thesis using inv by (simp add: uv_fs_poll_stop_def stopped_def)
next
  case True
  have i: "timer_inv L" "ctx_inv b L" "link_inv L" "dangling_inv L" "gone_inv e L" using inv by (simp_all add: fp_inv_but_def)
  obtain c where c: "poll_ctx L h = Some c" using True h linkD(3) [OF i(3)] by blast
  have cm: "c \<in> set (ctx_mem L)" "parent_handle (ctxs L c) = Some h" using c unfolding linkD(1) [OF i(3)] by blast+
  then have cs: "c \<in> set (handle_queue L)" "htype (handles L c) = UV_TIMER" "stage_ok b L c" using i(2) by (simp_all add: ctx_inv_def)
  define P where "P = L\<lparr>ctxs := (ctxs L)(c := (ctxs L c)\<lparr>parent_handle := None\<rparr>), poll_ctx := (poll_ctx L)(h := None)\<rparr>"
  have "\<exists>N. (if uv__is_active P c then uv_close K other c (Some FS_TIMER_CLOSE_CB) P else Some P) = Some N \<and> timer_inv N \<and>
      handle_queue N = handle_queue L \<and> (\<forall>x. htype (handles N x) = htype (handles L x)) \<and>
      uv__is_active N = (uv__is_active L)(c := False) \<and>
      uv__is_closing N = (if uv__is_active L c then (uv__is_closing L)(c := True) else uv__is_closing L) \<and>
      being_closed N = (if uv__is_active L c then (being_closed L)(c := True) else being_closed L) \<and>
      close_cb N = (if uv__is_active L c then (close_cb L)(c := Some FS_TIMER_CLOSE_CB) else close_cb L) \<and> timers N = timers L \<and>
      active_reqs N = active_reqs L \<and> evloop.more N = evloop.more P"
  proof (cases "uv__is_active L c")
    case True
    then have "\<not> uv__is_closing L c" using cs(3) by (auto simp: stage_ok_def split: if_splits)
    then obtain N where "uv_close K other c (Some FS_TIMER_CLOSE_CB) P = Some N" "timer_inv N" "closes_timer c (Some FS_TIMER_CLOSE_CB) P N"
      using timer_close_ok [of P c K other "Some FS_TIMER_CLOSE_CB"] i(1) cs(1,2) by (auto simp: P_def is_timer_def)
    then show ?thesis using True by (intro exI [of _ N]) (simp add: closes_timer_def P_def)
  next
    case False
    then show ?thesis using i(1) by (intro exI [of _ P]) (simp add: P_def fun_eq_iff)
  qed
  then obtain N where N: "(if uv__is_active P c then uv_close K other c (Some FS_TIMER_CLOSE_CB) P else Some P) = Some N" "timer_inv N"
      "handle_queue N = handle_queue L" "\<forall>x. htype (handles N x) = htype (handles L x)"
      "uv__is_active N = (uv__is_active L)(c := False)"
      "uv__is_closing N = (if uv__is_active L c then (uv__is_closing L)(c := True) else uv__is_closing L)"
      "being_closed N = (if uv__is_active L c then (being_closed L)(c := True) else being_closed L)"
      "close_cb N = (if uv__is_active L c then (close_cb L)(c := Some FS_TIMER_CLOSE_CB) else close_cb L)" "timers N = timers L"
      "active_reqs N = active_reqs L" "evloop.more N = evloop.more P"
    by blast
  note m = more_fields [OF N(11)]
  have Pf: "poll_ctx P = (poll_ctx L)(h := None)" "ctxs P = (ctxs L)(c := (ctxs L c)\<lparr>parent_handle := None\<rparr>)" "ctx_mem P = ctx_mem L"
      "posted P = posted L" "req_path P = req_path L" "fploop.more P = fploop.more L"
    by (simp_all add: P_def)
  have Pa: "uv__is_active P c = uv__is_active L c" by (simp add: P_def)
  define M where "M = uv__handle_stop h N"
  have run: "uv_fs_poll_stop K other h L = Some (0, M)"
    using True c cm N(1) Pa by (cases "uv__is_active L c") (simp_all add: uv_fs_poll_stop_def get_ctx_def put_ctx_def M_def flip: P_def)
  have sel1: "poll_ctx M = (poll_ctx L)(h := None)" "ctxs M = (ctxs L)(c := (ctxs L c)\<lparr>parent_handle := None\<rparr>)" "ctx_mem M = ctx_mem L"
      "posted M = posted L" "req_path M = req_path L"
    by (simp_all only: M_def fp_handle_fields m Pf)
  have sel2: "handle_queue M = handle_queue L" "timers M = timers L" "active_reqs M = active_reqs L"
      "\<And>x. htype (handles M x) = htype (handles L x)"
    by (simp_all only: M_def handle_stop_sel tloop_handle_ops fp_handle_ops N(3,4,9,10))
  have sel3: "uv__is_active M x \<longleftrightarrow> x \<noteq> h \<and> x \<noteq> c \<and> uv__is_active L x"
      "uv__is_closing M x \<longleftrightarrow> (uv__is_active L c \<and> x = c) \<or> uv__is_closing L x"
      "being_closed M x \<longleftrightarrow> (uv__is_active L c \<and> x = c) \<or> being_closed L x"
      "close_cb M x = (if uv__is_active L c \<and> x = c then Some FS_TIMER_CLOSE_CB else close_cb L x)" for x
    by (simp_all only: M_def handle_stop_sel fp_handle_ops N(5-8)) simp_all
  note sel = sel1 sel2 sel3
  have ne: "x \<noteq> h" if "x \<in> set (ctx_mem L)" for x using that i(2) h(2) by (auto simp: ctx_inv_def)
  have t: "timer_inv M" unfolding M_def using N(2-4) h by (intro timer_inv_other) simp_all
  have st: "stage_ok b M x" if x: "x \<in> set (ctx_mem L)" for x
  proof -
    have "stage_ok b L x" using x i(2) by (simp add: ctx_inv_def)
    then show ?thesis using ne [OF x] cm(2) by (auto simp: stage_ok_def sel split: if_splits)
  qed
  have ci: "ctx_inv b M" using i(2) st by (simp add: ctx_inv_def sel)
  have li: "link_inv M"
    unfolding link_inv_def
  proof (intro conjI allI ballI impI)
    show "(poll_ctx M x = Some y) = (y \<in> set (ctx_mem M) \<and> parent_handle (ctxs M y) = Some x)" for x y
      using linkD(1) [OF i(3), of x y] cm by (simp add: sel) (use linkD(1) [OF i(3), of h y] c in auto)
    show "x \<in> set (handle_queue M)" "htype (handles M x) = UV_FS_POLL" if "poll_ctx M x \<noteq> None" for x
      using linkD(2) [OF i(3), of x] that by (simp_all add: sel split: if_splits)
    show "uv__is_active M x = (poll_ctx M x \<noteq> None)" if "x \<in> set (handle_queue M)" "htype (handles M x) = UV_FS_POLL" for x
      using linkD(3) [OF i(3), of x] that cs(2) by (cases "x = c") (simp_all add: sel)
  qed
  have di: "dangling_inv M" using i(4) cm by (auto simp: dangling_inv_def sel)
  have gi: "gone_inv e M" using i(5) cs(2) by (auto simp: gone_inv_def sel)
  have "fploop.more M = fploop.more L" by (simp only: M_def more_fields(6) [OF fp_handle_ops(6)] m Pf)
  then have "stopped h L M" using cm(1) by (auto simp: stopped_def sel)
  then show ?thesis using run t ci li di gi by (simp add: fp_inv_but_def)
qed

lemma init_fields [simp]:
  "close_cb (uv__handle_init a ty L) = close_cb L" "active_reqs (uv__handle_init a ty L) = active_reqs L"
  "evloop.more (uv__handle_init a ty L) = evloop.more L"
  "poll_ctx (uv__handle_init a ty L) = poll_ctx L" "ctxs (uv__handle_init a ty L) = ctxs L" "ctx_mem (uv__handle_init a ty L) = ctx_mem L"
  "posted (uv__handle_init a ty L) = posted L" "req_path (uv__handle_init a ty L) = req_path L"
  "being_closed (uv__handle_init a ty L) = (being_closed L)(a := False)"
  by (simp_all add: uv__handle_init_def fun_eq_iff being_closed_def hflags_def)

lemma init_timer_inv:
  assumes "timer_inv L" and "a \<notin> set (handle_queue L)" and "length (handle_queue L) + 1 < 2 ^ 32"
  shows "timer_inv (uv__handle_init a ty L)"
proof -
  have "timer_nodes (uv__handle_init a ty L) = timer_nodes L" using assms(2) by (auto simp: timer_nodes_def)
  then show ?thesis using assms by (intro timer_inv_cong [OF assms(1)]) (simp_all add: handle_init_inv)
qed

lemma poll_init_ok:
  assumes inv: "fp_inv b L" and a: "h \<notin> set (handle_queue L)" "length (handle_queue L) + 1 < 2 ^ 32"
  shows "fp_inv b (snd (uv_fs_poll_init h L))"
proof -
  define M where "M = uv__handle_init h UV_FS_POLL L"
  have i: "timer_inv L" "ctx_inv b L" "link_inv L" "dangling_inv L" "gone_inv None L" using inv by (simp_all add: fp_inv_but_def)
  have sel: "handle_queue M = handle_queue L @ [h]" "htype (handles M x) = (if x = h then UV_FS_POLL else htype (handles L x))"
      "uv__is_active M x \<longleftrightarrow> x \<noteq> h \<and> uv__is_active L x" "uv__is_closing M x \<longleftrightarrow> x \<noteq> h \<and> uv__is_closing L x"
      "being_closed M x \<longleftrightarrow> x \<noteq> h \<and> being_closed L x" "close_cb M = close_cb L" "timers M = timers L" "active_reqs M = active_reqs L"
      "poll_ctx M = poll_ctx L" "ctxs M = ctxs L" "ctx_mem M = ctx_mem L" "posted M = posted L" "req_path M = req_path L" for x
    by (simp_all add: M_def)
  have "h \<notin> set (ctx_mem L)" using i(2) a(1) by (auto simp: ctx_inv_def)
  then have "\<forall>c \<in> set (ctx_mem L). c \<noteq> h" by blast
  then have "ctx_inv b M" using i(2) by (simp add: ctx_inv_def stage_ok_def sel)
  moreover have p: "poll_ctx L h = None" using linkD(2) [OF i(3), of h] a(1) by blast
  have "link_inv M"
    unfolding link_inv_def
  proof (intro conjI allI ballI impI)
    show "(poll_ctx M x = Some y) = (y \<in> set (ctx_mem M) \<and> parent_handle (ctxs M y) = Some x)" for x y
      using linkD(1) [OF i(3), of x y] by (simp only: sel)
    show "x \<in> set (handle_queue M)" "htype (handles M x) = UV_FS_POLL" if "poll_ctx M x \<noteq> None" for x
      using linkD(2) [OF i(3), of x] that by (simp_all add: sel)
    show "uv__is_active M x = (poll_ctx M x \<noteq> None)" if "x \<in> set (handle_queue M)" "htype (handles M x) = UV_FS_POLL" for x
      using linkD(3) [OF i(3), of x] that p by (cases "x = h") (simp_all add: sel)
  qed
  moreover have "dangling_inv M" using i(4) a(1) by (auto simp: dangling_inv_def sel)
  moreover have "gone_inv None M" using i(5) by (auto simp: gone_inv_def sel)
  moreover have "timer_inv M" unfolding M_def by (rule init_timer_inv [OF i(1) a])
  ultimately show ?thesis by (simp add: uv_fs_poll_init_def fp_inv_but_def flip: M_def)
qed

text \<open>A started context, before its first request.\<close>

definition with_ctx :: "addr \<Rightarrow> nat \<Rightarrow> string \<Rightarrow> u32 \<Rightarrow> addr \<Rightarrow> ('k, 'a) fploop_scheme \<Rightarrow> ('k, 'a) fploop_scheme" where
  "with_ctx h cb path ival c L =
     (let L = snd (uv_timer_init c (L\<lparr>ctx_mem := ctx_mem L @ [c],
                    ctxs := (ctxs L)(c := \<lparr>parent_handle = Some h, busy_polling = 0, interval = (if ival \<noteq> 0 then ival else 1),
                      start_time = uv_now L, ctx_cb = cb, statbuf = zero_statbuf, ctx_path = path\<rparr>)\<rparr>))
      in uv__handle_unref c (set_flags c (add_flag (hflags L c) UV__HANDLE_INTERNAL) L))"

lemma start_with_ctx:
  "\<not> uv__is_active L h \<Longrightarrow> uv_fs_poll_start h cb path ival (Some c) room L =
     do { (err, L) \<leftarrow> uv_fs_stat c path room (with_ctx h cb path ival c L);
          if err < 0 then map_option (Pair err) (free_ctx c L)
          else Some (0, uv__handle_start h (L\<lparr>poll_ctx := (poll_ctx L)(h := Some c)\<rparr>)) }"
  by (simp add: uv_fs_poll_start_def with_ctx_def uv_timer_init_def Let_def)

lemma unref_fields [simp]:
  "evloop.more (uv__handle_unref a L) = evloop.more L" "active_reqs (uv__handle_unref a L) = active_reqs L"
  "timers (uv__handle_unref a L) = timers L" "timer_heap (uv__handle_unref a L) = timer_heap L"
  "being_closed (uv__handle_unref a L) = being_closed L" "time (uv__handle_unref a L) = time L"
  by (simp_all add: handle_ops_defs set_flags_def fun_eq_iff being_closed_def hflags_def)

lemma with_ctx_ok:
  assumes inv: "timer_inv L" and c: "c \<notin> set (handle_queue L)" "length (handle_queue L) + 1 < 2 ^ 32"
    and T_def: "T = with_ctx h cb path ival c L"
  shows "timer_inv T" "handle_queue T = handle_queue L @ [c]" "htype (handles T x) = (if x = c then UV_TIMER else htype (handles L x))"
    "uv__is_active T x \<longleftrightarrow> x \<noteq> c \<and> uv__is_active L x" "uv__is_closing T x \<longleftrightarrow> x \<noteq> c \<and> uv__is_closing L x"
    "being_closed T x \<longleftrightarrow> x \<noteq> c \<and> being_closed L x" "close_cb T = close_cb L"
    "timers T = (timers L)(c := (timers L c)\<lparr>timer_cb := None, repeat := 0\<rparr>)" "active_reqs T = active_reqs L" "poll_ctx T = poll_ctx L"
    "ctxs T = (ctxs L)(c := \<lparr>parent_handle = Some h, busy_polling = 0, interval = (if ival \<noteq> 0 then ival else 1),
                      start_time = time L, ctx_cb = cb, statbuf = zero_statbuf, ctx_path = path\<rparr>)"
    "ctx_mem T = ctx_mem L @ [c]" "posted T = posted L" "req_path T = req_path L"
proof -
  define B where "B = L\<lparr>ctx_mem := ctx_mem L @ [c],
                    ctxs := (ctxs L)(c := \<lparr>parent_handle = Some h, busy_polling = 0, interval = (if ival \<noteq> 0 then ival else 1),
                      start_time = uv_now L, ctx_cb = cb, statbuf = zero_statbuf, ctx_path = path\<rparr>)\<rparr>"
  define I where "I = set_timer c ((timers L c)\<lparr>timer_cb := None, repeat := 0\<rparr>) (uv__handle_init c UV_TIMER B)"
  define F where "F = set_flags c (add_flag (hflags I c) UV__HANDLE_INTERNAL) I"
  have T: "T = uv__handle_unref c F" by (simp add: T_def with_ctx_def uv_timer_init_def Let_def F_def I_def B_def)
  have B: "timer_inv B" using inv by (simp add: B_def)
  have tH: "timer_inv (uv__handle_init c UV_TIMER B)" using c by (intro init_timer_inv [OF B]) (simp_all add: B_def)
  have "c \<notin> timer_nodes (uv__handle_init c UV_TIMER B)" by (simp add: timer_nodes_def)
  moreover have "timer_nodes I = timer_nodes (uv__handle_init c UV_TIMER B)" by (simp add: I_def timer_nodes_def)
  ultimately have tI: "timer_inv I" using tH by (intro timer_inv_cong [OF tH]) (auto simp: I_def)
  have fI: "uv__is_active F = uv__is_active I" "uv__is_closing F = uv__is_closing I" "being_closed F = being_closed I" "uv__has_ref F = uv__has_ref I"
    by (auto simp: fun_eq_iff F_def uv__is_active_def is_closing_iff being_closed_def uv__has_ref_def)
  have gI: "handle_queue F = handle_queue I" "htype (handles F x) = htype (handles I x)" "active_handles F = active_handles I"
      "timer_heap F = timer_heap I" "timers F = timers I" for x
    by (simp_all add: F_def) (simp_all add: set_flags_def)
  have "timer_nodes F = timer_nodes I" "handle_inv F = handle_inv I"
    by (simp_all only: timer_nodes_def handle_inv_def live_handles_def fI gI)
  then have tF: "timer_inv F" using tI unfolding timer_inv_def gI by simp
  have "timer_nodes T = timer_nodes F" by (simp add: timer_nodes_def T)
  moreover have "handle_inv T" unfolding T using tF by (intro handle_unref_inv) (simp_all add: F_def I_def)
  ultimately show "timer_inv T" by (intro timer_inv_cong [OF tF]) (simp_all add: T)
  have mI: "evloop.more F = evloop.more B" by (simp add: F_def I_def set_flags_def set_timer_def)
  show "handle_queue T = handle_queue L @ [c]" "htype (handles T x) = (if x = c then UV_TIMER else htype (handles L x))"
    "uv__is_active T x \<longleftrightarrow> x \<noteq> c \<and> uv__is_active L x" "uv__is_closing T x \<longleftrightarrow> x \<noteq> c \<and> uv__is_closing L x"
    by (simp_all add: T fI) (simp_all add: F_def I_def B_def)
  show "being_closed T x \<longleftrightarrow> x \<noteq> c \<and> being_closed L x"
    by (simp add: T fI) (simp add: I_def being_closed_def B_def hflags_def uv__handle_init_def)
  show "close_cb T = close_cb L" "active_reqs T = active_reqs L" "timers T = (timers L)(c := (timers L c)\<lparr>timer_cb := None, repeat := 0\<rparr>)"
    by (simp_all add: T) (simp_all add: F_def I_def B_def set_flags_def set_timer_def)
  have "evloop.more T = evloop.more B" by (simp add: T mI)
  note m = more_fields [OF this]
  show "poll_ctx T = poll_ctx L" "ctxs T = (ctxs L)(c := \<lparr>parent_handle = Some h, busy_polling = 0, interval = (if ival \<noteq> 0 then ival else 1),
                      start_time = time L, ctx_cb = cb, statbuf = zero_statbuf, ctx_path = path\<rparr>)"
    "ctx_mem T = ctx_mem L @ [c]" "posted T = posted L" "req_path T = req_path L"
    by (simp_all add: m) (simp_all add: B_def uv_now_def)
qed

lemma linkI:
  assumes "\<And>h c. poll_ctx L h = Some c \<longleftrightarrow> c \<in> set (ctx_mem L) \<and> parent_handle (ctxs L c) = Some h"
    and "\<And>h. poll_ctx L h \<noteq> None \<Longrightarrow> h \<in> set (handle_queue L) \<and> htype (handles L h) = UV_FS_POLL"
    and "\<And>h. h \<in> set (handle_queue L) \<Longrightarrow> htype (handles L h) = UV_FS_POLL \<Longrightarrow>
       uv__is_active L h \<longleftrightarrow> poll_ctx L h \<noteq> None"
  shows "link_inv L"
  using assms unfolding link_inv_def by blast

lemma fs_stat_eq:
  "uv_fs_stat c path True T =
     Some (0, T\<lparr>active_reqs := active_reqs T @ [c], req_path := (req_path T)(c := Some path), posted := posted T @ [c]\<rparr>)"
  "uv_fs_stat c path False T =
     Some (FS_ENOMEM, T\<lparr>active_reqs := removeAll c (active_reqs T), req_path := (req_path T)(c := None)\<rparr>)"
  by (simp_all add: uv_fs_stat_def uv__req_register_def uv__req_unregister_def uv__has_active_reqs_def)

lemma poll_start_ok:
  assumes inv: "fp_inv b L" and h: "h \<in> set (handle_queue L)" "htype (handles L h) = UV_FS_POLL" "\<not> uv__is_closing L h"
    and c: "\<forall>c. mem = Some c \<longrightarrow> c \<notin> set (handle_queue L) \<and> length (handle_queue L) + 1 < 2 ^ 32"
  shows "\<exists>r M. uv_fs_poll_start h cb path ival mem room L = Some (r, M) \<and> fp_inv b M"
proof (cases "uv__is_active L h \<or> mem = None")
  case True
  then show ?thesis using inv by (auto simp: uv_fs_poll_start_def)
next
  case False
  then obtain c where mem: "mem = Some c" and na: "\<not> uv__is_active L h" by blast
  have i: "timer_inv L" "ctx_inv b L" "link_inv L" "dangling_inv L" "gone_inv None L" using inv by (simp_all add: fp_inv_but_def)
  have c: "c \<notin> set (handle_queue L)" "length (handle_queue L) + 1 < 2 ^ 32" using c mem by simp_all
  then have nc: "c \<noteq> h" "c \<notin> set (ctx_mem L)" "c \<notin> set (posted L)" "b \<noteq> Some c" using h(1) i(2) by (auto simp: ctx_inv_def)
  then have ne: "x \<noteq> c" if "x \<in> set (ctx_mem L)" for x using that by blast
  have nm: "x \<noteq> h" if "x \<in> set (ctx_mem L)" for x using that i(2) h(2) by (auto simp: ctx_inv_def)
  have ph: "poll_ctx L h = None" using linkD(3) [OF i(3) h(1,2)] na by blast
  then have np: "parent_handle (ctxs L x) \<noteq> Some h" if "x \<in> set (ctx_mem L)" for x using linkD(1) [OF i(3), of h x] that by simp
  have nq: "poll_ctx L c = None" using linkD(2) [OF i(3), of c] c(1) by blast
  have nl: "poll_ctx L x \<noteq> Some c" for x using linkD(1) [OF i(3), of x c] nc(2) by blast
  define T where "T = with_ctx h cb path ival c L"
  note t = with_ctx_ok [OF i(1) c T_def]
  show ?thesis
  proof (cases room)
    case True
    define S where "S = T\<lparr>active_reqs := active_reqs T @ [c], req_path := (req_path T)(c := Some path), posted := posted T @ [c],
        poll_ctx := (poll_ctx T)(h := Some c)\<rparr>"
    define M where "M = uv__handle_start h S"
    have run: "uv_fs_poll_start h cb path ival mem room L = Some (0, M)"
      using True unfolding mem start_with_ctx [OF na] T_def [symmetric] by (simp add: fs_stat_eq M_def S_def)
    have sel: "handle_queue M = handle_queue L @ [c]" "htype (handles M x) = (if x = c then UV_TIMER else htype (handles L x))"
      "uv__is_active M x \<longleftrightarrow> x = h \<or> (x \<noteq> c \<and> uv__is_active L x)" "uv__is_closing M x \<longleftrightarrow> x \<noteq> c \<and> uv__is_closing L x"
      "being_closed M x \<longleftrightarrow> x \<noteq> c \<and> being_closed L x" "close_cb M = close_cb L"
      "timers M = (timers L)(c := (timers L c)\<lparr>timer_cb := None, repeat := 0\<rparr>)" "active_reqs M = active_reqs L @ [c]"
      "poll_ctx M = (poll_ctx L)(h := Some c)"
      "ctxs M = (ctxs L)(c := \<lparr>parent_handle = Some h, busy_polling = 0, interval = (if ival \<noteq> 0 then ival else 1),
                      start_time = time L, ctx_cb = cb, statbuf = zero_statbuf, ctx_path = path\<rparr>)"
      "ctx_mem M = ctx_mem L @ [c]" "posted M = posted L @ [c]" "req_path M = (req_path L)(c := Some path)" for x
      by (simp_all add: M_def S_def t)
    have "timer_inv S" using t(1) by (simp add: S_def)
    then have "timer_inv M" unfolding M_def by (rule timer_inv_other) (use h nc(1) in \<open>simp_all add: S_def t\<close>)
    moreover have "stage_ok b M x" if "x \<in> set (ctx_mem L)" for x
    proof -
      have "stage_ok b L x" using that i(2) by (simp add: ctx_inv_def)
      then show ?thesis using ne [OF that] nm [OF that] by (simp add: stage_ok_def sel)
    qed
    moreover have "stage_ok b M c" using nc(1) by (simp add: stage_ok_def sel)
    ultimately have "timer_inv M \<and> ctx_inv b M" using i(2) nc by (auto simp: ctx_inv_def sel)
    moreover have "link_inv M"
    proof (rule linkI)
      show "(poll_ctx M x = Some y) = (y \<in> set (ctx_mem M) \<and> parent_handle (ctxs M y) = Some x)" for x y
        using linkD(1) [OF i(3), of x y] np [of y] nl [of x] nc(2) by (cases "y = c"; cases "x = h") (simp_all add: sel)
      show "x \<in> set (handle_queue M) \<and> htype (handles M x) = UV_FS_POLL" if "poll_ctx M x \<noteq> None" for x
        using linkD(2) [OF i(3), of x] that h nc(1) nq by (cases "x = h") (auto simp: sel)
      show "uv__is_active M x \<longleftrightarrow> poll_ctx M x \<noteq> None"
        if "x \<in> set (handle_queue M)" "htype (handles M x) = UV_FS_POLL" for x
        using linkD(3) [OF i(3), of x] that h nc(1) by (cases "x = c"; cases "x = h") (simp_all add: sel)
    qed
    moreover have "dangling_inv M" using i(4) by (auto simp: dangling_inv_def sel h)
    moreover have "gone_inv None M" using i(5) h(3) by (auto simp: gone_inv_def sel)
    ultimately show ?thesis using run by (simp add: fp_inv_but_def)
  next
    case False
    define M where "M = T\<lparr>active_reqs := removeAll c (active_reqs T), req_path := (req_path T)(c := None), ctx_mem := removeAll c (ctx_mem T)\<rparr>"
    have run: "uv_fs_poll_start h cb path ival mem room L = Some (FS_ENOMEM, M)"
      using False unfolding mem start_with_ctx [OF na] T_def [symmetric] by (simp add: fs_stat_eq M_def free_ctx_def t)
    have sel: "handle_queue M = handle_queue L @ [c]" "htype (handles M x) = (if x = c then UV_TIMER else htype (handles L x))"
      "uv__is_active M x \<longleftrightarrow> x \<noteq> c \<and> uv__is_active L x" "uv__is_closing M x \<longleftrightarrow> x \<noteq> c \<and> uv__is_closing L x"
      "being_closed M x \<longleftrightarrow> x \<noteq> c \<and> being_closed L x" "close_cb M = close_cb L"
      "timers M = (timers L)(c := (timers L c)\<lparr>timer_cb := None, repeat := 0\<rparr>)" "active_reqs M = removeAll c (active_reqs L)"
      "poll_ctx M = poll_ctx L"
      "ctxs M = (ctxs L)(c := \<lparr>parent_handle = Some h, busy_polling = 0, interval = (if ival \<noteq> 0 then ival else 1),
                      start_time = time L, ctx_cb = cb, statbuf = zero_statbuf, ctx_path = path\<rparr>)"
      "ctx_mem M = ctx_mem L" "posted M = posted L" "req_path M = (req_path L)(c := None)" for x
      using nc(2) by (simp_all add: M_def t)
    have "timer_inv M" using t(1) by (simp add: M_def)
    moreover have "stage_ok b M x" if "x \<in> set (ctx_mem L)" for x
    proof -
      have "stage_ok b L x" using that i(2) by (simp add: ctx_inv_def)
      then show ?thesis using ne [OF that] by (simp add: stage_ok_def sel)
    qed
    then have "ctx_inv b M" using i(2) ne nc(3) by (auto simp: ctx_inv_def sel)
    moreover have "link_inv M"
    proof (rule linkI)
      show "(poll_ctx M x = Some y) = (y \<in> set (ctx_mem M) \<and> parent_handle (ctxs M y) = Some x)" for x y
        using linkD(1) [OF i(3), of x y] nc(2) by (cases "y = c") (simp_all add: sel)
      show "x \<in> set (handle_queue M) \<and> htype (handles M x) = UV_FS_POLL" if "poll_ctx M x \<noteq> None" for x
        using linkD(2) [OF i(3), of x] that nq by (cases "x = c") (simp_all add: sel)
      show "uv__is_active M x \<longleftrightarrow> poll_ctx M x \<noteq> None"
        if "x \<in> set (handle_queue M)" "htype (handles M x) = UV_FS_POLL" for x
        using linkD(3) [OF i(3), of x] that by (cases "x = c") (simp_all add: sel)
    qed
    moreover have "dangling_inv M" using i(4) by (auto simp: dangling_inv_def sel)
    moreover have "gone_inv None M" using i(5) by (auto simp: gone_inv_def sel)
    ultimately show ?thesis using run by (simp add: fp_inv_but_def)
  qed
qed

lemma inactive_gone: "link_inv L \<Longrightarrow> gone_inv (Some h) L \<Longrightarrow> h \<in> set (handle_queue L) \<Longrightarrow> htype (handles L h) = UV_FS_POLL \<Longrightarrow>
    \<not> uv__is_active L h \<Longrightarrow> gone_inv None L"
  using linkD(3) unfolding gone_inv_def by blast

text \<open>Changing flags, links and a close callback that no context depends on.\<close>

lemma inv_closing:
  assumes inv: "fp_inv b L" and h: "h \<in> set (handle_queue L)" "htype (handles L h) = UV_FS_POLL" and cb: "cb \<noteq> Some FS_TIMER_CLOSE_CB"
    and M: "timer_inv M" "handle_queue M = handle_queue L" "\<And>x. htype (handles M x) = htype (handles L x)" "uv__is_active M = uv__is_active L"
      "uv__is_closing M = (uv__is_closing L)(h := True)" "being_closed M = (being_closed L)(h := True)" "close_cb M = (close_cb L)(h := cb)"
      "timers M = timers L" "active_reqs M = active_reqs L" "evloop.more M = evloop.more L"
  shows "fp_inv_but (Some h) b M"
proof -
  have i: "ctx_inv b L" "link_inv L" "dangling_inv L" "gone_inv None L" using inv by (simp_all add: fp_inv_but_def)
  note sel = M(2-9) more_fields [OF M(10)]
  have nm: "x \<noteq> h" if "x \<in> set (ctx_mem L)" for x using that i(1) h(2) by (auto simp: ctx_inv_def)
  have "stage_ok b M x" if "x \<in> set (ctx_mem L)" for x
  proof -
    have "stage_ok b L x" using that i(1) by (simp add: ctx_inv_def)
    then show ?thesis using nm [OF that] by (simp add: stage_ok_def sel)
  qed
  then have "ctx_inv b M" using i(1) by (simp add: ctx_inv_def sel)
  moreover have "link_inv M" using i(2) unfolding link_inv_def sel by blast
  moreover have "dangling_inv M" using i(3) cb by (auto simp: dangling_inv_def sel)
  moreover have "gone_inv (Some h) M" using i(4) by (auto simp: gone_inv_def sel)
  ultimately show ?thesis using M(1) by (simp add: fp_inv_but_def)
qed

lemma poll_close_ok:
  assumes inv: "fp_inv b L" and h: "h \<in> set (handle_queue L)" "htype (handles L h) = UV_FS_POLL" "\<not> uv__is_closing L h"
    and cb: "cb \<noteq> Some FS_TIMER_CLOSE_CB"
  shows "\<exists>M. uv_close K (fs_other K other) h cb L = Some M \<and> fp_inv b M \<and> being_closed M h"
proof -
  define C where "C = (set_flags h (add_flag (hflags L h) UV_CLOSING) L)\<lparr>close_cb := (close_cb L)(h := cb)\<rparr>"
  have tL: "timer_inv L" using inv by (simp add: fp_inv_but_def)
  note c = mark_closing [OF tL h(3), of cb, folded C_def]
  have iC: "fp_inv_but (Some h) b C" by (rule inv_closing [OF inv h(1,2) cb c])
  have hC: "h \<in> set (handle_queue C)" "htype (handles C h) = UV_FS_POLL" using h by (simp_all add: c)
  obtain S where S: "uv_fs_poll_stop K other h C = Some (0, S)" "fp_inv_but (Some h) b S" "stopped h C S"
    using fs_poll_stop_ok [OF iC hC] by blast
  have "ctx_inv b C" using iC by (simp add: fp_inv_but_def)
  then have "h \<notin> set (ctx_mem C)" using hC(2) by (auto simp: ctx_inv_def)
  then have bS: "being_closed S h" using S(3) by (simp add: stopped_def c)
  obtain M where M: "uv__make_close_pending h S = Some M" "timer_inv M" "handle_queue M = handle_queue S"
      "\<And>x. htype (handles M x) = htype (handles S x)" "uv__is_active M = uv__is_active S" "uv__is_closing M = uv__is_closing S"
      "being_closed M = being_closed S" "tloop.more M = tloop.more S" "timers M = timers S"
    using pend_closing [OF conjunct1 [OF flags_closing [OF bS]] conjunct2 [OF flags_closing [OF bS]]] S(2) by (auto simp: fp_inv_but_def)
  note f = fp_more [OF M(8)]
  have iS: "ctx_inv b S" "link_inv S" "dangling_inv S" "gone_inv (Some h) S" using S(2) by (simp_all add: fp_inv_but_def)
  have "gone_inv None S" using S(3) hC by (intro inactive_gone [OF iS(2,4)]) (simp_all add: stopped_def)
  then have "fp_inv b M"
    using iS(1-3) M(2) unfolding fp_inv_but_def ctx_inv_def stage_ok_def link_inv_def dangling_inv_def gone_inv_def M f by blast
  moreover have "uv_close K (fs_other K other) h cb L = Some M"
    using h M(1) S(1) c(3) [of h]
    by (simp add: uv_close_def Let_def C_def set_flags_def close_type_def fs_other_def uv__fs_poll_close_def)
  ultimately show ?thesis using bS M(7) by auto
qed

lemma do_op_ok:
  assumes inv: "fp_inv b L" and ok: "op_ok p L"
  shows "\<exists>M. do_op K other p L = Some M \<and> fp_inv b M"
proof (cases p)
  case (Init h)
  then show ?thesis using poll_init_ok [OF inv] ok by (simp add: do_op_def op_ok_def)
next
  case (Start h cb path ival mem room)
  then show ?thesis using poll_start_ok [OF inv, of h mem cb path ival room] ok by (auto simp: do_op_def op_ok_def)
next
  case (Stop h)
  then show ?thesis using fs_poll_stop_ok [OF inv, of h K other] ok by (auto simp: do_op_def op_ok_def)
next
  case (Close h cb)
  then show ?thesis using poll_close_ok [OF inv, of h cb K other] ok by (auto simp: do_op_def op_ok_def)
qed

lemma run_ops_ok: "fp_inv b L \<Longrightarrow> \<exists>M. run_ops K other ps L = Some M \<and> fp_inv b M"
proof (induction ps arbitrary: L)
  case (Cons p ps)
  then show ?case using do_op_ok [OF Cons.prems, of p K other] by (auto simp: bind_eq_Some_conv)
qed simp

section \<open>The callbacks keep the invariant\<close>

lemma put_ctx_ok:
  assumes inv: "fp_inv_but e b L" and c: "c \<in> set (ctx_mem L)"
    and f: "parent_handle (f (ctxs L c)) = parent_handle (ctxs L c)" "interval (f (ctxs L c)) = interval (ctxs L c)"
  shows "\<exists>M. put_ctx c f L = Some M \<and> fp_inv_but e b M"
proof -
  define M where "M = L\<lparr>ctxs := (ctxs L)(c := f (ctxs L c))\<rparr>"
  have p: "parent_handle (ctxs M x) = parent_handle (ctxs L x)" "interval (ctxs M x) = interval (ctxs L x)" for x
    using f by (simp_all add: M_def)
  have sel: "handle_queue M = handle_queue L" "handles M = handles L" "uv__is_active M = uv__is_active L" "uv__is_closing M = uv__is_closing L"
      "being_closed M = being_closed L" "close_cb M = close_cb L" "timers M = timers L" "active_reqs M = active_reqs L" "poll_ctx M = poll_ctx L"
      "ctx_mem M = ctx_mem L" "posted M = posted L" "req_path M = req_path L" "timer_inv M = timer_inv L"
    by (simp_all add: M_def)
  have "fp_inv_but e b M"
    using inv unfolding fp_inv_but_def ctx_inv_def stage_ok_def link_inv_def dangling_inv_def gone_inv_def sel p .
  then show ?thesis using c by (simp add: put_ctx_def M_def)
qed

lemma running_allocated: "fp_inv_but e (Some c) L \<Longrightarrow> c \<in> set (ctx_mem L)"
  by (simp add: fp_inv_but_def ctx_inv_def)

lemma poll_report_ok:
  assumes inv: "fp_inv (Some c) L" and user: "\<And>h r s t L. fp_inv (Some c) L \<Longrightarrow> \<exists>M. user h r s t L = Some M \<and> fp_inv (Some c) M"
  shows "\<exists>M. poll_report (\<lambda>_. user) c h result st L = Some M \<and> fp_inv (Some c) M"
proof (cases "result \<noteq> 0")
  case True
  show ?thesis
  proof (cases "busy_polling (ctxs L c) \<noteq> result")
    case b: True
    obtain M where M: "user h (signed_take_bit 31 result) (statbuf (ctxs L c)) zero_statbuf L = Some M" "fp_inv (Some c) M"
      using user [OF inv] by blast
    obtain N where "put_ctx c (\<lambda>x. x\<lparr>busy_polling := signed_take_bit 31 result\<rparr>) M = Some N" "fp_inv (Some c) N"
      using put_ctx_ok [OF M(2) running_allocated [OF M(2)], of "\<lambda>x. x\<lparr>busy_polling := signed_take_bit 31 result\<rparr>"] by auto
    then show ?thesis using True b M running_allocated [OF inv] by (simp add: poll_report_def get_ctx_def)
  next
    case False
    then show ?thesis using True inv running_allocated [OF inv] by (simp add: poll_report_def get_ctx_def)
  qed
next
  case False
  let ?b = "busy_polling (ctxs L c) \<noteq> 0 \<and> (busy_polling (ctxs L c) < 0 \<or> \<not> statbuf_eq (statbuf (ctxs L c)) st)"
  have "\<exists>M. (if ?b then user h 0 (statbuf (ctxs L c)) st L else Some L) = Some M \<and> fp_inv (Some c) M"
    using user [OF inv, of h 0 "statbuf (ctxs L c)" st] inv by (simp only: split: if_split) blast
  then obtain M where M: "(if ?b then user h 0 (statbuf (ctxs L c)) st L else Some L) = Some M" "fp_inv (Some c) M"
    by blast
  obtain N where "put_ctx c (\<lambda>x. x\<lparr>statbuf := st, busy_polling := 1\<rparr>) M = Some N" "fp_inv (Some c) N"
    using put_ctx_ok [OF M(2) running_allocated [OF M(2)], of "\<lambda>x. x\<lparr>statbuf := st, busy_polling := 1\<rparr>"] by auto
  then show ?thesis using False M running_allocated [OF inv] by (simp add: poll_report_def get_ctx_def)
qed

lemma cleanup_ok:
  assumes inv: "fp_inv (Some c) L"
  shows "fp_inv (Some c) (uv_fs_req_cleanup c L)"
proof -
  define M where "M = uv_fs_req_cleanup c L"
  have sel: "handle_queue M = handle_queue L" "handles M = handles L" "uv__is_active M = uv__is_active L" "uv__is_closing M = uv__is_closing L"
      "being_closed M = being_closed L" "close_cb M = close_cb L" "timers M = timers L" "active_reqs M = active_reqs L" "poll_ctx M = poll_ctx L"
      "ctx_mem M = ctx_mem L" "posted M = posted L" "ctxs M = ctxs L" "timer_inv M = timer_inv L" "req_path M = (req_path L)(c := None)"
    by (simp_all add: M_def uv_fs_req_cleanup_def)
  have i: "timer_inv L" "ctx_inv (Some c) L" "link_inv L" "dangling_inv L" "gone_inv None L" using inv by (simp_all add: fp_inv_but_def)
  have "ctx_inv (Some c) M" using i(2) by (auto simp: ctx_inv_def stage_ok_def sel split: if_splits)
  moreover have "link_inv M" "dangling_inv M" "gone_inv None M"
    using i(3-5) unfolding link_inv_def dangling_inv_def gone_inv_def sel .
  ultimately show ?thesis using i(1) by (simp add: fp_inv_but_def sel flip: M_def)
qed

text \<open>The timer of the context whose callback is running is closed.\<close>

lemma ctx_close_ok:
  assumes inv: "fp_inv (Some c) L" and p: "parent_handle (ctxs L c) = None" and r: "req_path L c = None"
  shows "\<exists>M. uv_close K other c (Some FS_TIMER_CLOSE_CB) L = Some M \<and> fp_inv None M"
proof -
  have i: "timer_inv L" "ctx_inv (Some c) L" "link_inv L" "dangling_inv L" "gone_inv None L" using inv by (simp_all add: fp_inv_but_def)
  have c: "c \<in> set (ctx_mem L)" "c \<notin> set (posted L)" "c \<in> set (handle_queue L)" "htype (handles L c) = UV_TIMER" "stage_ok (Some c) L c"
    using i(2) by (simp_all add: ctx_inv_def)
  then have "is_timer L c" "\<not> uv__is_closing L c" by (simp_all add: is_timer_def stage_ok_def)
  from timer_close_ok [OF i(1) this] obtain M where M: "uv_close K other c (Some FS_TIMER_CLOSE_CB) L = Some M" "timer_inv M"
      "closes_timer c (Some FS_TIMER_CLOSE_CB) L M"
    by blast
  have m: "evloop.more M = evloop.more L" using M(3) by (simp add: closes_timer_def)
  have sel: "handle_queue M = handle_queue L" "\<And>x. htype (handles M x) = htype (handles L x)"
     "uv__is_active M = (uv__is_active L)(c := False)" "uv__is_closing M = (uv__is_closing L)(c := True)"
     "being_closed M = (being_closed L)(c := True)" "close_cb M = (close_cb L)(c := Some FS_TIMER_CLOSE_CB)" "timers M = timers L"
     "active_reqs M = active_reqs L"
    using M(3) by (simp_all add: closes_timer_def)
  note sel = sel more_fields [OF m]
  have "stage_ok None M x" if "x \<in> set (ctx_mem L)" for x
  proof -
    have "stage_ok (Some c) L x" using that i(2) by (simp add: ctx_inv_def)
    then show ?thesis using p r c(2) by (cases "x = c") (simp_all add: stage_ok_def sel)
  qed
  then have "ctx_inv None M" using i(2) by (simp add: ctx_inv_def sel)
  moreover have "link_inv M"
  proof (rule linkI)
    show "(poll_ctx M x = Some y) = (y \<in> set (ctx_mem M) \<and> parent_handle (ctxs M y) = Some x)" for x y
      using linkD(1) [OF i(3), of x y] by (simp add: sel)
    show "x \<in> set (handle_queue M) \<and> htype (handles M x) = UV_FS_POLL" if "poll_ctx M x \<noteq> None" for x
      using linkD(2) [OF i(3), of x] that by (simp add: sel)
    show "uv__is_active M x \<longleftrightarrow> poll_ctx M x \<noteq> None" if "x \<in> set (handle_queue M)" "htype (handles M x) = UV_FS_POLL" for x
      using linkD(3) [OF i(3), of x] that c(4) by (cases "x = c") (simp_all add: sel)
  qed
  moreover have "dangling_inv M" using i(4) c(1) by (auto simp: dangling_inv_def sel)
  moreover have "gone_inv None M" using i(5) c(4) by (auto simp: gone_inv_def sel)
  ultimately show ?thesis using M(1,2) by (simp add: fp_inv_but_def)
qed

text \<open>Its timer is started again.\<close>

lemma ctx_start_ok:
  assumes inv: "fp_inv (Some c) L" and p: "parent_handle (ctxs L c) \<noteq> None" and r: "req_path L c = None"
  shows "\<exists>M. uv_timer_start c (Some FS_TIMER_CB) t 0 L = Some (0, M) \<and> fp_inv None M"
proof -
  have i: "timer_inv L" "ctx_inv (Some c) L" "link_inv L" "dangling_inv L" "gone_inv None L" using inv by (simp_all add: fp_inv_but_def)
  have c: "c \<in> set (ctx_mem L)" "c \<notin> set (posted L)" "c \<in> set (handle_queue L)" "htype (handles L c) = UV_TIMER" "stage_ok (Some c) L c"
    using i(2) by (simp_all add: ctx_inv_def)
  have t: "is_timer L c" and nc: "\<not> uv__is_closing L c" using c by (simp_all add: is_timer_def stage_ok_def)
  obtain M where M: "uv_timer_start c (Some FS_TIMER_CB) t 0 L = Some (0, M)" "timer_inv M" "timer_nodes M = insert c (timer_nodes L)"
      "timers M c = \<lparr>timer_cb = Some FS_TIMER_CB, timeout = clamped_timeout (time L) t, repeat = 0, start_id = timer_counter L\<rparr>"
      "timer_frame c L M"
    using timer_start_ok [OF i(1) t, of FS_TIMER_CB t 0] by blast
  have m: "tloop.more M = tloop.more L" and sc: "same_closing L M" and q: "handle_queue M = handle_queue L"
    and fr: "\<And>x. htype (handles M x) = htype (handles L x)" "\<And>x. uv__is_closing M x = uv__is_closing L x"
      "\<And>x. x \<noteq> c \<Longrightarrow> timers M x = timers L x" "\<And>x. x \<noteq> c \<Longrightarrow> uv__is_active M x = uv__is_active L x"
    using M(5) by (simp_all add: timer_frame_def)
  have ac: "uv__is_active M c" using M(3) by (auto simp: timer_nodes_def)
  have bc: "being_closed M = being_closed L" using sc by (simp add: fun_eq_iff same_closing_def being_closed_def)
  note sel = q fr(1,2) bc fp_more [OF m]
  have "stage_ok None M x" if "x \<in> set (ctx_mem L)" for x
  proof -
    have "stage_ok (Some c) L x" using that i(2) by (simp add: ctx_inv_def)
    then show ?thesis using p r c(2) ac nc M(4) by (cases "x = c") (simp_all add: stage_ok_def sel fr)
  qed
  then have "ctx_inv None M" using i(2) by (simp add: ctx_inv_def sel)
  moreover have "link_inv M"
  proof (rule linkI)
    show "(poll_ctx M x = Some y) = (y \<in> set (ctx_mem M) \<and> parent_handle (ctxs M y) = Some x)" for x y
      using linkD(1) [OF i(3), of x y] by (simp add: sel)
    show "x \<in> set (handle_queue M) \<and> htype (handles M x) = UV_FS_POLL" if "poll_ctx M x \<noteq> None" for x
      using linkD(2) [OF i(3), of x] that by (simp add: sel)
    show "uv__is_active M x \<longleftrightarrow> poll_ctx M x \<noteq> None" if "x \<in> set (handle_queue M)" "htype (handles M x) = UV_FS_POLL" for x
      using linkD(3) [OF i(3), of x] that c(4) by (cases "x = c") (simp_all add: sel fr)
  qed
  moreover have "dangling_inv M"
    unfolding dangling_inv_def
  proof (intro conjI ballI impI)
    show "x \<in> set (ctx_mem M)" if "x \<in> set (handle_queue M)" "htype (handles M x) = UV_TIMER" "uv__is_active M x"
        "timer_cb (timers M x) = Some FS_TIMER_CB" for x
      using i(4) that c(1) by (cases "x = c") (simp_all add: dangling_inv_def sel fr)
    show "x \<in> set (ctx_mem M)" if "x \<in> set (handle_queue M)" "being_closed M x" "close_cb M x = Some FS_TIMER_CLOSE_CB" for x
      using i(4) that by (simp add: dangling_inv_def sel)
  qed
  moreover have "gone_inv None M" using i(5) by (simp add: gone_inv_def sel)
  ultimately show ?thesis using M(1,2) by (simp add: fp_inv_but_def)
qed

lemma poll_again_ok:
  assumes inv: "fp_inv (Some c) L" and r: "req_path L c = None"
  shows "\<exists>M. poll_again K other c L = Some M \<and> fp_inv None M"
proof -
  have c: "c \<in> set (ctx_mem L)" by (rule running_allocated [OF inv])
  then have i: "interval (ctxs L c) \<noteq> 0" using inv by (simp add: fp_inv_but_def ctx_inv_def stage_ok_def)
  show ?thesis
  proof (cases "parent_handle (ctxs L c)")
    case None
    then show ?thesis using ctx_close_ok [OF inv None r, of K other] c by (simp add: poll_again_def get_ctx_def)
  next
    case (Some h)
    let ?t = "ucast (interval (ctxs L c)) - (uv_now L - start_time (ctxs L c)) mod ucast (interval (ctxs L c)) :: u64"
    obtain M where "uv_timer_start c (Some FS_TIMER_CB) ?t 0 L = Some (0, M)" "fp_inv None M"
      using ctx_start_ok [OF inv _ r, of ?t] Some by blast
    then show ?thesis using c i Some by (simp add: poll_again_def get_ctx_def Let_def)
  qed
qed

lemma cleanup_sel [simp]: "req_path (uv_fs_req_cleanup c L) c = None" "ctxs (uv_fs_req_cleanup c L) = ctxs L"
  by (simp_all add: uv_fs_req_cleanup_def)

text \<open>The request is cleaned up after the timer is closed; it could be before.\<close>

lemma close_cleanup:
  assumes inv: "fp_inv (Some c) L" and p: "parent_handle (ctxs L c) = None"
  shows "\<exists>M. map_option (uv_fs_req_cleanup c) (uv_close K other c (Some FS_TIMER_CLOSE_CB) L) = Some M \<and> fp_inv None M"
proof -
  have i: "timer_inv L" "ctx_inv (Some c) L" using inv by (simp_all add: fp_inv_but_def)
  have c: "c \<in> set (ctx_mem L)" "c \<in> set (handle_queue L)" "htype (handles L c) = UV_TIMER" "stage_ok (Some c) L c"
    using i(2) by (simp_all add: ctx_inv_def)
  then have "is_timer L c" "\<not> uv__is_closing L c" by (simp_all add: is_timer_def stage_ok_def)
  note cl = timer_close_ok [OF i(1) this]
  obtain M where M: "uv_close K other c (Some FS_TIMER_CLOSE_CB) L = Some M" "timer_inv M" "closes_timer c (Some FS_TIMER_CLOSE_CB) L M"
    using cl by blast
  define N where "N = uv_fs_req_cleanup c L"
  define P where "P = uv_fs_req_cleanup c M"
  have m: "evloop.more M = evloop.more L" using M(3) by (simp add: closes_timer_def)
  have iN: "fp_inv (Some c) N" unfolding N_def by (rule cleanup_ok [OF inv])
  have sN: "handle_queue N = handle_queue L" "handles N = handles L" "uv__is_active N = uv__is_active L" "uv__is_closing N = uv__is_closing L"
      "being_closed N = being_closed L" "close_cb N = close_cb L" "timers N = timers L" "active_reqs N = active_reqs L" "poll_ctx N = poll_ctx L"
      "ctx_mem N = ctx_mem L" "posted N = posted L" "ctxs N = ctxs L" "timer_inv N = timer_inv L" "req_path N = (req_path L)(c := None)"
    by (simp_all add: N_def uv_fs_req_cleanup_def)
  obtain Q where Q: "fp_inv None Q" "closes_timer c (Some FS_TIMER_CLOSE_CB) N Q"
  proof -
    have "is_timer N c" "\<not> uv__is_closing N c" using \<open>is_timer L c\<close> \<open>\<not> uv__is_closing L c\<close> by (simp_all add: is_timer_def sN)
    then obtain Q where "uv_close K other c (Some FS_TIMER_CLOSE_CB) N = Some Q" "closes_timer c (Some FS_TIMER_CLOSE_CB) N Q"
      using timer_close_ok [of N c K other] i(1) sN(13) by blast
    moreover have "parent_handle (ctxs N c) = None" "req_path N c = None" using p by (simp_all add: sN)
    ultimately show ?thesis using ctx_close_ok [OF iN, of K other] that by auto
  qed
  have q: "evloop.more Q = evloop.more N" using Q(2) by (simp add: closes_timer_def)
  have sP: "handle_queue P = handle_queue Q" "\<And>x. htype (handles P x) = htype (handles Q x)" "uv__is_active P = uv__is_active Q"
      "uv__is_closing P = uv__is_closing Q" "being_closed P = being_closed Q" "close_cb P = close_cb Q" "timers P = timers Q"
      "active_reqs P = active_reqs Q" "poll_ctx P = poll_ctx Q" "ctx_mem P = ctx_mem Q" "posted P = posted Q" "ctxs P = ctxs Q" "req_path P = req_path Q"
    using M(3) Q(2) unfolding closes_timer_def by (simp_all add: P_def uv_fs_req_cleanup_def more_fields [OF m] more_fields [OF q] sN)
  have tP: "timer_inv P" using M(2) by (simp add: P_def uv_fs_req_cleanup_def)
  have "ctx_inv None Q" "link_inv Q" "dangling_inv Q" "gone_inv None Q" using Q(1) by (simp_all add: fp_inv_but_def)
  then have "fp_inv None P"
    using tP unfolding fp_inv_but_def ctx_inv_def stage_ok_def link_inv_def dangling_inv_def gone_inv_def sP by blast
  then show ?thesis using M(1) by (simp add: P_def)
qed

lemma fs_poll_cb_ok:
  assumes inv: "fp_inv (Some c) L" and user: "\<And>h r s t L. fp_inv (Some c) L \<Longrightarrow> \<exists>M. user h r s t L = Some M \<and> fp_inv (Some c) M"
  shows "\<exists>M. fs_poll_cb K other (\<lambda>_. user) c result st L = Some M \<and> fp_inv None M"
proof (cases "parent_handle (ctxs L c)")
  case None
  then show ?thesis using close_cleanup [OF inv None, of K other] running_allocated [OF inv] by (simp add: fs_poll_cb_def get_ctx_def)
next
  case (Some h)
  obtain M where M: "poll_report (\<lambda>_. user) c h result st L = Some M" "fp_inv (Some c) M"
    using poll_report_ok [of c L user h result st, OF inv user] by blast
  obtain N where "poll_again K other c (uv_fs_req_cleanup c M) = Some N" "fp_inv None N"
    using poll_again_ok [OF cleanup_ok [OF M(2)], of K other] by auto
  then show ?thesis using Some M running_allocated [OF inv] by (simp add: fs_poll_cb_def get_ctx_def)
qed

lemma done_running:
  assumes inv: "fp_inv None L" and c: "c \<in> set (posted L)"
  shows "\<exists>M. uv__req_unregister c (L\<lparr>posted := removeAll c (posted L)\<rparr>) = Some M \<and> fp_inv (Some c) M"
proof -
  define M where "M = L\<lparr>posted := removeAll c (posted L), active_reqs := removeAll c (active_reqs L)\<rparr>"
  have i: "timer_inv L" "ctx_inv None L" "link_inv L" "dangling_inv L" "gone_inv None L" using inv by (simp_all add: fp_inv_but_def)
  have sel: "handle_queue M = handle_queue L" "handles M = handles L" "uv__is_active M = uv__is_active L" "uv__is_closing M = uv__is_closing L"
      "being_closed M = being_closed L" "close_cb M = close_cb L" "timers M = timers L" "active_reqs M = removeAll c (active_reqs L)"
      "poll_ctx M = poll_ctx L" "ctx_mem M = ctx_mem L" "posted M = removeAll c (posted L)" "ctxs M = ctxs L" "timer_inv M = timer_inv L"
      "req_path M = req_path L"
    by (simp_all add: M_def)
  have cm: "c \<in> set (ctx_mem L)" "c \<in> set (active_reqs L)" using i(2) c by (auto simp: ctx_inv_def)
  have "stage_ok (Some c) M x" if "x \<in> set (ctx_mem L)" for x
  proof -
    have "stage_ok None L x" using that i(2) by (simp add: ctx_inv_def)
    then show ?thesis using c by (cases "x = c") (simp_all add: stage_ok_def sel)
  qed
  then have "ctx_inv (Some c) M" using i(2) cm by (auto simp: ctx_inv_def sel distinct_removeAll)
  moreover have "link_inv M" "dangling_inv M" "gone_inv None M"
    using i(3-5) unfolding link_inv_def dangling_inv_def gone_inv_def sel .
  moreover have "uv__req_unregister c (L\<lparr>posted := removeAll c (posted L)\<rparr>) = Some M"
    using cm(2) by (auto simp: uv__req_unregister_def uv__has_active_reqs_def M_def)
  ultimately show ?thesis using i(1) by (simp add: fp_inv_but_def sel)
qed

lemma fs_done_ok:
  assumes inv: "fp_inv None L" and c: "c \<in> set (posted L)" "status = - FS_ECANCELED \<longrightarrow> result = 0"
    and user: "\<And>h r s t L. fp_inv (Some c) L \<Longrightarrow> \<exists>M. user h r s t L = Some M \<and> fp_inv (Some c) M"
  shows "\<exists>M. uv__fs_done K other (\<lambda>_. user) c status result st L = Some M \<and> fp_inv None M"
proof -
  obtain N where N: "uv__req_unregister c (L\<lparr>posted := removeAll c (posted L)\<rparr>) = Some N" "fp_inv (Some c) N"
    using done_running [OF inv c(1)] by blast
  obtain M where "fs_poll_cb K other (\<lambda>_. user) c (if status = - FS_ECANCELED then - FS_ECANCELED else result) st N = Some M" "fp_inv None M"
    using fs_poll_cb_ok [OF N(2), of user K other] user by blast
  then show ?thesis using N(1) c(2) by (simp add: uv__fs_done_def Let_def)
qed

text \<open>A context whose timer fires is allocated and has a handle.\<close>

lemma timer_due_ok:
  assumes inv: "fp_inv None L" and c: "is_timer L c" "uv__is_active L c" "timer_cb (timers L c) = Some FS_TIMER_CB"
  shows "\<exists>M. fp_event K other (Timer_due c) L = Some M \<and> fp_inv None M"
proof -
  have i: "timer_inv L" "ctx_inv None L" "link_inv L" "dangling_inv L" "gone_inv None L" using inv by (simp_all add: fp_inv_but_def)
  have cm: "c \<in> set (ctx_mem L)" using i(4) c by (simp add: dangling_inv_def is_timer_def)
  have "stage_ok None L c" using i(2) cm by (simp add: ctx_inv_def)
  then have st: "c \<notin> set (posted L)" "\<not> uv__is_closing L c" "parent_handle (ctxs L c) \<noteq> None" "repeat (timers L c) = 0" "interval (ctxs L c) \<noteq> 0"
    using c(2) by (auto simp: stage_ok_def split: if_splits)
  obtain h where h: "parent_handle (ctxs L c) = Some h" using st(3) by blast
  have ph: "poll_ctx L h = Some c" using linkD(1) [OF i(3), of h c] cm h by simp
  obtain S where S: "uv_timer_stop c L = Some (0, S)" "timer_inv S" "\<not> uv__is_active S c" "timers S = timers L" "timer_frame c L S"
    using timer_stop_ok [OF i(1) c(1)] by blast
  have m: "tloop.more S = tloop.more L" and sc: "same_closing L S" and q: "handle_queue S = handle_queue L" "time S = time L"
    and fr: "\<And>x. htype (handles S x) = htype (handles L x)" "\<And>x. uv__is_closing S x = uv__is_closing L x"
      "\<And>x. x \<noteq> c \<Longrightarrow> uv__is_active S x = uv__is_active L x"
    using S(5) by (simp_all add: timer_frame_def)
  have again: "uv_timer_again c S = Some (0, S)" using c(3) st(4) S(4) by (simp add: uv_timer_again_def)
  have bc: "being_closed S = being_closed L" using sc by (simp add: fun_eq_iff same_closing_def being_closed_def)
  have act: "uv__is_active S x \<longleftrightarrow> x \<noteq> c \<and> uv__is_active L x" for x using fr(3) [of x] S(3) by (cases "x = c") simp_all
  note f = fp_more [OF m]
  define M where "M = S\<lparr>ctxs := (ctxs S)(c := (ctxs S c)\<lparr>start_time := uv_now S\<rparr>), active_reqs := active_reqs S @ [c],
      req_path := (req_path S)(c := Some (ctx_path (ctxs S c))), posted := posted S @ [c]\<rparr>"
  have run: "fp_event K other (Timer_due c) L = Some M"
    using S(1) again cm h ph by (simp add: fp_event_def fs_timer_cb_def get_ctx_def put_ctx_def f fs_stat_eq M_def uv_now_def)
  have p: "parent_handle (ctxs M x) = parent_handle (ctxs L x)" "interval (ctxs M x) = interval (ctxs L x)" for x by (simp_all add: M_def f)
  have sel: "handle_queue M = handle_queue L" "\<And>x. htype (handles M x) = htype (handles L x)"
      "\<And>x. uv__is_active M x \<longleftrightarrow> x \<noteq> c \<and> uv__is_active L x" "\<And>x. uv__is_closing M x = uv__is_closing L x"
      "being_closed M = being_closed L" "close_cb M = close_cb L" "timers M = timers L" "active_reqs M = active_reqs L @ [c]" "poll_ctx M = poll_ctx L"
      "ctx_mem M = ctx_mem L" "posted M = posted L @ [c]" "req_path M = (req_path L)(c := Some (ctx_path (ctxs L c)))"
    by (simp_all add: M_def f q fr(1,2) bc S(4) act)
  have "stage_ok None M x" if "x \<in> set (ctx_mem L)" for x
  proof -
    have "stage_ok None L x" using that i(2) by (simp add: ctx_inv_def)
    then show ?thesis using st by (cases "x = c") (simp_all add: stage_ok_def sel p)
  qed
  then have "ctx_inv None M" using i(2) cm st(1) by (auto simp: ctx_inv_def sel)
  moreover have "link_inv M"
  proof (rule linkI)
    show "(poll_ctx M x = Some y) = (y \<in> set (ctx_mem M) \<and> parent_handle (ctxs M y) = Some x)" for x y
      using linkD(1) [OF i(3), of x y] by (simp add: sel p)
    show "x \<in> set (handle_queue M) \<and> htype (handles M x) = UV_FS_POLL" if "poll_ctx M x \<noteq> None" for x
      using linkD(2) [OF i(3), of x] that by (simp add: sel)
    show "uv__is_active M x \<longleftrightarrow> poll_ctx M x \<noteq> None" if "x \<in> set (handle_queue M)" "htype (handles M x) = UV_FS_POLL" for x
      using linkD(3) [OF i(3), of x] that c(1) by (cases "x = c") (simp_all add: sel is_timer_def)
  qed
  moreover have "dangling_inv M" using i(4) by (auto simp: dangling_inv_def sel)
  moreover have "gone_inv None M" using i(5) by (simp add: gone_inv_def sel)
  moreover have "timer_inv M" using S(2) by (simp add: M_def)
  ultimately show ?thesis using run by (simp add: fp_inv_but_def)
qed

lemma fs_finish_ok:
  assumes inv: "fp_inv None L" and a: "a \<in> set (handle_queue L)" "being_closed L a"
      "htype (handles L a) = UV_FS_POLL \<or> close_cb L a = Some FS_TIMER_CLOSE_CB"
  shows "\<exists>M. fp_event K other (Finish a ps) L = Some M \<and> fp_inv None M \<and>
    (ps = [] \<longrightarrow> ctx_mem M = (if close_cb L a = Some FS_TIMER_CLOSE_CB then removeAll a (ctx_mem L) else ctx_mem L))"
proof -
  have i: "timer_inv L" "ctx_inv None L" "link_inv L" "dangling_inv L" "gone_inv None L" using inv by (simp_all add: fp_inv_but_def)
  have cl: "uv__is_closing L a" using a(2) by (simp add: is_closing_iff being_closed_def)
  have ctx: "close_cb L a = Some FS_TIMER_CLOSE_CB \<Longrightarrow> a \<in> set (ctx_mem L)" using i(4) a(1,2) by (simp add: dangling_inv_def)
  then have ty: "close_cb L a = Some FS_TIMER_CLOSE_CB \<longleftrightarrow> htype (handles L a) = UV_TIMER"
    using i(2) a(3) by (auto simp: ctx_inv_def)
  have na: "\<not> uv__is_active L a"
  proof (cases "close_cb L a = Some FS_TIMER_CLOSE_CB")
    case True
    then have "stage_ok None L a" using i(2) ctx by (simp add: ctx_inv_def)
    then show ?thesis using cl by (auto simp: stage_ok_def split: if_splits)
  next
    case False
    then have "poll_ctx L a = None" using i(5) a cl by (simp add: gone_inv_def)
    then show ?thesis using linkD(3) [OF i(3) a(1)] a(3) False by simp
  qed
  have par: "close_cb L a = Some FS_TIMER_CLOSE_CB \<Longrightarrow> parent_handle (ctxs L a) = None \<and> a \<notin> set (posted L)"
  proof -
    assume "close_cb L a = Some FS_TIMER_CLOSE_CB"
    then have "stage_ok None L a" using i(2) ctx by (simp add: ctx_inv_def)
    then show ?thesis using cl na by (auto simp: stage_ok_def split: if_splits)
  qed
  define C where "C = set_flags a (add_flag (hflags L a) UV_CLOSED) L"
  define N where "N = (uv__handle_unref a C)\<lparr>handle_queue := removeAll a (handle_queue C)\<rparr>"
  have mC: "close_cb C = close_cb L" "active_reqs C = active_reqs L" "timers C = timers L" "evloop.more C = evloop.more L"
      "timer_heap C = timer_heap L" "\<And>x. htype (handles C x) = htype (handles L x)" "handle_queue C = handle_queue L"
      "active_handles C = active_handles L"
    by (simp_all add: C_def) (simp_all add: set_flags_def)
  have fC: "uv__is_active C = uv__is_active L" "uv__is_closing C = uv__is_closing L" "being_closed C = (being_closed L)(a := False)"
      "uv__has_ref C = uv__has_ref L"
    using cl by (auto simp: fun_eq_iff C_def uv__is_active_def is_closing_iff being_closed_def uv__has_ref_def)
  have hC: "handle_inv C = handle_inv L" by (simp only: handle_inv_def live_handles_def fC mC)
  have fl: "hflags N = hflags (uv__handle_unref a C)" by (simp add: N_def fun_eq_iff)
  have fN: "uv__is_active N = uv__is_active L" "uv__is_closing N = uv__is_closing L" "being_closed N = (being_closed L)(a := False)"
  proof -
    have "uv__is_active N = uv__is_active (uv__handle_unref a C)" "uv__is_closing N = uv__is_closing (uv__handle_unref a C)"
      "being_closed N = being_closed (uv__handle_unref a C)"
      using fl by (simp_all add: fun_eq_iff uv__is_active_def uv__is_closing_def being_closed_def)
    then show "uv__is_active N = uv__is_active L" "uv__is_closing N = uv__is_closing L" "being_closed N = (being_closed L)(a := False)"
      by (simp_all add: fC fun_eq_iff)
  qed
  have eN: "evloop.more N = evloop.more L" by (simp add: N_def mC)
  have sel: "handle_queue N = removeAll a (handle_queue L)" "\<And>x. htype (handles N x) = htype (handles L x)" "close_cb N = close_cb L"
      "timers N = timers L" "active_reqs N = active_reqs L" "timer_heap N = timer_heap L"
    by (simp_all add: N_def mC)
  note sel = sel fN more_fields [OF eN]
  have "handle_inv N" unfolding N_def using i(1) hC a(1) by (intro handle_inv_unref_remove) (simp_all add: mC)
  moreover have "timer_nodes N = timer_nodes L" using na by (auto simp: timer_nodes_def sel)
  ultimately have tN: "timer_inv N" by (intro timer_inv_cong [OF i(1)]) (simp_all add: sel)
  have ft: "finish_type other a C = Some C"
    using a(3) ty by (auto simp: finish_type_def mC)
  have run: "fp_event K other (Finish a ps) L = (case close_cb L a of None \<Rightarrow> Some N
       | Some cb \<Rightarrow> if cb = FS_TIMER_CLOSE_CB then timer_close_cb a N else run_ops K other ps N)"
  proof -
    have "uv__finish_close other call a L = (case close_cb L a of None \<Rightarrow> Some N | Some cb \<Rightarrow> call cb a N)" for call
      using a(2) ft by (simp add: uv__finish_close_def being_closed_def Let_def N_def mC flip: C_def split: option.split)
    then show ?thesis by (simp add: fp_event_def)
  qed
  define F where "F = N\<lparr>ctx_mem := removeAll a (ctx_mem L)\<rparr>"
  have inv': "fp_inv None (N\<lparr>ctx_mem := m\<rparr>)"
    if m: "m = (if close_cb L a = Some FS_TIMER_CLOSE_CB then removeAll a (ctx_mem L) else ctx_mem L)" for m
  proof -
    define F where "F = N\<lparr>ctx_mem := m\<rparr>"
    have s: "handle_queue F = removeAll a (handle_queue L)" "\<And>x. htype (handles F x) = htype (handles L x)" "close_cb F = close_cb L"
      "timers F = timers L" "active_reqs F = active_reqs L" "uv__is_active F = uv__is_active L" "uv__is_closing F = uv__is_closing L"
      "being_closed F = (being_closed L)(a := False)" "poll_ctx F = poll_ctx L" "ctxs F = ctxs L" "ctx_mem F = m" "posted F = posted L"
      "req_path F = req_path L" "timer_inv F"
      by (simp_all add: F_def sel tN)
    have ms: "x \<in> set m \<longleftrightarrow> x \<in> set (ctx_mem L) \<and> x \<noteq> a" for x
      using m ty i(2) a(3) by (auto simp: ctx_inv_def)
    have dm: "distinct m" using m i(2) by (simp add: ctx_inv_def distinct_removeAll)
    have pm: "set (posted L) \<subseteq> set m" using i(2) par ms ty a(3) by (auto simp: ctx_inv_def)
    have pa: "poll_ctx L x \<noteq> Some a" for x using linkD(1) [OF i(3), of x a] par ctx ty a(3) i(2) by (auto simp: ctx_inv_def)
    have "stage_ok None F x" if "x \<in> set m" for x
    proof -
      have "x \<noteq> a" "stage_ok None L x" using that i(2) by (simp_all add: ctx_inv_def ms)
      then show ?thesis by (simp add: stage_ok_def s)
    qed
    then have "ctx_inv None F" using i(2) dm pm by (auto simp: ctx_inv_def s ms)
    moreover have "link_inv F"
    proof (rule linkI)
      show "(poll_ctx F x = Some y) = (y \<in> set (ctx_mem F) \<and> parent_handle (ctxs F y) = Some x)" for x y
        using linkD(1) [OF i(3), of x y] pa [of x] by (auto simp: s ms)
      show "x \<in> set (handle_queue F) \<and> htype (handles F x) = UV_FS_POLL" if "poll_ctx F x \<noteq> None" for x
      proof -
        have "x \<in> set (handle_queue L)" "htype (handles L x) = UV_FS_POLL" "uv__is_active L x"
          using linkD(2,3) [OF i(3), of x] that by (simp_all add: s)
        then show ?thesis using na by (auto simp: s)
      qed
      show "uv__is_active F x \<longleftrightarrow> poll_ctx F x \<noteq> None" if "x \<in> set (handle_queue F)" "htype (handles F x) = UV_FS_POLL" for x
        using linkD(3) [OF i(3), of x] that by (simp add: s)
    qed
    moreover have "dangling_inv F" using i(4) by (simp add: dangling_inv_def s ms)
    moreover have "gone_inv None F" using i(5) by (simp add: gone_inv_def s)
    ultimately show ?thesis using s(14) by (simp add: fp_inv_but_def F_def)
  qed
  show ?thesis
  proof (cases "close_cb L a = Some FS_TIMER_CLOSE_CB")
    case True
    then have "fp_event K other (Finish a ps) L = Some (N\<lparr>ctx_mem := removeAll a (ctx_mem L)\<rparr>)"
      using ctx by (simp add: run timer_close_cb_def free_ctx_def sel)
    then show ?thesis using True inv' [of "removeAll a (ctx_mem L)"] by simp
  next
    case False
    have iN: "fp_inv None N" using inv' [of "ctx_mem L"] False by (simp add: more_fields [OF eN, symmetric])
    obtain M where "run_ops K other ps N = Some M" "fp_inv None M" using run_ops_ok [OF iN] by blast
    moreover have "ctx_mem N = ctx_mem L" by (simp add: sel)
    ultimately show ?thesis using False iN by (cases "close_cb L a") (auto simp: run)
  qed
qed

lemma tick_ok:
  assumes "fp_inv None L"
  shows "fp_inv None (L\<lparr>time := t\<rparr>)"
proof -
  define M where "M = L\<lparr>time := t\<rparr>"
  have sel: "handle_queue M = handle_queue L" "handles M = handles L" "uv__is_active M = uv__is_active L" "uv__is_closing M = uv__is_closing L"
      "being_closed M = being_closed L" "close_cb M = close_cb L" "timers M = timers L" "active_reqs M = active_reqs L" "poll_ctx M = poll_ctx L"
      "ctx_mem M = ctx_mem L" "posted M = posted L" "req_path M = req_path L" "timer_inv M = timer_inv L" "ctxs M = ctxs L"
    by (simp_all add: M_def)
  have "fp_inv None M"
    using assms unfolding fp_inv_but_def ctx_inv_def stage_ok_def link_inv_def dangling_inv_def gone_inv_def sel .
  then show ?thesis by (simp add: M_def)
qed

lemma fp_event_ok:
  assumes inv: "fp_inv None L" and can: "fp_can e L"
  shows "\<exists>M. fp_event K other e L = Some M \<and> fp_inv None M"
proof (cases e)
  case (Api p)
  then show ?thesis using do_op_ok [OF inv] can by (simp add: fp_event_def fp_can_def)
next
  case (Stat_done c status result st ps)
  then have "c \<in> set (posted L)" "status = - FS_ECANCELED \<longrightarrow> result = 0" using can by (simp_all add: fp_can_def)
  from fs_done_ok [OF inv this, of "\<lambda>_ _ _ _. run_ops K other ps" K other st, OF run_ops_ok]
  show ?thesis using Stat_done by (simp add: fp_event_def)
next
  case (Timer_due c)
  then have "is_timer L c" "uv__is_active L c" "timer_cb (timers L c) = Some FS_TIMER_CB" using can by (simp_all add: fp_can_def)
  from timer_due_ok [OF inv this] show ?thesis unfolding Timer_due .
next
  case (Finish a ps)
  then have "a \<in> set (handle_queue L)" "being_closed L a" "htype (handles L a) = UV_FS_POLL \<or> close_cb L a = Some FS_TIMER_CLOSE_CB"
    using can by (simp_all add: fp_can_def)
  from fs_finish_ok [OF inv this, of K other ps] show ?thesis unfolding Finish by blast
next
  case (Tick t)
  then show ?thesis using tick_ok [OF inv] by (simp add: fp_event_def)
qed

lemma fp_fresh_inv: "fp_fresh L \<Longrightarrow> fp_inv None L"
  unfolding fp_fresh_def fp_inv_but_def ctx_inv_def link_inv_def dangling_inv_def gone_inv_def
  by (intro conjI) (simp_all, blast+)

lemma fp_reach_inv: "fp_reach K other L0 L \<Longrightarrow> fp_fresh L0 \<Longrightarrow> fp_inv None L"
proof (induction rule: fp_reach.induct)
  case start
  then show ?case by (rule fp_fresh_inv)
next
  case (step L e L')
  then show ?case using fp_event_ok [of L e K other] by auto
qed

section \<open>What is reported\<close>

text \<open>The reference: a result of the poll is an error or what \<open>stat\<close> found.  The first error is reported, the first
  success is not; after that, what differs from the result before.  The callback gets the last success before,
  or zeros.\<close>

fun same_result :: "int + uv_stat \<Rightarrow> int + uv_stat \<Rightarrow> bool" where
  "same_result (Inl e) (Inl e') \<longleftrightarrow> e = e'"
| "same_result (Inr s) (Inr t) \<longleftrightarrow> statbuf_eq s t"
| "same_result _ _ \<longleftrightarrow> False"

definition report_entry :: "uv_stat \<Rightarrow> int + uv_stat \<Rightarrow> int \<times> uv_stat \<times> uv_stat" where
  "report_entry old r = (case r of Inl e \<Rightarrow> (e, old, zero_statbuf) | Inr s \<Rightarrow> (0, old, s))"

fun changes :: "(int + uv_stat) option \<Rightarrow> uv_stat \<Rightarrow> (int + uv_stat) list \<Rightarrow> (int \<times> uv_stat \<times> uv_stat) list" where
  "changes prev old [] = []"
| "changes prev old (r # rs) =
     (if (case prev of None \<Rightarrow> isl r | Some q \<Rightarrow> \<not> same_result q r) then [report_entry old r] else []) @
     changes (Some r) (case r of Inl _ \<Rightarrow> old | Inr s \<Rightarrow> s) rs"

text \<open>The code, with a callback that notes its arguments.\<close>

definition note_change ::
  "nat \<Rightarrow> addr \<Rightarrow> int \<Rightarrow> uv_stat \<Rightarrow> uv_stat \<Rightarrow> ('k, (int \<times> uv_stat \<times> uv_stat) list) fploop_scheme
    \<Rightarrow> ('k, (int \<times> uv_stat \<times> uv_stat) list) fploop_scheme option" where
  "note_change cb h r a b L = Some (fploop.more_update (\<lambda>log. log @ [(r, a, b)]) L)"

fun report_all ::
  "addr \<Rightarrow> addr \<Rightarrow> (int + uv_stat) list \<Rightarrow> ('k, (int \<times> uv_stat \<times> uv_stat) list) fploop_scheme
    \<Rightarrow> ('k, (int \<times> uv_stat \<times> uv_stat) list) fploop_scheme option" where
  "report_all c h [] L = Some L"
| "report_all c h (r # rs) L =
     Option.bind (case r of Inl e \<Rightarrow> poll_report note_change c h e zero_statbuf L | Inr s \<Rightarrow> poll_report note_change c h 0 s L)
       (report_all c h rs)"

definition reported_state :: "(int + uv_stat) option \<Rightarrow> uv_stat \<Rightarrow> fs_ctx \<Rightarrow> bool" where
  "reported_state prev old x \<longleftrightarrow> statbuf x = old \<and>
     (case prev of None \<Rightarrow> busy_polling x = 0 | Some (Inl e) \<Rightarrow> e < 0 \<and> busy_polling x = e | Some (Inr s) \<Rightarrow> busy_polling x = 1 \<and> s = old)"

lemma small_int: "- 2147483648 \<le> e \<Longrightarrow> e < 0 \<Longrightarrow> signed_take_bit 31 (e :: int) = e"
  by (simp add: signed_take_bit_int_eq_self)

lemma report_all_ok:
  assumes "\<forall>e. Inl e \<in> set rs \<longrightarrow> - 2147483648 \<le> e \<and> e < 0" and "c \<in> set (ctx_mem L)" and "reported_state prev old (ctxs L c)"
  shows "\<exists>M. report_all c h rs L = Some M \<and> fploop.more M = fploop.more L @ changes prev old rs"
  using assms
proof (induction rs arbitrary: prev old L)
  case (Cons r rs)
  let ?x = "ctxs L c"
  have ex: "\<exists>M. (case r of Inl e \<Rightarrow> poll_report note_change c h e zero_statbuf L | Inr s \<Rightarrow> poll_report note_change c h 0 s L) = Some M \<and>
      c \<in> set (ctx_mem M) \<and> reported_state (Some r) (case r of Inl _ \<Rightarrow> old | Inr s \<Rightarrow> s) (ctxs M c) \<and>
      fploop.more M = fploop.more L @ (if (case prev of None \<Rightarrow> isl r | Some q \<Rightarrow> \<not> same_result q r) then [report_entry old r] else [])"
  proof (cases r)
    case (Inl e)
    then have e: "e < 0" "signed_take_bit 31 e = e" using Cons.prems(1) small_int by auto
    have "busy_polling ?x \<noteq> e \<longleftrightarrow> (case prev of None \<Rightarrow> True | Some q \<Rightarrow> \<not> same_result q (Inl e))"
      using Cons.prems(3) e(1) by (auto simp: reported_state_def split: option.splits sum.splits)
    then show ?thesis using Inl e Cons.prems(2,3)
      by (cases "busy_polling ?x = e")
         (auto simp: poll_report_def get_ctx_def put_ctx_def note_change_def reported_state_def report_entry_def split: option.splits sum.splits)
  next
    case (Inr s)
    have b: "(busy_polling ?x \<noteq> 0 \<and> (busy_polling ?x < 0 \<or> \<not> statbuf_eq (statbuf ?x) s)) \<longleftrightarrow>
        (case prev of None \<Rightarrow> False | Some q \<Rightarrow> \<not> same_result q (Inr s))"
      using Cons.prems(3) by (auto simp: reported_state_def split: option.splits sum.splits)
    show ?thesis
    proof (cases "busy_polling ?x \<noteq> 0 \<and> (busy_polling ?x < 0 \<or> \<not> statbuf_eq (statbuf ?x) s)")
      case True
      then have "case prev of None \<Rightarrow> False | Some q \<Rightarrow> \<not> same_result q (Inr s)" using b by blast
      then show ?thesis using True Inr Cons.prems(2,3)
        by (simp add: poll_report_def get_ctx_def put_ctx_def note_change_def reported_state_def report_entry_def split: option.splits)
    next
      case False
      then have "\<not> (case prev of None \<Rightarrow> False | Some q \<Rightarrow> \<not> same_result q (Inr s))" using b by blast
      moreover have "poll_report note_change c h 0 s L = put_ctx c (\<lambda>x. x\<lparr>statbuf := s, busy_polling := 1\<rparr>) L"
        using False Cons.prems(2) by (auto simp: poll_report_def get_ctx_def)
      ultimately show ?thesis using Inr Cons.prems(2)
        by (simp add: put_ctx_def reported_state_def split: option.splits)
    qed
  qed
  then obtain M where M: "(case r of Inl e \<Rightarrow> poll_report note_change c h e zero_statbuf L | Inr s \<Rightarrow> poll_report note_change c h 0 s L) = Some M"
      "c \<in> set (ctx_mem M)" "reported_state (Some r) (case r of Inl _ \<Rightarrow> old | Inr s \<Rightarrow> s) (ctxs M c)"
      "fploop.more M = fploop.more L @ (if (case prev of None \<Rightarrow> isl r | Some q \<Rightarrow> \<not> same_result q r) then [report_entry old r] else [])"
    by blast
  obtain N where "report_all c h rs M = Some N" "fploop.more N = fploop.more M @ changes (Some r) (case r of Inl _ \<Rightarrow> old | Inr s \<Rightarrow> s) rs"
    using Cons.IH [OF _ M(2,3)] Cons.prems(1) by auto
  then show ?case using M(1,4) by simp
qed simp

section \<open>Properties\<close>


text \<open>C37: the callback of a poll hears of exactly the changes: of an error that differs from the result
  before, of a success after an error, and of a \<open>stat\<close> that differs in one of the fields compared; the first
  success only sets what is compared with.\<close>

theorem fs_poll_reports_changes:
  assumes "c \<in> set (ctx_mem L)" and "busy_polling (ctxs L c) = 0" and "\<forall>e. Inl e \<in> set rs \<longrightarrow> - 2147483648 \<le> e \<and> e < 0"
  shows "\<exists>M. report_all c h rs L = Some M \<and> fploop.more M = fploop.more L @ changes None (statbuf (ctxs L c)) rs"
  using report_all_ok [OF assms(3,1), of None "statbuf (ctxs L c)" h] assms(2) by (simp add: reported_state_def)

text \<open>When the copy of the path for the first request is refused, \<open>uv_fs_poll_start\<close> returns \<open>UV_ENOMEM\<close> and frees the
  context, but the context's timer stays in the loop's queue of handles: whatever visits the handles next
  (\<open>uv_walk\<close>, \<open>uv_loop_close\<close>, or linking the next handle) touches memory that was freed.\<close>

theorem fs_poll_start_leaves_timer:
  assumes "\<not> uv__is_active L h" and "c \<notin> set (ctx_mem L)"
  shows "\<exists>M. uv_fs_poll_start h cb path ival (Some c) False L = Some (FS_ENOMEM, M) \<and>
    ctx_mem M = ctx_mem L \<and> c \<in> set (handle_queue M) \<and> htype (handles M c) = UV_TIMER \<and> \<not> uv__is_closing M c"
proof -
  define I where "I = snd (uv_timer_init c (L\<lparr>ctx_mem := ctx_mem L @ [c],
                    ctxs := (ctxs L)(c := \<lparr>parent_handle = Some h, busy_polling = 0, interval = (if ival \<noteq> 0 then ival else 1),
                      start_time = uv_now L, ctx_cb = cb, statbuf = zero_statbuf, ctx_path = path\<rparr>)\<rparr>))"
  define F where "F = set_flags c (add_flag (hflags I c) UV__HANDLE_INTERNAL) I"
  have w: "with_ctx h cb path ival c L = uv__handle_unref c F" by (simp add: with_ctx_def I_def F_def Let_def)
  have "c \<in> set (handle_queue I)" "htype (handles I c) = UV_TIMER" "\<not> uv__is_closing I c"
    by (simp_all add: I_def uv_timer_init_def Let_def)
  moreover have "evloop.more F = evloop.more I" by (simp add: F_def set_flags_def)
  ultimately have F: "c \<in> set (handle_queue F)" "htype (handles F c) = UV_TIMER" "\<not> uv__is_closing F c" "evloop.more F = evloop.more I"
    by (simp_all add: F_def is_closing_iff)
  have "ctx_mem I = ctx_mem L @ [c]" by (simp add: I_def uv_timer_init_def Let_def set_timer_def)
  then have "ctx_mem F = ctx_mem L @ [c]" using more_fields [OF F(4)] by simp
  moreover have "evloop.more (uv__handle_unref c F) = evloop.more F" by simp
  ultimately have m: "ctx_mem (uv__handle_unref c F) = ctx_mem L @ [c]" using more_fields by metis
  show ?thesis
    using assms by (simp add: start_with_ctx [OF assms(1)] w fs_stat_eq free_ctx_def m F)
qed

section \<open>An example\<close>

text \<open>A loop with one handle, 20.\<close>

definition sample_fploop :: "'a \<Rightarrow> (skernel, 'a) fploop_scheme" where
  "sample_fploop log = fploop.extend (evloop.extend ((evloop.truncate sample_evloop)\<lparr>active_handles := 0, handle_queue := [20],
       handles := (\<lambda>_. \<lparr>flags = 0x2000, htype = UV_FS_POLL, next_closing = None\<rparr>),
       timer_heap := \<lparr>hmin = None, nelts = 0, hmem = (\<lambda>_. \<lparr>left = None, right = None, parent = None\<rparr>)\<rparr>, close_cb := (\<lambda>_. None)\<rparr>)
     (fploop.fields (\<lambda>_. None)
       (\<lambda>_. \<lparr>parent_handle = Some 20, busy_polling = 0, interval = 5, start_time = 0, ctx_cb = 7, statbuf = zero_statbuf, ctx_path = ''f''\<rparr>)
       [] [] (\<lambda>_. None))) log"

lemma sample_fploop_sel [simp]:
  "handle_queue (sample_fploop log) = [20]" "active_handles (sample_fploop log) = 0" "uv__is_active (sample_fploop log) x \<longleftrightarrow> False"
  "uv__is_closing (sample_fploop log) x \<longleftrightarrow> False"
  "htype (handles (sample_fploop log) x) = UV_FS_POLL" "close_cb (sample_fploop log) x = None" "poll_ctx (sample_fploop log) x = None"
  "ctx_mem (sample_fploop log) = []" "posted (sample_fploop log) = []" "fploop.more (sample_fploop log) = log"
  "busy_polling (ctxs (sample_fploop log) x) = 0" "statbuf (ctxs (sample_fploop log) x) = zero_statbuf"
  "timer_heap (sample_fploop log) = \<lparr>hmin = None, nelts = 0, hmem = (\<lambda>_. \<lparr>left = None, right = None, parent = None\<rparr>)\<rparr>"
  by (simp_all add: sample_fploop_def fploop.defs evloop.defs uv__is_active_def is_closing_iff hflags_def)

lemma sample_fploop_fresh: "fp_fresh (sample_fploop log)"
proof -
  have n: "timer_nodes (sample_fploop log) = {}" "live_handles (sample_fploop log) = {}" by (simp_all add: timer_nodes_def live_handles_def)
  then show ?thesis
    using heap_inv_init [of "timer_less_than (timers (sample_fploop log))"
        "\<lparr>hmin = None, nelts = 0, hmem = (\<lambda>_. \<lparr>left = None, right = None, parent = None\<rparr>)\<rparr>"]
    by (simp add: fp_fresh_def timer_inv_def handle_inv_def heap_init_def)
qed

lemma sample_start:
  "\<exists>L. fp_reach sample_ssys (\<lambda>_ _. Some) (sample_fploop ()) L \<and> ctx_mem L = [30] \<and> posted L = [30]"
proof -
  let ?S = "sample_fploop ()"
  have can: "fp_can (Api (Start 20 7 ''f'' 5 (Some 30) True)) ?S" by (simp add: fp_can_def op_ok_def)
  have na: "\<not> uv__is_active ?S 20" by simp
  have t: "timer_inv ?S" using sample_fploop_fresh by (simp add: fp_fresh_def)
  define T where "T = with_ctx 20 7 ''f'' 5 30 ?S"
  have m: "ctx_mem T = [30]" "posted T = []"
    using with_ctx_ok(12,13) [OF t _ _ T_def] by simp_all
  obtain L where "fp_event sample_ssys (\<lambda>_ _. Some) (Api (Start 20 7 ''f'' 5 (Some 30) True)) ?S = Some L" "ctx_mem L = [30]" "posted L = [30]"
    using m by (simp add: fp_event_def do_op_def start_with_ctx [OF na] fs_stat_eq flip: T_def)
  then show ?thesis using fp_reach.step [OF fp_reach.start can] by blast
qed


theorem fs_poll_reports_changes_witness:
  "\<exists>M. report_all 30 20 [Inr zero_statbuf, Inl (- 2), Inr zero_statbuf] ((sample_fploop [])\<lparr>ctx_mem := [30]\<rparr>) = Some M \<and>
     fploop.more M = [(- 2, zero_statbuf, zero_statbuf), (0, zero_statbuf, zero_statbuf)]"
  using fs_poll_reports_changes [of 30 "(sample_fploop [])\<lparr>ctx_mem := [30]\<rparr>" "[Inr zero_statbuf, Inl (- 2), Inr zero_statbuf]" 20]
  by (auto simp: report_entry_def)

theorem fs_poll_start_leaves_timer_witness:
  "\<exists>M. uv_fs_poll_start 20 7 ''f'' 5 (Some 30) False (sample_fploop ()) = Some (FS_ENOMEM, M) \<and>
    ctx_mem M = [] \<and> 30 \<in> set (handle_queue M)"
  using fs_poll_start_leaves_timer [of "sample_fploop ()" 20 30 7 "''f''" 5] by auto

end
