(* ===== verification/Descriptor.thy ===== *)
theory Descriptor
  imports EventLoop "HOL-Library.Monad_Syntax"
begin

text \<open>
  Descriptors: \<open>uv__close\<close> and \<open>uv__cloexec_ioctl\<close> of \<open>src/src/libuv/src/unix/core.c\<close>.  A system call is a function on the state of
  the kernel; a result below 0 is \<open>-errno\<close>.  \<open>sys_fioclex\<close> is \<open>ioctl(fd, FIOCLEX)\<close>.
\<close>

abbreviation FD_EINTR :: int where "FD_EINTR \<equiv> 4"

record 'k fdsys = "'k ssyscalls" +
  sys_fioclex :: "int \<Rightarrow> 'k \<Rightarrow> int \<times> 'k"

definition call_sys :: "('k \<Rightarrow> 'r \<times> 'k) \<Rightarrow> ('k, 'a) ploop_scheme \<Rightarrow> 'r \<times> ('k, 'a) ploop_scheme" where
  "call_sys f L = (case f (kern L) of (r, k) \<Rightarrow> (r, L\<lparr>kern := k\<rparr>))"

definition uv__close_fd :: "('k, 'b) ssyscalls_scheme \<Rightarrow> int \<Rightarrow> ('k, 'a) ploop_scheme \<Rightarrow> ('k, 'a) ploop_scheme option" where
  "uv__close_fd K fd L = do { ASSERT (fd > 2); Some (L\<lparr>kern := sys_close K fd (kern L)\<rparr>) }"

partial_function (option) uv__cloexec_ioctl ::
  "('k, 'b) fdsys_scheme \<Rightarrow> int \<Rightarrow> ('k, 'a) ploop_scheme \<Rightarrow> (int \<times> ('k, 'a) ploop_scheme) option" where
  [code]: "uv__cloexec_ioctl K fd L =
     (case call_sys (sys_fioclex K fd) L of (r, L) \<Rightarrow> if r = - FD_EINTR then uv__cloexec_ioctl K fd L else Some (r, L))"

definition sample_fdsys :: "skernel fdsys" where
  "sample_fdsys = ssyscalls.extend sample_ssys (fdsys.fields (\<lambda>fd k. (0, k)))"

end
