(* ===== verification/Udp.thy ===== *)
theory Udp
  imports Descriptor Inet
begin

text \<open>
  UDP handles: \<open>src/src/libuv/src/unix/udp.c\<close>, with the functions of \<open>uv-common.c\<close> in front of it and
  \<open>uv__socket\<close> of \<open>core.c\<close>, as they are on Linux.  A handle and its I/O watcher are one
  address.  The two intrusive queues of requests are lists.  A system call is a function on the state of
  the kernel; a result below 0 is \<open>-errno\<close>.  A failed assertion and an \<open>abort\<close> are \<open>None\<close>.
\<close>

section \<open>Data\<close>

abbreviation UDP_EINTR :: int where "UDP_EINTR \<equiv> 4"
abbreviation UDP_EBADF :: int where "UDP_EBADF \<equiv> 9"
abbreviation UDP_EAGAIN :: int where "UDP_EAGAIN \<equiv> 11"
abbreviation UDP_ENOMEM :: int where "UDP_ENOMEM \<equiv> 12"
abbreviation UDP_EBUSY :: int where "UDP_EBUSY \<equiv> 16"
abbreviation UDP_EINVAL :: int where "UDP_EINVAL \<equiv> 22"
abbreviation UDP_EAFNOSUPPORT :: int where "UDP_EAFNOSUPPORT \<equiv> 97"
abbreviation UDP_ENOBUFS :: int where "UDP_ENOBUFS \<equiv> 105"
abbreviation UDP_EALREADY :: int where "UDP_EALREADY \<equiv> 114"
abbreviation UDP_ECANCELED :: int where "UDP_ECANCELED \<equiv> 125"

abbreviation UV_HANDLE_IPV6 :: u32 where "UV_HANDLE_IPV6 \<equiv> 0x10000"
abbreviation UV_UDP_PROCESSING :: u32 where "UV_UDP_PROCESSING \<equiv> 0x20000"
abbreviation UV_UDP_IPV6ONLY :: u32 where "UV_UDP_IPV6ONLY \<equiv> 1"
abbreviation UV_UDP_PARTIAL :: u32 where "UV_UDP_PARTIAL \<equiv> 2"
abbreviation UV_UDP_REUSEADDR :: u32 where "UV_UDP_REUSEADDR \<equiv> 4"

text \<open>The identifier of \<open>uv__udp_io\<close> as the callback of a watcher.\<close>

abbreviation UV__UDP_IO :: nat where "UV__UDP_IO \<equiv> 4"

datatype saddr = In4 sockaddr_in | In6 sockaddr_in6 | Other_addr

fun sa_family :: "saddr \<Rightarrow> af" where
  "sa_family (In4 _) = AF_INET"
| "sa_family (In6 _) = AF_INET6"
| "sa_family Other_addr = AF_OTHER"

text \<open>The options the code sets, with their values; addresses in network order.\<close>

datatype sockopt =
    SO_REUSEADDR | IPV6_V6ONLY | SO_BROADCAST int
  | IP_ADD_MEMBERSHIP "u8 list" "u8 list" | IP_DROP_MEMBERSHIP "u8 list" "u8 list"
  | IPV6_ADD_MEMBERSHIP "u8 list" u32 | IPV6_DROP_MEMBERSHIP "u8 list" u32
  | IP_TTL int | IPV6_UNICAST_HOPS int | IP_MULTICAST_TTL int | IPV6_MULTICAST_HOPS int
  | IP_MULTICAST_LOOP int | IPV6_MULTICAST_LOOP int | IP_MULTICAST_IF "u8 list" | IPV6_MULTICAST_IF u32

datatype uv_membership = UV_LEAVE_GROUP | UV_JOIN_GROUP

text \<open>What \<open>recvmsg\<close> gives: the length, the address of the sender if it has one, and whether the datagram was cut.\<close>

record recvd =
  rc_result :: int
  rc_peer :: "saddr option"
  rc_trunc :: bool

text \<open>\<open>sys_socket\<close> with and without \<open>SOCK_NONBLOCK | SOCK_CLOEXEC\<close>.\<close>

record 'k udpsys = "'k fdsys" +
  sys_socket :: "af \<Rightarrow> bool \<Rightarrow> 'k \<Rightarrow> int \<times> 'k"
  sys_bind :: "int \<Rightarrow> saddr \<Rightarrow> 'k \<Rightarrow> int \<times> 'k"
  sys_setsockopt :: "int \<Rightarrow> sockopt \<Rightarrow> 'k \<Rightarrow> int \<times> 'k"
  sys_getsockname :: "int \<Rightarrow> nat \<Rightarrow> 'k \<Rightarrow> (int \<times> saddr \<times> nat) \<times> 'k"
  sys_sendmsg :: "int \<Rightarrow> saddr \<Rightarrow> u8 list list \<Rightarrow> 'k \<Rightarrow> int \<times> 'k"
  sys_recvmsg :: "int \<Rightarrow> nat \<Rightarrow> 'k \<Rightarrow> recvd \<times> 'k"

record uv_udp =
  alloc_cb :: "nat option"
  recv_cb :: "nat option"
  send_queue_size :: u64
  send_queue_count :: u64
  write_queue :: "addr list"
  write_completed_queue :: "addr list"

text \<open>\<open>ur_bufs\<close> is None when \<open>req->bufs\<close> is NULL.\<close>

record udp_send =
  ur_addr :: saddr
  ur_bufs :: "u8 list list option"
  ur_cb :: "nat option"
  ur_handle :: addr
  ur_status :: int

record 'k udploop = "'k evloop" +
  udps :: "addr \<Rightarrow> uv_udp"
  udp_reqs :: "addr \<Rightarrow> udp_send"

text \<open>What the user's callbacks do; that of \<open>alloc_cb\<close> leaves a buffer, its base and length.\<close>

record 'l udp_user =
  on_alloc :: "nat \<Rightarrow> addr \<Rightarrow> nat \<Rightarrow> 'l \<Rightarrow> ((ptr \<times> nat) \<times> 'l) option"
  on_recv :: "nat \<Rightarrow> addr \<Rightarrow> int \<Rightarrow> ptr \<times> nat \<Rightarrow> saddr option \<Rightarrow> u32 \<Rightarrow> 'l \<Rightarrow> 'l option"
  on_send :: "nat \<Rightarrow> addr \<Rightarrow> int \<Rightarrow> 'l \<Rightarrow> 'l option"

definition upd_udp :: "addr \<Rightarrow> (uv_udp \<Rightarrow> uv_udp) \<Rightarrow> ('k, 'a) udploop_scheme \<Rightarrow> ('k, 'a) udploop_scheme" where
  "upd_udp h f L = L\<lparr>udps := (udps L)(h := f (udps L h))\<rparr>"

definition upd_send_req :: "addr \<Rightarrow> (udp_send \<Rightarrow> udp_send) \<Rightarrow> ('k, 'a) udploop_scheme \<Rightarrow> ('k, 'a) udploop_scheme" where
  "upd_send_req r f L = L\<lparr>udp_reqs := (udp_reqs L)(r := f (udp_reqs L r))\<rparr>"

definition udp_fd :: "('k, 'a) udploop_scheme \<Rightarrow> addr \<Rightarrow> int" where
  "udp_fd L h = io_fd (ios L h)"

definition set_udp_fd :: "addr \<Rightarrow> int \<Rightarrow> ('k, 'a) udploop_scheme \<Rightarrow> ('k, 'a) udploop_scheme" where
  "set_udp_fd h fd L = set_io h ((ios L h)\<lparr>io_fd := fd\<rparr>) L"

section \<open>Sockets\<close>

definition uv__socket :: "('k, 'b) udpsys_scheme \<Rightarrow> af \<Rightarrow> ('k, 'a) udploop_scheme \<Rightarrow> (int \<times> ('k, 'a) udploop_scheme) option" where
  "uv__socket K domain L =
     (let (fd, L) = call_sys (sys_socket K domain True) L
      in if fd \<ge> 0 then Some (fd, L)
         else if fd \<noteq> - UDP_EINVAL then Some (fd, L)
         else let (fd, L) = call_sys (sys_socket K domain False) L
              in if fd < 0 then Some (fd, L)
                 else do { (err, L) \<leftarrow> uv__nonblock_ioctl K fd True L;
                           (err, L) \<leftarrow> (if err = 0 then uv__cloexec_ioctl K fd L else Some (err, L));
                           if err \<noteq> 0 then map_option (Pair err) (uv__close_fd K fd L) else Some (fd, L) })"

section \<open>Binding\<close>

definition uv__set_reuse :: "('k, 'b) udpsys_scheme \<Rightarrow> int \<Rightarrow> ('k, 'a) udploop_scheme \<Rightarrow> int \<times> ('k, 'a) udploop_scheme" where
  "uv__set_reuse K fd L = call_sys (sys_setsockopt K fd SO_REUSEADDR) L"

definition bind_failed :: "('k, 'b) udpsys_scheme \<Rightarrow> addr \<Rightarrow> int \<Rightarrow> ('k, 'a) udploop_scheme \<Rightarrow> (int \<times> ('k, 'a) udploop_scheme) option" where
  "bind_failed K h err L = do { L \<leftarrow> uv__close_fd K (udp_fd L h) L; Some (err, set_udp_fd h (- 1) L) }"

definition uv__udp_bind ::
  "('k, 'b) udpsys_scheme \<Rightarrow> addr \<Rightarrow> saddr \<Rightarrow> u32 \<Rightarrow> ('k, 'a) udploop_scheme \<Rightarrow> (int \<times> ('k, 'a) udploop_scheme) option" where
  "uv__udp_bind K h a fl L =
     (if fl AND NOT (UV_UDP_IPV6ONLY OR UV_UDP_REUSEADDR) \<noteq> 0 then Some (- UDP_EINVAL, L)
      else if has_flag fl UV_UDP_IPV6ONLY \<and> sa_family a \<noteq> AF_INET6 then Some (- UDP_EINVAL, L)
      else do {
        (err, L) \<leftarrow> (if udp_fd L h = - 1
                    then do { (fd, L) \<leftarrow> uv__socket K (sa_family a) L;
                              if fd < 0 then Some (fd, L) else Some (0, set_udp_fd h fd L) }
                    else Some (0, L));
        if err < 0 then Some (err, L)
        else
          let fd = udp_fd L h;
              (err, L) = (if has_flag fl UV_UDP_REUSEADDR then uv__set_reuse K fd L else (0, L))
          in if err \<noteq> 0 then bind_failed K h err L
          else
            let (err, L) = (if has_flag fl UV_UDP_IPV6ONLY then call_sys (sys_setsockopt K fd IPV6_V6ONLY) L else (0, L))
            in if err \<noteq> 0 then bind_failed K h err L
            else
              let (err, L) = call_sys (sys_bind K fd a) L
              in if err \<noteq> 0 then bind_failed K h (if err = - UDP_EAFNOSUPPORT then - UDP_EINVAL else err) L
              else
                let L = (if sa_family a = AF_INET6 then set_flags h (add_flag (hflags L h) UV_HANDLE_IPV6) L else L)
                in Some (0, set_flags h (add_flag (hflags L h) UV_HANDLE_BOUND) L) })"

definition uv__udp_maybe_deferred_bind ::
  "('k, 'b) udpsys_scheme \<Rightarrow> addr \<Rightarrow> af \<Rightarrow> u32 \<Rightarrow> ('k, 'a) udploop_scheme \<Rightarrow> (int \<times> ('k, 'a) udploop_scheme) option" where
  "uv__udp_maybe_deferred_bind K h domain fl L =
     (if udp_fd L h \<noteq> - 1 then Some (0, L)
      else case domain of
             AF_INET \<Rightarrow> uv__udp_bind K h (In4 \<lparr>sin_port = 0, sin_addr = replicate 4 0\<rparr>) fl L
           | AF_INET6 \<Rightarrow> uv__udp_bind K h (In6 \<lparr>sin6_port = 0, sin6_addr = replicate 16 0, sin6_scope_id = 0\<rparr>) fl L
           | AF_OTHER \<Rightarrow> None)"

definition uv_udp_init_ex ::
  "('k, 'b) udpsys_scheme \<Rightarrow> addr \<Rightarrow> u32 \<Rightarrow> ('k, 'a) udploop_scheme \<Rightarrow> (int \<times> ('k, 'a) udploop_scheme) option" where
  "uv_udp_init_ex K h fl L =
     (let domain = fl AND 0xFF in
      if domain \<noteq> 2 \<and> domain \<noteq> 10 \<and> domain \<noteq> 0 then Some (- UDP_EINVAL, L)
      else if fl AND NOT 0xFF \<noteq> 0 then Some (- UDP_EINVAL, L)
      else do {
        (fd, L) \<leftarrow> (if domain \<noteq> 0 then uv__socket K (if domain = 2 then AF_INET else AF_INET6) L else Some (- 1, L));
        if domain \<noteq> 0 \<and> fd < 0 then Some (fd, L)
        else
          let L = uv__handle_init h UV_UDP L;
              L = upd_udp h (\<lambda>_. \<lparr>alloc_cb = None, recv_cb = None, send_queue_size = 0, send_queue_count = 0,
                                 write_queue = [], write_completed_queue = []\<rparr>) L
          in map_option (Pair 0) (uv__io_init h UV__UDP_IO fd L) })"

definition uv_udp_init :: "('k, 'b) udpsys_scheme \<Rightarrow> addr \<Rightarrow> ('k, 'a) udploop_scheme \<Rightarrow> (int \<times> ('k, 'a) udploop_scheme) option" where
  "uv_udp_init K h L = uv_udp_init_ex K h 0 L"

definition uv_udp_open ::
  "('k, 'b) udpsys_scheme \<Rightarrow> addr \<Rightarrow> int \<Rightarrow> ('k, 'a) udploop_scheme \<Rightarrow> (int \<times> ('k, 'a) udploop_scheme) option" where
  "uv_udp_open K h sock L =
     (if udp_fd L h \<noteq> - 1 then Some (- UDP_EBUSY, L)
      else do { (err, L) \<leftarrow> uv__nonblock_ioctl K sock True L;
                if err \<noteq> 0 then Some (err, L)
                else let (err, L) = uv__set_reuse K sock L
                     in if err \<noteq> 0 then Some (err, L) else Some (0, set_udp_fd h sock L) })"

definition uv_udp_bind ::
  "('k, 'b) udpsys_scheme \<Rightarrow> addr \<Rightarrow> saddr \<Rightarrow> u32 \<Rightarrow> ('k, 'a) udploop_scheme \<Rightarrow> (int \<times> ('k, 'a) udploop_scheme) option" where
  "uv_udp_bind K h a fl L =
     (if htype (handles L h) \<noteq> UV_UDP \<or> a = Other_addr then Some (- UDP_EINVAL, L) else uv__udp_bind K h a fl L)"

section \<open>Sending\<close>

definition udp_count_bufs :: "u8 list list \<Rightarrow> u64" where
  "udp_count_bufs bs = (\<Sum>b \<leftarrow> bs. of_nat (length b))"

partial_function (option) sendmsg_loop ::
  "('k, 'b) udpsys_scheme \<Rightarrow> int \<Rightarrow> saddr \<Rightarrow> u8 list list \<Rightarrow> ('k, 'a) udploop_scheme \<Rightarrow> (int \<times> ('k, 'a) udploop_scheme) option" where
  [code]: "sendmsg_loop K fd a bs L =
     (case call_sys (sys_sendmsg K fd a bs) L of (n, L) \<Rightarrow> if n = - UDP_EINTR then sendmsg_loop K fd a bs L else Some (n, L))"

text \<open>\<open>req->bufs\<close> being NULL would be a fault.\<close>

partial_function (option) uv__udp_sendmsg ::
  "('k, 'b) udpsys_scheme \<Rightarrow> addr \<Rightarrow> ('k, 'a) udploop_scheme \<Rightarrow> ('k, 'a) udploop_scheme option" where
  [code]: "uv__udp_sendmsg K h L =
     (case write_queue (udps L h) of
        [] \<Rightarrow> Some L
      | r # rs \<Rightarrow>
          Option.bind (ur_bufs (udp_reqs L r)) (\<lambda>bs.
          Option.bind (sendmsg_loop K (udp_fd L h) (ur_addr (udp_reqs L r)) bs L) (\<lambda>(n, L).
            if n = - UDP_EAGAIN then Some L
            else
              let L = upd_send_req r (\<lambda>x. x\<lparr>ur_status := n\<rparr>) L;
                  L = upd_udp h (\<lambda>u. u\<lparr>write_queue := rs, write_completed_queue := write_completed_queue u @ [r]\<rparr>) L
              in uv__udp_sendmsg K h (uv__io_feed h L))))"

definition uv__udp_send ::
  "('k, 'b) udpsys_scheme \<Rightarrow> (nat \<Rightarrow> bool) \<Rightarrow> bool \<Rightarrow> addr \<Rightarrow> addr \<Rightarrow> u8 list list \<Rightarrow> saddr \<Rightarrow> nat option \<Rightarrow> ('k, 'a) udploop_scheme
    \<Rightarrow> (int \<times> ('k, 'a) udploop_scheme) option" where
  "uv__udp_send K realloc_ok room r h bufs a cb L =
     do { ASSERT (bufs \<noteq> []);
          (err, L) \<leftarrow> uv__udp_maybe_deferred_bind K h (sa_family a) 0 L;
          if err \<noteq> 0 then Some (err, L)
          else
            let empty_queue = (send_queue_count (udps L h) = 0);
                L = uv__req_register r L;
                bs = (if length bufs > 4 \<and> \<not> room then None else Some bufs);
                L = upd_send_req r (\<lambda>x. x\<lparr>ur_addr := a, ur_cb := cb, ur_handle := h, ur_bufs := bs\<rparr>) L
            in if bs = None then map_option (Pair (- UDP_ENOMEM)) (uv__req_unregister r L)
               else
                 let L = upd_udp h (\<lambda>u. u\<lparr>send_queue_size := send_queue_size u + udp_count_bufs bufs,
                                          send_queue_count := send_queue_count u + 1, write_queue := write_queue u @ [r]\<rparr>) L;
                     L = uv__handle_start h L
                 in map_option (Pair 0)
                      (if empty_queue \<and> \<not> has_flag (hflags L h) UV_UDP_PROCESSING then uv__udp_sendmsg K h L
                       else uv__io_start realloc_ok h POLLOUT L) }"

definition uv__udp_try_send ::
  "('k, 'b) udpsys_scheme \<Rightarrow> addr \<Rightarrow> u8 list list \<Rightarrow> saddr \<Rightarrow> ('k, 'a) udploop_scheme \<Rightarrow> (int \<times> ('k, 'a) udploop_scheme) option" where
  "uv__udp_try_send K h bufs a L =
     do { ASSERT (bufs \<noteq> []);
          if send_queue_count (udps L h) \<noteq> 0 then Some (- UDP_EAGAIN, L)
          else do { (err, L) \<leftarrow> uv__udp_maybe_deferred_bind K h (sa_family a) 0 L;
                    if err \<noteq> 0 then Some (err, L) else sendmsg_loop K (udp_fd L h) a bufs L } }"

section \<open>Completing requests\<close>

text \<open>A request is unregistered and counted off before its callback is called, which may send and close.\<close>

partial_function (option) udp_completed_loop ::
  "('k, 'a) udploop_scheme udp_user \<Rightarrow> addr \<Rightarrow> ('k, 'a) udploop_scheme \<Rightarrow> ('k, 'a) udploop_scheme option" where
  [code]: "udp_completed_loop U h L =
     (case write_completed_queue (udps L h) of
        [] \<Rightarrow> Some L
      | r # rs \<Rightarrow>
          let L = upd_udp h (\<lambda>u. u\<lparr>write_completed_queue := rs\<rparr>) L
          in Option.bind (uv__req_unregister r L) (\<lambda>L.
             Option.bind (ur_bufs (udp_reqs L r)) (\<lambda>bs.
               let L = upd_udp h (\<lambda>u. u\<lparr>send_queue_size := send_queue_size u - udp_count_bufs bs,
                                        send_queue_count := send_queue_count u - 1\<rparr>) L;
                   L = upd_send_req r (\<lambda>x. x\<lparr>ur_bufs := None\<rparr>) L
               in case ur_cb (udp_reqs L r) of
                    None \<Rightarrow> udp_completed_loop U h L
                  | Some cb \<Rightarrow>
                      Option.bind (on_send U cb r (if ur_status (udp_reqs L r) \<ge> 0 then 0 else ur_status (udp_reqs L r)) L)
                        (udp_completed_loop U h))))"

definition uv__udp_run_completed ::
  "('k, 'a) udploop_scheme udp_user \<Rightarrow> addr \<Rightarrow> ('k, 'a) udploop_scheme \<Rightarrow> ('k, 'a) udploop_scheme option" where
  "uv__udp_run_completed U h L =
     do { ASSERT (\<not> has_flag (hflags L h) UV_UDP_PROCESSING);
          L \<leftarrow> udp_completed_loop U h (set_flags h (add_flag (hflags L h) UV_UDP_PROCESSING) L);
          L \<leftarrow> (if write_queue (udps L h) = []
                then do { L \<leftarrow> uv__io_stop h POLLOUT L;
                          active \<leftarrow> uv__io_active h POLLIN L;
                          Some (if \<not> active then uv__handle_stop h L else L) }
                else Some L);
          Some (set_flags h (clear_flag (hflags L h) UV_UDP_PROCESSING) L) }"

section \<open>Receiving\<close>

partial_function (option) recvmsg_loop ::
  "('k, 'b) udpsys_scheme \<Rightarrow> int \<Rightarrow> nat \<Rightarrow> ('k, 'a) udploop_scheme \<Rightarrow> (recvd \<times> ('k, 'a) udploop_scheme) option" where
  [code]: "recvmsg_loop K fd len L =
     (case call_sys (sys_recvmsg K fd len) L of (x, L) \<Rightarrow> if rc_result x = - UDP_EINTR then recvmsg_loop K fd len L else Some (x, L))"

text \<open>\<open>count\<close> rounds are left after this one.\<close>

fun recv_rounds ::
  "('k, 'b) udpsys_scheme \<Rightarrow> ('k, 'a) udploop_scheme udp_user \<Rightarrow> addr \<Rightarrow> nat \<Rightarrow> ('k, 'a) udploop_scheme \<Rightarrow> ('k, 'a) udploop_scheme option" where
  "recv_rounds K U h count L =
     do { acb \<leftarrow> alloc_cb (udps L h);
          (buf, L) \<leftarrow> on_alloc U acb h (64 * 1024) L;
          rcb \<leftarrow> recv_cb (udps L h);
          if fst buf = None \<or> snd buf = 0 then on_recv U rcb h (- UDP_ENOBUFS) buf None 0 L
          else do {
            (x, L) \<leftarrow> recvmsg_loop K (udp_fd L h) (snd buf) L;
            L \<leftarrow> (if rc_result x < 0
                  then on_recv U rcb h (if rc_result x = - UDP_EAGAIN then 0 else rc_result x) buf None 0 L
                  else on_recv U rcb h (rc_result x) buf (rc_peer x) (if rc_trunc x then UV_UDP_PARTIAL else 0) L);
            if rc_result x \<ge> 0 \<and> udp_fd L h \<noteq> - 1 \<and> recv_cb (udps L h) \<noteq> None
            then (case count of 0 \<Rightarrow> Some L | Suc n \<Rightarrow> recv_rounds K U h n L)
            else Some L } }"

definition uv__udp_recvmsg ::
  "('k, 'b) udpsys_scheme \<Rightarrow> ('k, 'a) udploop_scheme udp_user \<Rightarrow> addr \<Rightarrow> ('k, 'a) udploop_scheme \<Rightarrow> ('k, 'a) udploop_scheme option" where
  "uv__udp_recvmsg K U h L =
     do { ASSERT (recv_cb (udps L h) \<noteq> None);
          ASSERT (alloc_cb (udps L h) \<noteq> None);
          recv_rounds K U h 32 L }"

definition uv__udp_io ::
  "('k, 'b) udpsys_scheme \<Rightarrow> ('k, 'a) udploop_scheme udp_user \<Rightarrow> addr \<Rightarrow> u32 \<Rightarrow> ('k, 'a) udploop_scheme \<Rightarrow> ('k, 'a) udploop_scheme option" where
  "uv__udp_io K U h revents L =
     do { ASSERT (htype (handles L h) = UV_UDP);
          L \<leftarrow> (if has_flag revents POLLIN then uv__udp_recvmsg K U h L else Some L);
          if has_flag revents POLLOUT
          then do { L \<leftarrow> uv__udp_sendmsg K h L; uv__udp_run_completed U h L }
          else Some L }"

definition uv__udp_recv_start ::
  "('k, 'b) udpsys_scheme \<Rightarrow> (nat \<Rightarrow> bool) \<Rightarrow> addr \<Rightarrow> nat option \<Rightarrow> nat option \<Rightarrow> ('k, 'a) udploop_scheme
    \<Rightarrow> (int \<times> ('k, 'a) udploop_scheme) option" where
  "uv__udp_recv_start K realloc_ok h acb rcb L =
     (if acb = None \<or> rcb = None then Some (- UDP_EINVAL, L)
      else do {
        active \<leftarrow> uv__io_active h POLLIN L;
        if active then Some (- UDP_EALREADY, L)
        else do {
          (err, L) \<leftarrow> uv__udp_maybe_deferred_bind K h AF_INET 0 L;
          if err \<noteq> 0 then Some (err, L)
          else do { L \<leftarrow> uv__io_start realloc_ok h POLLIN (upd_udp h (\<lambda>u. u\<lparr>alloc_cb := acb, recv_cb := rcb\<rparr>) L);
                    Some (0, uv__handle_start h L) } } })"

definition uv__udp_recv_stop :: "addr \<Rightarrow> ('k, 'a) udploop_scheme \<Rightarrow> (int \<times> ('k, 'a) udploop_scheme) option" where
  "uv__udp_recv_stop h L =
     do { L \<leftarrow> uv__io_stop h POLLIN L;
          active \<leftarrow> uv__io_active h POLLOUT L;
          let L = (if \<not> active then uv__handle_stop h L else L);
          Some (0, upd_udp h (\<lambda>u. u\<lparr>alloc_cb := None, recv_cb := None\<rparr>) L) }"

section \<open>Closing\<close>

definition uv__udp_close ::
  "('k, 'b) udpsys_scheme \<Rightarrow> addr \<Rightarrow> ('k, 'a) udploop_scheme \<Rightarrow> ('k, 'a) udploop_scheme option" where
  "uv__udp_close K h L =
     do { L \<leftarrow> uv__io_close h L;
          let L = uv__handle_stop h L;
          if udp_fd L h \<noteq> - 1 then map_option (set_udp_fd h (- 1)) (uv__close_fd K (udp_fd L h) L) else Some L }"

definition cancel_queue :: "addr \<Rightarrow> ('k, 'a) udploop_scheme \<Rightarrow> ('k, 'a) udploop_scheme" where
  "cancel_queue h L =
     (let L' = fold (\<lambda>r. upd_send_req r (\<lambda>x. x\<lparr>ur_status := - UDP_ECANCELED\<rparr>)) (write_queue (udps L h)) L
      in upd_udp h (\<lambda>u. u\<lparr>write_completed_queue := write_completed_queue u @ write_queue u, write_queue := []\<rparr>) L')"

definition uv__udp_finish_close ::
  "('k, 'a) udploop_scheme udp_user \<Rightarrow> addr \<Rightarrow> ('k, 'a) udploop_scheme \<Rightarrow> ('k, 'a) udploop_scheme option" where
  "uv__udp_finish_close U h L =
     do { active \<leftarrow> uv__io_active h (POLLIN OR POLLOUT) L;
          ASSERT (\<not> active);
          ASSERT (udp_fd L h = - 1);
          L \<leftarrow> uv__udp_run_completed U h (cancel_queue h L);
          ASSERT (send_queue_size (udps L h) = 0);
          ASSERT (send_queue_count (udps L h) = 0);
          Some (upd_udp h (\<lambda>u. u\<lparr>recv_cb := None, alloc_cb := None\<rparr>) L) }"

text \<open>For \<open>uv_close\<close>.\<close>

definition udp_other ::
  "('k, 'b) udpsys_scheme \<Rightarrow> ('k, 'a) udploop_scheme destroyer \<Rightarrow> ('k, 'a) udploop_scheme destroyer" where
  "udp_other K other ty h L = (if ty = UV_UDP then uv__udp_close K h L else other ty h L)"

section \<open>Options\<close>

definition uv__udp_set_membership4 ::
  "('k, 'b) udpsys_scheme \<Rightarrow> addr \<Rightarrow> sockaddr_in \<Rightarrow> string option \<Rightarrow> uv_membership \<Rightarrow> ('k, 'a) udploop_scheme \<Rightarrow> int \<times> ('k, 'a) udploop_scheme" where
  "uv__udp_set_membership4 K h ma iface m L =
     (case (case iface of None \<Rightarrow> Inr (replicate 4 0) | Some i \<Rightarrow> uv_inet_pton AF_INET (Some i)) of
        Inl err \<Rightarrow> (err, L)
      | Inr ia \<Rightarrow>
          call_sys (sys_setsockopt K (udp_fd L h)
            (case m of UV_JOIN_GROUP \<Rightarrow> IP_ADD_MEMBERSHIP (sin_addr ma) ia | UV_LEAVE_GROUP \<Rightarrow> IP_DROP_MEMBERSHIP (sin_addr ma) ia)) L)"

definition uv__udp_set_membership6 ::
  "(string \<Rightarrow> u32) \<Rightarrow> ('k, 'b) udpsys_scheme \<Rightarrow> addr \<Rightarrow> sockaddr_in6 \<Rightarrow> string option \<Rightarrow> uv_membership \<Rightarrow> ('k, 'a) udploop_scheme
    \<Rightarrow> int \<times> ('k, 'a) udploop_scheme" where
  "uv__udp_set_membership6 ifx K h ma iface m L =
     (let (err, scope) = (case iface of None \<Rightarrow> (0, 0) | Some i \<Rightarrow> (case uv_ip6_addr ifx i 0 of (e, a) \<Rightarrow> (e, sin6_scope_id a)))
      in if err \<noteq> 0 then (- UDP_EINVAL, L)
         else call_sys (sys_setsockopt K (udp_fd L h)
                (case m of UV_JOIN_GROUP \<Rightarrow> IPV6_ADD_MEMBERSHIP (sin6_addr ma) scope
                         | UV_LEAVE_GROUP \<Rightarrow> IPV6_DROP_MEMBERSHIP (sin6_addr ma) scope)) L)"

definition uv_udp_set_membership ::
  "(string \<Rightarrow> u32) \<Rightarrow> ('k, 'b) udpsys_scheme \<Rightarrow> addr \<Rightarrow> string \<Rightarrow> string option \<Rightarrow> uv_membership \<Rightarrow> ('k, 'a) udploop_scheme
    \<Rightarrow> (int \<times> ('k, 'a) udploop_scheme) option" where
  "uv_udp_set_membership ifx K h ma iface m L =
     (if fst (uv_ip4_addr ma 0) = 0
      then do { (err, L) \<leftarrow> uv__udp_maybe_deferred_bind K h AF_INET UV_UDP_REUSEADDR L;
                Some (if err \<noteq> 0 then (err, L) else uv__udp_set_membership4 K h (snd (uv_ip4_addr ma 0)) iface m L) }
      else if fst (uv_ip6_addr ifx ma 0) = 0
      then do { (err, L) \<leftarrow> uv__udp_maybe_deferred_bind K h AF_INET6 UV_UDP_REUSEADDR L;
                Some (if err \<noteq> 0 then (err, L) else uv__udp_set_membership6 ifx K h (snd (uv_ip6_addr ifx ma 0)) iface m L) }
      else Some (- UDP_EINVAL, L))"

definition uv__setsockopt ::
  "('k, 'b) udpsys_scheme \<Rightarrow> addr \<Rightarrow> (int \<Rightarrow> sockopt) \<Rightarrow> (int \<Rightarrow> sockopt) \<Rightarrow> int \<Rightarrow> ('k, 'a) udploop_scheme \<Rightarrow> int \<times> ('k, 'a) udploop_scheme" where
  "uv__setsockopt K h option4 option6 v L =
     call_sys (sys_setsockopt K (udp_fd L h) (if has_flag (hflags L h) UV_HANDLE_IPV6 then option6 v else option4 v)) L"

definition uv__setsockopt_maybe_char ::
  "('k, 'b) udpsys_scheme \<Rightarrow> addr \<Rightarrow> (int \<Rightarrow> sockopt) \<Rightarrow> (int \<Rightarrow> sockopt) \<Rightarrow> int \<Rightarrow> ('k, 'a) udploop_scheme \<Rightarrow> int \<times> ('k, 'a) udploop_scheme" where
  "uv__setsockopt_maybe_char K h option4 option6 v L =
     (if v < 0 \<or> v > 255 then (- UDP_EINVAL, L) else uv__setsockopt K h option4 option6 v L)"

definition uv_udp_set_broadcast :: "('k, 'b) udpsys_scheme \<Rightarrow> addr \<Rightarrow> int \<Rightarrow> ('k, 'a) udploop_scheme \<Rightarrow> int \<times> ('k, 'a) udploop_scheme" where
  "uv_udp_set_broadcast K h on L = call_sys (sys_setsockopt K (udp_fd L h) (SO_BROADCAST on)) L"

definition uv_udp_set_ttl :: "('k, 'b) udpsys_scheme \<Rightarrow> addr \<Rightarrow> int \<Rightarrow> ('k, 'a) udploop_scheme \<Rightarrow> int \<times> ('k, 'a) udploop_scheme" where
  "uv_udp_set_ttl K h ttl L =
     (if ttl < 1 \<or> ttl > 255 then (- UDP_EINVAL, L) else uv__setsockopt_maybe_char K h IP_TTL IPV6_UNICAST_HOPS ttl L)"

definition uv_udp_set_multicast_ttl :: "('k, 'b) udpsys_scheme \<Rightarrow> addr \<Rightarrow> int \<Rightarrow> ('k, 'a) udploop_scheme \<Rightarrow> int \<times> ('k, 'a) udploop_scheme" where
  "uv_udp_set_multicast_ttl K h ttl L = uv__setsockopt_maybe_char K h IP_MULTICAST_TTL IPV6_MULTICAST_HOPS ttl L"

definition uv_udp_set_multicast_loop :: "('k, 'b) udpsys_scheme \<Rightarrow> addr \<Rightarrow> int \<Rightarrow> ('k, 'a) udploop_scheme \<Rightarrow> int \<times> ('k, 'a) udploop_scheme" where
  "uv_udp_set_multicast_loop K h on L = uv__setsockopt_maybe_char K h IP_MULTICAST_LOOP IPV6_MULTICAST_LOOP on L"

definition uv_udp_set_multicast_interface ::
  "(string \<Rightarrow> u32) \<Rightarrow> ('k, 'b) udpsys_scheme \<Rightarrow> addr \<Rightarrow> string option \<Rightarrow> ('k, 'a) udploop_scheme \<Rightarrow> int \<times> ('k, 'a) udploop_scheme" where
  "uv_udp_set_multicast_interface ifx K h iface L =
     (let a = (case iface of
                 None \<Rightarrow> Some (if has_flag (hflags L h) UV_HANDLE_IPV6 then IPV6_MULTICAST_IF 0 else IP_MULTICAST_IF (replicate 4 0))
               | Some i \<Rightarrow>
                   if fst (uv_ip4_addr i 0) = 0 then Some (IP_MULTICAST_IF (sin_addr (snd (uv_ip4_addr i 0))))
                   else if fst (uv_ip6_addr ifx i 0) = 0 then Some (IPV6_MULTICAST_IF (sin6_scope_id (snd (uv_ip6_addr ifx i 0))))
                   else None)
      in case a of None \<Rightarrow> (- UDP_EINVAL, L) | Some o' \<Rightarrow> call_sys (sys_setsockopt K (udp_fd L h) o') L)"

text \<open>The result has the name and its length, if there is one.\<close>

definition uv_udp_getsockname ::
  "('k, 'b) udpsys_scheme \<Rightarrow> addr \<Rightarrow> nat \<Rightarrow> ('k, 'a) udploop_scheme \<Rightarrow> (int \<times> (saddr \<times> nat) option) \<times> ('k, 'a) udploop_scheme" where
  "uv_udp_getsockname K h namelen L =
     (if udp_fd L h = - 1 then ((- UDP_EINVAL, None), L)
      else case call_sys (sys_getsockname K (udp_fd L h) namelen) L of
             ((r, name, len), L) \<Rightarrow> if r \<noteq> 0 then ((r, None), L) else ((0, Some (name, len)), L))"

section \<open>The functions in front\<close>

definition uv_udp_send ::
  "('k, 'b) udpsys_scheme \<Rightarrow> (nat \<Rightarrow> bool) \<Rightarrow> bool \<Rightarrow> addr \<Rightarrow> addr \<Rightarrow> u8 list list \<Rightarrow> saddr \<Rightarrow> nat option \<Rightarrow> ('k, 'a) udploop_scheme
    \<Rightarrow> (int \<times> ('k, 'a) udploop_scheme) option" where
  "uv_udp_send K realloc_ok room r h bufs a cb L =
     (if htype (handles L h) \<noteq> UV_UDP \<or> a = Other_addr then Some (- UDP_EINVAL, L)
      else uv__udp_send K realloc_ok room r h bufs a cb L)"

definition uv_udp_try_send ::
  "('k, 'b) udpsys_scheme \<Rightarrow> addr \<Rightarrow> u8 list list \<Rightarrow> saddr \<Rightarrow> ('k, 'a) udploop_scheme \<Rightarrow> (int \<times> ('k, 'a) udploop_scheme) option" where
  "uv_udp_try_send K h bufs a L =
     (if htype (handles L h) \<noteq> UV_UDP \<or> a = Other_addr then Some (- UDP_EINVAL, L) else uv__udp_try_send K h bufs a L)"

definition uv_udp_recv_start ::
  "('k, 'b) udpsys_scheme \<Rightarrow> (nat \<Rightarrow> bool) \<Rightarrow> addr \<Rightarrow> nat option \<Rightarrow> nat option \<Rightarrow> ('k, 'a) udploop_scheme
    \<Rightarrow> (int \<times> ('k, 'a) udploop_scheme) option" where
  "uv_udp_recv_start K realloc_ok h acb rcb L =
     (if htype (handles L h) \<noteq> UV_UDP \<or> acb = None \<or> rcb = None then Some (- UDP_EINVAL, L)
      else uv__udp_recv_start K realloc_ok h acb rcb L)"

definition uv_udp_recv_stop :: "addr \<Rightarrow> ('k, 'a) udploop_scheme \<Rightarrow> (int \<times> ('k, 'a) udploop_scheme) option" where
  "uv_udp_recv_stop h L = (if htype (handles L h) \<noteq> UV_UDP then Some (- UDP_EINVAL, L) else uv__udp_recv_stop h L)"

section \<open>The queues\<close>

definition outstanding_sends :: "addr \<Rightarrow> ('k, 'a) udploop_scheme \<Rightarrow> addr list" where
  "outstanding_sends h L = write_completed_queue (udps L h) @ write_queue (udps L h)"

definition bufs_of :: "('k, 'a) udploop_scheme \<Rightarrow> addr \<Rightarrow> u8 list list" where
  "bufs_of L r = the (ur_bufs (udp_reqs L r))"

text \<open>The counters are those of the requests in the two queues (modulo the width of \<open>size_t\<close>).\<close>

definition udp_inv :: "addr \<Rightarrow> ('k, 'a) udploop_scheme \<Rightarrow> bool" where
  "udp_inv h L \<longleftrightarrow> distinct (outstanding_sends h L) \<and>
     (\<forall>r \<in> set (outstanding_sends h L). r \<in> set (active_reqs L) \<and> ur_bufs (udp_reqs L r) \<noteq> None) \<and>
     send_queue_size (udps L h) = (\<Sum>r \<leftarrow> outstanding_sends h L. udp_count_bufs (bufs_of L r)) \<and>
     send_queue_count (udps L h) = of_nat (length (outstanding_sends h L))"

text \<open>A kernel that does not interrupt for ever: here, never.\<close>

definition never_interrupted :: "('k, 'b) udpsys_scheme \<Rightarrow> bool" where
  "never_interrupted K \<longleftrightarrow> (\<forall>fd a bs k. fst (sys_sendmsg K fd a bs k) \<noteq> - UDP_EINTR)"

lemma sendmsg_once:
  "fst (sys_sendmsg K fd a bs (kern L)) \<noteq> - UDP_EINTR \<Longrightarrow>
     sendmsg_loop K fd a bs L = Some (case sys_sendmsg K fd a bs (kern L) of (n, k) \<Rightarrow> (n, L\<lparr>kern := k\<rparr>))"
  by (subst sendmsg_loop.simps) (auto simp: call_sys_def split: prod.splits)

text \<open>The results of sending a list of datagrams one after the other, up to the first the kernel does not take now.\<close>

fun send_results :: "('k, 'b) udpsys_scheme \<Rightarrow> int \<Rightarrow> (saddr \<times> u8 list list) list \<Rightarrow> 'k \<Rightarrow> int list \<times> 'k" where
  "send_results K fd [] k = ([], k)"
| "send_results K fd ((a, bs) # xs) k =
     (case sys_sendmsg K fd a bs k of
        (n, k) \<Rightarrow> if n = - UDP_EAGAIN then ([], k) else (case send_results K fd xs k of (ns, k) \<Rightarrow> (n # ns, k)))"

definition datagram :: "('k, 'a) udploop_scheme \<Rightarrow> addr \<Rightarrow> saddr \<times> u8 list list" where
  "datagram L r = (ur_addr (udp_reqs L r), bufs_of L r)"

lemma send_results_length: "send_results K fd xs k = (ns, k') \<Longrightarrow> length ns \<le> length xs"
  by (induction K fd xs k arbitrary: ns k' rule: send_results.induct) (fastforce split: prod.splits if_splits)+

text \<open>The watchers whose callback is pending.\<close>

definition fed :: "'a iloop_scheme \<Rightarrow> addr set" where
  "fed L = set (pending_queue L) \<union> set (pending_run L)"

text \<open>What sending leaves alone.\<close>

definition send_frame :: "addr \<Rightarrow> ('k, 'a) udploop_scheme \<Rightarrow> ('k, 'a) udploop_scheme \<Rightarrow> bool" where
  "send_frame h L M \<longleftrightarrow> ios M = ios L \<and> handles M = handles L \<and> active_reqs M = active_reqs L \<and> udploop.more M = udploop.more L \<and>
     watcher_queue M = watcher_queue L \<and> slot_at M = slot_at L \<and> (io_inv L \<longrightarrow> io_inv M)"

lemma send_frame_trans: "send_frame h L M \<Longrightarrow> send_frame h M N \<Longrightarrow> send_frame h L N"
  by (simp add: send_frame_def)

lemma io_inv_kern: "io_inv (L\<lparr>kern := k\<rparr>) \<longleftrightarrow> io_inv L" "slot_at (L\<lparr>kern := k\<rparr>) = slot_at L"
  by (simp_all add: io_inv_def slot_at_def registered_def watched_fds_def fun_eq_iff)

lemma send_frame_kern: "send_frame h L (L\<lparr>kern := k\<rparr>)"
  by (simp add: send_frame_def io_inv_kern)

definition sent_one :: "addr \<Rightarrow> addr \<Rightarrow> addr list \<Rightarrow> int \<Rightarrow> ('k, 'a) udploop_scheme \<Rightarrow> ('k, 'a) udploop_scheme" where
  "sent_one h r rs n L = uv__io_feed h
     (upd_udp h (\<lambda>u. u\<lparr>write_queue := rs, write_completed_queue := write_completed_queue u @ [r]\<rparr>) (upd_send_req r (\<lambda>x. x\<lparr>ur_status := n\<rparr>) L))"

lemma sent_one_sel [simp]:
  "udps (sent_one h r rs n L) =
     (udps L)(h := (udps L h)\<lparr>write_queue := rs, write_completed_queue := write_completed_queue (udps L h) @ [r]\<rparr>)"
  "udp_reqs (sent_one h r rs n L) = (udp_reqs L)(r := (udp_reqs L r)\<lparr>ur_status := n\<rparr>)"
  "ios (sent_one h r rs n L) = ios L" "active_reqs (sent_one h r rs n L) = active_reqs L" "kern (sent_one h r rs n L) = kern L"
  by (simp_all add: sent_one_def uv__io_feed_def upd_udp_def upd_send_req_def)

lemma sent_one_frame: "send_frame h L (sent_one h r rs n L)"
  by (auto simp: sent_one_def uv__io_feed_def upd_udp_def upd_send_req_def send_frame_def io_inv_def slot_at_def registered_def watched_fds_def
      fun_eq_iff)

lemma sent_one_fed [simp]: "fed (sent_one h r rs n L) = insert h (fed L)"
  by (auto simp: fed_def sent_one_def uv__io_feed_def upd_udp_def upd_send_req_def)

lemma sent_one_inv:
  assumes "udp_inv h L" and "write_queue (udps L h) = r # rs"
  shows "udp_inv h (sent_one h r rs n L)"
proof -
  have o: "outstanding_sends h (sent_one h r rs n L) = outstanding_sends h L" using assms(2) by (simp add: outstanding_sends_def)
  have b: "bufs_of (sent_one h r rs n L) = bufs_of L" "ur_bufs (udp_reqs (sent_one h r rs n L) x) = ur_bufs (udp_reqs L x)" for x
    by (simp_all add: bufs_of_def fun_eq_iff)
  have c: "send_queue_size (udps (sent_one h r rs n L) h) = send_queue_size (udps L h)"
    "send_queue_count (udps (sent_one h r rs n L) h) = send_queue_count (udps L h)" by simp_all
  show ?thesis using assms(1) unfolding udp_inv_def o b c by simp
qed

text \<open>\<open>uv__udp_sendmsg\<close> sends the datagrams in the order of the queue until the kernel takes no more: it is \<open>send_results\<close>.\<close>

lemma udp_sendmsg_ok:
  assumes "never_interrupted K" and "udp_inv h L" and "write_queue (udps L h) = rs"
    and "send_results K (udp_fd L h) (map (datagram L) rs) (kern L) = (ns, k')"
  shows "\<exists>M. uv__udp_sendmsg K h L = Some M \<and> kern M = k' \<and> udp_inv h M \<and> send_frame h L M \<and>
    udps M h = (udps L h)\<lparr>write_queue := drop (length ns) rs,
                          write_completed_queue := write_completed_queue (udps L h) @ take (length ns) rs\<rparr> \<and>
    map (\<lambda>r. ur_status (udp_reqs M r)) (take (length ns) rs) = ns \<and>
    (\<forall>r. r \<notin> set rs \<longrightarrow> udp_reqs M r = udp_reqs L r) \<and> (\<forall>r. ur_cb (udp_reqs M r) = ur_cb (udp_reqs L r)) \<and>
    fed M = (if ns = [] then fed L else insert h (fed L))"
  using assms(2-)
proof (induction rs arbitrary: L ns)
  case Nil
  then show ?case by (intro exI [of _ L]) (simp add: uv__udp_sendmsg.simps send_frame_def)
next
  case (Cons r rs)
  have o: "r \<in> set (outstanding_sends h L)" "r \<notin> set rs" using Cons.prems by (auto simp: outstanding_sends_def udp_inv_def)
  then obtain bs where bs: "ur_bufs (udp_reqs L r) = Some bs" using Cons.prems(1) by (auto simp: udp_inv_def)
  obtain n k where nk: "sys_sendmsg K (udp_fd L h) (ur_addr (udp_reqs L r)) bs (kern L) = (n, k)" by fastforce
  have ni: "fst (sys_sendmsg K (udp_fd L h) (ur_addr (udp_reqs L r)) bs (kern L)) \<noteq> - UDP_EINTR"
    using assms(1) unfolding never_interrupted_def by blast
  let ?L = "L\<lparr>kern := k\<rparr>"
  have inv: "udp_inv h ?L" using Cons.prems(1) by (simp add: udp_inv_def outstanding_sends_def bufs_of_def)
  have step: "uv__udp_sendmsg K h L = (if n = - UDP_EAGAIN then Some ?L else uv__udp_sendmsg K h (sent_one h r rs n ?L))"
    using Cons.prems(2) bs nk sendmsg_once [OF ni] by (subst uv__udp_sendmsg.simps) (simp add: sent_one_def Let_def)
  have res: "send_results K (udp_fd L h) (map (datagram L) (r # rs)) (kern L) = (if n = - UDP_EAGAIN then ([], k)
      else (case send_results K (udp_fd L h) (map (datagram L) rs) k of (ns, k) \<Rightarrow> (n # ns, k)))"
    using nk bs by (simp add: datagram_def bufs_of_def)
  show ?case
  proof (cases "n = - UDP_EAGAIN")
    case True
    then show ?thesis
      using step Cons.prems(2,3) inv res by (intro exI [of _ ?L]) (simp add: fed_def send_frame_kern)
  next
    case False
    let ?S = "sent_one h r rs n ?L"
    obtain ms where ms: "send_results K (udp_fd L h) (map (datagram L) rs) k = (ms, k')" "ns = n # ms"
      using Cons.prems(3) res False by (auto split: prod.splits)
    have d: "map (datagram ?S) rs = map (datagram L) rs" "udp_fd ?S h = udp_fd L h"
      using o(2) by (auto simp: datagram_def bufs_of_def udp_fd_def)
    have "udp_inv h ?S" by (rule sent_one_inv [OF inv]) (simp add: Cons.prems(2))
    then obtain M where M: "uv__udp_sendmsg K h ?S = Some M" "kern M = k'" "udp_inv h M" "send_frame h ?S M"
      "udps M h = (udps ?S h)\<lparr>write_queue := drop (length ms) rs,
                          write_completed_queue := write_completed_queue (udps ?S h) @ take (length ms) rs\<rparr>"
      "map (\<lambda>r. ur_status (udp_reqs M r)) (take (length ms) rs) = ms"
      "\<forall>x. x \<notin> set rs \<longrightarrow> udp_reqs M x = udp_reqs ?S x" "\<forall>x. ur_cb (udp_reqs M x) = ur_cb (udp_reqs ?S x)"
      "fed M = (if ms = [] then fed ?S else insert h (fed ?S))"
      using Cons.IH [of ?S ms] d ms(1) by (auto simp del: map_eq_conv)
    have "fed ?L = fed L" by (simp add: fed_def)
    then have "fed M = insert h (fed L)" using M(9) by simp
    moreover have "send_frame h L M" by (rule send_frame_trans [OF send_frame_kern send_frame_trans [OF sent_one_frame M(4)]])
    moreover have "ur_status (udp_reqs M r) = n" using M(7) o(2) by simp
    moreover have "uv__udp_sendmsg K h L = Some M" using step False M(1) by simp
    moreover have "\<forall>x. x \<notin> set (r # rs) \<longrightarrow> udp_reqs M x = udp_reqs L x" using M(7) by simp
    moreover have "\<forall>x. ur_cb (udp_reqs M x) = ur_cb (udp_reqs L x)" using M(8) by simp
    ultimately show ?thesis using M(2,3,5,6) ms(2) Cons.prems(2) by (intro exI [of _ M]) simp
  qed
qed

section \<open>Completing and closing\<close>

text \<open>Send callbacks that only record their call.\<close>

definition records_sends :: "('k, (nat \<times> addr \<times> int) list) udploop_scheme udp_user \<Rightarrow> bool" where
  "records_sends U \<longleftrightarrow> (\<forall>cb r s L. on_send U cb r s L = Some (udploop.more_update (\<lambda>l. l @ [(cb, r, s)]) L))"

fun completion :: "(addr \<Rightarrow> nat option) \<Rightarrow> addr \<times> int \<Rightarrow> (nat \<times> addr \<times> int) list" where
  "completion cb (r, s) = (case cb r of None \<Rightarrow> [] | Some c \<Rightarrow> [(c, r, if s \<ge> 0 then 0 else s)])"

definition callbacks_of :: "('k, 'a) udploop_scheme \<Rightarrow> addr \<Rightarrow> nat option" where
  "callbacks_of L r = ur_cb (udp_reqs L r)"

definition with_status :: "('k, 'a) udploop_scheme \<Rightarrow> addr list \<Rightarrow> (addr \<times> int) list" where
  "with_status L rs = map (\<lambda>r. (r, ur_status (udp_reqs L r))) rs"

definition completed_udp :: "('k, 'a) udploop_scheme \<Rightarrow> addr list \<Rightarrow> uv_udp \<Rightarrow> uv_udp" where
  "completed_udp L rs u = u\<lparr>write_completed_queue := [],
     send_queue_size := send_queue_size u - (\<Sum>r \<leftarrow> rs. udp_count_bufs (bufs_of L r)),
     send_queue_count := send_queue_count u - of_nat (length rs)\<rparr>"

lemma more_id [simp]: "udploop.more_update (\<lambda>l. l) L = L"
  by (cases L) simp

lemma completed_loop_ok:
  assumes "records_sends U" and "distinct rs" and "write_completed_queue (udps L h) = rs"
    and "\<forall>r \<in> set rs. r \<in> set (active_reqs L) \<and> ur_bufs (udp_reqs L r) \<noteq> None"
  shows "\<exists>R. udp_completed_loop U h L = Some (udploop.more_update (\<lambda>l. l @ concat (map (completion (callbacks_of L)) (with_status L rs)))
      (L\<lparr>active_reqs := filter (\<lambda>x. x \<notin> set rs) (active_reqs L), udps := (udps L)(h := completed_udp L rs (udps L h)), udp_reqs := R\<rparr>)) \<and>
    (\<forall>x. x \<notin> set rs \<longrightarrow> R x = udp_reqs L x)"
  using assms(2-)
proof (induction rs arbitrary: L)
  case Nil
  then have "(udps L)(h := completed_udp L [] (udps L h)) = udps L" by (simp add: completed_udp_def fun_eq_iff)
  then show ?case
    using Nil by (intro exI [of _ "udp_reqs L"]) (simp add: udp_completed_loop.simps with_status_def)
next
  case (Cons r rs)
  obtain bs where bs: "ur_bufs (udp_reqs L r) = Some bs" "r \<in> set (active_reqs L)" using Cons.prems(3) by auto
  have ne: "active_reqs L \<noteq> []" using bs(2) by auto
  define N where "N = L\<lparr>active_reqs := removeAll r (active_reqs L),
     udps := (udps L)(h := (udps L h)\<lparr>write_completed_queue := rs, send_queue_size := send_queue_size (udps L h) - udp_count_bufs bs,
                                     send_queue_count := send_queue_count (udps L h) - 1\<rparr>),
     udp_reqs := (udp_reqs L)(r := (udp_reqs L r)\<lparr>ur_bufs := None\<rparr>)\<rparr>"
  define N' where "N' = udploop.more_update (\<lambda>l. l @ completion (callbacks_of L) (r, ur_status (udp_reqs L r))) N"
  have step: "udp_completed_loop U h L = udp_completed_loop U h N'"
    using Cons.prems(2) bs(1) ne assms(1)
    by (subst udp_completed_loop.simps)
      (auto simp: Let_def upd_udp_def upd_send_req_def uv__req_unregister_def uv__has_active_reqs_def N'_def N_def records_sends_def
        callbacks_of_def split: option.splits)
  have sel: "udps N' = udps N" "udp_reqs N' = udp_reqs N" "active_reqs N' = active_reqs N" by (simp_all add: N'_def)
  have st: "with_status N' rs = with_status L rs" "callbacks_of N' = callbacks_of L" "r \<notin> set rs"
    "map (\<lambda>r. udp_count_bufs (bufs_of N' r)) rs = map (\<lambda>r. udp_count_bufs (bufs_of L r)) rs"
    using Cons.prems(1) by (auto simp: with_status_def callbacks_of_def sel N_def bufs_of_def fun_eq_iff)
  have di: "distinct rs" using Cons.prems(1) by simp
  have wq: "write_completed_queue (udps N' h) = rs" by (simp add: sel N_def)
  have ac: "\<forall>x \<in> set rs. x \<in> set (active_reqs N') \<and> ur_bufs (udp_reqs N' x) \<noteq> None"
    using Cons.prems(1,3) st(3) by (auto simp: sel N_def)
  obtain R where R: "udp_completed_loop U h N' =
      Some (udploop.more_update (\<lambda>l. l @ concat (map (completion (callbacks_of N')) (with_status N' rs)))
      (N'\<lparr>active_reqs := filter (\<lambda>x. x \<notin> set rs) (active_reqs N'), udps := (udps N')(h := completed_udp N' rs (udps N' h)), udp_reqs := R\<rparr>))"
    "\<forall>x. x \<notin> set rs \<longrightarrow> R x = udp_reqs N' x"
    using Cons.IH [OF di wq ac] by blast
  have c: "completed_udp N' rs (udps N' h) = completed_udp L (r # rs) (udps L h)"
    unfolding completed_udp_def st(4) using bs(1) by (simp add: sel N_def bufs_of_def algebra_simps)
  have f: "filter (\<lambda>x. x \<notin> set rs) (removeAll r (active_reqs L)) = filter (\<lambda>x. x \<notin> set (r # rs)) (active_reqs L)"
    by (induction "active_reqs L" rule: list.induct) (auto simp: removeAll_filter_not_eq filter_filter intro: filter_cong)
  have a: "filter (\<lambda>x. x \<notin> set rs) (active_reqs N') = filter (\<lambda>x. x \<notin> set (r # rs)) (active_reqs L)"
    unfolding sel f [symmetric] by (simp add: N_def)
  have u: "(udps N')(h := v) = (udps L)(h := v)" for v by (simp add: sel N_def)
  have m: "udploop.more_update g (N'\<lparr>active_reqs := A, udps := B, udp_reqs := R\<rparr>) =
      udploop.more_update (\<lambda>l. g (l @ completion (callbacks_of L) (r, ur_status (udp_reqs L r)))) (L\<lparr>active_reqs := A, udps := B, udp_reqs := R\<rparr>)"
    for A B g by (simp add: N'_def N_def o_def)
  have "\<forall>x. x \<notin> set (r # rs) \<longrightarrow> R x = udp_reqs L x" using R(2) by (simp add: sel N_def)
  then show ?case
    unfolding step R(1) c st(1,2) a u m unfolding with_status_def list.map concat.simps append_assoc
    by (intro exI [of _ R] conjI refl)
qed

text \<open>What completing leaves alone, the flags and the counter of active handles aside.\<close>

definition done_frame :: "('k, 'a) udploop_scheme \<Rightarrow> ('k, 'a) udploop_scheme \<Rightarrow> bool" where
  "done_frame L M \<longleftrightarrow> ios M = ios L \<and> slot_at M = slot_at L \<and> watcher_queue M = watcher_queue L \<and> (io_inv L \<longrightarrow> io_inv M) \<and>
     pending_queue M = pending_queue L \<and> pending_run M = pending_run L \<and> kern M = kern L"

lemma done_frameI:
  assumes "ios M = ios L" "watchers M = watchers L" "nwatchers M = nwatchers L" "nfds M = nfds L" "watcher_queue M = watcher_queue L"
    "pending_queue M = pending_queue L" "pending_run M = pending_run L" "kern M = kern L"
  shows "done_frame L M"
proof -
  have s: "slot_at M = slot_at L" by (simp add: slot_at_def assms fun_eq_iff)
  have "registered M = registered L" "watched_fds M = watched_fds L" by (simp_all add: registered_def watched_fds_def s assms fun_eq_iff)
  then show ?thesis unfolding done_frame_def io_inv_def by (simp only: s assms simp_thms)
qed

lemma completed_loop_frame:
  assumes "records_sends U" and "udp_inv h L"
  obtains N where "udp_completed_loop U h L = Some N" and "done_frame L N" and "handles N = handles L"
    and "udps N = (udps L)(h := completed_udp L (write_completed_queue (udps L h)) (udps L h))"
    and "active_reqs N = filter (\<lambda>x. x \<notin> set (write_completed_queue (udps L h))) (active_reqs L)"
    and "udploop.more N = udploop.more L @ concat (map (completion (callbacks_of L)) (with_status L (write_completed_queue (udps L h))))"
    and "\<forall>x. x \<notin> set (write_completed_queue (udps L h)) \<longrightarrow> udp_reqs N x = udp_reqs L x"
proof -
  have "distinct (write_completed_queue (udps L h))" "\<forall>r \<in> set (write_completed_queue (udps L h)). r \<in> set (active_reqs L) \<and> ur_bufs (udp_reqs L r) \<noteq> None"
    using assms(2) by (auto simp: udp_inv_def outstanding_sends_def)
  then obtain R where R: "udp_completed_loop U h L =
      Some (udploop.more_update (\<lambda>l. l @ concat (map (completion (callbacks_of L)) (with_status L (write_completed_queue (udps L h)))))
      (L\<lparr>active_reqs := filter (\<lambda>x. x \<notin> set (write_completed_queue (udps L h))) (active_reqs L),
         udps := (udps L)(h := completed_udp L (write_completed_queue (udps L h)) (udps L h)), udp_reqs := R\<rparr>))"
    "\<forall>x. x \<notin> set (write_completed_queue (udps L h)) \<longrightarrow> R x = udp_reqs L x"
    using completed_loop_ok [OF assms(1) _ refl] by blast
  show ?thesis
    by (rule that [OF R(1)]) (use R(2) in \<open>simp_all add: done_frameI\<close>)
qed

lemma completed_udp_inv:
  assumes "udp_inv h L" and "udps N h = completed_udp L (write_completed_queue (udps L h)) (udps L h)"
    and "active_reqs N = filter (\<lambda>x. x \<notin> set (write_completed_queue (udps L h))) (active_reqs L)"
    and "\<forall>x. x \<notin> set (write_completed_queue (udps L h)) \<longrightarrow> udp_reqs N x = udp_reqs L x"
  shows "udp_inv h N"
proof -
  have o: "outstanding_sends h N = write_queue (udps L h)" by (simp add: outstanding_sends_def assms(2) completed_udp_def)
  have d: "x \<notin> set (write_completed_queue (udps L h))" if "x \<in> set (write_queue (udps L h))" for x
    using assms(1) that by (auto simp: udp_inv_def outstanding_sends_def)
  have "map (\<lambda>r. udp_count_bufs (bufs_of N r)) (write_queue (udps L h)) = map (\<lambda>r. udp_count_bufs (bufs_of L r)) (write_queue (udps L h))"
    using d assms(4) by (simp add: bufs_of_def)
  then have "send_queue_size (udps N h) = (\<Sum>r \<leftarrow> outstanding_sends h N. udp_count_bufs (bufs_of N r))"
    using assms(1) unfolding o by (auto simp add: assms(2) completed_udp_def udp_inv_def outstanding_sends_def simp del: map_eq_conv)
  moreover have "distinct (outstanding_sends h N)" using assms(1) unfolding o by (simp add: udp_inv_def outstanding_sends_def)
  moreover have "send_queue_count (udps N h) = of_nat (length (outstanding_sends h N))"
    using assms(1) unfolding o by (simp add: assms(2) completed_udp_def udp_inv_def outstanding_sends_def)
  moreover have "r \<in> set (active_reqs N) \<and> ur_bufs (udp_reqs N r) \<noteq> None" if "r \<in> set (outstanding_sends h N)" for r
    using assms(1,3,4) that d unfolding o by (auto simp: udp_inv_def outstanding_sends_def)
  ultimately show ?thesis by (simp add: udp_inv_def)
qed

text \<open>Setting flags.\<close>

lemma set_flags_frame:
  "done_frame L (set_flags h f L)" "udps (set_flags h f L) = udps L" "active_reqs (set_flags h f L) = active_reqs L"
  "udploop.more (set_flags h f L) = udploop.more L" "udp_reqs (set_flags h f L) = udp_reqs L" "hflags (set_flags h f L) h = f"
  by (simp_all add: set_flags_def hflags_def done_frameI)

lemma udp_inv_cong:
  "udps M h = udps L h \<Longrightarrow> active_reqs M = active_reqs L \<Longrightarrow> udp_reqs M = udp_reqs L \<Longrightarrow> udp_inv h M \<longleftrightarrow> udp_inv h L"
  by (simp add: udp_inv_def outstanding_sends_def bufs_of_def)

lemma handle_stop_frame:
  "done_frame L (uv__handle_stop h L)" "udps (uv__handle_stop h L) = udps L" "active_reqs (uv__handle_stop h L) = active_reqs L"
  "udploop.more (uv__handle_stop h L) = udploop.more L" "udp_reqs (uv__handle_stop h L) = udp_reqs L"
proof -
  obtain i n where s: "uv__handle_stop h L = L\<lparr>handles := i, active_handles := n\<rparr>" using handle_stop_shape by blast
  show "done_frame L (uv__handle_stop h L)" "udps (uv__handle_stop h L) = udps L" "active_reqs (uv__handle_stop h L) = active_reqs L"
    "udploop.more (uv__handle_stop h L) = udploop.more L" "udp_reqs (uv__handle_stop h L) = udp_reqs L"
    by (simp_all add: s done_frameI)
qed

lemma done_frame_trans: "done_frame L M \<Longrightarrow> done_frame M N \<Longrightarrow> done_frame L N"
  by (simp add: done_frame_def)

lemma cancel_fold:
  "fold (\<lambda>r. upd_send_req r (\<lambda>x. x\<lparr>ur_status := s\<rparr>)) rs L =
     L\<lparr>udp_reqs := \<lambda>x. if x \<in> set rs then (udp_reqs L x)\<lparr>ur_status := s\<rparr> else udp_reqs L x\<rparr>"
  by (induction rs arbitrary: L) (auto simp: upd_send_req_def fun_eq_iff)

lemma cancel_queue_eq:
  "cancel_queue h L = L\<lparr>udps := (udps L)(h := (udps L h)\<lparr>write_completed_queue := outstanding_sends h L, write_queue := []\<rparr>),
     udp_reqs := \<lambda>x. if x \<in> set (write_queue (udps L h)) then (udp_reqs L x)\<lparr>ur_status := - UDP_ECANCELED\<rparr> else udp_reqs L x\<rparr>"
  by (simp add: cancel_queue_def Let_def cancel_fold upd_udp_def outstanding_sends_def)

lemma cancel_queue_inv:
  assumes "udp_inv h L"
  shows "udp_inv h (cancel_queue h L)"
proof -
  have b: "bufs_of (cancel_queue h L) = bufs_of L" "ur_bufs (udp_reqs (cancel_queue h L) r) = ur_bufs (udp_reqs L r)" for r
    by (auto simp: bufs_of_def cancel_queue_eq)
  have "outstanding_sends h (cancel_queue h L) = outstanding_sends h L"
    by (simp add: outstanding_sends_def) (simp add: cancel_queue_eq outstanding_sends_def)
  then show ?thesis using assms unfolding udp_inv_def b by (simp add: cancel_queue_eq)
qed

text \<open>A closed socket has no watcher to stop, and nothing is asked of it.\<close>

lemma run_completed_closed:
  assumes "records_sends U" and "udp_inv h L" and "write_queue (udps L h) = []" and "udp_fd L h = - 1"
    and "\<not> has_flag (pevents (ios L h)) POLLIN" and "\<not> has_flag (hflags L h) UV_UDP_PROCESSING"
  obtains M where "uv__udp_run_completed U h L = Some M" and "done_frame L M" and "\<not> uv__is_active M h"
    and "udps M = (udps L)(h := completed_udp L (write_completed_queue (udps L h)) (udps L h))"
    and "active_reqs M = filter (\<lambda>x. x \<notin> set (write_completed_queue (udps L h))) (active_reqs L)"
    and "udploop.more M = udploop.more L @ concat (map (completion (callbacks_of L)) (with_status L (write_completed_queue (udps L h))))"
    and "udp_inv h M" and "\<not> has_flag (hflags M h) UV_UDP_PROCESSING"
proof -
  define F where "F = set_flags h (add_flag (hflags L h) UV_UDP_PROCESSING) L"
  have F: "done_frame L F" "udps F = udps L" "active_reqs F = active_reqs L" "udploop.more F = udploop.more L" "udp_reqs F = udp_reqs L"
    by (simp_all add: F_def set_flags_frame)
  have invF: "udp_inv h F" using assms(2) udp_inv_cong [of F h L] F by simp
  then obtain N where N: "udp_completed_loop U h F = Some N" "done_frame F N"
    "udps N = (udps F)(h := completed_udp F (write_completed_queue (udps F h)) (udps F h))"
    "active_reqs N = filter (\<lambda>x. x \<notin> set (write_completed_queue (udps F h))) (active_reqs F)"
    "udploop.more N = udploop.more F @ concat (map (completion (callbacks_of F)) (with_status F (write_completed_queue (udps F h))))"
    "\<forall>x. x \<notin> set (write_completed_queue (udps F h)) \<longrightarrow> udp_reqs N x = udp_reqs F x"
    by (rule completed_loop_frame [OF assms(1)])
  have invN: "udp_inv h N" by (rule completed_udp_inv [OF invF _ N(4,6)]) (simp add: N(3))
  define H where "H = uv__handle_stop h N"
  define M where "M = set_flags h (clear_flag (hflags H h) UV_UDP_PROCESSING) H"
  have fd: "io_fd (ios N h) = - 1" "pevents (ios N h) = pevents (ios L h)"
    using assms(4) F(1) N(2) by (simp_all add: udp_fd_def done_frame_def)
  have "write_queue (udps N h) = []" using N(3) F(2) assms(3) by (simp add: completed_udp_def)
  then have "uv__udp_run_completed U h L = Some M"
    using assms(5,6) fd N(1) by (simp add: uv__udp_run_completed_def uv__io_stop_def uv__io_active_def M_def H_def flip: F_def)
  moreover have "udp_inv h M" using invN udp_inv_cong [of M h N] by (simp add: M_def H_def set_flags_frame handle_stop_frame)
  moreover have "\<not> has_flag (hflags M h) UV_UDP_PROCESSING" by (simp add: M_def set_flags_frame)
  moreover have "done_frame L M"
    unfolding M_def H_def by (rule done_frame_trans [OF F(1) done_frame_trans [OF N(2) done_frame_trans [OF handle_stop_frame(1) set_flags_frame(1)]]])
  moreover have "\<not> uv__is_active H h" by (simp add: H_def)
  then have "\<not> uv__is_active M h" by (simp add: M_def uv__is_active_def set_flags_frame)
  moreover have e: "with_status F = with_status L" "callbacks_of F = callbacks_of L" "completed_udp F = completed_udp L"
    by (simp_all add: with_status_def callbacks_of_def completed_udp_def bufs_of_def F(5) fun_eq_iff)
  ultimately show ?thesis
    using N(3-5) by (intro that [of M]) (simp_all add: M_def H_def set_flags_frame handle_stop_frame F e)
qed

lemma udp_finish_close_ok:
  assumes "records_sends U" and "udp_inv h L" and "udp_fd L h = - 1"
    and "\<not> has_flag (pevents (ios L h)) (POLLIN OR POLLOUT)" and "\<not> has_flag (hflags L h) UV_UDP_PROCESSING"
  shows "\<exists>M. uv__udp_finish_close U h L = Some M \<and> done_frame L M \<and> outstanding_sends h M = [] \<and>
    send_queue_size (udps M h) = 0 \<and> send_queue_count (udps M h) = 0 \<and> \<not> uv__is_active M h \<and>
    active_reqs M = filter (\<lambda>r. r \<notin> set (outstanding_sends h L)) (active_reqs L) \<and>
    udploop.more M = udploop.more L @ concat (map (completion (callbacks_of L)) (with_status L (write_completed_queue (udps L h)))) @
      concat (map (\<lambda>r. completion (callbacks_of L) (r, - UDP_ECANCELED)) (write_queue (udps L h)))"
proof -
  define C where "C = cancel_queue h L"
  have c: "write_queue (udps C h) = []" "write_completed_queue (udps C h) = outstanding_sends h L" "ios C = ios L" "handles C = handles L"
    "active_reqs C = active_reqs L" "udploop.more C = udploop.more L" "callbacks_of C = callbacks_of L"
    by (auto simp: C_def cancel_queue_eq callbacks_of_def)
  have st: "with_status C (outstanding_sends h L) = with_status L (write_completed_queue (udps L h)) @ map (\<lambda>r. (r, - UDP_ECANCELED)) (write_queue (udps L h))"
    using assms(2) by (auto simp: C_def cancel_queue_eq with_status_def outstanding_sends_def udp_inv_def)
  have pe: "\<not> has_flag (pevents (ios L h)) POLLIN" using assms(4) has_flag_or_mask by blast
  obtain M where M: "uv__udp_run_completed U h C = Some M" "\<not> uv__is_active M h"
    "udps M = (udps C)(h := completed_udp C (write_completed_queue (udps C h)) (udps C h))"
    "active_reqs M = filter (\<lambda>x. x \<notin> set (write_completed_queue (udps C h))) (active_reqs C)"
    "udploop.more M = udploop.more C @ concat (map (completion (callbacks_of C)) (with_status C (write_completed_queue (udps C h))))"
    "done_frame C M"
    using run_completed_closed [OF assms(1) cancel_queue_inv [OF assms(2)], folded C_def, OF c(1)] assms(3,5) pe c
    by (metis hflags_def udp_fd_def)
  have "udp_inv h C" unfolding C_def by (rule cancel_queue_inv [OF assms(2)])
  then have z: "send_queue_size (udps M h) = 0" "send_queue_count (udps M h) = 0"
    using M(3) c(1) by (simp_all add: completed_udp_def udp_inv_def outstanding_sends_def)
  have o: "outstanding_sends h M = []" using M(3) c(1) by (simp add: outstanding_sends_def completed_udp_def)
  have ev: "events_ok (POLLIN OR POLLOUT)" by (simp add: events_ok_def poll_mask_def)
  have "uv__udp_finish_close U h L = Some (upd_udp h (\<lambda>u. u\<lparr>recv_cb := None, alloc_cb := None\<rparr>) M)"
    using assms(3,4) M(1) z ev by (simp add: uv__udp_finish_close_def uv__io_active_def flip: C_def)
  moreover have "\<not> uv__is_active (upd_udp h (\<lambda>u. u\<lparr>recv_cb := None, alloc_cb := None\<rparr>) M) h"
    using M(2) by (simp add: upd_udp_def uv__is_active_def hflags_def)
  moreover have "done_frame L C" by (rule done_frameI) (simp_all add: C_def cancel_queue_eq)
  then have "done_frame L M" using M(6) done_frame_trans by blast
  then have "done_frame L (upd_udp h (\<lambda>u. u\<lparr>recv_cb := None, alloc_cb := None\<rparr>) M)"
    by (rule done_frame_trans) (simp add: upd_udp_def done_frameI)
  ultimately show ?thesis
    using z M(2,4,5) c st o by (auto simp: upd_udp_def outstanding_sends_def o_def)
qed

section \<open>A writable socket\<close>

lemma io_stop_shape:
  assumes "uv__io_stop w e L = Some M"
  shows "\<exists>i ws n q. M = L\<lparr>ios := i, watchers := ws, nfds := n, watcher_queue := q\<rparr>"
proof -
  have "M = L\<lparr>ios := ios M, watchers := watchers M, nfds := nfds M, watcher_queue := watcher_queue M\<rparr>"
    using assms by (cases L) (auto simp: uv__io_stop_def Let_def set_io_def split: if_splits)
  then show ?thesis by blast
qed

lemma io_stop_udp_sel:
  assumes "uv__io_stop w e L = Some M"
  shows "udps M = udps L" "active_reqs M = active_reqs L" "udploop.more M = udploop.more L" "udp_reqs M = udp_reqs L" "kern M = kern L"
  using io_stop_shape [OF assms] by auto

lemma done_frame_stoppable: "done_frame L M \<Longrightarrow> stoppable M h \<longleftrightarrow> stoppable L h"
  by (simp add: done_frame_def stoppable_def)

lemma run_completed_open:
  assumes "records_sends U" and "udp_inv h L" and "io_inv L" and "stoppable L h" and "\<not> has_flag (hflags L h) UV_UDP_PROCESSING"
  obtains M where "uv__udp_run_completed U h L = Some M" and "udp_inv h M" and "io_inv M" and "kern M = kern L"
    and "udps M = (udps L)(h := completed_udp L (write_completed_queue (udps L h)) (udps L h))"
    and "udploop.more M = udploop.more L @ concat (map (completion (callbacks_of L)) (with_status L (write_completed_queue (udps L h))))"
    and "pevents (ios M h) = (if write_queue (udps L h) = [] then clear_flag (pevents (ios L h)) POLLOUT else pevents (ios L h))"
proof -
  define F where "F = set_flags h (add_flag (hflags L h) UV_UDP_PROCESSING) L"
  have F: "done_frame L F" "udps F = udps L" "active_reqs F = active_reqs L" "udploop.more F = udploop.more L" "udp_reqs F = udp_reqs L"
    by (simp_all add: F_def set_flags_frame)
  have invF: "udp_inv h F" using assms(2) udp_inv_cong [of F h L] F by simp
  then obtain N where N: "udp_completed_loop U h F = Some N" "done_frame F N"
    "udps N = (udps F)(h := completed_udp F (write_completed_queue (udps F h)) (udps F h))"
    "active_reqs N = filter (\<lambda>x. x \<notin> set (write_completed_queue (udps F h))) (active_reqs F)"
    "udploop.more N = udploop.more F @ concat (map (completion (callbacks_of F)) (with_status F (write_completed_queue (udps F h))))"
    "\<forall>x. x \<notin> set (write_completed_queue (udps F h)) \<longrightarrow> udp_reqs N x = udp_reqs F x"
    by (rule completed_loop_frame [OF assms(1)])
  have LN: "done_frame L N" by (rule done_frame_trans [OF F(1) N(2)])
  have invN: "udp_inv h N" by (rule completed_udp_inv [OF invF _ N(4,6)]) (simp add: N(3))
  have e: "with_status F = with_status L" "callbacks_of F = callbacks_of L" "completed_udp F = completed_udp L"
    by (simp_all add: with_status_def callbacks_of_def completed_udp_def bufs_of_def F(5) fun_eq_iff)
  have q: "write_queue (udps N h) = write_queue (udps L h)" by (simp add: N(3) F(2) completed_udp_def)
  define done' where "done' S \<longleftrightarrow> udps S = udps N \<and> active_reqs S = active_reqs N \<and> udploop.more S = udploop.more N \<and> udp_reqs S = udp_reqs N \<and>
      kern S = kern N \<and> io_inv S \<and> pevents (ios S h) = (if write_queue (udps L h) = [] then clear_flag (pevents (ios L h)) POLLOUT else pevents (ios L h))"
    for S
  obtain S where S: "(if write_queue (udps N h) = []
        then do { L \<leftarrow> uv__io_stop h POLLOUT N; active \<leftarrow> uv__io_active h POLLIN L; Some (if \<not> active then uv__handle_stop h L else L) }
        else Some N) = Some S" "done' S"
  proof (cases "write_queue (udps L h) = []")
    case False
    then show ?thesis using that [of N] q LN assms(3) by (simp add: done'_def done_frame_def)
  next
    case True
    have "io_inv N" "stoppable N h" using LN assms(3,4) done_frame_stoppable by (auto simp: done_frame_def)
    then obtain T where T: "uv__io_stop h POLLOUT N = Some T" "io_inv T" "pevents (ios T h) = clear_flag (pevents (ios N h)) POLLOUT"
      using io_stop_ok [OF _ _ events_ok_mask(3)] by blast
    have "done' T" using T io_stop_udp_sel [OF T(1)] True LN by (simp add: done'_def done_frame_def)
    moreover have "done' (uv__handle_stop h T)"
      using calculation handle_stop_frame [where h = h and L = T] by (simp add: done'_def done_frame_def)
    ultimately show ?thesis using that [of "if has_flag (pevents (ios T h)) POLLIN then T else uv__handle_stop h T"] q True T(1)
      by (simp add: uv__io_active_def split: if_splits)
  qed
  define M where "M = set_flags h (clear_flag (hflags S h) UV_UDP_PROCESSING) S"
  have M: "done' M" using S(2) set_flags_frame [where h = h and L = S] by (simp add: done'_def done_frame_def M_def)
  have "uv__udp_run_completed U h L = Some M"
    using assms(5) N(1) S(1) unfolding uv__udp_run_completed_def by (simp add: M_def flip: F_def)
  moreover have "udp_inv h M" using M invN udp_inv_cong [of M h N] by (simp add: done'_def)
  ultimately show ?thesis
    using M N(3,5) F e LN by (intro that [of M]) (simp_all add: done'_def done_frame_def)
qed

lemma zip_statuses: "map (\<lambda>r. (r, g r)) rs = zip rs (map g rs)"
  by (induction rs) auto


text \<open>C15: finishing a closed UDP handle always returns, and completes every outstanding send exactly once and in order: the sends that
  had ended with their result, and those still queued with UV_ECANCELED, none forgotten and none twice; the two counters end at 0 (the
  assertions hold), the requests are unregistered from the loop, and the handle is not active.\<close>

theorem udp_close_completes_all:
  assumes "records_sends U" and "udp_inv h L" and "udp_fd L h = - 1"
    and "\<not> has_flag (pevents (ios L h)) (POLLIN OR POLLOUT)" and "\<not> has_flag (hflags L h) UV_UDP_PROCESSING"
  shows "\<exists>M. uv__udp_finish_close U h L = Some M \<and> outstanding_sends h M = [] \<and>
    send_queue_size (udps M h) = 0 \<and> send_queue_count (udps M h) = 0 \<and> \<not> uv__is_active M h \<and>
    active_reqs M = filter (\<lambda>r. r \<notin> set (outstanding_sends h L)) (active_reqs L) \<and>
    udploop.more M = udploop.more L @ concat (map (completion (callbacks_of L)) (with_status L (write_completed_queue (udps L h)))) @
      concat (map (\<lambda>r. completion (callbacks_of L) (r, - UDP_ECANCELED)) (write_queue (udps L h)))"
  using udp_finish_close_ok [OF assms] by blast

section \<open>Two faults\<close>

lemma udp_send_open:
  assumes "bufs \<noteq> []" and "udp_fd L h \<noteq> - 1" and "room \<or> length bufs \<le> 4" and "send_queue_count (udps L h) = 0"
    and "\<not> has_flag (hflags L h) UV_UDP_PROCESSING"
  shows "uv__udp_send K realloc_ok room r h bufs a cb L =
     map_option (Pair 0) (uv__udp_sendmsg K h (uv__handle_start h
       (L\<lparr>active_reqs := active_reqs L @ [r], udp_reqs := (udp_reqs L)(r := (udp_reqs L r)\<lparr>ur_addr := a, ur_cb := cb, ur_handle := h, ur_bufs := Some bufs\<rparr>),
          udps := (udps L)(h := (udps L h)\<lparr>send_queue_size := send_queue_size (udps L h) + udp_count_bufs bufs,
                                          send_queue_count := send_queue_count (udps L h) + 1, write_queue := write_queue (udps L h) @ [r]\<rparr>)\<rparr>)))"
proof -
  have p: "has_flag (hflags (uv__handle_start h M) h) UV_UDP_PROCESSING \<longleftrightarrow> has_flag (hflags M h) UV_UDP_PROCESSING" for M :: "('a, 'b) udploop_scheme"
    by (auto simp: handle_ops_defs)
  have hf: "hflags (L\<lparr>active_reqs := x, udp_reqs := y, udps := z\<rparr>) h = hflags L h" for x y z by (simp add: hflags_def)
  show ?thesis
    using assms by (auto simp: uv__udp_send_def uv__udp_maybe_deferred_bind_def Let_def uv__req_register_def upd_send_req_def upd_udp_def p hf)
qed

text \<open>C38: a datagram the kernel does not take at once is stuck: \<open>uv_udp_send\<close> on an idle handle returns 0 and leaves the request queued and
  registered, but neither watches for POLLOUT nor has the watcher called, so nothing tries again until the program sends once more.\<close>

theorem udp_send_blocked_not_watched:
  assumes "bufs \<noteq> []" and "udp_fd L h \<noteq> - 1" and "room \<or> length bufs \<le> 4" and "udp_inv h L" and "outstanding_sends h L = []"
    and "\<not> has_flag (hflags L h) UV_UDP_PROCESSING" and "\<not> has_flag (pevents (ios L h)) POLLOUT" and "h \<notin> fed L"
    and "sys_sendmsg K (udp_fd L h) a bufs (kern L) = (- UDP_EAGAIN, k)"
  shows "\<exists>M. uv__udp_send K realloc_ok room r h bufs a cb L = Some (0, M) \<and> write_queue (udps M h) = [r] \<and> r \<in> set (active_reqs M) \<and>
    \<not> has_flag (pevents (ios M h)) POLLOUT \<and> h \<notin> fed M \<and> watcher_queue M = watcher_queue L \<and> watchers M = watchers L"
proof -
  have q: "write_queue (udps L h) = []" "send_queue_count (udps L h) = 0"
    using assms(4,5) by (simp_all add: outstanding_sends_def udp_inv_def)
  define S where "S = L\<lparr>active_reqs := active_reqs L @ [r],
     udp_reqs := (udp_reqs L)(r := (udp_reqs L r)\<lparr>ur_addr := a, ur_cb := cb, ur_handle := h, ur_bufs := Some bufs\<rparr>),
     udps := (udps L)(h := (udps L h)\<lparr>send_queue_size := send_queue_size (udps L h) + udp_count_bufs bufs,
                                     send_queue_count := send_queue_count (udps L h) + 1, write_queue := write_queue (udps L h) @ [r]\<rparr>)\<rparr>"
  obtain i n where T: "uv__handle_start h S = S\<lparr>handles := i, active_handles := n\<rparr>" using handle_start_shape by blast
  have f: "udp_fd (S\<lparr>handles := i, active_handles := n\<rparr>) h = udp_fd L h" "kern (S\<lparr>handles := i, active_handles := n\<rparr>) = kern L"
    by (simp_all add: udp_fd_def S_def)
  have once: "sendmsg_loop K (udp_fd L h) a bufs (S\<lparr>handles := i, active_handles := n\<rparr>) =
      Some (- UDP_EAGAIN, S\<lparr>handles := i, active_handles := n, kern := k\<rparr>)"
    using sendmsg_once [of K "udp_fd L h" a bufs "S\<lparr>handles := i, active_handles := n\<rparr>"] assms(9) f(2) by simp
  have "uv__udp_sendmsg K h (S\<lparr>handles := i, active_handles := n\<rparr>) = Some (S\<lparr>handles := i, active_handles := n, kern := k\<rparr>)"
    using once f q by (subst uv__udp_sendmsg.simps) (simp add: S_def)
  then have "uv__udp_send K realloc_ok room r h bufs a cb L = Some (0, S\<lparr>handles := i, active_handles := n, kern := k\<rparr>)"
    unfolding udp_send_open [OF assms(1-3) q(2) assms(6)] by (simp add: T flip: S_def)
  then show ?thesis using q assms(7,8) by (simp add: S_def fed_def)
qed

text \<open>A closed socket refuses every datagram.\<close>

lemma send_results_refused:
  assumes "\<forall>a bs k. fst (sys_sendmsg K fd a bs k) = - UDP_EBADF"
  shows "\<exists>k'. send_results K fd xs k = (replicate (length xs) (- UDP_EBADF), k')"
proof (induction xs arbitrary: k)
  case (Cons x xs)
  obtain a bs where x: "x = (a, bs)" by fastforce
  obtain n k1 where n: "sys_sendmsg K fd a bs k = (n, k1)" by fastforce
  then have "n = - UDP_EBADF" using assms by (metis fst_conv)
  then show ?case using Cons.IH [of k1] n by (auto simp: x)
qed simp


section \<open>An example\<close>

text \<open>A kernel that takes datagrams of up to four bytes, refuses larger ones for now, and knows no descriptor below 0.\<close>

definition sample_udpsys :: "skernel udpsys" where
  "sample_udpsys = fdsys.extend sample_fdsys (udpsys.fields (\<lambda>a b k. (6, k)) (\<lambda>fd a k. (0, k)) (\<lambda>fd o' k. (0, k))
     (\<lambda>fd n k. ((0, Other_addr, 0), k))
     (\<lambda>fd a bs k. (if fd < 0 then - UDP_EBADF else if (\<Sum>b \<leftarrow> bs. length b) \<le> 4 then int (\<Sum>b \<leftarrow> bs. length b) else - UDP_EAGAIN, k))
     (\<lambda>fd n k. (\<lparr>rc_result = 3, rc_peer = None, rc_trunc = False\<rparr>, k)))"

lemma sample_udpsys_sel:
  "sys_sendmsg sample_udpsys fd a bs k =
     (if fd < 0 then - UDP_EBADF else if (\<Sum>b \<leftarrow> bs. length b) \<le> 4 then int (\<Sum>b \<leftarrow> bs. length b) else - UDP_EAGAIN, k)"
  "sys_recvmsg sample_udpsys fd n k = (\<lparr>rc_result = 3, rc_peer = None, rc_trunc = False\<rparr>, k)"
  "sys_close sample_udpsys fd k = k"
  by (simp_all add: sample_udpsys_def sample_fdsys_def sample_ssys_def udpsys.defs fdsys.defs ssyscalls.defs usyscalls.defs asyscalls.defs syscalls.defs)

lemma sample_udpsys_ok: "never_interrupted sample_udpsys" "\<forall>a bs k. fst (sys_sendmsg sample_udpsys (- 1) a bs k) = - UDP_EBADF"
  by (simp_all add: never_interrupted_def sample_udpsys_sel)

text \<open>A program that closes the handle when it receives something.\<close>

definition sample_udp_user :: "(skernel, (nat \<times> addr \<times> int) list) udploop_scheme udp_user" where
  "sample_udp_user = \<lparr>on_alloc = (\<lambda>cb h n L. Some ((Some 100, n), L)),
     on_recv = (\<lambda>cb h n buf a fl L. uv_close sample_udpsys (udp_other sample_udpsys (\<lambda>_ _. Some)) h (Some 9) L),
     on_send = (\<lambda>cb r s L. Some (udploop.more_update (\<lambda>l. l @ [(cb, r, s)]) L))\<rparr>"

text \<open>Handle 30 has the descriptor 3 and the sends 31, 32 and 33 of 3, 8 and 2 bytes, of which \<open>done\<close> have ended and \<open>q\<close> wait.\<close>

definition sample_udploop :: "addr list \<Rightarrow> addr list \<Rightarrow> u32 \<Rightarrow> (skernel, (nat \<times> addr \<times> int) list) udploop_scheme" where
  "sample_udploop done q pe = udploop.extend (evloop.extend ((evloop.truncate sample_evloop)\<lparr>active_handles := 1, handle_queue := [30],
       closing_handles := None, handles := (\<lambda>_. \<lparr>flags = 0x6000, htype = UV_UDP, next_closing = None\<rparr>),
       close_cb := (\<lambda>_. None), active_reqs := [31, 32, 33], pending_queue := [], watcher_queue := [], nwatchers := 6, nfds := 1,
       watchers := [NoWatcher, NoWatcher, NoWatcher, Watcher 30, NoWatcher, NoWatcher, NoWatcher, NoWatcher],
       ios := (\<lambda>_. \<lparr>io_cb = 0, pevents = 0, io_events = 0, io_fd = - 1\<rparr>)(30 := \<lparr>io_cb = UV__UDP_IO, pevents = pe, io_events = pe, io_fd = 3\<rparr>)\<rparr>)
     (udploop.fields
       (\<lambda>_. \<lparr>alloc_cb = Some 1, recv_cb = Some 2, send_queue_size = (\<Sum>r \<leftarrow> done @ q. if r = 31 then 3 else if r = 32 then 8 else 2),
             send_queue_count = of_nat (length (done @ q)), write_queue = q, write_completed_queue = done\<rparr>)
       (\<lambda>r. \<lparr>ur_addr = In4 \<lparr>sin_port = 53, sin_addr = [10, 0, 0, 1]\<rparr>,
             ur_bufs = Some [replicate (if r = 31 then 3 else if r = 32 then 8 else 2) 0],
             ur_cb = (if r = 33 then None else Some r), ur_handle = 30, ur_status = 3\<rparr>))) []"

lemma sample_udploop_sel:
  "udps (sample_udploop d q pe) h = \<lparr>alloc_cb = Some 1, recv_cb = Some 2, send_queue_size = (\<Sum>r \<leftarrow> d @ q. if r = 31 then 3 else if r = 32 then 8 else 2),
             send_queue_count = of_nat (length (d @ q)), write_queue = q, write_completed_queue = d\<rparr>"
  "udp_reqs (sample_udploop d q pe) r = \<lparr>ur_addr = In4 \<lparr>sin_port = 53, sin_addr = [10, 0, 0, 1]\<rparr>,
             ur_bufs = Some [replicate (if r = 31 then 3 else if r = 32 then 8 else 2) 0],
             ur_cb = (if r = 33 then None else Some r), ur_handle = 30, ur_status = 3\<rparr>"
  "active_reqs (sample_udploop d q pe) = [31, 32, 33]" "udploop.more (sample_udploop d q pe) = []"
  "hflags (sample_udploop d q pe) h = 0x6000" "htype (handles (sample_udploop d q pe) h) = UV_UDP"
  "ios (sample_udploop d q pe) h = (if h = 30 then \<lparr>io_cb = UV__UDP_IO, pevents = pe, io_events = pe, io_fd = 3\<rparr>
     else \<lparr>io_cb = 0, pevents = 0, io_events = 0, io_fd = - 1\<rparr>)"
  "fed (sample_udploop d q pe) = {}" "watcher_queue (sample_udploop d q pe) = []"
  "watchers (sample_udploop d q pe) = [NoWatcher, NoWatcher, NoWatcher, Watcher 30, NoWatcher, NoWatcher, NoWatcher, NoWatcher]"
  "nwatchers (sample_udploop d q pe) = 6" "nfds (sample_udploop d q pe) = 1" "pending_queue (sample_udploop d q pe) = []"
  "pending_run (sample_udploop d q pe) = []" "active_handles (sample_udploop d q pe) = 1"
  "handles (sample_udploop d q pe) = (\<lambda>_. \<lparr>flags = 0x6000, htype = UV_UDP, next_closing = None\<rparr>)"
  by (simp_all add: sample_udploop_def udploop.defs evloop.defs hflags_def fed_def sample_evloop_sel)

lemma sample_udploop_inv:
  assumes "distinct (d @ q)" and "set (d @ q) \<subseteq> {31, 32, 33}"
  shows "udp_inv h (sample_udploop d q pe)"
proof -
  have "udp_count_bufs (bufs_of (sample_udploop d q pe) r) = (if r = 31 then 3 else if r = 32 then 8 else 2)" for r
    by (simp add: udp_count_bufs_def bufs_of_def sample_udploop_sel)
  then show ?thesis using assms by (auto simp: udp_inv_def outstanding_sends_def sample_udploop_sel)
qed

lemma sample_udploop_slots: "slot_at (sample_udploop d q pe) i = (if i = 3 then Watcher 30 else NoWatcher)"
  by (auto simp: slot_at_def sample_udploop_sel nth_Cons split: nat.splits)

lemma sample_udploop_io:
  assumes "pe \<noteq> 0"
  shows "io_inv (sample_udploop d q pe)" "stoppable (sample_udploop d q pe) 30"
proof -
  have wf: "watched_fds (sample_udploop d q pe) = {3}" by (auto simp: watched_fds_def sample_udploop_slots)
  have rg: "registered (sample_udploop d q pe) w \<longleftrightarrow> w = 30" for w by (auto simp: registered_def sample_udploop_slots sample_udploop_sel)
  show "io_inv (sample_udploop d q pe)"
    unfolding io_inv_def wf rg sample_udploop_slots using assms by (auto simp: sample_udploop_sel)
  show "stoppable (sample_udploop d q pe) 30" by (simp add: stoppable_def sample_udploop_slots sample_udploop_sel)
qed

lemma sample_udp_user_ok: "records_sends sample_udp_user"
  by (simp add: records_sends_def sample_udp_user_def)


theorem udp_send_blocked_not_watched_witness:
  "\<exists>M. uv__udp_send sample_udpsys (\<lambda>_. True) True 31 30 [replicate 5 0] (In4 \<lparr>sin_port = 53, sin_addr = [10, 0, 0, 1]\<rparr>) None
      (sample_udploop [] [] POLLIN) = Some (0, M) \<and> write_queue (udps M 30) = [31] \<and> \<not> has_flag (pevents (ios M 30)) POLLOUT \<and> 30 \<notin> fed M"
  using udp_send_blocked_not_watched [of "[replicate 5 0]" "sample_udploop [] [] POLLIN" 30 True sample_udpsys
      "In4 \<lparr>sin_port = 53, sin_addr = [10, 0, 0, 1]\<rparr>" _ "\<lambda>_. True" 31 None] sample_udploop_inv [of "[]" "[]"]
  by (fastforce simp: udp_fd_def outstanding_sends_def sample_udploop_sel sample_udpsys_sel)

text \<open>One send has ended, two still wait.\<close>

theorem udp_close_completes_all_witness:
  "\<exists>M. uv__udp_finish_close sample_udp_user 30
      (sample_udploop [31] [33, 32] 0\<lparr>ios := \<lambda>_. \<lparr>io_cb = UV__UDP_IO, pevents = 0, io_events = 0, io_fd = - 1\<rparr>\<rparr>) = Some M \<and>
     active_reqs M = [] \<and> udploop.more M = [(31, 31, 0), (32, 32, - UDP_ECANCELED)]"
proof -
  let ?L = "sample_udploop [31] [33, 32] 0\<lparr>ios := \<lambda>_. \<lparr>io_cb = UV__UDP_IO, pevents = 0, io_events = 0, io_fd = - 1\<rparr>\<rparr>"
  have "udp_inv 30 ?L" using sample_udploop_inv [of "[31]" "[33, 32]" 30 0] by (simp add: udp_inv_def outstanding_sends_def bufs_of_def)
  moreover have "hflags ?L 30 = 0x6000" by (simp add: hflags_def sample_udploop_sel)
  ultimately show ?thesis
    using udp_close_completes_all [OF sample_udp_user_ok, of 30 ?L]
    by (simp add: udp_fd_def sample_udploop_sel outstanding_sends_def with_status_def callbacks_of_def) blast
qed

lemma sample_close:
  "\<exists>C. uv_close sample_udpsys (udp_other sample_udpsys (\<lambda>_ _. Some)) 30 (Some 9) (sample_udploop d q (POLLIN OR POLLOUT)) = Some C \<and>
     udp_fd C 30 = - 1 \<and> pevents (ios C 30) = 0 \<and> hflags C 30 = 0x2001 \<and> udp_reqs C = udp_reqs (sample_udploop d q (POLLIN OR POLLOUT)) \<and>
     udps C = udps (sample_udploop d q (POLLIN OR POLLOUT)) \<and> active_reqs C = [31, 32, 33] \<and> udploop.more C = []"
proof -
  let ?L = "sample_udploop d q (POLLIN OR POLLOUT)"
  show ?thesis
    by (simp add: uv_close_def uv__is_closing_def uv__is_active_def uv__has_ref_def close_type_def udp_other_def uv__udp_close_def uv__io_close_def uv__io_stop_def
        poll_mask_def events_ok_def uv__platform_invalidate_fd_def uv__close_fd_def uv__make_close_pending_def set_udp_fd_def udp_fd_def
        handle_ops_defs set_flags_def set_io_def hflags_def clear_flag_def add_flag_def has_flag_def sample_udploop_sel sample_udpsys_sel Let_def)
qed

lemma sample_receive:
  "\<exists>C. uv__udp_recvmsg sample_udpsys sample_udp_user 30 (sample_udploop d q (POLLIN OR POLLOUT)) = Some C \<and>
     udp_fd C 30 = - 1 \<and> pevents (ios C 30) = 0 \<and> hflags C 30 = 0x2001 \<and> udp_reqs C = udp_reqs (sample_udploop d q (POLLIN OR POLLOUT)) \<and>
     udps C = udps (sample_udploop d q (POLLIN OR POLLOUT)) \<and> active_reqs C = [31, 32, 33] \<and> udploop.more C = []"
proof -
  let ?L = "sample_udploop d q (POLLIN OR POLLOUT)"
  have k: "?L\<lparr>kern := kern ?L\<rparr> = ?L" by (cases ?L) simp
  have "recvmsg_loop sample_udpsys fd n ?L = Some (\<lparr>rc_result = 3, rc_peer = None, rc_trunc = False\<rparr>, ?L)" for fd n
    by (subst recvmsg_loop.simps) (simp add: call_sys_def sample_udpsys_sel k del: or_numerals)
  moreover obtain C where "uv_close sample_udpsys (udp_other sample_udpsys (\<lambda>_ _. Some)) 30 (Some 9) ?L = Some C"
    "udp_fd C 30 = - 1" "pevents (ios C 30) = 0" "hflags C 30 = 0x2001" "udp_reqs C = udp_reqs ?L" "udps C = udps ?L"
    "active_reqs C = [31, 32, 33]" "udploop.more C = []" using sample_close by blast
  ultimately show ?thesis
    by (intro exI [of _ C]) (simp add: uv__udp_recvmsg_def recv_rounds.simps [of _ _ _ 32] sample_udp_user_def sample_udploop_sel del: or_numerals)
qed


end
