(* ===== verification/Inotify.thy ===== *)
theory Inotify
  imports Descriptor
begin

text \<open>
  File watchers: \<open>src/src/libuv/src/unix/linux-inotify.c\<close>, with \<open>uv_fs_event_getpath\<close> of \<open>uv-common.c\<close>.  The handles that watch the
  same inode share a \<open>struct watcher_list\<close>, found by its watch descriptor in a red-black tree, which is the list of its elements in
  the order of \<open>compare_watchers\<close>.  \<open>wl_mem\<close> are the lists that are allocated: to follow a pointer to another one is \<open>None\<close>.
  A handle is linked into one queue at a time, that of a list or the local one of \<open>uv__inotify_read\<close>, which is \<open>ino_queue\<close>.  What
  \<open>read\<close> gives is a number below 0 (\<open>-errno\<close>) or the events in the buffer.
\<close>

section \<open>Data\<close>

abbreviation INO_EINTR :: int where "INO_EINTR \<equiv> 4"
abbreviation INO_EAGAIN :: int where "INO_EAGAIN \<equiv> 11"
abbreviation INO_ENOMEM :: int where "INO_ENOMEM \<equiv> 12"
abbreviation INO_EINVAL :: int where "INO_EINVAL \<equiv> 22"
abbreviation INO_ENOSYS :: int where "INO_ENOSYS \<equiv> 38"
abbreviation INO_ENOBUFS :: int where "INO_ENOBUFS \<equiv> 105"

abbreviation UV__IN_MODIFY :: u32 where "UV__IN_MODIFY \<equiv> 0x002"
abbreviation UV__IN_ATTRIB :: u32 where "UV__IN_ATTRIB \<equiv> 0x004"
abbreviation UV__IN_MOVED_FROM :: u32 where "UV__IN_MOVED_FROM \<equiv> 0x040"
abbreviation UV__IN_MOVED_TO :: u32 where "UV__IN_MOVED_TO \<equiv> 0x080"
abbreviation UV__IN_CREATE :: u32 where "UV__IN_CREATE \<equiv> 0x100"
abbreviation UV__IN_DELETE :: u32 where "UV__IN_DELETE \<equiv> 0x200"
abbreviation UV__IN_DELETE_SELF :: u32 where "UV__IN_DELETE_SELF \<equiv> 0x400"
abbreviation UV__IN_MOVE_SELF :: u32 where "UV__IN_MOVE_SELF \<equiv> 0x800"

abbreviation UV_RENAME :: u32 where "UV_RENAME \<equiv> 1"
abbreviation UV_CHANGE :: u32 where "UV_CHANGE \<equiv> 2"

text \<open>The identifier of \<open>uv__inotify_read\<close> as the callback of a watcher.\<close>

abbreviation UV__INOTIFY_READ :: nat where "UV__INOTIFY_READ \<equiv> 5"

record watcher_list =
  wl_watchers :: "addr list"
  iterating :: bool
  wl_path :: string
  wl_wd :: int

text \<open>\<open>ie_name\<close> is empty when \<open>len\<close> is 0.\<close>

record inotify_event =
  ie_wd :: int
  ie_mask :: u32
  ie_name :: string

record 'k inosys = "'k fdsys" +
  sys_inotify_init1 :: "'k \<Rightarrow> int \<times> 'k"
  sys_inotify_init :: "'k \<Rightarrow> int \<times> 'k"
  sys_inotify_add_watch :: "int \<Rightarrow> string \<Rightarrow> u32 \<Rightarrow> 'k \<Rightarrow> int \<times> 'k"
  sys_inotify_rm_watch :: "int \<Rightarrow> int \<Rightarrow> 'k \<Rightarrow> 'k"
  sys_inotify_read :: "int \<Rightarrow> 'k \<Rightarrow> (int + inotify_event list) \<times> 'k"

text \<open>\<open>fe_list\<close> stands for \<open>handle->path\<close>, which points to the path inside of a list.\<close>

record 'k inoloop = "'k evloop" +
  ino_tree :: "addr list"
  wlists :: "addr \<Rightarrow> watcher_list"
  wl_mem :: "addr list"
  ino_queue :: "addr list"
  fe_wd :: "addr \<Rightarrow> int"
  fe_list :: "addr \<Rightarrow> ptr"
  fe_cb :: "addr \<Rightarrow> nat"

definition wl_get :: "addr \<Rightarrow> ('k, 'a) inoloop_scheme \<Rightarrow> watcher_list option" where
  "wl_get w L = (if w \<in> set (wl_mem L) then Some (wlists L w) else None)"

definition wl_put :: "addr \<Rightarrow> (watcher_list \<Rightarrow> watcher_list) \<Rightarrow> ('k, 'a) inoloop_scheme \<Rightarrow> ('k, 'a) inoloop_scheme" where
  "wl_put w f L = L\<lparr>wlists := (wlists L)(w := f (wlists L w))\<rparr>"

section \<open>The tree\<close>

definition compare_watchers :: "int \<Rightarrow> int \<Rightarrow> int" where
  "compare_watchers a b = (if a < b then - 1 else if a > b then 1 else 0)"

text \<open>\<open>RB_FIND\<close>, \<open>RB_INSERT\<close> and \<open>RB_REMOVE\<close>; a comparison may be with any element of the tree.\<close>

definition find_watcher :: "('k, 'a) inoloop_scheme \<Rightarrow> int \<Rightarrow> ptr option" where
  "find_watcher L wd =
     do { ASSERT (set (ino_tree L) \<subseteq> set (wl_mem L));
          Some (find (\<lambda>w. compare_watchers wd (wl_wd (wlists L w)) = 0) (ino_tree L)) }"

definition wl_insert :: "addr \<Rightarrow> ('k, 'a) inoloop_scheme \<Rightarrow> ('k, 'a) inoloop_scheme" where
  "wl_insert w L =
     (let before = (\<lambda>v. compare_watchers (wl_wd (wlists L w)) (wl_wd (wlists L v)) > 0)
      in if \<exists>v \<in> set (ino_tree L). compare_watchers (wl_wd (wlists L w)) (wl_wd (wlists L v)) = 0 then L
         else L\<lparr>ino_tree := takeWhile before (ino_tree L) @ w # dropWhile before (ino_tree L)\<rparr>)"

section \<open>The descriptor\<close>

definition new_inotify_fd :: "('k, 'b) inosys_scheme \<Rightarrow> ('k, 'a) inoloop_scheme \<Rightarrow> (int \<times> ('k, 'a) inoloop_scheme) option" where
  "new_inotify_fd K L =
     (let (fd, L) = call_sys (sys_inotify_init1 K) L
      in if fd \<ge> 0 then Some (fd, L)
         else if fd \<noteq> - INO_ENOSYS then Some (fd, L)
         else let (fd, L) = call_sys (sys_inotify_init K) L
              in if fd < 0 then Some (fd, L)
                 else do { (err, L) \<leftarrow> uv__cloexec_ioctl K fd L;
                           (err, L) \<leftarrow> (if err = 0 then uv__nonblock_ioctl K fd True L else Some (err, L));
                           if err \<noteq> 0 then map_option (Pair err) (uv__close_fd K fd L) else Some (fd, L) })"

definition init_inotify ::
  "('k, 'b) inosys_scheme \<Rightarrow> (nat \<Rightarrow> bool) \<Rightarrow> ('k, 'a) inoloop_scheme \<Rightarrow> (int \<times> ('k, 'a) inoloop_scheme) option" where
  "init_inotify K realloc_ok L =
     (if inotify_fd L \<noteq> - 1 then Some (0, L)
      else do { (err, L) \<leftarrow> new_inotify_fd K L;
                if err < 0 then Some (err, L)
                else do { L \<leftarrow> uv__io_init (inotify_io L) UV__INOTIFY_READ err (L\<lparr>inotify_fd := err\<rparr>);
                          L \<leftarrow> uv__io_start realloc_ok (inotify_io L) POLLIN L;
                          Some (0, L) } })"

section \<open>Handles\<close>

definition maybe_free_watcher_list ::
  "('k, 'b) inosys_scheme \<Rightarrow> addr \<Rightarrow> ('k, 'a) inoloop_scheme \<Rightarrow> ('k, 'a) inoloop_scheme option" where
  "maybe_free_watcher_list K w L =
     do { x \<leftarrow> wl_get w L;
          if \<not> iterating x \<and> wl_watchers x = []
          then let L = L\<lparr>ino_tree := removeAll w (ino_tree L)\<rparr>;
                   L = L\<lparr>kern := sys_inotify_rm_watch K (inotify_fd L) (wl_wd x) (kern L)\<rparr>
               in Some (L\<lparr>wl_mem := removeAll w (wl_mem L)\<rparr>)
          else Some L }"

definition uv_fs_event_init :: "addr \<Rightarrow> ('k, 'a) inoloop_scheme \<Rightarrow> int \<times> ('k, 'a) inoloop_scheme" where
  "uv_fs_event_init h L = (0, uv__handle_init h UV_FS_EVENT L)"

text \<open>The part of \<open>uv_fs_event_start\<close> from \<open>no_insert\<close> on.\<close>

definition fs_event_link :: "addr \<Rightarrow> addr \<Rightarrow> nat \<Rightarrow> int \<Rightarrow> ('k, 'a) inoloop_scheme \<Rightarrow> ('k, 'a) inoloop_scheme option" where
  "fs_event_link w h cb wd L =
     do { x \<leftarrow> wl_get w L;
          let L = wl_put w (\<lambda>x. x\<lparr>wl_watchers := wl_watchers x @ [h]\<rparr>) (uv__handle_start h L);
          Some (L\<lparr>fe_list := (fe_list L)(h := Some w), fe_cb := (fe_cb L)(h := cb), fe_wd := (fe_wd L)(h := wd)\<rparr>) }"

text \<open>\<open>mem\<close> is what \<open>uv__malloc\<close> returns.\<close>

definition uv_fs_event_start ::
  "('k, 'b) inosys_scheme \<Rightarrow> (nat \<Rightarrow> bool) \<Rightarrow> ptr \<Rightarrow> addr \<Rightarrow> nat \<Rightarrow> string \<Rightarrow> ('k, 'a) inoloop_scheme
    \<Rightarrow> (int \<times> ('k, 'a) inoloop_scheme) option" where
  "uv_fs_event_start K realloc_ok mem h cb path L =
     (if uv__is_active L h then Some (- INO_EINVAL, L)
      else do {
        (err, L) \<leftarrow> init_inotify K realloc_ok L;
        if err \<noteq> 0 then Some (err, L)
        else
          let events = UV__IN_ATTRIB OR UV__IN_CREATE OR UV__IN_MODIFY OR UV__IN_DELETE OR UV__IN_DELETE_SELF OR UV__IN_MOVE_SELF
                       OR UV__IN_MOVED_FROM OR UV__IN_MOVED_TO;
              (wd, L) = call_sys (sys_inotify_add_watch K (inotify_fd L) path events) L
          in if wd < 0 then Some (wd, L)
             else do {
               w \<leftarrow> find_watcher L wd;
               case w of
                 Some w \<Rightarrow> map_option (Pair 0) (fs_event_link w h cb wd L)
               | None \<Rightarrow>
                   (case mem of
                      None \<Rightarrow> Some (- INO_ENOMEM, L)
                    | Some w \<Rightarrow>
                        let L = L\<lparr>wl_mem := wl_mem L @ [w],
                                  wlists := (wlists L)(w := \<lparr>wl_watchers = [], iterating = False, wl_path = path, wl_wd = wd\<rparr>)\<rparr>
                        in map_option (Pair 0) (fs_event_link w h cb wd (wl_insert w L))) } })"

text \<open>\<open>QUEUE_REMOVE\<close> takes the handle out of the queue it is linked into.\<close>

definition unlink_watcher :: "addr \<Rightarrow> ('k, 'a) inoloop_scheme \<Rightarrow> ('k, 'a) inoloop_scheme" where
  "unlink_watcher h L = L\<lparr>wlists := \<lambda>w. (wlists L w)\<lparr>wl_watchers := removeAll h (wl_watchers (wlists L w))\<rparr>,
                          ino_queue := removeAll h (ino_queue L)\<rparr>"

definition uv_fs_event_stop ::
  "('k, 'b) inosys_scheme \<Rightarrow> addr \<Rightarrow> ('k, 'a) inoloop_scheme \<Rightarrow> (int \<times> ('k, 'a) inoloop_scheme) option" where
  "uv_fs_event_stop K h L =
     (if \<not> uv__is_active L h then Some (0, L)
      else do {
        p \<leftarrow> find_watcher L (fe_wd L h);
        w \<leftarrow> p;
        let L = uv__handle_stop h (L\<lparr>fe_wd := (fe_wd L)(h := - 1), fe_list := (fe_list L)(h := None)\<rparr>);
        L \<leftarrow> maybe_free_watcher_list K w (unlink_watcher h L);
        Some (0, L) })"

definition uv__fs_event_close ::
  "('k, 'b) inosys_scheme \<Rightarrow> addr \<Rightarrow> ('k, 'a) inoloop_scheme \<Rightarrow> ('k, 'a) inoloop_scheme option" where
  "uv__fs_event_close K h L = map_option snd (uv_fs_event_stop K h L)"

text \<open>For \<open>uv_close\<close>.\<close>

definition ino_other ::
  "('k, 'b) inosys_scheme \<Rightarrow> ('k, 'a) inoloop_scheme destroyer \<Rightarrow> ('k, 'a) inoloop_scheme destroyer" where
  "ino_other K other ty h L = (if ty = UV_FS_EVENT then uv__fs_event_close K h L else other ty h L)"

text \<open>The results are the error, the new value of \<open>*size\<close> and what is written to the buffer, if anything.\<close>

definition uv_fs_event_getpath :: "addr \<Rightarrow> nat \<Rightarrow> ('k, 'a) inoloop_scheme \<Rightarrow> (int \<times> nat \<times> string option) option" where
  "uv_fs_event_getpath h bufsize L =
     (if \<not> uv__is_active L h then Some (- INO_EINVAL, 0, None)
      else do {
        w \<leftarrow> fe_list L h;
        x \<leftarrow> wl_get w L;
        let required_len = length (wl_path x);
        if required_len \<ge> bufsize then Some (- INO_ENOBUFS, required_len + 1, None)
        else Some (0, required_len, Some (wl_path x @ [CHR 0x00])) })"

section \<open>Reading\<close>

definition uv__basename_r :: "string \<Rightarrow> string" where
  "uv__basename_r path = rev (takeWhile (\<lambda>c. c \<noteq> CHR ''/'') (rev path))"

definition event_flags :: "u32 \<Rightarrow> u32" where
  "event_flags m =
     (let events = 0;
          events = (if has_flag m (UV__IN_ATTRIB OR UV__IN_MODIFY) then add_flag events UV_CHANGE else events)
      in if has_flag m (NOT (UV__IN_ATTRIB OR UV__IN_MODIFY)) then add_flag events UV_RENAME else events)"

text \<open>\<open>user cb h path events\<close> is what the callback of a handle does.\<close>

partial_function (option) inotify_call ::
  "(nat \<Rightarrow> addr \<Rightarrow> string \<Rightarrow> u32 \<Rightarrow> ('k, 'a) inoloop_scheme \<Rightarrow> ('k, 'a) inoloop_scheme option) \<Rightarrow> addr \<Rightarrow> string \<Rightarrow> u32
    \<Rightarrow> ('k, 'a) inoloop_scheme \<Rightarrow> ('k, 'a) inoloop_scheme option" where
  [code]: "inotify_call user w path events L =
     (case ino_queue L of
        [] \<Rightarrow> Some L
      | h # hs \<Rightarrow>
          Option.bind (wl_get w L) (\<lambda>x.
            let L = wl_put w (\<lambda>x. x\<lparr>wl_watchers := wl_watchers x @ [h]\<rparr>) (L\<lparr>ino_queue := hs\<rparr>)
            in Option.bind (user (fe_cb L h) h path events L) (inotify_call user w path events)))"

definition inotify_dispatch ::
  "('k, 'b) inosys_scheme \<Rightarrow> (nat \<Rightarrow> addr \<Rightarrow> string \<Rightarrow> u32 \<Rightarrow> ('k, 'a) inoloop_scheme \<Rightarrow> ('k, 'a) inoloop_scheme option) \<Rightarrow> inotify_event
    \<Rightarrow> ('k, 'a) inoloop_scheme \<Rightarrow> ('k, 'a) inoloop_scheme option" where
  "inotify_dispatch K user e L =
     do { p \<leftarrow> find_watcher L (ie_wd e);
          case p of
            None \<Rightarrow> Some L
          | Some w \<Rightarrow>
              do { x \<leftarrow> wl_get w L;
                   let path = (if ie_name e \<noteq> [] then ie_name e else uv__basename_r (wl_path x));
                   let L = wl_put w (\<lambda>x. x\<lparr>iterating := True, wl_watchers := []\<rparr>) (L\<lparr>ino_queue := wl_watchers x\<rparr>);
                   L \<leftarrow> inotify_call user w path (event_flags (ie_mask e)) L;
                   x \<leftarrow> wl_get w L;
                   maybe_free_watcher_list K w (wl_put w (\<lambda>x. x\<lparr>iterating := False\<rparr>) L) } }"

fun inotify_events ::
  "('k, 'b) inosys_scheme \<Rightarrow> (nat \<Rightarrow> addr \<Rightarrow> string \<Rightarrow> u32 \<Rightarrow> ('k, 'a) inoloop_scheme \<Rightarrow> ('k, 'a) inoloop_scheme option) \<Rightarrow> inotify_event list
    \<Rightarrow> ('k, 'a) inoloop_scheme \<Rightarrow> ('k, 'a) inoloop_scheme option" where
  "inotify_events K user [] L = Some L"
| "inotify_events K user (e # es) L = Option.bind (inotify_dispatch K user e L) (inotify_events K user es)"

partial_function (option) uv__inotify_read ::
  "('k, 'b) inosys_scheme \<Rightarrow> (nat \<Rightarrow> addr \<Rightarrow> string \<Rightarrow> u32 \<Rightarrow> ('k, 'a) inoloop_scheme \<Rightarrow> ('k, 'a) inoloop_scheme option)
    \<Rightarrow> ('k, 'a) inoloop_scheme \<Rightarrow> ('k, 'a) inoloop_scheme option" where
  [code]: "uv__inotify_read K user L =
     (case call_sys (sys_inotify_read K (inotify_fd L)) L of
        (Inl err, L) \<Rightarrow>
          if err = - INO_EINTR then uv__inotify_read K user L else if err = - INO_EAGAIN then Some L else None
      | (Inr es, L) \<Rightarrow>
          if es = [] then None else Option.bind (inotify_events K user es L) (uv__inotify_read K user))"

section \<open>What a program may do\<close>

text \<open>\<open>Ino_init h\<close> is on memory that is no handle, and the memory \<open>uv__malloc\<close> returns is none of the lists.  The first start makes the
  descriptor of the loop; that the table of watchers can be enlarged for it is part of \<open>ino_ok\<close>.\<close>

datatype ino_op = Ino_init addr | Ino_start addr nat string ptr | Ino_stop addr | Ino_close addr "nat option"

definition ino_ok :: "('k, 'b) inosys_scheme \<Rightarrow> (nat \<Rightarrow> bool) \<Rightarrow> ino_op \<Rightarrow> ('k, 'a) inoloop_scheme \<Rightarrow> bool" where
  "ino_ok K realloc_ok p L = (case p of
       Ino_init h \<Rightarrow> h \<notin> set (handle_queue L)
     | Ino_start h cb path mem \<Rightarrow> h \<in> set (handle_queue L) \<and> htype (handles L h) = UV_FS_EVENT \<and> \<not> uv__is_closing L h \<and>
         (\<forall>w. mem = Some w \<longrightarrow> w \<notin> set (wl_mem L)) \<and> init_inotify K realloc_ok L \<noteq> None
     | Ino_stop h \<Rightarrow> h \<in> set (handle_queue L) \<and> htype (handles L h) = UV_FS_EVENT
     | Ino_close h cb \<Rightarrow> h \<in> set (handle_queue L) \<and> htype (handles L h) = UV_FS_EVENT \<and> \<not> uv__is_closing L h)"

definition ino_do ::
  "('k, 'b) inosys_scheme \<Rightarrow> (nat \<Rightarrow> bool) \<Rightarrow> ('k, 'a) inoloop_scheme destroyer \<Rightarrow> ino_op \<Rightarrow> ('k, 'a) inoloop_scheme \<Rightarrow> ('k, 'a) inoloop_scheme option" where
  "ino_do K realloc_ok other p L = (case p of
       Ino_init h \<Rightarrow> Some (snd (uv_fs_event_init h L))
     | Ino_start h cb path mem \<Rightarrow> map_option snd (uv_fs_event_start K realloc_ok mem h cb path L)
     | Ino_stop h \<Rightarrow> map_option snd (uv_fs_event_stop K h L)
     | Ino_close h cb \<Rightarrow> uv_close K (ino_other K other) h cb L)"

text \<open>A callback of the user is a list of operations, chosen by any function of what the callback is given and of the state; one that
  is not allowed any more ends the list.\<close>

fun ino_ops ::
  "('k, 'b) inosys_scheme \<Rightarrow> (nat \<Rightarrow> bool) \<Rightarrow> ('k, 'a) inoloop_scheme destroyer \<Rightarrow> ino_op list \<Rightarrow> ('k, 'a) inoloop_scheme \<Rightarrow> ('k, 'a) inoloop_scheme option" where
  "ino_ops K realloc_ok other [] L = Some L"
| "ino_ops K realloc_ok other (p # ps) L =
     (if ino_ok K realloc_ok p L then Option.bind (ino_do K realloc_ok other p L) (ino_ops K realloc_ok other ps) else Some L)"

type_synonym 'l ino_program = "nat \<Rightarrow> addr \<Rightarrow> string \<Rightarrow> u32 \<Rightarrow> 'l \<Rightarrow> ino_op list"

definition ino_user ::
  "('k, 'b) inosys_scheme \<Rightarrow> (nat \<Rightarrow> bool) \<Rightarrow> ('k, 'a) inoloop_scheme destroyer \<Rightarrow> ('k, 'a) inoloop_scheme ino_program
    \<Rightarrow> nat \<Rightarrow> addr \<Rightarrow> string \<Rightarrow> u32 \<Rightarrow> ('k, 'a) inoloop_scheme \<Rightarrow> ('k, 'a) inoloop_scheme option" where
  "ino_user K realloc_ok other prog cb h path events L = ino_ops K realloc_ok other (prog cb h path events L) L"

text \<open>The program calls the library, the events of one \<open>read\<close> are handled, a handle that was closed is finished.\<close>

datatype 'l ino_event = Ino_api ino_op | Ino_batch "inotify_event list" "'l ino_program" | Ino_finish addr "ino_op list"

definition ino_can :: "('k, 'b) inosys_scheme \<Rightarrow> (nat \<Rightarrow> bool) \<Rightarrow> ('k, 'a) inoloop_scheme ino_event \<Rightarrow> ('k, 'a) inoloop_scheme \<Rightarrow> bool" where
  "ino_can K realloc_ok e L = (case e of
       Ino_api p \<Rightarrow> ino_ok K realloc_ok p L
     | Ino_batch es prog \<Rightarrow> True
     | Ino_finish h ps \<Rightarrow> htype (handles L h) = UV_FS_EVENT \<and> has_flag (hflags L h) UV_CLOSING \<and> \<not> has_flag (hflags L h) UV_CLOSED)"

definition ino_step ::
  "('k, 'b) inosys_scheme \<Rightarrow> (nat \<Rightarrow> bool) \<Rightarrow> ('k, 'a) inoloop_scheme destroyer \<Rightarrow> ('k, 'a) inoloop_scheme ino_event \<Rightarrow> ('k, 'a) inoloop_scheme
    \<Rightarrow> ('k, 'a) inoloop_scheme option" where
  "ino_step K realloc_ok other e L = (case e of
       Ino_api p \<Rightarrow> ino_do K realloc_ok other p L
     | Ino_batch es prog \<Rightarrow> inotify_events K (ino_user K realloc_ok other prog) es L
     | Ino_finish h ps \<Rightarrow> uv__finish_close other (\<lambda>cb h. ino_ops K realloc_ok other ps) h L)"

inductive ino_reach ::
  "('k, 'b) inosys_scheme \<Rightarrow> (nat \<Rightarrow> bool) \<Rightarrow> ('k, 'a) inoloop_scheme destroyer \<Rightarrow> ('k, 'a) inoloop_scheme \<Rightarrow> ('k, 'a) inoloop_scheme \<Rightarrow> bool"
  for K realloc_ok other L0 where
  start: "ino_reach K realloc_ok other L0 L0"
| step: "ino_reach K realloc_ok other L0 L \<Longrightarrow> ino_can K realloc_ok e L \<Longrightarrow> ino_step K realloc_ok other e L = Some L'
    \<Longrightarrow> ino_reach K realloc_ok other L0 L'"

section \<open>The invariant\<close>

definition watching :: "('k, 'a) inoloop_scheme \<Rightarrow> addr \<Rightarrow> bool" where
  "watching L h \<longleftrightarrow> h \<in> set (handle_queue L) \<and> htype (handles L h) = UV_FS_EVENT \<and> uv__is_active L h"

text \<open>\<open>c\<close> is the list whose handles are being called; those still to be called are in \<open>ino_queue\<close>.\<close>

definition queue_of :: "ptr \<Rightarrow> ('k, 'a) inoloop_scheme \<Rightarrow> addr \<Rightarrow> addr list" where
  "queue_of c L w = wl_watchers (wlists L w) @ (if c = Some w then ino_queue L else [])"

definition list_inv :: "ptr \<Rightarrow> ('k, 'a) inoloop_scheme \<Rightarrow> addr \<Rightarrow> bool" where
  "list_inv c L w \<longleftrightarrow> (iterating (wlists L w) \<longleftrightarrow> c = Some w) \<and>
     distinct (queue_of c L w) \<and> set (queue_of c L w) = {h. watching L h \<and> fe_list L h = Some w}"

definition handle_ok :: "('k, 'a) inoloop_scheme \<Rightarrow> addr \<Rightarrow> bool" where
  "handle_ok L h \<longleftrightarrow> (\<exists>w \<in> set (wl_mem L). fe_list L h = Some w \<and> fe_wd L h = wl_wd (wlists L w))"

definition open_inv :: "('k, 'a) inoloop_scheme \<Rightarrow> bool" where
  "open_inv L \<longleftrightarrow> (\<forall>h. watching L h \<longrightarrow> \<not> uv__is_closing L h)"

text \<open>The lists in \<open>X\<close> may be empty although they are not being iterated.\<close>

definition ino_inv :: "addr set \<Rightarrow> ptr \<Rightarrow> ('k, 'a) inoloop_scheme \<Rightarrow> bool" where
  "ino_inv X c L \<longleftrightarrow> distinct (ino_tree L) \<and> set (ino_tree L) = set (wl_mem L) \<and> inj_on (\<lambda>w. wl_wd (wlists L w)) (set (wl_mem L)) \<and>
     (\<forall>w \<in> set (wl_mem L). list_inv c L w) \<and> (\<forall>w \<in> set (wl_mem L) - X. c \<noteq> Some w \<longrightarrow> wl_watchers (wlists L w) \<noteq> []) \<and>
     (\<forall>h. watching L h \<longrightarrow> handle_ok L h) \<and>
     (case c of None \<Rightarrow> ino_queue L = [] | Some w \<Rightarrow> w \<in> set (wl_mem L))"

text \<open>What the invariant depends on.\<close>

lemma ino_inv_cong:
  assumes "ino_tree M = ino_tree L" "wl_mem M = wl_mem L" "wlists M = wlists L" "ino_queue M = ino_queue L" "fe_list M = fe_list L"
    "fe_wd M = fe_wd L" "handle_queue M = handle_queue L" "handles M = handles L"
  shows "ino_inv X c M \<longleftrightarrow> ino_inv X c L"
proof -
  have w: "watching M = watching L" "uv__is_closing M = uv__is_closing L"
    by (simp_all add: fun_eq_iff watching_def uv__is_active_def uv__is_closing_def hflags_def assms)
  then have "list_inv c M = list_inv c L" "handle_ok M = handle_ok L"
    by (simp_all add: fun_eq_iff list_inv_def handle_ok_def queue_of_def assms)
  then show ?thesis unfolding ino_inv_def w assms(1-4) by simp
qed

lemma find_watcher_ok:
  assumes "ino_inv X c L"
  obtains p where "find_watcher L wd = Some p" and "\<And>w. p = Some w \<Longrightarrow> w \<in> set (wl_mem L) \<and> wl_wd (wlists L w) = wd"
    and "p = None \<Longrightarrow> \<forall>w \<in> set (wl_mem L). wl_wd (wlists L w) \<noteq> wd"
proof -
  have e: "compare_watchers a b = 0 \<longleftrightarrow> a = b" for a b by (simp add: compare_watchers_def)
  have "find_watcher L wd = Some (find (\<lambda>w. wd = wl_wd (wlists L w)) (ino_tree L))"
    using assms by (simp add: find_watcher_def ino_inv_def e)
  then show ?thesis
    by (rule that) (use assms in \<open>auto simp: find_Some_iff find_None_iff ino_inv_def\<close>)
qed

lemma find_watcher_of:
  assumes "ino_inv X c L" and "w \<in> set (wl_mem L)"
  shows "find_watcher L (wl_wd (wlists L w)) = Some (Some w)"
proof -
  obtain p where p: "find_watcher L (wl_wd (wlists L w)) = Some p" "\<And>v. p = Some v \<Longrightarrow> v \<in> set (wl_mem L) \<and> wl_wd (wlists L v) = wl_wd (wlists L w)"
    "p = None \<Longrightarrow> \<forall>v \<in> set (wl_mem L). wl_wd (wlists L v) \<noteq> wl_wd (wlists L w)"
    using find_watcher_ok [OF assms(1)] by blast
  then obtain v where "p = Some v" using assms(2) by fastforce
  then have "v = w" using p(2) assms by (auto simp: ino_inv_def inj_on_def)
  then show ?thesis using p(1) \<open>p = Some v\<close> by simp
qed

text \<open>What the operations leave alone of the other parts of the loop.\<close>

definition ino_frame :: "('k, 'a) inoloop_scheme \<Rightarrow> ('k, 'a) inoloop_scheme \<Rightarrow> bool" where
  "ino_frame L M \<longleftrightarrow> handle_queue M = handle_queue L \<and> closing_handles M = closing_handles L \<and>
     length (ino_queue M) \<le> length (ino_queue L) \<and>
     (\<forall>x. htype (handles M x) = htype (handles L x) \<and>
        (has_flag (hflags M x) UV_CLOSING \<longleftrightarrow> has_flag (hflags L x) UV_CLOSING) \<and> (has_flag (hflags M x) UV_CLOSED \<longleftrightarrow> has_flag (hflags L x) UV_CLOSED))"

lemma ino_frame_refl [simp]: "ino_frame L L"
  by (simp add: ino_frame_def)

lemma ino_frame_trans: "ino_frame L M \<Longrightarrow> ino_frame M N \<Longrightarrow> ino_frame L N"
  by (simp add: ino_frame_def)

lemma maybe_free_ok:
  assumes inv: "ino_inv {w} c L" and w: "w \<in> set (wl_mem L)"
  shows "\<exists>M. maybe_free_watcher_list K w L = Some M \<and> ino_inv {} c M \<and> ino_frame L M \<and> handles M = handles L \<and>
    (\<forall>v. v \<in> set (wl_mem M) \<longleftrightarrow> v \<in> set (wl_mem L) \<and> (v = w \<longrightarrow> c = Some w \<or> wl_watchers (wlists L w) \<noteq> []))"
proof (cases "c \<noteq> Some w \<and> wl_watchers (wlists L w) = []")
  case False
  then have "ino_inv {} c L" using inv by (auto simp: ino_inv_def)
  moreover have "maybe_free_watcher_list K w L = Some L"
    using False inv w by (auto simp: maybe_free_watcher_list_def wl_get_def ino_inv_def list_inv_def)
  ultimately show ?thesis using False by auto
next
  case True
  define M where "M = L\<lparr>ino_tree := removeAll w (ino_tree L), kern := sys_inotify_rm_watch K (inotify_fd L) (wl_wd (wlists L w)) (kern L),
    wl_mem := removeAll w (wl_mem L)\<rparr>"
  have "maybe_free_watcher_list K w L = Some M"
    using True inv w by (auto simp: maybe_free_watcher_list_def wl_get_def ino_inv_def list_inv_def M_def)
  moreover have f: "watching M = watching L" "uv__is_closing M = uv__is_closing L" "wlists M = wlists L" "ino_queue M = ino_queue L"
    "fe_list M = fe_list L" "fe_wd M = fe_wd L"
    by (simp_all add: fun_eq_iff watching_def uv__is_active_def uv__is_closing_def hflags_def M_def)
  moreover have "list_inv c M = list_inv c L" by (simp add: fun_eq_iff list_inv_def queue_of_def f)
  moreover have nw: "\<not> (watching L h \<and> fe_list L h = Some w)" for h
    using inv w True by (auto simp: ino_inv_def list_inv_def queue_of_def)
  have "handle_ok M h" if "watching L h" for h
  proof -
    have "handle_ok L h" using inv that by (simp add: ino_inv_def)
    then show ?thesis using nw [of h] that by (auto simp: handle_ok_def f) (simp add: M_def)
  qed
  moreover have "inj_on (\<lambda>w. wl_wd (wlists L w)) (set (wl_mem L) - {w})" using inv by (auto simp: ino_inv_def intro: inj_on_diff)
  moreover have m: "ino_tree M = removeAll w (ino_tree L)" "wl_mem M = removeAll w (wl_mem L)" by (simp_all add: M_def)
  ultimately have "ino_inv {} c M" using inv True by (auto simp: ino_inv_def distinct_removeAll split: option.splits)
  moreover have "ino_frame L M" "handles M = handles L" by (simp_all add: ino_frame_def M_def hflags_def)
  ultimately show ?thesis using \<open>maybe_free_watcher_list K w L = Some M\<close> True by (intro exI [of _ M]) (auto simp: m)
qed

lemma handle_flags_frame:
  "has_flag (hflags (uv__handle_stop h L) x) UV_CLOSING \<longleftrightarrow> has_flag (hflags L x) UV_CLOSING"
  "has_flag (hflags (uv__handle_stop h L) x) UV_CLOSED \<longleftrightarrow> has_flag (hflags L x) UV_CLOSED"
  "has_flag (hflags (uv__handle_start h L) x) UV_CLOSING \<longleftrightarrow> has_flag (hflags L x) UV_CLOSING"
  "has_flag (hflags (uv__handle_start h L) x) UV_CLOSED \<longleftrightarrow> has_flag (hflags L x) UV_CLOSED"
  by (auto simp: handle_ops_defs)

lemma unlink_stopped_ok:
  assumes inv: "ino_inv {} c L" and h: "watching L h" and w: "fe_list L h = Some w"
  defines "U \<equiv> unlink_watcher h (uv__handle_stop h (L\<lparr>fe_wd := (fe_wd L)(h := - 1), fe_list := (fe_list L)(h := None)\<rparr>))"
  shows "ino_inv {w} c U" "ino_frame L U" "wl_mem U = wl_mem L" "\<not> uv__is_active U h"
    "\<And>x. watching U x \<longleftrightarrow> watching L x \<and> x \<noteq> h"
proof -
  let ?S = "L\<lparr>fe_wd := (fe_wd L)(h := - 1), fe_list := (fe_list L)(h := None)\<rparr>"
  obtain i n where s: "uv__handle_stop h ?S = ?S\<lparr>handles := i, active_handles := n\<rparr>" using handle_stop_shape by blast
  have hf: "hflags U = hflags (uv__handle_stop h ?S)" "handles U = handles (uv__handle_stop h ?S)"
    by (simp_all add: U_def unlink_watcher_def hflags_def fun_eq_iff)
  have hs: "hflags ?S x = hflags L x" for x by (simp add: hflags_def)
  have act: "uv__is_active U x \<longleftrightarrow> x \<noteq> h \<and> uv__is_active L x" "uv__is_closing U x \<longleftrightarrow> uv__is_closing L x"
    "htype (handles U x) = htype (handles L x)" for x
  proof -
    have "uv__is_active U x \<longleftrightarrow> uv__is_active (uv__handle_stop h ?S) x" "uv__is_closing U x \<longleftrightarrow> uv__is_closing (uv__handle_stop h ?S) x"
      by (simp_all add: uv__is_active_def uv__is_closing_def hf)
    then show "uv__is_active U x \<longleftrightarrow> x \<noteq> h \<and> uv__is_active L x" "uv__is_closing U x \<longleftrightarrow> uv__is_closing L x"
      by (simp_all add: uv__is_active_def [of ?S] uv__is_active_def [of L] uv__is_closing_def [of ?S] uv__is_closing_def [of L] hs)
    show "htype (handles U x) = htype (handles L x)" by (simp add: hf)
  qed
  have f: "wl_watchers (wlists U v) = removeAll h (wl_watchers (wlists L v))" "iterating (wlists U v) = iterating (wlists L v)"
    "wl_wd (wlists U v) = wl_wd (wlists L v)" "ino_queue U = removeAll h (ino_queue L)" "fe_list U = (fe_list L)(h := None)"
    "fe_wd U = (fe_wd L)(h := - 1)" "ino_tree U = ino_tree L" "wl_mem U = wl_mem L" "handle_queue U = handle_queue L" for v
    by (simp_all add: U_def unlink_watcher_def s)
  have wat: "watching U x \<longleftrightarrow> watching L x \<and> x \<noteq> h" for x by (auto simp: watching_def f act)
  have "queue_of c U v = removeAll h (queue_of c L v)" for v by (simp add: queue_of_def f)
  then have "list_inv c U v" if "v \<in> set (wl_mem L)" for v
    using inv that by (auto simp: ino_inv_def list_inv_def f wat distinct_removeAll)
  moreover have "handle_ok U x" if "watching U x" for x
    using inv that by (auto simp: ino_inv_def handle_ok_def f wat act)
  moreover have "wl_watchers (wlists U v) \<noteq> []" if "v \<in> set (wl_mem L) - {w}" "c \<noteq> Some v" for v
  proof -
    have "h \<notin> set (wl_watchers (wlists L v))" using inv that w by (auto simp: ino_inv_def list_inv_def queue_of_def)
    then show ?thesis using inv that by (auto simp: f ino_inv_def)
  qed
  ultimately show "ino_inv {w} c U" using inv by (auto simp: ino_inv_def f split: option.splits)
  have "closing_handles U = closing_handles L" "length (ino_queue U) \<le> length (ino_queue L)"
    by (simp_all add: U_def unlink_watcher_def s length_removeAll_less_eq)
  then show "ino_frame L U" by (simp add: ino_frame_def f act hf handle_flags_frame hs)
  show "wl_mem U = wl_mem L" "\<not> uv__is_active U h" "\<And>x. watching U x \<longleftrightarrow> watching L x \<and> x \<noteq> h"
    by (simp_all add: f act wat)
qed

lemma fs_event_stop_ok:
  assumes inv: "ino_inv {} c L" and h: "h \<in> set (handle_queue L)" "htype (handles L h) = UV_FS_EVENT"
  shows "\<exists>M. uv_fs_event_stop K h L = Some (0, M) \<and> ino_inv {} c M \<and> ino_frame L M \<and> \<not> uv__is_active M h \<and>
    (\<forall>x. watching M x \<longleftrightarrow> watching L x \<and> x \<noteq> h)"
proof (cases "uv__is_active L h")
  case False
  then show ?thesis using inv by (auto simp: uv_fs_event_stop_def watching_def)
next
  case True
  then have wat: "watching L h" using h by (simp add: watching_def)
  then obtain w where w: "w \<in> set (wl_mem L)" "fe_list L h = Some w" "fe_wd L h = wl_wd (wlists L w)"
    using inv by (auto simp: ino_inv_def handle_ok_def)
  have fw: "find_watcher L (fe_wd L h) = Some (Some w)" using find_watcher_of [OF inv w(1)] w(3) by simp
  define U where "U = unlink_watcher h (uv__handle_stop h (L\<lparr>fe_wd := (fe_wd L)(h := - 1), fe_list := (fe_list L)(h := None)\<rparr>))"
  have U: "ino_inv {w} c U" "ino_frame L U" "wl_mem U = wl_mem L" "\<not> uv__is_active U h"
    "\<And>x. watching U x \<longleftrightarrow> watching L x \<and> x \<noteq> h"
    using unlink_stopped_ok [OF inv wat w(2)] by (simp_all add: U_def)
  obtain M where M: "maybe_free_watcher_list K w U = Some M" "ino_inv {} c M" "ino_frame U M" "handles M = handles U"
    using maybe_free_ok [OF U(1), of K] w(1) U(3) by auto
  have "uv_fs_event_stop K h L = Some (0, M)" using True fw M(1) by (simp add: uv_fs_event_stop_def flip: U_def)
  moreover have "uv__is_active M = uv__is_active U" using M(4) by (simp add: uv__is_active_def hflags_def fun_eq_iff)
  then have "\<not> uv__is_active M h" "\<And>x. watching M x \<longleftrightarrow> watching U x"
    using U(4) M(3) by (simp_all add: watching_def ino_frame_def)
  ultimately show ?thesis using M ino_frame_trans [OF U(2)] U(5) by auto
qed

text \<open>Making the descriptor.\<close>

lemma cloexec_shape:
  assumes "uv__cloexec_ioctl K fd L = Some y"
  shows "\<exists>k. snd y = L\<lparr>kern := k\<rparr>"
proof (rule uv__cloexec_ioctl.raw_induct [where P = "\<lambda>K fd L y. \<exists>k. snd y = L\<lparr>kern := k\<rparr>", OF _ assms])
  fix f K fd and L :: "('a, 'b) ploop_scheme" and y
  assume IH: "\<And>(K :: ('a, 'c) fdsys_scheme) fd (L :: ('a, 'b) ploop_scheme) y. f K fd L = Some y \<Longrightarrow> \<exists>k. snd y = L\<lparr>kern := k\<rparr>"
    and b: "(case call_sys (sys_fioclex K fd) L of (r, L) \<Rightarrow> if r = - INO_EINTR then f K fd L else Some (r, L)) = Some y"
  from b show "\<exists>k. snd y = L\<lparr>kern := k\<rparr>" by (auto simp: call_sys_def split: prod.splits if_splits dest!: IH)
qed

lemma nonblock_shape:
  assumes "uv__nonblock_ioctl K fd b L = Some y"
  shows "\<exists>k. snd y = L\<lparr>kern := k\<rparr>"
proof (rule uv__nonblock_ioctl.raw_induct [where P = "\<lambda>K fd b L y. \<exists>k. snd y = L\<lparr>kern := k\<rparr>", OF _ assms])
  fix f K fd b and L :: "('a, 'b) uloop_scheme" and y
  assume IH: "\<And>(K :: ('a, 'c) usyscalls_scheme) fd b (L :: ('a, 'b) uloop_scheme) y. f K fd b L = Some y \<Longrightarrow> \<exists>k. snd y = L\<lparr>kern := k\<rparr>"
    and b: "(case sys_fionbio K fd b (kern L) of (r, k) \<Rightarrow>
        let L = L\<lparr>kern := k\<rparr> in if r = - INO_EINTR then f K fd b L else Some (r, L)) = Some y"
  from b show "\<exists>k. snd y = L\<lparr>kern := k\<rparr>" by (auto simp: Let_def split: prod.splits if_splits dest!: IH)
qed

lemma new_fd_shape:
  assumes "new_inotify_fd K L = Some (e, M)"
  shows "\<exists>k. M = L\<lparr>kern := k\<rparr>"
proof -
  obtain fd k where 1: "call_sys (sys_inotify_init1 K) L = (fd, L\<lparr>kern := k\<rparr>)"
    by (cases "sys_inotify_init1 K (kern L)") (auto simp: call_sys_def)
  obtain fd2 k2 where 2: "call_sys (sys_inotify_init K) (L\<lparr>kern := k\<rparr>) = (fd2, L\<lparr>kern := k2\<rparr>)"
    by (cases "sys_inotify_init K k") (auto simp: call_sys_def)
  show ?thesis
    using assms 1 2
    by (auto simp: new_inotify_fd_def uv__close_fd_def bind_eq_Some_conv split: if_splits dest!: cloexec_shape nonblock_shape)
qed

lemma io_start_shape:
  assumes "uv__io_start r w e L = Some M"
  shows "\<exists>i ws nw n q. M = L\<lparr>ios := i, watchers := ws, nwatchers := nw, nfds := n, watcher_queue := q\<rparr>"
proof -
  have "M = L\<lparr>ios := ios M, watchers := watchers M, nwatchers := nwatchers M, nfds := nfds M, watcher_queue := watcher_queue M\<rparr>"
    using assms by (cases L) (auto simp: uv__io_start_def maybe_resize_def Let_def set_io_def split: if_splits option.splits)
  then show ?thesis by blast
qed

lemma update_swap:
  "P = L\<lparr>inotify_fd := fd, kern := k, ios := i'\<rparr> \<Longrightarrow> P\<lparr>ios := i, watchers := ws, nwatchers := nw, nfds := n, watcher_queue := q\<rparr> =
     L\<lparr>inotify_fd := fd, ios := i, watchers := ws, nwatchers := nw, nfds := n, watcher_queue := q, kern := k\<rparr>"
  by simp

lemma init_inotify_shape:
  assumes "init_inotify K r L = Some (e, M)"
  shows "\<exists>fd i ws nw n q k. M = L\<lparr>inotify_fd := fd, ios := i, watchers := ws, nwatchers := nw, nfds := n, watcher_queue := q, kern := k\<rparr>"
proof -
  consider "M = L" | N where "new_inotify_fd K L = Some (e, N)" "M = N"
    | fd N P where "new_inotify_fd K L = Some (fd, N)" "uv__io_init (inotify_io N) UV__INOTIFY_READ fd (N\<lparr>inotify_fd := fd\<rparr>) = Some P"
        "uv__io_start r (inotify_io P) POLLIN P = Some M"
    using assms by (auto simp: init_inotify_def bind_eq_Some_conv split: if_splits)
  then show ?thesis
  proof cases
    case 1
    have "L = L\<lparr>inotify_fd := inotify_fd L, ios := ios L, watchers := watchers L, nwatchers := nwatchers L, nfds := nfds L,
      watcher_queue := watcher_queue L, kern := kern L\<rparr>" by (cases L) simp
    then show ?thesis unfolding 1 by metis
  next
    case 2
    then obtain k where k: "M = L\<lparr>kern := k\<rparr>" using new_fd_shape by blast
    have "L\<lparr>kern := k\<rparr> = L\<lparr>inotify_fd := inotify_fd L, ios := ios L, watchers := watchers L, nwatchers := nwatchers L, nfds := nfds L,
      watcher_queue := watcher_queue L, kern := k\<rparr>" by (cases L) simp
    then show ?thesis unfolding k by metis
  next
    case 3
    obtain k where k: "N = L\<lparr>kern := k\<rparr>" using new_fd_shape [OF 3(1)] by blast
    have "P = set_io (inotify_io N) \<lparr>io_cb = UV__INOTIFY_READ, pevents = 0, io_events = 0, io_fd = fd\<rparr> (N\<lparr>inotify_fd := fd\<rparr>)"
      using 3(2) by (auto simp: uv__io_init_def split: if_splits)
    then have "P = L\<lparr>inotify_fd := fd, kern := k, ios := ios P\<rparr>" by (simp add: set_io_def k)
    moreover obtain i ws nw n q where "M = P\<lparr>ios := i, watchers := ws, nwatchers := nw, nfds := n, watcher_queue := q\<rparr>"
      using io_start_shape [OF 3(3)] by blast
    ultimately have "M = L\<lparr>inotify_fd := fd, ios := i, watchers := ws, nwatchers := nw, nfds := n, watcher_queue := q, kern := k\<rparr>"
      by (simp only: update_swap)
    then show ?thesis by blast
  qed
qed

text \<open>Starting.\<close>

lemma fs_event_link_ok:
  assumes inv: "ino_inv {w} c L" and w: "w \<in> set (wl_mem L)" "wd = wl_wd (wlists L w)"
    and h: "h \<in> set (handle_queue L)" "htype (handles L h) = UV_FS_EVENT" "\<not> uv__is_active L h"
  shows "\<exists>M. fs_event_link w h cb wd L = Some M \<and> ino_inv {} c M \<and> ino_frame L M \<and> (\<forall>x. watching M x \<longleftrightarrow> watching L x \<or> x = h)"
proof -
  obtain i n where s: "uv__handle_start h L = L\<lparr>handles := i, active_handles := n\<rparr>" using handle_start_shape by blast
  define M where "M = (wl_put w (\<lambda>x. x\<lparr>wl_watchers := wl_watchers x @ [h]\<rparr>) (uv__handle_start h L))
    \<lparr>fe_list := (fe_list L)(h := Some w), fe_cb := (fe_cb L)(h := cb), fe_wd := (fe_wd L)(h := wd)\<rparr>"
  have "fs_event_link w h cb wd L = Some M"
    using w(1) by (simp add: fs_event_link_def wl_get_def M_def wl_put_def s)
  moreover have hf: "hflags M = hflags (uv__handle_start h L)" "handles M = handles (uv__handle_start h L)"
    by (simp_all add: M_def wl_put_def hflags_def fun_eq_iff)
  then have act: "uv__is_active M x \<longleftrightarrow> x = h \<or> uv__is_active L x" "uv__is_closing M x \<longleftrightarrow> uv__is_closing L x"
    "htype (handles M x) = htype (handles L x)" for x
    using handle_start_sel(1,3,6) [where a = h and L = L and b = x] by (simp_all add: uv__is_active_def uv__is_closing_def)
  have f: "wl_watchers (wlists M v) = wl_watchers (wlists L v) @ (if v = w then [h] else [])" "iterating (wlists M v) = iterating (wlists L v)"
    "wl_wd (wlists M v) = wl_wd (wlists L v)" "ino_queue M = ino_queue L" "fe_list M = (fe_list L)(h := Some w)"
    "fe_wd M = (fe_wd L)(h := wd)" "ino_tree M = ino_tree L" "wl_mem M = wl_mem L" "handle_queue M = handle_queue L"
    "closing_handles M = closing_handles L" for v
    by (simp_all add: M_def wl_put_def s)
  have wat: "watching M x \<longleftrightarrow> watching L x \<or> x = h" for x using h by (auto simp: watching_def f act)
  have nw: "\<not> watching L h" using h(3) by (simp add: watching_def)
  have "list_inv c M v" if v: "v \<in> set (wl_mem L)" for v
  proof -
    have i: "list_inv c L v" using inv v by (simp add: ino_inv_def)
    then have "h \<notin> set (queue_of c L v)" using nw by (auto simp: list_inv_def)
    then show ?thesis using i nw by (cases "v = w") (auto simp: list_inv_def queue_of_def f wat)
  qed
  moreover have "handle_ok M x" if "watching M x" for x
  proof (cases "x = h")
    case True
    then show ?thesis using w by (auto simp: handle_ok_def f)
  next
    case False
    then have "handle_ok L x" using that inv by (simp add: wat ino_inv_def)
    then show ?thesis using False by (auto simp: handle_ok_def f act)
  qed
  ultimately have "ino_inv {} c M" using inv by (auto simp: ino_inv_def f split: option.splits)
  moreover have "ino_frame L M" by (simp add: ino_frame_def f act hf handle_flags_frame)
  ultimately show ?thesis using \<open>fs_event_link w h cb wd L = Some M\<close> wat by blast
qed

lemma new_list_ok:
  fixes path :: string
  assumes inv: "ino_inv {} c L" and w: "w \<notin> set (wl_mem L)" and wd: "\<forall>v \<in> set (wl_mem L). wl_wd (wlists L v) \<noteq> wd"
  defines "N \<equiv> L\<lparr>wl_mem := wl_mem L @ [w], wlists := (wlists L)(w := \<lparr>wl_watchers = [], iterating = False, wl_path = path, wl_wd = wd\<rparr>)\<rparr>"
  shows "ino_inv {w} c (wl_insert w N)" "ino_frame L (wl_insert w N)" "w \<in> set (wl_mem (wl_insert w N))"
    "wl_wd (wlists (wl_insert w N) w) = wd" "handles (wl_insert w N) = handles L"
proof -
  define M where "M = wl_insert w N"
  have t: "set (ino_tree L) = set (wl_mem L)" "distinct (ino_tree L)" using inv by (simp_all add: ino_inv_def)
  have "\<not> (\<exists>v \<in> set (ino_tree N). compare_watchers (wl_wd (wlists N w)) (wl_wd (wlists N v)) = 0)"
    using wd w t(1) by (auto simp: N_def compare_watchers_def)
  then obtain P where P: "M = N\<lparr>ino_tree := takeWhile P (ino_tree N) @ w # dropWhile P (ino_tree N)\<rparr>"
    by (simp add: M_def wl_insert_def Let_def)
  have tn: "ino_tree N = ino_tree L" by (simp add: N_def)
  have st: "set (takeWhile P (ino_tree L)) \<union> set (dropWhile P (ino_tree L)) = set (wl_mem L)"
    using t(1) by (metis set_append takeWhile_dropWhile_id)
  have "distinct (takeWhile P (ino_tree L) @ dropWhile P (ino_tree L))" using t(2) by simp
  then have "set (takeWhile P (ino_tree L)) \<inter> set (dropWhile P (ino_tree L)) = {}" by (simp only: distinct_append)
  then have tree: "distinct (ino_tree M)" "set (ino_tree M) = insert w (set (wl_mem L))"
    using st w t(2) by (auto simp: P tn)
  have f: "wl_mem M = wl_mem L @ [w]" "wlists M = (wlists L)(w := \<lparr>wl_watchers = [], iterating = False, wl_path = path, wl_wd = wd\<rparr>)"
    "ino_queue M = ino_queue L" "fe_list M = fe_list L" "fe_wd M = fe_wd L" "handle_queue M = handle_queue L" "handles M = handles L"
    "closing_handles M = closing_handles L" by (simp_all add: P N_def)
  have wat: "watching M = watching L" "uv__is_closing M = uv__is_closing L" "hflags M = hflags L"
    by (simp_all add: fun_eq_iff watching_def uv__is_active_def uv__is_closing_def hflags_def f)
  have cw: "c \<noteq> Some w" using inv w by (auto simp: ino_inv_def)
  have now: "\<not> (watching L h \<and> fe_list L h = Some w)" for h using inv w by (auto simp: ino_inv_def handle_ok_def)
  have "list_inv c M v" if "v \<in> set (wl_mem M)" for v
  proof (cases "v = w")
    case True
    then show ?thesis using now cw by (auto simp: list_inv_def queue_of_def f wat)
  next
    case False
    then have "list_inv c L v" using that inv by (simp add: f ino_inv_def)
    then show ?thesis using False by (auto simp: list_inv_def queue_of_def f wat)
  qed
  moreover have "handle_ok M x" if "watching L x" for x
  proof -
    have "handle_ok L x" using inv that by (simp add: ino_inv_def)
    then show ?thesis using w by (auto simp: handle_ok_def f wat)
  qed
  moreover have "inj_on (\<lambda>v. wl_wd (wlists M v)) (set (wl_mem M))"
    using inv w wd by (auto simp: ino_inv_def inj_on_def f)
  moreover have "wl_watchers (wlists M v) \<noteq> []" if "v \<in> set (wl_mem M) - {w}" "c \<noteq> Some v" for v
    using that inv by (auto simp: ino_inv_def f)
  ultimately show "ino_inv {w} c (wl_insert w N)"
    using inv tree by (auto simp: ino_inv_def f wat simp flip: M_def split: option.splits)
  show "ino_frame L (wl_insert w N)" "w \<in> set (wl_mem (wl_insert w N))" "wl_wd (wlists (wl_insert w N) w) = wd" "handles (wl_insert w N) = handles L"
    by (simp_all add: ino_frame_def f wat flip: M_def)
qed

lemma closing_flags: "uv__is_closing L a \<longleftrightarrow> has_flag (hflags L a) UV_CLOSING \<or> has_flag (hflags L a) UV_CLOSED"
  using has_flag_or_mask [of "hflags L a" UV_CLOSING UV_CLOSED] by (simp add: uv__is_closing_def)

lemma frame_closing: "ino_frame L M \<Longrightarrow> uv__is_closing M x \<longleftrightarrow> uv__is_closing L x"
  by (simp add: ino_frame_def closing_flags)

definition fse_inv :: "ptr \<Rightarrow> ('k, 'a) inoloop_scheme \<Rightarrow> bool" where
  "fse_inv c L \<longleftrightarrow> ino_inv {} c L \<and> open_inv L"

lemma same_lists:
  assumes "ino_tree M = ino_tree L" "wl_mem M = wl_mem L" "wlists M = wlists L" "ino_queue M = ino_queue L" "fe_list M = fe_list L"
    "fe_wd M = fe_wd L" "handle_queue M = handle_queue L" "handles M = handles L"
  shows "ino_inv X c M \<longleftrightarrow> ino_inv X c L" "watching M x \<longleftrightarrow> watching L x" "uv__is_active M x \<longleftrightarrow> uv__is_active L x"
    "uv__is_closing M x \<longleftrightarrow> uv__is_closing L x"
  using ino_inv_cong [OF assms] by (simp_all add: watching_def uv__is_active_def uv__is_closing_def hflags_def assms)

lemma fs_event_start_ok:
  assumes inv: "fse_inv c L" and h: "h \<in> set (handle_queue L)" "htype (handles L h) = UV_FS_EVENT" "\<not> uv__is_closing L h"
    and mem: "\<forall>w. mem = Some w \<longrightarrow> w \<notin> set (wl_mem L)" and ok: "init_inotify K r L \<noteq> None"
  shows "\<exists>e M. uv_fs_event_start K r mem h cb path L = Some (e, M) \<and> fse_inv c M \<and> length (ino_queue M) \<le> length (ino_queue L)"
proof (cases "uv__is_active L h")
  case True
  then show ?thesis using inv by (simp add: uv_fs_event_start_def)
next
  case False
  obtain e N where N: "init_inotify K r L = Some (e, N)" using ok by auto
  then obtain fd i ws nw n q k where N': "N = L\<lparr>inotify_fd := fd, ios := i, watchers := ws, nwatchers := nw, nfds := n, watcher_queue := q, kern := k\<rparr>"
    using init_inotify_shape by blast
  define ev where "ev = UV__IN_ATTRIB OR UV__IN_CREATE OR UV__IN_MODIFY OR UV__IN_DELETE OR UV__IN_DELETE_SELF OR UV__IN_MOVE_SELF
                       OR UV__IN_MOVED_FROM OR UV__IN_MOVED_TO"
  obtain wd k2 where wd: "sys_inotify_add_watch K (inotify_fd N) path ev (kern N) = (wd, k2)" by fastforce
  define P where "P = N\<lparr>kern := k2\<rparr>"
  have same: "ino_tree P = ino_tree L" "wl_mem P = wl_mem L" "wlists P = wlists L" "ino_queue P = ino_queue L" "fe_list P = fe_list L"
    "fe_wd P = fe_wd L" "handle_queue P = handle_queue L" "handles P = handles L" by (simp_all add: P_def N')
  have sameN: "ino_tree N = ino_tree L" "wl_mem N = wl_mem L" "wlists N = wlists L" "ino_queue N = ino_queue L" "fe_list N = fe_list L"
    "fe_wd N = fe_wd L" "handle_queue N = handle_queue L" "handles N = handles L" by (simp_all add: N')
  have invN: "fse_inv c N" using inv by (simp add: fse_inv_def open_inv_def same_lists [OF sameN])
  have invP: "ino_inv {} c P" "open_inv P" using inv by (simp_all add: fse_inv_def open_inv_def same_lists [OF same])
  have hP: "h \<in> set (handle_queue P)" "htype (handles P h) = UV_FS_EVENT" "\<not> uv__is_active P h" "\<not> uv__is_closing P h"
    using h False by (simp_all add: same same_lists [OF same])
  obtain p where p: "find_watcher P wd = Some p" "\<And>w. p = Some w \<Longrightarrow> w \<in> set (wl_mem P) \<and> wl_wd (wlists P w) = wd"
    "p = None \<Longrightarrow> \<forall>w \<in> set (wl_mem P). wl_wd (wlists P w) \<noteq> wd" using find_watcher_ok [OF invP(1)] by blast
  have run: "uv_fs_event_start K r mem h cb path L = (if e \<noteq> 0 then Some (e, N) else if wd < 0 then Some (wd, P)
      else case p of
             Some w \<Rightarrow> map_option (Pair 0) (fs_event_link w h cb wd P)
           | None \<Rightarrow> (case mem of None \<Rightarrow> Some (- INO_ENOMEM, P)
               | Some w \<Rightarrow> map_option (Pair 0) (fs_event_link w h cb wd (wl_insert w (P\<lparr>wl_mem := wl_mem P @ [w],
                    wlists := (wlists P)(w := \<lparr>wl_watchers = [], iterating = False, wl_path = path, wl_wd = wd\<rparr>)\<rparr>)))))"
    using False N wd p(1) unfolding uv_fs_event_start_def ev_def call_sys_def Let_def P_def by (simp split: option.splits)
  have linked: "\<exists>e M. map_option (Pair (0 :: int)) (fs_event_link w h cb wd Q) = Some (e, M) \<and> fse_inv c M \<and>
      length (ino_queue M) \<le> length (ino_queue L)"
    if Q: "ino_inv {w} c Q" "ino_frame P Q" "handles Q = handles P" "w \<in> set (wl_mem Q)" "wd = wl_wd (wlists Q w)" for w Q
  proof -
    have q: "h \<in> set (handle_queue Q)" "htype (handles Q h) = UV_FS_EVENT" "\<not> uv__is_active Q h" "\<And>x. watching Q x \<longleftrightarrow> watching P x"
      using hP Q(2,3) by (simp_all add: ino_frame_def uv__is_active_def hflags_def watching_def)
    obtain M where M: "fs_event_link w h cb wd Q = Some M" "ino_inv {} c M" "ino_frame Q M" "\<And>x. watching M x \<longleftrightarrow> watching Q x \<or> x = h"
      using fs_event_link_ok [OF Q(1,4,5) q(1-3)] by blast
    have "open_inv M"
      using invP(2) hP(4) by (auto simp: open_inv_def M(4) q(4) frame_closing [OF M(3)] frame_closing [OF Q(2)])
    moreover have "length (ino_queue M) \<le> length (ino_queue L)"
      using ino_frame_trans [OF Q(2) M(3)] by (simp add: ino_frame_def same)
    ultimately show ?thesis using M by (simp add: fse_inv_def)
  qed
  consider "e \<noteq> 0 \<or> wd < 0" | w where "e = 0" "wd \<ge> 0" "p = Some w" | "e = 0" "wd \<ge> 0" "p = None" "mem = None"
    | w where "e = 0" "wd \<ge> 0" "p = None" "mem = Some w" by (cases p; cases mem; fastforce)
  then show ?thesis
  proof cases
    case 1
    then show ?thesis using run invN invP by (auto simp: fse_inv_def same sameN)
  next
    case 2
    have "ino_inv {w} c P" using invP(1) by (auto simp: ino_inv_def)
    then show ?thesis using linked [of w P] p(2) [OF 2(3)] run 2 by simp
  next
    case 3
    then show ?thesis using run invP by (simp add: fse_inv_def same)
  next
    case 4
    have "w \<notin> set (wl_mem P)" using mem 4(4) by (simp add: same)
    note n = new_list_ok [OF invP(1) this p(3) [OF 4(3)], of path]
    show ?thesis using linked [OF n(1,2,5,3) n(4) [symmetric]] run 4 by simp
  qed
qed

lemma fs_event_init_ok:
  assumes inv: "fse_inv c L" and h: "h \<notin> set (handle_queue L)"
  shows "fse_inv c (uv__handle_init h UV_FS_EVENT L)"
proof -
  let ?M = "uv__handle_init h UV_FS_EVENT L"
  have f: "hflags ?M x = (if x = h then UV__HANDLE_REF else hflags L x)" "htype (handles ?M x) = (if x = h then UV_FS_EVENT else htype (handles L x))"
    "handle_queue ?M = handle_queue L @ [h]" for x by (simp_all add: uv__handle_init_def hflags_def)
  have w: "watching ?M x \<longleftrightarrow> watching L x" for x using h by (auto simp: watching_def f uv__is_active_def)
  have c: "uv__is_closing ?M x \<longleftrightarrow> uv__is_closing L x" if "watching L x" for x
    using h that by (auto simp: watching_def uv__is_closing_def f)
  have s: "ino_tree ?M = ino_tree L" "wl_mem ?M = wl_mem L" "wlists ?M = wlists L" "ino_queue ?M = ino_queue L" "fe_list ?M = fe_list L"
    "fe_wd ?M = fe_wd L" by (simp_all add: uv__handle_init_def)
  have "list_inv c ?M = list_inv c L" "handle_ok ?M = handle_ok L"
    by (simp_all add: fun_eq_iff list_inv_def handle_ok_def queue_of_def s w)
  then show ?thesis using inv c unfolding fse_inv_def ino_inv_def open_inv_def by (cases c) (simp_all add: s w)
qed

text \<open>Closing and finishing.\<close>

lemma set_flags_inv:
  assumes "has_flag f UV__HANDLE_ACTIVE \<longleftrightarrow> uv__is_active L h"
  shows "ino_inv X c (set_flags h f L) \<longleftrightarrow> ino_inv X c L" "watching (set_flags h f L) x \<longleftrightarrow> watching L x"
proof -
  let ?M = "set_flags h f L"
  have w: "watching ?M x \<longleftrightarrow> watching L x" for x
    using assms by (auto simp: watching_def set_flags_def uv__is_active_def hflags_def)
  have s: "ino_tree ?M = ino_tree L" "wl_mem ?M = wl_mem L" "wlists ?M = wlists L" "ino_queue ?M = ino_queue L" "fe_list ?M = fe_list L"
    "fe_wd ?M = fe_wd L" by (simp_all add: set_flags_def)
  have "list_inv c ?M = list_inv c L" "handle_ok ?M = handle_ok L"
    by (simp_all add: fun_eq_iff list_inv_def handle_ok_def queue_of_def s w)
  then show "ino_inv X c ?M \<longleftrightarrow> ino_inv X c L" unfolding ino_inv_def by (cases c) (simp_all add: s w)
  show "watching ?M x \<longleftrightarrow> watching L x" by (rule w)
qed

lemma fs_event_close_ok:
  assumes inv: "fse_inv c L" and h: "h \<in> set (handle_queue L)" "htype (handles L h) = UV_FS_EVENT" "\<not> uv__is_closing L h"
  shows "\<exists>M. uv_close K (ino_other K' other) h cb L = Some M \<and> fse_inv c M \<and> length (ino_queue M) \<le> length (ino_queue L)"
proof -
  define C where "C = (set_flags h (add_flag (hflags L h) UV_CLOSING) L)\<lparr>close_cb := (close_cb L)(h := cb)\<rparr>"
  have fl: "hflags C x = (if x = h then add_flag (hflags L h) UV_CLOSING else hflags L x)" "htype (handles C x) = htype (handles L x)"
    "handle_queue C = handle_queue L" for x
    by (simp_all add: C_def set_flags_def hflags_def)
  have act: "has_flag (add_flag (hflags L h) UV_CLOSING) UV__HANDLE_ACTIVE \<longleftrightarrow> uv__is_active L h" by (simp add: uv__is_active_def)
  have iC: "ino_inv X c C \<longleftrightarrow> ino_inv X c L" "watching C x \<longleftrightarrow> watching L x" for X x
    using same_lists [of C "set_flags h (add_flag (hflags L h) UV_CLOSING) L"] set_flags_inv [OF act] by (simp_all add: C_def)
  obtain M where M: "uv_fs_event_stop K' h C = Some (0, M)" "ino_inv {} c M" "ino_frame C M" "\<not> uv__is_active M h"
    "\<forall>x. watching M x \<longleftrightarrow> watching C x \<and> x \<noteq> h"
    using fs_event_stop_ok [of c C h K'] inv iC(1) h fl by (auto simp: fse_inv_def)
  have mf: "has_flag (hflags M h) UV_CLOSING" "\<not> has_flag (hflags M h) UV_CLOSED"
    using M(3) h(3) fl(1) [of h] by (simp_all add: ino_frame_def closing_flags)
  define N where "N = M\<lparr>handles := (handles M)(h := (handles M h)\<lparr>next_closing := closing_handles M\<rparr>), closing_handles := Some h\<rparr>"
  have "set_flags h (add_flag (hflags L h) UV_CLOSING) L\<lparr>close_cb := (close_cb (set_flags h (add_flag (hflags L h) UV_CLOSING) L))(h := cb)\<rparr> = C"
    by (simp add: C_def set_flags_def)
  then have "uv_close K (ino_other K' other) h cb L = uv__make_close_pending h M"
    using h M(1) fl(2) [of h] by (simp add: uv_close_def close_type_def ino_other_def uv__fs_event_close_def Let_def)
  also have "\<dots> = Some N" using mf by (simp add: uv__make_close_pending_def N_def)
  finally have run: "uv_close K (ino_other K' other) h cb L = Some N" .
  have n: "hflags N = hflags M" "watching N = watching M"
    by (simp_all add: N_def hflags_def watching_def uv__is_active_def fun_eq_iff)
  have s: "ino_tree N = ino_tree M" "wl_mem N = wl_mem M" "wlists N = wlists M" "ino_queue N = ino_queue M" "fe_list N = fe_list M"
    "fe_wd N = fe_wd M" by (simp_all add: N_def)
  have "list_inv c N = list_inv c M" "handle_ok N = handle_ok M"
    by (simp_all add: fun_eq_iff list_inv_def handle_ok_def queue_of_def s n)
  then have "ino_inv {} c N" using M(2) unfolding ino_inv_def by (cases c) (simp_all add: s n)
  moreover have "open_inv N"
  proof -
    have "\<not> uv__is_closing N x" if "watching N x" for x
    proof -
      have x: "watching L x" "x \<noteq> h" using that M(5) iC(2) by (simp_all add: n)
      then have "\<not> uv__is_closing L x" using inv by (simp add: fse_inv_def open_inv_def)
      then have "\<not> uv__is_closing C x" using x(2) by (simp add: uv__is_closing_def fl)
      then show ?thesis using frame_closing [OF M(3)] by (simp add: uv__is_closing_def n)
    qed
    then show ?thesis by (simp add: open_inv_def)
  qed
  moreover have "length (ino_queue N) \<le> length (ino_queue L)"
    using M(3) by (simp add: ino_frame_def N_def C_def set_flags_def)
  ultimately show ?thesis using run by (simp add: fse_inv_def)
qed

lemma ino_do_ok:
  assumes "fse_inv c L" and "ino_ok K r p L"
  shows "\<exists>M. ino_do K r other p L = Some M \<and> fse_inv c M \<and> length (ino_queue M) \<le> length (ino_queue L)"
proof (cases p)
  case (Ino_init h)
  then show ?thesis using assms fs_event_init_ok by (auto simp: ino_do_def ino_ok_def uv_fs_event_init_def) (simp add: uv__handle_init_def)
next
  case (Ino_start h cb path mem)
  then show ?thesis using fs_event_start_ok [OF assms(1), of h mem K r cb path] assms(2) by (auto simp: ino_do_def ino_ok_def)
next
  case (Ino_stop h)
  have h: "h \<in> set (handle_queue L)" "htype (handles L h) = UV_FS_EVENT" using assms(2) Ino_stop by (simp_all add: ino_ok_def)
  have i: "ino_inv {} c L" "open_inv L" using assms(1) by (simp_all add: fse_inv_def)
  obtain M where M: "uv_fs_event_stop K h L = Some (0, M)" "ino_inv {} c M" "ino_frame L M" "\<forall>x. watching M x \<longleftrightarrow> watching L x \<and> x \<noteq> h"
    using fs_event_stop_ok [OF i(1) h] by blast
  then have "open_inv M" using i(2) by (simp add: open_inv_def frame_closing [OF M(3)])
  then show ?thesis using M Ino_stop by (simp add: ino_do_def fse_inv_def ino_frame_def)
next
  case (Ino_close h cb)
  then show ?thesis using fs_event_close_ok [OF assms(1), of h K K other cb] assms(2) by (auto simp: ino_do_def ino_ok_def)
qed

lemma ino_ops_ok: "fse_inv c L \<Longrightarrow> \<exists>M. ino_ops K r other ps L = Some M \<and> fse_inv c M \<and> length (ino_queue M) \<le> length (ino_queue L)"
proof (induction ps arbitrary: L)
  case (Cons p ps)
  show ?case
  proof (cases "ino_ok K r p L")
    case True
    then obtain N where N: "ino_do K r other p L = Some N" "fse_inv c N" "length (ino_queue N) \<le> length (ino_queue L)"
      using ino_do_ok [OF Cons.prems] by blast
    then show ?thesis using Cons.IH [OF N(2)] True by auto
  qed (use Cons.prems in simp)
qed simp

text \<open>Calling the handles of one list.\<close>

lemma call_step_inv:
  assumes inv: "fse_inv (Some w) L" and q: "ino_queue L = h # hs"
  shows "fse_inv (Some w) (wl_put w (\<lambda>x. x\<lparr>wl_watchers := wl_watchers x @ [h]\<rparr>) (L\<lparr>ino_queue := hs\<rparr>))"
proof -
  let ?M = "wl_put w (\<lambda>x. x\<lparr>wl_watchers := wl_watchers x @ [h]\<rparr>) (L\<lparr>ino_queue := hs\<rparr>)"
  have f: "wl_watchers (wlists ?M v) = wl_watchers (wlists L v) @ (if v = w then [h] else [])" "iterating (wlists ?M v) = iterating (wlists L v)"
    "wl_wd (wlists ?M v) = wl_wd (wlists L v)" "ino_queue ?M = hs" "fe_list ?M = fe_list L" "fe_wd ?M = fe_wd L" "ino_tree ?M = ino_tree L"
    "wl_mem ?M = wl_mem L" for v by (simp_all add: wl_put_def)
  have w: "watching ?M = watching L" "uv__is_closing ?M = uv__is_closing L"
    by (simp_all add: fun_eq_iff watching_def uv__is_active_def uv__is_closing_def hflags_def wl_put_def)
  have "list_inv (Some w) ?M v \<longleftrightarrow> list_inv (Some w) L v" for v
  proof (cases "w = v")
    case True
    then have "queue_of (Some w) L v = wl_watchers (wlists L v) @ h # hs"
      "queue_of (Some w) ?M v = (wl_watchers (wlists L v) @ [h]) @ hs" using f by (simp_all add: queue_of_def q)
    then show ?thesis using f(2) by (simp add: list_inv_def w f(5))
  next
    case False
    then have "queue_of (Some w) ?M v = queue_of (Some w) L v" using f(1) by (simp add: queue_of_def)
    then show ?thesis using f(2) by (simp add: list_inv_def w f(5))
  qed
  moreover have "handle_ok ?M = handle_ok L" by (simp add: fun_eq_iff handle_ok_def f)
  ultimately show ?thesis using inv unfolding fse_inv_def ino_inv_def open_inv_def w f by auto
qed

lemma inotify_call_ok:
  assumes "fse_inv (Some w) L"
    and "\<And>L h. fse_inv (Some w) L \<Longrightarrow>
      \<exists>M. user (fe_cb L h) h path e L = Some M \<and> fse_inv (Some w) M \<and> length (ino_queue M) \<le> length (ino_queue L)"
  shows "\<exists>M. inotify_call user w path e L = Some M \<and> fse_inv (Some w) M \<and> ino_queue M = []"
  using assms(1)
proof (induction "length (ino_queue L)" arbitrary: L rule: less_induct)
  case less
  show ?case
  proof (cases "ino_queue L")
    case Nil
    then show ?thesis using less.prems by (simp add: inotify_call.simps)
  next
    case (Cons h hs)
    define N where "N = wl_put w (\<lambda>x. x\<lparr>wl_watchers := wl_watchers x @ [h]\<rparr>) (L\<lparr>ino_queue := hs\<rparr>)"
    have N: "fse_inv (Some w) N" unfolding N_def by (rule call_step_inv [OF less.prems Cons])
    have m: "w \<in> set (wl_mem L)" using less.prems by (simp add: fse_inv_def ino_inv_def)
    obtain P where P: "user (fe_cb N h) h path e N = Some P" "fse_inv (Some w) P" "length (ino_queue P) \<le> length (ino_queue N)"
      using assms(2) [OF N] by blast
    have "length (ino_queue P) < length (ino_queue L)" using P(3) Cons by (simp add: N_def wl_put_def)
    then obtain M where "inotify_call user w path e P = Some M" "fse_inv (Some w) M" "ino_queue M = []"
      using less.hyps [OF _ P(2)] by blast
    moreover have "inotify_call user w path e L = inotify_call user w path e P"
      using Cons m P(1) by (subst inotify_call.simps) (simp add: wl_get_def flip: N_def)
    ultimately show ?thesis by simp
  qed
qed

definition user_ok :: "(nat \<Rightarrow> addr \<Rightarrow> string \<Rightarrow> u32 \<Rightarrow> ('k, 'a) inoloop_scheme \<Rightarrow> ('k, 'a) inoloop_scheme option) \<Rightarrow> bool" where
  "user_ok user \<longleftrightarrow> (\<forall>cb h path e c L. fse_inv c L \<longrightarrow>
     (\<exists>M. user cb h path e L = Some M \<and> fse_inv c M \<and> length (ino_queue M) \<le> length (ino_queue L)))"

lemma iterate_begin:
  assumes inv: "fse_inv None L" and w: "w \<in> set (wl_mem L)"
  shows "fse_inv (Some w) (wl_put w (\<lambda>x. x\<lparr>iterating := True, wl_watchers := []\<rparr>) (L\<lparr>ino_queue := wl_watchers (wlists L w)\<rparr>))"
proof -
  let ?M = "wl_put w (\<lambda>x. x\<lparr>iterating := True, wl_watchers := []\<rparr>) (L\<lparr>ino_queue := wl_watchers (wlists L w)\<rparr>)"
  have f: "wl_watchers (wlists ?M v) = (if v = w then [] else wl_watchers (wlists L v))" "iterating (wlists ?M v) \<longleftrightarrow> v = w \<or> iterating (wlists L v)"
    "wl_wd (wlists ?M v) = wl_wd (wlists L v)" "ino_queue ?M = wl_watchers (wlists L w)" "fe_list ?M = fe_list L" "fe_wd ?M = fe_wd L"
    "ino_tree ?M = ino_tree L" "wl_mem ?M = wl_mem L" for v by (simp_all add: wl_put_def)
  have wt: "watching ?M = watching L" "uv__is_closing ?M = uv__is_closing L"
    by (simp_all add: fun_eq_iff watching_def uv__is_active_def uv__is_closing_def hflags_def wl_put_def)
  have q: "queue_of (Some w) ?M v = queue_of None L v" for v unfolding queue_of_def f(1,4) by simp
  have "list_inv (Some w) ?M v" if "v \<in> set (wl_mem L)" for v
    using inv that f(2) by (auto simp: fse_inv_def ino_inv_def list_inv_def q wt f(5))
  moreover have "handle_ok ?M = handle_ok L" by (simp add: fun_eq_iff handle_ok_def f)
  moreover have "wl_watchers (wlists ?M v) \<noteq> []" if "v \<in> set (wl_mem L)" "v \<noteq> w" for v
    using inv that f(1) by (simp add: fse_inv_def ino_inv_def)
  ultimately show ?thesis using inv w unfolding fse_inv_def ino_inv_def open_inv_def wt f(3,7,8) by auto
qed

lemma iterate_end:
  assumes inv: "fse_inv (Some w) L" and q: "ino_queue L = []"
  shows "ino_inv {w} None (wl_put w (\<lambda>x. x\<lparr>iterating := False\<rparr>) L)" "open_inv (wl_put w (\<lambda>x. x\<lparr>iterating := False\<rparr>) L)"
proof -
  let ?M = "wl_put w (\<lambda>x. x\<lparr>iterating := False\<rparr>) L"
  have f: "wl_watchers (wlists ?M v) = wl_watchers (wlists L v)" "iterating (wlists ?M v) \<longleftrightarrow> v \<noteq> w \<and> iterating (wlists L v)"
    "wl_wd (wlists ?M v) = wl_wd (wlists L v)" "ino_queue ?M = []" "fe_list ?M = fe_list L" "fe_wd ?M = fe_wd L"
    "ino_tree ?M = ino_tree L" "wl_mem ?M = wl_mem L" for v by (simp_all add: wl_put_def q)
  have wt: "watching ?M = watching L" "uv__is_closing ?M = uv__is_closing L"
    by (simp_all add: fun_eq_iff watching_def uv__is_active_def uv__is_closing_def hflags_def wl_put_def)
  have qu: "queue_of None ?M v = queue_of (Some w) L v" for v unfolding queue_of_def f(1) by (simp add: q)
  have "list_inv None ?M v" if "v \<in> set (wl_mem L)" for v
    using inv that f(2) by (auto simp: fse_inv_def ino_inv_def list_inv_def qu wt f(5))
  moreover have "handle_ok ?M = handle_ok L" by (simp add: fun_eq_iff handle_ok_def f)
  ultimately show "ino_inv {w} None ?M" using inv unfolding fse_inv_def ino_inv_def wt f(1,3,4,7,8) by auto
  show "open_inv ?M" using inv by (simp add: fse_inv_def open_inv_def wt)
qed

lemma inotify_dispatch_ok:
  assumes inv: "fse_inv None L"
    and user: "user_ok user"
  shows "\<exists>M. inotify_dispatch K user e L = Some M \<and> fse_inv None M"
proof -
  have i: "ino_inv {} None L" using inv by (simp add: fse_inv_def)
  obtain p where p: "find_watcher L (ie_wd e) = Some p" "\<And>w. p = Some w \<Longrightarrow> w \<in> set (wl_mem L) \<and> wl_wd (wlists L w) = ie_wd e"
    using find_watcher_ok [OF i] by blast
  show ?thesis
  proof (cases p)
    case None
    then show ?thesis using p(1) inv by (simp add: inotify_dispatch_def)
  next
    case (Some w)
    have w: "w \<in> set (wl_mem L)" using p(2) Some by simp
    let ?path = "if ie_name e \<noteq> [] then ie_name e else uv__basename_r (wl_path (wlists L w))"
    define B where "B = wl_put w (\<lambda>x. x\<lparr>iterating := True, wl_watchers := []\<rparr>) (L\<lparr>ino_queue := wl_watchers (wlists L w)\<rparr>)"
    have B: "fse_inv (Some w) B" unfolding B_def by (rule iterate_begin [OF inv w])
    obtain C where C: "inotify_call user w ?path (event_flags (ie_mask e)) B = Some C" "fse_inv (Some w) C" "ino_queue C = []"
      using inotify_call_ok [OF B, of user ?path "event_flags (ie_mask e)"] user unfolding user_ok_def by blast
    define D where "D = wl_put w (\<lambda>x. x\<lparr>iterating := False\<rparr>) C"
    have D: "ino_inv {w} None D" "open_inv D" using iterate_end [OF C(2,3)] by (simp_all add: D_def)
    have m: "w \<in> set (wl_mem C)" "w \<in> set (wl_mem D)" using C(2) by (simp_all add: fse_inv_def ino_inv_def D_def wl_put_def)
    obtain M where M: "maybe_free_watcher_list K w D = Some M" "ino_inv {} None M" "ino_frame D M" "handles M = handles D"
      using maybe_free_ok [OF D(1) m(2)] by blast
    have "open_inv M"
      using D(2) M(3,4) by (simp add: open_inv_def frame_closing [OF M(3)] watching_def uv__is_active_def hflags_def ino_frame_def)
    moreover have "inotify_dispatch K user e L = Some M"
      using p(1) Some w C(1) m(1) M(1) by (simp add: inotify_dispatch_def wl_get_def Let_def D_def flip: B_def)
    ultimately show ?thesis using M(2) by (simp add: fse_inv_def)
  qed
qed

lemma inotify_events_ok:
  assumes "fse_inv None L"
    and "user_ok user"
  shows "\<exists>M. inotify_events K user es L = Some M \<and> fse_inv None M"
  using assms(1)
proof (induction es arbitrary: L)
  case (Cons e es)
  obtain N where "inotify_dispatch K user e L = Some N" "fse_inv None N"
    using inotify_dispatch_ok [OF Cons.prems assms(2)] by blast
  then show ?case using Cons.IH by simp
qed simp

lemma ino_finish_ok:
  assumes inv: "fse_inv None L" and h: "htype (handles L h) = UV_FS_EVENT" "has_flag (hflags L h) UV_CLOSING" "\<not> has_flag (hflags L h) UV_CLOSED"
  shows "\<exists>M. uv__finish_close other (\<lambda>cb h. ino_ops K r other' ps) h L = Some M \<and> fse_inv None M"
proof -
  have nw: "\<not> watching L h" using inv h(2) by (auto simp: fse_inv_def open_inv_def closing_flags)
  define F where "F = set_flags h (add_flag (hflags L h) UV_CLOSED) L"
  have act: "has_flag (add_flag (hflags L h) UV_CLOSED) UV__HANDLE_ACTIVE \<longleftrightarrow> uv__is_active L h" by (simp add: uv__is_active_def)
  have F: "ino_inv {} None F" "\<And>x. watching F x \<longleftrightarrow> watching L x" "htype (handles F h) = UV_FS_EVENT"
    using set_flags_inv [OF act] inv h(1) by (simp_all add: F_def fse_inv_def set_flags_def)
  have oF: "open_inv F" using inv nw by (auto simp: open_inv_def F(2) fse_inv_def) (auto simp: F_def uv__is_closing_def set_flags_def hflags_def split: if_splits)
  define U where "U = (uv__handle_unref h F)\<lparr>handle_queue := removeAll h (handle_queue (uv__handle_unref h F))\<rparr>"
  obtain i n where u: "uv__handle_unref h F = F\<lparr>handles := i, active_handles := n\<rparr>"
  proof -
    have "uv__handle_unref h F = F\<lparr>handles := handles (uv__handle_unref h F), active_handles := active_handles (uv__handle_unref h F)\<rparr>"
      by (cases F) (simp add: handle_ops_defs set_flags_def)
    then show ?thesis using that by blast
  qed
  have fl: "uv__is_active U x \<longleftrightarrow> uv__is_active F x" "uv__is_closing U x \<longleftrightarrow> uv__is_closing F x" "htype (handles U x) = htype (handles F x)" for x
    by (auto simp: U_def handle_ops_defs uv__is_active_def uv__is_closing_def hflags_def set_flags_def)
  have hq: "handle_queue U = removeAll h (handle_queue F)" by (simp add: U_def u)
  have s: "ino_tree U = ino_tree F" "wl_mem U = wl_mem F" "wlists U = wlists F" "ino_queue U = ino_queue F" "fe_list U = fe_list F"
    "fe_wd U = fe_wd F" by (simp_all add: U_def u)
  have w: "watching U x \<longleftrightarrow> watching F x" for x using nw F(2) by (auto simp: watching_def fl hq)
  have "list_inv None U = list_inv None F" "handle_ok U = handle_ok F"
    by (simp_all add: fun_eq_iff list_inv_def handle_ok_def queue_of_def s w)
  then have "fse_inv None U" using F(1) oF unfolding fse_inv_def ino_inv_def open_inv_def by (simp add: s w fl)
  moreover have "uv__finish_close other (\<lambda>cb h. ino_ops K r other' ps) h L =
      (case close_cb U h of None \<Rightarrow> Some U | Some cb \<Rightarrow> ino_ops K r other' ps U)"
    using h F(3) by (simp add: uv__finish_close_def finish_type_def Let_def U_def cong: option.case_cong flip: F_def)
  ultimately show ?thesis using ino_ops_ok [of None U K r other' ps] by (auto split: option.splits)
qed

text \<open>A loop whose handles watch nothing yet.\<close>

definition ino_fresh :: "('k, 'a) inoloop_scheme \<Rightarrow> bool" where
  "ino_fresh L \<longleftrightarrow> ino_tree L = [] \<and> wl_mem L = [] \<and> ino_queue L = [] \<and> (\<forall>h. \<not> watching L h)"

lemma ino_step_ok:
  assumes inv: "fse_inv None L" and can: "ino_can K r e L"
  shows "\<exists>M. ino_step K r other e L = Some M \<and> fse_inv None M"
proof (cases e)
  case (Ino_api p)
  then show ?thesis using ino_do_ok [OF inv, of K r p other] can by (auto simp: ino_step_def ino_can_def)
next
  case (Ino_batch es prog)
  have "user_ok (ino_user K r other prog)" using ino_ops_ok by (auto simp: user_ok_def ino_user_def)
  then show ?thesis using inotify_events_ok [OF inv] Ino_batch by (simp add: ino_step_def)
next
  case (Ino_finish h ps)
  then show ?thesis using ino_finish_ok [OF inv, of h other K r other ps] can by (simp add: ino_step_def ino_can_def)
qed

lemma ino_reach_inv:
  assumes "ino_reach K r other L0 L" and "ino_fresh L0"
  shows "fse_inv None L"
  using assms
proof (induction rule: ino_reach.induct)
  case start
  then show ?case by (simp add: ino_fresh_def fse_inv_def ino_inv_def open_inv_def)
next
  case (step L e L')
  then have inv: "fse_inv None L" by simp
  show ?case
    using ino_step_ok [OF inv step.hyps(2), of other] step.hyps(3) by auto
qed

section \<open>Safety\<close>

text \<open>C5: whatever the program does with its file watchers, also from the callbacks (stopping or closing the handle called or any other,
  starting new ones on the same path), in whatever order events, calls and the finishing of handles come: no assertion fails, every
  handler returns, and no \<open>watcher_list\<close> is used after it was freed.  Between the handlers the allocated lists are those of the tree,
  none of them is empty (so none is leaked), and a handle is linked into the list its path points into.\<close>

theorem inotify_memory_safe:
  assumes "ino_fresh L0" and "ino_reach K realloc_ok other L0 L" and "ino_can K realloc_ok e L"
  shows "(\<exists>M. ino_step K realloc_ok other e L = Some M) \<and> set (ino_tree L) = set (wl_mem L) \<and>
    (\<forall>w \<in> set (wl_mem L). wl_watchers (wlists L w) \<noteq> []) \<and>
    (\<forall>h. watching L h \<longrightarrow> (\<exists>w \<in> set (wl_mem L). fe_list L h = Some w \<and> h \<in> set (wl_watchers (wlists L w)) \<and> fe_wd L h = wl_wd (wlists L w)))"
proof -
  have inv: "fse_inv None L" by (rule ino_reach_inv [OF assms(2,1)])
  have "\<exists>w \<in> set (wl_mem L). fe_list L h = Some w \<and> h \<in> set (wl_watchers (wlists L w)) \<and> fe_wd L h = wl_wd (wlists L w)" if "watching L h" for h
  proof -
    have ok: "handle_ok L h" using inv that by (simp add: fse_inv_def ino_inv_def)
    obtain w where w: "w \<in> set (wl_mem L)" "fe_list L h = Some w" "fe_wd L h = wl_wd (wlists L w)"
      using ok by (auto simp: handle_ok_def)
    moreover have "h \<in> set (queue_of None L w)" using inv w(1,2) that by (auto simp: fse_inv_def ino_inv_def list_inv_def)
    ultimately show ?thesis by (auto simp: queue_of_def)
  qed
  moreover have "\<exists>M. ino_step K realloc_ok other e L = Some M" using ino_step_ok [OF inv assms(3)] by blast
  ultimately show ?thesis using inv by (simp add: fse_inv_def ino_inv_def)
qed

section \<open>Reporting\<close>

definition records_fs ::
  "(nat \<Rightarrow> addr \<Rightarrow> string \<Rightarrow> u32 \<Rightarrow> ('k, (nat \<times> addr \<times> string \<times> u32) list) inoloop_scheme \<Rightarrow> ('k, (nat \<times> addr \<times> string \<times> u32) list) inoloop_scheme option)
    \<Rightarrow> bool" where
  "records_fs user \<longleftrightarrow> (\<forall>cb h path e L. user cb h path e L = Some (inoloop.more_update (\<lambda>l. l @ [(cb, h, path, e)]) L))"

text \<open>The calls an event asks for.\<close>

definition event_calls :: "('k, 'a) inoloop_scheme \<Rightarrow> inotify_event \<Rightarrow> (nat \<times> addr \<times> string \<times> u32) list" where
  "event_calls L e = (case find (\<lambda>w. wl_wd (wlists L w) = ie_wd e) (ino_tree L) of
       None \<Rightarrow> []
     | Some w \<Rightarrow> map (\<lambda>h. (fe_cb L h, h, if ie_name e \<noteq> [] then ie_name e else uv__basename_r (wl_path (wlists L w)), event_flags (ie_mask e)))
         (wl_watchers (wlists L w)))"

lemma inotify_call_records:
  assumes "records_fs user" and "w \<in> set (wl_mem L)" and "ino_queue L = hs"
  shows "inotify_call user w path e L = Some (inoloop.more_update (\<lambda>l. l @ map (\<lambda>h. (fe_cb L h, h, path, e)) hs)
    (L\<lparr>wlists := (wlists L)(w := (wlists L w)\<lparr>wl_watchers := wl_watchers (wlists L w) @ hs\<rparr>), ino_queue := []\<rparr>))"
  using assms(2,3)
proof (induction hs arbitrary: L)
  case Nil
  then show ?case by (cases L) (simp add: inotify_call.simps)
next
  case (Cons h hs)
  define N where "N = inoloop.more_update (\<lambda>l. l @ [(fe_cb L h, h, path, e)])
    (L\<lparr>ino_queue := hs, wlists := (wlists L)(w := (wlists L w)\<lparr>wl_watchers := wl_watchers (wlists L w) @ [h]\<rparr>)\<rparr>)"
  have "inotify_call user w path e L = inotify_call user w path e N"
    using Cons.prems assms(1) by (subst inotify_call.simps) (simp add: wl_get_def wl_put_def N_def records_fs_def)
  also have "\<dots> = Some (inoloop.more_update (\<lambda>l. l @ map (\<lambda>h. (fe_cb N h, h, path, e)) hs)
    (N\<lparr>wlists := (wlists N)(w := (wlists N w)\<lparr>wl_watchers := wl_watchers (wlists N w) @ hs\<rparr>), ino_queue := []\<rparr>))"
    by (rule Cons.IH) (simp_all add: N_def Cons.prems)
  also have "\<dots> = Some (inoloop.more_update (\<lambda>l. l @ map (\<lambda>h. (fe_cb L h, h, path, e)) (h # hs))
    (L\<lparr>wlists := (wlists L)(w := (wlists L w)\<lparr>wl_watchers := wl_watchers (wlists L w) @ h # hs\<rparr>), ino_queue := []\<rparr>))"
  proof -
    have s: "fe_cb N = fe_cb L" "wlists N = (wlists L)(w := (wlists L w)\<lparr>wl_watchers := wl_watchers (wlists L w) @ [h]\<rparr>)"
      by (simp_all add: N_def)
    have n: "N\<lparr>wlists := z, ino_queue := []\<rparr> = inoloop.more_update (\<lambda>l. l @ [(fe_cb L h, h, path, e)]) (L\<lparr>wlists := z, ino_queue := []\<rparr>)" for z
      by (cases L) (simp add: N_def)
    show ?thesis unfolding n s by (cases L) (simp add: o_def)
  qed
  finally show ?case .
qed

lemma inotify_dispatch_records:
  assumes inv: "fse_inv None L" and user: "records_fs user"
  shows "inotify_dispatch K user e L = Some (inoloop.more_update (\<lambda>l. l @ event_calls L e) L)"
proof -
  have i: "ino_inv {} None L" using inv by (simp add: fse_inv_def)
  have fw: "find_watcher L (ie_wd e) = Some (find (\<lambda>w. wl_wd (wlists L w) = ie_wd e) (ino_tree L))"
  proof -
    have "(\<lambda>w. compare_watchers (ie_wd e) (wl_wd (wlists L w)) = 0) = (\<lambda>w. wl_wd (wlists L w) = ie_wd e)"
      by (auto simp: compare_watchers_def fun_eq_iff)
    then show ?thesis using i by (simp add: find_watcher_def ino_inv_def)
  qed
  show ?thesis
  proof (cases "find (\<lambda>w. wl_wd (wlists L w) = ie_wd e) (ino_tree L)")
    case None
    then show ?thesis using fw by (cases L) (simp add: inotify_dispatch_def event_calls_def)
  next
    case (Some w)
    then have w: "w \<in> set (wl_mem L)" using i by (auto simp: find_Some_iff ino_inv_def dest: nth_mem)
    have nit: "\<not> iterating (wlists L w)" "wl_watchers (wlists L w) \<noteq> []" "ino_queue L = []"
      using i w by (auto simp: ino_inv_def list_inv_def)
    let ?p = "if ie_name e \<noteq> [] then ie_name e else uv__basename_r (wl_path (wlists L w))"
    define B where "B = wl_put w (\<lambda>x. x\<lparr>iterating := True, wl_watchers := []\<rparr>) (L\<lparr>ino_queue := wl_watchers (wlists L w)\<rparr>)"
    have "inotify_call user w ?p (event_flags (ie_mask e)) B = Some (inoloop.more_update (\<lambda>l. l @ event_calls L e)
      (L\<lparr>wlists := (wlists L)(w := (wlists L w)\<lparr>iterating := True\<rparr>), ino_queue := []\<rparr>))"
      using inotify_call_records [OF user, of w B "wl_watchers (wlists L w)" ?p "event_flags (ie_mask e)"] w
      by (simp add: B_def wl_put_def event_calls_def Some)
    moreover have "wlists L w = (wlists L w)\<lparr>iterating := False\<rparr>" using nit(1) by (cases "wlists L w") simp
    then have "(wlists L)(w := (wlists L w)\<lparr>iterating := False\<rparr>) = wlists L" by (simp add: fun_upd_idem_iff)
    moreover have "L\<lparr>wlists := wlists L, ino_queue := []\<rparr> = L" "L\<lparr>ino_queue := [], wlists := wlists L\<rparr> = L" using nit(3) by (cases L; simp)+
    ultimately show ?thesis
      using fw Some w nit unfolding inotify_dispatch_def
      by (simp add: wl_get_def Let_def maybe_free_watcher_list_def wl_put_def[of w "\<lambda>x. x\<lparr>iterating := False\<rparr>"] flip: B_def)
  qed
qed

lemma more_update_inv: "fse_inv c (inoloop.more_update g L) \<longleftrightarrow> fse_inv c L"
proof -
  have s: "ino_inv {} c (inoloop.more_update g L) \<longleftrightarrow> ino_inv {} c L" by (rule same_lists) simp_all
  have "watching (inoloop.more_update g L) = watching L" "uv__is_closing (inoloop.more_update g L) = uv__is_closing L"
    by (simp_all add: fun_eq_iff watching_def uv__is_active_def uv__is_closing_def hflags_def)
  then show ?thesis by (simp add: fse_inv_def open_inv_def s)
qed

lemma event_calls_cong:
  assumes "wlists M = wlists L" "ino_tree M = ino_tree L" "fe_cb M = fe_cb L"
  shows "event_calls M = event_calls L"
  unfolding event_calls_def fun_eq_iff assms by simp

lemma kern_update_inv: "fse_inv c (L\<lparr>kern := k\<rparr>) \<longleftrightarrow> fse_inv c L"
proof -
  have s: "ino_inv {} c (L\<lparr>kern := k\<rparr>) \<longleftrightarrow> ino_inv {} c L" by (rule same_lists) simp_all
  have "watching (L\<lparr>kern := k\<rparr>) = watching L" "uv__is_closing (L\<lparr>kern := k\<rparr>) = uv__is_closing L"
    by (simp_all add: fun_eq_iff watching_def uv__is_active_def uv__is_closing_def hflags_def)
  then show ?thesis by (simp add: fse_inv_def open_inv_def s)
qed

lemma inotify_events_record:
  assumes "fse_inv None L" and "records_fs user"
  shows "inotify_events K user es L = Some (inoloop.more_update (\<lambda>l. l @ concat (map (event_calls L) es)) L)"
  using assms(1)
proof (induction es arbitrary: L)
  case Nil
  then show ?case by (cases L) simp
next
  case (Cons e es)
  let ?N = "inoloop.more_update (\<lambda>l. l @ event_calls L e) L"
  have "event_calls ?N = event_calls L" by (rule event_calls_cong) simp_all
  then show ?case
    using inotify_dispatch_records [OF Cons.prems assms(2), of K e] Cons.IH [of ?N] Cons.prems by (simp add: more_update_inv o_def)
qed

text \<open>The batches that the reads give one after the other, until there is nothing to read.\<close>

fun reads_give :: "('k, 'b) inosys_scheme \<Rightarrow> int \<Rightarrow> inotify_event list list \<Rightarrow> 'k \<Rightarrow> 'k \<Rightarrow> bool" where
  "reads_give K fd [] k k' \<longleftrightarrow> sys_inotify_read K fd k = (Inl (- INO_EAGAIN), k')"
| "reads_give K fd (es # bs) k k' \<longleftrightarrow> es \<noteq> [] \<and> fst (sys_inotify_read K fd k) = Inr es \<and> reads_give K fd bs (snd (sys_inotify_read K fd k)) k'"


section \<open>An example\<close>

text \<open>A kernel whose descriptor 7 has \<open>sk_ns\<close> batches of two events, one for a watch that is gone.\<close>

abbreviation sample_events :: "inotify_event list" where
  "sample_events \<equiv> [\<lparr>ie_wd = 9, ie_mask = UV__IN_CREATE, ie_name = ''x''\<rparr>, \<lparr>ie_wd = 1, ie_mask = UV__IN_MODIFY, ie_name = []\<rparr>]"

definition sample_inosys :: "skernel inosys" where
  "sample_inosys = fdsys.extend sample_fdsys (inosys.fields (\<lambda>k. (7, k)) (\<lambda>k. (7, k)) (\<lambda>fd p ev k. (1, k)) (\<lambda>fd wd k. k)
     (\<lambda>fd k. if sk_ns k = 0 then (Inl (- INO_EAGAIN), k) else (Inr sample_events, k\<lparr>sk_ns := sk_ns k - 1\<rparr>)))"

lemma sample_inosys_sel:
  "sys_inotify_read sample_inosys fd k = (if sk_ns k = 0 then (Inl (- INO_EAGAIN), k) else (Inr sample_events, k\<lparr>sk_ns := sk_ns k - 1\<rparr>))"
  "sys_inotify_add_watch sample_inosys fd p ev k = (1, k)"
  by (simp_all add: sample_inosys_def inosys.defs sample_fdsys_def fdsys.defs)

text \<open>The lists \<open>ws\<close> are of the handles 20 and 21, which watch a file.\<close>

definition sample_inoloop :: "u32 \<Rightarrow> addr list \<Rightarrow> (skernel, (nat \<times> addr \<times> string \<times> u32) list) inoloop_scheme" where
  "sample_inoloop fl ws = inoloop.extend (evloop.extend ((evloop.truncate sample_evloop)\<lparr>handle_queue := [20, 21], closing_handles := None,
       handles := (\<lambda>_. \<lparr>flags = fl, htype = UV_FS_EVENT, next_closing = None\<rparr>), close_cb := (\<lambda>_. None),
       kern := \<lparr>sk_interest = (\<lambda>_. None), sk_script = [], sk_ns = 1\<rparr>, inotify_fd := 7\<rparr>)
     (inoloop.fields ws (\<lambda>_. \<lparr>wl_watchers = [20, 21], iterating = False, wl_path = ''/a/b'', wl_wd = 1\<rparr>) ws [] (\<lambda>_. 1)
       (\<lambda>_. Some 50) (\<lambda>h. h + 5))) []"

lemma sample_inoloop_sel:
  "handle_queue (sample_inoloop fl ws) = [20, 21]" "handles (sample_inoloop fl ws) = (\<lambda>_. \<lparr>flags = fl, htype = UV_FS_EVENT, next_closing = None\<rparr>)"
  "hflags (sample_inoloop fl ws) h = fl" "kern (sample_inoloop fl ws) = \<lparr>sk_interest = (\<lambda>_. None), sk_script = [], sk_ns = 1\<rparr>"
  "inotify_fd (sample_inoloop fl ws) = 7" "ino_tree (sample_inoloop fl ws) = ws" "wl_mem (sample_inoloop fl ws) = ws"
  "ino_queue (sample_inoloop fl ws) = []" "inoloop.more (sample_inoloop fl ws) = []" "fe_list (sample_inoloop fl ws) h = Some 50"
  "fe_wd (sample_inoloop fl ws) h = 1" "fe_cb (sample_inoloop fl ws) h = h + 5"
  "wlists (sample_inoloop fl ws) w = \<lparr>wl_watchers = [20, 21], iterating = False, wl_path = ''/a/b'', wl_wd = 1\<rparr>"
  by (simp_all add: sample_inoloop_def inoloop.defs evloop.defs hflags_def)

lemma sample_inoloop_inv: "fse_inv None (sample_inoloop 0x6000 [50])"
proof -
  have w: "watching (sample_inoloop 0x6000 [50]) h \<longleftrightarrow> h = 20 \<or> h = 21" "\<not> uv__is_closing (sample_inoloop 0x6000 [50]) h" for h
    by (auto simp: watching_def uv__is_active_def uv__is_closing_def sample_inoloop_sel)
  show ?thesis
    by (auto simp: fse_inv_def open_inv_def ino_inv_def list_inv_def handle_ok_def queue_of_def w sample_inoloop_sel)
qed


text \<open>Handle 20 has been started; an event whose callback closes it is handled.\<close>

theorem inotify_memory_safe_witness:
  "\<exists>L M. ino_reach sample_inosys (\<lambda>_. True) (\<lambda>_ _. Some) (sample_inoloop 0x2000 []) L \<and> watching L 20 \<and>
     ino_step sample_inosys (\<lambda>_. True) (\<lambda>_ _. Some) (Ino_batch sample_events (\<lambda>_ _ _ _ _. [Ino_close 20 None])) L = Some M"
proof -
  let ?S = "sample_inoloop 0x2000 []"
  have na: "\<not> uv__is_active ?S h" "\<not> uv__is_closing ?S h" for h by (simp_all add: uv__is_active_def uv__is_closing_def sample_inoloop_sel)
  have fresh: "ino_fresh ?S" using na by (simp add: ino_fresh_def sample_inoloop_sel watching_def)
  have i: "init_inotify sample_inosys (\<lambda>_. True) ?S = Some (0, ?S)" by (simp add: init_inotify_def sample_inoloop_sel)
  let ?e = "Ino_api (Ino_start 20 3 ''/a'' (Some 50)) :: (skernel, (nat \<times> addr \<times> string \<times> u32) list) inoloop_scheme ino_event"
  have can: "ino_can sample_inosys (\<lambda>_. True) ?e ?S" using na i by (simp add: ino_can_def ino_ok_def sample_inoloop_sel)
  have "\<exists>L. ino_step sample_inosys (\<lambda>_. True) (\<lambda>_ _. Some) ?e ?S = Some L \<and> watching L 20"
    using na i
    by (simp add: ino_step_def ino_do_def uv_fs_event_start_def call_sys_def Let_def sample_inoloop_sel sample_inosys_sel find_watcher_def
        wl_insert_def fs_event_link_def wl_get_def wl_put_def watching_def)
      (simp add: handle_ops_defs uv__is_active_def hflags_def set_flags_def sample_inoloop_sel)
  then obtain L where L: "ino_step sample_inosys (\<lambda>_. True) (\<lambda>_ _. Some) ?e ?S = Some L" "watching L 20" by blast
  have r: "ino_reach sample_inosys (\<lambda>_. True) (\<lambda>_ _. Some) ?S L" by (rule ino_reach.step [OF ino_reach.start can L(1)])
  have "ino_can sample_inosys (\<lambda>_. True) (Ino_batch es prog) L" for es prog by (simp add: ino_can_def)
  then show ?thesis using inotify_memory_safe [OF fresh r] r L(2) by blast
qed

end
