(* ===== verification/Spec2Isabelle.thy ===== *)
theory Spec2Isabelle
  imports HeapInl HeapOrder Handle Timer Queue IoWatcher LoopWatcher S5 Inet Socks5Client Stream Poll Async PollHandle Closing Signal EventLoop ThreadPool FsPoll Udp Inotify
begin

text \<open>
  Verification of the event loop library libuv as it is bundled with simple_uv: the platform-independent
  core (\<open>src/src/libuv/src\<close>), the Unix event loop on Linux (\<open>src/src/libuv/src/unix\<close>), and the SOCKS5 proxy
  that is its largest sample program (\<open>src/src/libuv/samples/socks5-proxy\<close>).

  \<^bold>\<open>How the program is put together.\<close>  A loop (\<open>uv_loop_t\<close>) owns handles: timers, prepare, check and idle handles,
  async, poll and signal handles, streams, UDP
  sockets, file watchers.  \<open>uv_run\<close> turns the loop: it calls the timers that are due, the
  watchers with a pending callback, the idle and the prepare handles, waits for I/O, calls the check handles,
  and finishes the handles that are being closed.  The loop lives on as long as some handle is active and
  referenced, a request is under way or a handle is being closed.  What has a descriptor is waited for by an I/O
  watcher (\<open>uv__io_t\<close>); \<open>uv__io_poll\<close> hands the watchers to epoll and calls back those with events.  Other threads
  reach a loop through its async handles only, signal handlers through a pipe, and the workers of the thread
  pool through the loop's own async handle \<open>wq_async\<close>.

  \<^bold>\<open>The theories\<close>, in the order of their imports.  A loop is a record that each theory extends by the fields of
  \<open>uv_loop_t\<close> its component uses, and by the memory of the objects the component works on (a function of their
  address), so that the operations of the lower components are used by the higher ones as they are.

  \<^item> \<open>Prelude\<close>: names of the machine types, lemmas on words, the assertion of the option monad.
  \<^item> \<open>HeapInl\<close>, \<open>HeapOrder\<close> (\<open>heap-inl.h\<close>): the binary heap, on the memory of its nodes.  \<open>HeapInl\<close> has the code, with
    the exchange of a node and its parent written assignment by assignment; \<open>HeapOrder\<close> has the array the pointers
    represent, the locale \<open>heap_order\<close> of comparisons under which the sift loops restore the order, and the
    interface \<open>priority_queue\<close> its client sees.
  \<^item> \<open>Handle\<close> (\<open>uv-common.h\<close>, \<open>uv-common.c\<close>): the flags of a handle and \<open>active_handles\<close>, shown to be the number of
    handles that are active and referenced.
  \<^item> \<open>Timer\<close> (\<open>timer.c\<close>): starting, stopping, repeating and running timers, over the heap; the comparison of timers
    interprets \<open>heap_order\<close>.
  \<^item> \<open>Queue\<close> (\<open>queue.h\<close>): the macros, on the memory of the links, shown to refine lists (the locale \<open>queue_pair\<close>); the
    other theories have lists where the code has queues.
  \<^item> \<open>IoWatcher\<close> (\<open>core.c\<close>): the table of watchers and its growth, starting and stopping a watcher, the pending queue.
  \<^item> \<open>LoopWatcher\<close> (\<open>loop-watcher.c\<close>): prepare, check and idle handles.
  \<^item> \<open>Poll\<close> (\<open>linux-core.c\<close>): \<open>uv__io_poll\<close>, the clock, \<open>uv__platform_invalidate_fd\<close>.  The kernel is a state of a type
    of its own and a record of functions, the system calls; \<open>epoll_laws\<close> says what is relied on.
  \<^item> \<open>Async\<close> (\<open>async.c\<close>, \<open>uv__make_pipe\<close>): async handles; then a step relation that interleaves any number of sending
    threads with the loop, at the granularity of their accesses to the flags, the queue and the descriptor.
  \<^item> \<open>PollHandle\<close> (\<open>poll.c\<close>): poll handles.
  \<^item> \<open>Closing\<close> (\<open>core.c\<close>): the chain of handles that are being closed, and finishing them.
  \<^item> \<open>Signal\<close> (\<open>signal.c\<close>): the tree of signal watchers, the lock, the handler and the dispatch of its messages; a step
    relation lets signals arrive between any two operations of the program.
  \<^item> \<open>EventLoop\<close> (\<open>core.c\<close>, \<open>loop.c\<close>): \<open>uv_run\<close> composed of all the phases above, \<open>uv_close\<close>, the timeout of the poll,
    and the setting up and closing of a loop.
  \<^item> \<open>ThreadPool\<close> (\<open>threadpool.c\<close>): the workers, their queue and condition, submitting, cancelling and completing
    requests; a step relation interleaves the critical sections of the workers and of the loop's thread.
  \<^item> \<open>FsPoll\<close> (\<open>fs-poll.c\<close>): watching a file by repeated \<open>stat\<close> requests: the contexts that outlive their handles, over the timers
    and the closing of handles; and the changes that are reported.
  \<^item> \<open>Stream\<close> (\<open>stream.c\<close>): the write queue, partial writes, reading, accepting, descriptors sent along, shutting down
    and destroying streams.
  \<^item> \<open>Descriptor\<close> (\<open>core.c\<close>): closing a descriptor and its close-on-exec flag.
  \<^item> \<open>Udp\<close> (\<open>udp.c\<close>): UDP handles: binding, the queue of datagrams and its completion, receiving, closing, and the options.
  \<^item> \<open>Inotify\<close> (\<open>linux-inotify.c\<close>): file watchers: the lists of handles that share a watch descriptor, their sharing and freeing,
    and the reading of events, whose callbacks may start and stop handles.
  \<^item> \<open>Inet\<close> (\<open>inet.c\<close>): the text form of IPv4 and IPv6 addresses.
  \<^item> \<open>S5\<close>, \<open>Socks5Client\<close> (\<open>s5.c\<close>, \<open>client.c\<close>, and the access checks of \<open>server.c\<close>): the incremental parser of the
    protocol, and the session with its two connections as a state machine driven by the callbacks of the loop.

  \<^bold>\<open>Conventions.\<close>  An object is its address; a handle, its I/O watcher and its heap node are one object.  Machine
  integers are words of their width, \<open>int\<close> values of C that cannot overflow are integers.  A failed \<open>assert\<close>, an
  \<open>abort\<close>, a write outside of a buffer, following a NULL pointer, and a loop that does not end are \<open>None\<close>, so that
  a theorem that says \<open>= Some \<dots>\<close> says that none of these happens.  Error codes are negative integers as in C.
  A callback is an identifier; what the user's callbacks do is a function that the operations take.  System calls
  are functions on a kernel state (\<open>Poll\<close> and what extends it) or lists of their results (\<open>Stream\<close>).

  \<^bold>\<open>What the lemmas show.\<close>  Each component has an invariant and the lemmas that its operations keep it:
  \<open>heap_inv\<close>, \<open>handle_inv\<close>, \<open>timer_inv\<close>, \<open>io_inv\<close>, \<open>lw_inv\<close>, \<open>poll_inv\<close> (the loop and the kernel agree), \<open>closing_inv\<close>,
  \<open>stream_inv\<close>, \<open>loop_inv\<close>; the invariants of the concurrent components, kept by every step, are in \<open>Async\<close>, \<open>Signal\<close> and
  \<open>ThreadPool\<close>, those of a session in \<open>Socks5Client\<close>.  On top of them stand the numbered properties:
  what one turn of the loop calls and in which order (C1), that every request given to the thread pool
  is completed exactly once, that a handle that is closed gets its close callback and no other, that no wake-up and
  no signal is lost or reaches a handle that is gone, that a session of the proxy never fails an assertion, loses
  data or uses freed memory as long as no timer interferes, the functional behaviour of heap, timers, streams and
  poll, the round trips of the two text formats, and the memory safety of the parser.  The error properties prove,
  on the model, the defects that the modelling found.

  \<^bold>\<open>Bounds.\<close>  Loops that the C code does not bound are \<open>partial_function (option)\<close>, so that there is no fuel; that
  they end is part of the theorems about them.  The bounds in the model are those of the code: 32 reads in a
  \<open>uv__read\<close>, 48 batches of 1024 events in a \<open>uv__io_poll\<close>, 32 messages of 16 bytes in a read of
  \<open>uv__signal_event\<close>, 128 threads, 1024 buffers in a write, 33 datagrams in a
  \<open>uv__udp_recvmsg\<close>.

  \<^bold>\<open>Not modelled.\<close>  The Windows half (\<open>src/win\<close>) and the other Unixes (\<open>aix.c\<close>, \<open>darwin.c\<close>, \<open>kqueue.c\<close>, \<dots>) are other
  programs with the same interface.  \<open>fs.c\<close>, \<open>getaddrinfo.c\<close>, \<open>getnameinfo.c\<close>, \<open>thread.c\<close>, \<open>dl.c\<close>, \<open>tty.c\<close>, \<open>proctitle.c\<close> and
  \<open>linux-syscalls.c\<close> wrap one call of the C library or the kernel per function: their content is the behaviour of that
  call.  Of \<open>process.c\<close> the making of pipes is modelled, forking is not; TCP and pipe handles are streams
  and set up a socket.  What mutexes and conditions do is
  the atomicity and the blocking of the steps.  The headers under \<open>openssl\<close> belong to another library.  The C++
  wrapper \<open>simple_uv\<close> and its logger log4z are glue in another language.
\<close>

end
